(* ===== verification/Prelude.thy ===== *)
theory Prelude
  imports Main "HOL-Library.Word"
begin

text \<open>
  Shared vocabulary of the development: the machine integer types of the C++ sources, the
  outcome of running a piece of C++ code, the theorem collections the component theories
  add to, and generic facts on words and lists that several components use.
\<close>

unbundle bit_operations_syntax

section \<open>Machine integers\<close>

type_synonym u8 = "8 word"
type_synonym u16 = "16 word"
type_synonym u32 = "32 word"
type_synonym u64 = "64 word"

section \<open>Outcomes of C++ code\<close>

text \<open>
  A C++ function body can return, throw, spin for ever on a variable that nobody else
  changes, or run into undefined behaviour (reading an object that is not alive, indexing
  outside an array, ...). Every branch of the code is one of these four values.
\<close>

datatype 'a run = Ret 'a | Throw string | Spin | UB

fun run_bind :: "'a run \<Rightarrow> ('a \<Rightarrow> 'b run) \<Rightarrow> 'b run" where
  "run_bind (Ret x) f = f x"
| "run_bind (Throw e) f = Throw e"
| "run_bind Spin f = Spin"
| "run_bind UB f = UB"

fun returns :: "'a run \<Rightarrow> bool" where
  "returns (Ret _) = True"
| "returns _ = False"

lemma run_bind_Ret_iff: "run_bind m f = Ret y \<longleftrightarrow> (\<exists>x. m = Ret x \<and> f x = Ret y)"
  by (cases m) auto

lemma run_bind_assoc: "run_bind (run_bind m f) g = run_bind m (\<lambda>x. run_bind (f x) g)"
  by (cases m) auto

named_theorems window_simps \<open>facts that move positions and slots of ring buffers\<close>
named_theorems word_nat \<open>conversions from words to natural numbers\<close>

section \<open>Words as natural numbers\<close>

lemma unat_u32_less [simp]: "unat (w :: u32) < 4294967296"
  using unsigned_less [of w] by simp

lemma unat_add_u32: "unat ((a :: u32) + b) = (unat a + unat b) mod 4294967296"
  by (simp add: unat_word_ariths)

lemma unat_of_nat_u32 [word_nat]: "n < 4294967296 \<Longrightarrow> unat (of_nat n :: u32) = n"
  by (simp add: unat_of_nat)

lemma unat_of_nat_le_u32 [word_nat]: "n \<le> unat (m :: u32) \<Longrightarrow> unat (of_nat n :: u32) = n"
  by (metis le_less_trans unat_u32_less unat_of_nat_u32)

lemma of_nat_eq_u32: "n \<le> unat (m :: u32) \<Longrightarrow> of_nat n = m \<longleftrightarrow> n = unat m"
  by (auto simp: unat_of_nat_le_u32 dest: arg_cong [where f = unat])

lemma of_nat_0_u32: "n \<le> unat (m :: u32) \<Longrightarrow> of_nat n = (0 :: u32) \<longleftrightarrow> n = 0"
  by (auto simp: unat_of_nat_le_u32 dest: arg_cong [where f = unat])

lemma unat_pow2_u32 [word_nat]: "k \<le> 31 \<Longrightarrow> unat (2 ^ k :: u32) = 2 ^ k"
proof -
  assume "k \<le> 31"
  then have "(2 :: nat) ^ k \<le> 2 ^ 31" by (intro power_increasing) simp_all
  then show ?thesis using unat_of_nat_u32 [of "2 ^ k"] by simp
qed

lemma pow2_le_31: "k \<le> 31 \<Longrightarrow> (2 :: nat) ^ k \<le> 2147483648"
  using power_increasing [of k 31 "2 :: nat"] by simp

lemma unat_mask_u32 [word_nat]: "k \<le> 31 \<Longrightarrow> unat (mask k :: u32) = 2 ^ k - 1"
  by (simp add: mask_eq_decr_exp unat_sub word_le_nat_alt unat_pow2_u32)

lemma unat_minus_one_u32 [word_nat]: "unat (- 1 :: u32) = 4294967295"
  by (simp add: unsigned_minus_1_eq_mask mask_eq_exp_minus_1)

lemma less_shift_u32:
  assumes "0 < n" "n < 4294967296"
  shows "(t :: u32) < t + of_nat n \<longleftrightarrow> unat t + n < 4294967296"
proof -
  have u: "unat (t + of_nat n) = (unat t + n) mod 4294967296"
    using assms(2) by (simp add: unat_add_u32 unat_of_nat_u32)
  show ?thesis
  proof (cases "unat t + n < 4294967296")
    case True
    then show ?thesis using assms(1) u by (simp add: word_less_nat_alt)
  next
    case False
    then have "unat (t + of_nat n) = unat t + n - 4294967296"
      using u unat_u32_less [of t] assms(2) by (simp add: mod_if [of "unat t + n"])
    then show ?thesis using False assms(2) by (simp add: word_less_nat_alt)
  qed
qed

lemma mod_add_inj_le:
  assumes "i \<le> j" "j < n" "(t + i) mod n = (t + j) mod (n :: nat)"
  shows "i = j"
proof -
  have "n dvd (t + j) - (t + i)"
    using assms(1,3) by (metis mod_eq_dvd_iff_nat nat_add_left_cancel_le)
  then have "n dvd j - i" by simp
  moreover have "j - i < n" using assms(2) by simp
  ultimately have "j - i = 0" by (metis dvd_imp_le not_gr_zero not_le)
  with assms(1) show ?thesis by simp
qed

lemma mod_add_inj:
  "i < n \<Longrightarrow> j < n \<Longrightarrow> (t + i) mod n = (t + j) mod (n :: nat) \<Longrightarrow> i = j"
  by (metis mod_add_inj_le nat_le_linear)

section \<open>A word used as a counter with a flag in bit 0\<close>

lemma unat_two: "(2 :: nat) < 2 ^ LENGTH('w) \<Longrightarrow> unat (2 :: 'w::len word) = 2"
  using unat_of_nat [where 'a = 'w, of 2] by simp

lemma unat_add_2: "unat (l :: 'w::len word) + 2 < 2 ^ LENGTH('w) \<Longrightarrow> unat (l + 2) = unat l + 2"
  using unat_two [where 'w = 'w] by (simp add: unat_word_ariths)

lemma unat_sub_2:
  assumes "2 \<le> unat (l :: 'w::len word)"
  shows "unat (l - 2) = unat l - 2"
proof -
  have "unat (2 :: 'w word) = 2" using assms unsigned_less [of l, where ?'a = nat] by (intro unat_two) linarith
  with assms show ?thesis by (simp add: unat_sub word_le_nat_alt)
qed

lemma odd_unat_iff: "odd (unat (l :: 'w::len word)) \<longleftrightarrow> odd l"
  using bit_unsigned_iff [of l 0, where ?'a = nat] by (simp add: bit_0)

lemma and_1_odd: "(l :: 'w::len word) AND 1 \<noteq> 0 \<longleftrightarrow> odd (unat l)"
  by (simp add: and_one_eq odd_unat_iff del: even_iff_mod_2_eq_zero) (simp add: odd_iff_mod_2_eq_one)

lemma unat_xor_1: "odd (unat (l :: 'w::len word)) \<Longrightarrow> unat (l XOR 1) = unat l - 1"
proof -
  assume o: "odd (unat l)"
  then have "l \<noteq> 0" by auto
  then have "unat (l - 1) = unat l - 1" by (simp add: unat_minus_one)
  with o show ?thesis by (simp add: odd_unat_iff xor_one_eq)
qed

lemma unat_or_1: "even (unat (l :: 'w::len word)) \<Longrightarrow> unat (l OR 1) = unat l + 1"
proof -
  assume e: "even (unat l)"
  have "even ((2 :: nat) ^ LENGTH('w))" by simp
  with e have "unat l + 1 \<noteq> 2 ^ LENGTH('w)" by (metis even_add odd_one)
  then have "unat l + 1 < 2 ^ LENGTH('w)" using unsigned_less [of l, where ?'a = nat] by linarith
  then have "unat (l + 1) = unat l + 1" by (simp add: unat_word_ariths)
  with e show ?thesis using odd_unat_iff [of l] by (simp add: or_one_eq)
qed

lemma and_not_1_eq_0: "(l :: 'w::len word) AND NOT 1 = 0 \<longleftrightarrow> unat l \<le> 1"
proof
  assume a: "l AND NOT 1 = 0"
  have "l = (l AND NOT 1) OR (l AND 1)"
    by (simp flip: bit.conj_disj_distrib)
  also have "\<dots> = of_bool (odd l)" using a by (simp add: and_one_eq mod2_eq_if)
  finally have "l = 0 \<or> l = 1" by (cases "odd l") simp_all
  then show "unat l \<le> 1" by auto
next
  assume "unat l \<le> 1"
  then have "unat l = 0 \<or> unat l = 1" by linarith
  then have "l = 0 \<or> l = 1" by (simp add: word_unat_eq_iff)
  then show "l AND NOT 1 = 0" by auto
qed

end
