(* ===== verification/Ring_Window.thy ===== *)
theory Ring_Window
  imports Prelude
begin

text \<open>
  What every ring buffer of the repository relies on: 32-bit positions that only ever
  grow (and wrap), a function from positions to memory cells, and the fact that positions
  of one window never share a cell. A cell is \<open>Some x\<close> while it holds a constructed object
  and \<open>None\<close> while it is raw memory. Also the bit trick by which the sources round a size
  up to a power of two.
\<close>

section \<open>Windows of positions\<close>

definition window_inj :: "(u32 \<Rightarrow> 's) \<Rightarrow> nat \<Rightarrow> u32 \<Rightarrow> bool" where
  "window_inj slot n t \<longleftrightarrow> inj_on (\<lambda>i. slot (t + of_nat i)) {..<n}"

definition window_cells :: "(u32 \<Rightarrow> 's) \<Rightarrow> nat \<Rightarrow> u32 \<Rightarrow> 's set" where
  "window_cells slot n t = (\<lambda>i. slot (t + of_nat i)) ` {..<n}"

text \<open>\<open>ring_holds slot mem t xs\<close>: the live objects in memory are exactly \<open>xs\<close>, from position \<open>t\<close> on.\<close>

definition ring_holds :: "(u32 \<Rightarrow> 's) \<Rightarrow> ('s \<Rightarrow> 'a option) \<Rightarrow> u32 \<Rightarrow> 'a list \<Rightarrow> bool" where
  "ring_holds slot mem t xs \<longleftrightarrow>
     (\<forall>i<length xs. mem (slot (t + of_nat i)) = Some (xs ! i)) \<and>
     (\<forall>s. s \<notin> window_cells slot (length xs) t \<longrightarrow> mem s = None)"

lemma window_injD:
  "window_inj slot n t \<Longrightarrow> i < n \<Longrightarrow> j < n \<Longrightarrow> slot (t + of_nat i) = slot (t + of_nat j) \<Longrightarrow> i = j"
  by (auto simp: window_inj_def inj_on_def)

lemma window_inj_mono: "window_inj slot n t \<Longrightarrow> m \<le> n \<Longrightarrow> window_inj slot m t"
  by (auto simp: window_inj_def inj_on_def)

lemma window_inj_1 [simp]: "window_inj slot (Suc 0) t"
  by (auto simp: window_inj_def inj_on_def)

lemma window_inj_shift: "window_inj slot (Suc n) t \<Longrightarrow> window_inj slot n (t + 1)"
  unfolding window_inj_def
proof (rule inj_onI)
  fix i j assume inj: "inj_on (\<lambda>i. slot (t + of_nat i)) {..<Suc n}"
    and ij: "i \<in> {..<n}" "j \<in> {..<n}" "slot (t + 1 + of_nat i) = slot (t + 1 + of_nat j)"
  then have "Suc i = Suc j"
    by (intro inj_onD [OF inj]) (simp_all add: add.assoc)
  then show "i = j" by simp
qed

lemma window_cells_Suc:
  "window_cells slot (Suc n) t = insert (slot (t + of_nat n)) (window_cells slot n t)"
  by (simp add: window_cells_def lessThan_Suc)

lemma window_cells_0 [simp]: "window_cells slot 0 t = {}"
  by (simp add: window_cells_def)

lemma window_cells_Suc_front:
  "window_cells slot (Suc n) t = insert (slot t) (window_cells slot n (t + 1))"
proof -
  have "{..<Suc n} = insert 0 (Suc ` {..<n})"
    by (auto simp: image_iff less_Suc_eq_0_disj)
  then show ?thesis
    by (simp add: window_cells_def image_image add.assoc)
qed

lemma window_next_notin:
  assumes "window_inj slot N t" "n < N"
  shows "slot (t + of_nat n) \<notin> window_cells slot n t"
proof
  assume "slot (t + of_nat n) \<in> window_cells slot n t"
  then obtain i where i: "i < n" "slot (t + of_nat n) = slot (t + of_nat i)"
    by (auto simp: window_cells_def)
  from window_injD [OF assms(1), of n i] i assms(2) show False by simp
qed

lemma window_first_notin:
  assumes "window_inj slot (Suc n) t"
  shows "slot t \<notin> window_cells slot n (t + 1)"
proof
  assume "slot t \<in> window_cells slot n (t + 1)"
  then obtain i where i: "i < n" "slot (t + of_nat 0) = slot (t + of_nat (Suc i))"
    by (auto simp: window_cells_def add.assoc)
  from i window_injD [OF assms, of 0 "Suc i"] show False by simp
qed

lemma ring_holds_Nil: "ring_holds slot mem t [] \<longleftrightarrow> mem = (\<lambda>_. None)"
  by (auto simp: ring_holds_def)

lemma ring_holds_nth:
  "ring_holds slot mem t xs \<Longrightarrow> i < length xs \<Longrightarrow> mem (slot (t + of_nat i)) = Some (xs ! i)"
  by (simp add: ring_holds_def)

lemma ring_holds_dead:
  assumes "ring_holds slot mem t xs" "window_inj slot N t" "length xs \<le> i" "i < N"
  shows "mem (slot (t + of_nat i)) = None"
proof -
  have "slot (t + of_nat i) \<notin> window_cells slot (length xs) t"
    using window_next_notin [OF assms(2), of i] assms(3-4)
    by (auto simp: window_cells_def)
  with assms(1) show ?thesis by (simp add: ring_holds_def)
qed

lemma ring_holds_push [window_simps]:
  assumes "ring_holds slot mem t xs" "window_inj slot N t" "length xs < N"
  shows "ring_holds slot (mem(slot (t + of_nat (length xs)) \<mapsto> x)) t (xs @ [x])"
proof -
  have "slot (t + of_nat i) \<noteq> slot (t + of_nat (length xs))" if "i < length xs" for i
    using window_injD [OF assms(2), of i "length xs"] assms(3) that by auto
  then show ?thesis
    using assms(1) by (auto simp: ring_holds_def nth_append window_cells_Suc less_Suc_eq)
qed

lemma ring_holds_pop [window_simps]:
  assumes "ring_holds slot mem t (x # xs)" "window_inj slot (Suc (length xs)) t"
  shows "mem (slot t) = Some x" and "ring_holds slot (mem(slot t := None)) (t + 1) xs"
proof -
  show "mem (slot t) = Some x"
    using ring_holds_nth [OF assms(1), of 0] by simp
  have "slot (t + 1 + of_nat i) \<noteq> slot t \<and> mem (slot (t + 1 + of_nat i)) = Some (xs ! i)"
    if "i < length xs" for i
    using ring_holds_nth [OF assms(1), of "Suc i"] window_injD [OF assms(2), of 0 "Suc i"] that
    by (auto simp: add.assoc)
  then show "ring_holds slot (mem(slot t := None)) (t + 1) xs"
    using assms(1) by (auto simp: ring_holds_def window_cells_Suc_front)
qed

section \<open>The interface of a ring layout\<close>

text \<open>
  A layout is good for queues of up to \<open>size\<close> elements when every window of \<open>size\<close>
  positions, wherever it starts, uses different cells. The queues are clients of this
  interface; the layouts of the sources are interpretations of it.
\<close>

locale ring_layout =
  fixes slot :: "u32 \<Rightarrow> 's" and size :: nat
  assumes inj: "window_inj slot size t"
begin

lemma push_holds:
  "ring_holds slot mem t xs \<Longrightarrow> length xs < size \<Longrightarrow>
   ring_holds slot (mem(slot (t + of_nat (length xs)) \<mapsto> x)) t (xs @ [x])"
  by (rule ring_holds_push [OF _ inj])

lemma pop_holds:
  "ring_holds slot mem t (x # xs) \<Longrightarrow> length xs < size \<Longrightarrow>
   mem (slot t) = Some x \<and> ring_holds slot (mem(slot t := None)) (t + 1) xs"
  using ring_holds_pop [OF _ window_inj_mono [OF inj]] by (metis Suc_leI)

lemma dead_cell:
  "ring_holds slot mem t xs \<Longrightarrow> length xs \<le> i \<Longrightarrow> i < size \<Longrightarrow> mem (slot (t + of_nat i)) = None"
  by (rule ring_holds_dead [OF _ inj])

lemma distinct_cells:
  assumes "i < j" "j < i + size"
  shows "slot (of_nat i) \<noteq> slot (of_nat j)"
proof
  assume "slot (of_nat i) = slot (of_nat j)"
  then have "slot (of_nat i + of_nat 0) = slot (of_nat i + of_nat (j - i))"
    using assms(1) by (simp add: of_nat_add [symmetric] del: of_nat_add)
  moreover have "j - i < size" "0 < size"
    using assms by arith+
  ultimately have "0 = j - i"
    by (intro window_injD [OF inj])
  with assms(1) show False by simp
qed

end

section \<open>Masked positions\<close>

lemma unat_and_mask: "unat ((q :: u32) AND mask k) = unat q mod 2 ^ k"
  by (metis take_bit_eq_mask unsigned_take_bit_eq take_bit_eq_mod)

lemma and_mask_inj:
  assumes "k \<le> 31" "(p + of_nat i :: u32) AND mask k = (p + of_nat j) AND mask k" "i < 2 ^ k" "j < 2 ^ k"
  shows "i = j"
proof -
  have le: "(2 :: nat) ^ k \<le> 2147483648" using assms(1) by (rule pow2_le_31)
  have "unat (p + of_nat n) mod 2 ^ k = (unat p + n) mod 2 ^ k" if "n < 2 ^ k" for n
  proof -
    have "unat (of_nat n :: u32) = n" using that le by (intro unat_of_nat_u32) linarith
    then have "unat (p + of_nat n) = (unat p + n) mod 2 ^ 32" by (simp add: unat_word_ariths)
    moreover have "(2 :: nat) ^ k dvd 2 ^ 32" using assms(1) by (intro le_imp_power_dvd) simp
    ultimately show ?thesis by (simp only: mod_mod_cancel)
  qed
  with assms have "(unat p + i) mod 2 ^ k = (unat p + j) mod 2 ^ k" by (metis unat_and_mask)
  with assms(3,4) mod_add_inj show ?thesis by blast
qed

lemma window_inj_mask: "k \<le> 31 \<Longrightarrow> window_inj (\<lambda>i. i AND mask k) (2 ^ k) t"
  using and_mask_inj [of k t] by (auto simp: window_inj_def intro!: inj_onI)

lemma window_inj_comp: "window_inj slot n t \<Longrightarrow> inj f \<Longrightarrow> window_inj (\<lambda>i. f (slot i)) n t"
  by (auto simp: window_inj_def inj_on_def dest: injD)

section \<open>Rounding up to a power of two\<close>

text \<open>
  One step \<open>x |= x >> d\<close>, and the five steps that the sources write one after the other.
\<close>

definition smear_step :: "nat \<Rightarrow> u32 \<Rightarrow> u32" where
  "smear_step d x = x OR drop_bit d x"

definition smear32 :: "u32 \<Rightarrow> u32" where
  "smear32 x = smear_step 16 (smear_step 8 (smear_step 4 (smear_step 2 (smear_step 1 x))))"

lemma bit_smear_step:
  assumes "\<And>n. bit x n \<longleftrightarrow> (\<exists>j<d. bit s (n + j))"
  shows "bit (smear_step d x) n \<longleftrightarrow> (\<exists>j<2 * d. bit s (n + j))"
proof
  assume "bit (smear_step d x) n"
  then have "bit x n \<or> bit x (n + d)"
    by (simp add: smear_step_def bit_or_iff bit_drop_bit_eq add.commute)
  then show "\<exists>j<2 * d. bit s (n + j)"
    using assms by (metis (no_types, lifting) add.assoc mult_2 nat_add_left_cancel_less trans_less_add1)
next
  assume "\<exists>j<2 * d. bit s (n + j)"
  then obtain j where j: "j < 2 * d" "bit s (n + j)" by blast
  show "bit (smear_step d x) n"
  proof (cases "j < d")
    case True
    with j assms have "bit x n" by blast
    then show ?thesis by (simp add: smear_step_def bit_or_iff)
  next
    case False
    then have "j - d < d" "bit s (n + d + (j - d))"
      using j by auto
    then have "bit x (n + d)" using assms by blast
    then show ?thesis by (simp add: smear_step_def bit_or_iff bit_drop_bit_eq add.commute)
  qed
qed

lemma bit_smear32: "bit (smear32 s) n \<longleftrightarrow> (\<exists>j. bit s (n + j))"
proof -
  have 0: "bit s n \<longleftrightarrow> (\<exists>j<1. bit s (n + j))" for n by simp
  have "bit (smear32 s) n \<longleftrightarrow> (\<exists>j<32. bit s (n + j))"
    using bit_smear_step [OF bit_smear_step [OF bit_smear_step [OF bit_smear_step [OF bit_smear_step [OF 0]]]], of n]
    by (simp add: smear32_def)
  moreover have "j < 32" if "bit s (n + j)" for j
    using that bit_imp_le_length [of s "n + j"] by simp
  ultimately show ?thesis by blast
qed

lemma bit_u32_unat: "bit (s :: u32) m \<longleftrightarrow> odd (unat s div 2 ^ m)"
proof -
  have "bit s m \<longleftrightarrow> bit (unat s) m" by (simp add: bit_unsigned_iff)
  then show ?thesis by (simp add: bit_iff_odd)
qed

lemma smear32_mask:
  assumes "2 ^ h \<le> unat s" "unat s < 2 ^ Suc h" "h < 32"
  shows "smear32 s = mask (Suc h)"
proof (rule bit_eqI)
  fix n assume "possible_bit TYPE(u32) n"
  then have n32: "n < 32" by (simp add: possible_bit_def)
  have top: "bit s h"
  proof -
    have "unat s div 2 ^ h = 1"
      using assms(1,2) by (intro div_nat_eqI) auto
    then show ?thesis by (simp add: bit_u32_unat)
  qed
  have above: "\<not> bit s m" if "h < m" for m
  proof -
    have "unat s < 2 ^ m"
      using assms(2) that by (meson Suc_leI less_le_trans one_le_numeral power_increasing)
    then show ?thesis by (simp add: bit_u32_unat)
  qed
  show "bit (smear32 s) n \<longleftrightarrow> bit (mask (Suc h) :: u32) n"
  proof (cases "n \<le> h")
    case True
    with top have "bit s (n + (h - n))" by simp
    then have "bit (smear32 s) n" unfolding bit_smear32 by (rule exI)
    with True n32 show ?thesis by (simp add: bit_mask_iff)
  next
    case False
    then have "\<not> bit (smear32 s) n" by (simp add: bit_smear32 above)
    with False show ?thesis by (simp add: bit_mask_iff)
  qed
qed

text \<open>The whole trick, \<open>--n\<close>, the five steps, \<open>n + 1\<close>: the least power of two not below \<open>n\<close>.\<close>

definition round_up32 :: "u32 \<Rightarrow> u32" where
  "round_up32 n = smear32 (n - 1) + 1"

lemma ex_bit_length: "0 < (m :: nat) \<Longrightarrow> \<exists>h. 2 ^ h \<le> m \<and> m < 2 ^ Suc h"
  using ex_power_ivl1 [of 2 m] by auto

lemma round_up32_spec:
  assumes "1 \<le> unat n" "unat n \<le> 2 ^ 31"
  obtains k where "k \<le> 31" "round_up32 n = 2 ^ k" "unat n \<le> 2 ^ k" "2 ^ k < 2 * unat n"
proof (cases "unat n = 1")
  case True
  then have "n = 1" by (simp add: word_unat_eq_iff)
  then have "round_up32 n = 2 ^ 0" by (simp add: round_up32_def smear32_def smear_step_def)
  from that [OF _ this] True show ?thesis by simp
next
  case False
  define m where "m = unat n - 1"
  have m: "unat (n - 1) = m" "0 < m" "m < 2 ^ 31"
    using assms False by (auto simp: m_def unat_sub word_le_nat_alt)
  obtain h where h: "2 ^ h \<le> m" "m < 2 ^ Suc h"
    using ex_bit_length [OF m(2)] by blast
  have "h < 31"
    using h(1) m(3) by (metis le_less_trans nat_power_less_imp_less numeral_2_eq_2 zero_less_Suc)
  with h m have "round_up32 n = mask (Suc h) + 1"
    by (simp add: round_up32_def smear32_mask)
  then have r: "round_up32 n = 2 ^ Suc h"
    by (simp add: mask_eq_decr_exp)
  from that [OF _ r] \<open>h < 31\<close> h show ?thesis
    by (simp add: m_def)
qed

end
