(* ===== verification/ConQueue.thy ===== *)
theory ConQueue
  imports Ring_Window
begin

text \<open>
  \<open>class ConQueue\<close> of conqueue.h, run by one thread at a time: the constructor with its
  checks, the observers, \<open>clear\<close>, the destructor, \<open>emplace\<close>/\<open>push\<close>, \<open>push_bulk\<close>, \<open>pop\<close> and
  \<open>pop_bulk\<close>, each with its three producer or consumer modes. The runs of several
  threads are in ConQueue_Conc, over the same helpers.
\<close>

section \<open>Flags and state\<close>

definition F_SP_ENQ :: u32 where "F_SP_ENQ = 1"
definition F_SC_DEQ :: u32 where "F_SC_DEQ = 2"
definition F_EXACT_SZ :: u32 where "F_EXACT_SZ = 4"
definition F_MP_RTS_ENQ :: u32 where "F_MP_RTS_ENQ = 8"
definition F_MC_RTS_DEQ :: u32 where "F_MC_RTS_DEQ = 16"
definition F_MP_ENQ :: u32 where "F_MP_ENQ = 32"
definition F_MC_DEQ :: u32 where "F_MC_DEQ = 64"

lemmas conq_flag_defs =
  F_SP_ENQ_def F_SC_DEQ_def F_EXACT_SZ_def F_MP_RTS_ENQ_def F_MC_RTS_DEQ_def F_MP_ENQ_def F_MC_DEQ_def

text \<open>The union \<open>po_val_t\<close>: reading \<open>raw\<close> is reading both halves at once.\<close>

record po_val =
  pos :: u32
  cnt :: u32

text \<open>
  \<open>ring\<close> is the array's memory: \<open>Some x\<close> where an object is alive, \<open>None\<close> where memory is raw;
  \<open>ring_cells\<close> is the number of cells that were allocated.
\<close>

record 'a conqueue =
  ring :: "nat \<Rightarrow> 'a option"
  ring_cells :: nat
  self_alloc :: bool
  flags :: u32
  count_mask :: u32
  max_size :: u32
  prod_head :: po_val
  prod_tail :: po_val
  cons_head :: po_val
  cons_tail :: po_val

definition has_flag :: "u32 \<Rightarrow> u32 \<Rightarrow> bool" where
  "has_flag fl f \<longleftrightarrow> fl AND f \<noteq> 0"

definition aligned_size :: "u32 \<Rightarrow> u32 \<Rightarrow> u32" where
  "aligned_size sz fl =
     (let sz = (if \<not> has_flag fl F_EXACT_SZ
                  then let s = sz - 1;
                           s = s OR drop_bit 1 s;
                           s = s OR drop_bit 2 s;
                           s = s OR drop_bit 4 s;
                           s = s OR drop_bit 8 s
                       in s OR drop_bit 16 s
                  else sz)
      in sz + 1)"

definition to_id :: "'a conqueue \<Rightarrow> u32 \<Rightarrow> u32" where
  "to_id q i = (if has_flag (flags q) F_EXACT_SZ then i mod count_mask q else i AND count_mask q)"

section \<open>Construction and observers\<close>

text \<open>
  The constructor over a caller's array: \<open>None\<close> is the null pointer, \<open>Some n\<close> an array of
  \<open>n\<close> raw cells.
\<close>

definition conq_default_flags :: "u32 \<Rightarrow> u32" where
  "conq_default_flags fl =
     (let fl = (if \<not> has_flag fl (F_SP_ENQ OR F_MP_RTS_ENQ OR F_MP_ENQ) then fl OR F_MP_ENQ else fl)
      in if \<not> has_flag fl (F_SC_DEQ OR F_MC_RTS_DEQ OR F_MC_DEQ) then fl OR F_MC_DEQ else fl)"

definition conq_ctor :: "nat option \<Rightarrow> u32 \<Rightarrow> u32 \<Rightarrow> 'a conqueue run" where
  "conq_ctor rg maxsz fl =
     (case rg of None \<Rightarrow> Throw ''ring array is null''
      | Some n \<Rightarrow>
        if maxsz = 0 then Throw ''max_size is 0''
        else if has_flag fl F_SP_ENQ \<and> has_flag fl (F_MP_RTS_ENQ OR F_MP_ENQ)
          then Throw ''queue producer flag error''
        else if has_flag fl F_MP_RTS_ENQ \<and> has_flag fl F_MP_ENQ
          then Throw ''queue producer flag error''
        else if has_flag fl F_SC_DEQ \<and> has_flag fl (F_MC_RTS_DEQ OR F_MC_DEQ)
          then Throw ''queue consumer flag error''
        else if has_flag fl F_MC_RTS_DEQ \<and> has_flag fl F_MC_DEQ
          then Throw ''queue consumer flag error''
        else let fl = conq_default_flags fl; z = \<lparr>pos = 0, cnt = 0\<rparr> in
          Ret \<lparr>ring = (\<lambda>_. None), ring_cells = n, self_alloc = False, flags = fl,
               count_mask = aligned_size maxsz fl - 1, max_size = maxsz,
               prod_head = z, prod_tail = z, cons_head = z, cons_tail = z\<rparr>)"

text \<open>The delegating constructor: \<open>Alloc().allocate\<close> gives raw cells and does not fail.\<close>

definition conq_ctor_alloc :: "u32 \<Rightarrow> u32 \<Rightarrow> 'a conqueue run" where
  "conq_ctor_alloc maxsz fl =
     run_bind (conq_ctor (Some (unat (aligned_size maxsz fl))) maxsz fl)
       (\<lambda>q. Ret (q\<lparr>self_alloc := True\<rparr>))"

definition conq_capacity :: "'a conqueue \<Rightarrow> u32" where
  "conq_capacity q = max_size q"

definition conq_size :: "'a conqueue \<Rightarrow> u32" where
  "conq_size q = pos (prod_tail q) - pos (cons_tail q)"

definition conq_empty :: "'a conqueue \<Rightarrow> bool" where
  "conq_empty q \<longleftrightarrow> pos (prod_tail q) = pos (cons_tail q)"

definition conq_full :: "'a conqueue \<Rightarrow> bool" where
  "conq_full q \<longleftrightarrow> pos (prod_tail q) - pos (cons_tail q) = conq_capacity q"

text \<open>\<open>top\<close> indexes the array with the raw position, without \<open>to_id\<close>.\<close>

definition conq_top :: "'a conqueue \<Rightarrow> 'a run" where
  "conq_top q =
     (let k = unat (pos (cons_tail q)) in
      if k < ring_cells q then case ring q k of Some x \<Rightarrow> Ret x | None \<Rightarrow> UB else UB)"

section \<open>Memory helpers\<close>

text \<open>Placement new at a position, and the move-out followed by the destructor call.\<close>

definition construct_at :: "'a conqueue \<Rightarrow> u32 \<Rightarrow> 'a \<Rightarrow> 'a conqueue run" where
  "construct_at q p x =
     (let k = unat (to_id q p) in
      if k < ring_cells q then Ret (q\<lparr>ring := (ring q)(k \<mapsto> x)\<rparr>) else UB)"

definition move_destroy_at :: "'a conqueue \<Rightarrow> u32 \<Rightarrow> ('a \<times> 'a conqueue) run" where
  "move_destroy_at q p =
     (let k = unat (to_id q p) in
      if k < ring_cells q
      then case ring q k of Some x \<Rightarrow> Ret (x, q\<lparr>ring := (ring q)(k := None)\<rparr>) | None \<Rightarrow> UB
      else UB)"

fun construct_list :: "'a conqueue \<Rightarrow> u32 \<Rightarrow> 'a list \<Rightarrow> 'a conqueue run" where
  "construct_list q p [] = Ret q"
| "construct_list q p (x # xs) = run_bind (construct_at q p x) (\<lambda>q. construct_list q (p + 1) xs)"

fun move_destroy_list :: "'a conqueue \<Rightarrow> u32 \<Rightarrow> nat \<Rightarrow> ('a list \<times> 'a conqueue) run" where
  "move_destroy_list q p 0 = Ret ([], q)"
| "move_destroy_list q p (Suc n) =
     run_bind (move_destroy_at q p) (\<lambda>(x, q).
     run_bind (move_destroy_list q (p + 1) n) (\<lambda>(xs, q). Ret (x # xs, q)))"

text \<open>The loop of \<open>clear\<close>: \<open>for (i = t; i != h; ++i) ring[to_id(i)].~T()\<close>.\<close>

function destroy_range :: "'a conqueue \<Rightarrow> u32 \<Rightarrow> u32 \<Rightarrow> 'a conqueue run" where
  "destroy_range q i h =
     (if i = h then Ret q
      else run_bind (move_destroy_at q i) (\<lambda>(x, q). destroy_range q (i + 1) h))"
  by pat_completeness auto
termination
proof (relation "measure (\<lambda>(q, i, h). unat (h - i))", simp, clarsimp)
  fix i h :: u32 assume "i \<noteq> h"
  then have "h - i \<noteq> 0" by simp
  then have "unat (h - i - 1) < unat (h - i)"
    by (metis measure_unat)
  then show "unat (h - (i + 1)) < unat (h - i)" by (simp add: algebra_simps)
qed

declare destroy_range.simps [simp del]

definition conq_clear :: "'a conqueue \<Rightarrow> 'a conqueue run" where
  "conq_clear q =
     run_bind (destroy_range q (pos (cons_tail q)) (pos (prod_tail q)))
       (\<lambda>q. Ret (q\<lparr>prod_head := (prod_head q)\<lparr>pos := 0\<rparr>, prod_tail := (prod_tail q)\<lparr>pos := 0\<rparr>,
                   cons_head := (cons_head q)\<lparr>pos := 0\<rparr>, cons_tail := (cons_tail q)\<lparr>pos := 0\<rparr>\<rparr>))"

text \<open>The destructor; the result is the count handed to \<open>deallocate\<close>, if it is called.\<close>

definition conq_dtor :: "'a conqueue \<Rightarrow> u32 option run" where
  "conq_dtor q = run_bind (conq_clear q) (\<lambda>q. Ret (if self_alloc q then Some (max_size q) else None))"

section \<open>Producers and consumers\<close>

text \<open>
  The tail updates. With no other thread running, the wait in \<open>default_update_ht\<close> either does
  not happen or never ends; the compare-exchange in \<open>rts_update_ht\<close> succeeds on what it read.
\<close>

definition default_update_ht :: "po_val \<Rightarrow> u32 \<Rightarrow> u32 \<Rightarrow> po_val run" where
  "default_update_ht ht n oht_pos =
     (if pos ht \<noteq> oht_pos then Spin else Ret (ht\<lparr>pos := pos ht + n\<rparr>))"

definition rts_next :: "po_val \<Rightarrow> po_val \<Rightarrow> po_val" where
  "rts_next h oh =
     (let nh = oh\<lparr>cnt := cnt oh + 1\<rparr> in if cnt nh = cnt h then nh\<lparr>pos := pos h\<rparr> else nh)"

text \<open>
  The new head that a producer or consumer tries to install: the default modes leave the
  \<open>cnt\<close> half of the stack variable \<open>nh\<close> uninitialised, which is the parameter \<open>g\<close> here.
\<close>

definition mp_head :: "u32 \<Rightarrow> po_val \<Rightarrow> u32 \<Rightarrow> po_val" where
  "mp_head g oh l = \<lparr>pos = pos oh + l, cnt = g\<rparr>"

definition rts_head :: "po_val \<Rightarrow> u32 \<Rightarrow> po_val" where
  "rts_head oh l = \<lparr>pos = pos oh + l, cnt = cnt oh + 1\<rparr>"

definition conq_emplace :: "u32 \<Rightarrow> 'a \<Rightarrow> 'a conqueue \<Rightarrow> (bool \<times> 'a conqueue) run" where
  "conq_emplace g x q =
     (if has_flag (flags q) F_SP_ENQ then
        if pos (prod_tail q) - pos (cons_tail q) = conq_capacity q then Ret (False, q)
        else run_bind (construct_at q (pos (prod_tail q)) x) (\<lambda>q.
             Ret (True, q\<lparr>prod_tail := (prod_tail q)\<lparr>pos := pos (prod_tail q) + 1\<rparr>\<rparr>))
      else if has_flag (flags q) F_MP_ENQ then
        let oh = prod_head q in
        if pos oh - pos (cons_tail q) = conq_capacity q then Ret (False, q)
        else run_bind (construct_at (q\<lparr>prod_head := mp_head g oh 1\<rparr>) (pos oh) x) (\<lambda>q.
             run_bind (default_update_ht (prod_tail q) 1 (pos oh)) (\<lambda>t.
             Ret (True, q\<lparr>prod_tail := t\<rparr>)))
      else
        let oh = prod_head q in
        if pos oh - pos (cons_tail q) = conq_capacity q then Ret (False, q)
        else run_bind (construct_at (q\<lparr>prod_head := rts_head oh 1\<rparr>) (pos oh) x) (\<lambda>q.
             Ret (True, q\<lparr>prod_tail := rts_next (prod_head q) (prod_tail q)\<rparr>)))"

definition conq_push :: "u32 \<Rightarrow> 'a \<Rightarrow> 'a conqueue \<Rightarrow> (bool \<times> 'a conqueue) run" where
  "conq_push g x q = conq_emplace g x q"

definition conq_push_bulk :: "u32 \<Rightarrow> 'a list \<Rightarrow> 'a conqueue \<Rightarrow> (u32 \<times> 'a conqueue) run" where
  "conq_push_bulk g xs q =
     (let count = of_nat (length xs) in
      if has_flag (flags q) F_SP_ENQ then
        let l = min (conq_capacity q - pos (prod_tail q) + pos (cons_tail q)) count in
        run_bind (construct_list q (pos (prod_tail q)) (take (unat l) xs)) (\<lambda>q.
        Ret (l, q\<lparr>prod_tail := (prod_tail q)\<lparr>pos := pos (prod_tail q) + l\<rparr>\<rparr>))
      else
        let oh = prod_head q; l = min (conq_capacity q - pos oh + pos (cons_tail q)) count in
        if l = 0 then Ret (0, q)
        else if has_flag (flags q) F_MP_ENQ then
          run_bind (construct_list (q\<lparr>prod_head := mp_head g oh l\<rparr>) (pos oh) (take (unat l) xs)) (\<lambda>q.
          run_bind (default_update_ht (prod_tail q) l (pos oh)) (\<lambda>t.
          Ret (l, q\<lparr>prod_tail := t\<rparr>)))
        else
          run_bind (construct_list (q\<lparr>prod_head := rts_head oh l\<rparr>) (pos oh) (take (unat l) xs)) (\<lambda>q.
          Ret (l, q\<lparr>prod_tail := rts_next (prod_head q) (prod_tail q)\<rparr>)))"

text \<open>\<open>pop\<close> returns the moved-out object when it returns true.\<close>

definition conq_pop :: "u32 \<Rightarrow> 'a conqueue \<Rightarrow> ('a option \<times> 'a conqueue) run" where
  "conq_pop g q =
     (if has_flag (flags q) F_SC_DEQ then
        if pos (cons_tail q) = pos (prod_tail q) then Ret (None, q)
        else run_bind (move_destroy_at q (pos (cons_tail q))) (\<lambda>(x, q).
             Ret (Some x, q\<lparr>cons_tail := (cons_tail q)\<lparr>pos := pos (cons_tail q) + 1\<rparr>\<rparr>))
      else if has_flag (flags q) F_MC_DEQ then
        let ot = cons_head q in
        if pos ot = pos (prod_tail q) then Ret (None, q)
        else run_bind (move_destroy_at (q\<lparr>cons_head := mp_head g ot 1\<rparr>) (pos ot)) (\<lambda>(x, q).
             run_bind (default_update_ht (cons_tail q) 1 (pos ot)) (\<lambda>t.
             Ret (Some x, q\<lparr>cons_tail := t\<rparr>)))
      else
        let ot = cons_head q in
        if pos ot = pos (prod_tail q) then Ret (None, q)
        else run_bind (move_destroy_at (q\<lparr>cons_head := rts_head ot 1\<rparr>) (pos ot)) (\<lambda>(x, q).
             Ret (Some x, q\<lparr>cons_tail := rts_next (cons_head q) (cons_tail q)\<rparr>)))"

text \<open>
  The single-consumer loop of \<open>pop_bulk\<close>. Its condition reads \<open>cons_tail.pos\<close>, which the
  loop body does not change.
\<close>

fun sc_pop_loop :: "'a conqueue \<Rightarrow> nat \<Rightarrow> u32 \<Rightarrow> ('a list \<times> u32 \<times> 'a conqueue) run" where
  "sc_pop_loop q 0 l = Ret ([], l, q)"
| "sc_pop_loop q (Suc count) l =
     (if pos (cons_tail q) < pos (prod_tail q)
      then run_bind (move_destroy_at q (pos (cons_tail q) + l)) (\<lambda>(x, q).
           run_bind (sc_pop_loop q count (l + 1)) (\<lambda>(xs, l, q). Ret (x # xs, l, q)))
      else Ret ([], l, q))"

definition conq_pop_bulk :: "u32 \<Rightarrow> u32 \<Rightarrow> 'a conqueue \<Rightarrow> ('a list \<times> u32 \<times> 'a conqueue) run" where
  "conq_pop_bulk g count q =
     (if has_flag (flags q) F_SC_DEQ then
        run_bind (sc_pop_loop q (unat count) 0) (\<lambda>(xs, l, q).
        Ret (xs, l, q\<lparr>cons_tail := (cons_tail q)\<lparr>pos := pos (cons_tail q) + l\<rparr>\<rparr>))
      else
        let ot = cons_head q; l = min count (pos (prod_tail q) - pos ot) in
        if l = 0 then Ret ([], 0, q)
        else if has_flag (flags q) F_MC_DEQ then
          run_bind (move_destroy_list (q\<lparr>cons_head := mp_head g ot l\<rparr>) (pos ot) (unat l)) (\<lambda>(xs, q).
          run_bind (default_update_ht (cons_tail q) l (pos ot)) (\<lambda>t.
          Ret (xs, l, q\<lparr>cons_tail := t\<rparr>)))
        else
          run_bind (move_destroy_list (q\<lparr>cons_head := rts_head ot l\<rparr>) (pos ot) (unat l)) (\<lambda>(xs, q).
          Ret (xs, l, q\<lparr>cons_tail := rts_next (cons_head q) (cons_tail q)\<rparr>)))"

end
