(* ===== verification/ConQueue_Seq.thy ===== *)
theory ConQueue_Seq
  imports ConQueue
begin

text \<open>
  Correctness of \<open>ConQueue\<close> used by one thread at a time. \<open>conq_rel q xs\<close> says that the
  queue holds the list \<open>xs\<close>; each operation, in each mode, acts on \<open>xs\<close> as the operation
  of a bounded first-in first-out queue does.
\<close>

section \<open>Layout\<close>

definition conq_slot :: "'a conqueue \<Rightarrow> u32 \<Rightarrow> nat" where
  "conq_slot q i = unat (to_id q i)"

definition conq_wf :: "'a conqueue \<Rightarrow> bool" where
  "conq_wf q \<longleftrightarrow> (\<forall>i. conq_slot q i < ring_cells q)"

definition conq_win :: "'a conqueue \<Rightarrow> u32 \<Rightarrow> bool" where
  "conq_win q t \<longleftrightarrow> window_inj (conq_slot q) (unat (max_size q)) t"

definition conq_cfg :: "'a conqueue \<Rightarrow> nat \<times> bool \<times> u32 \<times> u32 \<times> u32" where
  "conq_cfg q = (ring_cells q, self_alloc q, flags q, count_mask q, max_size q)"

lemma conq_win_le: "conq_win q t \<Longrightarrow> n \<le> unat (max_size q) \<Longrightarrow> window_inj (conq_slot q) n t"
  unfolding conq_win_def by (rule window_inj_mono)

lemma conq_slot_cong: "conq_cfg q' = conq_cfg q \<Longrightarrow> conq_slot q' = conq_slot q"
  by (simp add: conq_cfg_def conq_slot_def to_id_def fun_eq_iff)

lemma conq_wf_cong: "conq_cfg q' = conq_cfg q \<Longrightarrow> conq_wf q' = conq_wf q"
  using conq_slot_cong [of q' q] by (simp add: conq_wf_def conq_cfg_def)

lemma conq_win_cong: "conq_cfg q' = conq_cfg q \<Longrightarrow> conq_win q' t = conq_win q t"
  using conq_slot_cong [of q' q] by (simp add: conq_win_def conq_cfg_def)

lemma conq_slot_update [simp]:
  "conq_slot (q\<lparr>ring := r\<rparr>) = conq_slot q"
  "conq_slot (q\<lparr>prod_head := a\<rparr>) = conq_slot q"
  "conq_slot (q\<lparr>prod_tail := a\<rparr>) = conq_slot q"
  "conq_slot (q\<lparr>cons_head := a\<rparr>) = conq_slot q"
  "conq_slot (q\<lparr>cons_tail := a\<rparr>) = conq_slot q"
  by (simp_all add: conq_slot_def to_id_def fun_eq_iff)

lemma conq_wf_update [simp]:
  "conq_wf (q\<lparr>ring := r\<rparr>) = conq_wf q"
  "conq_wf (q\<lparr>prod_head := a\<rparr>) = conq_wf q"
  "conq_wf (q\<lparr>prod_tail := a\<rparr>) = conq_wf q"
  "conq_wf (q\<lparr>cons_head := a\<rparr>) = conq_wf q"
  "conq_wf (q\<lparr>cons_tail := a\<rparr>) = conq_wf q"
  by (simp_all add: conq_wf_def)

text \<open>The default layout: a mask of low bits.\<close>

definition conq_pow2 :: "'a conqueue \<Rightarrow> bool" where
  "conq_pow2 q \<longleftrightarrow> \<not> has_flag (flags q) F_EXACT_SZ \<and>
     (\<exists>k\<le>31. count_mask q = mask k \<and> unat (max_size q) \<le> 2 ^ k \<and> 2 ^ k \<le> ring_cells q)"

lemma conq_pow2_cong: "conq_cfg q' = conq_cfg q \<Longrightarrow> conq_pow2 q' = conq_pow2 q"
  by (simp add: conq_pow2_def conq_cfg_def)

lemma unat_and_mask_u32: "k \<le> 31 \<Longrightarrow> unat ((i :: u32) AND mask k) = unat i mod 2 ^ k"
proof -
  have "unat (i AND mask k) = take_bit k (unat i)"
    by (simp only: take_bit_eq_mask [symmetric] unsigned_take_bit_eq)
  then show ?thesis by (simp add: take_bit_eq_mod)
qed

lemma mask_window:
  assumes "k \<le> 31"
  shows "window_inj (\<lambda>i :: u32. unat (i AND mask k)) (2 ^ k) t"
proof -
  have dvd: "(2 :: nat) ^ k dvd 4294967296"
    using le_imp_power_dvd [of k 32 "2 :: nat"] assms by simp
  have u: "unat ((t + of_nat i) AND mask k) = (unat t + i) mod 2 ^ k" for i
  proof -
    have "unat ((t + of_nat i) AND mask k) = (unat t + i) mod 4294967296 mod 2 ^ k"
      by (simp add: unat_and_mask_u32 [OF assms] unat_add_u32 unat_of_nat mod_simps)
    then show ?thesis using dvd by (simp add: mod_mod_cancel)
  qed
  show ?thesis
    unfolding window_inj_def u
  proof (rule inj_onI, simp)
    fix i j :: nat
    assume "i < 2 ^ k" "j < 2 ^ k" "(unat t + i) mod 2 ^ k = (unat t + j) mod 2 ^ k"
    then show "i = j" by (rule mod_add_inj)
  qed
qed

lemma conq_pow2_wf: "conq_pow2 q \<Longrightarrow> conq_wf q"
proof -
  assume "conq_pow2 q"
  then obtain k where k: "k \<le> 31" "\<not> has_flag (flags q) F_EXACT_SZ" "count_mask q = mask k" "2 ^ k \<le> ring_cells q"
    by (auto simp: conq_pow2_def)
  have "conq_slot q i < 2 ^ k" for i
    by (simp add: conq_slot_def to_id_def k unat_and_mask_u32)
  with k(4) show ?thesis unfolding conq_wf_def by (meson less_le_trans)
qed

lemma conq_pow2_win: "conq_pow2 q \<Longrightarrow> conq_win q t"
proof -
  assume "conq_pow2 q"
  then obtain k where k: "k \<le> 31" "\<not> has_flag (flags q) F_EXACT_SZ" "count_mask q = mask k" "unat (max_size q) \<le> 2 ^ k"
    by (auto simp: conq_pow2_def)
  have "conq_slot q = (\<lambda>i. unat (i AND mask k))"
    by (simp add: conq_slot_def to_id_def k fun_eq_iff)
  with mask_window [OF k(1), of t] k(4) show ?thesis
    unfolding conq_win_def by (metis window_inj_mono)
qed

text \<open>The exact-size layout: positions modulo \<open>max_size\<close>. It has the window property only
  while the window does not cross the wrap-around of the 32-bit positions.\<close>

definition conq_exact :: "'a conqueue \<Rightarrow> bool" where
  "conq_exact q \<longleftrightarrow> has_flag (flags q) F_EXACT_SZ \<and> max_size q \<noteq> 0 \<and>
     count_mask q = max_size q \<and> unat (max_size q) \<le> ring_cells q"

lemma conq_exact_wf: "conq_exact q \<Longrightarrow> conq_wf q"
  by (auto simp: conq_exact_def conq_wf_def conq_slot_def to_id_def unat_mod word_unat_eq_iff
      intro: less_le_trans mod_less_divisor)

lemma conq_exact_win:
  assumes "conq_exact q" "unat t + unat (max_size q) \<le> 2 ^ 32"
  shows "conq_win q t"
proof -
  let ?n = "unat (max_size q)"
  have "conq_slot q (t + of_nat i) = (unat t + i) mod ?n" if "i < ?n" for i
  proof -
    have "unat (t + of_nat i) = unat t + i"
      using that assms(2) by (simp add: unat_add_u32 unat_of_nat mod_simps)
    with assms(1) show ?thesis
      by (simp add: conq_slot_def to_id_def conq_exact_def unat_mod)
  qed
  then show ?thesis
    unfolding conq_win_def window_inj_def by (auto intro!: inj_onI dest: mod_add_inj)
qed

section \<open>The queue holds a list\<close>

definition conq_rel :: "'a conqueue \<Rightarrow> 'a list \<Rightarrow> bool" where
  "conq_rel q xs \<longleftrightarrow>
     length xs \<le> unat (max_size q) \<and>
     ring_holds (conq_slot q) (ring q) (pos (cons_tail q)) xs \<and>
     pos (prod_tail q) = pos (cons_tail q) + of_nat (length xs) \<and>
     (\<not> has_flag (flags q) F_SP_ENQ \<longrightarrow> pos (prod_head q) = pos (prod_tail q)) \<and>
     (\<not> has_flag (flags q) F_SP_ENQ \<and> \<not> has_flag (flags q) F_MP_ENQ \<longrightarrow>
        cnt (prod_head q) = cnt (prod_tail q)) \<and>
     (\<not> has_flag (flags q) F_SC_DEQ \<longrightarrow> pos (cons_head q) = pos (cons_tail q)) \<and>
     (\<not> has_flag (flags q) F_SC_DEQ \<and> \<not> has_flag (flags q) F_MC_DEQ \<longrightarrow>
        cnt (cons_head q) = cnt (cons_tail q))"

lemma construct_at_eq:
  "conq_wf q \<Longrightarrow> construct_at q p x = Ret (q\<lparr>ring := (ring q)(conq_slot q p \<mapsto> x)\<rparr>)"
  by (simp add: construct_at_def conq_wf_def conq_slot_def Let_def)

lemma move_destroy_at_eq:
  "conq_wf q \<Longrightarrow> ring q (conq_slot q p) = Some x \<Longrightarrow>
   move_destroy_at q p = Ret (x, q\<lparr>ring := (ring q)(conq_slot q p := None)\<rparr>)"
  by (simp add: move_destroy_at_def conq_wf_def conq_slot_def Let_def)

lemma move_destroy_at_dead: "ring q (conq_slot q p) = None \<Longrightarrow> move_destroy_at q p = UB"
  by (simp add: move_destroy_at_def conq_slot_def Let_def)

lemma construct_list_holds:
  assumes "conq_wf q" "window_inj (conq_slot q) N t" "ring_holds (conq_slot q) (ring q) t xs"
    "length xs + length ys \<le> N"
  shows "\<exists>r. construct_list q (t + of_nat (length xs)) ys = Ret (q\<lparr>ring := r\<rparr>) \<and>
             ring_holds (conq_slot q) r t (xs @ ys)"
  using assms
proof (induction ys arbitrary: q xs)
  case Nil
  then show ?case by (auto intro: exI [of _ "ring q"])
next
  case (Cons y ys)
  let ?q = "q\<lparr>ring := (ring q)(conq_slot q (t + of_nat (length xs)) \<mapsto> y)\<rparr>"
  have "ring_holds (conq_slot ?q) (ring ?q) t (xs @ [y])"
    using ring_holds_push [OF Cons.prems(3,2)] Cons.prems(4) by simp
  from Cons.IH [OF _ _ this] Cons.prems(1,2,4)
  obtain r where "construct_list ?q (t + of_nat (length (xs @ [y]))) ys = Ret (?q\<lparr>ring := r\<rparr>)"
    "ring_holds (conq_slot q) r t ((xs @ [y]) @ ys)" by auto
  with Cons.prems(1) show ?case
    by (intro exI [of _ r]) (simp add: construct_at_eq add.assoc add.commute add.left_commute)
qed

lemma move_destroy_list_holds:
  assumes "conq_wf q" "window_inj (conq_slot q) N t" "ring_holds (conq_slot q) (ring q) t (xs @ ys)"
    "length (xs @ ys) \<le> N"
  shows "\<exists>r. move_destroy_list q t (length xs) = Ret (xs, q\<lparr>ring := r\<rparr>) \<and>
             ring_holds (conq_slot q) r (t + of_nat (length xs)) ys"
  using assms
proof (induction xs arbitrary: q t N)
  case Nil
  then show ?case by (auto intro: exI [of _ "ring q"])
next
  case (Cons x xs)
  let ?q = "q\<lparr>ring := (ring q)(conq_slot q t := None)\<rparr>"
  have w: "window_inj (conq_slot q) (Suc (length (xs @ ys))) t"
    using Cons.prems(2,4) by (auto intro: window_inj_mono)
  then have w': "window_inj (conq_slot q) (length (xs @ ys)) (t + 1)"
    by (rule window_inj_shift)
  from ring_holds_pop [OF _ w] Cons.prems(3)
  have "ring q (conq_slot q t) = Some x" "ring_holds (conq_slot ?q) (ring ?q) (t + 1) (xs @ ys)"
    by auto
  moreover from Cons.IH [OF _ _ this(2)] Cons.prems(1) w'
  obtain r where "move_destroy_list ?q (t + 1) (length xs) = Ret (xs, ?q\<lparr>ring := r\<rparr>)"
    "ring_holds (conq_slot q) r (t + 1 + of_nat (length xs)) ys" by auto
  ultimately show ?case using Cons.prems(1)
    by (intro exI [of _ r]) (simp add: move_destroy_at_eq add.assoc)
qed

text \<open>The list a queue holds, read off its memory.\<close>

definition conq_list :: "'a conqueue \<Rightarrow> 'a list" where
  "conq_list q =
     map (\<lambda>i. the (ring q (conq_slot q (pos (cons_tail q) + of_nat i))))
       [0..<unat (pos (prod_tail q) - pos (cons_tail q))]"

lemma conq_list_rel: "conq_rel q xs \<Longrightarrow> conq_list q = xs"
  using unat_of_nat_le_u32 [of "length xs" "max_size q"]
  by (auto simp: conq_list_def conq_rel_def ring_holds_nth intro!: nth_equalityI)

section \<open>Single operations\<close>

lemma conq_rel_length: "conq_rel q xs \<Longrightarrow> length xs \<le> unat (max_size q)"
  by (simp add: conq_rel_def)

lemma conq_rel_distance: "conq_rel q xs \<Longrightarrow> pos (prod_tail q) - pos (cons_tail q) = of_nat (length xs)"
  by (simp add: conq_rel_def)

lemma conq_size_eq: "conq_rel q xs \<Longrightarrow> unat (conq_size q) = length xs"
  by (simp add: conq_size_def conq_rel_distance unat_of_nat_le_u32 [OF conq_rel_length])

lemma conq_empty_eq: "conq_rel q xs \<Longrightarrow> conq_empty q \<longleftrightarrow> xs = []"
  using of_nat_0_u32 [OF conq_rel_length [of q xs]] by (auto simp: conq_rel_def conq_empty_def)

lemma conq_full_eq: "conq_rel q xs \<Longrightarrow> conq_full q \<longleftrightarrow> length xs = unat (max_size q)"
  by (simp add: conq_full_def conq_capacity_def conq_rel_distance of_nat_eq_u32 conq_rel_length)

lemma emplace_full:
  "conq_rel q xs \<Longrightarrow> length xs = unat (max_size q) \<Longrightarrow> conq_emplace g x q = Ret (False, q)"
  by (auto simp: conq_emplace_def conq_capacity_def conq_rel_def of_nat_eq_u32 Let_def)

lemma rts_next_publish:
  "cnt h = cnt oh + 1 \<Longrightarrow> rts_next h oh = h"
  by (simp add: rts_next_def Let_def)

lemma emplace_room:
  assumes rel: "conq_rel q xs" and wf: "conq_wf q"
    and win: "window_inj (conq_slot q) (Suc (length xs)) (pos (cons_tail q))"
    and room: "length xs < unat (max_size q)"
  shows "\<exists>q'. conq_emplace g x q = Ret (True, q') \<and> conq_rel q' (xs @ [x]) \<and>
              conq_cfg q' = conq_cfg q \<and> cons_tail q' = cons_tail q"
proof -
  let ?p = "pos (cons_tail q) + of_nat (length xs)"
  let ?r = "(ring q)(conq_slot q ?p \<mapsto> x)"
  have hold: "ring_holds (conq_slot q) ?r (pos (cons_tail q)) (xs @ [x])"
    using rel by (intro ring_holds_push [OF _ win]) (simp_all add: conq_rel_def)
  have ne: "of_nat (length xs) \<noteq> max_size q"
    using room of_nat_eq_u32 [of "length xs" "max_size q"] by simp
  have pt: "pos (prod_tail q) = ?p" using rel by (simp add: conq_rel_def)
  consider (sp) "has_flag (flags q) F_SP_ENQ"
    | (mp) "\<not> has_flag (flags q) F_SP_ENQ" "has_flag (flags q) F_MP_ENQ" "pos (prod_head q) = ?p"
    | (rts) "\<not> has_flag (flags q) F_SP_ENQ" "\<not> has_flag (flags q) F_MP_ENQ"
        "pos (prod_head q) = ?p" "cnt (prod_head q) = cnt (prod_tail q)"
    using rel by (auto simp: conq_rel_def)
  then show ?thesis
  proof cases
    case sp
    let ?q = "q\<lparr>ring := ?r, prod_tail := (prod_tail q)\<lparr>pos := ?p + 1\<rparr>\<rparr>"
    have "conq_emplace g x q = Ret (True, ?q)"
      using sp wf ne by (simp add: conq_emplace_def conq_capacity_def pt construct_at_eq)
    moreover have "conq_rel ?q (xs @ [x])"
      using hold room sp rel unfolding conq_rel_def by simp
    ultimately show ?thesis by (auto simp: conq_cfg_def)
  next
    case mp
    let ?q = "q\<lparr>ring := ?r, prod_head := mp_head g (prod_head q) 1, prod_tail := (prod_tail q)\<lparr>pos := ?p + 1\<rparr>\<rparr>"
    have "conq_emplace g x q = Ret (True, ?q)"
      using mp wf ne by (simp add: conq_emplace_def conq_capacity_def pt construct_at_eq default_update_ht_def Let_def)
    moreover have "conq_rel ?q (xs @ [x])"
      using hold room mp(1,2) rel unfolding conq_rel_def by (simp add: mp_head_def)
    ultimately show ?thesis by (auto simp: conq_cfg_def)
  next
    case rts
    let ?h = "rts_head (prod_head q) 1"
    let ?q = "q\<lparr>ring := ?r, prod_head := ?h, prod_tail := ?h\<rparr>"
    have "conq_emplace g x q = Ret (True, ?q)"
      using rts wf ne by (simp add: conq_emplace_def conq_capacity_def pt construct_at_eq Let_def
          rts_next_publish rts_head_def)
    moreover have "conq_rel ?q (xs @ [x])"
      using hold room rts rel unfolding conq_rel_def by (simp add: rts_head_def)
    ultimately show ?thesis by (auto simp: conq_cfg_def)
  qed
qed

lemma pop_empty: "conq_rel q [] \<Longrightarrow> conq_pop g q = Ret (None, q)"
  by (auto simp: conq_pop_def conq_rel_def Let_def)

lemma pop_take:
  assumes rel: "conq_rel q (x # xs)" and wf: "conq_wf q"
    and win: "window_inj (conq_slot q) (Suc (length xs)) (pos (cons_tail q))"
  shows "\<exists>q'. conq_pop g q = Ret (Some x, q') \<and> conq_rel q' xs \<and> conq_cfg q' = conq_cfg q \<and>
              pos (cons_tail q') = pos (cons_tail q) + 1"
proof -
  let ?t = "pos (cons_tail q)"
  let ?r = "(ring q)(conq_slot q ?t := None)"
  from win have cell: "ring q (conq_slot q ?t) = Some x"
    and hold: "ring_holds (conq_slot q) ?r (?t + 1) xs"
    using ring_holds_pop [of "conq_slot q" "ring q" ?t x xs] rel by (auto simp: conq_rel_def)
  have ne: "?t \<noteq> pos (prod_tail q)"
    using conq_empty_eq [OF rel] by (simp add: conq_empty_def)
  have pt: "pos (prod_tail q) = ?t + 1 + of_nat (length xs)"
    using rel by (simp add: conq_rel_def)
  consider (sc) "has_flag (flags q) F_SC_DEQ"
    | (mc) "\<not> has_flag (flags q) F_SC_DEQ" "has_flag (flags q) F_MC_DEQ" "pos (cons_head q) = ?t"
    | (rts) "\<not> has_flag (flags q) F_SC_DEQ" "\<not> has_flag (flags q) F_MC_DEQ"
        "pos (cons_head q) = ?t" "cnt (cons_head q) = cnt (cons_tail q)"
    using rel by (auto simp: conq_rel_def)
  then show ?thesis
  proof cases
    case sc
    let ?q = "q\<lparr>ring := ?r, cons_tail := (cons_tail q)\<lparr>pos := ?t + 1\<rparr>\<rparr>"
    have "conq_pop g q = Ret (Some x, ?q)"
      using sc wf ne by (simp add: conq_pop_def move_destroy_at_eq cell)
    moreover have "conq_rel ?q xs"
      using hold pt sc rel unfolding conq_rel_def by simp
    ultimately show ?thesis by (auto simp: conq_cfg_def)
  next
    case mc
    let ?q = "q\<lparr>ring := ?r, cons_head := mp_head g (cons_head q) 1, cons_tail := (cons_tail q)\<lparr>pos := ?t + 1\<rparr>\<rparr>"
    have "conq_pop g q = Ret (Some x, ?q)"
      using mc wf ne by (simp add: conq_pop_def move_destroy_at_eq cell default_update_ht_def Let_def)
    moreover have "conq_rel ?q xs"
      using hold pt mc(1,2) rel unfolding conq_rel_def by (simp add: mp_head_def)
    ultimately show ?thesis by (auto simp: conq_cfg_def)
  next
    case rts
    let ?h = "rts_head (cons_head q) 1"
    let ?q = "q\<lparr>ring := ?r, cons_head := ?h, cons_tail := ?h\<rparr>"
    have "conq_pop g q = Ret (Some x, ?q)"
      using rts wf ne by (simp add: conq_pop_def move_destroy_at_eq cell Let_def rts_next_publish rts_head_def)
    moreover have "conq_rel ?q xs"
      using hold pt rts rel unfolding conq_rel_def by (simp add: rts_head_def)
    ultimately show ?thesis using rts(3) by (auto simp: conq_cfg_def rts_head_def)
  qed
qed

section \<open>Bulk operations\<close>

text \<open>How many elements a bulk operation moves, as a natural number.\<close>

lemma push_bulk_count:
  assumes "conq_rel q xs" "length ys < 2 ^ 32"
  shows "unat (min (max_size q - of_nat (length xs)) (of_nat (length ys)))
         = min (unat (max_size q) - length xs) (length ys)"
proof -
  have "unat (max_size q - of_nat (length xs)) = unat (max_size q) - length xs"
    using conq_rel_length [OF assms(1)]
    by (subst unat_sub) (simp_all add: word_le_nat_alt unat_of_nat_le_u32)
  then show ?thesis
    using assms(2) by (simp add: min_def word_le_nat_alt unat_of_nat_u32)
qed

lemma push_bulk_rel:
  assumes rel: "conq_rel q xs" and wf: "conq_wf q" and win: "conq_win q (pos (cons_tail q))"
    and len: "length ys < 2 ^ 32" and l: "l = min (unat (max_size q) - length xs) (length ys)"
  shows "\<exists>q'. conq_push_bulk g ys q = Ret (of_nat l, q') \<and> conq_rel q' (xs @ take l ys) \<and>
              conq_cfg q' = conq_cfg q \<and> cons_tail q' = cons_tail q"
proof -
  let ?t = "pos (cons_tail q)"
  let ?p = "?t + of_nat (length xs)"
  let ?l = "min (max_size q - of_nat (length xs)) (of_nat (length ys))"
  have ul: "unat ?l = l" using push_bulk_count [OF rel len] l by simp
  have ll: "?l = of_nat l" unfolding ul [symmetric] by simp
  have l0: "(of_nat l :: u32) = 0 \<longleftrightarrow> l = 0"
    using l conq_rel_length [OF rel] by (intro of_nat_0_u32 [of l "max_size q"]) simp
  have unl: "unat (of_nat l :: u32) = l" using ul ll by simp
  have pt: "pos (prod_tail q) = ?p" and hold: "ring_holds (conq_slot q) (ring q) ?t xs"
    using rel by (simp_all add: conq_rel_def)
  have room: "length xs + l \<le> unat (max_size q)"
    using l conq_rel_length [OF rel] by simp
  have len': "length (take l ys) = l" using l by simp
  have fill: "\<exists>r. construct_list q' ?p (take l ys) = Ret (q'\<lparr>ring := r\<rparr>) \<and>
      ring_holds (conq_slot q) r ?t (xs @ take l ys)"
    if "q' = q\<lparr>prod_head := h\<rparr>" for q' h
    using construct_list_holds [of q' "unat (max_size q)" ?t xs "take l ys"] wf win hold room that
    by (simp add: conq_win_def)
  consider (sp) "has_flag (flags q) F_SP_ENQ"
    | (none) "\<not> has_flag (flags q) F_SP_ENQ" "l = 0" "pos (prod_head q) = ?p"
    | (mp) "\<not> has_flag (flags q) F_SP_ENQ" "l \<noteq> 0" "has_flag (flags q) F_MP_ENQ" "pos (prod_head q) = ?p"
    | (rts) "\<not> has_flag (flags q) F_SP_ENQ" "l \<noteq> 0" "\<not> has_flag (flags q) F_MP_ENQ"
        "pos (prod_head q) = ?p" "cnt (prod_head q) = cnt (prod_tail q)"
    using rel by (auto simp: conq_rel_def)
  then show ?thesis
  proof cases
    case sp
    from fill [of q "prod_head q"] obtain r where r: "construct_list q ?p (take l ys) = Ret (q\<lparr>ring := r\<rparr>)"
      "ring_holds (conq_slot q) r ?t (xs @ take l ys)" by auto
    let ?q = "q\<lparr>ring := r, prod_tail := (prod_tail q)\<lparr>pos := ?p + of_nat l\<rparr>\<rparr>"
    have "conq_push_bulk g ys q = Ret (of_nat l, ?q)"
      using sp by (simp add: conq_push_bulk_def conq_capacity_def Let_def pt ll unl r)
    moreover have "conq_rel ?q (xs @ take l ys)"
      using r(2) room len' sp rel unfolding conq_rel_def by (simp add: add.assoc)
    ultimately show ?thesis by (auto simp: conq_cfg_def)
  next
    case none
    then have "conq_push_bulk g ys q = Ret (of_nat l, q)"
      using ll by (simp add: conq_push_bulk_def conq_capacity_def Let_def)
    with rel none show ?thesis by auto
  next
    case mp
    let ?h = "mp_head g (prod_head q) (of_nat l)"
    from fill [of "q\<lparr>prod_head := ?h\<rparr>" ?h] obtain r where
      r: "construct_list (q\<lparr>prod_head := ?h\<rparr>) ?p (take l ys) = Ret (q\<lparr>prod_head := ?h, ring := r\<rparr>)"
      "ring_holds (conq_slot q) r ?t (xs @ take l ys)" by auto
    let ?q = "q\<lparr>prod_head := ?h, ring := r, prod_tail := (prod_tail q)\<lparr>pos := ?p + of_nat l\<rparr>\<rparr>"
    have "conq_push_bulk g ys q = Ret (of_nat l, ?q)"
      using mp by (simp add: conq_push_bulk_def conq_capacity_def Let_def pt ll unl l0 r default_update_ht_def)
    moreover have "conq_rel ?q (xs @ take l ys)"
      using r(2) room len' mp(1,3,4) rel unfolding conq_rel_def by (simp add: mp_head_def add.assoc)
    ultimately show ?thesis by (auto simp: conq_cfg_def)
  next
    case rts
    let ?h = "rts_head (prod_head q) (of_nat l)"
    from fill [of "q\<lparr>prod_head := ?h\<rparr>" ?h] obtain r where
      r: "construct_list (q\<lparr>prod_head := ?h\<rparr>) ?p (take l ys) = Ret (q\<lparr>prod_head := ?h, ring := r\<rparr>)"
      "ring_holds (conq_slot q) r ?t (xs @ take l ys)" by auto
    let ?q = "q\<lparr>prod_head := ?h, ring := r, prod_tail := ?h\<rparr>"
    have "rts_next ?h (prod_tail q) = ?h"
      using rts(5) by (simp add: rts_next_publish rts_head_def)
    then have "conq_push_bulk g ys q = Ret (of_nat l, ?q)"
      using rts(1-4) by (simp add: conq_push_bulk_def conq_capacity_def Let_def pt ll unl l0 r)
    moreover have "conq_rel ?q (xs @ take l ys)"
      using r(2) room len' rts rel unfolding conq_rel_def by (simp add: rts_head_def add.assoc)
    ultimately show ?thesis by (auto simp: conq_cfg_def)
  qed
qed

lemma pop_bulk_count:
  assumes "conq_rel q xs"
  shows "unat (min (count :: u32) (of_nat (length xs))) = min (unat count) (length xs)"
  by (simp add: min_def word_le_nat_alt unat_of_nat_le_u32 [OF conq_rel_length [OF assms]])

lemma pop_bulk_multi_rel:
  assumes rel: "conq_rel q xs" and wf: "conq_wf q" and win: "conq_win q (pos (cons_tail q))"
    and multi: "\<not> has_flag (flags q) F_SC_DEQ" and l: "l = min (unat count) (length xs)"
  shows "\<exists>q'. conq_pop_bulk g count q = Ret (take l xs, of_nat l, q') \<and> conq_rel q' (drop l xs) \<and>
              conq_cfg q' = conq_cfg q \<and> pos (cons_tail q') = pos (cons_tail q) + of_nat l"
proof -
  let ?t = "pos (cons_tail q)"
  let ?l = "min count (of_nat (length xs))"
  have ul: "unat ?l = l" using pop_bulk_count [OF rel] l by simp
  have ll: "?l = of_nat l" unfolding ul [symmetric] by simp
  have l0: "(of_nat l :: u32) = 0 \<longleftrightarrow> l = 0"
    using l conq_rel_length [OF rel] by (intro of_nat_0_u32 [of l "max_size q"]) simp
  have unl: "unat (of_nat l :: u32) = l" using ul ll by simp
  have lle: "l \<le> length xs" using l by simp
  have bound: "length xs - l \<le> unat (max_size q)" using conq_rel_length [OF rel] by simp
  have hold: "ring_holds (conq_slot q) (ring q) ?t xs" and pt: "pos (prod_tail q) = ?t + of_nat (length xs)"
    and ch: "pos (cons_head q) = ?t"
    using rel multi by (simp_all add: conq_rel_def)
  have taken: "\<exists>r. move_destroy_list q' ?t l = Ret (take l xs, q'\<lparr>ring := r\<rparr>) \<and>
      ring_holds (conq_slot q) r (?t + of_nat l) (drop l xs)"
    if "q' = q\<lparr>cons_head := h\<rparr>" for q' h
    using move_destroy_list_holds [of q' "unat (max_size q)" ?t "take l xs" "drop l xs"]
      wf win hold that conq_rel_length [OF rel] l by (simp add: conq_win_def)
  show ?thesis
  proof (cases "l = 0")
    case True
    with ll rel multi show ?thesis
      by (auto simp: conq_pop_bulk_def Let_def pt ch)
  next
    case False
    show ?thesis
    proof (cases "has_flag (flags q) F_MC_DEQ")
      case True
      let ?h = "mp_head g (cons_head q) (of_nat l)"
      from taken [of "q\<lparr>cons_head := ?h\<rparr>" ?h] obtain r where
        r: "move_destroy_list (q\<lparr>cons_head := ?h\<rparr>) ?t l = Ret (take l xs, q\<lparr>cons_head := ?h, ring := r\<rparr>)"
        "ring_holds (conq_slot q) r (?t + of_nat l) (drop l xs)" by auto
      let ?q = "q\<lparr>cons_head := ?h, ring := r, cons_tail := (cons_tail q)\<lparr>pos := ?t + of_nat l\<rparr>\<rparr>"
      have "conq_pop_bulk g count q = Ret (take l xs, of_nat l, ?q)"
        using multi True False by (simp add: conq_pop_bulk_def Let_def pt ch ll unl l0 r default_update_ht_def)
      moreover have "conq_rel ?q (drop l xs)"
        using r(2) multi True rel lle bound unfolding conq_rel_def by (simp add: mp_head_def)
      ultimately show ?thesis by (auto simp: conq_cfg_def)
    next
      case rts: False
      let ?h = "rts_head (cons_head q) (of_nat l)"
      from taken [of "q\<lparr>cons_head := ?h\<rparr>" ?h] obtain r where
        r: "move_destroy_list (q\<lparr>cons_head := ?h\<rparr>) ?t l = Ret (take l xs, q\<lparr>cons_head := ?h, ring := r\<rparr>)"
        "ring_holds (conq_slot q) r (?t + of_nat l) (drop l xs)" by auto
      let ?q = "q\<lparr>cons_head := ?h, ring := r, cons_tail := ?h\<rparr>"
      have "rts_next ?h (cons_tail q) = ?h"
        using rts multi rel by (simp add: rts_next_publish rts_head_def conq_rel_def)
      then have "conq_pop_bulk g count q = Ret (take l xs, of_nat l, ?q)"
        using multi rts False by (simp add: conq_pop_bulk_def Let_def pt ch ll unl l0 r)
      moreover have "conq_rel ?q (drop l xs)"
        using r(2) multi rts rel lle bound unfolding conq_rel_def by (simp add: rts_head_def)
      ultimately show ?thesis by (auto simp: conq_cfg_def rts_head_def ch)
    qed
  qed
qed

section \<open>The single-consumer bulk pop\<close>

lemma move_destroy_at_cons_tail:
  "move_destroy_at q p = Ret (x, q') \<Longrightarrow> cons_tail q' = cons_tail q \<and> prod_tail q' = prod_tail q \<and> flags q' = flags q"
  by (auto simp: move_destroy_at_def Let_def split: if_splits option.splits)

lemma sc_pop_loop_open:
  "pos (cons_tail q) < pos (prod_tail q) \<Longrightarrow>
   sc_pop_loop q n l =
     run_bind (move_destroy_list q (pos (cons_tail q) + l) n) (\<lambda>(xs, q'). Ret (xs, l + of_nat n, q'))"
proof (induction n arbitrary: q l)
  case (Suc n)
  show ?case
  proof (cases "move_destroy_at q (pos (cons_tail q) + l)")
    case (Ret a)
    obtain x q' where a: "a = (x, q')" by (cases a)
    have eq: "cons_tail q' = cons_tail q" "prod_tail q' = prod_tail q"
      using move_destroy_at_cons_tail [of q "pos (cons_tail q) + l" x q'] Ret a by simp_all
    show ?thesis
      using Suc.IH [of q' "l + 1"] Suc.prems
      by (cases "move_destroy_list q' (pos (cons_tail q) + (l + 1)) n")
        (auto simp: Ret a eq add.assoc)
  qed (use Suc.prems in simp_all)
qed simp

lemma sc_pop_loop_closed:
  "\<not> pos (cons_tail q) < pos (prod_tail q) \<Longrightarrow> sc_pop_loop q n l = Ret ([], l, q)"
  by (cases n) simp_all

lemma move_destroy_list_add:
  "move_destroy_list q p (m + n) =
     run_bind (move_destroy_list q p m) (\<lambda>(xs, q').
     run_bind (move_destroy_list q' (p + of_nat m) n) (\<lambda>(ys, q''). Ret (xs @ ys, q'')))"
proof (induction m arbitrary: q p)
  case 0
  then show ?case by (cases "move_destroy_list q p n") auto
next
  case (Suc m)
  show ?case
    by (cases "move_destroy_at q p")
      (simp_all add: Suc.IH run_bind_assoc add.assoc case_prod_beta)
qed

lemma sc_pop_bulk_exact:
  assumes rel: "conq_rel q xs" and wf: "conq_wf q" and win: "conq_win q (pos (cons_tail q))"
    and sc: "has_flag (flags q) F_SC_DEQ" and open_: "pos (cons_tail q) < pos (prod_tail q)"
    and le: "unat count \<le> length xs"
  shows "\<exists>q'. conq_pop_bulk g count q = Ret (take (unat count) xs, count, q') \<and>
              conq_rel q' (drop (unat count) xs) \<and> conq_cfg q' = conq_cfg q"
proof -
  let ?t = "pos (cons_tail q)" and ?n = "unat count"
  obtain r where r: "move_destroy_list q ?t ?n = Ret (take ?n xs, q\<lparr>ring := r\<rparr>)"
    "ring_holds (conq_slot q) r (?t + count) (drop ?n xs)"
    using move_destroy_list_holds [of q "unat (max_size q)" ?t "take ?n xs" "drop ?n xs"] rel wf win le
    by (auto simp: conq_rel_def conq_win_def min_absorb2)
  let ?q = "q\<lparr>ring := r, cons_tail := (cons_tail q)\<lparr>pos := ?t + count\<rparr>\<rparr>"
  have "conq_pop_bulk g count q = Ret (take ?n xs, count, ?q)"
    using sc by (simp add: conq_pop_bulk_def sc_pop_loop_open [OF open_] r)
  moreover have "length xs - ?n \<le> unat (max_size q)"
    using conq_rel_length [OF rel] by simp
  then have "conq_rel ?q (drop ?n xs)"
    using r(2) sc rel le unfolding conq_rel_def by simp
  ultimately show ?thesis by (auto simp: conq_cfg_def)
qed

lemma sc_pop_bulk_overrun:
  assumes rel: "conq_rel q xs" and wf: "conq_wf q" and win: "conq_win q (pos (cons_tail q))"
    and sc: "has_flag (flags q) F_SC_DEQ" and open_: "pos (cons_tail q) < pos (prod_tail q)"
    and gt: "length xs < unat count"
  shows "conq_pop_bulk g count q = UB"
proof -
  let ?t = "pos (cons_tail q)"
  obtain r where r: "move_destroy_list q ?t (length xs) = Ret (xs, q\<lparr>ring := r\<rparr>)"
    "ring_holds (conq_slot q) r (?t + of_nat (length xs)) []"
    using move_destroy_list_holds [of q "unat (max_size q)" ?t xs "[]"] rel wf win
    by (auto simp: conq_rel_def conq_win_def)
  obtain m where m: "unat count = length xs + Suc m"
    using gt less_imp_Suc_add by fastforce
  from r(2) have "move_destroy_at (q\<lparr>ring := r\<rparr>) p = UB" for p
    by (intro move_destroy_at_dead) (simp add: ring_holds_Nil)
  then have "move_destroy_list q ?t (unat count) = UB"
    unfolding m move_destroy_list_add by (simp add: r)
  then show ?thesis
    using sc by (simp add: conq_pop_bulk_def sc_pop_loop_open [OF open_])
qed

lemma sc_pop_bulk_wrapped:
  assumes "has_flag (flags q) F_SC_DEQ" "\<not> pos (cons_tail q) < pos (prod_tail q)"
  shows "conq_pop_bulk g count q = Ret ([], 0, q)"
  using assms by (simp add: conq_pop_bulk_def sc_pop_loop_closed)

section \<open>Clearing and construction\<close>

lemma destroy_range_eq:
  fixes q :: "'a conqueue"
  assumes "h = t + of_nat n" "n < 2 ^ 32"
  shows "destroy_range q t h = run_bind (move_destroy_list q t n) (\<lambda>r. Ret (snd r))"
  using assms
proof (induction n arbitrary: q t)
  case 0
  then show ?case by (simp add: destroy_range.simps)
next
  case (Suc n)
  have "unat (of_nat (Suc n) :: u32) = Suc n"
    using Suc.prems(2) by (intro unat_of_nat_u32) simp
  then have "of_nat (Suc n) \<noteq> (0 :: u32)" by (metis nat.distinct(1) unat_0)
  then have ne: "t \<noteq> h" using Suc.prems(1) by (metis add_cancel_left_right)
  have IH: "destroy_range q' (t + 1) h = run_bind (move_destroy_list q' (t + 1) n) (\<lambda>r. Ret (snd r))"
    for q' :: "'a conqueue"
    by (rule Suc.IH) (use Suc.prems in \<open>simp_all add: add.assoc\<close>)
  show ?case
    by (cases "move_destroy_at q t")
      (simp_all add: destroy_range.simps [of q t] ne IH run_bind_assoc case_prod_beta)
qed

lemma clear_rel:
  assumes rel: "conq_rel q xs" and wf: "conq_wf q" and win: "conq_win q (pos (cons_tail q))"
  shows "\<exists>q'. conq_clear q = Ret q' \<and> conq_rel q' [] \<and> conq_cfg q' = conq_cfg q"
proof -
  have "length xs < 2 ^ 32"
    using le_less_trans [OF conq_rel_length [OF rel] unat_u32_less] by simp
  moreover obtain r where r: "move_destroy_list q (pos (cons_tail q)) (length xs) = Ret (xs, q\<lparr>ring := r\<rparr>)"
    "ring_holds (conq_slot q) r (pos (cons_tail q) + of_nat (length xs)) []"
    using move_destroy_list_holds [of q "unat (max_size q)" "pos (cons_tail q)" xs "[]"] rel wf win
    by (auto simp: conq_rel_def conq_win_def)
  ultimately have "destroy_range q (pos (cons_tail q)) (pos (prod_tail q)) = Ret (q\<lparr>ring := r\<rparr>)"
    using rel by (subst destroy_range_eq) (auto simp: conq_rel_def)
  with r(2) rel show ?thesis
    by (auto simp: conq_clear_def conq_rel_def conq_cfg_def ring_holds_Nil)
qed

section \<open>Constructors\<close>

lemma has_flag_or: "has_flag fl (a OR b) \<longleftrightarrow> has_flag fl a \<or> has_flag fl b"
  by (simp add: has_flag_def word_ao_dist2 or_eq_0_iff)

lemma has_flag_set: "has_flag (fl OR a) f \<longleftrightarrow> has_flag fl f \<or> has_flag a f"
  by (simp add: has_flag_def word_ao_dist or_eq_0_iff)

lemma has_flag_default [simp]:
  "\<not> has_flag F_MP_ENQ F_SC_DEQ" "\<not> has_flag F_MP_ENQ F_MC_RTS_DEQ" "\<not> has_flag F_MP_ENQ F_MC_DEQ"
  "\<not> has_flag F_MP_ENQ F_EXACT_SZ" "\<not> has_flag F_MP_ENQ F_SP_ENQ" "\<not> has_flag F_MP_ENQ F_MP_RTS_ENQ"
  "\<not> has_flag F_MC_DEQ F_SP_ENQ" "\<not> has_flag F_MC_DEQ F_MP_RTS_ENQ" "\<not> has_flag F_MC_DEQ F_MP_ENQ"
  "\<not> has_flag F_MC_DEQ F_EXACT_SZ" "\<not> has_flag F_MC_DEQ F_SC_DEQ" "\<not> has_flag F_MC_DEQ F_MC_RTS_DEQ"
  "has_flag F_MP_ENQ F_MP_ENQ" "has_flag F_MC_DEQ F_MC_DEQ"
  by (simp_all add: has_flag_def conq_flag_defs)

lemma default_flags_has:
  "has_flag (conq_default_flags fl) f \<longleftrightarrow>
     has_flag fl f \<or>
     \<not> has_flag fl F_SP_ENQ \<and> \<not> has_flag fl F_MP_RTS_ENQ \<and> \<not> has_flag fl F_MP_ENQ \<and> has_flag F_MP_ENQ f \<or>
     \<not> has_flag fl F_SC_DEQ \<and> \<not> has_flag fl F_MC_RTS_DEQ \<and> \<not> has_flag fl F_MC_DEQ \<and> has_flag F_MC_DEQ f"
  unfolding conq_default_flags_def Let_def
  by (auto simp: has_flag_or has_flag_set)

lemma aligned_size_round: "\<not> has_flag fl F_EXACT_SZ \<Longrightarrow> aligned_size n fl = round_up32 n"
  by (simp add: aligned_size_def round_up32_def smear32_def smear_step_def Let_def)

lemma aligned_size_zero:
  assumes "\<not> has_flag fl F_EXACT_SZ" "unat n = 0 \<or> 2 ^ 31 < unat n"
  shows "aligned_size n fl = 0"
proof -
  have "2 ^ 31 \<le> unat (n - 1)"
  proof (cases "n = 0")
    case False
    then have "0 < unat n" by (simp add: unat_gt_0)
    with assms(2) have "1 \<le> unat n" "2 ^ 31 < unat n" by auto
    then show ?thesis by (simp add: unat_sub word_le_nat_alt)
  qed (simp add: unsigned_minus_1_eq_mask mask_eq_exp_minus_1)
  then have "smear32 (n - 1) = mask (Suc 31)"
    using unat_u32_less [of "n - 1"] by (intro smear32_mask) simp_all
  then show ?thesis
    using assms(1) by (simp add: aligned_size_round round_up32_def mask_eq_decr_exp)
qed

lemma aligned_size_exact: "has_flag fl F_EXACT_SZ \<Longrightarrow> aligned_size n fl = n + 1"
  by (simp add: aligned_size_def)

lemma default_flags_exact: "has_flag (conq_default_flags fl) F_EXACT_SZ \<longleftrightarrow> has_flag fl F_EXACT_SZ"
  by (simp add: default_flags_has)

lemma aligned_size_default: "aligned_size n (conq_default_flags fl) = aligned_size n fl"
  by (simp add: aligned_size_def default_flags_exact)

lemma ctor_fields:
  assumes "conq_ctor (Some n) m fl = Ret q"
  shows "m \<noteq> 0" "flags q = conq_default_flags fl" "max_size q = m" "ring_cells q = n"
    "count_mask q = aligned_size m fl - 1" "conq_rel q []"
  using assms by (auto simp: conq_ctor_def Let_def aligned_size_default conq_rel_def ring_holds_Nil
      split: if_splits)

lemma ctor_pow2:
  assumes "conq_ctor (Some n) m fl = Ret q" "\<not> has_flag fl F_EXACT_SZ"
    "unat m \<le> 2 ^ 31" "unat (aligned_size m fl) \<le> n"
  shows "conq_pow2 q"
proof -
  have "1 \<le> unat m" using ctor_fields(1) [OF assms(1)] by (simp add: unat_gt_0 Suc_leI)
  then obtain k where k: "k \<le> 31" "round_up32 m = 2 ^ k" "unat m \<le> 2 ^ k"
    using assms(3) round_up32_spec by metis
  moreover have "unat (2 ^ k :: u32) = 2 ^ k"
    using k(1) by (rule unat_pow2_u32)
  ultimately show ?thesis
    using assms(2,4) ctor_fields [OF assms(1)]
    by (auto simp: conq_pow2_def default_flags_exact aligned_size_round mask_eq_decr_exp)
qed

lemma ctor_exact:
  assumes "conq_ctor (Some n) m fl = Ret q" "has_flag fl F_EXACT_SZ" "unat m \<le> n"
  shows "conq_exact q"
  using assms(2,3) ctor_fields [OF assms(1)]
  by (simp add: conq_exact_def default_flags_exact aligned_size_exact)

lemma ctor_alloc_flags: "conq_ctor_alloc m fl = Ret q \<Longrightarrow> flags q = conq_default_flags fl"
  by (auto simp: conq_ctor_alloc_def run_bind_Ret_iff dest: ctor_fields)

lemma construct_at_flags: "construct_at q p x = Ret q' \<Longrightarrow> flags q' = flags q"
  by (auto simp: construct_at_def Let_def split: if_splits)

lemma construct_list_flags: "construct_list q p xs = Ret q' \<Longrightarrow> flags q' = flags q"
  by (induction xs arbitrary: q p) (auto simp: run_bind_Ret_iff dest!: construct_at_flags)

lemma push_bulk_flags: "conq_push_bulk g xs q = Ret (l, q') \<Longrightarrow> flags q' = flags q"
  by (auto simp: conq_push_bulk_def Let_def run_bind_Ret_iff split: if_splits dest!: construct_list_flags)

end
