(* ===== verification/Queue_Interface.thy ===== *)
theory Queue_Interface
  imports Prelude
begin

text \<open>
  What a user of any of the queues may rely on: the benchmark's interface
  \<open>TestQueueModelBase\<close> (enqueue and dequeue, benchmark.cc) with the contract of a bounded
  first-in first-out queue; \<open>ok\<close> restricts the elements a queue accepts (a queue with a reserved
  value cannot store it). Whole sequences of operations are run against the contract once,
  here; the queue theories discharge it for their models.
\<close>

datatype 'a qop = Enqueue 'a | Dequeue

datatype 'a qres = Enqueued bool | Dequeued "'a option"

section \<open>Running operations one after the other\<close>

fun queue_step ::
  "('a \<Rightarrow> 'q \<Rightarrow> (bool \<times> 'q) run) \<Rightarrow> ('q \<Rightarrow> ('a option \<times> 'q) run) \<Rightarrow> 'a qop \<Rightarrow> 'q \<Rightarrow> ('a qres \<times> 'q) run"
where
  "queue_step enq deq (Enqueue x) q = run_bind (enq x q) (\<lambda>(b, q'). Ret (Enqueued b, q'))"
| "queue_step enq deq Dequeue q = run_bind (deq q) (\<lambda>(r, q'). Ret (Dequeued r, q'))"

fun queue_run ::
  "('a \<Rightarrow> 'q \<Rightarrow> (bool \<times> 'q) run) \<Rightarrow> ('q \<Rightarrow> ('a option \<times> 'q) run) \<Rightarrow> 'a qop list \<Rightarrow> 'q \<Rightarrow> ('a qres list \<times> 'q) run"
where
  "queue_run enq deq [] q = Ret ([], q)"
| "queue_run enq deq (op # ops) q =
     run_bind (queue_step enq deq op q) (\<lambda>(r, q').
     run_bind (queue_run enq deq ops q') (\<lambda>(rs, q''). Ret (r # rs, q'')))"

lemma queue_run_append:
  "queue_run enq deq (ops @ ops') q =
     run_bind (queue_run enq deq ops q) (\<lambda>(rs, q').
     run_bind (queue_run enq deq ops' q') (\<lambda>(rs', q''). Ret (rs @ rs', q'')))"
proof (induction ops arbitrary: q)
  case Nil
  then show ?case by (cases "queue_run enq deq ops' q") (simp_all add: case_prod_beta)
next
  case (Cons op ops)
  show ?case by (cases "queue_step enq deq op q") (simp_all add: Cons.IH run_bind_assoc case_prod_beta)
qed

text \<open>\<open>n\<close> times a push and a pop move the positions of an empty queue on by \<open>n\<close>.\<close>

definition push_pop_rounds :: "nat \<Rightarrow> 'a \<Rightarrow> 'a qop list" where
  "push_pop_rounds n x = concat (replicate n [Enqueue x, Dequeue])"

section \<open>The abstract queue\<close>

text \<open>A list with a capacity: the specification the queues are compared with.\<close>

fun spec_step :: "nat \<Rightarrow> 'a qop \<Rightarrow> 'a list \<Rightarrow> 'a qres \<times> 'a list" where
  "spec_step n (Enqueue x) xs = (if length xs < n then (Enqueued True, xs @ [x]) else (Enqueued False, xs))"
| "spec_step n Dequeue xs = (case xs of [] \<Rightarrow> (Dequeued None, []) | y # ys \<Rightarrow> (Dequeued (Some y), ys))"

fun spec_run :: "nat \<Rightarrow> 'a qop list \<Rightarrow> 'a list \<Rightarrow> 'a qres list \<times> 'a list" where
  "spec_run n [] xs = ([], xs)"
| "spec_run n (op # ops) xs =
     (let (r, ys) = spec_step n op xs; (rs, zs) = spec_run n ops ys in (r # rs, zs))"

text \<open>The values that were accepted, and those handed out, in order.\<close>

fun accepted :: "'a qop list \<Rightarrow> 'a qres list \<Rightarrow> 'a list" where
  "accepted (Enqueue x # ops) (Enqueued True # rs) = x # accepted ops rs"
| "accepted (_ # ops) (_ # rs) = accepted ops rs"
| "accepted _ _ = []"

fun delivered :: "'a qres list \<Rightarrow> 'a list" where
  "delivered (Dequeued (Some x) # rs) = x # delivered rs"
| "delivered (_ # rs) = delivered rs"
| "delivered [] = []"

lemma spec_run_bound:
  "length xs \<le> n \<Longrightarrow> length (snd (spec_run n ops xs)) \<le> n"
proof (induction ops arbitrary: xs)
  case (Cons op ops)
  have "length (snd (spec_step n op xs)) \<le> n"
    using Cons.prems by (cases op) (auto split: list.splits)
  with Cons.IH show ?case by (simp add: case_prod_beta Let_def)
qed simp

lemma spec_run_conserves:
  "xs @ accepted ops (fst (spec_run n ops xs)) =
   delivered (fst (spec_run n ops xs)) @ snd (spec_run n ops xs)"
proof (induction ops arbitrary: xs)
  case (Cons op ops)
  show ?case
  proof (cases op)
    case (Enqueue x)
    then show ?thesis
      using Cons.IH [of "xs @ [x]"] Cons.IH [of xs] by (simp add: case_prod_beta Let_def)
  next
    case Dequeue
    then show ?thesis
      using Cons.IH by (cases xs) (simp_all add: case_prod_beta Let_def)
  qed
qed simp

section \<open>The contract\<close>

text \<open>
  Some queues are right only for a while: their counters must not wrap around. The number in
  \<open>holds n q xs\<close> is how many more elements the queue may accept. The contract of a bounded
  queue is the special case without such a limit.
\<close>

definition enqueues :: "'a qop list \<Rightarrow> nat" where
  "enqueues ops = length (filter (\<lambda>op. op \<noteq> Dequeue) ops)"

lemma enqueues_simps [simp]:
  "enqueues [] = 0" "enqueues (Enqueue x # ops) = Suc (enqueues ops)" "enqueues (Dequeue # ops) = enqueues ops"
  by (simp_all add: enqueues_def)

locale lifetime_queue =
  fixes holds :: "nat \<Rightarrow> 'q \<Rightarrow> 'a list \<Rightarrow> bool"
    and cap :: "'q \<Rightarrow> nat"
    and enq :: "'a \<Rightarrow> 'q \<Rightarrow> (bool \<times> 'q) run"
    and deq :: "'q \<Rightarrow> ('a option \<times> 'q) run"
    and ok :: "'a \<Rightarrow> bool"
  assumes life_bound: "holds n q xs \<Longrightarrow> length xs \<le> cap q"
    and life_room: "ok x \<Longrightarrow> holds (Suc n) q xs \<Longrightarrow> length xs < cap q \<Longrightarrow>
      \<exists>q'. enq x q = Ret (True, q') \<and> holds n q' (xs @ [x]) \<and> cap q' = cap q"
    and life_full: "ok x \<Longrightarrow> holds n q xs \<Longrightarrow> length xs = cap q \<Longrightarrow>
      \<exists>q'. enq x q = Ret (False, q') \<and> holds n q' xs \<and> cap q' = cap q"
    and life_take: "holds n q (x # xs) \<Longrightarrow>
      \<exists>q'. deq q = Ret (Some x, q') \<and> holds n q' xs \<and> cap q' = cap q"
    and life_none: "holds n q [] \<Longrightarrow>
      \<exists>q'. deq q = Ret (None, q') \<and> holds n q' [] \<and> cap q' = cap q"
begin

lemma life_step:
  assumes "holds n q xs" "enqueues [op] \<le> n" "\<forall>x. op = Enqueue x \<longrightarrow> ok x"
  shows "\<exists>q' m. queue_step enq deq op q = Ret (fst (spec_step (cap q) op xs), q') \<and>
    holds m q' (snd (spec_step (cap q) op xs)) \<and> cap q' = cap q \<and> n \<le> m + enqueues [op]"
proof (cases op)
  case (Enqueue x)
  with assms(2,3) obtain m where x: "ok x" "n = Suc m" by (cases n) auto
  show ?thesis
  proof (cases "length xs < cap q")
    case True
    with life_room [of x m q xs] x assms(1) Enqueue show ?thesis by (auto intro!: exI [of _ m])
  next
    case False
    with life_bound [OF assms(1)] have "length xs = cap q" by simp
    with life_full [OF x(1) assms(1) this] Enqueue show ?thesis by (auto intro!: exI [of _ n])
  qed
next
  case Dequeue
  with assms(1) life_take [of n q] life_none [of n q] show ?thesis
    by (cases xs) (fastforce intro!: exI [of _ n])+
qed

lemma life_run:
  "holds n q xs \<Longrightarrow> enqueues ops \<le> n \<Longrightarrow> \<forall>x. Enqueue x \<in> set ops \<longrightarrow> ok x \<Longrightarrow>
   \<exists>q' m. queue_run enq deq ops q = Ret (fst (spec_run (cap q) ops xs), q') \<and>
        holds m q' (snd (spec_run (cap q) ops xs)) \<and> cap q' = cap q"
proof (induction ops arbitrary: n q xs)
  case (Cons op ops)
  have o: "enqueues (op # ops) = enqueues [op] + enqueues ops" by (cases op) simp_all
  obtain q' m where q': "queue_step enq deq op q = Ret (fst (spec_step (cap q) op xs), q')"
    "holds m q' (snd (spec_step (cap q) op xs))" "cap q' = cap q" "n \<le> m + enqueues [op]"
    using life_step [OF Cons.prems(1), of op] Cons.prems(2,3) o by auto
  have "enqueues ops \<le> m" "\<forall>x. Enqueue x \<in> set ops \<longrightarrow> ok x" using Cons.prems(2,3) q'(4) o by auto
  from Cons.IH [OF q'(2) this] q'(1,3) show ?case
    by (auto simp: case_prod_beta Let_def)
qed auto

lemma life_returns: "holds n q xs \<Longrightarrow> enqueues ops \<le> n \<Longrightarrow> \<forall>x. Enqueue x \<in> set ops \<longrightarrow> ok x \<Longrightarrow>
   returns (queue_run enq deq ops q)"
  using life_run [of n q xs ops] by auto

end

locale bounded_queue =
  fixes holds :: "'q \<Rightarrow> 'a list \<Rightarrow> bool"
    and cap :: "'q \<Rightarrow> nat"
    and enq :: "'a \<Rightarrow> 'q \<Rightarrow> (bool \<times> 'q) run"
    and deq :: "'q \<Rightarrow> ('a option \<times> 'q) run"
    and ok :: "'a \<Rightarrow> bool"
  assumes holds_bound: "holds q xs \<Longrightarrow> length xs \<le> cap q"
    and enq_room: "ok x \<Longrightarrow> holds q xs \<Longrightarrow> length xs < cap q \<Longrightarrow>
      \<exists>q'. enq x q = Ret (True, q') \<and> holds q' (xs @ [x]) \<and> cap q' = cap q"
    and enq_full: "ok x \<Longrightarrow> holds q xs \<Longrightarrow> length xs = cap q \<Longrightarrow>
      \<exists>q'. enq x q = Ret (False, q') \<and> holds q' xs \<and> cap q' = cap q"
    and deq_take: "holds q (x # xs) \<Longrightarrow>
      \<exists>q'. deq q = Ret (Some x, q') \<and> holds q' xs \<and> cap q' = cap q"
    and deq_none: "holds q [] \<Longrightarrow>
      \<exists>q'. deq q = Ret (None, q') \<and> holds q' [] \<and> cap q' = cap q"

sublocale bounded_queue \<subseteq> lifetime_queue "\<lambda>_ :: nat. holds" cap enq deq ok
  by unfold_locales (rule holds_bound enq_room enq_full deq_take deq_none; assumption)+

context bounded_queue
begin

lemma run_refines:
  "holds q xs \<Longrightarrow> \<forall>x. Enqueue x \<in> set ops \<longrightarrow> ok x \<Longrightarrow>
   \<exists>q'. queue_run enq deq ops q = Ret (fst (spec_run (cap q) ops xs), q') \<and>
        holds q' (snd (spec_run (cap q) ops xs)) \<and> cap q' = cap q"
  using life_run [of q xs ops "enqueues ops"] by blast

lemma run_fifo:
  assumes "holds q []" "\<forall>x. Enqueue x \<in> set ops \<longrightarrow> ok x" "queue_run enq deq ops q = Ret (rs, q')"
  shows "\<exists>ys. holds q' ys \<and> accepted ops rs = delivered rs @ ys"
  using run_refines [OF assms(1,2)] assms(3) spec_run_conserves [of "[]" ops "cap q"]
  by auto

end

end
