(* ===== verification/ConQueue_Contract.thy ===== *)
theory ConQueue_Contract
  imports ConQueue_Seq Queue_Interface
begin

text \<open>
  \<open>ConQueue\<close> meets the contract of a bounded queue: the interpretations of the layout and
  queue interfaces, and the properties of the class used by one thread at a time.
\<close>

section \<open>Interpretations\<close>

definition conq_mask_slot :: "nat \<Rightarrow> u32 \<Rightarrow> nat" where
  "conq_mask_slot k i = unat (i AND mask (min k 31))"

interpretation conq_layout: ring_layout "conq_mask_slot k" "2 ^ min k 31" for k
  by unfold_locales (simp add: conq_mask_slot_def [abs_def] mask_window)

definition conq_holds :: "'a conqueue \<Rightarrow> 'a list \<Rightarrow> bool" where
  "conq_holds q xs \<longleftrightarrow> conq_pow2 q \<and> conq_rel q xs"

definition conq_cap :: "'a conqueue \<Rightarrow> nat" where
  "conq_cap q = unat (max_size q)"

lemma conq_cap_cong: "conq_cfg q' = conq_cfg q \<Longrightarrow> conq_cap q' = conq_cap q"
  by (simp add: conq_cfg_def conq_cap_def)

lemma conq_holdsD: "conq_holds q xs \<Longrightarrow> conq_rel q xs \<and> conq_wf q \<and> conq_win q t"
  by (simp add: conq_holds_def conq_pow2_wf conq_pow2_win)

lemma conq_holds_next:
  "conq_holds q xs \<Longrightarrow> conq_rel q' ys \<Longrightarrow> conq_cfg q' = conq_cfg q \<Longrightarrow>
   conq_holds q' ys \<and> conq_cap q' = conq_cap q"
  using conq_pow2_cong [of q' q] conq_cap_cong [of q' q] by (simp add: conq_holds_def)

lemma holds_push_room:
  assumes "conq_holds q xs" "length xs < conq_cap q"
  shows "\<exists>q'. conq_push g x q = Ret (True, q') \<and> conq_holds q' (xs @ [x]) \<and> conq_cap q' = conq_cap q"
proof -
  note D = conq_holdsD [OF assms(1)]
  obtain q' where "conq_emplace g x q = Ret (True, q')" "conq_rel q' (xs @ [x])" "conq_cfg q' = conq_cfg q"
    using emplace_room [of q xs g x] D assms(2) conq_win_le [of q "pos (cons_tail q)" "Suc (length xs)"]
    by (auto simp: conq_cap_def)
  with conq_holds_next [OF assms(1)] show ?thesis by (auto simp: conq_push_def)
qed

lemma holds_pop_take:
  assumes "conq_holds q (x # xs)"
  shows "\<exists>q'. conq_pop g q = Ret (Some x, q') \<and> conq_holds q' xs \<and> conq_cap q' = conq_cap q"
proof -
  note D = conq_holdsD [OF assms]
  obtain q' where "conq_pop g q = Ret (Some x, q')" "conq_rel q' xs" "conq_cfg q' = conq_cfg q"
    using pop_take [of q x xs g] D conq_rel_length [of q "x # xs"]
      conq_win_le [of q "pos (cons_tail q)" "Suc (length xs)"] by auto
  with conq_holds_next [OF assms] show ?thesis by auto
qed

interpretation conq: bounded_queue conq_holds conq_cap "conq_push g" "conq_pop g" "\<lambda>_. True" for g :: u32
proof unfold_locales
  fix q :: "'a conqueue" and xs x
  show "conq_holds q xs \<Longrightarrow> length xs \<le> conq_cap q"
    using conq_holdsD [of q xs] conq_rel_length [of q xs] by (simp add: conq_cap_def)
  show "conq_holds q xs \<Longrightarrow> length xs < conq_cap q \<Longrightarrow>
      \<exists>q'. conq_push g x q = Ret (True, q') \<and> conq_holds q' (xs @ [x]) \<and> conq_cap q' = conq_cap q"
    by (rule holds_push_room)
  show "conq_holds q xs \<Longrightarrow> length xs = conq_cap q \<Longrightarrow>
      \<exists>q'. conq_push g x q = Ret (False, q') \<and> conq_holds q' xs \<and> conq_cap q' = conq_cap q"
    using emplace_full [of q xs g x] conq_holdsD [of q xs] by (simp add: conq_push_def conq_cap_def)
  show "conq_holds q (x # xs) \<Longrightarrow>
      \<exists>q'. conq_pop g q = Ret (Some x, q') \<and> conq_holds q' xs \<and> conq_cap q' = conq_cap q"
    by (rule holds_pop_take)
  show "conq_holds q [] \<Longrightarrow>
      \<exists>q'. conq_pop g q = Ret (None, q') \<and> conq_holds q' [] \<and> conq_cap q' = conq_cap q"
    using pop_empty [of q g] conq_holdsD [of q "[]"] by simp
qed

lemma ctor_alloc_holds:
  assumes "conq_ctor_alloc m fl = Ret q" "unat m \<le> 2 ^ 31" "\<not> has_flag fl F_EXACT_SZ"
  shows "conq_holds q []" "conq_cap q = unat m"
proof -
  from assms(1) obtain q0 where q0: "conq_ctor (Some (unat (aligned_size m fl))) m fl = Ret q0"
    "q = q0\<lparr>self_alloc := True\<rparr>"
    by (auto simp: conq_ctor_alloc_def run_bind_Ret_iff)
  with ctor_pow2 [OF q0(1) assms(3,2)] ctor_fields [OF q0(1)]
  show "conq_holds q []" "conq_cap q = unat m"
    by (simp_all add: conq_holds_def conq_pow2_def conq_cap_def conq_rel_def ring_holds_Nil)
qed

section \<open>Properties\<close>

text \<open>Property C1: a \<open>ConQueue\<close> built by the allocating constructor (any flags it accepts but
  \<open>F_EXACT_SZ\<close>, any size up to \<open>2^31\<close>) answers every sequence of \<open>push\<close> and \<open>pop\<close> calls, in
  all nine combinations of producer and consumer mode and however often the positions wrap around, as a list
  bounded by \<open>max_size\<close> does; no call spins, throws or touches dead memory.\<close>

theorem conq_refines_bounded_list:
  assumes "conq_ctor_alloc m fl = Ret q" "unat m \<le> 2 ^ 31" "\<not> has_flag fl F_EXACT_SZ"
  shows "\<exists>q'. queue_run (conq_push g) (conq_pop g) ops q = Ret (fst (spec_run (unat m) ops []), q') \<and>
              conq_list q' = snd (spec_run (unat m) ops [])"
proof -
  from conq.run_refines [OF ctor_alloc_holds(1) [OF assms], of ops g]
  obtain q' where "queue_run (conq_push g) (conq_pop g) ops q = Ret (fst (spec_run (unat m) ops []), q')"
    "conq_holds q' (snd (spec_run (unat m) ops []))"
    unfolding ctor_alloc_holds(2) [OF assms] by blast
  then show ?thesis by (auto simp: conq_holds_def conq_list_rel)
qed

lemma conq_refines_bounded_list_witness:
  "\<exists>q q'. conq_ctor_alloc 2 F_SP_ENQ = Ret q \<and>
     queue_run (conq_push 7) (conq_pop 7) [Enqueue 5, Enqueue 6, Enqueue (8 :: nat), Dequeue] q =
       Ret ([Enqueued True, Enqueued True, Enqueued False, Dequeued (Some 5)], q') \<and> conq_list q' = [6]"
proof -
  obtain q :: "nat conqueue" where q: "conq_ctor_alloc 2 F_SP_ENQ = Ret q"
    by (simp add: conq_ctor_alloc_def conq_ctor_def has_flag_def conq_flag_defs Let_def)
  have "unat (2 :: u32) \<le> 2 ^ 31" "\<not> has_flag F_SP_ENQ F_EXACT_SZ"
    by (simp_all add: has_flag_def conq_flag_defs)
  from conq_refines_bounded_list [OF q this, of 7 "[Enqueue 5, Enqueue 6, Enqueue 8, Dequeue]"] q
  show ?thesis by auto
qed

lemma conq_list_empty: "conq_holds q [] \<Longrightarrow> conq_list q = []"
  by (auto simp: conq_holds_def dest: conq_list_rel)

text \<open>Property C26: in a queue whose layout is a power of two (built without \<open>F_EXACT_SZ\<close>, size up to \<open>2^31\<close>), \<open>push_bulk\<close> stores in
  every mode as many of its elements as there is room for, in order, behind what the queue holds; in the two
  multi-consumer modes \<open>pop_bulk\<close> hands out the oldest elements, as many as are asked for and there are.\<close>

theorem conq_bulk_correct:
  assumes "conq_holds q xs" "length ys < 2 ^ 32"
  shows "(let l = min (conq_cap q - length xs) (length ys) in
      \<exists>q'. conq_push_bulk g ys q = Ret (of_nat l, q') \<and> conq_holds q' (xs @ take l ys)) \<and>
    (\<not> has_flag (flags q) F_SC_DEQ \<longrightarrow> (let l = min (unat n) (length xs) in
      \<exists>q'. conq_pop_bulk g n q = Ret (take l xs, of_nat l, q') \<and> conq_holds q' (drop l xs)))"
proof -
  note D = conq_holdsD [OF assms(1)]
  define l where "l = min (conq_cap q - length xs) (length ys)"
  obtain q' where "conq_push_bulk g ys q = Ret (of_nat l, q')" "conq_rel q' (xs @ take l ys)" "conq_cfg q' = conq_cfg q"
    using push_bulk_rel [of q xs ys l g] D assms(2) by (auto simp: l_def conq_cap_def)
  with conq_holds_next [OF assms(1)]
  have 1: "\<exists>q'. conq_push_bulk g ys q = Ret (of_nat l, q') \<and> conq_holds q' (xs @ take l ys)" by blast
  let ?l = "min (unat n) (length xs)"
  have "\<exists>q'. conq_pop_bulk g n q = Ret (take ?l xs, of_nat ?l, q') \<and> conq_holds q' (drop ?l xs)"
    if m: "\<not> has_flag (flags q) F_SC_DEQ"
  proof -
    obtain q'' where "conq_pop_bulk g n q = Ret (take ?l xs, of_nat ?l, q'')" "conq_rel q'' (drop ?l xs)" "conq_cfg q'' = conq_cfg q"
      using pop_bulk_multi_rel [of q xs ?l n g] D m by auto
    then show ?thesis using conq_holds_next [OF assms(1), of q''] by auto
  qed
  with 1 show ?thesis by (auto simp: l_def Let_def)
qed

lemma ctor_alloc_example:
  "\<exists>q :: nat conqueue. conq_ctor_alloc 4 fl = Ret q \<and> conq_holds q [] \<and> conq_cap q = 4 \<and>
     flags q = conq_default_flags fl"
  if "fl \<in> {0, F_SC_DEQ}"
proof -
  have "\<not> has_flag fl F_EXACT_SZ" "\<exists>q :: nat conqueue. conq_ctor_alloc 4 fl = Ret q"
    using that by (auto simp: conq_ctor_alloc_def conq_ctor_def has_flag_def conq_flag_defs Let_def)
  with ctor_alloc_holds [of 4 fl] ctor_alloc_flags [of 4 fl] show ?thesis by fastforce
qed

lemma conq_bulk_correct_witness:
  "\<exists>q :: nat conqueue. conq_holds q [1, 2, 3, 4] \<and>
     (\<exists>q'. conq_pop_bulk 0 3 q = Ret ([1, 2, 3], 3, q') \<and> conq_holds q' [4])"
proof -
  obtain q :: "nat conqueue" where q: "conq_holds q []" "conq_cap q = 4" "flags q = conq_default_flags 0"
    using ctor_alloc_example [of 0] by auto
  have m: "\<not> has_flag (conq_default_flags 0) F_SC_DEQ"
    by (simp add: default_flags_has) (simp add: has_flag_def)
  from conq_bulk_correct [OF q(1), of "[1, 2, 3, 4, 5]" 0] q
  obtain q' where q': "conq_push_bulk 0 [1, 2, 3, 4, 5] q = Ret (4, q')" "conq_holds q' [1, 2, 3, 4]"
    by (auto simp: Let_def)
  then have "flags q' = flags q" by (auto dest: push_bulk_flags)
  with m q(3) have "\<not> has_flag (flags q') F_SC_DEQ" by simp
  with conq_bulk_correct [OF q'(2), of "[]" 0 3] q'(2) show ?thesis
    by (auto simp: Let_def)
qed

text \<open>Property C27: the single-consumer \<open>pop_bulk\<close>. Asked for no more than the queue holds it is
  right; asked for more than a non-empty queue holds it goes on and reads destroyed or never
  constructed objects, because the loop condition looks at \<open>cons_tail.pos\<close>, which the loop
  leaves alone; and when the positions have wrapped between tail and head it hands out
  nothing at all.\<close>

theorem conq_sc_pop_bulk:
  assumes "conq_holds q xs" "xs \<noteq> []" "has_flag (flags q) F_SC_DEQ"
  shows "if unat (pos (cons_tail q)) + length xs < 2 ^ 32
     then if unat n \<le> length xs
          then \<exists>q'. conq_pop_bulk g n q = Ret (take (unat n) xs, n, q') \<and> conq_holds q' (drop (unat n) xs)
          else conq_pop_bulk g n q = UB
     else conq_pop_bulk g n q = Ret ([], 0, q)"
proof -
  note D = conq_holdsD [OF assms(1)]
  have rel: "conq_rel q xs" and len: "length xs < 2 ^ 32"
    using D le_less_trans [OF conq_rel_length unat_u32_less] by auto
  have "pos (cons_tail q) < pos (prod_tail q) \<longleftrightarrow> unat (pos (cons_tail q)) + length xs < 2 ^ 32"
    using rel len assms(2) less_shift_u32 [of "length xs" "pos (cons_tail q)"]
    by (simp add: conq_rel_def)
  with sc_pop_bulk_exact [OF rel _ _ assms(3), of n g] sc_pop_bulk_overrun [OF rel _ _ assms(3), of n g]
    sc_pop_bulk_wrapped [OF assms(3), of g n] conq_holds_next [OF assms(1)] D
  show ?thesis by (auto simp: not_le)
qed

lemma conq_sc_pop_bulk_witness:
  "\<exists>q :: nat conqueue. conq_holds q [1] \<and> conq_pop_bulk 0 2 q = UB"
proof -
  obtain q :: "nat conqueue" where q: "conq_ctor_alloc 4 F_SC_DEQ = Ret q" "conq_holds q []" "conq_cap q = 4"
    "flags q = conq_default_flags F_SC_DEQ"
    using ctor_alloc_example [of F_SC_DEQ] by auto
  then have c: "pos (cons_tail q) = 0"
    by (auto simp: conq_ctor_alloc_def conq_ctor_def Let_def split: if_splits)
  obtain q' where q': "conq_emplace 0 1 q = Ret (True, q')" "conq_rel q' [1]" "conq_cfg q' = conq_cfg q"
    "cons_tail q' = cons_tail q"
    using emplace_room [of q "[]" 0 1] conq_holdsD [OF q(2)] q(3) conq_win_le [of q "pos (cons_tail q)" 1]
    by (auto simp: conq_cap_def)
  have h: "conq_holds q' [1]" using conq_holds_next [OF q(2) q'(2,3)] by simp
  have "has_flag (flags q') F_SC_DEQ"
    using q'(3) q(4) by (simp add: conq_cfg_def default_flags_has) (simp add: has_flag_def conq_flag_defs)
  from conq_sc_pop_bulk [OF h _ this, of 2 0] h show ?thesis
    by (auto simp: q'(4) c)
qed

text \<open>\<open>aligned_size\<close> is the least power of two that is not below a size up to \<open>2^31\<close>;
  for a larger size (and for 0) the sum wraps around to 0.\<close>

theorem aligned_size_least_pow2:
  assumes "\<not> has_flag fl F_EXACT_SZ"
  shows "if 1 \<le> unat n \<and> unat n \<le> 2 ^ 31
     then \<exists>k\<le>31. aligned_size n fl = 2 ^ k \<and> unat n \<le> 2 ^ k \<and> (\<forall>j<k. 2 ^ j < unat n)
     else aligned_size n fl = 0"
proof (cases "1 \<le> unat n \<and> unat n \<le> 2 ^ 31")
  case True
  then obtain k where k: "k \<le> 31" "round_up32 n = 2 ^ k" "unat n \<le> 2 ^ k" "2 ^ k < 2 * unat n"
    using round_up32_spec by metis
  have "2 ^ j < unat n" if "j < k" for j
  proof -
    have "(2 :: nat) * 2 ^ j \<le> 2 ^ k"
      using that by (metis Suc_leI one_le_numeral power_Suc power_increasing)
    with k(4) show ?thesis by linarith
  qed
  with k True show ?thesis by (auto simp: aligned_size_round [OF assms])
next
  case False
  have "aligned_size n fl = 0"
    by (rule aligned_size_zero [OF assms]) (use False in auto)
  with False show ?thesis by (simp only: if_False simp_thms)
qed

lemma aligned_size_least_pow2_witness: "aligned_size 1000 F_MP_ENQ = 1024"
proof -
  have "\<not> has_flag F_MP_ENQ F_EXACT_SZ" by simp
  from aligned_size_least_pow2 [OF this, of 1000]
  obtain k where k: "aligned_size 1000 F_MP_ENQ = 2 ^ k" "1000 \<le> (2 :: nat) ^ k" "\<forall>j<k. (2 :: nat) ^ j < 1000"
    by auto
  have "\<not> k < 10" using k(2) power_increasing [of k 9 "2 :: nat"] by auto
  moreover have "\<not> 10 < k" using k(3) by auto
  ultimately have "k = 10" by simp
  with k(1) show ?thesis by simp
qed

definition prod_modes :: "u32 \<Rightarrow> u32 list" where
  "prod_modes fl = filter (has_flag fl) [F_SP_ENQ, F_MP_RTS_ENQ, F_MP_ENQ]"

definition cons_modes :: "u32 \<Rightarrow> u32 list" where
  "cons_modes fl = filter (has_flag fl) [F_SC_DEQ, F_MC_RTS_DEQ, F_MC_DEQ]"

text \<open>The constructor returns exactly when it gets an array, a positive size and at
  most one producer and one consumer mode; the queue then has exactly one of each, the
  requested one or else the multi-producer and multi-consumer defaults, and is empty.\<close>

theorem conq_ctor_accepts:
  "(returns (conq_ctor rg m fl) \<longleftrightarrow>
     rg \<noteq> None \<and> m \<noteq> 0 \<and> length (prod_modes fl) \<le> 1 \<and> length (cons_modes fl) \<le> 1) \<and>
   (\<forall>q. conq_ctor rg m fl = Ret q \<longrightarrow>
      prod_modes (flags q) = (if prod_modes fl = [] then [F_MP_ENQ] else prod_modes fl) \<and>
      cons_modes (flags q) = (if cons_modes fl = [] then [F_MC_DEQ] else cons_modes fl) \<and>
      conq_list q = [])"
proof (intro conjI allI impI)
  show "returns (conq_ctor rg m fl) \<longleftrightarrow>
     rg \<noteq> None \<and> m \<noteq> 0 \<and> length (prod_modes fl) \<le> 1 \<and> length (cons_modes fl) \<le> 1"
    by (auto simp: conq_ctor_def prod_modes_def cons_modes_def has_flag_or Let_def split: option.splits)
next
  fix q assume q: "conq_ctor rg m fl = Ret q"
  then obtain n where rg: "rg = Some n" by (auto simp: conq_ctor_def split: option.splits)
  note F = ctor_fields [OF q [unfolded rg]]
  show "conq_list q = []" using F(6) by (rule conq_list_rel)
  show "prod_modes (flags q) = (if prod_modes fl = [] then [F_MP_ENQ] else prod_modes fl)"
    "cons_modes (flags q) = (if cons_modes fl = [] then [F_MC_DEQ] else cons_modes fl)"
    by (auto simp: F(2) prod_modes_def cons_modes_def default_flags_has)
qed

lemma conq_ctor_accepts_witness:
  "returns (conq_ctor (Some 8) 5 F_MC_RTS_DEQ :: nat conqueue run) \<and>
   \<not> returns (conq_ctor (Some 8) 5 (F_SP_ENQ OR F_MP_ENQ) :: nat conqueue run)"
  using conjunct1 [OF conq_ctor_accepts [of "Some 8" 5 F_MC_RTS_DEQ]]
    conjunct1 [OF conq_ctor_accepts [of "Some 8" 5 "F_SP_ENQ OR F_MP_ENQ"]]
  by (simp add: prod_modes_def cons_modes_def has_flag_def conq_flag_defs)

text \<open>A size above \<open>2^31\<close> makes the allocating constructor allocate no cell at all; it
  returns normally and the first \<open>push\<close> writes out of bounds.\<close>

theorem conq_oversize_unusable:
  assumes "2 ^ 31 < unat m" "\<not> has_flag fl F_EXACT_SZ" "conq_ctor_alloc m fl = Ret q"
  shows "ring_cells q = 0 \<and> conq_push g x q = UB"
proof -
  have "aligned_size m fl = 0"
    using aligned_size_zero [OF assms(2)] assms(1) by simp
  with assms(3) obtain q0 where q0: "conq_ctor (Some 0) m fl = Ret q0" "q = q0\<lparr>self_alloc := True\<rparr>"
    by (auto simp: conq_ctor_alloc_def run_bind_Ret_iff)
  note F = ctor_fields [OF q0(1)]
  have z: "prod_tail q = \<lparr>pos = 0, cnt = 0\<rparr>" "cons_tail q = \<lparr>pos = 0, cnt = 0\<rparr>" "prod_head q = \<lparr>pos = 0, cnt = 0\<rparr>"
    using q0 by (auto simp: conq_ctor_def Let_def split: if_splits)
  have "construct_at q' p x = UB" if "ring_cells q' = 0" for q' :: "'a conqueue" and p
    using that by (simp add: construct_at_def)
  moreover have "ring_cells q = 0" "max_size q = m" "m \<noteq> 0"
    using F q0(2) by simp_all
  ultimately show ?thesis
    by (simp add: conq_push_def conq_emplace_def conq_capacity_def z Let_def)
qed

lemma conq_oversize_unusable_witness:
  "\<exists>q :: nat conqueue. conq_ctor_alloc 2147483649 0 = Ret q \<and> conq_push 0 1 q = UB"
proof -
  obtain q :: "nat conqueue" where q: "conq_ctor_alloc 2147483649 0 = Ret q"
    by (simp add: conq_ctor_alloc_def conq_ctor_def has_flag_def Let_def)
  have "2 ^ 31 < unat (2147483649 :: u32)" "\<not> has_flag 0 F_EXACT_SZ"
    by (simp_all add: has_flag_def)
  from conq_oversize_unusable [OF this q, of 0 1] q show ?thesis by blast
qed

text \<open>\<open>top\<close> indexes the array with the raw tail position. It returns the oldest element
  only until the tail has gone once round the array; from then on it reads outside the array
  or a cell where no object lives.\<close>

theorem conq_top_first_round_only:
  assumes "conq_holds q (x # xs)"
  shows "conq_top q = (if pos (cons_tail q) \<le> count_mask q then Ret x else UB)"
proof -
  let ?t = "pos (cons_tail q)"
  from assms obtain k where k: "k \<le> 31" "\<not> has_flag (flags q) F_EXACT_SZ" "count_mask q = mask k"
    "2 ^ k \<le> ring_cells q" and rel: "conq_rel q (x # xs)"
    by (auto simp: conq_holds_def conq_pow2_def)
  have slot: "conq_slot q i = unat i mod 2 ^ k" for i
    using k by (simp add: conq_slot_def to_id_def unat_and_mask_u32)
  have le: "?t \<le> count_mask q \<longleftrightarrow> unat ?t < 2 ^ k"
    using unat_mask_u32 [OF k(1)] by (simp add: k(3) word_le_nat_alt le_diff_conv2 Suc_le_eq [symmetric])
  show ?thesis
  proof (cases "unat ?t < 2 ^ k")
    case True
    then have "ring q (unat ?t) = Some x"
      using rel by (auto simp: conq_rel_def dest: ring_holds_nth [of _ _ _ _ 0] simp: slot)
    with True le k(4) show ?thesis by (simp add: conq_top_def Let_def)
  next
    case False
    have "unat ?t \<notin> window_cells (conq_slot q) (length (x # xs)) ?t"
      using False by (auto simp: window_cells_def slot)
    then have "ring q (unat ?t) = None"
      using rel by (simp add: conq_rel_def ring_holds_def)
    with False le show ?thesis by (simp add: conq_top_def Let_def)
  qed
qed

lemma conq_top_first_round_only_witness:
  "\<exists>q :: nat conqueue. conq_holds q [5] \<and> pos (cons_tail q) = 0 \<and> conq_top q = Ret 5"
proof -
  obtain q :: "nat conqueue" where q: "conq_ctor_alloc 4 0 = Ret q" "conq_holds q []" "conq_cap q = 4"
    using ctor_alloc_example [of 0] by auto
  then have c: "pos (cons_tail q) = 0"
    by (auto simp: conq_ctor_alloc_def conq_ctor_def Let_def split: if_splits)
  obtain q' where q': "conq_rel q' [5 :: nat]" "conq_cfg q' = conq_cfg q" "cons_tail q' = cons_tail q"
    using emplace_room [of q "[]" 0 5] conq_holdsD [OF q(2)] q(3) by (auto simp: conq_cap_def)
  have h: "conq_holds q' [5]" using conq_holds_next [OF q(2) q'(1,2)] by simp
  from conq_top_first_round_only [OF h] h c q'(3) show ?thesis by auto
qed

text \<open>The destructor hands \<open>max_size\<close> to \<open>deallocate\<close>, which is the number of cells
  that \<open>allocate\<close> was asked for only when \<open>max_size\<close> is a power of two (and never in the
  exact-size mode).\<close>

theorem conq_dtor_dealloc_count:
  assumes "conq_ctor_alloc m fl = Ret q" "unat m \<le> 2 ^ 31"
  shows "conq_dtor q = Ret (Some m) \<and>
    (unat m = ring_cells q \<longleftrightarrow> \<not> has_flag fl F_EXACT_SZ \<and> (\<exists>k. unat m = 2 ^ k))"
proof -
  from assms(1) obtain q0 where q0: "conq_ctor (Some (unat (aligned_size m fl))) m fl = Ret q0"
    "q = q0\<lparr>self_alloc := True\<rparr>"
    by (auto simp: conq_ctor_alloc_def run_bind_Ret_iff)
  note F = ctor_fields [OF q0(1)]
  have p: "pos (prod_tail q) = pos (cons_tail q)"
    using q0 by (auto simp: conq_ctor_def Let_def split: if_splits)
  have "conq_dtor q = Ret (Some m)"
    using F(3) q0(2) p by (simp add: conq_dtor_def conq_clear_def destroy_range.simps)
  moreover have "unat m = unat (aligned_size m fl) \<longleftrightarrow> \<not> has_flag fl F_EXACT_SZ \<and> (\<exists>k. unat m = 2 ^ k)"
  proof (cases "has_flag fl F_EXACT_SZ")
    case True
    have "m \<noteq> m + 1" by simp
    with True show ?thesis by (simp add: aligned_size_exact word_unat_eq_iff [symmetric])
  next
    case False
    have "1 \<le> unat m" using F(1) by (simp add: unat_gt_0 Suc_leI)
    then obtain k where k: "k \<le> 31" "round_up32 m = 2 ^ k" "unat m \<le> 2 ^ k" "2 ^ k < 2 * unat m"
      using assms(2) round_up32_spec by metis
    then have "unat (aligned_size m fl) = 2 ^ k"
      by (simp add: aligned_size_round [OF False] unat_pow2_u32)
    moreover have "unat m = 2 ^ k" if "unat m = 2 ^ j" for j
    proof -
      have "(2 :: nat) ^ j \<le> 2 ^ k" "(2 :: nat) ^ k < 2 ^ Suc j" using k(3,4) that by simp_all
      then have "j \<le> k" "k < Suc j"
        by (simp_all only: power_increasing_iff power_strict_increasing_iff one_less_numeral_iff semiring_norm)
      with that show ?thesis by simp
    qed
    ultimately show ?thesis using False by auto
  qed
  ultimately show ?thesis using F(4) q0(2) by simp
qed

lemma conq_dtor_dealloc_count_witness:
  "\<exists>q :: nat conqueue. conq_ctor_alloc 3 0 = Ret q \<and> conq_dtor q = Ret (Some 3) \<and> ring_cells q \<noteq> 3"
proof -
  obtain q :: "nat conqueue" where q: "conq_ctor_alloc 3 0 = Ret q" "ring_cells q = 4"
    by (simp add: conq_ctor_alloc_def conq_ctor_def has_flag_def aligned_size_def Let_def)
  from conq_dtor_dealloc_count [OF q(1)] q show ?thesis by auto
qed

section \<open>The exact-size layout\<close>

lemma push_pop_rounds_shift:
  fixes q :: "'a conqueue"
  assumes "conq_rel q []" "conq_wf q" "max_size q \<noteq> 0"
  shows "\<exists>rs q'. queue_run (conq_push g) (conq_pop g) (push_pop_rounds n x) q = Ret (rs, q') \<and>
     conq_rel q' [] \<and> conq_cfg q' = conq_cfg q \<and> pos (cons_tail q') = pos (cons_tail q) + of_nat n"
  using assms
proof (induction n arbitrary: q)
  case 0
  then show ?case by (simp add: push_pop_rounds_def)
next
  case (Suc n)
  obtain q1 where q1: "conq_push g x q = Ret (True, q1)" "conq_rel q1 [x]" "conq_cfg q1 = conq_cfg q"
    "cons_tail q1 = cons_tail q"
    using emplace_room [OF Suc.prems(1,2), of g x] Suc.prems(3) by (auto simp: conq_push_def unat_gt_0)
  obtain q2 where q2: "conq_pop g q1 = Ret (Some x, q2)" "conq_rel q2 []" "conq_cfg q2 = conq_cfg q1"
    "pos (cons_tail q2) = pos (cons_tail q) + 1"
    using pop_take [OF q1(2), of g] conq_wf_cong [OF q1(3)] Suc.prems(2) q1(4) by auto
  have "conq_wf q2" "max_size q2 \<noteq> 0"
    using conq_wf_cong [of q2 q] q1(3) q2(3) Suc.prems(2,3) by (simp_all add: conq_cfg_def)
  from Suc.IH [OF q2(2) this] obtain rs q' where
    "queue_run (conq_push g) (conq_pop g) (push_pop_rounds n x) q2 = Ret (rs, q')" "conq_rel q' []"
    "conq_cfg q' = conq_cfg q2" "pos (cons_tail q') = pos (cons_tail q2) + of_nat n" by blast
  with q1(1,3) q2(1,3,4) show ?case by (simp add: push_pop_rounds_def add.assoc)
qed

text \<open>In the exact-size mode \<open>push\<close> and \<open>pop\<close> act as on a bounded list as long as the
  window of positions in use does not reach past \<open>2^32\<close>.\<close>

theorem conq_exact_before_wrap:
  assumes "conq_exact q" "conq_rel q xs" "unat (pos (cons_tail q)) + unat (max_size q) \<le> 2 ^ 32"
  shows "(\<exists>q'. conq_push g x q = Ret (length xs < unat (max_size q), q') \<and> conq_exact q' \<and>
            conq_rel q' (if length xs < unat (max_size q) then xs @ [x] else xs)) \<and>
         (\<exists>q'. conq_pop g q = Ret (case xs of [] \<Rightarrow> None | y # _ \<Rightarrow> Some y, q') \<and> conq_exact q' \<and>
            conq_rel q' (tl xs))"
proof -
  have win: "conq_win q (pos (cons_tail q))" and wf: "conq_wf q"
    using conq_exact_win [OF assms(1,3)] conq_exact_wf [OF assms(1)] by auto
  have ex: "conq_exact q'" if "conq_cfg q' = conq_cfg q" for q' :: "'a conqueue"
    using assms(1) that by (simp add: conq_exact_def conq_cfg_def)
  note len = conq_rel_length [OF assms(2)]
  have push: "\<exists>q'. conq_push g x q = Ret (length xs < unat (max_size q), q') \<and> conq_exact q' \<and>
            conq_rel q' (if length xs < unat (max_size q) then xs @ [x] else xs)"
  proof (cases "length xs < unat (max_size q)")
    case True
    with emplace_room [OF assms(2) wf conq_win_le [OF win], of g x] ex show ?thesis
      by (auto simp: conq_push_def)
  next
    case False
    with emplace_full [OF assms(2), of g x] len assms(1,2) show ?thesis by (simp add: conq_push_def)
  qed
  have "\<exists>q'. conq_pop g q = Ret (case xs of [] \<Rightarrow> None | y # _ \<Rightarrow> Some y, q') \<and> conq_exact q' \<and>
            conq_rel q' (tl xs)"
  proof (cases xs)
    case Nil
    with pop_empty [of q g] assms(1,2) show ?thesis by simp
  next
    case (Cons y ys)
    with pop_take [of q y ys g] conq_win_le [OF win, of "Suc (length ys)"] assms(2) wf ex len
    show ?thesis by auto
  qed
  with push show ?thesis by blast
qed

lemma conq_exact_before_wrap_witness:
  "\<exists>q q' :: nat conqueue. conq_exact q \<and> conq_push 0 7 q = Ret (True, q') \<and> conq_rel q' [7]"
proof -
  obtain q :: "nat conqueue" where q: "conq_ctor (Some 4) 3 F_EXACT_SZ = Ret q" "pos (cons_tail q) = 0"
    by (auto simp: conq_ctor_def has_flag_def conq_flag_defs Let_def)
  have e: "conq_exact q" by (rule ctor_exact [OF q(1)]) (simp_all add: has_flag_def conq_flag_defs)
  have "unat (pos (cons_tail q)) + unat (max_size q) \<le> 2 ^ 32"
    using q(2) less_imp_le [OF unat_u32_less [of "max_size q"]] by simp
  from conq_exact_before_wrap [OF e ctor_fields(6) [OF q(1)] this, of 0 7] e ctor_fields(3) [OF q(1)]
  show ?thesis by auto
qed

lemma exact_collision:
  assumes "conq_rel q []" "conq_cfg q = (4, True, F_EXACT_SZ OR F_MP_ENQ OR F_MC_DEQ, 3, 3)"
    "pos (cons_tail q) = - 1"
  shows "\<exists>q'. queue_run (conq_push g) (conq_pop g) [Enqueue x, Enqueue y, Dequeue] q =
            Ret ([Enqueued True, Enqueued True, Dequeued (Some y)], q') \<and> conq_pop g q' = UB"
proof -
  have fl: "flags q = 100" "count_mask q = 3" "max_size q = 3" "ring_cells q = 4"
    using assms(2) by (simp_all add: conq_cfg_def conq_flag_defs)
  have st: "ring q = (\<lambda>_. None)" "pos (prod_tail q) = - 1" "pos (prod_head q) = - 1" "pos (cons_head q) = - 1"
    using assms(1,3) by (simp_all add: conq_rel_def ring_holds_Nil fl has_flag_def conq_flag_defs)
  have m: "(- 1 :: u32) mod 3 = 0" by (simp add: word_unat_eq_iff unat_mod unat_minus_one_u32)
  have id: "has_flag 100 F_EXACT_SZ" "\<not> has_flag 100 F_SP_ENQ" "has_flag 100 F_MP_ENQ"
    "\<not> has_flag 100 F_SC_DEQ" "has_flag 100 F_MC_DEQ"
    by (simp_all add: has_flag_def conq_flag_defs)
  let ?q1 = "q\<lparr>prod_head := \<lparr>pos = 0, cnt = g\<rparr>, ring := [0 \<mapsto> x], prod_tail := (prod_tail q)\<lparr>pos := 0\<rparr>\<rparr>"
  have p1: "conq_push g x q = Ret (True, ?q1)"
    by (simp add: conq_push_def conq_emplace_def conq_capacity_def construct_at_def to_id_def fl st assms(3) id m
        default_update_ht_def mp_head_def Let_def)
  let ?q2 = "q\<lparr>prod_head := \<lparr>pos = 1, cnt = g\<rparr>, ring := [0 \<mapsto> y], prod_tail := (prod_tail q)\<lparr>pos := 1\<rparr>\<rparr>"
  have p2: "conq_push g y ?q1 = Ret (True, ?q2)"
    by (simp add: conq_push_def conq_emplace_def conq_capacity_def construct_at_def to_id_def fl st assms(3) id m
        default_update_ht_def mp_head_def Let_def)
  let ?q3 = "?q2\<lparr>ring := (\<lambda>_. None), cons_head := \<lparr>pos = 0, cnt = g\<rparr>, cons_tail := (cons_tail q)\<lparr>pos := 0\<rparr>\<rparr>"
  have p3: "conq_pop g ?q2 = Ret (Some y, ?q3)"
    by (simp add: conq_pop_def move_destroy_at_def to_id_def fl st assms(3) id m
        default_update_ht_def mp_head_def Let_def)
  have "conq_pop g ?q3 = UB"
    by (simp add: conq_pop_def move_destroy_at_def to_id_def fl id mp_head_def Let_def)
  with p1 p2 p3 show ?thesis by simp
qed

text \<open>And it does go wrong at the wrap-around. A queue of exact size 3 that has passed
  \<open>2^32 - 1\<close> elements puts its next two elements into the same cell: the second overwrites
  the first, the first \<open>pop\<close> returns the second value and the second one reads a dead object.\<close>

theorem conq_exact_wrap_overwrites:
  assumes "conq_ctor_alloc 3 F_EXACT_SZ = Ret q"
  shows "\<exists>rs q2. queue_run (conq_push g) (conq_pop g)
           (push_pop_rounds (2 ^ 32 - 1) x @ [Enqueue x, Enqueue y, Dequeue]) q =
             Ret (rs @ [Enqueued True, Enqueued True, Dequeued (Some y)], q2) \<and> conq_pop g q2 = UB"
proof -
  from assms obtain q0 :: "'a conqueue" where q0: "conq_ctor (Some 4) 3 F_EXACT_SZ = Ret q0"
    "q = q0\<lparr>self_alloc := True\<rparr>"
    by (auto simp: conq_ctor_alloc_def run_bind_Ret_iff aligned_size_def has_flag_def conq_flag_defs)
  have fl: "flags q0 = F_EXACT_SZ OR F_MP_ENQ OR F_MC_DEQ"
    using ctor_fields(2) [OF q0(1)] by (simp add: conq_default_flags_def has_flag_def conq_flag_defs)
  note F = ctor_fields [OF q0(1)]
  have cfg: "conq_cfg q = (4, True, flags q0, 3, 3)"
    using F q0(2) by (simp add: conq_cfg_def aligned_size_def has_flag_def conq_flag_defs)
  have "conq_rel q []" "conq_wf q" "max_size q \<noteq> 0" "pos (cons_tail q) = 0"
    using ctor_exact [OF q0(1)] F(3,6) q0 conq_exact_wf [of q0]
    by (auto simp: conq_wf_def conq_slot_def to_id_def conq_rel_def ring_holds_Nil has_flag_def conq_flag_defs
        conq_ctor_def Let_def split: if_splits)
  from push_pop_rounds_shift [OF this(1-3), of g "2 ^ 32 - 1" x] this(4) obtain rs q' where
    q': "queue_run (conq_push g) (conq_pop g) (push_pop_rounds (2 ^ 32 - 1) x) q = Ret (rs, q')"
    "conq_rel q' []" "conq_cfg q' = conq_cfg q" "pos (cons_tail q') = - 1" by auto
  have "conq_cfg q' = (4, True, F_EXACT_SZ OR F_MP_ENQ OR F_MC_DEQ, 3, 3)"
    using q'(3) cfg fl by simp
  from exact_collision [OF q'(2) this q'(4), of g x y] q'(1) show ?thesis
    by (auto simp: queue_run_append)
qed

lemma conq_exact_wrap_overwrites_witness:
  "\<exists>(q :: nat conqueue) rs q2. conq_ctor_alloc 3 F_EXACT_SZ = Ret q \<and>
     queue_run (conq_push 0) (conq_pop 0) (push_pop_rounds (2 ^ 32 - 1) 1 @ [Enqueue 1, Enqueue 2, Dequeue]) q =
       Ret (rs @ [Enqueued True, Enqueued True, Dequeued (Some 2)], q2)"
proof -
  obtain q :: "nat conqueue" where q: "conq_ctor_alloc 3 F_EXACT_SZ = Ret q"
    by (simp add: conq_ctor_alloc_def conq_ctor_def has_flag_def conq_flag_defs aligned_size_def Let_def)
  from conq_exact_wrap_overwrites [OF q, of 0 1 2] q show ?thesis by blast
qed

end
