(* ===== verification/Transition.thy ===== *)
theory Transition
  imports Prelude
begin

text \<open>
  Concurrent components are step relations: one step is one atomic operation of one thread,
  with sequentially consistent memory. This theory has the interface of such a component
  (initial states, steps, an invariant), the interface of a lock, and a counting function
  over the threads.
\<close>

section \<open>Counting threads\<close>

text \<open>\<open>threads_in N P pc\<close>: how many of the threads \<open>0, ..., N - 1\<close> are at a program point in \<open>P\<close>.\<close>

primrec threads_in :: "nat \<Rightarrow> ('c \<Rightarrow> bool) \<Rightarrow> (nat \<Rightarrow> 'c) \<Rightarrow> nat" where
  "threads_in 0 P pc = 0"
| "threads_in (Suc n) P pc = threads_in n P pc + of_bool (P (pc n))"

lemma threads_in_other: "N \<le> t \<Longrightarrow> threads_in N P (pc(t := c)) = threads_in N P pc"
  by (induction N) auto

lemma threads_in_upd:
  "t < N \<Longrightarrow> threads_in N P (pc(t := c)) + of_bool (P (pc t)) = threads_in N P pc + of_bool (P c)"
  by (induction N) (auto simp: less_Suc_eq threads_in_other)

lemma threads_in_le: "threads_in N P pc \<le> N"
  by (induction N) auto

lemma threads_in_0: "threads_in N P pc = 0 \<longleftrightarrow> (\<forall>x<N. \<not> P (pc x))"
  by (induction N) (auto simp: less_Suc_eq)

lemma threads_in_pos: "t < N \<Longrightarrow> P (pc t) \<Longrightarrow> 0 < threads_in N P pc"
  using threads_in_0 [of N P pc] by (cases "threads_in N P pc") auto

lemma threads_in_1:
  "threads_in N P pc \<le> 1 \<Longrightarrow> i < N \<Longrightarrow> j < N \<Longrightarrow> P (pc i) \<Longrightarrow> P (pc j) \<Longrightarrow> i = j"
proof (induction N)
  case (Suc N)
  show ?case
  proof (cases "P (pc N)")
    case True
    then have "threads_in N P pc = 0" using Suc.prems(1) by simp
    then have "\<forall>x<N. \<not> P (pc x)" by (simp only: threads_in_0)
    with Suc.prems show ?thesis by (auto simp: less_Suc_eq)
  next
    case False
    with Suc show ?thesis by (auto simp: less_Suc_eq)
  qed
qed simp

lemma threads_in_mono: "(\<And>c. P c \<Longrightarrow> Q c) \<Longrightarrow> threads_in N P pc \<le> threads_in N Q pc"
  by (induction N) (auto intro: add_mono)

lemma only_one: "\<forall>t u. P t \<longrightarrow> P u \<longrightarrow> t = u \<Longrightarrow> P a \<Longrightarrow> \<forall>u. P u \<longrightarrow> u = a"
  by blast

text \<open>Sums over the threads when one of them moves.\<close>

lemma sum_fun_upd:
  fixes f :: "'b \<Rightarrow> 'c :: cancel_comm_monoid_add"
  assumes "finite A" "a \<in> A"
  shows "(\<Sum>i\<in>A. f ((g(a := v)) i)) + f (g a) = (\<Sum>i\<in>A. f (g i)) + f v"
proof -
  have "(\<Sum>i\<in>A - {a}. f ((g(a := v)) i)) = (\<Sum>i\<in>A - {a}. f (g i))" by (rule sum.cong) auto
  then show ?thesis
    using assms sum.remove [of A a "\<lambda>i. f ((g(a := v)) i)"] sum.remove [of A a "\<lambda>i. f (g i)"]
    by (simp add: ac_simps)
qed

section \<open>Systems with an invariant\<close>

locale transition_system =
  fixes init :: "'s \<Rightarrow> bool" and step :: "'s \<Rightarrow> 's \<Rightarrow> bool" and inv :: "'s \<Rightarrow> bool"
  assumes inv_init: "init s \<Longrightarrow> inv s"
    and inv_step: "inv s \<Longrightarrow> step s t \<Longrightarrow> inv t"
begin

lemma inv_steps: "step\<^sup>*\<^sup>* s t \<Longrightarrow> inv s \<Longrightarrow> inv t"
  by (induction rule: rtranclp_induct) (auto intro: inv_step)

lemma reach_inv: "init s \<Longrightarrow> step\<^sup>*\<^sup>* s t \<Longrightarrow> inv t"
  by (blast intro: inv_steps inv_init)

end

text \<open>
  A lock: \<open>excl s i\<close> says that thread \<open>i\<close> holds it exclusively, \<open>shrd s i\<close> that it holds it
  in shared mode. The invariant must imply the exclusion.
\<close>

locale lock_system = transition_system init step inv
  for init :: "'s \<Rightarrow> bool" and step :: "'s \<Rightarrow> 's \<Rightarrow> bool" and inv :: "'s \<Rightarrow> bool" +
  fixes excl :: "'s \<Rightarrow> nat \<Rightarrow> bool" and shrd :: "'s \<Rightarrow> nat \<Rightarrow> bool"
  assumes inv_excl: "inv s \<Longrightarrow> excl s i \<Longrightarrow> excl s j \<Longrightarrow> i = j"
    and inv_shrd: "inv s \<Longrightarrow> excl s i \<Longrightarrow> \<not> shrd s j"
begin

lemma exclusion:
  assumes "init s0" "step\<^sup>*\<^sup>* s0 s"
  shows "(excl s i \<and> excl s j \<longrightarrow> i = j) \<and> (excl s i \<longrightarrow> \<not> shrd s j)"
  using reach_inv [OF assms] inv_excl inv_shrd by blast

end

text \<open>
  A forward simulation: every concrete step that ends in a state in \<open>ok\<close> (a bound on the history, say) is matched by
  any number of abstract steps. The relation includes whatever invariants the matching needs.
\<close>

locale simulation =
  fixes astep :: "'a \<Rightarrow> 'a \<Rightarrow> bool" and cstep :: "'c \<Rightarrow> 'c \<Rightarrow> bool" and rel :: "'c \<Rightarrow> 'a \<Rightarrow> bool" and ok :: "'c \<Rightarrow> bool"
  assumes ok_back: "cstep s s' \<Longrightarrow> ok s' \<Longrightarrow> ok s"
    and sim_step: "rel s a \<Longrightarrow> cstep s s' \<Longrightarrow> ok s' \<Longrightarrow> \<exists>a'. astep\<^sup>*\<^sup>* a a' \<and> rel s' a'"
begin

lemma sim_steps: "cstep\<^sup>*\<^sup>* s s' \<Longrightarrow> rel s a \<Longrightarrow> ok s' \<Longrightarrow> \<exists>a'. astep\<^sup>*\<^sup>* a a' \<and> rel s' a'"
proof (induction rule: rtranclp_induct)
  case (step s1 s2)
  then have "ok s1" by (blast intro: ok_back)
  then obtain a1 where "astep\<^sup>*\<^sup>* a a1" "rel s1 a1" using step by blast
  with sim_step [OF this(2) step.hyps(2) step.prems(2)] show ?case by (blast intro: rtranclp_trans)
qed blast

end

end
