(* ===== verification/ConQueue_Conc.thy ===== *)
theory ConQueue_Conc
  imports ConQueue_Seq Transition
begin

text \<open>
  \<open>ConQueue\<close> used by \<open>N\<close> threads at once: \<open>emplace\<close>/\<open>push\<close>, \<open>push_bulk\<close>, \<open>pop\<close> and \<open>pop_bulk\<close> as a
  step relation, one access to a shared position per step, sequentially consistent. Both ends of
  the queue have the same three protocols (single, default, relaxed tail), so a step is written once
  for the end \<open>call_end\<close> the call works on: \<open>prod_head\<close>/\<open>prod_tail\<close> or \<open>cons_head\<close>/\<open>cons_tail\<close>.
  The loop of \<open>pop_bulk\<close> in single-consumer mode is left out: ConQueue_Contract shows that it is
  wrong already when nothing else runs.
\<close>

section \<open>The two ends\<close>

datatype cq_end = ProdEnd | ConsEnd

datatype cq_mode = Single | Default | Rts

fun head_of :: "cq_end \<Rightarrow> 'a conqueue \<Rightarrow> po_val" where
  "head_of ProdEnd q = prod_head q"
| "head_of ConsEnd q = cons_head q"

fun tail_of :: "cq_end \<Rightarrow> 'a conqueue \<Rightarrow> po_val" where
  "tail_of ProdEnd q = prod_tail q"
| "tail_of ConsEnd q = cons_tail q"

fun set_head :: "cq_end \<Rightarrow> po_val \<Rightarrow> 'a conqueue \<Rightarrow> 'a conqueue" where
  "set_head ProdEnd v q = q\<lparr>prod_head := v\<rparr>"
| "set_head ConsEnd v q = q\<lparr>cons_head := v\<rparr>"

fun set_tail :: "cq_end \<Rightarrow> po_val \<Rightarrow> 'a conqueue \<Rightarrow> 'a conqueue" where
  "set_tail ProdEnd v q = q\<lparr>prod_tail := v\<rparr>"
| "set_tail ConsEnd v q = q\<lparr>cons_tail := v\<rparr>"

fun mode_of :: "cq_end \<Rightarrow> 'a conqueue \<Rightarrow> cq_mode" where
  "mode_of ProdEnd q = (if has_flag (flags q) F_SP_ENQ then Single
     else if has_flag (flags q) F_MP_ENQ then Default else Rts)"
| "mode_of ConsEnd q = (if has_flag (flags q) F_SC_DEQ then Single
     else if has_flag (flags q) F_MC_DEQ then Default else Rts)"

section \<open>Calls and control points\<close>

datatype 'a cq_call = Emplace 'a | PushBulk "'a list" | Pop | PopBulk u32

fun call_end :: "'a cq_call \<Rightarrow> cq_end" where
  "call_end (Emplace x) = ProdEnd"
| "call_end (PushBulk xs) = ProdEnd"
| "call_end Pop = ConsEnd"
| "call_end (PopBulk n) = ConsEnd"

fun call_xs :: "'a cq_call \<Rightarrow> 'a list" where
  "call_xs (Emplace x) = [x]"
| "call_xs (PushBulk xs) = xs"
| "call_xs Pop = []"
| "call_xs (PopBulk n) = []"

text \<open>The number of elements asked for.\<close>

fun call_count :: "'a cq_call \<Rightarrow> nat" where
  "call_count (Emplace x) = 1"
| "call_count (PushBulk xs) = length xs"
| "call_count Pop = 1"
| "call_count (PopBulk n) = unat n"

text \<open>The test before the exchange: how many positions the call claims when it has read \<open>v\<close> as
  its own position; with 0 it returns at once.\<close>

fun call_room :: "'a cq_call \<Rightarrow> po_val \<Rightarrow> 'a conqueue \<Rightarrow> u32" where
  "call_room (Emplace x) v q = (if pos v - pos (cons_tail q) = conq_capacity q then 0 else 1)"
| "call_room (PushBulk xs) v q = min (conq_capacity q - pos v + pos (cons_tail q)) (of_nat (length xs))"
| "call_room Pop v q = (if pos v = pos (prod_tail q) then 0 else 1)"
| "call_room (PopBulk n) v q = min n (pos (prod_tail q) - pos v)"

text \<open>A claim: \<open>ck_len\<close> positions from \<open>ck_pos\<close> on, of which the first \<open>length ck_done\<close> have been
  constructed or moved out.\<close>

record 'a cq_claim =
  ck_call :: "'a cq_call"
  ck_pos :: u32
  ck_len :: u32
  ck_done :: "'a list"

datatype 'a cq_pc =
    CqIdle
  | CqTest "'a cq_call" po_val           \<comment> \<open>oh loaded; the test reads the other end's tail\<close>
  | CqCas "'a cq_call" po_val u32        \<comment> \<open>compare-exchange of the head\<close>
  | CqWork "'a cq_claim"                 \<comment> \<open>placement new, or move and destructor, of the next element\<close>
  | CqWait "'a cq_claim"                 \<comment> \<open>while (ht_->pos != oht_pos)\<close>
  | CqTurn "'a cq_claim"                 \<comment> \<open>ht_->pos += n: the load\<close>
  | CqAdd "'a cq_claim" u32              \<comment> \<open>... and the store\<close>
  | CqTail "'a cq_claim"                 \<comment> \<open>rts_update_ht: load of ht_\<close>
  | CqHead "'a cq_claim" po_val          \<comment> \<open>load of ht\<close>
  | CqSet "'a cq_claim" po_val po_val    \<comment> \<open>compare-exchange of ht_\<close>

text \<open>What a call has returned: \<open>Served c\<close> (true, or the count \<open>ck_len\<close>; a pop has written \<open>ck_done\<close>)
  or \<open>Refused\<close> (false, or 0).\<close>

datatype 'a cq_ret = Served "'a cq_claim" | Refused "'a cq_call"

text \<open>
  History: \<open>cq_in\<close> are the elements of all claimed pushes, in the order of the claims; \<open>cq_lens\<close> the
  lengths of all claims of each end; \<open>cq_log\<close> the completed calls with their threads. \<open>cq_ub\<close> records an
  access to memory outside the array or to an object that is not alive.
\<close>

record 'a cq_state =
  cq_q :: "'a conqueue"
  cq_pc :: "nat \<Rightarrow> 'a cq_pc"
  cq_in :: "'a list"
  cq_lens :: "cq_end \<Rightarrow> nat list"
  cq_log :: "(nat \<times> 'a cq_ret) list"
  cq_ub :: bool

definition cq_init :: "'a conqueue \<Rightarrow> 'a cq_state \<Rightarrow> bool" where
  "cq_init q s \<longleftrightarrow> cq_q s = q \<and> cq_pc s = (\<lambda>_. CqIdle) \<and> cq_in s = [] \<and> cq_lens s = (\<lambda>_. []) \<and> cq_log s = [] \<and> \<not> cq_ub s"

abbreviation cq_goto :: "nat \<Rightarrow> 'a cq_pc \<Rightarrow> 'a cq_state \<Rightarrow> 'a cq_state" where
  "cq_goto t c s \<equiv> s\<lparr>cq_pc := (cq_pc s)(t := c)\<rparr>"

definition cq_return :: "nat \<Rightarrow> 'a cq_ret \<Rightarrow> 'a cq_state \<Rightarrow> 'a cq_state" where
  "cq_return t r s = s\<lparr>cq_pc := (cq_pc s)(t := CqIdle), cq_log := cq_log s @ [(t, r)]\<rparr>"

definition new_claim :: "'a cq_call \<Rightarrow> po_val \<Rightarrow> u32 \<Rightarrow> 'a cq_claim" where
  "new_claim c v l = \<lparr>ck_call = c, ck_pos = pos v, ck_len = l, ck_done = []\<rparr>"

definition cq_take :: "nat \<Rightarrow> 'a cq_call \<Rightarrow> po_val \<Rightarrow> u32 \<Rightarrow> 'a cq_state \<Rightarrow> 'a cq_state" where
  "cq_take t c v l s = s\<lparr>cq_pc := (cq_pc s)(t := CqWork (new_claim c v l)), cq_in := cq_in s @ take (unat l) (call_xs c),
     cq_lens := (cq_lens s)(call_end c := cq_lens s (call_end c) @ [unat l])\<rparr>"

definition after_work :: "cq_mode \<Rightarrow> 'a cq_claim \<Rightarrow> 'a cq_pc" where
  "after_work m c = (case m of Single \<Rightarrow> CqTurn c | Default \<Rightarrow> CqWait c | Rts \<Rightarrow> CqTail c)"

text \<open>The element access of a claim in progress: constructing for a push, moving out and destroying
  for a pop. The result is the element and the queue.\<close>

definition work_on :: "'a cq_claim \<Rightarrow> 'a conqueue \<Rightarrow> ('a \<times> 'a conqueue) run" where
  "work_on c q =
     (let i = length (ck_done c); p = ck_pos c + of_nat i in
      case call_end (ck_call c) of
        ProdEnd \<Rightarrow> let x = call_xs (ck_call c) ! i in run_bind (construct_at q p x) (\<lambda>q. Ret (x, q))
      | ConsEnd \<Rightarrow> move_destroy_at q p)"

section \<open>Steps\<close>

text \<open>
  One step of thread \<open>t\<close>. The compare-exchanges are weak: they may fail at any time, and load the
  current value then. In single mode only the thread \<open>solo e\<close> uses the end \<open>e\<close>; its test and claim are
  one step, since the test reads one shared position that another thread writes.
\<close>

inductive cq_thread :: "(cq_end \<Rightarrow> nat) \<Rightarrow> nat \<Rightarrow> 'a cq_state \<Rightarrow> 'a cq_state \<Rightarrow> bool" for solo t where
  cq_call: "cq_thread solo t s (cq_goto t (CqTest c (head_of (call_end c) (cq_q s))) s)"
    if "cq_pc s t = CqIdle" "mode_of (call_end c) (cq_q s) \<noteq> Single"
| cq_refuse: "cq_thread solo t s (cq_return t (Refused c) s)"
    if "cq_pc s t = CqTest c v" "call_room c v (cq_q s) = 0"
| cq_test: "cq_thread solo t s (cq_goto t (CqCas c v (call_room c v (cq_q s))) s)"
    if "cq_pc s t = CqTest c v" "call_room c v (cq_q s) \<noteq> 0"
| cq_cas_default: "cq_thread solo t s (cq_take t c v l (s\<lparr>cq_q := set_head (call_end c) (mp_head g v l) (cq_q s)\<rparr>))"
    if "cq_pc s t = CqCas c v l" "head_of (call_end c) (cq_q s) = v" "mode_of (call_end c) (cq_q s) = Default"
| cq_cas_rts: "cq_thread solo t s (cq_take t c v l (s\<lparr>cq_q := set_head (call_end c) (rts_head v l) (cq_q s)\<rparr>))"
    if "cq_pc s t = CqCas c v l" "head_of (call_end c) (cq_q s) = v" "mode_of (call_end c) (cq_q s) = Rts"
| cq_cas_fail: "cq_thread solo t s (cq_goto t (CqTest c (head_of (call_end c) (cq_q s))) s)"
    if "cq_pc s t = CqCas c v l"
| cq_solo_refuse: "cq_thread solo t s (cq_return t (Refused c) s)"
    if "cq_pc s t = CqIdle" "mode_of (call_end c) (cq_q s) = Single" "t = solo (call_end c)"
       "c \<notin> range PopBulk" "call_room c (tail_of (call_end c) (cq_q s)) (cq_q s) = 0"
| cq_solo_take: "cq_thread solo t s
      (cq_take t c (tail_of (call_end c) (cq_q s)) (call_room c (tail_of (call_end c) (cq_q s)) (cq_q s)) s)"
    if "cq_pc s t = CqIdle" "mode_of (call_end c) (cq_q s) = Single" "t = solo (call_end c)"
       "c \<notin> range PopBulk" "call_room c (tail_of (call_end c) (cq_q s)) (cq_q s) \<noteq> 0"
| cq_work: "cq_thread solo t s (cq_goto t (CqWork (c\<lparr>ck_done := ck_done c @ [x]\<rparr>)) (s\<lparr>cq_q := q\<rparr>))"
    if "cq_pc s t = CqWork c" "length (ck_done c) < unat (ck_len c)" "work_on c (cq_q s) = Ret (x, q)"
| cq_work_ub: "cq_thread solo t s (s\<lparr>cq_ub := True\<rparr>)"
    if "cq_pc s t = CqWork c" "length (ck_done c) < unat (ck_len c)" "\<not> returns (work_on c (cq_q s))"
| cq_done: "cq_thread solo t s (cq_goto t (after_work (mode_of (call_end (ck_call c)) (cq_q s)) c) s)"
    if "cq_pc s t = CqWork c" "length (ck_done c) = unat (ck_len c)"
| cq_wait: "cq_thread solo t s s"
    if "cq_pc s t = CqWait c" "pos (tail_of (call_end (ck_call c)) (cq_q s)) \<noteq> ck_pos c"
| cq_turn: "cq_thread solo t s (cq_goto t (CqTurn c) s)"
    if "cq_pc s t = CqWait c" "pos (tail_of (call_end (ck_call c)) (cq_q s)) = ck_pos c"
| cq_load: "cq_thread solo t s (cq_goto t (CqAdd c (pos (tail_of (call_end (ck_call c)) (cq_q s)))) s)"
    if "cq_pc s t = CqTurn c"
| cq_store: "cq_thread solo t s (cq_return t (Served c)
      (s\<lparr>cq_q := set_tail (call_end (ck_call c)) ((tail_of (call_end (ck_call c)) (cq_q s))\<lparr>pos := w + ck_len c\<rparr>) (cq_q s)\<rparr>))"
    if "cq_pc s t = CqAdd c w"
| cq_rts_load: "cq_thread solo t s (cq_goto t (CqHead c (tail_of (call_end (ck_call c)) (cq_q s))) s)"
    if "cq_pc s t = CqTail c"
| cq_rts_head: "cq_thread solo t s (cq_goto t (CqSet c v (head_of (call_end (ck_call c)) (cq_q s))) s)"
    if "cq_pc s t = CqHead c v"
| cq_rts_set: "cq_thread solo t s (cq_return t (Served c)
      (s\<lparr>cq_q := set_tail (call_end (ck_call c)) (rts_next h v) (cq_q s)\<rparr>))"
    if "cq_pc s t = CqSet c v h" "tail_of (call_end (ck_call c)) (cq_q s) = v"
| cq_rts_fail: "cq_thread solo t s (cq_goto t (CqHead c (tail_of (call_end (ck_call c)) (cq_q s))) s)"
    if "cq_pc s t = CqSet c v h"

definition cq_step :: "(cq_end \<Rightarrow> nat) \<Rightarrow> nat \<Rightarrow> 'a cq_state \<Rightarrow> 'a cq_state \<Rightarrow> bool" where
  "cq_step solo N s s' \<longleftrightarrow> (\<exists>t<N. cq_thread solo t s s')"

end
