(* ===== verification/ConQueue_Conc_Inv.thy ===== *)
theory ConQueue_Conc_Inv
  imports ConQueue_Conc
begin

text \<open>
  The invariant of \<open>ConQueue\<close> under concurrency, in terms of a few views of the state: how far each
  end has been claimed and published, the claims in progress, and the positions whose cell holds
  an object. Positions are natural numbers: the invariant is kept as long as fewer than
  \<open>2 ^ 32\<close> elements have been pushed in all.
\<close>

section \<open>Accessors\<close>

lemma ends_simps [simp]:
  "head_of e (set_head e' v q) = (if e = e' then v else head_of e q)"
  "tail_of e (set_head e' v q) = tail_of e q"
  "head_of e (set_tail e' v q) = head_of e q"
  "tail_of e (set_tail e' v q) = (if e = e' then v else tail_of e q)"
  "ring (set_head e' v q) = ring q" "ring (set_tail e' v q) = ring q"
  "conq_cfg (set_head e' v q) = conq_cfg q" "conq_cfg (set_tail e' v q) = conq_cfg q"
  "head_of e (q\<lparr>ring := r\<rparr>) = head_of e q" "tail_of e (q\<lparr>ring := r\<rparr>) = tail_of e q"
  "conq_cfg (q\<lparr>ring := r\<rparr>) = conq_cfg q"
  by (cases e; cases e'; simp add: conq_cfg_def)+

lemma mode_of_cfg: "conq_cfg q' = conq_cfg q \<Longrightarrow> mode_of e q' = mode_of e q"
  by (cases e) (simp_all add: conq_cfg_def)

lemma set_head_same_cfg [simp]: "mode_of e (set_head e' v q) = mode_of e q" "mode_of e (set_tail e' v q) = mode_of e q"
  "mode_of e (q\<lparr>ring := r\<rparr>) = mode_of e q"
  by (rule mode_of_cfg; simp)+

section \<open>Views of the state\<close>

fun claim_of :: "'a cq_pc \<Rightarrow> 'a cq_claim option" where
  "claim_of (CqWork c) = Some c"
| "claim_of (CqWait c) = Some c"
| "claim_of (CqTurn c) = Some c"
| "claim_of (CqAdd c w) = Some c"
| "claim_of (CqTail c) = Some c"
| "claim_of (CqHead c v) = Some c"
| "claim_of (CqSet c v h) = Some c"
| "claim_of _ = None"

definition ck_end :: "'a cq_claim \<Rightarrow> cq_end" where "ck_end c = call_end (ck_call c)"
definition ck_start :: "'a cq_claim \<Rightarrow> nat" where "ck_start c = unat (ck_pos c)"
definition ck_stop :: "'a cq_claim \<Rightarrow> nat" where "ck_stop c = unat (ck_pos c) + unat (ck_len c)"
definition ck_front :: "'a cq_claim \<Rightarrow> nat" where "ck_front c = unat (ck_pos c) + length (ck_done c)"

definition claimed :: "'a cq_state \<Rightarrow> cq_end \<Rightarrow> nat" where
  "claimed s e = sum_list (cq_lens s e)"

definition tail_pos :: "'a cq_state \<Rightarrow> cq_end \<Rightarrow> nat" where
  "tail_pos s e = unat (pos (tail_of e (cq_q s)))"

definition tail_cnt :: "'a cq_state \<Rightarrow> cq_end \<Rightarrow> nat" where
  "tail_cnt s e = unat (cnt (tail_of e (cq_q s)))"

definition cq_cap :: "'a cq_state \<Rightarrow> nat" where
  "cq_cap s = unat (max_size (cq_q s))"

text \<open>How far the end may be claimed: the producers up to \<open>capacity\<close> beyond the consumers' tail,
  the consumers up to the producers' tail.\<close>

fun limit :: "'a cq_state \<Rightarrow> cq_end \<Rightarrow> nat" where
  "limit s ProdEnd = tail_pos s ConsEnd + cq_cap s"
| "limit s ConsEnd = tail_pos s ProdEnd"

definition cq_mode_at :: "'a cq_state \<Rightarrow> cq_end \<Rightarrow> cq_mode" where
  "cq_mode_at s e = mode_of e (cq_q s)"

definition at_claim :: "cq_end \<Rightarrow> 'a cq_pc \<Rightarrow> bool" where
  "at_claim e p \<longleftrightarrow> (\<exists>c. claim_of p = Some c \<and> ck_end c = e)"

definition under_way :: "nat \<Rightarrow> 'a cq_state \<Rightarrow> cq_end \<Rightarrow> nat" where
  "under_way N s e = threads_in N (at_claim e) (cq_pc s)"

text \<open>The claimed positions whose access is still to come, and those whose cell holds an object.\<close>

definition undone_of :: "cq_end \<Rightarrow> 'a cq_claim option \<Rightarrow> nat set" where
  "undone_of e oc = (case oc of None \<Rightarrow> {} | Some c \<Rightarrow> if ck_end c = e then {ck_front c..<ck_stop c} else {})"

definition undone :: "'a cq_state \<Rightarrow> cq_end \<Rightarrow> nat set" where
  "undone s e = (\<Union>t. undone_of e (claim_of (cq_pc s t)))"

definition ready :: "'a cq_state \<Rightarrow> cq_end \<Rightarrow> nat set" where
  "ready s e = {..<claimed s e} - undone s e"

definition live :: "'a cq_state \<Rightarrow> nat set" where
  "live s = ready s ProdEnd - ready s ConsEnd"

definition cq_cell :: "'a cq_state \<Rightarrow> nat \<Rightarrow> nat" where
  "cq_cell s n = conq_slot (cq_q s) (of_nat n)"

section \<open>The invariant\<close>

definition cq_layout :: "'a conqueue \<Rightarrow> bool" where
  "cq_layout q \<longleftrightarrow> conq_wf q \<and>
     (\<forall>n m. n < m \<and> m < 2 ^ 32 \<and> m < n + unat (max_size q) \<longrightarrow> conq_slot q (of_nat n) \<noteq> conq_slot q (of_nat m))"

definition ends_ok :: "'a cq_state \<Rightarrow> cq_end \<Rightarrow> bool" where
  "ends_ok s e \<longleftrightarrow> tail_pos s e \<le> claimed s e \<and> claimed s e \<le> limit s e \<and> length (cq_lens s e) \<le> claimed s e \<and>
     (cq_mode_at s e \<noteq> Single \<longrightarrow> unat (pos (head_of e (cq_q s))) = claimed s e)"

definition claim_ok :: "'a cq_state \<Rightarrow> 'a cq_claim \<Rightarrow> bool" where
  "claim_ok s c \<longleftrightarrow> tail_pos s (ck_end c) \<le> ck_start c \<and> ck_stop c \<le> claimed s (ck_end c) \<and> ck_start c < ck_stop c \<and>
     ck_front c \<le> ck_stop c \<and> ck_done c = take (length (ck_done c)) (drop (ck_start c) (cq_in s)) \<and>
     (ck_end c = ProdEnd \<longrightarrow> take (unat (ck_len c)) (call_xs (ck_call c)) = take (unat (ck_len c)) (drop (ck_start c) (cq_in s)))"

definition apart :: "'a cq_claim \<Rightarrow> 'a cq_claim \<Rightarrow> bool" where
  "apart c d \<longleftrightarrow> ck_end c = ck_end d \<longrightarrow> ck_stop c \<le> ck_start d \<or> ck_stop d \<le> ck_start c"

definition claims_apart :: "'a cq_state \<Rightarrow> bool" where
  "claims_apart s \<longleftrightarrow> (\<forall>t u c d. t \<noteq> u \<longrightarrow> claim_of (cq_pc s t) = Some c \<longrightarrow> claim_of (cq_pc s u) = Some d \<longrightarrow> apart c d)"

text \<open>Every claimed but unpublished position belongs to a claim in progress (not in relaxed mode).\<close>

definition covered :: "'a cq_state \<Rightarrow> cq_end \<Rightarrow> bool" where
  "covered s e \<longleftrightarrow> (\<forall>n. tail_pos s e \<le> n \<longrightarrow> n < claimed s e \<longrightarrow>
     (\<exists>t c. claim_of (cq_pc s t) = Some c \<and> ck_end c = e \<and> ck_start c \<le> n \<and> n < ck_stop c))"

definition solo_ok :: "(cq_end \<Rightarrow> nat) \<Rightarrow> 'a cq_state \<Rightarrow> bool" where
  "solo_ok solo s \<longleftrightarrow> (\<forall>t c. claim_of (cq_pc s t) = Some c \<longrightarrow> cq_mode_at s (ck_end c) = Single \<longrightarrow> t = solo (ck_end c))"

text \<open>Relaxed mode: the \<open>cnt\<close> halves count the claims made and the claims finished.\<close>

definition rts_ok :: "nat \<Rightarrow> 'a cq_state \<Rightarrow> cq_end \<Rightarrow> bool" where
  "rts_ok N s e \<longleftrightarrow> unat (cnt (head_of e (cq_q s))) = length (cq_lens s e) \<and>
     tail_cnt s e + under_way N s e = length (cq_lens s e) \<and>
     (tail_cnt s e = length (cq_lens s e) \<longrightarrow> tail_pos s e = claimed s e)"

text \<open>What a thread knows at its control point.\<close>

definition full_claim :: "'a cq_claim \<Rightarrow> bool" where
  "full_claim c \<longleftrightarrow> length (ck_done c) = unat (ck_len c)"

fun pc_ok :: "'a cq_state \<Rightarrow> nat \<Rightarrow> 'a cq_pc \<Rightarrow> bool" where
  "pc_ok s t CqIdle \<longleftrightarrow> True"
| "pc_ok s t (CqTest c v) \<longleftrightarrow> cq_mode_at s (call_end c) \<noteq> Single \<and> unat (pos v) \<le> claimed s (call_end c)"
| "pc_ok s t (CqCas c v l) \<longleftrightarrow> cq_mode_at s (call_end c) \<noteq> Single \<and> unat (pos v) \<le> claimed s (call_end c) \<and>
     0 < unat l \<and> (unat (pos v) = claimed s (call_end c) \<longrightarrow> claimed s (call_end c) + unat l \<le> limit s (call_end c)) \<and>
     unat l \<le> call_count c"
| "pc_ok s t (CqWork c) \<longleftrightarrow> True"
| "pc_ok s t (CqWait c) \<longleftrightarrow> cq_mode_at s (ck_end c) = Default \<and> full_claim c"
| "pc_ok s t (CqTurn c) \<longleftrightarrow> cq_mode_at s (ck_end c) \<noteq> Rts \<and> full_claim c \<and> ck_start c = tail_pos s (ck_end c)"
| "pc_ok s t (CqAdd c w) \<longleftrightarrow> cq_mode_at s (ck_end c) \<noteq> Rts \<and> full_claim c \<and> ck_start c = tail_pos s (ck_end c) \<and>
     unat w = tail_pos s (ck_end c)"
| "pc_ok s t (CqTail c) \<longleftrightarrow> cq_mode_at s (ck_end c) = Rts \<and> full_claim c"
| "pc_ok s t (CqHead c v) \<longleftrightarrow> cq_mode_at s (ck_end c) = Rts \<and> full_claim c \<and> unat (cnt v) \<le> tail_cnt s (ck_end c)"
| "pc_ok s t (CqSet c v h) \<longleftrightarrow> cq_mode_at s (ck_end c) = Rts \<and> full_claim c \<and> unat (cnt v) \<le> tail_cnt s (ck_end c) \<and>
     unat (cnt h) \<le> length (cq_lens s (ck_end c)) \<and> unat (pos h) \<le> claimed s (ck_end c) \<and>
     (unat (cnt v) = tail_cnt s (ck_end c) \<longrightarrow> unat (cnt v) < unat (cnt h) \<and> ck_stop c \<le> unat (pos h) \<and>
        (unat (cnt h) = length (cq_lens s (ck_end c)) \<longrightarrow> unat (pos h) = claimed s (ck_end c)) \<and>
        (unat (cnt h) = Suc (unat (cnt v)) \<longrightarrow>
           (\<forall>u d. u \<noteq> t \<longrightarrow> claim_of (cq_pc s u) = Some d \<longrightarrow> ck_end d = ck_end c \<longrightarrow> unat (pos h) \<le> ck_start d)))"

definition cells_ok :: "'a cq_state \<Rightarrow> bool" where
  "cells_ok s \<longleftrightarrow> (\<forall>n\<in>live s. ring (cq_q s) (cq_cell s n) = Some (cq_in s ! n)) \<and>
     (\<forall>k. ring (cq_q s) k \<noteq> None \<longrightarrow> (\<exists>n\<in>live s. cq_cell s n = k))"

text \<open>What the completed calls have returned, and that every taken element is accounted for.\<close>

fun ret_ok :: "'a cq_state \<Rightarrow> 'a cq_ret \<Rightarrow> bool" where
  "ret_ok s (Refused c) \<longleftrightarrow> True"
| "ret_ok s (Served c) \<longleftrightarrow> full_claim c \<and> 0 < unat (ck_len c) \<and> ck_stop c \<le> claimed s (ck_end c) \<and>
     ck_done c = take (unat (ck_len c)) (drop (ck_start c) (cq_in s)) \<and>
     (ck_end c = ProdEnd \<longrightarrow> ck_done c = take (unat (ck_len c)) (call_xs (ck_call c)))"

definition cq_inv :: "(cq_end \<Rightarrow> nat) \<Rightarrow> nat \<Rightarrow> 'a cq_state \<Rightarrow> bool" where
  "cq_inv solo N s \<longleftrightarrow> cq_layout (cq_q s) \<and> length (cq_in s) = claimed s ProdEnd \<and> (\<forall>e. ends_ok s e) \<and>
     (\<forall>t c. claim_of (cq_pc s t) = Some c \<longrightarrow> claim_ok s c) \<and> claims_apart s \<and> solo_ok solo s \<and>
     (\<forall>e. cq_mode_at s e \<noteq> Rts \<longrightarrow> covered s e) \<and> (\<forall>e. cq_mode_at s e = Rts \<longrightarrow> rts_ok N s e) \<and>
     (\<forall>t. pc_ok s t (cq_pc s t)) \<and> cells_ok s \<and> (\<forall>t\<ge>N. cq_pc s t = CqIdle) \<and>
     (\<forall>r\<in>set (cq_log s). ret_ok s (snd r)) \<and> \<not> cq_ub s"

lemma cq_invI:
  assumes "cq_layout (cq_q s)" "length (cq_in s) = claimed s ProdEnd" "\<And>e. ends_ok s e"
    "\<And>t c. claim_of (cq_pc s t) = Some c \<Longrightarrow> claim_ok s c" "claims_apart s" "solo_ok solo s"
    "\<And>e. cq_mode_at s e \<noteq> Rts \<Longrightarrow> covered s e" "\<And>e. cq_mode_at s e = Rts \<Longrightarrow> rts_ok N s e"
    "\<And>t. pc_ok s t (cq_pc s t)" "cells_ok s" "\<And>t. N \<le> t \<Longrightarrow> cq_pc s t = CqIdle"
    "\<And>r. r \<in> set (cq_log s) \<Longrightarrow> ret_ok s (snd r)" "\<not> cq_ub s"
  shows "cq_inv solo N s"
  unfolding cq_inv_def using assms by blast

lemma cq_invD:
  assumes "cq_inv solo N s"
  shows "cq_layout (cq_q s)" "length (cq_in s) = claimed s ProdEnd" "ends_ok s e"
    "claim_of (cq_pc s t) = Some c \<Longrightarrow> claim_ok s c" "claims_apart s" "solo_ok solo s"
    "cq_mode_at s e \<noteq> Rts \<Longrightarrow> covered s e" "cq_mode_at s e = Rts \<Longrightarrow> rts_ok N s e"
    "pc_ok s t (cq_pc s t)" "cells_ok s" "N \<le> t \<Longrightarrow> cq_pc s t = CqIdle"
    "r \<in> set (cq_log s) \<Longrightarrow> ret_ok s (snd r)" "\<not> cq_ub s"
  using assms unfolding cq_inv_def by blast+

section \<open>Steps that move one thread only\<close>

lemma views_frame [simp]:
  "claimed (s\<lparr>cq_pc := p\<rparr>) e = claimed s e" "claimed (s\<lparr>cq_log := lg\<rparr>) e = claimed s e" "claimed (s\<lparr>cq_q := q\<rparr>) e = claimed s e"
  "tail_pos (s\<lparr>cq_pc := p\<rparr>) e = tail_pos s e" "tail_pos (s\<lparr>cq_log := lg\<rparr>) e = tail_pos s e"
  "tail_cnt (s\<lparr>cq_pc := p\<rparr>) e = tail_cnt s e" "tail_cnt (s\<lparr>cq_log := lg\<rparr>) e = tail_cnt s e"
  "cq_cap (s\<lparr>cq_pc := p\<rparr>) = cq_cap s" "cq_cap (s\<lparr>cq_log := lg\<rparr>) = cq_cap s"
  "cq_mode_at (s\<lparr>cq_pc := p\<rparr>) e = cq_mode_at s e" "cq_mode_at (s\<lparr>cq_log := lg\<rparr>) e = cq_mode_at s e"
  "cq_cell (s\<lparr>cq_pc := p\<rparr>) n = cq_cell s n" "cq_cell (s\<lparr>cq_log := lg\<rparr>) n = cq_cell s n"
  by (simp_all add: claimed_def tail_pos_def tail_cnt_def cq_cap_def cq_mode_at_def cq_cell_def)

lemma limit_frame [simp]: "limit (s\<lparr>cq_pc := p\<rparr>) e = limit s e" "limit (s\<lparr>cq_log := lg\<rparr>) e = limit s e"
  by (cases e; simp)+

lemma ends_frame [simp]:
  "ends_ok (s\<lparr>cq_pc := p\<rparr>) e = ends_ok s e" "ends_ok (s\<lparr>cq_log := lg\<rparr>) e = ends_ok s e"
  "claim_ok (s\<lparr>cq_pc := p\<rparr>) c = claim_ok s c" "claim_ok (s\<lparr>cq_log := lg\<rparr>) c = claim_ok s c"
  "ret_ok (s\<lparr>cq_pc := p\<rparr>) r = ret_ok s r" "ret_ok (s\<lparr>cq_log := lg\<rparr>) r = ret_ok s r"
  by (cases r; simp add: ends_ok_def claim_ok_def)+

text \<open>The remaining parts of the invariant depend on the control points through the claims only.\<close>

lemma pc_ok_cong:
  assumes "\<And>e. cq_mode_at s' e = cq_mode_at s e" "\<And>e. claimed s' e = claimed s e" "\<And>e. tail_pos s' e = tail_pos s e"
    "\<And>e. tail_cnt s' e = tail_cnt s e" "\<And>e. limit s' e = limit s e" "cq_lens s' = cq_lens s"
    "\<And>u. u \<noteq> t \<Longrightarrow> claim_of (cq_pc s' u) = claim_of (cq_pc s u)"
  shows "pc_ok s' t p = pc_ok s t p"
  using assms by (cases p) (simp_all cong: conj_cong)

lemma cq_inv_pc:
  assumes inv: "cq_inv solo N s" and t: "t < N" and p: "claim_of p = claim_of (cq_pc s t)" "pc_ok s t p"
    and lg: "\<forall>r\<in>set lg. ret_ok s (snd r)"
  shows "cq_inv solo N (s\<lparr>cq_pc := (cq_pc s)(t := p), cq_log := lg\<rparr>)"
proof -
  let ?s = "s\<lparr>cq_pc := (cq_pc s)(t := p), cq_log := lg\<rparr>"
  note I = cq_invD [OF inv]
  have cl: "claim_of (cq_pc ?s u) = claim_of (cq_pc s u)" for u using p(1) by simp
  have at: "at_claim e p = at_claim e (cq_pc s t)" for e using p(1) by (simp add: at_claim_def)
  have ok: "pc_ok ?s u c = pc_ok s u c" for u c using cl by (intro pc_ok_cong) simp_all
  have uw: "under_way N ?s e = under_way N s e" for e
    using threads_in_upd [OF t, of "at_claim e" "cq_pc s" p] at by (simp add: under_way_def)
  have lv: "live ?s = live s" unfolding live_def ready_def undone_def cl by simp
  show ?thesis
  proof (rule cq_invI)
    show "claims_apart ?s" using I(5) unfolding claims_apart_def cl .
    show "solo_ok solo ?s" using I(6) unfolding solo_ok_def cl by simp
    show "pc_ok ?s u (cq_pc ?s u)" for u unfolding ok using I(9) p(2) by simp
    show "cells_ok ?s" using I(10) unfolding cells_ok_def lv by simp
    show "covered ?s e" if "cq_mode_at ?s e \<noteq> Rts" for e
      using that I(7) [of e] unfolding covered_def cl by simp
    show "rts_ok N ?s e" if "cq_mode_at ?s e = Rts" for e
      using that I(8) [of e] unfolding rts_ok_def uw by simp
    show "claim_ok ?s c" if "claim_of (cq_pc ?s u) = Some c" for u c
      using that I(4) [of u c] unfolding cl by simp
  qed (use I(1,2,3,11,13) t lg in auto)
qed

lemma cq_inv_goto:
  assumes "cq_inv solo N s" "t < N" "claim_of p = claim_of (cq_pc s t)" "pc_ok s t p"
  shows "cq_inv solo N (cq_goto t p s)"
  using cq_inv_pc [OF assms, of "cq_log s"] cq_invD(12) [OF assms(1)] by simp

lemma cq_inv_refuse:
  assumes "cq_inv solo N s" "t < N" "claim_of (cq_pc s t) = None"
  shows "cq_inv solo N (cq_return t (Refused c) s)"
  using cq_inv_pc [OF assms(1,2), of CqIdle "cq_log s @ [(t, Refused c)]"] cq_invD(12) [OF assms(1)] assms(3)
  by (auto simp: cq_return_def)

section \<open>Room\<close>

lemma room_word:
  assumes "unat (h :: u32) \<le> unat t + unat cap" "unat t \<le> unat h"
  shows "unat (cap - h + t) = unat t + unat cap - unat h"
proof -
  have "unat (h - t) = unat h - unat t" using assms(2) by (simp add: unat_sub word_le_nat_alt)
  moreover have "h - t \<le> cap" unfolding word_le_nat_alt using assms calculation by linarith
  then have "unat (cap - (h - t)) = unat cap - unat (h - t)" by (simp add: unat_sub word_le_nat_alt)
  moreover have e: "cap - h + t = cap - (h - t)" by simp
  ultimately show ?thesis unfolding e using assms by linarith
qed

lemma unat_min: "unat (min a b) = min (unat a) (unat (b :: u32))"
  by (simp add: min_def word_le_nat_alt)

lemma call_room_ok:
  assumes inv: "cq_inv solo N s" and v: "unat (pos v) = claimed s (call_end c)"
    and nz: "call_room c v (cq_q s) \<noteq> 0"
  shows "claimed s (call_end c) + unat (call_room c v (cq_q s)) \<le> limit s (call_end c)"
proof (cases c)
  case (Emplace x)
  have le: "unat (pos v) \<le> tail_pos s ConsEnd + cq_cap s" "tail_pos s ConsEnd \<le> unat (pos v)"
    using cq_invD(3) [OF inv, of ProdEnd] cq_invD(3) [OF inv, of ConsEnd] v Emplace by (auto simp: ends_ok_def)
  have "unat (pos v - pos (cons_tail (cq_q s))) = unat (pos v) - tail_pos s ConsEnd"
    using le by (simp add: unat_sub word_le_nat_alt tail_pos_def)
  moreover have "unat (pos v - pos (cons_tail (cq_q s))) \<noteq> cq_cap s"
    using nz Emplace by (auto simp: conq_capacity_def cq_cap_def word_unat_eq_iff split: if_splits)
  ultimately show ?thesis using le v Emplace nz by (auto split: if_splits)
next
  case (PushBulk xs)
  have le: "unat (pos v) \<le> tail_pos s ConsEnd + cq_cap s" "tail_pos s ConsEnd \<le> unat (pos v)"
    using cq_invD(3) [OF inv, of ProdEnd] cq_invD(3) [OF inv, of ConsEnd] v PushBulk by (auto simp: ends_ok_def)
  then have "unat (conq_capacity (cq_q s) - pos v + pos (cons_tail (cq_q s))) = tail_pos s ConsEnd + cq_cap s - unat (pos v)"
    by (simp add: room_word tail_pos_def cq_cap_def conq_capacity_def)
  then show ?thesis using le v PushBulk by (simp add: unat_min)
next
  case Pop
  have "unat (pos v) \<le> tail_pos s ProdEnd" using cq_invD(3) [OF inv, of ConsEnd] v Pop by (simp add: ends_ok_def)
  moreover have "unat (pos v) \<noteq> tail_pos s ProdEnd" using nz Pop by (auto simp: tail_pos_def word_unat_eq_iff split: if_splits)
  ultimately show ?thesis using v Pop nz by (simp split: if_splits)
next
  case (PopBulk n)
  have le: "unat (pos v) \<le> tail_pos s ProdEnd" using cq_invD(3) [OF inv, of ConsEnd] v PopBulk by (simp add: ends_ok_def)
  then have "unat (pos (prod_tail (cq_q s)) - pos v) = tail_pos s ProdEnd - unat (pos v)"
    by (simp add: unat_sub word_le_nat_alt tail_pos_def)
  with le show ?thesis using v PopBulk by (simp add: unat_min)
qed

lemma room_count: "unat (call_room c v q) \<le> call_count c"
  by (cases c) (auto simp: unat_min unat_of_nat intro: min.coboundedI1 min.coboundedI2)

lemma call_count_xs: "call_end c = ProdEnd \<Longrightarrow> call_count c = length (call_xs c)"
  by (cases c) simp_all

end
