(* ===== verification/ConQueue_Conc_Claim.thy ===== *)
theory ConQueue_Conc_Claim
  imports ConQueue_Conc_Inv
begin

text \<open>
  A successful compare-exchange of a head (or the claim of a single producer or consumer) keeps the
  invariant of \<open>ConQueue\<close>.
\<close>

section \<open>A claim\<close>

lemma claim_in:
  assumes "cq_inv solo N s" "ck_stop c \<le> claimed s (ck_end c)"
  shows "ck_stop c \<le> length (cq_in s)"
proof (cases "ck_end c")
  case ProdEnd
  then show ?thesis using assms cq_invD(2) [OF assms(1)] by simp
next
  case ConsEnd
  have "claimed s ConsEnd \<le> claimed s ProdEnd"
    using cq_invD(3) [OF assms(1), of ConsEnd] cq_invD(3) [OF assms(1), of ProdEnd] by (simp add: ends_ok_def)
  then show ?thesis using ConsEnd assms cq_invD(2) [OF assms(1)] by simp
qed

lemma take_drop_append: "a + n \<le> length xs \<Longrightarrow> take n (drop a (xs @ ys)) = take n (drop a xs)"
  by simp

lemma undone_split: "undone s e = undone_of e (claim_of (cq_pc s t)) \<union> (\<Union>u\<in>-{t}. undone_of e (claim_of (cq_pc s u)))"
  unfolding undone_def by auto

lemma undone_upd:
  assumes "\<And>u. u \<noteq> t \<Longrightarrow> claim_of (cq_pc s' u) = claim_of (cq_pc s u)"
  shows "undone s' e = undone_of e (claim_of (cq_pc s' t)) \<union> (\<Union>u\<in>-{t}. undone_of e (claim_of (cq_pc s u)))"
  unfolding undone_split [of s' e t] using assms by auto

lemma ready_grow: "{..<k + l} - ({k..<k + l} \<union> A) = {..<k} - (A :: nat set)"
  by auto

lemma apart_sym: "apart c d \<Longrightarrow> apart d c"
  by (auto simp: apart_def)

lemma claims_apartD:
  "claims_apart s \<Longrightarrow> t \<noteq> u \<Longrightarrow> claim_of (cq_pc s t) = Some c \<Longrightarrow> claim_of (cq_pc s u) = Some d \<Longrightarrow> apart c d"
  unfolding claims_apart_def by metis

lemma claims_apart_upd:
  assumes "claims_apart s" "\<And>u. u \<noteq> t \<Longrightarrow> claim_of (cq_pc s' u) = claim_of (cq_pc s u)"
    "\<And>u c d. u \<noteq> t \<Longrightarrow> claim_of (cq_pc s' t) = Some c \<Longrightarrow> claim_of (cq_pc s u) = Some d \<Longrightarrow> apart c d"
  shows "claims_apart s'"
  unfolding claims_apart_def
proof (intro allI impI)
  fix a b c d assume ab: "a \<noteq> b" "claim_of (cq_pc s' a) = Some c" "claim_of (cq_pc s' b) = Some d"
  consider "a = t" "b \<noteq> t" | "b = t" "a \<noteq> t" | "a \<noteq> t" "b \<noteq> t" using ab(1) by blast
  then show "apart c d"
  proof cases
    case 1
    then show ?thesis using assms(2) [of b] assms(3) [of b c d] ab by simp
  next
    case 2
    then show ?thesis using assms(2) [of a] assms(3) [of a d c] ab by (simp add: apart_sym)
  next
    case 3
    then show ?thesis using assms(1) assms(2) [of a] assms(2) [of b] ab unfolding claims_apart_def by metis
  qed
qed

lemma claim_ok_grow:
  assumes "claim_ok s c" "cq_inv solo N s" "cq_in s' = cq_in s @ xs"
    "claimed s (ck_end c) \<le> claimed s' (ck_end c)" "tail_pos s' (ck_end c) = tail_pos s (ck_end c)"
  shows "claim_ok s' c"
proof -
  have "ck_stop c \<le> length (cq_in s)" using assms(1,2) claim_in [of solo N s c] by (simp add: claim_ok_def)
  then have "take n (drop (ck_start c) (cq_in s')) = take n (drop (ck_start c) (cq_in s))" if "n \<le> unat (ck_len c)" for n
    unfolding assms(3) using that by (intro take_drop_append) (simp add: ck_start_def ck_stop_def)
  moreover have "length (ck_done c) \<le> unat (ck_len c)" using assms(1) by (simp add: claim_ok_def ck_front_def ck_stop_def)
  ultimately show ?thesis using assms(1,4,5) by (simp add: claim_ok_def)
qed

lemma ret_ok_grow:
  assumes "ret_ok s r" "cq_inv solo N s" "cq_in s' = cq_in s @ xs" "\<And>e. claimed s e \<le> claimed s' e"
  shows "ret_ok s' r"
proof (cases r)
  case (Served c)
  then have "ck_stop c \<le> length (cq_in s)" using assms(1,2) claim_in [of solo N s c] by simp
  then have "take (unat (ck_len c)) (drop (ck_start c) (cq_in s')) = take (unat (ck_len c)) (drop (ck_start c) (cq_in s))"
    unfolding assms(3) by (intro take_drop_append) (simp add: ck_start_def ck_stop_def)
  then show ?thesis using assms(1) assms(4) [of "ck_end c"] Served by (auto intro: order_trans)
qed simp

lemma ret_ok_cong: "cq_in s' = cq_in s \<Longrightarrow> (\<And>e. claimed s' e = claimed s e) \<Longrightarrow> ret_ok s' r = ret_ok s r"
  by (cases r) simp_all

lemma new_claim_simps [simp]:
  "ck_end (new_claim c v l) = call_end c" "ck_start (new_claim c v l) = unat (pos v)"
  "ck_stop (new_claim c v l) = unat (pos v) + unat l" "ck_front (new_claim c v l) = unat (pos v)"
  "ck_done (new_claim c v l) = []" "ck_len (new_claim c v l) = l" "ck_call (new_claim c v l) = c"
  by (simp_all add: new_claim_def ck_end_def ck_start_def ck_stop_def ck_front_def)

lemma pc_ok_take:
  assumes ok: "pc_ok s u p" and e: "e = call_end c" and u: "u \<noteq> t" and l: "0 < unat l" "unat (pos v) = claimed s e"
    and rts: "cq_mode_at s e = Rts \<Longrightarrow> rts_ok N s e"
    and s': "s' = cq_take t c v l (s\<lparr>cq_q := q\<rparr>)" and q: "\<And>e. tail_of e q = tail_of e (cq_q s)" "conq_cfg q = conq_cfg (cq_q s)"
  shows "pc_ok s' u p"
proof -
  have V: "claimed s' e' = claimed s e' + (if e' = e then unat l else 0)" "tail_pos s' e' = tail_pos s e'"
    "tail_cnt s' e' = tail_cnt s e'" "cq_mode_at s' e' = cq_mode_at s e'" for e'
    using q mode_of_cfg [OF q(2)] e
    by (simp_all add: s' cq_take_def claimed_def tail_pos_def tail_cnt_def cq_mode_at_def)
  have lim: "limit s' e' = limit s e'" for e'
    using V q(2) by (cases e') (simp_all add: cq_cap_def s' cq_take_def conq_cfg_def)
  have len: "cq_lens s' e' = cq_lens s e' @ (if e' = e then [unat l] else [])" for e'
    using e by (simp add: s' cq_take_def)
  have cl: "claim_of (cq_pc s' w) = (if w = t then Some (new_claim c v l) else claim_of (cq_pc s w))" for w
    by (simp add: s' cq_take_def)
  show ?thesis
  proof (cases p)
    case (CqCas c' v' l')
    then show ?thesis using ok V lim l by auto
  next
    case (CqSet c' v' h)
    have mono: "claimed s e' \<le> claimed s' e'" "length (cq_lens s e') \<le> length (cq_lens s' e')" for e'
      using V len by simp_all
    show ?thesis using ok CqSet mono [of "ck_end c'"] u l len e cl V by (auto split: if_splits)
  qed (use ok V in auto)
qed

lemma cq_layout_cfg: "conq_cfg q' = conq_cfg q \<Longrightarrow> cq_layout q' = cq_layout q"
  using conq_wf_cong [of q' q] conq_slot_cong [of q' q] by (simp add: cq_layout_def conq_cfg_def)

lemma undone_sub:
  assumes "cq_inv solo N s" "n \<in> undone s e"
  shows "tail_pos s e \<le> n" "n < claimed s e"
proof -
  obtain t c where c: "claim_of (cq_pc s t) = Some c" "ck_end c = e" "ck_front c \<le> n" "n < ck_stop c"
    using assms(2) by (auto simp: undone_def undone_of_def split: option.splits if_splits)
  have "ck_start c \<le> ck_front c" by (simp add: ck_start_def ck_front_def)
  then show "tail_pos s e \<le> n" "n < claimed s e"
    using cq_invD(4) [OF assms(1) c(1)] c(2-4) by (auto simp: claim_ok_def)
qed

lemma live_less: "n \<in> live s \<Longrightarrow> n < claimed s ProdEnd"
  by (simp add: live_def ready_def)

lemma cq_inv_take:
  assumes inv: "cq_inv solo N s" and t: "t < N" and idle: "claim_of (cq_pc s t) = None" and e: "e = call_end c"
    and l: "0 < unat l" "unat (pos v) = claimed s e" "claimed s e + unat l \<le> limit s e"
      "e = ProdEnd \<Longrightarrow> unat l \<le> length (call_xs c)"
    and q: "conq_cfg q = conq_cfg (cq_q s)" "ring q = ring (cq_q s)" "\<And>e. tail_of e q = tail_of e (cq_q s)"
      "\<And>e'. e' \<noteq> e \<Longrightarrow> head_of e' q = head_of e' (cq_q s)"
      "cq_mode_at s e \<noteq> Single \<Longrightarrow> unat (pos (head_of e q)) = claimed s e + unat l"
      "cq_mode_at s e = Rts \<Longrightarrow> unat (cnt (head_of e q)) = Suc (length (cq_lens s e))"
    and solo: "cq_mode_at s e = Single \<Longrightarrow> t = solo e"
  shows "cq_inv solo N (cq_take t c v l (s\<lparr>cq_q := q\<rparr>))"
proof -
  let ?s = "cq_take t c v l (s\<lparr>cq_q := q\<rparr>)"
  note I = cq_invD [OF inv]
  have V: "claimed ?s e' = claimed s e' + (if e' = e then unat l else 0)" "tail_pos ?s e' = tail_pos s e'"
    "tail_cnt ?s e' = tail_cnt s e'" "cq_mode_at ?s e' = cq_mode_at s e'" for e'
    using q(3) mode_of_cfg [OF q(1)] e
    by (simp_all add: cq_take_def claimed_def tail_pos_def tail_cnt_def cq_mode_at_def)
  have cap: "cq_cap ?s = cq_cap s" and Q: "cq_q ?s = q" and L: "cq_log ?s = cq_log s" and U: "cq_ub ?s = cq_ub s"
    using q(1) by (simp_all add: cq_cap_def cq_take_def conq_cfg_def)
  have lim: "limit ?s e' = limit s e'" for e' using V cap by (cases e') simp_all
  have len: "cq_lens ?s e' = cq_lens s e' @ (if e' = e then [unat l] else [])" for e'
    using e by (simp add: cq_take_def)
  have ins: "cq_in ?s = cq_in s @ take (unat l) (call_xs c)" by (simp add: cq_take_def)
  have pcs: "cq_pc ?s = (cq_pc s)(t := CqWork (new_claim c v l))" by (simp add: cq_take_def)
  have cl: "claim_of (cq_pc ?s u) = (if u = t then Some (new_claim c v l) else claim_of (cq_pc s u))" for u
    by (simp add: pcs)
  have "undone ?s e' = (if e' = e then {claimed s e..<claimed s e + unat l} else {}) \<union> undone s e'" for e'
    using undone_upd [of t ?s s e'] undone_split [of s e' t] l(2) idle e by (simp add: cl undone_of_def)
  then have "ready ?s e' = ready s e'" for e'
    unfolding ready_def V by (simp add: ready_grow)
  then have lv: "live ?s = live s" by (simp add: live_def)
  have xs: "call_end c = ConsEnd \<Longrightarrow> call_xs c = []" by (cases c) simp_all
  have lin: "length (cq_in ?s) = claimed ?s ProdEnd"
    using I(2) V(1) [of ProdEnd] l(4) xs e by (cases e) (auto simp: ins)
  have cell: "cq_cell ?s n = cq_cell s n" for n
    using conq_slot_cong [OF q(1)] Q by (simp add: cq_cell_def)
  show ?thesis
  proof (rule cq_invI)
    show "cq_layout (cq_q ?s)" using I(1) cq_layout_cfg [OF q(1)] Q by simp
    show "length (cq_in ?s) = claimed ?s ProdEnd" by (rule lin)
    show "ends_ok ?s e'" for e'
      using I(3) [of e'] l(3) q(4,5) V [of e'] lim len l(1) Q unfolding ends_ok_def by (cases "e' = e") auto
    show "claim_ok ?s d" if d: "claim_of (cq_pc ?s u) = Some d" for u d
    proof (cases "u = t")
      case True
      then have "d = new_claim c v l" using d cl by simp
      moreover have "tail_pos s e \<le> claimed s e" using I(3) [of e] by (simp add: ends_ok_def)
      ultimately show ?thesis
        using l V [of e] I(2) e by (auto simp: claim_ok_def ins)
    next
      case False
      then have "claim_ok s d" using d I(4) [of u d] cl [of u] by simp
      then show ?thesis by (rule claim_ok_grow [OF _ inv ins]) (simp_all add: V)
    qed
    show "claims_apart ?s"
    proof (rule claims_apart_upd [OF I(5), of t])
      show "apart c' d" if "u \<noteq> t" "claim_of (cq_pc ?s t) = Some c'" "claim_of (cq_pc s u) = Some d" for u c' d
      proof -
        have "c' = new_claim c v l" using that(2) cl [of t] by simp
        then show ?thesis using I(4) [OF that(3)] l(2) e by (auto simp: apart_def claim_ok_def)
      qed
    qed (simp add: cl)
    show "solo_ok solo ?s" using I(6) solo e unfolding solo_ok_def cl V by auto
    show "covered ?s e'" if "cq_mode_at ?s e' \<noteq> Rts" for e'
      unfolding covered_def
    proof (intro allI impI)
      fix n assume n: "tail_pos ?s e' \<le> n" "n < claimed ?s e'"
      have I7: "covered s e'" using that I(7) V by simp
      show "\<exists>u d. claim_of (cq_pc ?s u) = Some d \<and> ck_end d = e' \<and> ck_start d \<le> n \<and> n < ck_stop d"
      proof (cases "n < claimed s e'")
        case True
        then obtain u d where "claim_of (cq_pc s u) = Some d" "ck_end d = e'" "ck_start d \<le> n" "n < ck_stop d"
          using I7 n(1) unfolding covered_def V by blast
        then show ?thesis using cl [of u] idle by (intro exI [of _ u] exI [of _ d]) auto
      next
        case False
        then have "e' = e" using n(2) V by (simp split: if_splits)
        then show ?thesis using False n(2) V cl [of t] l(2) e by (intro exI [of _ t] exI [of _ "new_claim c v l"]) auto
      qed
    qed
    show "rts_ok N ?s e'" if "cq_mode_at ?s e' = Rts" for e'
    proof -
      have "under_way N ?s e' = under_way N s e' + of_bool (e' = e)"
        using threads_in_upd [OF t, of "at_claim e'" "cq_pc s" "CqWork (new_claim c v l)"] idle e
        by (simp add: under_way_def pcs at_claim_def eq_commute)
      then show ?thesis using I(8) [of e'] that V [of e'] q(4) [of e'] q(6) Q len [of e'] unfolding rts_ok_def by auto
    qed
    show "pc_ok ?s u (cq_pc ?s u)" for u
    proof (cases "u = t")
      case False
      then show ?thesis using pc_ok_take [OF I(9) e False l(1,2) I(8) refl q(3,1)] pcs False by simp
    qed (simp add: pcs)
    show "cells_ok ?s"
      unfolding cells_ok_def lv cell Q q(2)
    proof (intro conjI ballI)
      fix n assume n: "n \<in> live s"
      then have "cq_in ?s ! n = cq_in s ! n" using live_less [OF n] I(2) by (simp add: ins nth_append)
      then show "ring (cq_q s) (cq_cell s n) = Some (cq_in ?s ! n)" using I(10) n by (simp add: cells_ok_def)
    qed (use I(10) in \<open>simp add: cells_ok_def\<close>)
    show "cq_pc ?s u = CqIdle" if "N \<le> u" for u using that I(11) t by (simp add: pcs)
    show "ret_ok ?s (snd r)" if "r \<in> set (cq_log ?s)" for r
    proof -
      have "ret_ok s (snd r)" using I(12) [of r] that L by simp
      then show ?thesis by (rule ret_ok_grow [OF _ inv ins]) (simp add: V)
    qed
  qed (use I(13) U in simp)
qed

end
