(* ===== verification/ConQueue_Conc_Work.thy ===== *)
theory ConQueue_Conc_Work
  imports ConQueue_Conc_Claim
begin

text \<open>
  The accesses to the elements of a claim: they never touch memory outside the array, never construct
  over a live object and never move from a dead one, and they keep the invariant.
\<close>

section \<open>The access to the next element\<close>

lemma ends_chain:
  assumes "cq_inv solo N s"
  shows "tail_pos s ConsEnd \<le> claimed s ConsEnd" "claimed s ConsEnd \<le> tail_pos s ProdEnd"
    "tail_pos s ProdEnd \<le> claimed s ProdEnd" "claimed s ProdEnd \<le> tail_pos s ConsEnd + cq_cap s"
    "claimed s ProdEnd = length (cq_in s)"
  using cq_invD(2) [OF assms] cq_invD(3) [OF assms, of ProdEnd] cq_invD(3) [OF assms, of ConsEnd]
  by (simp_all add: ends_ok_def)

lemma cell_inj:
  assumes inv: "cq_inv solo N s" "length (cq_in s) < 2 ^ 32"
    and n: "tail_pos s ConsEnd \<le> n" "n < claimed s ProdEnd" and m: "tail_pos s ConsEnd \<le> m" "m < claimed s ProdEnd"
    and eq: "cq_cell s n = cq_cell s m"
  shows "n = m"
proof -
  have *: "\<not> i < j" if "tail_pos s ConsEnd \<le> i" "j < claimed s ProdEnd" "cq_cell s i = cq_cell s j" for i j
  proof
    assume "i < j"
    moreover have "j < i + unat (max_size (cq_q s))" "j < 2 ^ 32"
      using that(1,2) ends_chain [OF inv(1)] inv(2) by (simp_all add: cq_cap_def)
    ultimately show False using cq_invD(1) [OF inv(1)] that(3) unfolding cq_layout_def cq_cell_def by blast
  qed
  show ?thesis using * [OF n(1) m(2) eq] * [OF m(1) n(2) eq [symmetric]] by simp
qed

lemma live_window:
  assumes "cq_inv solo N s" "n \<in> live s"
  shows "tail_pos s ConsEnd \<le> n" "n < claimed s ProdEnd"
proof -
  show "n < claimed s ProdEnd" by (rule live_less [OF assms(2)])
  show "tail_pos s ConsEnd \<le> n"
    using assms(2) undone_sub(1) [OF assms(1), of n ConsEnd] ends_chain(1) [OF assms(1)]
    by (auto simp: live_def ready_def)
qed

lemma front_facts:
  assumes inv: "cq_inv solo N s" and c: "claim_of (cq_pc s t) = Some c" "length (ck_done c) < unat (ck_len c)"
  shows "ck_start c \<le> ck_front c" "ck_front c < ck_stop c" "tail_pos s ConsEnd \<le> ck_front c" "ck_front c < claimed s ProdEnd"
    "ck_front c \<in> undone s (ck_end c)"
proof -
  have ok: "claim_ok s c" by (rule cq_invD(4) [OF inv c(1)])
  show f: "ck_start c \<le> ck_front c" "ck_front c < ck_stop c"
    using c(2) by (simp_all add: ck_start_def ck_front_def ck_stop_def)
  show "tail_pos s ConsEnd \<le> ck_front c" "ck_front c < claimed s ProdEnd"
    using ok f ends_chain [OF inv] by (cases "ck_end c"; simp add: claim_ok_def)+
  show "ck_front c \<in> undone s (ck_end c)"
    using c(1) f unfolding undone_def undone_of_def by (auto intro!: exI [of _ t])
qed

lemma front_word: "ck_pos c + of_nat (length (ck_done c)) = of_nat (ck_front c)"
  by (simp add: ck_front_def)

lemma work_on_ok:
  assumes inv: "cq_inv solo N s" "length (cq_in s) < 2 ^ 32"
    and c: "claim_of (cq_pc s t) = Some c" "length (ck_done c) < unat (ck_len c)"
  shows "work_on c (cq_q s) = Ret (cq_in s ! ck_front c, (cq_q s)\<lparr>ring := (ring (cq_q s))
      (cq_cell s (ck_front c) := if ck_end c = ProdEnd then Some (cq_in s ! ck_front c) else None)\<rparr>)"
    "ck_end c = ProdEnd \<Longrightarrow> ring (cq_q s) (cq_cell s (ck_front c)) = None"
    "ck_end c = ConsEnd \<Longrightarrow> ck_front c \<in> live s"
proof -
  note I = cq_invD [OF inv(1)] and F = front_facts [OF inv(1) c]
  let ?n = "ck_front c"
  have wf: "conq_wf (cq_q s)" using I(1) by (simp add: cq_layout_def)
  have ok: "claim_ok s c" by (rule I(4) [OF c(1)])
  have len: "?n < length (cq_in s)" using F(4) I(2) by simp
  show none: "ring (cq_q s) (cq_cell s ?n) = None" if e: "ck_end c = ProdEnd"
  proof (rule ccontr)
    assume "ring (cq_q s) (cq_cell s ?n) \<noteq> None"
    then obtain m where m: "m \<in> live s" "cq_cell s m = cq_cell s ?n" using I(10) unfolding cells_ok_def by blast
    then have "m = ?n" using cell_inj [OF inv live_window [OF inv(1) m(1)] F(3,4)] by simp
    then show False using m(1) F(5) e by (simp add: live_def ready_def)
  qed
  show live: "?n \<in> live s" if e: "ck_end c = ConsEnd"
  proof -
    have "?n < tail_pos s ProdEnd" using ok F(2) e ends_chain(2) [OF inv(1)] by (simp add: claim_ok_def)
    then have "?n \<notin> undone s ProdEnd" using undone_sub(1) [OF inv(1), of ?n ProdEnd] by auto
    then show ?thesis using F(4,5) e by (simp add: live_def ready_def)
  qed
  show "work_on c (cq_q s) = Ret (cq_in s ! ?n, (cq_q s)\<lparr>ring := (ring (cq_q s))
      (cq_cell s ?n := if ck_end c = ProdEnd then Some (cq_in s ! ?n) else None)\<rparr>)"
  proof (cases "ck_end c")
    case ProdEnd
    have "call_xs (ck_call c) ! length (ck_done c) = take (unat (ck_len c)) (call_xs (ck_call c)) ! length (ck_done c)"
      using c(2) by simp
    also have "\<dots> = take (unat (ck_len c)) (drop (ck_start c) (cq_in s)) ! length (ck_done c)"
      using ok ProdEnd by (simp add: claim_ok_def)
    also have "\<dots> = cq_in s ! ?n"
      using c(2) len by (simp add: ck_front_def ck_start_def)
    finally show ?thesis
      using ProdEnd wf by (simp add: work_on_def front_word construct_at_eq cq_cell_def ck_end_def Let_def)
  next
    case ConsEnd
    then have "ring (cq_q s) (cq_cell s ?n) = Some (cq_in s ! ?n)"
      using live I(10) by (simp add: cells_ok_def)
    then show ?thesis
      using ConsEnd wf by (simp add: work_on_def front_word move_destroy_at_eq cq_cell_def ck_end_def)
  qed
qed

lemma done_simps [simp]:
  "ck_end (c\<lparr>ck_done := xs\<rparr>) = ck_end c" "ck_start (c\<lparr>ck_done := xs\<rparr>) = ck_start c" "ck_stop (c\<lparr>ck_done := xs\<rparr>) = ck_stop c"
  by (simp_all add: ck_end_def ck_start_def ck_stop_def)

lemma pc_ok_claims:
  assumes "pc_ok s u p" "u \<noteq> t" "\<And>e. cq_mode_at s' e = cq_mode_at s e" "\<And>e. claimed s' e = claimed s e" "\<And>e. tail_pos s' e = tail_pos s e"
    "\<And>e. tail_cnt s' e = tail_cnt s e" "\<And>e. limit s' e = limit s e" "cq_lens s' = cq_lens s"
    "\<And>w. w \<noteq> t \<Longrightarrow> claim_of (cq_pc s' w) = claim_of (cq_pc s w)"
    "\<And>c'. claim_of (cq_pc s' t) = Some c' \<Longrightarrow> \<exists>c. claim_of (cq_pc s t) = Some c \<and> ck_end c = ck_end c' \<and> ck_start c = ck_start c'"
  shows "pc_ok s' u p"
proof (cases p)
  case (CqSet c v h)
  have "(\<forall>w d. w \<noteq> u \<longrightarrow> claim_of (cq_pc s w) = Some d \<longrightarrow> ck_end d = ck_end c \<longrightarrow> unat (pos h) \<le> ck_start d) \<Longrightarrow>
    w \<noteq> u \<Longrightarrow> claim_of (cq_pc s' w) = Some d \<Longrightarrow> ck_end d = ck_end c \<Longrightarrow> unat (pos h) \<le> ck_start d" for w d
    using assms(9) [of w] assms(10) [of d] by (cases "w = t") (metis, metis)
  then show ?thesis using assms(1,3-8) CqSet by simp
qed (use assms in simp_all)

lemma cells_ok_upd:
  assumes inv: "cq_inv solo N s" "length (cq_in s) < 2 ^ 32" and p: "tail_pos s ConsEnd \<le> p" "p < claimed s ProdEnd"
    and lv: "live s' - {p} = live s - {p}" and cell: "\<And>n. cq_cell s' n = cq_cell s n" and ins: "cq_in s' = cq_in s"
    and r: "ring (cq_q s') = (ring (cq_q s))(cq_cell s p := if p \<in> live s' then Some (cq_in s ! p) else None)"
  shows "cells_ok s'"
proof -
  have C: "\<And>n. n \<in> live s \<Longrightarrow> ring (cq_q s) (cq_cell s n) = Some (cq_in s ! n)"
    "\<And>k. ring (cq_q s) k \<noteq> None \<Longrightarrow> \<exists>n\<in>live s. cq_cell s n = k"
    using cq_invD(10) [OF inv(1)] by (auto simp: cells_ok_def)
  have other: "cq_cell s n \<noteq> cq_cell s p" if "n \<in> live s" "n \<noteq> p" for n
    using cell_inj [OF inv live_window [OF inv(1) that(1)] p] that(2) by blast
  have mem: "n \<in> live s' \<longleftrightarrow> n \<in> live s" if "n \<noteq> p" for n using lv that by blast
  show ?thesis
    unfolding cells_ok_def cell ins
  proof (intro conjI ballI allI impI)
    fix n assume n: "n \<in> live s'"
    then show "ring (cq_q s') (cq_cell s n) = Some (cq_in s ! n)"
      using C(1) [of n] other [of n] mem [of n] by (cases "n = p") (simp_all add: r)
  next
    fix k assume k: "ring (cq_q s') k \<noteq> None"
    show "\<exists>n\<in>live s'. cq_cell s n = k"
    proof (cases "k = cq_cell s p")
      case True
      then show ?thesis using k by (intro bexI [of _ p]) (auto simp: r split: if_splits)
    next
      case False
      then obtain n where "n \<in> live s" "cq_cell s n = k" using k C(2) [of k] by (auto simp: r)
      moreover have "n \<noteq> p" using calculation False by blast
      ultimately show ?thesis using mem [of n] by blast
    qed
  qed
qed

lemma cq_inv_work:
  assumes inv: "cq_inv solo N s" "length (cq_in s) < 2 ^ 32" and t: "t < N" and pc: "cq_pc s t = CqWork c"
    and lt: "length (ck_done c) < unat (ck_len c)" and w: "work_on c (cq_q s) = Ret (x, q)"
  shows "cq_inv solo N (cq_goto t (CqWork (c\<lparr>ck_done := ck_done c @ [x]\<rparr>)) (s\<lparr>cq_q := q\<rparr>))"
proof -
  let ?c = "c\<lparr>ck_done := ck_done c @ [x]\<rparr>"
  define S where "S = cq_goto t (CqWork ?c) (s\<lparr>cq_q := q\<rparr>)"
  let ?n = "ck_front c"
  note I = cq_invD [OF inv(1)]
  have c: "claim_of (cq_pc s t) = Some c" using pc by simp
  note F = front_facts [OF inv(1) c lt] and W = work_on_ok [OF inv c lt]
  have ok: "claim_ok s c" by (rule I(4) [OF c])
  have x: "x = cq_in s ! ?n" and q: "q = (cq_q s)\<lparr>ring := (ring (cq_q s))
      (cq_cell s ?n := if ck_end c = ProdEnd then Some (cq_in s ! ?n) else None)\<rparr>"
    using W(1) w by simp_all
  have V: "claimed S e = claimed s e" "tail_pos S e = tail_pos s e" "tail_cnt S e = tail_cnt s e"
    "cq_mode_at S e = cq_mode_at s e" "cq_cap S = cq_cap s" "cq_cell S n = cq_cell s n" "cq_in S = cq_in s"
    "cq_lens S = cq_lens s" "head_of e (cq_q S) = head_of e (cq_q s)" for e n
    by (simp_all add: S_def q tail_pos_def tail_cnt_def cq_mode_at_def cq_cap_def cq_cell_def)
  have Q: "cq_q S = q" and P: "cq_pc S = (cq_pc s)(t := CqWork ?c)" and L: "cq_log S = cq_log s" "cq_ub S = cq_ub s"
    by (simp_all add: S_def)
  have lim: "limit S e = limit s e" for e using V by (cases e) simp_all
  have cl: "claim_of (cq_pc S u) = (if u = t then Some ?c else claim_of (cq_pc s u))" for u by (simp add: P)
  have fr: "ck_front ?c = Suc ?n" by (simp add: ck_front_def)
  have len: "?n < length (cq_in s)" using F(4) I(2) by simp
  have "ck_front d \<le> ?n \<longrightarrow> ?n < ck_stop d \<longrightarrow> u = t" if "claim_of (cq_pc s u) = Some d" "ck_end d = ck_end c" for u d
  proof (intro impI, rule ccontr)
    assume d: "ck_front d \<le> ?n" "?n < ck_stop d" "u \<noteq> t"
    then have "apart d c" using claims_apartD [OF I(5) _ that(1) c] by simp
    moreover have "ck_start d \<le> ck_front d" by (simp add: ck_start_def ck_front_def)
    ultimately show False using d(1,2) F(1,2) that(2) by (auto simp: apart_def)
  qed
  then have "?n \<notin> undone_of (ck_end c) (claim_of (cq_pc s u))" if "u \<noteq> t" for u
    using that by (auto simp: undone_of_def split: option.splits)
  moreover have "{?n..<ck_stop c} = insert ?n {Suc ?n..<ck_stop c}" using F(2) by auto
  ultimately have U: "undone S e = undone s e - (if e = ck_end c then {?n} else {})" for e
    using undone_upd [of t S s e] undone_split [of s e t] c by (auto simp: cl undone_of_def fr split: option.splits if_splits)
  have lv: "live S - {?n} = live s - {?n}" "?n \<in> live S \<longleftrightarrow> ck_end c = ProdEnd"
  proof -
    show "live S - {?n} = live s - {?n}" unfolding live_def ready_def U V by auto
    show "?n \<in> live S \<longleftrightarrow> ck_end c = ProdEnd"
    proof (cases "ck_end c")
      case ProdEnd
      then have "claimed s ConsEnd \<le> ?n" using ok F(1) ends_chain(2) [OF inv(1)] by (simp add: claim_ok_def)
      with ProdEnd show ?thesis using F(4) by (simp add: live_def ready_def U V)
    next
      case ConsEnd
      then have "?n < claimed s ConsEnd" using ok F(2) by (simp add: claim_ok_def)
      with ConsEnd show ?thesis by (simp add: live_def ready_def U V)
    qed
  qed
  have "cq_inv solo N S"
  proof (rule cq_invI)
    show "cq_layout (cq_q S)" using I(1) cq_layout_cfg [of q "cq_q s"] by (simp add: Q q)
    show "ends_ok S e" for e using I(3) [of e] unfolding ends_ok_def V lim .
    show "claim_ok S d" if d: "claim_of (cq_pc S u) = Some d" for u d
    proof (cases "u = t")
      case True
      have "length (ck_done c) < length (drop (ck_start c) (cq_in s))" using len by (simp add: ck_front_def ck_start_def)
      then have e: "ck_done c @ [x] = take (Suc (length (ck_done c))) (drop (ck_start c) (cq_in s))"
        using ok x by (simp add: take_Suc_conv_app_nth claim_ok_def ck_front_def ck_start_def)
      have k: "ck_done ?c = take (length (ck_done ?c)) (drop (ck_start ?c) (cq_in s))"
      proof -
        have d: "ck_done ?c = ck_done c @ [x]" "ck_start ?c = ck_start c" by simp_all
        show ?thesis unfolding d length_append_singleton by (rule e)
      qed
      have "claim_ok S ?c"
        unfolding claim_ok_def V by (intro conjI; (rule k)?) (use ok F(2) in \<open>simp_all add: claim_ok_def fr\<close>)
      then show ?thesis using True d cl by simp
    next
      case False
      then show ?thesis using d I(4) [of u d] cl [of u] V by (simp add: claim_ok_def)
    qed
    show "claims_apart S"
    proof (rule claims_apart_upd [OF I(5), of t])
      show "apart a d" if "u \<noteq> t" "claim_of (cq_pc S t) = Some a" "claim_of (cq_pc s u) = Some d" for u a d
      proof -
        have "apart c d" by (rule claims_apartD [OF I(5) not_sym [OF that(1)] c that(3)])
        moreover have "a = ?c" using that(2) cl [of t] by simp
        ultimately show ?thesis unfolding apart_def by simp
      qed
    qed (simp add: cl)
    show "solo_ok solo S"
      unfolding solo_ok_def V
    proof (intro allI impI)
      fix u d assume d: "claim_of (cq_pc S u) = Some d" "cq_mode_at s (ck_end d) = Single"
      obtain d' where "claim_of (cq_pc s u) = Some d'" "ck_end d' = ck_end d"
        using d(1) c cl [of u] by (cases "u = t") auto
      then show "u = solo (ck_end d)" using I(6) d(2) unfolding solo_ok_def by metis
    qed
    show "covered S e" if "cq_mode_at S e \<noteq> Rts" for e
    proof -
      have I7: "covered s e" using that I(7) V by simp
      show ?thesis
        unfolding covered_def V
      proof (intro allI impI)
        fix n assume "tail_pos s e \<le> n" "n < claimed s e"
        then obtain u d where "claim_of (cq_pc s u) = Some d" "ck_end d = e" "ck_start d \<le> n" "n < ck_stop d"
          using I7 unfolding covered_def by blast
        then show "\<exists>u d. claim_of (cq_pc S u) = Some d \<and> ck_end d = e \<and> ck_start d \<le> n \<and> n < ck_stop d"
          using c by (intro exI [of _ u] exI [of _ "if u = t then ?c else d"]) (auto simp: cl)
      qed
    qed
    show "rts_ok N S e" if "cq_mode_at S e = Rts" for e
    proof -
      have "under_way N S e = under_way N s e"
        using threads_in_upd [OF t, of "at_claim e" "cq_pc s" "CqWork ?c"] c
        by (simp add: under_way_def at_claim_def P)
      then show ?thesis using I(8) [of e] that unfolding rts_ok_def V by simp
    qed
    show "pc_ok S u (cq_pc S u)" for u
    proof (cases "u = t")
      case False
      then have "cq_pc S u = cq_pc s u" by (simp add: P)
      then show ?thesis using pc_ok_claims [OF I(9) [of u] False V(4,1,2,3) lim V(8)] c by (simp add: cl)
    qed (simp add: P)
    show "cells_ok S"
      by (rule cells_ok_upd [OF inv F(3,4) lv(1) V(6,7)]) (simp add: lv(2) Q q)
    show "ret_ok S (snd r)" if "r \<in> set (cq_log S)" for r
      using that I(12) [of r] L ret_ok_cong [of S s "snd r"] V by simp
  qed (use I(2,11,13) t V P L in auto)
  then show ?thesis by (simp add: S_def)
qed

end
