(* ===== verification/ConQueue_Conc_Steps.thy ===== *)
theory ConQueue_Conc_Steps
  imports ConQueue_Conc_Work
begin

text \<open>
  Publishing a claim keeps the invariant, hence so does every step of every thread; the interpretation
  of \<open>transition_system\<close>; and the layouts and constructors that give initial states.
\<close>

section \<open>Publishing\<close>

lemma pc_ok_publish:
  assumes ok: "pc_ok s u p" and clm: "claim_of p = Some d \<Longrightarrow> ck_end d = e \<Longrightarrow> tail_pos s' e \<le> ck_start d"
    and V: "\<And>e. cq_mode_at s' e = cq_mode_at s e" "\<And>e. claimed s' e = claimed s e" "cq_lens s' = cq_lens s"
    and e: "\<And>e'. e' \<noteq> e \<Longrightarrow> tail_pos s' e' = tail_pos s e' \<and> tail_cnt s' e' = tail_cnt s e'"
    and lim: "\<And>e'. limit s e' \<le> limit s' e'"
    and grow: "cq_mode_at s e \<noteq> Rts \<Longrightarrow> tail_pos s e < tail_pos s' e" "cq_mode_at s e = Rts \<Longrightarrow> tail_cnt s e < tail_cnt s' e"
    and cl: "\<And>w. w \<noteq> t \<Longrightarrow> claim_of (cq_pc s' w) = claim_of (cq_pc s w)" "claim_of (cq_pc s' t) = None"
    and d: "claim_of p = Some d \<or> claim_of p = None"
  shows "pc_ok s' u p"
proof (cases p)
  case (CqCas c v l)
  then show ?thesis using ok V lim [of "call_end c"] by auto
next
  case (CqTurn c)
  then show ?thesis using ok V clm d e [of "ck_end c"] grow by (cases "ck_end c = e") auto
next
  case (CqAdd c w)
  then show ?thesis using ok V clm d e [of "ck_end c"] grow by (cases "ck_end c = e") auto
next
  case (CqHead c v)
  then show ?thesis using ok V e [of "ck_end c"] grow by (cases "ck_end c = e") auto
next
  case (CqSet c v h)
  show ?thesis
  proof (cases "ck_end c = e")
    case True
    then show ?thesis using ok CqSet V grow by auto
  next
    case False
    have "claim_of (cq_pc s' w) = Some d' \<Longrightarrow> claim_of (cq_pc s w) = Some d'" for w d'
      using cl by (cases "w = t") auto
    then show ?thesis using ok CqSet V e [OF False] by auto
  qed
qed (use ok V in auto)

lemma cq_inv_publish:
  assumes inv: "cq_inv solo N s" and t: "t < N" and c: "claim_of (cq_pc s t) = Some c" "full_claim c"
    and e: "e = ck_end c" and v: "tail_pos s e \<le> unat (pos v)" "unat (pos v) \<le> claimed s e"
    and other: "\<And>u d. u \<noteq> t \<Longrightarrow> claim_of (cq_pc s u) = Some d \<Longrightarrow> ck_end d = e \<Longrightarrow> unat (pos v) \<le> ck_start d"
    and step: "cq_mode_at s e \<noteq> Rts \<Longrightarrow> ck_start c = tail_pos s e \<and> unat (pos v) = ck_stop c"
    and rts: "cq_mode_at s e = Rts \<Longrightarrow> unat (cnt v) = Suc (tail_cnt s e) \<and>
      (unat (cnt v) = length (cq_lens s e) \<longrightarrow> unat (pos v) = claimed s e)"
  shows "cq_inv solo N (cq_return t (Served c) (s\<lparr>cq_q := set_tail e v (cq_q s)\<rparr>))"
proof -
  define S where "S = cq_return t (Served c) (s\<lparr>cq_q := set_tail e v (cq_q s)\<rparr>)"
  note I = cq_invD [OF inv]
  have ok: "claim_ok s c" by (rule I(4) [OF c(1)])
  have V: "claimed S e' = claimed s e'" "cq_mode_at S e' = cq_mode_at s e'" "cq_cap S = cq_cap s" "cq_cell S n = cq_cell s n"
    "cq_in S = cq_in s" "cq_lens S = cq_lens s" "head_of e' (cq_q S) = head_of e' (cq_q s)" for e' n
    using conq_slot_cong [of "set_tail e v (cq_q s)" "cq_q s"]
    by (simp_all add: S_def cq_return_def claimed_def cq_mode_at_def cq_cap_def cq_cell_def) (cases e; simp)
  have T: "tail_pos S e' = (if e' = e then unat (pos v) else tail_pos s e')"
    "tail_cnt S e' = (if e' = e then unat (cnt v) else tail_cnt s e')" for e'
    by (simp_all add: S_def cq_return_def tail_pos_def tail_cnt_def)
  have Q: "cq_q S = set_tail e v (cq_q s)" and P: "cq_pc S = (cq_pc s)(t := CqIdle)"
    and L: "cq_log S = cq_log s @ [(t, Served c)]" "cq_ub S = cq_ub s"
    by (simp_all add: S_def cq_return_def)
  have cl: "claim_of (cq_pc S u) = (if u = t then None else claim_of (cq_pc s u))" for u by (simp add: P)
  have clD: "u \<noteq> t \<and> claim_of (cq_pc s u) = Some d" if "claim_of (cq_pc S u) = Some d" for u d
    using that cl [of u] by (cases "u = t") simp_all
  have mono: "tail_pos s e' \<le> tail_pos S e'" for e' using v(1) T by simp
  have lim: "limit s e' \<le> limit S e'" for e' using mono V(3) by (cases e') simp_all
  have "undone_of e' (Some c) = {}" for e'
    using c(2) by (simp add: undone_of_def full_claim_def ck_front_def ck_stop_def)
  then have "undone S e' = undone s e'" for e'
    using undone_upd [of t S s e'] undone_split [of s e' t] c(1) by (simp add: cl undone_of_def)
  then have lv: "live S = live s" by (simp add: live_def ready_def V)
  have "cq_inv solo N S"
  proof (rule cq_invI)
    show "cq_layout (cq_q S)" using I(1) cq_layout_cfg [of "cq_q S" "cq_q s"] by (simp add: Q)
    show "ends_ok S e'" for e'
      using I(3) [of e'] v(2) lim [of e'] V(7) [of e'] unfolding ends_ok_def V T by auto
    show "claim_ok S d" if "claim_of (cq_pc S u) = Some d" for u d
      using clD [OF that] I(4) [of u d] other [of u d] unfolding claim_ok_def V T by auto
    show "claims_apart S"
      by (rule claims_apart_upd [OF I(5), of t]) (simp_all add: cl)
    show "solo_ok solo S" using I(6) clD unfolding solo_ok_def V by blast
    show "covered S e'" if m: "cq_mode_at S e' \<noteq> Rts" for e'
      unfolding covered_def
    proof (intro allI impI)
      fix n assume n: "tail_pos S e' \<le> n" "n < claimed S e'"
      then have "tail_pos s e' \<le> n" using mono order_trans by blast
      then obtain u d where d: "claim_of (cq_pc s u) = Some d" "ck_end d = e'" "ck_start d \<le> n" "n < ck_stop d"
        using I(7) [of e'] m n(2) unfolding covered_def V by blast
      have "u \<noteq> t"
      proof
        assume "u = t"
        then have "d = c" using d(1) c(1) by simp
        then have "n < unat (pos v)" using d(2,4) step m e V(2) by simp
        then show False using n(1) T(1) [of e'] \<open>d = c\<close> d(2) e by simp
      qed
      then show "\<exists>u d. claim_of (cq_pc S u) = Some d \<and> ck_end d = e' \<and> ck_start d \<le> n \<and> n < ck_stop d"
        using d cl [of u] by auto
    qed
    show "rts_ok N S e'" if "cq_mode_at S e' = Rts" for e'
    proof -
      have "under_way N S e' + of_bool (e' = e) = under_way N s e'"
        using threads_in_upd [OF t, of "at_claim e'" "cq_pc s" CqIdle] c e
        by (simp add: under_way_def P at_claim_def eq_commute)
      then show ?thesis using I(8) [of e'] that rts unfolding rts_ok_def V T by (auto split: if_splits)
    qed
    show "pc_ok S u (cq_pc S u)" for u
    proof (cases "u = t")
      case False
      obtain d where d: "claim_of (cq_pc s u) = Some d \<or> claim_of (cq_pc s u) = None"
        by (cases "claim_of (cq_pc s u)") auto
      have "ck_start c < ck_stop c" using ok by (simp add: claim_ok_def)
      then have g: "cq_mode_at s e \<noteq> Rts \<Longrightarrow> tail_pos s e < tail_pos S e" "cq_mode_at s e = Rts \<Longrightarrow> tail_cnt s e < tail_cnt S e"
        using step rts by (simp_all add: T)
      have "pc_ok S u (cq_pc s u)"
        by (rule pc_ok_publish [OF I(9) [of u] _ V(2,1,6) _ lim g _ _ d, where t = t])
          (use other [OF False] T cl in auto)
      then show ?thesis using False by (simp add: P)
    qed (simp add: P)
    show "cells_ok S"
      using I(10) unfolding cells_ok_def lv V by (simp add: Q)
    show "cq_pc S u = CqIdle" if "N \<le> u" for u using that I(11) by (simp add: P)
    have "ret_ok s (Served c)"
      using ok c(2) by (auto simp: claim_ok_def full_claim_def ck_start_def ck_stop_def)
    then show "ret_ok S (snd r)" if "r \<in> set (cq_log S)" for r
      using that I(12) [of r] L ret_ok_cong [of S s "snd r"] V by auto
  qed (use I(2,13) V L in simp_all)
  then show ?thesis by (simp add: S_def)
qed

section \<open>Every step keeps the invariant\<close>

lemma head_claimed: "cq_inv solo N s \<Longrightarrow> cq_mode_at s e \<noteq> Single \<Longrightarrow> unat (pos (head_of e (cq_q s))) = claimed s e"
  using cq_invD(3) [of solo N s e] by (simp add: ends_ok_def)

lemma pc_ok_test:
  "cq_inv solo N s \<Longrightarrow> cq_mode_at s (call_end c) \<noteq> Single \<Longrightarrow> pc_ok s t (CqTest c (head_of (call_end c) (cq_q s)))"
  by (simp add: head_claimed)

lemma solo_claim_tail:
  assumes inv: "cq_inv solo N s" and c: "claim_of (cq_pc s t) = Some c" "cq_mode_at s (ck_end c) = Single"
  shows "ck_start c = tail_pos s (ck_end c)"
proof (rule ccontr)
  assume ne: "ck_start c \<noteq> tail_pos s (ck_end c)"
  have ok: "claim_ok s c" by (rule cq_invD(4) [OF inv c(1)])
  have "covered s (ck_end c)" using cq_invD(7) [OF inv] c(2) by simp
  moreover have "tail_pos s (ck_end c) < claimed s (ck_end c)" using ok ne by (simp add: claim_ok_def)
  ultimately obtain u d where d: "claim_of (cq_pc s u) = Some d" "ck_end d = ck_end c" "ck_start d \<le> tail_pos s (ck_end c)"
    unfolding covered_def by blast
  have "u = t" using cq_invD(6) [OF inv] c d unfolding solo_ok_def by metis
  then show False using ok ne c(1) d by (simp add: claim_ok_def)
qed

lemma solo_idle_tail:
  assumes inv: "cq_inv solo N s" and t: "t = solo e" "claim_of (cq_pc s t) = None" and m: "cq_mode_at s e = Single"
  shows "tail_pos s e = claimed s e"
proof (rule ccontr)
  assume ne: "tail_pos s e \<noteq> claimed s e"
  have le: "tail_pos s e \<le> claimed s e" using cq_invD(3) [OF inv, of e] by (simp add: ends_ok_def)
  have "covered s e" using cq_invD(7) [OF inv] m by simp
  moreover have "tail_pos s e < claimed s e" using ne le by simp
  ultimately obtain u d where d: "claim_of (cq_pc s u) = Some d" "ck_end d = e"
    unfolding covered_def by blast
  have "u = t" using cq_invD(6) [OF inv] m t(1) d unfolding solo_ok_def by metis
  then show False using d(1) t(2) by simp
qed

lemma unat_add_less: "unat (a :: u32) + unat b < 2 ^ 32 \<Longrightarrow> unat (a + b) = unat a + unat b"
  by (simp add: unat_add_u32)

lemma claim_bound:
  assumes "cq_inv solo N s" "claimed s e + unat l \<le> limit s e" "length (cq_in s @ take (unat l) (call_xs c)) < 2 ^ 32"
    "e = call_end c" "e = ProdEnd \<Longrightarrow> unat l \<le> length (call_xs c)"
  shows "claimed s e + unat (l :: u32) < 2 ^ 32"
proof (cases e)
  case ProdEnd
  then have "length (call_xs c) \<ge> unat l" using assms(5) by simp
  then show ?thesis using assms(3) ends_chain(5) [OF assms(1)] ProdEnd by simp
next
  case ConsEnd
  have "unat (pos (prod_tail (cq_q s))) < 2 ^ 32" by simp
  then show ?thesis using assms(2) ConsEnd by (simp only: limit.simps tail_pos_def tail_of.simps)
qed

lemma step_cas:
  assumes inv: "cq_inv solo N s" and t: "t < N" and pc: "cq_pc s t = CqCas c v l" and hd: "head_of (call_end c) (cq_q s) = v"
    and m: "cq_mode_at s (call_end c) = Default \<and> h = mp_head g v l \<or> cq_mode_at s (call_end c) = Rts \<and> h = rts_head v l"
    and b: "length (cq_in s @ take (unat l) (call_xs c)) < 2 ^ 32"
  shows "cq_inv solo N (cq_take t c v l (s\<lparr>cq_q := set_head (call_end c) h (cq_q s)\<rparr>))"
proof -
  let ?e = "call_end c"
  have pv: "unat (pos v) = claimed s ?e" using head_claimed [OF inv, of ?e] m hd by auto
  have ok: "0 < unat l" "claimed s ?e + unat l \<le> limit s ?e" "?e = ProdEnd \<Longrightarrow> unat l \<le> length (call_xs c)"
    using cq_invD(9) [OF inv, of t] pc pv call_count_xs [of c] by simp_all
  have lt: "claimed s ?e + unat l < 2 ^ 32" using claim_bound [OF inv ok(2) b refl ok(3)] .
  have "unat (pos v + l) = claimed s ?e + unat l" using lt pv by (simp add: unat_add_less)
  moreover have "unat (cnt v + 1) = Suc (length (cq_lens s ?e))" if "cq_mode_at s ?e = Rts"
  proof -
    have c: "unat (cnt v) = length (cq_lens s ?e)" using cq_invD(8) [OF inv that] hd by (simp add: rts_ok_def)
    moreover have "length (cq_lens s ?e) \<le> claimed s ?e" using cq_invD(3) [OF inv, of ?e] by (simp add: ends_ok_def)
    ultimately have "unat (cnt v) + unat (1 :: u32) < 2 ^ 32" using lt ok(1) by simp
    then show ?thesis using unat_add_less [of "cnt v" 1] c by simp
  qed
  ultimately show ?thesis
    using m by (intro cq_inv_take [OF inv t _ refl ok(1) pv ok(2,3)]) (auto simp: pc hd mp_head_def rts_head_def)
qed

lemma step_solo_take:
  assumes inv: "cq_inv solo N s" and t: "t < N" "t = solo (call_end c)" and pc: "cq_pc s t = CqIdle"
    and m: "cq_mode_at s (call_end c) = Single" and v: "v = tail_of (call_end c) (cq_q s)" and l: "l = call_room c v (cq_q s)" "l \<noteq> 0"
    and b: "length (cq_in s @ take (unat l) (call_xs c)) < 2 ^ 32"
  shows "cq_inv solo N (cq_take t c v l s)"
proof -
  let ?e = "call_end c"
  have pv: "unat (pos v) = claimed s ?e"
    using solo_idle_tail [OF inv t(2) _ m] pc by (simp add: v tail_pos_def)
  have ok: "0 < unat l" "claimed s ?e + unat l \<le> limit s ?e" "?e = ProdEnd \<Longrightarrow> unat l \<le> length (call_xs c)"
    using call_room_ok [OF inv pv] room_count [of c v "cq_q s"] call_count_xs [of c] l by (simp_all add: unat_gt_0)
  have "claim_of (cq_pc s t) = None" by (simp add: pc)
  then have "cq_inv solo N (cq_take t c v l (s\<lparr>cq_q := cq_q s\<rparr>))"
    using m t(2) by (intro cq_inv_take [OF inv t(1) _ refl ok(1) pv ok(2,3)]) simp_all
  then show ?thesis by simp
qed

lemma step_done:
  assumes inv: "cq_inv solo N s" and t: "t < N" and pc: "cq_pc s t = CqWork c" "length (ck_done c) = unat (ck_len c)"
  shows "cq_inv solo N (cq_goto t (after_work (mode_of (call_end (ck_call c)) (cq_q s)) c) s)"
proof -
  have m: "mode_of (call_end (ck_call c)) (cq_q s) = cq_mode_at s (ck_end c)" by (simp add: cq_mode_at_def ck_end_def)
  show ?thesis
    unfolding m using solo_claim_tail [OF inv, of t c] pc
    by (intro cq_inv_goto [OF inv t]) (cases "cq_mode_at s (ck_end c)"; simp add: after_work_def full_claim_def)+
qed

lemma step_store:
  assumes inv: "cq_inv solo N s" "length (cq_in s) < 2 ^ 32" and t: "t < N" and pc: "cq_pc s t = CqAdd c w"
  shows "cq_inv solo N (cq_return t (Served c) (s\<lparr>cq_q := set_tail (ck_end c)
      ((tail_of (ck_end c) (cq_q s))\<lparr>pos := w + ck_len c\<rparr>) (cq_q s)\<rparr>))"
proof -
  have c: "claim_of (cq_pc s t) = Some c" using pc by simp
  have ok: "claim_ok s c" by (rule cq_invD(4) [OF inv(1) c])
  have p: "cq_mode_at s (ck_end c) \<noteq> Rts" "full_claim c" "ck_start c = tail_pos s (ck_end c)" "unat w = tail_pos s (ck_end c)"
    using cq_invD(9) [OF inv(1), of t] pc by simp_all
  have le: "ck_stop c \<le> claimed s (ck_end c)" using ok by (simp add: claim_ok_def)
  have "ck_stop c < 2 ^ 32" using claim_in [OF inv(1) le] inv(2) by simp
  then have w: "unat (w + ck_len c) = ck_stop c"
    using p(3,4) unat_add_less [of w "ck_len c"] by (simp add: ck_start_def ck_stop_def)
  have other: "ck_stop c \<le> ck_start d" if "u \<noteq> t" "claim_of (cq_pc s u) = Some d" "ck_end d = ck_end c" for u d
    using claims_apartD [OF cq_invD(5) [OF inv(1)] that(1,2) c] cq_invD(4) [OF inv(1) that(2)] that(3) p(3)
    by (auto simp: apart_def claim_ok_def)
  show ?thesis
    by (rule cq_inv_publish [OF inv(1) t c p(2) refl]) (use w le other p ok in \<open>auto simp: claim_ok_def\<close>)
qed

lemma step_rts_head:
  assumes inv: "cq_inv solo N s" and t: "t < N" and pc: "cq_pc s t = CqHead c v"
  shows "cq_inv solo N (cq_goto t (CqSet c v (head_of (ck_end c) (cq_q s))) s)"
proof -
  let ?e = "ck_end c" and ?h = "head_of (ck_end c) (cq_q s)"
  have c: "claim_of (cq_pc s t) = Some c" using pc by simp
  have p: "cq_mode_at s ?e = Rts" "full_claim c" "unat (cnt v) \<le> tail_cnt s ?e"
    using cq_invD(9) [OF inv(1), of t] pc by simp_all
  have r: "unat (cnt ?h) = length (cq_lens s ?e)" "tail_cnt s ?e + under_way N s ?e = length (cq_lens s ?e)"
    using cq_invD(8) [OF inv p(1)] by (simp_all add: rts_ok_def)
  have at: "at_claim ?e (cq_pc s t)" using c by (simp add: at_claim_def)
  have one: "0 < under_way N s ?e" unfolding under_way_def using threads_in_pos [of t N "at_claim ?e" "cq_pc s"] t at by simp
  have stop: "ck_stop c \<le> claimed s ?e" using cq_invD(4) [OF inv c] by (simp add: claim_ok_def)
  have alone: "u = t" if "under_way N s ?e \<le> 1" "claim_of (cq_pc s u) = Some d" "ck_end d = ?e" for u d
  proof -
    have "u < N" using cq_invD(11) [OF inv, of u] that(2) by (cases "N \<le> u") auto
    moreover have "at_claim ?e (cq_pc s u)" using that(2,3) by (simp add: at_claim_def)
    ultimately show ?thesis using threads_in_1 [of N "at_claim ?e" "cq_pc s" u t] that(1) t at by (simp add: under_way_def)
  qed
  have "pc_ok s t (CqSet c v ?h)"
    using p r one stop head_claimed [OF inv, of ?e] alone by auto
  then show ?thesis using c by (intro cq_inv_goto [OF inv t]) simp_all
qed

lemma rts_next_halves:
  "pos (rts_next h v) = (if cnt v + 1 = cnt h then pos h else pos v)" "cnt (rts_next h v) = cnt v + 1"
  by (simp_all add: rts_next_def Let_def)

lemma step_rts_set:
  assumes inv: "cq_inv solo N s" "length (cq_in s) < 2 ^ 32" and t: "t < N" and pc: "cq_pc s t = CqSet c v h"
    and tl: "tail_of (ck_end c) (cq_q s) = v"
  shows "cq_inv solo N (cq_return t (Served c) (s\<lparr>cq_q := set_tail (ck_end c) (rts_next h v) (cq_q s)\<rparr>))"
proof -
  let ?e = "ck_end c"
  have c: "claim_of (cq_pc s t) = Some c" using pc by simp
  have ok: "claim_ok s c" by (rule cq_invD(4) [OF inv(1) c])
  have eq: "unat (cnt v) = tail_cnt s ?e" "unat (pos v) = tail_pos s ?e" by (simp_all add: tl tail_cnt_def tail_pos_def)
  have p: "cq_mode_at s ?e = Rts" "full_claim c" "unat (cnt h) \<le> length (cq_lens s ?e)" "unat (pos h) \<le> claimed s ?e"
    "unat (cnt v) < unat (cnt h)" "ck_stop c \<le> unat (pos h)"
    "unat (cnt h) = length (cq_lens s ?e) \<Longrightarrow> unat (pos h) = claimed s ?e"
    and alone: "\<And>u d. unat (cnt h) = Suc (unat (cnt v)) \<Longrightarrow> u \<noteq> t \<Longrightarrow> claim_of (cq_pc s u) = Some d \<Longrightarrow> ck_end d = ?e \<Longrightarrow>
      unat (pos h) \<le> ck_start d"
    using cq_invD(9) [OF inv(1), of t] pc eq(1) by auto
  have n: "unat (cnt v + 1) = Suc (unat (cnt v))"
    using unat_add_less [of "cnt v" 1] p(5) unat_u32_less [of "cnt h"] by simp
  then have nx: "cnt v + 1 = cnt h \<longleftrightarrow> unat (cnt h) = Suc (unat (cnt v))" by (auto simp: word_unat_eq_iff)
  have start: "tail_pos s ?e \<le> ck_start d" if "claim_of (cq_pc s u) = Some d" "ck_end d = ?e" for u d
    using cq_invD(4) [OF inv(1) that(1)] that(2) by (simp add: claim_ok_def)
  show ?thesis
  proof (rule cq_inv_publish [OF inv(1) t c p(2) refl])
    show "tail_pos s ?e \<le> unat (pos (rts_next h v))" "unat (pos (rts_next h v)) \<le> claimed s ?e"
      using p eq ok cq_invD(3) [OF inv(1), of ?e] by (auto simp: rts_next_halves claim_ok_def ends_ok_def)
    show "unat (pos (rts_next h v)) \<le> ck_start d" if "u \<noteq> t" "claim_of (cq_pc s u) = Some d" "ck_end d = ?e" for u d
      using alone that start eq nx by (auto simp: rts_next_halves)
    show "unat (cnt (rts_next h v)) = Suc (tail_cnt s ?e) \<and>
      (unat (cnt (rts_next h v)) = length (cq_lens s ?e) \<longrightarrow> unat (pos (rts_next h v)) = claimed s ?e)"
      using n nx eq p by (auto simp: rts_next_halves)
  qed (use p(1) in simp)
qed

lemma step_in_mono: "cq_thread solo t s s' \<Longrightarrow> \<exists>xs. cq_in s' = cq_in s @ xs"
  by (erule cq_thread.cases) (auto simp: cq_take_def cq_return_def)

lemma cq_thread_inv:
  assumes step: "cq_thread solo t s s'" and t: "t < N" and inv: "cq_inv solo N s" and b: "length (cq_in s') < 2 ^ 32"
  shows "cq_inv solo N s'"
proof -
  have b': "length (cq_in s) < 2 ^ 32" using step_in_mono [OF step] b by auto
  note pc = cq_invD(9) [OF inv, of t]
  show ?thesis
    using step
  proof cases
    case (cq_call c)
    then show ?thesis using pc_ok_test [OF inv, of c t] by (auto intro!: cq_inv_goto [OF inv t] simp: cq_mode_at_def)
  next
    case (cq_refuse c v)
    then show ?thesis using cq_inv_refuse [OF inv t, of c] by simp
  next
    case (cq_test c v)
    then have "0 < unat (call_room c v (cq_q s))" by (simp add: unat_gt_0)
    then show ?thesis
      unfolding cq_test(1) using pc cq_test call_room_ok [OF inv, of v c] room_count [of c v "cq_q s"]
      by (intro cq_inv_goto [OF inv t]) auto
  next
    case (cq_cas_default c v l g)
    then have "length (cq_in s @ take (unat l) (call_xs c)) < 2 ^ 32" using b by (simp add: cq_take_def)
    then show ?thesis using step_cas [OF inv t cq_cas_default(2,3)] cq_cas_default(1,4) by (simp add: cq_mode_at_def)
  next
    case (cq_cas_rts c v l)
    then have "length (cq_in s @ take (unat l) (call_xs c)) < 2 ^ 32" using b by (simp add: cq_take_def)
    then show ?thesis using step_cas [OF inv t cq_cas_rts(2,3)] cq_cas_rts(1,4) by (simp add: cq_mode_at_def)
  next
    case (cq_cas_fail c v l)
    then show ?thesis using pc pc_ok_test [OF inv, of c t] by (auto intro!: cq_inv_goto [OF inv t])
  next
    case (cq_solo_refuse c)
    then show ?thesis using cq_inv_refuse [OF inv t, of c] by simp
  next
    case (cq_solo_take c)
    let ?v = "tail_of (call_end c) (cq_q s)"
    have "length (cq_in s @ take (unat (call_room c ?v (cq_q s))) (call_xs c)) < 2 ^ 32"
      using cq_solo_take(1) b by (simp add: cq_take_def)
    then show ?thesis
      unfolding cq_solo_take(1) using cq_solo_take(3)
      by (intro step_solo_take [OF inv t cq_solo_take(4,2) _ refl refl cq_solo_take(6)]) (simp_all add: cq_mode_at_def)
  next
    case (cq_work c x q)
    then show ?thesis using cq_inv_work [OF inv b' t cq_work(2-4)] by simp
  next
    case (cq_work_ub c)
    then show ?thesis using work_on_ok(1) [OF inv b', of t c] by simp
  next
    case (cq_done c)
    then show ?thesis using step_done [OF inv t cq_done(2,3)] by simp
  next
    case (cq_wait c)
    then show ?thesis using inv by simp
  next
    case (cq_turn c)
    then show ?thesis
      using pc by (auto intro!: cq_inv_goto [OF inv t] simp: ck_end_def ck_start_def tail_pos_def)
  next
    case (cq_load c)
    then show ?thesis using pc by (auto intro!: cq_inv_goto [OF inv t] simp: ck_end_def tail_pos_def)
  next
    case (cq_store c w)
    then show ?thesis using step_store [OF inv b' t cq_store(2)] by (simp add: ck_end_def)
  next
    case (cq_rts_load c)
    then show ?thesis using pc by (auto intro!: cq_inv_goto [OF inv t] simp: ck_end_def tail_cnt_def)
  next
    case (cq_rts_head c v)
    then show ?thesis using step_rts_head [OF inv t cq_rts_head(2)] by (simp add: ck_end_def)
  next
    case (cq_rts_set c v h)
    then show ?thesis using step_rts_set [OF inv b' t cq_rts_set(2)] by (simp add: ck_end_def)
  next
    case (cq_rts_fail c v h)
    then show ?thesis using pc by (auto intro!: cq_inv_goto [OF inv t] simp: ck_end_def tail_cnt_def)
  qed
qed

section \<open>Initial states\<close>

lemma all_ends: "(\<forall>e. P e) \<longleftrightarrow> P ProdEnd \<and> P ConsEnd"
  by (metis cq_end.exhaust)

text \<open>A queue fresh from the constructor.\<close>

definition cq_fresh :: "'a conqueue \<Rightarrow> bool" where
  "cq_fresh q \<longleftrightarrow> cq_layout q \<and> ring q = (\<lambda>_. None) \<and> (\<forall>e. head_of e q = \<lparr>pos = 0, cnt = 0\<rparr> \<and> tail_of e q = \<lparr>pos = 0, cnt = 0\<rparr>)"

lemma cq_inv_init:
  assumes "cq_fresh q" "cq_init q s"
  shows "cq_inv solo N s"
proof -
  have z: "claimed s e = 0" "tail_pos s e = 0" "tail_cnt s e = 0" "under_way N s e = 0" "ready s e = {}" for e
    using assms by (auto simp: cq_fresh_def cq_init_def claimed_def tail_pos_def tail_cnt_def under_way_def
        threads_in_0 at_claim_def ready_def)
  have lim: "0 \<le> limit s e" for e by simp
  show ?thesis
    using assms z
    by (intro cq_invI)
      (auto simp: cq_fresh_def cq_init_def ends_ok_def claims_apart_def solo_ok_def covered_def rts_ok_def cells_ok_def live_def)
qed

definition cq_safe :: "(cq_end \<Rightarrow> nat) \<Rightarrow> nat \<Rightarrow> 'a cq_state \<Rightarrow> bool" where
  "cq_safe solo N s \<longleftrightarrow> (length (cq_in s) < 2 ^ 32 \<longrightarrow> cq_inv solo N s)"

interpretation cqc: transition_system "\<lambda>s. \<exists>q. cq_fresh q \<and> cq_init q s" "cq_step solo N" "cq_safe solo N"
  for solo :: "cq_end \<Rightarrow> nat" and N :: nat
proof unfold_locales
  fix s s' :: "'a cq_state"
  show "\<exists>q. cq_fresh q \<and> cq_init q s \<Longrightarrow> cq_safe solo N s"
    using cq_inv_init unfolding cq_safe_def by blast
  show "cq_safe solo N s'" if inv: "cq_safe solo N s" and st: "cq_step solo N s s'"
  proof -
    obtain t where t: "t < N" "cq_thread solo t s s'" using st by (auto simp: cq_step_def)
    obtain xs where "cq_in s' = cq_in s @ xs" using step_in_mono [OF t(2)] by blast
    then show ?thesis using inv cq_thread_inv [OF t(2,1)] unfolding cq_safe_def by auto
  qed
qed

lemma cq_reach_inv:
  assumes "cq_fresh q" "cq_init q s0" "(cq_step solo N)\<^sup>*\<^sup>* s0 s" "length (cq_in s) < 2 ^ 32"
  shows "cq_inv solo N s"
  using cqc.reach_inv [of s0 solo N s] assms unfolding cq_safe_def by blast

text \<open>Both layouts are free of collisions below \<open>2 ^ 32\<close>.\<close>

lemma pow2_layout: "conq_pow2 q \<Longrightarrow> cq_layout q"
  unfolding cq_layout_def
proof (intro conjI allI impI)
  assume p: "conq_pow2 q"
  show "conq_wf q" by (rule conq_pow2_wf [OF p])
  fix n m assume nm: "n < m \<and> m < 2 ^ 32 \<and> m < n + unat (max_size q)"
  define i where "i = m - n"
  have m: "m = n + i" "0 < i" "i < unat (max_size q)" using nm by (auto simp: i_def)
  have "conq_slot q (of_nat n + of_nat 0) \<noteq> conq_slot q (of_nat n + of_nat i)"
    using window_injD [of "conq_slot q" "unat (max_size q)" "of_nat n" 0 i] conq_pow2_win [OF p, of "of_nat n"] m
    unfolding conq_win_def by auto
  then show "conq_slot q (of_nat n) \<noteq> conq_slot q (of_nat m)" by (simp add: m(1))
qed

lemma exact_layout: "conq_exact q \<Longrightarrow> cq_layout q"
  unfolding cq_layout_def
proof (intro conjI allI impI)
  assume p: "conq_exact q"
  show "conq_wf q" by (rule conq_exact_wf [OF p])
  fix n m assume nm: "n < m \<and> m < 2 ^ 32 \<and> m < n + unat (max_size q)"
  have s: "conq_slot q (of_nat k) = k mod unat (max_size q)" if "k < 2 ^ 32" for k
    using p that by (simp add: conq_slot_def to_id_def conq_exact_def unat_mod unat_of_nat_u32)
  show "conq_slot q (of_nat n) \<noteq> conq_slot q (of_nat m)"
  proof
    assume "conq_slot q (of_nat n) = conq_slot q (of_nat m)"
    then have "(n + 0) mod unat (max_size q) = (n + (m - n)) mod unat (max_size q)" using nm s [of n] s [of m] by simp
    then have "0 = m - n" using nm by (intro mod_add_inj [of 0 "unat (max_size q)" "m - n" n]) auto
    then show False using nm by simp
  qed
qed

lemma ctor_fresh:
  assumes "conq_ctor_alloc m fl = Ret q" "unat m \<le> 2 ^ 31"
  shows "cq_fresh q" "max_size q = m" "flags q = conq_default_flags fl"
proof -
  from assms(1) obtain q0 where q0: "conq_ctor (Some (unat (aligned_size m fl))) m fl = Ret q0"
    "q = q0\<lparr>self_alloc := True\<rparr>"
    by (auto simp: conq_ctor_alloc_def run_bind_Ret_iff)
  have "conq_pow2 q0 \<or> conq_exact q0"
  proof (cases "has_flag fl F_EXACT_SZ")
    case True
    have "unat m + unat (1 :: u32) < 2 ^ 32" using assms(2) by simp
    then have "unat m \<le> unat (m + 1)" by (simp add: unat_add_u32)
    then show ?thesis using ctor_exact [OF q0(1) True] True by (simp add: aligned_size_exact)
  next
    case False
    then show ?thesis using ctor_pow2 [OF q0(1) False assms(2)] by simp
  qed
  then have "conq_pow2 q \<or> conq_exact q" by (simp add: q0(2) conq_pow2_def conq_exact_def)
  then have l: "cq_layout q" using pow2_layout exact_layout by blast
  have "ring q0 = (\<lambda>_. None) \<and> (\<forall>e. head_of e q0 = \<lparr>pos = 0, cnt = 0\<rparr> \<and> tail_of e q0 = \<lparr>pos = 0, cnt = 0\<rparr>)"
    using q0(1) by (auto simp: conq_ctor_def Let_def all_ends split: if_splits)
  then have "ring q = (\<lambda>_. None) \<and> (\<forall>e. head_of e q = \<lparr>pos = 0, cnt = 0\<rparr> \<and> tail_of e q = \<lparr>pos = 0, cnt = 0\<rparr>)"
    by (simp add: q0(2) all_ends)
  with l show "cq_fresh q" by (simp add: cq_fresh_def)
  show "max_size q = m" "flags q = conq_default_flags fl" using ctor_fields [OF q0(1)] by (simp_all add: q0(2))
qed

end
