(* ===== verification/ConQueue_Conc_Spec.thy ===== *)
theory ConQueue_Conc_Spec
  imports ConQueue_Conc_Steps
begin

text \<open>
  The specification of a concurrent bounded queue: one list of elements, on which every call acts
  in one atomic step between its start and its return. A function from the states of \<open>ConQueue\<close> to those
  of the specification maps every step of the code to steps of the specification, when neither
  end is in relaxed mode.
\<close>

section \<open>The specification\<close>

datatype 'a at_status = AtIdle | AtCalled "'a cq_call" | AtTaken "'a cq_call" "'a list"

text \<open>The log has the completed calls: thread, call, and the elements pushed or popped.\<close>

record 'a at_queue =
  at_items :: "'a list"
  at_status :: "nat \<Rightarrow> 'a at_status"
  at_log :: "(nat \<times> 'a cq_call \<times> 'a list) list"

text \<open>The room that a call under way may occupy.\<close>

fun at_room :: "'a at_status \<Rightarrow> nat" where
  "at_room AtIdle = 0"
| "at_room (AtCalled c) = length (call_xs c)"
| "at_room (AtTaken c ys) = length ys"

definition at_finish :: "nat \<Rightarrow> 'a cq_call \<Rightarrow> 'a list \<Rightarrow> 'a at_queue \<Rightarrow> 'a at_queue" where
  "at_finish t c ys a = a\<lparr>at_status := (at_status a)(t := AtIdle), at_log := at_log a @ [(t, c, ys)]\<rparr>"

text \<open>
  A push may be refused when the elements together with what the other calls under way occupy
  fill the capacity, a pop when there is no element.
\<close>

inductive at_step :: "nat \<Rightarrow> nat \<Rightarrow> 'a at_queue \<Rightarrow> 'a at_queue \<Rightarrow> bool" for cap N where
  at_call: "at_step cap N a (a\<lparr>at_status := (at_status a)(t := AtCalled c)\<rparr>)"
    if "t < N" "at_status a t = AtIdle"
| at_push: "at_step cap N a (at_finish t c ys (a\<lparr>at_items := at_items a @ ys\<rparr>))"
    if "t < N" "at_status a t = AtCalled c" "call_end c = ProdEnd" "ys \<noteq> []" "\<exists>zs. call_xs c = ys @ zs"
       "length (at_items a) + length ys \<le> cap"
| at_full: "at_step cap N a (at_finish t c [] a)"
    if "t < N" "at_status a t = AtCalled c" "call_end c = ProdEnd"
       "cap \<le> length (at_items a) + (\<Sum>u\<in>{..<N} - {t}. at_room (at_status a u)) \<or> 2 ^ 32 dvd call_count c"
| at_take: "at_step cap N a (a\<lparr>at_items := zs, at_status := (at_status a)(t := AtTaken c ys)\<rparr>)"
    if "t < N" "at_status a t = AtCalled c" "call_end c = ConsEnd" "at_items a = ys @ zs" "ys \<noteq> []" "length ys \<le> call_count c"
| at_empty: "at_step cap N a (at_finish t c [] a)"
    if "t < N" "at_status a t = AtCalled c" "call_end c = ConsEnd" "at_items a = [] \<or> call_count c = 0"
| at_return: "at_step cap N a (at_finish t c ys a)"
    if "t < N" "at_status a t = AtTaken c ys"

definition at_init :: "'a at_queue" where
  "at_init = \<lparr>at_items = [], at_status = (\<lambda>_. AtIdle), at_log = []\<rparr>"

section \<open>The mapping\<close>

definition ck_block :: "'a list \<Rightarrow> 'a cq_claim \<Rightarrow> 'a list" where
  "ck_block xs c = take (unat (ck_len c)) (drop (ck_start c) xs)"

text \<open>The elements that are published and not claimed by a consumer.\<close>

definition cq_items :: "'a cq_state \<Rightarrow> 'a list" where
  "cq_items s = drop (claimed s ConsEnd) (take (tail_pos s ProdEnd) (cq_in s))"

definition cq_status :: "'a list \<Rightarrow> 'a cq_pc \<Rightarrow> 'a at_status" where
  "cq_status xs p = (case claim_of p of
       Some c \<Rightarrow> if ck_end c = ProdEnd then AtCalled (ck_call c) else AtTaken (ck_call c) (ck_block xs c)
     | None \<Rightarrow> (case p of CqTest c v \<Rightarrow> AtCalled c | CqCas c v l \<Rightarrow> AtCalled c | _ \<Rightarrow> AtIdle))"

fun cq_response :: "nat \<times> 'a cq_ret \<Rightarrow> nat \<times> 'a cq_call \<times> 'a list" where
  "cq_response (t, Served c) = (t, ck_call c, ck_done c)"
| "cq_response (t, Refused c) = (t, c, [])"

definition cq_abs :: "'a cq_state \<Rightarrow> 'a at_queue" where
  "cq_abs s = \<lparr>at_items = cq_items s, at_status = (\<lambda>t. cq_status (cq_in s) (cq_pc s t)), at_log = map cq_response (cq_log s)\<rparr>"

lemma cq_abs_init: "cq_init q s \<Longrightarrow> cq_abs s = at_init"
  by (simp add: cq_abs_def cq_init_def at_init_def cq_items_def cq_status_def fun_eq_iff)

lemma cq_status_simps [simp]:
  "cq_status xs CqIdle = AtIdle" "cq_status xs (CqTest c v) = AtCalled c" "cq_status xs (CqCas c v l) = AtCalled c"
  by (simp_all add: cq_status_def)

lemma cq_status_claim: "claim_of p = Some c \<Longrightarrow> cq_status xs p =
    (if ck_end c = ProdEnd then AtCalled (ck_call c) else AtTaken (ck_call c) (ck_block xs c))"
  by (simp add: cq_status_def)

lemma cq_status_cong: "claim_of p = claim_of p' \<Longrightarrow> claim_of p \<noteq> None \<Longrightarrow> cq_status xs p = cq_status xs p'"
  by (auto simp: cq_status_def split: option.splits)

section \<open>Steps that change nothing abstractly\<close>

lemma abs_goto: "cq_status (cq_in s) p = cq_status (cq_in s) (cq_pc s t) \<Longrightarrow> cq_abs (cq_goto t p s) = cq_abs s"
  by (auto simp: cq_abs_def cq_items_def)

lemma abs_call: "cq_abs (cq_goto t p s) = (cq_abs s)\<lparr>at_status := (at_status (cq_abs s))(t := cq_status (cq_in s) p)\<rparr>"
  by (auto simp: cq_abs_def cq_items_def)

lemma abs_return:
  "cq_abs (cq_return t r (s\<lparr>cq_q := q\<rparr>)) = (cq_abs (s\<lparr>cq_q := q\<rparr>))
     \<lparr>at_status := (at_status (cq_abs s))(t := AtIdle), at_log := at_log (cq_abs s) @ [cq_response (t, r)]\<rparr>"
  by (auto simp: cq_abs_def cq_return_def cq_items_def tail_pos_def claimed_def)

lemma abs_simps [simp]:
  "at_items (cq_abs s) = cq_items s" "at_status (cq_abs s) = (\<lambda>t. cq_status (cq_in s) (cq_pc s t))"
  "at_log (cq_abs s) = map cq_response (cq_log s)"
  by (simp_all add: cq_abs_def)

lemma items_length:
  "cq_inv solo N s \<Longrightarrow> length (cq_items s) = tail_pos s ProdEnd - claimed s ConsEnd"
  using ends_chain [of solo N s] by (simp add: cq_items_def)

section \<open>Refusals\<close>

lemma refuse_full:
  assumes inv: "cq_inv solo N s" and b: "length (cq_in s) + cq_cap s < 2 ^ 32" and c: "call_end c = ProdEnd"
    and v: "unat (pos v) \<le> claimed s ProdEnd" and r: "call_room c v (cq_q s) = 0"
  shows "claimed s ProdEnd = tail_pos s ConsEnd + cq_cap s \<or> 2 ^ 32 dvd call_count c"
proof -
  note ch = ends_chain [OF inv]
  have full: "claimed s ProdEnd = tail_pos s ConsEnd + cq_cap s" if "pos v = pos (cons_tail (cq_q s)) + max_size (cq_q s)"
  proof -
    have "tail_pos s ConsEnd + cq_cap s < 2 ^ 32" using ch b by linarith
    then have "unat (pos v) = tail_pos s ConsEnd + cq_cap s"
      using that unat_add_less [of "pos (cons_tail (cq_q s))" "max_size (cq_q s)"] by (simp add: tail_pos_def cq_cap_def)
    then show ?thesis using v ch(4) by linarith
  qed
  show ?thesis
  proof (cases c)
    case (Emplace x)
    then have "pos v - pos (cons_tail (cq_q s)) = max_size (cq_q s)" using r by (simp add: conq_capacity_def split: if_splits)
    then have "pos v = pos (cons_tail (cq_q s)) + max_size (cq_q s)" by (simp add: algebra_simps)
    then show ?thesis using full by simp
  next
    case (PushBulk xs)
    then have "conq_capacity (cq_q s) - pos v + pos (cons_tail (cq_q s)) = 0 \<or> (of_nat (length xs) :: u32) = 0"
      using r by (auto simp: min_def split: if_splits)
    moreover have "pos v = pos (cons_tail (cq_q s)) + max_size (cq_q s)"
      if "conq_capacity (cq_q s) - pos v + pos (cons_tail (cq_q s)) = 0"
      using that by (simp add: conq_capacity_def algebra_simps)
    moreover have "2 ^ 32 dvd length xs" if "(of_nat (length xs) :: u32) = 0"
      using that by (simp add: word_of_nat_eq_0_iff)
    ultimately show ?thesis using full PushBulk by auto
  qed (use c in simp_all)
qed

lemma refuse_empty:
  assumes inv: "cq_inv solo N s" and c: "call_end c = ConsEnd"
    and v: "unat (pos v) \<le> claimed s ConsEnd" and r: "call_room c v (cq_q s) = 0"
  shows "cq_items s = [] \<or> call_count c = 0"
proof -
  note ch = ends_chain [OF inv]
  have empty: "cq_items s = []" if "pos v = pos (prod_tail (cq_q s))"
  proof -
    have "tail_pos s ProdEnd \<le> claimed s ConsEnd" using that v by (simp add: tail_pos_def)
    then show ?thesis by (simp add: cq_items_def)
  qed
  show ?thesis
  proof (cases c)
    case Pop
    then show ?thesis using r empty by (simp split: if_splits)
  next
    case (PopBulk n)
    then have "n = 0 \<or> pos (prod_tail (cq_q s)) - pos v = 0" using r by (auto simp: min_def split: if_splits)
    then show ?thesis using empty PopBulk by auto
  qed (use c in simp_all)
qed

definition claim_room :: "cq_end \<Rightarrow> 'a cq_pc \<Rightarrow> nat" where
  "claim_room e p = (case claim_of p of Some c \<Rightarrow> if ck_end c = e then unat (ck_len c) else 0 | None \<Rightarrow> 0)"

lemma block_length:
  assumes "cq_inv solo N s" "claim_of (cq_pc s t) = Some c"
  shows "length (ck_block (cq_in s) c) = unat (ck_len c)"
proof -
  have "ck_stop c \<le> length (cq_in s)"
    using claim_in [OF assms(1), of c] cq_invD(4) [OF assms] by (simp add: claim_ok_def)
  then show ?thesis by (simp add: ck_block_def ck_stop_def ck_start_def)
qed

lemma claim_room_le:
  assumes inv: "cq_inv solo N s"
  shows "claim_room ProdEnd (cq_pc s t) + claim_room ConsEnd (cq_pc s t) \<le> at_room (cq_status (cq_in s) (cq_pc s t))"
proof (cases "claim_of (cq_pc s t)")
  case (Some c)
  have bl: "length (ck_block (cq_in s) c) = unat (ck_len c)" by (rule block_length [OF inv Some])
  have "unat (ck_len c) \<le> length (call_xs (ck_call c))" if "ck_end c = ProdEnd"
  proof -
    have "take (unat (ck_len c)) (call_xs (ck_call c)) = ck_block (cq_in s) c"
      using cq_invD(4) [OF inv Some] that by (simp add: claim_ok_def ck_block_def)
    then have "length (take (unat (ck_len c)) (call_xs (ck_call c))) = unat (ck_len c)" using bl by simp
    then show ?thesis by simp
  qed
  then show ?thesis using bl Some by (cases "ck_end c") (simp_all add: claim_room_def cq_status_claim)
qed (simp add: claim_room_def)

lemma covered_sum:
  assumes inv: "cq_inv solo N s" and t: "claim_of (cq_pc s t) = None" and m: "cq_mode_at s e \<noteq> Rts"
  shows "claimed s e - tail_pos s e \<le> (\<Sum>u\<in>{..<N} - {t}. claim_room e (cq_pc s u))"
proof -
  define R where "R u = (case claim_of (cq_pc s u) of Some c \<Rightarrow> if ck_end c = e then {ck_start c..<ck_stop c} else {} | None \<Rightarrow> {})" for u
  have card: "card (R u) = claim_room e (cq_pc s u)" for u
    by (simp add: R_def claim_room_def ck_start_def ck_stop_def split: option.splits)
  have fin: "finite (R u)" for u by (simp add: R_def split: option.splits)
  have "{tail_pos s e..<claimed s e} \<subseteq> (\<Union>u\<in>{..<N} - {t}. R u)"
  proof
    fix n assume n: "n \<in> {tail_pos s e..<claimed s e}"
    have "covered s e" using cq_invD(7) [OF inv m] .
    then obtain u d where d: "claim_of (cq_pc s u) = Some d" "ck_end d = e" "ck_start d \<le> n" "n < ck_stop d"
      using n unfolding covered_def by auto
    have "u < N" using cq_invD(11) [OF inv, of u] d(1) by (cases "N \<le> u") auto
    moreover have "u \<noteq> t" using d(1) t by auto
    moreover have "n \<in> R u" using d by (simp add: R_def)
    ultimately show "n \<in> (\<Union>u\<in>{..<N} - {t}. R u)" by blast
  qed
  then have "card {tail_pos s e..<claimed s e} \<le> card (\<Union>u\<in>{..<N} - {t}. R u)"
    by (intro card_mono) (simp_all add: fin)
  also have "\<dots> \<le> (\<Sum>u\<in>{..<N} - {t}. card (R u))" by (rule card_UN_le) simp
  finally show ?thesis by (simp add: card)
qed

lemma full_sum:
  assumes inv: "cq_inv solo N s" and t: "claim_of (cq_pc s t) = None" and m: "\<And>e. cq_mode_at s e \<noteq> Rts"
    and full: "claimed s ProdEnd = tail_pos s ConsEnd + cq_cap s"
  shows "cq_cap s \<le> length (cq_items s) + (\<Sum>u\<in>{..<N} - {t}. at_room (cq_status (cq_in s) (cq_pc s u)))"
proof -
  let ?A = "{..<N} - {t}"
  have "(claimed s ProdEnd - tail_pos s ProdEnd) + (claimed s ConsEnd - tail_pos s ConsEnd)
      \<le> (\<Sum>u\<in>?A. claim_room ProdEnd (cq_pc s u)) + (\<Sum>u\<in>?A. claim_room ConsEnd (cq_pc s u))"
    by (intro add_mono covered_sum [OF inv t m])
  also have "\<dots> = (\<Sum>u\<in>?A. claim_room ProdEnd (cq_pc s u) + claim_room ConsEnd (cq_pc s u))"
    by (simp add: sum.distrib)
  also have "\<dots> \<le> (\<Sum>u\<in>?A. at_room (cq_status (cq_in s) (cq_pc s u)))"
    by (intro sum_mono claim_room_le [OF inv])
  finally show ?thesis using full ends_chain [OF inv] items_length [OF inv] by linarith
qed

section \<open>Simulation\<close>

lemma block_append:
  assumes "cq_inv solo N s" "claim_of (cq_pc s u) = Some c"
  shows "ck_block (cq_in s @ xs) c = ck_block (cq_in s) c"
proof -
  have "ck_stop c \<le> length (cq_in s)"
    using claim_in [OF assms(1), of c] cq_invD(4) [OF assms] by (simp add: claim_ok_def)
  then show ?thesis unfolding ck_block_def by (intro take_drop_append) (simp add: ck_start_def ck_stop_def)
qed

lemma status_append:
  assumes "cq_inv solo N s"
  shows "cq_status (cq_in s @ xs) (cq_pc s u) = cq_status (cq_in s) (cq_pc s u)"
proof (cases "claim_of (cq_pc s u)")
  case None
  then show ?thesis by (simp add: cq_status_def)
next
  case (Some c)
  then show ?thesis using block_append [OF assms Some] by (simp add: cq_status_claim)
qed

lemma abs_take:
  assumes inv: "cq_inv solo N s" and l: "unat (pos v) = claimed s (call_end c)" "claimed s (call_end c) + unat l \<le> limit s (call_end c)"
    and q: "tail_of ProdEnd q = tail_of ProdEnd (cq_q s)"
  shows "cq_abs (cq_take t c v l (s\<lparr>cq_q := q\<rparr>)) =
    (if call_end c = ProdEnd then (cq_abs s)\<lparr>at_status := (at_status (cq_abs s))(t := AtCalled c)\<rparr>
     else (cq_abs s)\<lparr>at_items := drop (unat l) (cq_items s), at_status := (at_status (cq_abs s))(t := AtTaken c (take (unat l) (cq_items s)))\<rparr>)"
proof -
  let ?S = "cq_take t c v l (s\<lparr>cq_q := q\<rparr>)"
  have st: "cq_status (cq_in ?S) (cq_pc ?S u) = (if u = t then cq_status (cq_in ?S) (CqWork (new_claim c v l)) else cq_status (cq_in s) (cq_pc s u))" for u
    using status_append [OF inv, of "take (unat l) (call_xs c)" u] by (simp add: cq_take_def)
  have tp: "tail_pos ?S ProdEnd = tail_pos s ProdEnd" using q by (simp add: cq_take_def tail_pos_def)
  have lg: "cq_log ?S = cq_log s" by (simp add: cq_take_def)
  show ?thesis
  proof (cases "call_end c")
    case ProdEnd
    have "cq_items ?S = cq_items s"
      using ends_chain [OF inv] ProdEnd tp by (simp add: cq_items_def) (simp add: cq_take_def claimed_def)
    then show ?thesis using ProdEnd lg by (simp add: cq_abs_def st fun_eq_iff cq_status_claim)
  next
    case ConsEnd
    then have xs: "call_xs c = []" by (cases c) simp_all
    have "cq_items ?S = drop (unat l) (cq_items s)"
      using ConsEnd tp xs by (simp add: cq_items_def) (simp add: cq_take_def claimed_def add.commute)
    moreover have "take (unat l) (cq_items s) = ck_block (cq_in ?S) (new_claim c v l)"
      using l ConsEnd by (simp add: cq_items_def ck_block_def cq_take_def xs drop_take min_def)
    ultimately show ?thesis using ConsEnd lg by (simp add: cq_abs_def st fun_eq_iff cq_status_claim)
  qed
qed

lemma step_take:
  assumes inv: "cq_inv solo N s" and t: "t < N" and l: "0 < unat l" "unat (pos v) = claimed s (call_end c)"
      "claimed s (call_end c) + unat l \<le> limit s (call_end c)" "unat l \<le> call_count c"
    and q: "tail_of ProdEnd q = tail_of ProdEnd (cq_q s)" and st: "cq_status (cq_in s) (cq_pc s t) \<in> {AtIdle, AtCalled c}"
  shows "(at_step cap N)\<^sup>*\<^sup>* (cq_abs s) (cq_abs (cq_take t c v l (s\<lparr>cq_q := q\<rparr>)))"
proof -
  let ?a = "(cq_abs s)\<lparr>at_status := (at_status (cq_abs s))(t := AtCalled c)\<rparr>"
  have 1: "(at_step cap N)\<^sup>*\<^sup>* (cq_abs s) ?a"
  proof (cases "cq_status (cq_in s) (cq_pc s t) = AtIdle")
    case True
    then show ?thesis by (intro r_into_rtranclp at_call) (simp_all add: t)
  next
    case False
    then have "?a = cq_abs s" using st by (auto simp: cq_abs_def fun_eq_iff)
    then show ?thesis by simp
  qed
  show ?thesis
  proof (cases "call_end c")
    case ProdEnd
    then show ?thesis using 1 abs_take [OF inv l(2,3) q, of t] by simp
  next
    case ConsEnd
    have ne: "unat l \<le> length (cq_items s)"
      using l(2,3) ConsEnd items_length [OF inv] by simp
    have "at_step cap N ?a (?a\<lparr>at_items := drop (unat l) (cq_items s), at_status := (at_status ?a)(t := AtTaken c (take (unat l) (cq_items s)))\<rparr>)"
      using l(1,4) ne ConsEnd by (intro at_take) (auto simp: t)
    then show ?thesis using 1 abs_take [OF inv l(2,3) q, of t] ConsEnd by (simp add: rtranclp.rtrancl_into_rtrancl)
  qed
qed

lemma step_refuse:
  assumes inv: "cq_inv solo N s" and t: "t < N" and b: "length (cq_in s) + cq_cap s < 2 ^ 32" and m: "\<And>e. cq_mode_at s e \<noteq> Rts"
    and r: "unat (pos v) \<le> claimed s (call_end c)" "call_room c v (cq_q s) = 0"
    and pc: "claim_of (cq_pc s t) = None" "cq_status (cq_in s) (cq_pc s t) \<in> {AtIdle, AtCalled c}"
  shows "(at_step (cq_cap s) N)\<^sup>*\<^sup>* (cq_abs s) (cq_abs (cq_return t (Refused c) s))"
proof -
  let ?a = "(cq_abs s)\<lparr>at_status := (at_status (cq_abs s))(t := AtCalled c)\<rparr>"
  have 1: "(at_step (cq_cap s) N)\<^sup>*\<^sup>* (cq_abs s) ?a"
  proof (cases "cq_status (cq_in s) (cq_pc s t) = AtIdle")
    case True
    then show ?thesis by (intro r_into_rtranclp at_call) (simp_all add: t)
  next
    case False
    then have "?a = cq_abs s" using pc(2) by (auto simp: cq_abs_def fun_eq_iff)
    then show ?thesis by simp
  qed
  have e: "at_finish t c [] ?a = cq_abs (cq_return t (Refused c) s)"
    using abs_return [where t = t and r = "Refused c" and s = s and q = "cq_q s"] by (simp add: at_finish_def)
  have "at_step (cq_cap s) N ?a (at_finish t c [] ?a)"
  proof (cases "call_end c")
    case ProdEnd
    have "(\<Sum>u\<in>{..<N} - {t}. at_room (at_status ?a u)) = (\<Sum>u\<in>{..<N} - {t}. at_room (cq_status (cq_in s) (cq_pc s u)))"
      by (rule sum.cong) simp_all
    then show ?thesis
      using refuse_full [OF inv b ProdEnd, of v] full_sum [OF inv pc(1) m] r ProdEnd t by (intro at_full) auto
  next
    case ConsEnd
    then show ?thesis using refuse_empty [OF inv ConsEnd, of v] r t by (intro at_empty) auto
  qed
  then show ?thesis using 1 e by (simp add: rtranclp.rtrancl_into_rtrancl)
qed

lemma step_publish:
  assumes inv: "cq_inv solo N s" "length (cq_in s) < 2 ^ 32" and t: "t < N" and pc: "cq_pc s t = CqAdd c w"
  shows "at_step (cq_cap s) N (cq_abs s) (cq_abs (cq_return t (Served c) (s\<lparr>cq_q := set_tail (ck_end c)
      ((tail_of (ck_end c) (cq_q s))\<lparr>pos := w + ck_len c\<rparr>) (cq_q s)\<rparr>)))"
    (is "at_step _ _ _ (cq_abs (cq_return t _ (s\<lparr>cq_q := ?q\<rparr>)))")
proof -
  note I = cq_invD [OF inv(1)] and ch = ends_chain [OF inv(1)]
  have c: "claim_of (cq_pc s t) = Some c" using pc by simp
  have ok: "claim_ok s c" by (rule I(4) [OF c])
  have p: "full_claim c" "ck_start c = tail_pos s (ck_end c)" "unat w = tail_pos s (ck_end c)"
    using I(9) [of t] pc by simp_all
  have len: "length (ck_done c) = unat (ck_len c)" using p(1) by (simp add: full_claim_def)
  have dn: "ck_done c = ck_block (cq_in s) c" using ok len by (simp add: claim_ok_def ck_block_def)
  show ?thesis
  proof (cases "ck_end c")
    case ProdEnd
    have le: "ck_stop c \<le> claimed s ProdEnd" using ok ProdEnd by (simp add: claim_ok_def)
    then have "ck_stop c < 2 ^ 32" using ch(5) inv(2) by simp
    then have tp: "tail_pos (s\<lparr>cq_q := ?q\<rparr>) ProdEnd = tail_pos s ProdEnd + unat (ck_len c)"
      using p(2,3) ProdEnd unat_add_less [of w "ck_len c"] by (simp add: ck_start_def ck_stop_def tail_pos_def)
    have "cq_items (s\<lparr>cq_q := ?q\<rparr>) = cq_items s @ ck_done c"
      using tp ch p(2) ProdEnd unfolding cq_items_def dn ck_block_def by (simp add: take_add)
    moreover have "at_status (cq_abs (s\<lparr>cq_q := ?q\<rparr>)) = at_status (cq_abs s)" by simp
    ultimately have e: "cq_abs (cq_return t (Served c) (s\<lparr>cq_q := ?q\<rparr>)) =
        at_finish t (ck_call c) (ck_done c) ((cq_abs s)\<lparr>at_items := at_items (cq_abs s) @ ck_done c\<rparr>)"
      unfolding abs_return by (simp add: at_finish_def cq_abs_def)
    have "length (cq_items s) + length (ck_done c) \<le> cq_cap s"
      using items_length [OF inv(1)] len le ch p(2) ProdEnd by (simp add: ck_stop_def ck_start_def)
    moreover have "\<exists>zs. call_xs (ck_call c) = ck_done c @ zs"
    proof -
      have "take (unat (ck_len c)) (call_xs (ck_call c)) = ck_done c"
        using ok ProdEnd by (simp add: dn claim_ok_def ck_block_def)
      then show ?thesis by (metis append_take_drop_id)
    qed
    moreover have "ck_done c \<noteq> []" using len ok by (auto simp: claim_ok_def ck_start_def ck_stop_def)
    ultimately show ?thesis
      unfolding e using c ProdEnd by (intro at_push) (simp_all add: t cq_status_claim ck_end_def)
  next
    case ConsEnd
    have "cq_items (s\<lparr>cq_q := ?q\<rparr>) = cq_items s" using ConsEnd by (simp add: cq_items_def tail_pos_def)
    then have e: "cq_abs (cq_return t (Served c) (s\<lparr>cq_q := ?q\<rparr>)) = at_finish t (ck_call c) (ck_done c) (cq_abs s)"
      unfolding abs_return by (simp add: at_finish_def cq_abs_def)
    show ?thesis
      unfolding e using c ConsEnd by (intro at_return) (simp_all add: t cq_status_claim dn)
  qed
qed

definition cq_strict :: "'a cq_state \<Rightarrow> bool" where
  "cq_strict s \<longleftrightarrow> (\<forall>e. cq_mode_at s e \<noteq> Rts)"

lemma step_abs:
  assumes step: "cq_thread solo t s s'" and t: "t < N" and inv: "cq_inv solo N s" and m: "cq_strict s"
    and b: "length (cq_in s') + cq_cap s < 2 ^ 32"
  shows "(at_step (cq_cap s) N)\<^sup>*\<^sup>* (cq_abs s) (cq_abs s')"
proof -
  have b': "length (cq_in s) + cq_cap s < 2 ^ 32" "length (cq_in s) < 2 ^ 32" using step_in_mono [OF step] b by auto
  have M: "mode_of e (cq_q s) \<noteq> Rts" for e using m by (simp add: cq_strict_def cq_mode_at_def)
  have M': "cq_mode_at s e \<noteq> Rts" for e using m by (simp add: cq_strict_def)
  note pc = cq_invD(9) [OF inv, of t]
  show ?thesis
    using step
  proof cases
    case (cq_call c)
    then show ?thesis
      unfolding cq_call(1) abs_call by (intro r_into_rtranclp) (use at_call [of t N "cq_abs s" "cq_cap s" c] t in auto)
  next
    case (cq_refuse c v)
    then show ?thesis using step_refuse [OF inv t b'(1) M', of v c] pc by simp
  next
    case (cq_test c v)
    then show ?thesis using abs_goto [of s _ t] by simp
  next
    case (cq_cas_default c v l g)
    then have pv: "unat (pos v) = claimed s (call_end c)"
      using head_claimed [OF inv, of "call_end c"] by (simp add: cq_mode_at_def)
    have l: "0 < unat l" "claimed s (call_end c) + unat l \<le> limit s (call_end c)" using pc cq_cas_default pv by simp_all
    have "unat l \<le> call_count c" using pc cq_cas_default(2) by simp
    then show ?thesis
      unfolding cq_cas_default(1) using cq_cas_default(2) by (intro step_take [OF inv t l(1) pv l(2)]) simp_all
  next
    case (cq_cas_fail c v l)
    then show ?thesis using abs_goto [of s _ t] by simp
  next
    case (cq_solo_refuse c)
    let ?v = "tail_of (call_end c) (cq_q s)"
    have "unat (pos ?v) \<le> claimed s (call_end c)"
      using cq_invD(3) [OF inv, of "call_end c"] by (simp add: ends_ok_def tail_pos_def)
    then show ?thesis using step_refuse [OF inv t b'(1) M', of ?v c] cq_solo_refuse by simp
  next
    case (cq_solo_take c)
    let ?v = "tail_of (call_end c) (cq_q s)"
    let ?l = "call_room c ?v (cq_q s)"
    have pv: "unat (pos ?v) = claimed s (call_end c)"
      using solo_idle_tail [OF inv cq_solo_take(4)] cq_solo_take(2,3) by (simp add: tail_pos_def cq_mode_at_def)
    have l: "0 < unat ?l" "claimed s (call_end c) + unat ?l \<le> limit s (call_end c)"
      using call_room_ok [OF inv pv] cq_solo_take(6) by (simp_all add: unat_gt_0)
    have "(at_step (cq_cap s) N)\<^sup>*\<^sup>* (cq_abs s) (cq_abs (cq_take t c ?v ?l (s\<lparr>cq_q := cq_q s\<rparr>)))"
      using cq_solo_take(2) room_count by (intro step_take [OF inv t l(1) pv l(2)]) simp_all
    then show ?thesis unfolding cq_solo_take(1) by simp
  next
    case (cq_work c x q)
    then have e: "tail_pos (s\<lparr>cq_q := q\<rparr>) ProdEnd = tail_pos s ProdEnd"
      using work_on_ok(1) [OF inv b'(2), of t c] by (auto simp: tail_pos_def)
    have "cq_status (cq_in s) (CqWork (c\<lparr>ck_done := ck_done c @ [x]\<rparr>)) = cq_status (cq_in s) (cq_pc s t)"
      using cq_work(2) by (simp add: cq_status_claim ck_block_def)
    then have "cq_abs s' = cq_abs s"
      using e unfolding cq_work(1) by (auto simp: cq_abs_def cq_items_def)
    then show ?thesis by simp
  next
    case (cq_work_ub c)
    then show ?thesis using work_on_ok(1) [OF inv b'(2), of t c] by simp
  next
    case (cq_done c)
    have "cq_status (cq_in s) (after_work (mode_of (call_end (ck_call c)) (cq_q s)) c) = cq_status (cq_in s) (cq_pc s t)"
      using cq_done(2) by (intro cq_status_cong) (simp_all add: after_work_def split: cq_mode.splits)
    then show ?thesis unfolding cq_done(1) by (simp add: abs_goto)
  next
    case (cq_turn c)
    have "cq_status (cq_in s) (CqTurn c) = cq_status (cq_in s) (cq_pc s t)"
      using cq_turn(2) by (intro cq_status_cong) simp_all
    then show ?thesis unfolding cq_turn(1) by (simp add: abs_goto)
  next
    case (cq_load c)
    have "cq_status (cq_in s) (CqAdd c w) = cq_status (cq_in s) (cq_pc s t)" for w
      using cq_load(2) by (intro cq_status_cong) simp_all
    then show ?thesis unfolding cq_load(1) by (simp add: abs_goto)
  next
    case (cq_store c w)
    show ?thesis
      unfolding cq_store(1) using step_publish [OF inv b'(2) t cq_store(2)] by (simp add: ck_end_def r_into_rtranclp)
  qed (use M M' pc in auto)
qed

end
