(* ===== verification/ConQueue_Conc_Runs.thy ===== *)
theory ConQueue_Conc_Runs
  imports ConQueue_Conc_Spec "HOL-Library.Multiset"
begin

text \<open>
  Runs of \<open>ConQueue\<close>: no run loses or duplicates an element; when all calls have returned the queue
  is one that a single caller could have left; an executable scheduler that produces runs; and
  a run of the relaxed mode that the specification does not have.
\<close>

section \<open>Conservation\<close>

text \<open>The elements of completed pops, and those claimed by pops under way.\<close>

fun ret_popped :: "'a cq_ret \<Rightarrow> 'a multiset" where
  "ret_popped (Served c) = (if ck_end c = ConsEnd then mset (ck_done c) else {#})"
| "ret_popped (Refused c) = {#}"

definition cq_popped :: "'a cq_state \<Rightarrow> 'a multiset" where
  "cq_popped s = (\<Sum>r\<leftarrow>cq_log s. ret_popped (snd r))"

definition pop_hand :: "'a list \<Rightarrow> 'a cq_pc \<Rightarrow> 'a multiset" where
  "pop_hand xs p = (case claim_of p of Some c \<Rightarrow> if ck_end c = ConsEnd then mset (ck_block xs c) else {#} | None \<Rightarrow> {#})"

definition cq_hands :: "nat \<Rightarrow> 'a cq_state \<Rightarrow> 'a multiset" where
  "cq_hands N s = (\<Sum>t<N. pop_hand (cq_in s) (cq_pc s t))"

definition cq_conserved :: "nat \<Rightarrow> 'a cq_state \<Rightarrow> bool" where
  "cq_conserved N s \<longleftrightarrow> mset (take (claimed s ConsEnd) (cq_in s)) = cq_popped s + cq_hands N s"

lemma pop_hand_append:
  assumes "cq_inv solo N s"
  shows "pop_hand (cq_in s @ xs) (cq_pc s u) = pop_hand (cq_in s) (cq_pc s u)"
proof (cases "claim_of (cq_pc s u)")
  case None
  then show ?thesis by (simp add: pop_hand_def)
next
  case (Some c)
  then show ?thesis using block_append [OF assms Some] by (simp add: pop_hand_def)
qed

lemma hands_upd:
  "t < N \<Longrightarrow> cq_pc s' = (cq_pc s)(t := p) \<Longrightarrow> cq_in s' = cq_in s \<Longrightarrow>
    cq_hands N s' + pop_hand (cq_in s) (cq_pc s t) = cq_hands N s + pop_hand (cq_in s) p"
  unfolding cq_hands_def by (simp only:) (rule sum_fun_upd; simp)

lemma conserved_same:
  assumes "cq_conserved N s" "t < N" "cq_pc s' = (cq_pc s)(t := p)" "cq_in s' = cq_in s" "cq_lens s' = cq_lens s"
    "cq_popped s' = cq_popped s" "pop_hand (cq_in s) p = pop_hand (cq_in s) (cq_pc s t)"
  shows "cq_conserved N s'"
  using hands_upd [OF assms(2,3,4)] assms(1,4-7) by (simp add: cq_conserved_def claimed_def)

lemma pop_hand_claim: "claim_of p = claim_of p' \<Longrightarrow> pop_hand xs p = pop_hand xs p'"
  by (simp add: pop_hand_def)

lemma conserved_goto:
  "cq_conserved N s \<Longrightarrow> t < N \<Longrightarrow> claim_of p = claim_of (cq_pc s t) \<Longrightarrow> cq_conserved N (cq_goto t p s)"
  using pop_hand_claim [of p "cq_pc s t" "cq_in s"]
  by (intro conserved_same [of N s t "cq_goto t p s" p]) (simp_all add: cq_popped_def)

lemma conserved_refuse:
  "cq_conserved N s \<Longrightarrow> t < N \<Longrightarrow> claim_of (cq_pc s t) = None \<Longrightarrow> cq_conserved N (cq_return t (Refused c) s)"
  by (rule conserved_same [of N s t "cq_return t (Refused c) s" CqIdle]) (simp_all add: cq_popped_def pop_hand_def cq_return_def)

lemma conserved_take:
  assumes inv: "cq_inv solo N s" and t: "t < N" and cons: "cq_conserved N s" and none: "claim_of (cq_pc s t) = None"
    and v: "unat (pos v) = claimed s (call_end c)" and l: "claimed s (call_end c) + unat l \<le> limit s (call_end c)"
  shows "cq_conserved N (cq_take t c v l (s\<lparr>cq_q := q\<rparr>))"
proof -
  let ?S = "cq_take t c v l (s\<lparr>cq_q := q\<rparr>)"
  let ?p = "CqWork (new_claim c v l)"
  have ins: "cq_in ?S = cq_in s @ take (unat l) (call_xs c)" and lg: "cq_popped ?S = cq_popped s"
    by (simp_all add: cq_take_def cq_popped_def)
  have "cq_hands N ?S = (\<Sum>u<N. pop_hand (cq_in ?S) (((cq_pc s)(t := ?p)) u))" by (simp add: cq_hands_def cq_take_def)
  moreover have "\<dots> + pop_hand (cq_in ?S) (cq_pc s t) = (\<Sum>u<N. pop_hand (cq_in ?S) (cq_pc s u)) + pop_hand (cq_in ?S) ?p"
    by (rule sum_fun_upd) (use t in simp_all)
  moreover have "(\<Sum>u<N. pop_hand (cq_in ?S) (cq_pc s u)) = cq_hands N s"
    unfolding cq_hands_def ins pop_hand_append [OF inv] ..
  moreover have "pop_hand (cq_in ?S) (cq_pc s t) = {#}" using none by (simp add: pop_hand_def)
  ultimately have h: "cq_hands N ?S = cq_hands N s + pop_hand (cq_in ?S) ?p" by simp
  show ?thesis
  proof (cases "call_end c")
    case ProdEnd
    then have "claimed ?S ConsEnd = claimed s ConsEnd" by (simp add: cq_take_def claimed_def)
    then show ?thesis
      using cons h ends_chain [OF inv] ProdEnd lg by (simp add: cq_conserved_def ins pop_hand_def)
  next
    case ConsEnd
    then have xs: "call_xs c = []" by (cases c) simp_all
    have "claimed ?S ConsEnd = claimed s ConsEnd + unat l" using ConsEnd by (simp add: cq_take_def claimed_def)
    then show ?thesis
      using cons h v ConsEnd lg by (simp add: cq_conserved_def ins pop_hand_def xs take_add ck_block_def)
  qed
qed

lemma conserved_serve:
  assumes inv: "cq_inv solo N s" and t: "t < N" and cons: "cq_conserved N s"
    and c: "claim_of (cq_pc s t) = Some c" "full_claim c"
  shows "cq_conserved N (cq_return t (Served c) (s\<lparr>cq_q := q\<rparr>))"
proof -
  let ?S = "cq_return t (Served c) (s\<lparr>cq_q := q\<rparr>)"
  have "claim_ok s c" by (rule cq_invD(4) [OF inv c(1)])
  then have "ck_done c = ck_block (cq_in s) c" using c(2) by (simp add: claim_ok_def full_claim_def ck_block_def)
  then have h: "pop_hand (cq_in s) (cq_pc s t) = ret_popped (Served c)" using c(1) by (simp add: pop_hand_def)
  have "cq_hands N ?S + pop_hand (cq_in s) (cq_pc s t) = cq_hands N s"
    using hands_upd [OF t, of ?S s CqIdle] by (simp add: cq_return_def pop_hand_def)
  moreover have "cq_popped ?S = cq_popped s + ret_popped (Served c)" by (simp add: cq_popped_def cq_return_def)
  moreover have "claimed ?S ConsEnd = claimed s ConsEnd" "cq_in ?S = cq_in s" by (simp_all add: cq_return_def claimed_def)
  ultimately show ?thesis using cons unfolding cq_conserved_def h by (simp add: ac_simps)
qed

lemma step_conserved:
  assumes step: "cq_thread solo t s s'" and t: "t < N" and inv: "cq_inv solo N s" and cons: "cq_conserved N s"
    and b: "length (cq_in s) < 2 ^ 32"
  shows "cq_conserved N s'"
proof -
  note pc = cq_invD(9) [OF inv, of t]
  show ?thesis
    using step
  proof cases
    case (cq_cas_default c v l g)
    then have pv: "unat (pos v) = claimed s (call_end c)"
      using head_claimed [OF inv, of "call_end c"] by (simp add: cq_mode_at_def)
    then show ?thesis unfolding cq_cas_default(1) using pc cq_cas_default(2) by (intro conserved_take [OF inv t cons]) simp_all
  next
    case (cq_cas_rts c v l)
    then have pv: "unat (pos v) = claimed s (call_end c)"
      using head_claimed [OF inv, of "call_end c"] by (simp add: cq_mode_at_def)
    then show ?thesis unfolding cq_cas_rts(1) using pc cq_cas_rts(2) by (intro conserved_take [OF inv t cons]) simp_all
  next
    case (cq_solo_take c)
    let ?v = "tail_of (call_end c) (cq_q s)"
    have pv: "unat (pos ?v) = claimed s (call_end c)"
      using solo_idle_tail [OF inv cq_solo_take(4)] cq_solo_take(2,3) by (simp add: tail_pos_def cq_mode_at_def)
    have "claimed s (call_end c) + unat (call_room c ?v (cq_q s)) \<le> limit s (call_end c)"
      by (rule call_room_ok [OF inv pv cq_solo_take(6)])
    then show ?thesis
      unfolding cq_solo_take(1) using conserved_take [OF inv t cons _ pv, of _ "cq_q s"] cq_solo_take(2) by simp
  next
    case (cq_work c x q)
    then show ?thesis
      by (intro conserved_same [OF cons t, of _ "CqWork (c\<lparr>ck_done := ck_done c @ [x]\<rparr>)"])
        (simp_all add: cq_popped_def pop_hand_def ck_block_def)
  next
    case (cq_work_ub c)
    then show ?thesis using work_on_ok(1) [OF inv b, of t c] by simp
  next
    case (cq_done c)
    then show ?thesis using conserved_goto [OF cons t] by (simp add: after_work_def split: cq_mode.splits)
  next
    case (cq_wait c)
    then show ?thesis using cons by simp
  next
    case (cq_store c w)
    then show ?thesis using conserved_serve [OF inv t cons, of c] pc by simp
  next
    case (cq_rts_set c v h)
    then show ?thesis using conserved_serve [OF inv t cons, of c] pc by simp
  qed (use conserved_goto [OF cons t] conserved_refuse [OF cons t] in auto)
qed

lemma step_cfg: "cq_thread solo t s s' \<Longrightarrow> conq_cfg (cq_q s') = conq_cfg (cq_q s)"
proof (induction rule: cq_thread.induct)
  case (cq_work s c x q)
  then show ?case
    by (auto simp: work_on_def construct_at_def move_destroy_at_def conq_cfg_def Let_def run_bind_Ret_iff
        split: cq_end.splits if_splits option.splits)
qed (simp_all add: cq_return_def cq_take_def)

lemma cq_reach:
  assumes "cq_fresh q" "cq_init q s0" "(cq_step solo N)\<^sup>*\<^sup>* s0 s" "length (cq_in s) < 2 ^ 32"
  shows "cq_inv solo N s \<and> cq_conserved N s \<and> conq_cfg (cq_q s) = conq_cfg q"
  using assms(3,4)
proof (induction rule: rtranclp_induct)
  case base
  have "cq_conserved N s0" using assms(2)
    by (simp add: cq_init_def cq_conserved_def cq_popped_def cq_hands_def pop_hand_def)
  then show ?case using cq_inv_init [OF assms(1,2)] assms(2) by (simp add: cq_init_def)
next
  case (step s s')
  obtain t where t: "t < N" "cq_thread solo t s s'" using step.hyps(2) by (auto simp: cq_step_def)
  obtain xs where "cq_in s' = cq_in s @ xs" using step_in_mono [OF t(2)] by blast
  then have b: "length (cq_in s) < 2 ^ 32" using step.prems by simp
  have IH: "cq_inv solo N s" "cq_conserved N s" "conq_cfg (cq_q s) = conq_cfg q" using step.IH [OF b] by simp_all
  show ?case
    using cq_thread_inv [OF t(2,1) IH(1) step.prems] step_conserved [OF t(2,1) IH(1,2) b] step_cfg [OF t(2)] IH(3) by simp
qed

section \<open>Schedules\<close>

text \<open>An executable scheduler: thread \<open>t\<close> begins a call, or makes its next step (exchanges succeed
  when they can, with 0 for the uninitialised half).\<close>

definition go_cas :: "nat \<Rightarrow> 'a cq_call \<Rightarrow> po_val \<Rightarrow> u32 \<Rightarrow> 'a cq_state \<Rightarrow> 'a cq_state" where
  "go_cas t c v l s =
     (if head_of (call_end c) (cq_q s) = v \<and> mode_of (call_end c) (cq_q s) = Default
      then cq_take t c v l (s\<lparr>cq_q := set_head (call_end c) (mp_head 0 v l) (cq_q s)\<rparr>)
      else if head_of (call_end c) (cq_q s) = v \<and> mode_of (call_end c) (cq_q s) = Rts
      then cq_take t c v l (s\<lparr>cq_q := set_head (call_end c) (rts_head v l) (cq_q s)\<rparr>)
      else cq_goto t (CqTest c (head_of (call_end c) (cq_q s))) s)"

definition go_work :: "nat \<Rightarrow> 'a cq_claim \<Rightarrow> 'a cq_state \<Rightarrow> 'a cq_state option" where
  "go_work t c s =
     (if length (ck_done c) < unat (ck_len c)
      then case work_on c (cq_q s) of
          Ret (x, q) \<Rightarrow> Some (cq_goto t (CqWork (c\<lparr>ck_done := ck_done c @ [x]\<rparr>)) (s\<lparr>cq_q := q\<rparr>))
        | _ \<Rightarrow> Some (s\<lparr>cq_ub := True\<rparr>)
      else if length (ck_done c) = unat (ck_len c)
      then Some (cq_goto t (after_work (mode_of (call_end (ck_call c)) (cq_q s)) c) s)
      else None)"

fun cq_go :: "nat \<Rightarrow> 'a cq_pc \<Rightarrow> 'a cq_state \<Rightarrow> 'a cq_state option" where
  "cq_go t CqIdle s = None"
| "cq_go t (CqTest c v) s = Some (if call_room c v (cq_q s) = 0 then cq_return t (Refused c) s
     else cq_goto t (CqCas c v (call_room c v (cq_q s))) s)"
| "cq_go t (CqCas c v l) s = Some (go_cas t c v l s)"
| "cq_go t (CqWork c) s = go_work t c s"
| "cq_go t (CqWait c) s = Some (if pos (tail_of (call_end (ck_call c)) (cq_q s)) = ck_pos c then cq_goto t (CqTurn c) s else s)"
| "cq_go t (CqTurn c) s = Some (cq_goto t (CqAdd c (pos (tail_of (call_end (ck_call c)) (cq_q s)))) s)"
| "cq_go t (CqAdd c w) s = Some (cq_return t (Served c)
      (s\<lparr>cq_q := set_tail (call_end (ck_call c)) ((tail_of (call_end (ck_call c)) (cq_q s))\<lparr>pos := w + ck_len c\<rparr>) (cq_q s)\<rparr>))"
| "cq_go t (CqTail c) s = Some (cq_goto t (CqHead c (tail_of (call_end (ck_call c)) (cq_q s))) s)"
| "cq_go t (CqHead c v) s = Some (cq_goto t (CqSet c v (head_of (call_end (ck_call c)) (cq_q s))) s)"
| "cq_go t (CqSet c v h) s = Some (if tail_of (call_end (ck_call c)) (cq_q s) = v
     then cq_return t (Served c) (s\<lparr>cq_q := set_tail (call_end (ck_call c)) (rts_next h v) (cq_q s)\<rparr>)
     else cq_goto t (CqHead c (tail_of (call_end (ck_call c)) (cq_q s))) s)"

datatype 'a cq_move = Begin nat "'a cq_call" | Go nat

fun cq_act :: "nat \<Rightarrow> 'a cq_move \<Rightarrow> 'a cq_state \<Rightarrow> 'a cq_state option" where
  "cq_act N (Begin t c) s = (case cq_pc s t of
     CqIdle \<Rightarrow> if t < N \<and> mode_of (call_end c) (cq_q s) \<noteq> Single
       then Some (cq_goto t (CqTest c (head_of (call_end c) (cq_q s))) s) else None
   | _ \<Rightarrow> None)"
| "cq_act N (Go t) s = (if t < N then cq_go t (cq_pc s t) s else None)"

fun cq_run :: "nat \<Rightarrow> 'a cq_move list \<Rightarrow> 'a cq_state \<Rightarrow> 'a cq_state option" where
  "cq_run N [] s = Some s"
| "cq_run N (a # as) s = (case cq_act N a s of Some s \<Rightarrow> cq_run N as s | None \<Rightarrow> None)"

lemma go_cas_step: "cq_pc s t = CqCas c v l \<Longrightarrow> cq_thread solo t s (go_cas t c v l s)"
  by (auto simp: go_cas_def intro: cq_cas_default cq_cas_rts cq_cas_fail)

lemma go_work_step: "cq_pc s t = CqWork c \<Longrightarrow> go_work t c s = Some s' \<Longrightarrow> cq_thread solo t s s'"
  using cq_work [of s t c _ _ solo] cq_work_ub [of s t c solo] cq_done [of s t c solo]
  by (auto simp: go_work_def split: run.splits if_splits)

lemma cq_go_step: "cq_go t (cq_pc s t) s = Some s' \<Longrightarrow> cq_thread solo t s s'"
proof (cases "cq_pc s t")
  case (CqTest c v)
  then show "cq_go t (cq_pc s t) s = Some s' \<Longrightarrow> ?thesis" by (auto intro: cq_refuse cq_test)
next
  case (CqCas c v l)
  then show "cq_go t (cq_pc s t) s = Some s' \<Longrightarrow> ?thesis" using go_cas_step [OF CqCas] by auto
next
  case (CqWork c)
  then show "cq_go t (cq_pc s t) s = Some s' \<Longrightarrow> ?thesis" using go_work_step [OF CqWork] by auto
next
  case (CqWait c)
  then show "cq_go t (cq_pc s t) s = Some s' \<Longrightarrow> ?thesis" by (auto intro: cq_wait cq_turn split: if_splits)
next
  case (CqSet c v h)
  then show "cq_go t (cq_pc s t) s = Some s' \<Longrightarrow> ?thesis" by (auto intro: cq_rts_set cq_rts_fail split: if_splits)
qed (auto intro: cq_load cq_store cq_rts_load cq_rts_head)

lemma cq_run_steps: "cq_run N as s = Some s' \<Longrightarrow> (cq_step solo N)\<^sup>*\<^sup>* s s'"
proof (induction as arbitrary: s)
  case (Cons a as)
  then obtain s1 where s1: "cq_act N a s = Some s1" "cq_run N as s1 = Some s'" by (auto split: option.splits)
  have "cq_step solo N s s1"
  proof (cases a)
    case (Begin t c)
    then show ?thesis using s1(1) by (auto simp: cq_step_def intro!: exI [of _ t] intro: cq_call split: cq_pc.splits if_splits)
  next
    case (Go t)
    then show ?thesis using s1(1) by (auto simp: cq_step_def intro!: exI [of _ t] intro: cq_go_step split: if_splits)
  qed
  then show ?case using Cons.IH [OF s1(2)] by (rule converse_rtranclp_into_rtranclp)
qed simp

definition cq_start :: "'a conqueue \<Rightarrow> 'a cq_state" where
  "cq_start q = \<lparr>cq_q = q, cq_pc = (\<lambda>_. CqIdle), cq_in = [], cq_lens = (\<lambda>_. []), cq_log = [], cq_ub = False\<rparr>"

lemma cq_init_start: "cq_init q (cq_start q)"
  by (simp add: cq_init_def cq_start_def)

text \<open>Two pushes, one of two elements, and two pops by two threads in default mode.\<close>

definition mixed_schedule :: "nat cq_move list" where
  "mixed_schedule = [Begin 0 (Emplace 5), Go 0, Begin 1 (PushBulk [6, 7]), Go 1, Go 1] @ replicate 6 (Go 0) @ replicate 6 (Go 1) @
     replicate 3 (Go 0) @ [Begin 0 Pop] @ replicate 2 (Go 0) @ [Begin 1 (PopBulk 5)] @ replicate 8 (Go 1) @ replicate 5 (Go 0) @ replicate 3 (Go 1)"

definition small_queue :: "u32 \<Rightarrow> nat conqueue" where
  "small_queue fl = (case conq_ctor_alloc 4 fl of Ret q \<Rightarrow> q | _ \<Rightarrow> undefined)"

section \<open>Quiescent states\<close>

lemma quiet_tail:
  assumes inv: "cq_inv solo N s" and idle: "\<And>t. claim_of (cq_pc s t) = None"
  shows "tail_pos s e = claimed s e" "cq_mode_at s e = Rts \<Longrightarrow> cnt (head_of e (cq_q s)) = cnt (tail_of e (cq_q s))"
proof -
  have none: "\<not> at_claim e (cq_pc s t)" for t using idle by (simp add: at_claim_def)
  have "under_way N s e = 0" unfolding under_way_def threads_in_0 using none by blast
  then have r: "tail_cnt s e = length (cq_lens s e) \<and> unat (cnt (head_of e (cq_q s))) = length (cq_lens s e) \<and> tail_pos s e = claimed s e"
    if "cq_mode_at s e = Rts" using cq_invD(8) [OF inv that] by (simp add: rts_ok_def)
  show "cnt (head_of e (cq_q s)) = cnt (tail_of e (cq_q s))" if "cq_mode_at s e = Rts"
    using r [OF that] by (simp add: tail_cnt_def word_unat_eq_iff)
  show "tail_pos s e = claimed s e"
  proof (cases "cq_mode_at s e = Rts")
    case True
    then show ?thesis using r by simp
  next
    case False
    have "tail_pos s e \<le> claimed s e" using cq_invD(3) [OF inv, of e] by (simp add: ends_ok_def)
    moreover have "\<not> tail_pos s e < claimed s e"
      using cq_invD(7) [OF inv False] idle unfolding covered_def by (metis le_refl option.distinct(1))
    ultimately show ?thesis by simp
  qed
qed

lemma tail_word: "pos (tail_of e (cq_q s)) = of_nat (tail_pos s e)"
  by (simp add: tail_pos_def)

lemma quiet_rel:
  assumes inv: "cq_inv solo N s" and idle: "\<And>t. claim_of (cq_pc s t) = None"
  shows "conq_rel (cq_q s) (drop (claimed s ConsEnd) (cq_in s))"
proof -
  let ?xs = "drop (claimed s ConsEnd) (cq_in s)"
  note T = quiet_tail [OF inv idle] and ch = ends_chain [OF inv]
  have live: "live s = {claimed s ConsEnd..<claimed s ProdEnd}"
    using idle by (auto simp: live_def ready_def undone_def undone_of_def)
  have cell: "conq_slot (cq_q s) (pos (cons_tail (cq_q s)) + of_nat i) = cq_cell s (claimed s ConsEnd + i)" for i
    using tail_word [of ConsEnd s] T(1) [of ConsEnd] by (simp add: cq_cell_def)
  have C: "cells_ok s" by (rule cq_invD(10) [OF inv])
  have "ring_holds (conq_slot (cq_q s)) (ring (cq_q s)) (pos (cons_tail (cq_q s))) ?xs"
    unfolding ring_holds_def cell
  proof (intro conjI allI impI)
    fix i assume i: "i < length ?xs"
    then have "claimed s ConsEnd + i \<in> live s" using live ch(5) by simp
    then show "ring (cq_q s) (cq_cell s (claimed s ConsEnd + i)) = Some (?xs ! i)"
      using C i by (simp add: cells_ok_def)
  next
    fix k assume k: "k \<notin> window_cells (conq_slot (cq_q s)) (length ?xs) (pos (cons_tail (cq_q s)))"
    show "ring (cq_q s) k = None"
    proof (rule ccontr)
      assume "ring (cq_q s) k \<noteq> None"
      then obtain n where n: "n \<in> live s" "cq_cell s n = k" using C unfolding cells_ok_def by blast
      then have "n - claimed s ConsEnd < length ?xs" "claimed s ConsEnd + (n - claimed s ConsEnd) = n"
        using live ch(5) by auto
      then have "k \<in> window_cells (conq_slot (cq_q s)) (length ?xs) (pos (cons_tail (cq_q s)))"
        unfolding window_cells_def using cell [of "n - claimed s ConsEnd"] n(2) by (intro image_eqI) auto
      then show False using k by simp
    qed
  qed
  moreover have "length ?xs \<le> unat (max_size (cq_q s))" using ch T(1) [of ConsEnd] by (simp add: cq_cap_def)
  moreover have "pos (prod_tail (cq_q s)) = pos (cons_tail (cq_q s)) + of_nat (length ?xs)"
    using tail_word [of ConsEnd s] tail_word [of ProdEnd s] T(1) [of ConsEnd] T(1) [of ProdEnd] ch by (simp flip: of_nat_add)
  moreover have hd: "pos (head_of e (cq_q s)) = pos (tail_of e (cq_q s))" if "cq_mode_at s e \<noteq> Single" for e
    using head_claimed [OF inv that] T(1) [of e] by (simp add: tail_pos_def word_unat_eq_iff)
  ultimately show ?thesis
    using T(2) [of ProdEnd] T(2) [of ConsEnd] hd [of ProdEnd] hd [of ConsEnd]
    by (simp add: conq_rel_def cq_mode_at_def split: if_splits)
qed

section \<open>The relaxed mode is not atomic\<close>

text \<open>Thread 0 has claimed a position; thread 1 pushes and then pops.\<close>

definition relaxed_schedule :: "nat cq_move list" where
  "relaxed_schedule = [Begin 0 (Emplace 5), Go 0, Go 0, Begin 1 (Emplace 6)] @ replicate 7 (Go 1) @ [Begin 1 Pop, Go 1]"

definition relaxed_log :: "(nat \<times> nat cq_call \<times> nat list) list" where
  "relaxed_log = [(1, Emplace 6, [6]), (1, Pop, [])]"

fun at_hand :: "'a at_status \<Rightarrow> 'a multiset" where
  "at_hand (AtTaken c ys) = mset ys"
| "at_hand _ = {#}"

definition log_in :: "(nat \<times> 'a cq_call \<times> 'a list) list \<Rightarrow> 'a multiset" where
  "log_in lg = (\<Sum>(t, c, ys)\<leftarrow>lg. if call_end c = ProdEnd then mset ys else {#})"

definition log_out :: "(nat \<times> 'a cq_call \<times> 'a list) list \<Rightarrow> 'a multiset" where
  "log_out lg = (\<Sum>(t, c, ys)\<leftarrow>lg. if call_end c = ConsEnd then mset ys else {#})"

definition at_conserved :: "nat \<Rightarrow> 'a at_queue \<Rightarrow> bool" where
  "at_conserved N a \<longleftrightarrow> log_in (at_log a) = log_out (at_log a) + (\<Sum>t<N. at_hand (at_status a t)) + mset (at_items a) \<and>
     (\<forall>t c ys. at_status a t = AtTaken c ys \<longrightarrow> call_end c = ConsEnd \<and> ys \<noteq> [])"

lemma at_hands_upd: "t < (N :: nat) \<Longrightarrow>
    (\<Sum>u<N. at_hand ((st(t := x)) u)) + at_hand (st t) = (\<Sum>u<N. at_hand (st u)) + at_hand x"
  using sum_fun_upd [of "{..<N}" t at_hand st x] by simp

lemma at_step_conserved: "at_step cap N a b \<Longrightarrow> at_conserved N a \<Longrightarrow> at_conserved N b"
proof (induction rule: at_step.induct)
  case (at_call t a c)
  then show ?case using at_hands_upd [of t N "at_status a" "AtCalled c"] by (simp add: at_conserved_def)
next
  case (at_push t a c ys)
  then show ?case using at_hands_upd [of t N "at_status a" AtIdle]
    by (simp add: at_conserved_def at_finish_def log_in_def log_out_def ac_simps)
next
  case (at_full t a c)
  then show ?case using at_hands_upd [of t N "at_status a" AtIdle]
    by (simp add: at_conserved_def at_finish_def log_in_def log_out_def)
next
  case (at_take t a c ys zs)
  then show ?case using at_hands_upd [of t N "at_status a" "AtTaken c ys"]
    by (simp add: at_conserved_def ac_simps)
next
  case (at_empty t a c)
  then show ?case using at_hands_upd [of t N "at_status a" AtIdle]
    by (simp add: at_conserved_def at_finish_def log_in_def log_out_def)
next
  case (at_return t a c ys)
  then have "call_end c = ConsEnd" unfolding at_conserved_def by metis
  then show ?case using at_return at_hands_upd [of t N "at_status a" AtIdle]
    by (simp add: at_conserved_def at_finish_def log_in_def log_out_def ac_simps)
qed

text \<open>In the specification this log means that thread 0 has taken the element.\<close>

lemma at_step_relaxed:
  assumes "at_step cap 2 a b" "at_conserved 2 a" "at_log a = relaxed_log \<longrightarrow> (\<exists>c ys. at_status a 0 = AtTaken c ys)"
    "at_log b = relaxed_log"
  shows "\<exists>c ys. at_status b 0 = AtTaken c ys"
  using assms(1)
proof cases
  case (at_empty t c)
  then have e: "t = 1" "c = Pop" "at_log a = [(1, Emplace 6, [6])]"
    using assms(4) by (auto simp: at_finish_def relaxed_log_def)
  then have "at_items a = []" "at_status a 1 = AtCalled Pop" using at_empty by simp_all
  then have "at_hand (at_status a 0) \<noteq> {#}"
    using assms(2) e(3) by (auto simp: at_conserved_def log_in_def log_out_def numeral_2_eq_2 dest: sym)
  then show ?thesis using at_empty(1) e(1) by (cases "at_status a 0") (auto simp: at_finish_def)
next
  case (at_call t c)
  then show ?thesis using assms(3,4) by (cases "t = 0") auto
next
  case (at_take t c ys zs)
  then show ?thesis using assms(3,4) by (cases "t = 0") auto
next
  case (at_return t c ys)
  then have "ys \<noteq> []" using assms(2) unfolding at_conserved_def by metis
  then show ?thesis using at_return assms(4) by (auto simp: at_finish_def relaxed_log_def)
qed (use assms(4) in \<open>auto simp: at_finish_def relaxed_log_def\<close>)

lemma at_reach_relaxed:
  assumes "(at_step cap 2)\<^sup>*\<^sup>* at_init a"
  shows "at_conserved 2 a \<and> (at_log a = relaxed_log \<longrightarrow> (\<exists>c ys. at_status a 0 = AtTaken c ys))"
  using assms
proof (induction rule: rtranclp_induct)
  case base
  then show ?case by (simp add: at_conserved_def at_init_def log_in_def log_out_def relaxed_log_def)
next
  case (step a b)
  then show ?case using at_step_conserved at_step_relaxed by blast
qed

lemma relaxed_run:
  "\<exists>s. cq_run 2 relaxed_schedule (cq_start (small_queue F_MP_RTS_ENQ)) = Some s \<and>
     map cq_response (cq_log s) = relaxed_log \<and> cq_status (cq_in s) (cq_pc s 0) = AtCalled (Emplace 5)"
proof -
  have "map_option (\<lambda>s. (map cq_response (cq_log s), cq_status (cq_in s) (cq_pc s 0)))
      (cq_run 2 relaxed_schedule (cq_start (small_queue F_MP_RTS_ENQ))) = Some (relaxed_log, AtCalled (Emplace 5))"
    by code_simp
  then show ?thesis by (cases "cq_run 2 relaxed_schedule (cq_start (small_queue F_MP_RTS_ENQ))") auto
qed

end
