(* ===== verification/ConQueue_Conc_Properties.thy ===== *)
theory ConQueue_Conc_Properties
  imports ConQueue_Conc_Runs ConQueue_Contract
begin

text \<open>The properties of \<open>ConQueue\<close> used by several threads.\<close>

section \<open>Reachable states\<close>

lemma modes_strict:
  assumes "conq_cfg (cq_q s) = conq_cfg q" "flags q = conq_default_flags fl"
    "\<not> has_flag fl F_MP_RTS_ENQ" "\<not> has_flag fl F_MC_RTS_DEQ"
  shows "cq_strict s"
proof -
  have f: "flags (cq_q s) = conq_default_flags fl" using assms(1,2) by (simp add: conq_cfg_def)
  have "mode_of ProdEnd (cq_q s) \<noteq> Rts" "mode_of ConsEnd (cq_q s) \<noteq> Rts"
    using default_flags_has [of fl] assms(3,4) f by auto
  then show ?thesis unfolding cq_strict_def cq_mode_at_def all_ends by blast
qed

lemma reach_abs:
  fixes q :: "'a conqueue"
  assumes q: "cq_fresh q" "cq_init q s0" and run: "(cq_step solo N)\<^sup>*\<^sup>* s0 s"
    and b: "length (cq_in s) + unat (max_size q) < 2 ^ 32"
    and strict: "\<And>s :: 'a cq_state. conq_cfg (cq_q s) = conq_cfg q \<Longrightarrow> cq_strict s"
  shows "(at_step (unat (max_size q)) N)\<^sup>*\<^sup>* at_init (cq_abs s)"
  using run b
proof (induction rule: rtranclp_induct)
  case base
  then show ?case using cq_abs_init [OF q(2)] by simp
next
  case (step s s')
  obtain t where t: "t < N" "cq_thread solo t s s'" using step.hyps(2) by (auto simp: cq_step_def)
  obtain xs where "cq_in s' = cq_in s @ xs" using step_in_mono [OF t(2)] by blast
  then have b': "length (cq_in s) + unat (max_size q) < 2 ^ 32" using step.prems by simp
  then have "length (cq_in s) < 2 ^ 32" by simp
  note R = cq_reach [OF q step.hyps(1) this]
  have cap: "cq_cap s = unat (max_size q)" using R by (simp add: cq_cap_def conq_cfg_def)
  have "(at_step (unat (max_size q)) N)\<^sup>*\<^sup>* (cq_abs s) (cq_abs s')"
    using step_abs [OF t(2,1)] R strict [of s] step.prems cap by simp
  then show ?case using step.IH [OF b'] by simp
qed

section \<open>Properties\<close>

text \<open>Property C2: a \<open>ConQueue\<close> of any size up to \<open>2^31\<close>, single or default at either end and used by
  any number of threads at once (\<open>push\<close>, \<open>push_bulk\<close>, \<open>pop\<close> and the multi-consumer \<open>pop_bulk\<close>), behaves as an atomic bounded queue: every interleaving of the threads' accesses
  maps to steps of the specification, where each call acts on one list at one moment between its start
  and its return, and with the same calls and results (as long as the elements pushed so far and the
  capacity together stay below \<open>2^32\<close>).\<close>

theorem conq_conc_linearizable:
  assumes "conq_ctor_alloc m fl = Ret q" "unat m \<le> 2 ^ 31"
    and "\<not> has_flag fl F_MP_RTS_ENQ" "\<not> has_flag fl F_MC_RTS_DEQ"
    and "cq_init q s0" "(cq_step solo N)\<^sup>*\<^sup>* s0 s" "length (cq_in s) + unat m < 2 ^ 32"
  shows "(at_step (unat m) N)\<^sup>*\<^sup>* at_init (cq_abs s)"
proof -
  note F = ctor_fresh [OF assms(1,2)]
  have "(at_step (unat (max_size q)) N)\<^sup>*\<^sup>* at_init (cq_abs s)"
    by (rule reach_abs [OF F(1) assms(5,6) _ modes_strict [OF _ F(3) assms(3,4)]]) (use assms(7) F(2) in simp)
  then show ?thesis by (simp add: F(2))
qed

lemma mixed_run:
  obtains s where "cq_run 2 mixed_schedule (cq_start (small_queue 0)) = Some s" "cq_in s = [6, 7, 5]"
    "map cq_response (cq_log s) = [(1, PushBulk [6, 7], [6, 7]), (0, Emplace 5, [5]), (0, Pop, [6]), (1, PopBulk 5, [7, 5])]"
    "cq_popped s = {#6, 7, 5#}" "cq_pc s 0 = CqIdle" "cq_pc s 1 = CqIdle"
proof -
  have "map_option (\<lambda>s. (map cq_response (cq_log s), cq_in s, cq_pc s 0, cq_pc s 1))
      (cq_run 2 mixed_schedule (cq_start (small_queue 0))) =
    Some ([(1, PushBulk [6, 7], [6, 7]), (0, Emplace 5, [5]), (0, Pop, [6]), (1, PopBulk 5, [7, 5])], [6, 7, 5], CqIdle, CqIdle)"
    by code_simp
  then obtain s where s: "cq_run 2 mixed_schedule (cq_start (small_queue 0)) = Some s" "cq_in s = [6, 7, 5]"
    "map cq_response (cq_log s) = [(1, PushBulk [6, 7], [6, 7]), (0, Emplace 5, [5]), (0, Pop, [6]), (1, PopBulk 5, [7, 5])]"
    "cq_pc s 0 = CqIdle" "cq_pc s 1 = CqIdle"
    by (cases "cq_run 2 mixed_schedule (cq_start (small_queue 0))") auto
  have p: "ret_popped (snd r) = (case cq_response r of (t, c, ys) \<Rightarrow> if call_end c = ConsEnd then mset ys else {#})" for r :: "nat \<times> nat cq_ret"
    by (cases r rule: cq_response.cases) (simp_all add: ck_end_def)
  have "cq_popped s = (\<Sum>r\<leftarrow>map cq_response (cq_log s). case r of (t, c, ys) \<Rightarrow> if call_end c = ConsEnd then mset ys else {#})"
    by (simp add: cq_popped_def p comp_def)
  then have "cq_popped s = {#6, 7, 5#}" using s(3) by simp
  then show ?thesis by (rule that [OF s(1-3) _ s(4,5)])
qed

lemma small_queue_ctor: "conq_ctor_alloc 4 0 = Ret (small_queue 0)" "conq_ctor_alloc 4 F_MP_RTS_ENQ = Ret (small_queue F_MP_RTS_ENQ)"
  by (simp_all add: small_queue_def conq_ctor_alloc_def conq_ctor_def has_flag_def conq_flag_defs Let_def)

lemma conq_conc_linearizable_witness:
  "\<exists>s. map cq_response (cq_log s) = [(1, PushBulk [6, 7], [6, 7]), (0, Emplace 5, [5]), (0, Pop, [6 :: nat]), (1, PopBulk 5, [7, 5])] \<and>
     (at_step 4 2)\<^sup>*\<^sup>* at_init (cq_abs s)"
proof -
  obtain s where s: "cq_run 2 mixed_schedule (cq_start (small_queue 0)) = Some s" "cq_in s = [6, 7, 5]"
    "map cq_response (cq_log s) = [(1, PushBulk [6, 7], [6, 7]), (0, Emplace 5, [5]), (0, Pop, [6]), (1, PopBulk 5, [7, 5])]"
    "cq_popped s = {#6, 7, 5#}" "cq_pc s 0 = CqIdle" "cq_pc s 1 = CqIdle"
    by (rule mixed_run)
  have "(at_step (unat (4 :: u32)) 2)\<^sup>*\<^sup>* at_init (cq_abs s)"
    by (rule conq_conc_linearizable [OF small_queue_ctor(1) _ _ _ cq_init_start cq_run_steps [OF s(1), of "\<lambda>_. 0"]])
      (simp_all add: has_flag_def s(2))
  then have "(at_step 4 2)\<^sup>*\<^sup>* at_init (cq_abs s)" by simp
  with s(3) show ?thesis by (intro exI conjI)
qed

text \<open>Property C3: in every mode, the relaxed ones included, and under every interleaving of the operations (all but the
  single-consumer \<open>pop_bulk\<close>) on a queue of a size up to \<open>2^31\<close>, as long as fewer than \<open>2^32\<close> elements are pushed: no access goes outside the array,
  to a dead object or onto a live one; a completed pop returns a run of consecutive elements of the sequence
  of all pushed elements; and nothing is lost or duplicated: the pushed elements are those returned by
  completed pops, those claimed by pops under way, and those no pop has claimed yet.\<close>

theorem conq_conc_conserves:
  assumes "conq_ctor_alloc m fl = Ret q" "unat m \<le> 2 ^ 31"
    and "cq_init q s0" "(cq_step solo N)\<^sup>*\<^sup>* s0 s" "length (cq_in s) < 2 ^ 32"
  shows "\<not> cq_ub s \<and>
    (\<forall>t c. cq_pc s t = CqWork c \<and> ck_end c = ProdEnd \<and> length (ck_done c) < unat (ck_len c) \<longrightarrow>
       ring (cq_q s) (cq_cell s (ck_front c)) = None) \<and>
    (\<forall>t c. (t, Served c) \<in> set (cq_log s) \<longrightarrow> ck_done c = take (unat (ck_len c)) (drop (unat (ck_pos c)) (cq_in s))) \<and>
    mset (cq_in s) = cq_popped s + cq_hands N s + mset (drop (claimed s ConsEnd) (cq_in s))"
proof -
  have R: "cq_inv solo N s" "cq_conserved N s"
    using cq_reach [OF ctor_fresh(1) [OF assms(1,2)] assms(3-5)] by simp_all
  have "mset (cq_in s) = mset (take (claimed s ConsEnd) (cq_in s)) + mset (drop (claimed s ConsEnd) (cq_in s))"
    by (metis append_take_drop_id mset_append)
  then have "mset (cq_in s) = cq_popped s + cq_hands N s + mset (drop (claimed s ConsEnd) (cq_in s))"
    using R(2) by (simp add: cq_conserved_def)
  moreover have "\<forall>t c. cq_pc s t = CqWork c \<and> ck_end c = ProdEnd \<and> length (ck_done c) < unat (ck_len c) \<longrightarrow>
       ring (cq_q s) (cq_cell s (ck_front c)) = None"
  proof (intro allI impI)
    fix t c assume c: "cq_pc s t = CqWork c \<and> ck_end c = ProdEnd \<and> length (ck_done c) < unat (ck_len c)"
    then have "claim_of (cq_pc s t) = Some c" by simp
    then show "ring (cq_q s) (cq_cell s (ck_front c)) = None" using work_on_ok(2) [OF R(1) assms(5)] c by blast
  qed
  moreover have "\<forall>t c. (t, Served c) \<in> set (cq_log s) \<longrightarrow> ck_done c = take (unat (ck_len c)) (drop (unat (ck_pos c)) (cq_in s))"
    using cq_invD(12) [OF R(1)] by (fastforce simp: ck_start_def)
  ultimately show ?thesis using cq_invD(13) [OF R(1)] by blast
qed

lemma conq_conc_conserves_witness:
  "\<exists>s :: nat cq_state. cq_popped s = {#6, 7, 5#} \<and> mset (cq_in s) = cq_popped s + cq_hands 2 s + mset (drop (claimed s ConsEnd) (cq_in s))"
proof -
  obtain s where s: "cq_run 2 mixed_schedule (cq_start (small_queue 0)) = Some s" "cq_in s = [6, 7, 5]"
    "map cq_response (cq_log s) = [(1, PushBulk [6, 7], [6, 7]), (0, Emplace 5, [5]), (0, Pop, [6]), (1, PopBulk 5, [7, 5])]"
    "cq_popped s = {#6, 7, 5#}" "cq_pc s 0 = CqIdle" "cq_pc s 1 = CqIdle"
    by (rule mixed_run)
  have "mset (cq_in s) = cq_popped s + cq_hands 2 s + mset (drop (claimed s ConsEnd) (cq_in s))"
    using conq_conc_conserves [OF small_queue_ctor(1) _ cq_init_start cq_run_steps [OF s(1), of "\<lambda>_. 0"]] s(2) by simp
  then show ?thesis using s(4) by blast
qed

text \<open>Property C4: whenever every call has returned, in whatever modes and after whatever interleaving (without the
  single-consumer \<open>pop_bulk\<close>, sizes up to \<open>2^31\<close>, fewer than \<open>2^32\<close> elements pushed), the queue satisfies the relation of
  sequential use with exactly the pushed elements no pop has taken, in the order of their claims. So, if it
  was built without \<open>F_EXACT_SZ\<close>, a single caller then gets for every sequence of \<open>push\<close> and \<open>pop\<close> the answers of a
  bounded list that holds these elements.\<close>

theorem conq_conc_quiescent:
  assumes "conq_ctor_alloc m fl = Ret q" "unat m \<le> 2 ^ 31"
    and "cq_init q s0" "(cq_step solo N)\<^sup>*\<^sup>* s0 s" "length (cq_in s) < 2 ^ 32" "\<forall>t. cq_pc s t = CqIdle"
  shows "conq_rel (cq_q s) (drop (claimed s ConsEnd) (cq_in s)) \<and>
    (\<not> has_flag fl F_EXACT_SZ \<longrightarrow> (\<forall>g ops. \<exists>q'. queue_run (conq_push g) (conq_pop g) ops (cq_q s) =
      Ret (fst (spec_run (unat m) ops (drop (claimed s ConsEnd) (cq_in s))), q')))"
proof -
  have R: "cq_inv solo N s" "conq_cfg (cq_q s) = conq_cfg q" using cq_reach [OF ctor_fresh(1) [OF assms(1,2)] assms(3-5)] by simp_all
  have rel: "conq_rel (cq_q s) (drop (claimed s ConsEnd) (cq_in s))" by (rule quiet_rel [OF R(1)]) (simp add: assms(6))
  have "\<exists>q'. queue_run (conq_push g) (conq_pop g) ops (cq_q s) =
      Ret (fst (spec_run (unat m) ops (drop (claimed s ConsEnd) (cq_in s))), q')" if "\<not> has_flag fl F_EXACT_SZ" for g ops
  proof -
    note C = ctor_alloc_holds [OF assms(1,2) that]
    from conq_holds_next [OF C(1) rel R(2)] C(2)
    have "conq_holds (cq_q s) (drop (claimed s ConsEnd) (cq_in s))" "conq_cap (cq_q s) = unat m" by simp_all
    with conq.run_refines [OF this(1), of ops g] show ?thesis by auto
  qed
  with rel show ?thesis by blast
qed

lemma conq_conc_quiescent_witness:
  "\<exists>s :: nat cq_state. cq_in s = [6, 7, 5] \<and> conq_rel (cq_q s) (drop (claimed s ConsEnd) (cq_in s)) \<and>
     (\<exists>q'. queue_run (conq_push 0) (conq_pop 0) [Enqueue 8] (cq_q s) =
       Ret (fst (spec_run 4 [Enqueue 8] (drop (claimed s ConsEnd) (cq_in s))), q'))"
proof -
  obtain s where s: "cq_run 2 mixed_schedule (cq_start (small_queue 0)) = Some s" "cq_in s = [6, 7, 5]"
    "map cq_response (cq_log s) = [(1, PushBulk [6, 7], [6, 7]), (0, Emplace 5, [5]), (0, Pop, [6]), (1, PopBulk 5, [7, 5])]"
    "cq_popped s = {#6, 7, 5#}" "cq_pc s 0 = CqIdle" "cq_pc s 1 = CqIdle"
    by (rule mixed_run)
  note run = cq_run_steps [OF s(1), of "\<lambda>_. 0"]
  have "length (cq_in s) < 2 ^ 32" by (simp add: s(2))
  then have "cq_inv (\<lambda>_. 0) 2 s"
    using cq_reach [OF ctor_fresh(1) [OF small_queue_ctor(1)] cq_init_start run] by simp
  then have "\<forall>t. cq_pc s t = CqIdle"
    using cq_invD(11) [of "\<lambda>_. 0" 2 s] s(5,6) by (metis One_nat_def less_2_cases not_le)
  then have Q: "conq_rel (cq_q s) (drop (claimed s ConsEnd) (cq_in s)) \<and>
    (\<not> has_flag 0 F_EXACT_SZ \<longrightarrow> (\<forall>g ops. \<exists>q'. queue_run (conq_push g) (conq_pop g) ops (cq_q s) =
      Ret (fst (spec_run (unat (4 :: u32)) ops (drop (claimed s ConsEnd) (cq_in s))), q')))"
    using conq_conc_quiescent [OF small_queue_ctor(1) _ cq_init_start run] s(2) by simp
  have "\<not> has_flag 0 F_EXACT_SZ" "unat (4 :: u32) = 4" by (simp_all add: has_flag_def)
  with Q have "\<exists>q'. queue_run (conq_push 0) (conq_pop 0) [Enqueue 8] (cq_q s) =
      Ret (fst (spec_run 4 [Enqueue 8] (drop (claimed s ConsEnd) (cq_in s))), q')" by metis
  with Q s(2) show ?thesis by (intro exI [of _ s]) blast
qed

text \<open>Property C22: with relaxed producers the queue is not atomic. While thread 0 is between claim and
  publication of a push, thread 1 pushes an element, returns, and is then told that the queue is empty; the
  specification has no run with these results.\<close>

theorem conq_rts_push_invisible:
  "\<exists>s. (cq_step solo 2)\<^sup>*\<^sup>* (cq_start (small_queue F_MP_RTS_ENQ)) s \<and>
     at_log (cq_abs s) = [(1, Emplace 6, [6]), (1, Pop, [])] \<and> at_status (cq_abs s) 0 = AtCalled (Emplace 5) \<and>
     \<not> (\<exists>a. (at_step 4 2)\<^sup>*\<^sup>* at_init a \<and> at_log a = at_log (cq_abs s) \<and> at_status a 0 = at_status (cq_abs s) 0)"
proof -
  obtain s where s: "cq_run 2 relaxed_schedule (cq_start (small_queue F_MP_RTS_ENQ)) = Some s"
    "map cq_response (cq_log s) = relaxed_log" "cq_status (cq_in s) (cq_pc s 0) = AtCalled (Emplace 5)"
    using relaxed_run by blast
  have "\<not> (\<exists>a. (at_step 4 2)\<^sup>*\<^sup>* at_init a \<and> at_log a = at_log (cq_abs s) \<and> at_status a 0 = at_status (cq_abs s) 0)"
    using at_reach_relaxed [of 4] s(2,3) by (metis abs_simps(2,3) at_status.distinct(5))
  then show ?thesis using cq_run_steps [OF s(1), of solo] s(2,3) by (intro exI [of _ s]) (simp add: relaxed_log_def)
qed

end
