(* ===== verification/CLQueue.thy ===== *)
theory CLQueue
  imports ConQueue Queue_Interface
begin

text \<open>
  \<open>class CLQueue<T, USE_BLOCK>\<close> of conqueue.h, run by one thread at a time. The elements are spread
  over cache lines, each with a header of four 16-bit counters and \<open>SLOT_MAX_INLINE\<close> slots; a slot is
  \<open>Some x\<close> while it holds a constructed object. The template arguments are the fields
  \<open>clq_T_SIZE\<close> and \<open>clq_USE_BLOCK\<close>.
\<close>

section \<open>Layout\<close>

definition LINE_SIZE :: "nat \<Rightarrow> nat" where
  "LINE_SIZE T_SIZE =
    (if (7 * T_SIZE + 8) mod 64 \<noteq> 0 then (7 * T_SIZE + 8) div 64 * 64 + 64 else 7 * T_SIZE + 8)"

definition SLOT_MAX_INLINE :: "nat \<Rightarrow> nat" where
  "SLOT_MAX_INLINE T_SIZE = (LINE_SIZE T_SIZE - 8) div T_SIZE"

record 'a cache_line =
  hf1 :: u16
  tf1 :: u16
  hf2 :: u16
  tf2 :: u16
  slots :: "u32 \<Rightarrow> 'a option"

record 'a clqueue =
  clq_T_SIZE :: nat
  clq_USE_BLOCK :: bool
  clq_flags :: u32
  cls :: "u32 \<Rightarrow> 'a cache_line"
  max_line :: u32
  clq_max_size :: u32
  max_line_mask :: u32
  max_line_mask_bits :: nat
  dequeue_overcommit :: u32
  overcommit :: u32
  clq_head :: u32
  clq_tail :: u32

definition clq_slot_max :: "'a clqueue \<Rightarrow> u32" where
  "clq_slot_max q = of_nat (SLOT_MAX_INLINE (clq_T_SIZE q))"

definition get_li :: "'a clqueue \<Rightarrow> u32 \<Rightarrow> u32" where
  "get_li q n =
    (if clq_USE_BLOCK q then ((n mod 64) + n div (clq_slot_max q * 64) * 64) AND max_line_mask q
     else n AND max_line_mask q)"

definition get_si :: "'a clqueue \<Rightarrow> u32 \<Rightarrow> u32" where
  "get_si q n =
    (if clq_USE_BLOCK q then (n mod (clq_slot_max q * 64)) div 64
     else drop_bit (max_line_mask_bits q) n mod clq_slot_max q)"

section \<open>Access to lines and slots\<close>

definition upd_line :: "u32 \<Rightarrow> ('a cache_line \<Rightarrow> 'a cache_line) \<Rightarrow> 'a clqueue \<Rightarrow> 'a clqueue" where
  "upd_line li f q = q\<lparr>cls := (cls q)(li := f (cls q li))\<rparr>"

text \<open>Placement new into a slot, the move out of it, and the destructor of its object.\<close>

definition clq_construct :: "u32 \<Rightarrow> u32 \<Rightarrow> 'a \<Rightarrow> 'a clqueue \<Rightarrow> 'a clqueue" where
  "clq_construct li si x = upd_line li (\<lambda>cl. cl\<lparr>slots := (slots cl)(si \<mapsto> x)\<rparr>)"

definition clq_destroy :: "u32 \<Rightarrow> u32 \<Rightarrow> 'a clqueue \<Rightarrow> 'a clqueue run" where
  "clq_destroy li si q =
    (case slots (cls q li) si of
       None \<Rightarrow> UB
     | Some _ \<Rightarrow> Ret (upd_line li (\<lambda>cl. cl\<lparr>slots := (slots cl)(si := None)\<rparr>) q))"

definition clq_move_out :: "u32 \<Rightarrow> u32 \<Rightarrow> 'a clqueue \<Rightarrow> ('a \<times> 'a clqueue) run" where
  "clq_move_out li si q =
    (case slots (cls q li) si of
       None \<Rightarrow> UB
     | Some x \<Rightarrow> run_bind (clq_destroy li si q) (\<lambda>q'. Ret (x, q')))"

section \<open>Construction, observers\<close>

text \<open>\<open>for (uint32_t i = tail; i != head; ++i)\<close>: the number of rounds is \<open>head - tail\<close>.\<close>

primrec clq_clear_loop :: "nat \<Rightarrow> u32 \<Rightarrow> 'a clqueue \<Rightarrow> 'a clqueue run" where
  "clq_clear_loop 0 i q = Ret q"
| "clq_clear_loop (Suc n) i q = run_bind (clq_destroy (get_li q i) (get_si q i) q) (clq_clear_loop n (i + 1))"

definition clq_reset :: "'a clqueue \<Rightarrow> 'a clqueue" where
  "clq_reset q =
    (let q1 = q\<lparr>clq_head := 0, clq_tail := 0\<rparr>;
         q2 = q1\<lparr>cls := (\<lambda>li. if li < max_line q then (cls q li)\<lparr>hf1 := 0, tf1 := 0, hf2 := 1, tf2 := 1\<rparr> else cls q li)\<rparr>
     in upd_line 0 (\<lambda>cl. cl\<lparr>hf1 := 1, tf1 := 1\<rparr>) q2)"

definition clq_clear :: "'a clqueue \<Rightarrow> 'a clqueue run" where
  "clq_clear q =
    run_bind (clq_clear_loop (unat (clq_head q - clq_tail q)) (clq_tail q) q) (\<lambda>q1. Ret (clq_reset q1))"

text \<open>\<open>while (s < max_size) s <<= 1\<close>: after 32 rounds \<open>s\<close> is 0, and the loop does not end.\<close>

primrec clq_grow :: "nat \<Rightarrow> u32 \<Rightarrow> u32 \<Rightarrow> u32 run" where
  "clq_grow 0 s maxsz = Spin"
| "clq_grow (Suc n) s maxsz = (if s < maxsz then clq_grow n (push_bit 1 s) maxsz else Ret s)"

definition popcount :: "u32 \<Rightarrow> nat" where
  "popcount w = length (filter (bit w) [0..<32])"

definition clq_default_flags :: "u32 \<Rightarrow> u32" where
  "clq_default_flags fl =
     (let fl = (if \<not> has_flag fl (F_SP_ENQ OR F_MP_RTS_ENQ OR F_MP_ENQ) then fl OR F_MP_ENQ else fl)
      in if \<not> has_flag fl (F_SC_DEQ OR F_MC_RTS_DEQ OR F_MC_DEQ) then fl OR F_MC_DEQ else fl)"

text \<open>\<open>head\<close> and \<open>tail\<close> have no initializer: \<open>h0\<close> and \<open>t0\<close> are what they hold when the constructor
  calls \<open>clear\<close>; the lines come from \<open>aligned_alloc\<close> with arbitrary counters.\<close>

definition clq_ctor :: "nat \<Rightarrow> bool \<Rightarrow> u32 \<Rightarrow> u32 \<Rightarrow> (u32 \<Rightarrow> 'a cache_line) \<Rightarrow> u32 \<Rightarrow> u32 \<Rightarrow> 'a clqueue run" where
  "clq_ctor T_SIZE USE_BLOCK h0 t0 raw maxsz fl =
    (if maxsz = 0 then Throw ''max_size is 0''
     else if has_flag fl F_MP_ENQ \<and> has_flag fl F_MP_RTS_ENQ then Throw ''queue producer flag error''
     else if has_flag fl F_MC_RTS_DEQ \<and> has_flag fl F_MC_DEQ then Throw ''queue consumer flag error''
     else if has_flag fl F_EXACT_SZ then Throw ''queue exacting size is not supported''
     else run_bind (clq_grow 33 (of_nat (SLOT_MAX_INLINE T_SIZE)) maxsz) (\<lambda>s.
       let lines = s div of_nat (SLOT_MAX_INLINE T_SIZE)
       in clq_clear \<lparr>clq_T_SIZE = T_SIZE, clq_USE_BLOCK = USE_BLOCK, clq_flags = clq_default_flags fl,
            cls = (\<lambda>li. (raw li)\<lparr>slots := \<lambda>_. None\<rparr>), max_line = lines, clq_max_size = s, max_line_mask = lines - 1,
            max_line_mask_bits = popcount (lines - 1), dequeue_overcommit = 0, overcommit = 0,
            clq_head = h0, clq_tail = t0\<rparr>))"

definition clq_dtor :: "'a clqueue \<Rightarrow> unit run" where
  "clq_dtor q = run_bind (clq_clear q) (\<lambda>_. Ret ())"

definition clq_capacity :: "'a clqueue \<Rightarrow> u32" where
  "clq_capacity q = clq_max_size q"

definition clq_size :: "'a clqueue \<Rightarrow> u32" where
  "clq_size q = clq_head q - clq_tail q"

definition clq_empty :: "'a clqueue \<Rightarrow> bool" where
  "clq_empty q \<longleftrightarrow> clq_head q = clq_tail q"

definition clq_full :: "'a clqueue \<Rightarrow> bool" where
  "clq_full q \<longleftrightarrow> clq_head q - clq_tail q = clq_capacity q"

definition clq_top :: "'a clqueue \<Rightarrow> 'a run" where
  "clq_top q =
    (let ot = clq_tail q; li = get_li q ot; cl = cls q li; si = get_si q ot
     in case slots cl si of Some x \<Rightarrow> Ret x | None \<Rightarrow> UB)"

section \<open>Push\<close>

text \<open>\<open>cl->hf2 - cl->tf2 == SLOT_MAX_INLINE\<close>: the counters are promoted to \<open>int\<close> before they are
  subtracted.\<close>

definition line_full :: "'a clqueue \<Rightarrow> u32 \<Rightarrow> bool" where
  "line_full q li \<longleftrightarrow> uint (hf2 (cls q li)) - uint (tf2 (cls q li)) = int (SLOT_MAX_INLINE (clq_T_SIZE q))"

text \<open>From the claimed position on: construct, publish in the order of the lines (\<open>F_MP_ENQ\<close>), count.\<close>

definition clq_publish :: "u32 \<Rightarrow> 'a \<Rightarrow> 'a clqueue \<Rightarrow> (bool \<times> 'a clqueue) run" where
  "clq_publish oh x q =
    (let li = get_li q oh; si = get_si q oh; q1 = clq_construct li si x q
     in if has_flag (clq_flags q1) F_MP_ENQ
        then (if hf1 (cls q1 li) \<noteq> hf2 (cls q1 li) then Spin
              else let next_li = get_li q1 (oh + 1); q2 = upd_line next_li (\<lambda>cl. cl\<lparr>hf1 := hf1 cl + 1\<rparr>) q1
                   in Ret (True, upd_line li (\<lambda>cl. cl\<lparr>hf2 := hf2 cl + 1\<rparr>) q2))
        else Ret (True, upd_line li (\<lambda>cl. cl\<lparr>hf2 := hf2 cl + 1\<rparr>) q1))"

definition clq_emplace_impl :: "bool \<Rightarrow> 'a \<Rightarrow> 'a clqueue \<Rightarrow> (bool \<times> 'a clqueue) run" where
  "clq_emplace_impl TF x q =
    (let oh = clq_head q; li = get_li q oh
     in if has_flag (clq_flags q) F_SP_ENQ
        then (if line_full q li then Ret (False, q)
              else let q1 = clq_construct li (get_si q oh) x (q\<lparr>clq_head := oh + 1\<rparr>)
                   in Ret (True, upd_line li (\<lambda>cl. cl\<lparr>hf2 := hf2 cl + 1\<rparr>) q1))
        else if TF then (if line_full q li then Throw ''queue full'' else clq_publish oh x (q\<lparr>clq_head := oh + 1\<rparr>))
        else if line_full q li then Ret (False, q) else clq_publish oh x (q\<lparr>clq_head := oh + 1\<rparr>))"

definition clq_push :: "'a \<Rightarrow> 'a clqueue \<Rightarrow> (bool \<times> 'a clqueue) run" where
  "clq_push x q = clq_emplace_impl False x q"

definition clq_push_unsafe :: "'a \<Rightarrow> 'a clqueue \<Rightarrow> (bool \<times> 'a clqueue) run" where
  "clq_push_unsafe x q = clq_emplace_impl True x q"

section \<open>Pop\<close>

definition line_empty :: "'a clqueue \<Rightarrow> u32 \<Rightarrow> bool" where
  "line_empty q li \<longleftrightarrow> hf2 (cls q li) = tf2 (cls q li)"

definition clq_pop :: "'a clqueue \<Rightarrow> ('a option \<times> 'a clqueue) run" where
  "clq_pop q =
    (if has_flag (clq_flags q) F_SC_DEQ
     then (let ot = clq_tail q; li = get_li q ot
           in if line_empty q li then Ret (None, q)
              else run_bind (clq_move_out li (get_si q ot) (q\<lparr>clq_tail := ot + 1\<rparr>)) (\<lambda>(x, q1).
                     Ret (Some x, upd_line li (\<lambda>cl. cl\<lparr>tf2 := tf2 cl + 1\<rparr>) q1)))
     else (let doc = dequeue_overcommit q; q0 = q\<lparr>dequeue_overcommit := doc + 1\<rparr>; ot = doc - overcommit q0
           in if line_empty q0 (get_li q0 ot) then Ret (None, q0\<lparr>overcommit := overcommit q0 + 1\<rparr>)
              else let ot = clq_tail q0; q1 = q0\<lparr>clq_tail := ot + 1\<rparr>; li = get_li q1 ot; si = get_si q1 ot
                   in if line_empty q1 li then Spin
                      else run_bind (clq_move_out li si q1) (\<lambda>(x, q2).
                        if has_flag (clq_flags q2) F_MC_DEQ
                        then (if tf1 (cls q2 li) \<noteq> tf2 (cls q2 li) then Spin
                              else let next_li = get_li q2 (ot + 1); q3 = upd_line next_li (\<lambda>cl. cl\<lparr>tf1 := tf1 cl + 1\<rparr>) q2
                                   in Ret (Some x, upd_line li (\<lambda>cl. cl\<lparr>tf2 := tf2 cl + 1\<rparr>) q3))
                        else Ret (Some x, upd_line li (\<lambda>cl. cl\<lparr>tf2 := tf2 cl + 1\<rparr>) q2))))"

end
