(* ===== verification/CLQueue_Lines.thy ===== *)
theory CLQueue_Lines
  imports CLQueue
begin

text \<open>
  Counting positions per cache line, with unbounded positions: position \<open>n\<close> is in line \<open>n mod L\<close>,
  and \<open>line_count L l n\<close> of the positions below \<open>n\<close> are in line \<open>l\<close>. From these counts follow the
  tests of \<open>CLQueue\<close> for a full or an empty queue, which look at one line only.
\<close>

primrec line_count :: "nat \<Rightarrow> nat \<Rightarrow> nat \<Rightarrow> nat" where
  "line_count L l 0 = 0"
| "line_count L l (Suc n) = line_count L l n + (if n mod L = l then 1 else 0)"

lemma line_count_mono: "m \<le> n \<Longrightarrow> line_count L l m \<le> line_count L l n"
  by (induction n) (auto simp: le_Suc_eq)

lemma line_count_first: "n \<le> L \<Longrightarrow> l < L \<Longrightarrow> line_count L l n = (if l < n then 1 else 0)"
  by (induction n) auto

lemma line_count_lap: "l < L \<Longrightarrow> line_count L l (n + L) = line_count L l n + 1"
  by (induction n) (simp_all add: line_count_first)

lemma line_count_laps: "l < L \<Longrightarrow> line_count L l (n + k * L) = line_count L l n + k"
proof (induction k)
  case (Suc k)
  have "n + Suc k * L = (n + k * L) + L" by simp
  then show ?case using line_count_lap [of l L "n + k * L"] Suc by (simp only: add_Suc_right One_nat_def add_0_right)
qed simp

lemma line_count_bound: "l < L \<Longrightarrow> n \<le> k * L \<Longrightarrow> line_count L l n \<le> k"
  using line_count_mono [of n "k * L" L l] line_count_laps [of l L 0 k] by simp

text \<open>The line of the next position is full exactly when the queue is full.\<close>

lemma line_full_iff:
  assumes "0 < L" "t \<le> h" "h \<le> t + S * L"
  shows "line_count L (h mod L) h - line_count L (h mod L) t = S \<longleftrightarrow> h = t + S * L"
proof (cases "h = t + S * L")
  case True
  then show ?thesis using line_count_laps [of "h mod L" L t S] assms(1) by simp
next
  case False
  then have "line_count L (h mod L) (Suc h) \<le> line_count L (h mod L) (t + S * L)"
    using assms(3) by (intro line_count_mono) simp
  also have "\<dots> = line_count L (h mod L) t + S" using assms(1) by (intro line_count_laps) simp
  finally have c: "Suc (line_count L (h mod L) h) \<le> line_count L (h mod L) t + S" by simp
  have "S \<noteq> 0" using False assms(2,3) by (cases "S = 0") auto
  with c False show ?thesis by linarith
qed

text \<open>The line of the oldest element is empty exactly when the queue is empty.\<close>

lemma line_empty_iff:
  assumes "t \<le> h"
  shows "line_count L (t mod L) h = line_count L (t mod L) t \<longleftrightarrow> h = t"
proof (cases "h = t")
  case False
  then have "line_count L (t mod L) (Suc t) \<le> line_count L (t mod L) h"
    using assms by (intro line_count_mono) simp
  then have "Suc (line_count L (t mod L) t) \<le> line_count L (t mod L) h" by simp
  then show ?thesis using False by linarith
qed simp

text \<open>Positions of one window have different slots.\<close>

lemma line_slot_inj:
  assumes "0 < (L :: nat)" "i < j" "j < i + S * L"
  shows "i mod L \<noteq> j mod L \<or> (i div L) mod S \<noteq> (j div L) mod S"
proof (rule ccontr)
  assume "\<not> ?thesis"
  then have e: "i mod L = j mod L" "(i div L) mod S = (j div L) mod S" by auto
  have d: "i div L \<le> j div L" using assms(2) by (simp add: div_le_mono)
  then have "j div L * L = i div L * L + (j div L - i div L) * L" by (simp flip: add_mult_distrib)
  then have j: "j = i + (j div L - i div L) * L"
    using e(1) div_mult_mod_eq [of i L] div_mult_mod_eq [of j L] by linarith
  then have "(j div L - i div L) * L < S * L" "(j div L - i div L) * L \<noteq> 0" using assms(2,3) by linarith+
  then have k: "j div L - i div L < S" "0 < j div L - i div L" by auto
  have "S dvd j div L - i div L" using e(2) d by (metis mod_eq_dvd_iff_nat)
  with k show False by (simp add: nat_dvd_not_less)
qed

section \<open>Sizes\<close>

lemma SLOT_MAX_INLINE_bounds: "1 \<le> T \<Longrightarrow> 7 \<le> SLOT_MAX_INLINE T \<and> SLOT_MAX_INLINE T \<le> 70"
proof
  assume T: "1 \<le> T"
  have m: "(7 * T + 8) div 64 * 64 + (7 * T + 8) mod 64 = 7 * T + 8" by (rule div_mult_mod_eq)
  have "(7 * T + 8) mod 64 < 64" by simp
  then have b: "7 * T + 8 \<le> LINE_SIZE T" "LINE_SIZE T \<le> 7 * T + 8 + 63"
    using m unfolding LINE_SIZE_def by (cases "(7 * T + 8) mod 64 = 0"; simp only: if_True if_False simp_thms; linarith)+
  then have "7 * T \<le> LINE_SIZE T - 8" "LINE_SIZE T - 8 \<le> 70 * T" using T by linarith+
  then show "7 \<le> SLOT_MAX_INLINE T" "SLOT_MAX_INLINE T \<le> 70"
    using T div_le_mono [of "7 * T" "LINE_SIZE T - 8" T] div_le_mono [of "LINE_SIZE T - 8" "70 * T" T]
    by (simp_all add: SLOT_MAX_INLINE_def)
qed

text \<open>The doubling loop.\<close>

lemma clq_grow_ret:
  assumes "clq_grow f s m = Ret r"
  shows "\<exists>k\<le>f. r = push_bit k s \<and> m \<le> r \<and> (\<forall>j<k. push_bit j s < m)"
  using assms
proof (induction f arbitrary: s)
  case (Suc f)
  show ?case
  proof (cases "s < m")
    case True
    with Suc.prems have "clq_grow f (push_bit 1 s) m = Ret r" by simp
    from Suc.IH [OF this] obtain k where k: "k \<le> f" "r = push_bit k (push_bit 1 s)" "m \<le> r"
      "\<forall>j<k. push_bit j (push_bit 1 s) < m" by blast
    have "push_bit j s < m" if "j < Suc k" for j
      using that k(4) True by (cases j) (simp_all add: push_bit_double)
    with k show ?thesis by (intro exI [of _ "Suc k"]) (simp add: push_bit_double)
  next
    case False
    with Suc.prems show ?thesis by (intro exI [of _ 0]) auto
  qed
qed simp

end
