(* ===== verification/CLQueue_Contract.thy ===== *)
theory CLQueue_Contract
  imports CLQueue_Lines
begin

text \<open>
  \<open>CLQueue\<close> (without \<open>USE_BLOCK\<close>) as a bounded queue of limited life: as long as no 16-bit counter
  and no 32-bit position wraps around, the line counters are the counts of CLQueue_Lines.
\<close>

section \<open>Lines and slots\<close>

definition clq_shape :: "'a clqueue \<Rightarrow> nat \<Rightarrow> bool" where
  "clq_shape q m \<longleftrightarrow> \<not> clq_USE_BLOCK q \<and> 1 \<le> clq_T_SIZE q \<and> m \<le> 29 \<and>
     SLOT_MAX_INLINE (clq_T_SIZE q) * 2 ^ m < 2 ^ 32 \<and> max_line q = 2 ^ m \<and> max_line_mask q = mask m \<and>
     max_line_mask_bits q = m \<and> clq_max_size q = of_nat (SLOT_MAX_INLINE (clq_T_SIZE q) * 2 ^ m)"

abbreviation "clq_S q \<equiv> SLOT_MAX_INLINE (clq_T_SIZE q)"

lemma cls_upd_line: "cls (upd_line li f q) l = (if l = li then f (cls q l) else cls q l)"
  by (simp add: upd_line_def)

lemma upd_line_fields [simp]:
  "clq_T_SIZE (upd_line li f q) = clq_T_SIZE q" "clq_USE_BLOCK (upd_line li f q) = clq_USE_BLOCK q"
  "clq_flags (upd_line li f q) = clq_flags q" "max_line (upd_line li f q) = max_line q"
  "clq_max_size (upd_line li f q) = clq_max_size q" "max_line_mask (upd_line li f q) = max_line_mask q"
  "max_line_mask_bits (upd_line li f q) = max_line_mask_bits q"
  "dequeue_overcommit (upd_line li f q) = dequeue_overcommit q" "overcommit (upd_line li f q) = overcommit q"
  "clq_head (upd_line li f q) = clq_head q" "clq_tail (upd_line li f q) = clq_tail q"
  by (simp_all add: upd_line_def)

lemma clq_shape_upd [simp]: "clq_shape (upd_line li f q) m = clq_shape q m"
  by (simp add: clq_shape_def)

lemma clq_layout_cong:
  assumes "clq_T_SIZE q' = clq_T_SIZE q" "clq_USE_BLOCK q' = clq_USE_BLOCK q" "max_line_mask q' = max_line_mask q"
    "max_line_mask_bits q' = max_line_mask_bits q"
  shows "get_li q' n = get_li q n" "get_si q' n = get_si q n"
  using assms by (simp_all add: get_li_def get_si_def clq_slot_max_def)

lemma layout_upd_line [simp]:
  "get_li (upd_line li f q) n = get_li q n" "get_si (upd_line li f q) n = get_si q n"
  by (rule clq_layout_cong; simp)+

lemma layout_fields [simp]:
  "get_li (q\<lparr>clq_head := v\<rparr>) n = get_li q n" "get_si (q\<lparr>clq_head := v\<rparr>) n = get_si q n"
  "get_li (q\<lparr>clq_tail := v\<rparr>) n = get_li q n" "get_si (q\<lparr>clq_tail := v\<rparr>) n = get_si q n"
  "get_li (q\<lparr>dequeue_overcommit := v\<rparr>) n = get_li q n" "get_si (q\<lparr>dequeue_overcommit := v\<rparr>) n = get_si q n"
  "get_li (q\<lparr>overcommit := v\<rparr>) n = get_li q n" "get_si (q\<lparr>overcommit := v\<rparr>) n = get_si q n"
  by (rule clq_layout_cong; simp)+

lemma clq_S_bounds: "clq_shape q m \<Longrightarrow> 7 \<le> clq_S q \<and> clq_S q \<le> 70"
  by (simp add: clq_shape_def SLOT_MAX_INLINE_bounds)

lemma get_li_nat:
  assumes "clq_shape q m" "n < 2 ^ 32"
  shows "get_li q (of_nat n) = of_nat (n mod 2 ^ m)"
proof -
  have p: "(2 :: nat) ^ m \<le> 2147483648" using assms(1) by (intro pow2_le_31) (simp add: clq_shape_def)
  have "n mod 2 ^ m < 2 ^ m" by simp
  then have "n mod 2 ^ m < 4294967296" using p by linarith
  then have "unat (of_nat (n mod 2 ^ m) :: u32) = n mod 2 ^ m" by (rule unat_of_nat_u32)
  moreover have "unat (of_nat n :: u32) = n" using assms(2) by (intro unat_of_nat_u32) simp
  moreover have "get_li q (of_nat n) = of_nat n AND mask m" using assms(1) by (simp add: get_li_def clq_shape_def)
  ultimately show ?thesis by (simp only: word_unat_eq_iff unat_and_mask)
qed

lemma get_si_nat:
  assumes "clq_shape q m" "n < 2 ^ 32"
  shows "get_si q (of_nat n) = of_nat (n div 2 ^ m mod clq_S q)"
proof -
  have s: "7 \<le> clq_S q" "clq_S q \<le> 70" using clq_S_bounds [OF assms(1)] by auto
  have u: "unat (of_nat (clq_S q) :: u32) = clq_S q" using s by (intro unat_of_nat_u32) linarith
  have "n div 2 ^ m mod clq_S q < clq_S q" using s by simp
  then have r: "unat (of_nat (n div 2 ^ m mod clq_S q) :: u32) = n div 2 ^ m mod clq_S q"
    using s by (intro unat_of_nat_u32) linarith
  have "unat (of_nat n :: u32) = n" using assms(2) by (intro unat_of_nat_u32) simp
  then have d: "unat (drop_bit m (of_nat n :: u32)) = n div 2 ^ m" by (metis unat_drop_bit_eq drop_bit_eq_div)
  have "get_si q (of_nat n) = drop_bit m (of_nat n) mod of_nat (clq_S q)"
    using assms(1) by (simp only: get_si_def clq_slot_max_def clq_shape_def if_False)
  then show ?thesis by (simp only: word_unat_eq_iff unat_mod d u r)
qed

lemma line_index_eq: "m \<le> 29 \<Longrightarrow> l < 2 ^ m \<Longrightarrow> l' < 2 ^ m \<Longrightarrow> (of_nat l :: u32) = of_nat l' \<longleftrightarrow> l = l'"
proof -
  assume a: "m \<le> 29" "l < 2 ^ m" "l' < 2 ^ m"
  have "(2 :: nat) ^ m \<le> 2147483648" using a(1) by (intro pow2_le_31) simp
  then have "l < 4294967296" "l' < 4294967296" using a(2,3) by auto
  then show ?thesis by (metis unat_of_nat_u32)
qed

lemma slot_index_eq: "a \<le> 70 \<Longrightarrow> b \<le> 70 \<Longrightarrow> (of_nat a :: u32) = of_nat b \<longleftrightarrow> a = b"
proof -
  assume "a \<le> 70" "b \<le> 70"
  then have "a < 4294967296" "b < 4294967296" by simp_all
  then show ?thesis by (metis unat_of_nat_u32)
qed

text \<open>Positions of one window are in different places.\<close>

lemma clq_places_differ:
  assumes "clq_shape q m" "i < j" "j < i + clq_S q * 2 ^ m" "j < 2 ^ 32"
  shows "get_li q (of_nat i) \<noteq> get_li q (of_nat j) \<or> get_si q (of_nat i) \<noteq> get_si q (of_nat j)"
proof -
  have s: "7 \<le> clq_S q" "clq_S q \<le> 70" using clq_S_bounds [OF assms(1)] by auto
  have b: "n div 2 ^ m mod clq_S q \<le> 70" for n
    using mod_less_divisor [of "clq_S q" "n div 2 ^ m"] s by linarith
  have i: "i < 2 ^ 32" using assms(2,4) by simp
  have m: "m \<le> 29" using assms(1) by (simp add: clq_shape_def)
  show ?thesis
    unfolding get_li_nat [OF assms(1) i] get_li_nat [OF assms(1,4)] get_si_nat [OF assms(1) i] get_si_nat [OF assms(1,4)]
    using line_slot_inj [OF _ assms(2,3)] line_index_eq [OF m, of "i mod 2 ^ m" "j mod 2 ^ m"]
      slot_index_eq [OF b b, of i j] by auto
qed

section \<open>The counters\<close>

definition clq_mp :: "'a clqueue \<Rightarrow> bool" where
  "clq_mp q \<longleftrightarrow> has_flag (clq_flags q) F_MP_ENQ \<and> \<not> has_flag (clq_flags q) F_SP_ENQ"

definition clq_mc :: "'a clqueue \<Rightarrow> bool" where
  "clq_mc q \<longleftrightarrow> has_flag (clq_flags q) F_MC_DEQ \<and> \<not> has_flag (clq_flags q) F_SC_DEQ"

definition clq_counts :: "nat \<Rightarrow> nat \<Rightarrow> nat \<Rightarrow> 'a clqueue \<Rightarrow> bool" where
  "clq_counts m t h q \<longleftrightarrow> (\<forall>l<2 ^ m.
     unat (hf2 (cls q (of_nat l))) = Suc (line_count (2 ^ m) l h) \<and>
     unat (tf2 (cls q (of_nat l))) = Suc (line_count (2 ^ m) l t) \<and>
     (clq_mp q \<longrightarrow> unat (hf1 (cls q (of_nat l))) = line_count (2 ^ m) l (Suc h)) \<and>
     (clq_mc q \<longrightarrow> unat (tf1 (cls q (of_nat l))) = line_count (2 ^ m) l (Suc t)))"

lemma unat_inc_u16: "unat (w :: u16) \<le> 65534 \<Longrightarrow> unat (w + 1) = Suc (unat w)"
  by (simp add: unat_word_ariths)

lemma clq_counts_hf2: "clq_counts m t h q \<Longrightarrow> l < 2 ^ m \<Longrightarrow> unat (hf2 (cls q (of_nat l))) = Suc (line_count (2 ^ m) l h)"
  and clq_counts_tf2: "clq_counts m t h q \<Longrightarrow> l < 2 ^ m \<Longrightarrow> unat (tf2 (cls q (of_nat l))) = Suc (line_count (2 ^ m) l t)"
  and clq_counts_hf1: "clq_counts m t h q \<Longrightarrow> l < 2 ^ m \<Longrightarrow> clq_mp q \<Longrightarrow> unat (hf1 (cls q (of_nat l))) = line_count (2 ^ m) l (Suc h)"
  and clq_counts_tf1: "clq_counts m t h q \<Longrightarrow> l < 2 ^ m \<Longrightarrow> clq_mc q \<Longrightarrow> unat (tf1 (cls q (of_nat l))) = line_count (2 ^ m) l (Suc t)"
  by (simp_all add: clq_counts_def)

text \<open>What a completed push and a completed pop leave behind.\<close>

definition clq_pushed :: "'a \<Rightarrow> 'a clqueue \<Rightarrow> 'a clqueue" where
  "clq_pushed x q =
    (let oh = clq_head q; li = get_li q oh; q1 = clq_construct li (get_si q oh) x (q\<lparr>clq_head := oh + 1\<rparr>);
         q2 = (if clq_mp q then upd_line (get_li q (oh + 1)) (\<lambda>cl. cl\<lparr>hf1 := hf1 cl + 1\<rparr>) q1 else q1)
     in upd_line li (\<lambda>cl. cl\<lparr>hf2 := hf2 cl + 1\<rparr>) q2)"

definition clq_popped :: "'a clqueue \<Rightarrow> 'a clqueue" where
  "clq_popped q =
    (let ot = clq_tail q; li = get_li q ot; si = get_si q ot;
         q0 = (if has_flag (clq_flags q) F_SC_DEQ then q else q\<lparr>dequeue_overcommit := dequeue_overcommit q + 1\<rparr>);
         q1 = upd_line li (\<lambda>cl. cl\<lparr>slots := (slots cl)(si := None)\<rparr>) (q0\<lparr>clq_tail := ot + 1\<rparr>);
         q2 = (if clq_mc q then upd_line (get_li q (ot + 1)) (\<lambda>cl. cl\<lparr>tf1 := tf1 cl + 1\<rparr>) q1 else q1)
     in upd_line li (\<lambda>cl. cl\<lparr>tf2 := tf2 cl + 1\<rparr>) q2)"

lemma clq_pushed_fields:
  "clq_T_SIZE (clq_pushed x q) = clq_T_SIZE q" "clq_USE_BLOCK (clq_pushed x q) = clq_USE_BLOCK q"
  "clq_flags (clq_pushed x q) = clq_flags q" "max_line (clq_pushed x q) = max_line q"
  "clq_max_size (clq_pushed x q) = clq_max_size q" "max_line_mask (clq_pushed x q) = max_line_mask q"
  "max_line_mask_bits (clq_pushed x q) = max_line_mask_bits q"
  "dequeue_overcommit (clq_pushed x q) = dequeue_overcommit q" "overcommit (clq_pushed x q) = overcommit q"
  "clq_head (clq_pushed x q) = clq_head q + 1" "clq_tail (clq_pushed x q) = clq_tail q"
  by (simp_all add: clq_pushed_def clq_construct_def Let_def)

lemma clq_pushed_lines:
  "hf2 (cls (clq_pushed x q) l) = (if l = get_li q (clq_head q) then hf2 (cls q l) + 1 else hf2 (cls q l))"
  "hf1 (cls (clq_pushed x q) l) = (if clq_mp q \<and> l = get_li q (clq_head q + 1) then hf1 (cls q l) + 1 else hf1 (cls q l))"
  "tf2 (cls (clq_pushed x q) l) = tf2 (cls q l)" "tf1 (cls (clq_pushed x q) l) = tf1 (cls q l)"
  "slots (cls (clq_pushed x q) l) =
    (if l = get_li q (clq_head q) then (slots (cls q l))(get_si q (clq_head q) \<mapsto> x) else slots (cls q l))"
  by (simp_all add: clq_pushed_def clq_construct_def Let_def cls_upd_line)

lemma clq_popped_fields:
  "clq_T_SIZE (clq_popped q) = clq_T_SIZE q" "clq_USE_BLOCK (clq_popped q) = clq_USE_BLOCK q"
  "clq_flags (clq_popped q) = clq_flags q" "max_line (clq_popped q) = max_line q"
  "clq_max_size (clq_popped q) = clq_max_size q" "max_line_mask (clq_popped q) = max_line_mask q"
  "max_line_mask_bits (clq_popped q) = max_line_mask_bits q" "overcommit (clq_popped q) = overcommit q"
  "dequeue_overcommit (clq_popped q) = (if has_flag (clq_flags q) F_SC_DEQ then dequeue_overcommit q else dequeue_overcommit q + 1)"
  "clq_head (clq_popped q) = clq_head q" "clq_tail (clq_popped q) = clq_tail q + 1"
  by (simp_all add: clq_popped_def Let_def)

lemma clq_popped_lines:
  "tf2 (cls (clq_popped q) l) = (if l = get_li q (clq_tail q) then tf2 (cls q l) + 1 else tf2 (cls q l))"
  "tf1 (cls (clq_popped q) l) = (if clq_mc q \<and> l = get_li q (clq_tail q + 1) then tf1 (cls q l) + 1 else tf1 (cls q l))"
  "hf2 (cls (clq_popped q) l) = hf2 (cls q l)" "hf1 (cls (clq_popped q) l) = hf1 (cls q l)"
  "slots (cls (clq_popped q) l) =
    (if l = get_li q (clq_tail q) then (slots (cls q l))(get_si q (clq_tail q) := None) else slots (cls q l))"
  by (simp_all add: clq_popped_def Let_def cls_upd_line)

lemma clq_mode_same:
  "clq_mp (clq_pushed x q) = clq_mp q" "clq_mc (clq_pushed x q) = clq_mc q"
  "clq_mp (clq_popped q) = clq_mp q" "clq_mc (clq_popped q) = clq_mc q"
  by (simp_all add: clq_mp_def clq_mc_def clq_pushed_fields clq_popped_fields)

lemma clq_counts_push:
  assumes s: "clq_shape q m" and c: "clq_counts m t h q" and h: "clq_head q = of_nat h"
    and l: "Suc h < 2 ^ 32" "Suc h \<le> 65534 * 2 ^ m"
  shows "clq_counts m t (Suc h) (clq_pushed x q)"
  unfolding clq_counts_def
proof (intro allI impI)
  fix k :: nat assume k: "k < 2 ^ m"
  have m: "m \<le> 29" using s by (simp add: clq_shape_def)
  have lh: "(of_nat k = get_li q (clq_head q)) = (h mod 2 ^ m = k)"
    using get_li_nat [OF s, of h] l(1) line_index_eq [OF m k, of "h mod 2 ^ m"] by (auto simp: h)
  have e: "clq_head q + 1 = of_nat (Suc h)" by (simp add: h)
  have g: "get_li q (clq_head q + 1) = of_nat (Suc h mod 2 ^ m)" unfolding e by (rule get_li_nat [OF s l(1)])
  have ln: "(of_nat k = get_li q (clq_head q + 1)) = (Suc h mod 2 ^ m = k)"
    unfolding g using line_index_eq [OF m k, of "Suc h mod 2 ^ m"] by auto
  have b: "line_count (2 ^ m) k (Suc h) \<le> 65534" using k l(2) by (rule line_count_bound)
  have f2: "unat (hf2 (cls (clq_pushed x q) (of_nat k))) = Suc (line_count (2 ^ m) k (Suc h))"
  proof (cases "h mod 2 ^ m = k")
    case True
    then have "unat (hf2 (cls q (of_nat k))) \<le> 65534" using clq_counts_hf2 [OF c k] b by simp
    with True show ?thesis using clq_counts_hf2 [OF c k] unat_inc_u16 by (simp add: clq_pushed_lines lh)
  qed (simp add: clq_pushed_lines lh clq_counts_hf2 [OF c k])
  have f1: "unat (hf1 (cls (clq_pushed x q) (of_nat k))) = line_count (2 ^ m) k (Suc (Suc h))" if "clq_mp q"
  proof (cases "Suc h mod 2 ^ m = k")
    case True
    have "unat (hf1 (cls q (of_nat k))) \<le> 65534" using clq_counts_hf1 [OF c k that] b by simp
    then have "unat (hf1 (cls q (of_nat k)) + 1) = Suc (line_count (2 ^ m) k (Suc h))"
      using clq_counts_hf1 [OF c k that] by (simp only: unat_inc_u16)
    with True that show ?thesis by (simp add: clq_pushed_lines ln)
  next
    case False
    then show ?thesis using that clq_counts_hf1 [OF c k that] by (simp add: clq_pushed_lines ln)
  qed
  show "unat (hf2 (cls (clq_pushed x q) (of_nat k))) = Suc (line_count (2 ^ m) k (Suc h)) \<and>
     unat (tf2 (cls (clq_pushed x q) (of_nat k))) = Suc (line_count (2 ^ m) k t) \<and>
     (clq_mp (clq_pushed x q) \<longrightarrow> unat (hf1 (cls (clq_pushed x q) (of_nat k))) = line_count (2 ^ m) k (Suc (Suc h))) \<and>
     (clq_mc (clq_pushed x q) \<longrightarrow> unat (tf1 (cls (clq_pushed x q) (of_nat k))) = line_count (2 ^ m) k (Suc t))"
    unfolding clq_mode_same clq_pushed_lines(3,4)
    using f2 f1 clq_counts_tf2 [OF c k] clq_counts_tf1 [OF c k] by blast
qed

lemma clq_counts_pop:
  assumes s: "clq_shape q m" and c: "clq_counts m t h q" and h: "clq_tail q = of_nat t"
    and l: "Suc t < 2 ^ 32" "Suc t \<le> 65534 * 2 ^ m"
  shows "clq_counts m (Suc t) h (clq_popped q)"
  unfolding clq_counts_def
proof (intro allI impI)
  fix k :: nat assume k: "k < 2 ^ m"
  have m: "m \<le> 29" using s by (simp add: clq_shape_def)
  have lh: "(of_nat k = get_li q (clq_tail q)) = (t mod 2 ^ m = k)"
    using get_li_nat [OF s, of t] l(1) line_index_eq [OF m k, of "t mod 2 ^ m"] by (auto simp: h)
  have e: "clq_tail q + 1 = of_nat (Suc t)" by (simp add: h)
  have g: "get_li q (clq_tail q + 1) = of_nat (Suc t mod 2 ^ m)" unfolding e by (rule get_li_nat [OF s l(1)])
  have ln: "(of_nat k = get_li q (clq_tail q + 1)) = (Suc t mod 2 ^ m = k)"
    unfolding g using line_index_eq [OF m k, of "Suc t mod 2 ^ m"] by auto
  have b: "line_count (2 ^ m) k (Suc t) \<le> 65534" using k l(2) by (rule line_count_bound)
  have f2: "unat (tf2 (cls (clq_popped q) (of_nat k))) = Suc (line_count (2 ^ m) k (Suc t))"
  proof (cases "t mod 2 ^ m = k")
    case True
    then have "unat (tf2 (cls q (of_nat k))) \<le> 65534" using clq_counts_tf2 [OF c k] b by simp
    with True show ?thesis using clq_counts_tf2 [OF c k] unat_inc_u16 by (simp add: clq_popped_lines lh)
  qed (simp add: clq_popped_lines lh clq_counts_tf2 [OF c k])
  have f1: "unat (tf1 (cls (clq_popped q) (of_nat k))) = line_count (2 ^ m) k (Suc (Suc t))" if "clq_mc q"
  proof (cases "Suc t mod 2 ^ m = k")
    case True
    have "unat (tf1 (cls q (of_nat k))) \<le> 65534" using clq_counts_tf1 [OF c k that] b by simp
    then have "unat (tf1 (cls q (of_nat k)) + 1) = Suc (line_count (2 ^ m) k (Suc t))"
      using clq_counts_tf1 [OF c k that] by (simp only: unat_inc_u16)
    with True that show ?thesis by (simp add: clq_popped_lines ln)
  next
    case False
    then show ?thesis using that clq_counts_tf1 [OF c k that] by (simp add: clq_popped_lines ln)
  qed
  show "unat (hf2 (cls (clq_popped q) (of_nat k))) = Suc (line_count (2 ^ m) k h) \<and>
     unat (tf2 (cls (clq_popped q) (of_nat k))) = Suc (line_count (2 ^ m) k (Suc t)) \<and>
     (clq_mp (clq_popped q) \<longrightarrow> unat (hf1 (cls (clq_popped q) (of_nat k))) = line_count (2 ^ m) k (Suc h)) \<and>
     (clq_mc (clq_popped q) \<longrightarrow> unat (tf1 (cls (clq_popped q) (of_nat k))) = line_count (2 ^ m) k (Suc (Suc t)))"
    unfolding clq_mode_same clq_popped_lines(3,4)
    using f2 f1 clq_counts_hf2 [OF c k] clq_counts_hf1 [OF c k] by blast
qed

section \<open>The relation with a list\<close>

text \<open>\<open>d\<close> is the position at which a consumer of the multi-consumer modes looks first; it is \<open>t\<close>
  except after a \<open>clear\<close>.\<close>

definition clq_rel :: "nat \<Rightarrow> nat \<Rightarrow> nat \<Rightarrow> 'a clqueue \<Rightarrow> 'a list \<Rightarrow> bool" where
  "clq_rel m t d q xs \<longleftrightarrow>
     clq_shape q m \<and> length xs \<le> clq_S q * 2 ^ m \<and> t + length xs < 2 ^ 32 \<and> t + length xs \<le> 65534 * 2 ^ m \<and>
     clq_head q = of_nat (t + length xs) \<and> clq_tail q = of_nat t \<and>
     (\<not> has_flag (clq_flags q) F_SC_DEQ \<longrightarrow> dequeue_overcommit q - overcommit q = of_nat d) \<and>
     clq_counts m t (t + length xs) q \<and>
     (\<forall>i<length xs. slots (cls q (get_li q (of_nat (t + i)))) (get_si q (of_nat (t + i))) = Some (xs ! i))"

lemma clq_relD:
  assumes "clq_rel m t d q xs"
  shows "clq_shape q m" "length xs \<le> clq_S q * 2 ^ m" "t + length xs < 2 ^ 32" "t + length xs \<le> 65534 * 2 ^ m"
    "clq_head q = of_nat (t + length xs)" "clq_tail q = of_nat t"
    "\<not> has_flag (clq_flags q) F_SC_DEQ \<Longrightarrow> dequeue_overcommit q - overcommit q = of_nat d"
    "clq_counts m t (t + length xs) q"
    "i < length xs \<Longrightarrow> slots (cls q (get_li q (of_nat (t + i)))) (get_si q (of_nat (t + i))) = Some (xs ! i)"
  using assms unfolding clq_rel_def by blast+

lemma line_full_rel:
  assumes "clq_rel m t d q xs"
  shows "line_full q (get_li q (clq_head q)) \<longleftrightarrow> length xs = clq_S q * 2 ^ m"
proof -
  note R = clq_relD [OF assms]
  let ?h = "t + length xs" and ?l = "(t + length xs) mod 2 ^ m"
  have l: "?l < 2 ^ m" by simp
  have g: "get_li q (clq_head q) = of_nat ?l" unfolding R(5) by (rule get_li_nat [OF R(1,3)])
  have mono: "line_count (2 ^ m) ?l t \<le> line_count (2 ^ m) ?l ?h" by (rule line_count_mono) simp
  have "line_full q (get_li q (clq_head q)) \<longleftrightarrow>
      int (unat (hf2 (cls q (of_nat ?l)))) - int (unat (tf2 (cls q (of_nat ?l)))) = int (clq_S q)"
    unfolding g line_full_def by simp
  also have "\<dots> \<longleftrightarrow> line_count (2 ^ m) ?l ?h - line_count (2 ^ m) ?l t = clq_S q"
    unfolding clq_counts_hf2 [OF R(8) l] clq_counts_tf2 [OF R(8) l] using mono by linarith
  also have "\<dots> \<longleftrightarrow> ?h = t + clq_S q * 2 ^ m" using R(2) by (intro line_full_iff) simp_all
  finally show ?thesis by simp
qed

lemma line_empty_rel:
  assumes "clq_rel m t d q xs"
  shows "line_empty q (get_li q (of_nat t)) \<longleftrightarrow> xs = []"
proof -
  note R = clq_relD [OF assms]
  let ?l = "t mod 2 ^ m"
  have l: "?l < 2 ^ m" by simp
  have g: "get_li q (of_nat t) = of_nat ?l" using R(3) by (intro get_li_nat [OF R(1)]) simp
  have "line_empty q (get_li q (of_nat t)) \<longleftrightarrow> unat (hf2 (cls q (of_nat ?l))) = unat (tf2 (cls q (of_nat ?l)))"
    unfolding g line_empty_def by (simp add: word_unat_eq_iff)
  also have "\<dots> \<longleftrightarrow> line_count (2 ^ m) ?l (t + length xs) = line_count (2 ^ m) ?l t"
    unfolding clq_counts_hf2 [OF R(8) l] clq_counts_tf2 [OF R(8) l] by simp
  also have "\<dots> \<longleftrightarrow> t + length xs = t" by (rule line_empty_iff) simp
  finally show ?thesis by simp
qed

text \<open>In the ordered modes it is the turn of the next position.\<close>

lemma clq_turn:
  assumes "clq_rel m t d q xs"
  shows "clq_mp q \<Longrightarrow> hf1 (cls q (get_li q (clq_head q))) = hf2 (cls q (get_li q (clq_head q)))"
    and "clq_mc q \<Longrightarrow> tf1 (cls q (get_li q (clq_tail q))) = tf2 (cls q (get_li q (clq_tail q)))"
proof -
  note R = clq_relD [OF assms]
  have h: "get_li q (clq_head q) = of_nat ((t + length xs) mod 2 ^ m)" unfolding R(5) by (rule get_li_nat [OF R(1,3)])
  have t: "get_li q (clq_tail q) = of_nat (t mod 2 ^ m)" unfolding R(6) using R(3) by (intro get_li_nat [OF R(1)]) simp
  have b: "n mod 2 ^ m < 2 ^ m" for n :: nat by simp
  show "clq_mp q \<Longrightarrow> hf1 (cls q (get_li q (clq_head q))) = hf2 (cls q (get_li q (clq_head q)))"
    unfolding h using clq_counts_hf1 [OF R(8) b] clq_counts_hf2 [OF R(8) b] by (simp add: word_unat_eq_iff)
  show "clq_mc q \<Longrightarrow> tf1 (cls q (get_li q (clq_tail q))) = tf2 (cls q (get_li q (clq_tail q)))"
    unfolding t using clq_counts_tf1 [OF R(8) b] clq_counts_tf2 [OF R(8) b] by (simp add: word_unat_eq_iff)
qed

section \<open>The operations\<close>

lemma clq_emplace_eq:
  assumes "clq_rel m t d q xs" "length xs < clq_S q * 2 ^ m"
  shows "clq_emplace_impl TF x q = Ret (True, clq_pushed x q)"
proof -
  have nf: "\<not> line_full q (get_li q (clq_head q))" using line_full_rel [OF assms(1)] assms(2) by simp
  show ?thesis
  proof (cases "has_flag (clq_flags q) F_SP_ENQ")
    case True
    with nf show ?thesis by (simp add: clq_emplace_impl_def clq_pushed_def clq_mp_def Let_def)
  next
    case False
    have "clq_publish (clq_head q) x (q\<lparr>clq_head := clq_head q + 1\<rparr>) = Ret (True, clq_pushed x q)"
    proof (cases "has_flag (clq_flags q) F_MP_ENQ")
      case True
      with False clq_turn(1) [OF assms(1)]
      have "hf1 (cls q (get_li q (clq_head q))) = hf2 (cls q (get_li q (clq_head q)))" by (simp add: clq_mp_def)
      with True False show ?thesis
        by (simp add: clq_publish_def clq_pushed_def clq_construct_def clq_mp_def Let_def cls_upd_line)
    next
      case nomp: False
      with False show ?thesis
        by (simp add: clq_publish_def clq_pushed_def clq_construct_def clq_mp_def Let_def)
    qed
    with False nf show ?thesis by (simp add: clq_emplace_impl_def Let_def)
  qed
qed

lemma clq_push_rel:
  assumes r: "clq_rel m t d q xs" and l: "length xs < clq_S q * 2 ^ m" "Suc (t + length xs) < 2 ^ 32" "Suc (t + length xs) \<le> 65534 * 2 ^ m"
  shows "clq_rel m t d (clq_pushed x q) (xs @ [x])"
proof -
  note R = clq_relD [OF r]
  let ?q = "clq_pushed x q"
  have lay: "get_li ?q n = get_li q n" "get_si ?q n = get_si q n" for n
    by (rule clq_layout_cong; simp add: clq_pushed_fields)+
  have "clq_counts m t (Suc (t + length xs)) ?q" by (rule clq_counts_push [OF R(1,8,5) l(2,3)])
  moreover have "clq_shape ?q m" using R(1) by (simp add: clq_shape_def clq_pushed_fields)
  moreover have "slots (cls ?q (get_li q (of_nat (t + i)))) (get_si q (of_nat (t + i))) = Some ((xs @ [x]) ! i)"
    if "i < Suc (length xs)" for i
  proof (cases "i = length xs")
    case True
    then show ?thesis by (simp add: clq_pushed_lines R(5))
  next
    case False
    with that have i: "i < length xs" by simp
    then have "get_li q (of_nat (t + i)) \<noteq> get_li q (of_nat (t + length xs)) \<or>
        get_si q (of_nat (t + i)) \<noteq> get_si q (of_nat (t + length xs))"
      using l(1) R(3) by (intro clq_places_differ [OF R(1)]) simp_all
    then show ?thesis using R(9) [OF i] i by (auto simp: clq_pushed_lines R(5) nth_append)
  qed
  moreover have "clq_head ?q = of_nat (t + length (xs @ [x]))" by (simp add: clq_pushed_fields R(5))
  ultimately show ?thesis
    using l R(6,7) unfolding clq_rel_def lay by (simp add: clq_pushed_fields)
qed

lemma line_empty_cong: "cls q' = cls q \<Longrightarrow> line_empty q' l = line_empty q l"
  by (simp add: line_empty_def)

lemma clq_pop_eq:
  assumes "clq_rel m t t q (x # xs)"
  shows "clq_pop q = Ret (Some x, clq_popped q)"
proof -
  note R = clq_relD [OF assms]
  have ne: "\<not> line_empty q (get_li q (of_nat t))" using line_empty_rel [OF assms] by simp
  have sl: "slots (cls q (get_li q (of_nat t))) (get_si q (of_nat t)) = Some x" using R(9) [of 0] by simp
  show ?thesis
  proof (cases "has_flag (clq_flags q) F_SC_DEQ")
    case True
    with ne sl show ?thesis
      by (simp add: clq_pop_def clq_popped_def clq_mc_def clq_move_out_def clq_destroy_def Let_def R(6))
  next
    case False
    have d: "dequeue_overcommit q - overcommit q = of_nat t" using R(7) False by simp
    have e: "\<not> line_empty (q\<lparr>dequeue_overcommit := a\<rparr>) (get_li q (of_nat t))"
      "\<not> line_empty (q\<lparr>dequeue_overcommit := a, clq_tail := b\<rparr>) (get_li q (of_nat t))" for a b
      using ne by (simp_all add: line_empty_def)
    have tt: "tf1 (cls q (get_li q (of_nat t))) = tf2 (cls q (get_li q (of_nat t)))" if "has_flag (clq_flags q) F_MC_DEQ"
      using clq_turn(2) [OF assms] that False by (simp add: clq_mc_def R(6))
    show ?thesis
      using False e sl tt
      by (simp add: clq_pop_def clq_popped_def clq_mc_def clq_move_out_def clq_destroy_def Let_def R(6) d cls_upd_line)
  qed
qed

lemma clq_pop_rel:
  assumes r: "clq_rel m t t q (x # xs)"
  shows "clq_rel m (Suc t) (Suc t) (clq_popped q) xs"
proof -
  note R = clq_relD [OF r]
  let ?q = "clq_popped q"
  have lay: "get_li ?q n = get_li q n" "get_si ?q n = get_si q n" for n
    by (rule clq_layout_cong; simp add: clq_popped_fields)+
  have h: "t + length (x # xs) = Suc t + length xs" by simp
  have "clq_counts m (Suc t) (Suc t + length xs) ?q"
    using R(3,4,8) by (intro clq_counts_pop [OF R(1) _ R(6)]) simp_all
  moreover have "clq_shape ?q m" using R(1) by (simp add: clq_shape_def clq_popped_fields)
  moreover have "slots (cls ?q (get_li q (of_nat (Suc t + i)))) (get_si q (of_nat (Suc t + i))) = Some (xs ! i)"
    if "i < length xs" for i
  proof -
    have "get_li q (of_nat t) \<noteq> get_li q (of_nat (Suc t + i)) \<or> get_si q (of_nat t) \<noteq> get_si q (of_nat (Suc t + i))"
      using that R(2,3) by (intro clq_places_differ [OF R(1)]) simp_all
    moreover have "slots (cls q (get_li q (of_nat (Suc t + i)))) (get_si q (of_nat (Suc t + i))) = Some (xs ! i)"
      using R(9) [of "Suc i"] that by simp
    ultimately show ?thesis by (auto simp: clq_popped_lines R(6))
  qed
  moreover have "clq_tail ?q = of_nat (Suc t)" "clq_head ?q = of_nat (Suc t + length xs)"
    using R(5) by (simp_all add: clq_popped_fields R(6))
  moreover have "dequeue_overcommit ?q - overcommit ?q = of_nat (Suc t)" if "\<not> has_flag (clq_flags q) F_SC_DEQ"
    using R(7) [OF that] that by (simp add: clq_popped_fields algebra_simps)
  ultimately show ?thesis
    using R(2-4) unfolding clq_rel_def lay by (simp add: clq_popped_fields)
qed

lemma clq_pop_none:
  assumes r: "clq_rel m t t q []"
  shows "\<exists>q'. clq_pop q = Ret (None, q') \<and> clq_rel m t t q' [] \<and> clq_max_size q' = clq_max_size q"
proof (cases "has_flag (clq_flags q) F_SC_DEQ")
  case True
  then show ?thesis using r line_empty_rel [OF r] clq_relD(6) [OF r] by (simp add: clq_pop_def)
next
  case False
  note R = clq_relD [OF r]
  let ?q = "q\<lparr>dequeue_overcommit := dequeue_overcommit q + 1, overcommit := overcommit q + 1\<rparr>"
  have d: "dequeue_overcommit q - overcommit q = of_nat t" using R(7) False by simp
  have "line_empty (q\<lparr>dequeue_overcommit := a\<rparr>) (get_li q (of_nat t))" for a
    using line_empty_rel [OF r] by (simp add: line_empty_def)
  then have "clq_pop q = Ret (None, ?q)" using False by (simp add: clq_pop_def Let_def d)
  moreover have "clq_rel m t t ?q []"
    using r d by (simp add: clq_rel_def clq_shape_def clq_counts_def clq_mp_def clq_mc_def)
  ultimately show ?thesis by (intro exI [of _ ?q]) simp
qed

end
