(* ===== verification/CLQueue_Conc.thy ===== *)
theory CLQueue_Conc
  imports CLQueue_Contract ConQueue_Conc
begin

text \<open>
  \<open>CLQueue\<close> used by several threads: \<open>emplace_impl\<close> (\<open>push\<close>, \<open>emplace\<close> and their \<open>_unsafe\<close> variants) and \<open>pop\<close> in
  every mode, as a step function. One step is one access to \<open>head\<close>, \<open>tail\<close>, \<open>dequeue_overcommit\<close>,
  \<open>overcommit\<close> or a slot; the increment \<open>++\<close> of a counter of a line is two, a load and a store. A test that
  compares two counters of one line is one step: in the single modes the thread itself is the only writer of
  one of the two. (For the other modes more interleavings exist than the model has.)
\<close>

section \<open>Calls and control points\<close>

datatype 'a lq_call = LqPush 'a | LqPushUnsafe 'a | LqPop

fun lq_value :: "'a lq_call \<Rightarrow> 'a list" where
  "lq_value (LqPush x) = [x]"
| "lq_value (LqPushUnsafe x) = [x]"
| "lq_value LqPop = []"

datatype 'a lq_pc =
    LqIdle
  | LqTest "'a lq_call" 'a u32         \<comment> \<open>oh loaded; is its line full?\<close>
  | LqClaim "'a lq_call" 'a u32        \<comment> \<open>single producer: head.fetch_add\<close>
  | LqCas "'a lq_call" 'a u32          \<comment> \<open>compare-exchange of head\<close>
  | LqCheck "'a lq_call" 'a u32        \<comment> \<open>unsafe: the test after the claim\<close>
  | LqWrite "'a lq_call" 'a u32        \<comment> \<open>placement new\<close>
  | LqTurn "'a lq_call" 'a u32         \<comment> \<open>while (cl->hf1 != cl->hf2)\<close>
  | LqPass "'a lq_call" 'a u32         \<comment> \<open>++cls[next_li].hf1: the load\<close>
  | LqPassed "'a lq_call" 'a u32 u16   \<comment> \<open>... and the store\<close>
  | LqCount "'a lq_call" 'a u32        \<comment> \<open>++cl->hf2: the load\<close>
  | LqCounted "'a lq_call" 'a u32 u16  \<comment> \<open>... and the store\<close>
  | LqLook u32                         \<comment> \<open>doc fetched; overcommit.load\<close>
  | LqSeek u32                         \<comment> \<open>is the line of ot empty?\<close>
  | LqMiss                             \<comment> \<open>overcommit.fetch_add\<close>
  | LqTake u32                         \<comment> \<open>tail.fetch_add\<close>
  | LqWait u32                         \<comment> \<open>while (cl->hf2 == cl->tf2)\<close>
  | LqRead u32                         \<comment> \<open>move and destructor\<close>
  | LqGone 'a u32                      \<comment> \<open>while (cl->tf1 != cl->tf2)\<close>
  | LqHand 'a u32                      \<comment> \<open>++cls[next_li].tf1: the load\<close>
  | LqHanded 'a u32 u16                \<comment> \<open>... and the store\<close>
  | LqDrop 'a u32                      \<comment> \<open>++cl->tf2: the load\<close>
  | LqDropped 'a u32 u16               \<comment> \<open>... and the store\<close>

datatype 'a lq_result = LqTrue "'a list" | LqFalse | LqThrow

text \<open>
  History: \<open>lq_in\<close> are the elements of all claimed pushes in the order of their claims, \<open>lq_log\<close> the completed
  calls; \<open>lq_lost\<close> are live elements over which another was constructed; \<open>lq_ub\<close> records a move from a slot that
  holds no object.
\<close>

record 'a lq_state =
  lq_q :: "'a clqueue"
  lq_pc :: "nat \<Rightarrow> 'a lq_pc"
  lq_in :: "'a list"
  lq_log :: "(nat \<times> 'a lq_call \<times> 'a lq_result) list"
  lq_lost :: "'a list"
  lq_ub :: bool

definition lq_start :: "'a clqueue \<Rightarrow> 'a lq_state" where
  "lq_start q = \<lparr>lq_q = q, lq_pc = (\<lambda>_. LqIdle), lq_in = [], lq_log = [], lq_lost = [], lq_ub = False\<rparr>"

definition lq_goto :: "nat \<Rightarrow> 'a lq_pc \<Rightarrow> 'a lq_state \<Rightarrow> 'a lq_state" where
  "lq_goto t p s = s\<lparr>lq_pc := (lq_pc s)(t := p)\<rparr>"

definition lq_return :: "nat \<Rightarrow> 'a lq_call \<Rightarrow> 'a lq_result \<Rightarrow> 'a lq_state \<Rightarrow> 'a lq_state" where
  "lq_return t c r s = s\<lparr>lq_pc := (lq_pc s)(t := LqIdle), lq_log := lq_log s @ [(t, c, r)]\<rparr>"

definition lq_claim :: "'a \<Rightarrow> 'a lq_state \<Rightarrow> 'a lq_state" where
  "lq_claim x s = s\<lparr>lq_q := (lq_q s)\<lparr>clq_head := clq_head (lq_q s) + 1\<rparr>, lq_in := lq_in s @ [x]\<rparr>"

definition lq_upd :: "u32 \<Rightarrow> ('a cache_line \<Rightarrow> 'a cache_line) \<Rightarrow> 'a lq_state \<Rightarrow> 'a lq_state" where
  "lq_upd li f s = s\<lparr>lq_q := upd_line li f (lq_q s)\<rparr>"

abbreviation "lq_sp q \<equiv> has_flag (clq_flags q) F_SP_ENQ"
abbreviation "lq_sc q \<equiv> has_flag (clq_flags q) F_SC_DEQ"

section \<open>Steps\<close>

text \<open>The beginning of a call, up to its first access.\<close>

fun lq_begin :: "nat \<Rightarrow> 'a lq_call \<Rightarrow> 'a lq_state \<Rightarrow> 'a lq_state" where
  "lq_begin t (LqPush x) s = lq_goto t (LqTest (LqPush x) x (clq_head (lq_q s))) s"
| "lq_begin t (LqPushUnsafe x) s =
     (if lq_sp (lq_q s) then lq_goto t (LqTest (LqPushUnsafe x) x (clq_head (lq_q s))) s
      else lq_goto t (LqCheck (LqPushUnsafe x) x (clq_head (lq_q s))) (lq_claim x s))"
| "lq_begin t LqPop s =
     (if lq_sc (lq_q s) then lq_goto t (LqSeek (clq_tail (lq_q s))) s
      else lq_goto t (LqLook (dequeue_overcommit (lq_q s)))
        (s\<lparr>lq_q := (lq_q s)\<lparr>dequeue_overcommit := dequeue_overcommit (lq_q s) + 1\<rparr>\<rparr>))"

text \<open>Placement new; an object that is alive in the slot is lost.\<close>

definition lq_write :: "u32 \<Rightarrow> 'a \<Rightarrow> 'a lq_state \<Rightarrow> 'a lq_state" where
  "lq_write oh x s =
     (let q = lq_q s; li = get_li q oh; si = get_si q oh
      in s\<lparr>lq_q := clq_construct li si x q,
           lq_lost := lq_lost s @ (case slots (cls q li) si of None \<Rightarrow> [] | Some y \<Rightarrow> [y])\<rparr>)"

text \<open>The next access of thread \<open>t\<close> at control point \<open>p\<close>; \<open>fails\<close> makes a weak compare-exchange fail.\<close>

fun lq_next :: "bool \<Rightarrow> nat \<Rightarrow> 'a lq_pc \<Rightarrow> 'a lq_state \<Rightarrow> 'a lq_state" where
  "lq_next fails t LqIdle s = s"
| "lq_next fails t (LqTest c x oh) s =
     (if line_full (lq_q s) (get_li (lq_q s) oh) then lq_return t c LqFalse s
      else lq_goto t (if lq_sp (lq_q s) then LqClaim c x oh else LqCas c x oh) s)"
| "lq_next fails t (LqClaim c x oh) s = lq_goto t (LqWrite c x oh) (lq_claim x s)"
| "lq_next fails t (LqCas c x oh) s =
     (if \<not> fails \<and> clq_head (lq_q s) = oh then lq_goto t (LqWrite c x oh) (lq_claim x s)
      else lq_goto t (LqTest c x (clq_head (lq_q s))) s)"
| "lq_next fails t (LqCheck c x oh) s =
     (if line_full (lq_q s) (get_li (lq_q s) oh) then lq_return t c LqThrow s else lq_goto t (LqWrite c x oh) s)"
| "lq_next fails t (LqWrite c x oh) s =
     lq_goto t (if \<not> lq_sp (lq_q s) \<and> has_flag (clq_flags (lq_q s)) F_MP_ENQ then LqTurn c x oh else LqCount c x oh) (lq_write oh x s)"
| "lq_next fails t (LqTurn c x oh) s =
     (let cl = cls (lq_q s) (get_li (lq_q s) oh) in if hf1 cl \<noteq> hf2 cl then s else lq_goto t (LqPass c x oh) s)"
| "lq_next fails t (LqPass c x oh) s = lq_goto t (LqPassed c x oh (hf1 (cls (lq_q s) (get_li (lq_q s) (oh + 1))))) s"
| "lq_next fails t (LqPassed c x oh w) s =
     lq_goto t (LqCount c x oh) (lq_upd (get_li (lq_q s) (oh + 1)) (\<lambda>cl. cl\<lparr>hf1 := w + 1\<rparr>) s)"
| "lq_next fails t (LqCount c x oh) s = lq_goto t (LqCounted c x oh (hf2 (cls (lq_q s) (get_li (lq_q s) oh)))) s"
| "lq_next fails t (LqCounted c x oh w) s =
     lq_return t c (LqTrue [x]) (lq_upd (get_li (lq_q s) oh) (\<lambda>cl. cl\<lparr>hf2 := w + 1\<rparr>) s)"
| "lq_next fails t (LqLook doc) s = lq_goto t (LqSeek (doc - overcommit (lq_q s))) s"
| "lq_next fails t (LqSeek ot) s =
     (if line_empty (lq_q s) (get_li (lq_q s) ot) then (if lq_sc (lq_q s) then lq_return t LqPop LqFalse s else lq_goto t LqMiss s)
      else lq_goto t (LqTake ot) s)"
| "lq_next fails t LqMiss s = lq_return t LqPop LqFalse (s\<lparr>lq_q := (lq_q s)\<lparr>overcommit := overcommit (lq_q s) + 1\<rparr>\<rparr>)"
| "lq_next fails t (LqTake ot) s =
     lq_goto t (if lq_sc (lq_q s) then LqRead ot else LqWait (clq_tail (lq_q s)))
       (s\<lparr>lq_q := (lq_q s)\<lparr>clq_tail := clq_tail (lq_q s) + 1\<rparr>\<rparr>)"
| "lq_next fails t (LqWait ot) s = (if line_empty (lq_q s) (get_li (lq_q s) ot) then s else lq_goto t (LqRead ot) s)"
| "lq_next fails t (LqRead ot) s =
     (case clq_move_out (get_li (lq_q s) ot) (get_si (lq_q s) ot) (lq_q s) of
        Ret (y, q) \<Rightarrow> lq_goto t (if \<not> lq_sc (lq_q s) \<and> has_flag (clq_flags (lq_q s)) F_MC_DEQ then LqGone y ot else LqDrop y ot) (s\<lparr>lq_q := q\<rparr>)
      | _ \<Rightarrow> s\<lparr>lq_ub := True\<rparr>)"
| "lq_next fails t (LqGone y ot) s =
     (let cl = cls (lq_q s) (get_li (lq_q s) ot) in if tf1 cl \<noteq> tf2 cl then s else lq_goto t (LqHand y ot) s)"
| "lq_next fails t (LqHand y ot) s = lq_goto t (LqHanded y ot (tf1 (cls (lq_q s) (get_li (lq_q s) (ot + 1))))) s"
| "lq_next fails t (LqHanded y ot w) s =
     lq_goto t (LqDrop y ot) (lq_upd (get_li (lq_q s) (ot + 1)) (\<lambda>cl. cl\<lparr>tf1 := w + 1\<rparr>) s)"
| "lq_next fails t (LqDrop y ot) s = lq_goto t (LqDropped y ot (tf2 (cls (lq_q s) (get_li (lq_q s) ot)))) s"
| "lq_next fails t (LqDropped y ot w) s =
     lq_return t LqPop (LqTrue [y]) (lq_upd (get_li (lq_q s) ot) (\<lambda>cl. cl\<lparr>tf2 := w + 1\<rparr>) s)"

text \<open>In a single mode only the thread \<open>solo e\<close> uses the end \<open>e\<close>.\<close>

definition lq_may :: "(cq_end \<Rightarrow> nat) \<Rightarrow> 'a clqueue \<Rightarrow> nat \<Rightarrow> 'a lq_call \<Rightarrow> bool" where
  "lq_may solo q t c \<longleftrightarrow> (if c = LqPop then lq_sc q \<longrightarrow> t = solo ConsEnd else lq_sp q \<longrightarrow> t = solo ProdEnd)"

definition lq_thread :: "(cq_end \<Rightarrow> nat) \<Rightarrow> nat \<Rightarrow> 'a lq_state \<Rightarrow> 'a lq_state \<Rightarrow> bool" where
  "lq_thread solo t s s' \<longleftrightarrow>
     (if lq_pc s t = LqIdle then \<exists>c. lq_may solo (lq_q s) t c \<and> s' = lq_begin t c s
      else \<exists>fails. s' = lq_next fails t (lq_pc s t) s)"

definition lq_step :: "(cq_end \<Rightarrow> nat) \<Rightarrow> nat \<Rightarrow> 'a lq_state \<Rightarrow> 'a lq_state \<Rightarrow> bool" where
  "lq_step solo N s s' \<longleftrightarrow> (\<exists>t<N. lq_thread solo t s s')"

section \<open>Schedules\<close>

datatype 'a lq_move = LqBegin nat "'a lq_call" | LqGo nat | LqFail nat

fun lq_act :: "'a lq_move \<Rightarrow> 'a lq_state \<Rightarrow> 'a lq_state option" where
  "lq_act (LqBegin t c) s = (if lq_pc s t = LqIdle then Some (lq_begin t c s) else None)"
| "lq_act (LqGo t) s = (if lq_pc s t = LqIdle then None else Some (lq_next False t (lq_pc s t) s))"
| "lq_act (LqFail t) s = (if lq_pc s t = LqIdle then None else Some (lq_next True t (lq_pc s t) s))"

fun lq_run :: "'a lq_move list \<Rightarrow> 'a lq_state \<Rightarrow> 'a lq_state option" where
  "lq_run [] s = Some s"
| "lq_run (a # as) s = (case lq_act a s of None \<Rightarrow> None | Some s \<Rightarrow> lq_run as s)"

fun lq_mover :: "'a lq_move \<Rightarrow> nat" where
  "lq_mover (LqBegin t c) = t"
| "lq_mover (LqGo t) = t"
| "lq_mover (LqFail t) = t"

end
