(* ===== verification/CLQueue_Conc_Spsc.thy ===== *)
theory CLQueue_Conc_Spsc
  imports CLQueue_Conc
begin

text \<open>
  The state of a \<open>CLQueue\<close> between a single producer and a single consumer that run at the same time. Of the
  elements \<open>xs\<close> claimed by pushes the first \<open>W\<close> are constructed and the first \<open>P\<close> counted; \<open>T\<close> are claimed by
  pops, the first \<open>D\<close> of them moved out and the first \<open>K\<close> counted.
\<close>

section \<open>The queue between two threads\<close>

abbreviation lq_slot :: "'a clqueue \<Rightarrow> nat \<Rightarrow> 'a option" where
  "lq_slot q i \<equiv> slots (cls q (get_li q (of_nat i))) (get_si q (of_nat i))"

definition lq_cells :: "nat \<Rightarrow> 'a clqueue \<Rightarrow> 'a list \<Rightarrow> nat \<Rightarrow> nat \<Rightarrow> bool" where
  "lq_cells m q xs D W \<longleftrightarrow>
     (\<forall>i. D \<le> i \<and> i < W \<longrightarrow> lq_slot q i = Some (xs ! i)) \<and>
     (\<forall>i. W \<le> i \<and> i < D + clq_S q * 2 ^ m \<and> i < 2 ^ 32 \<longrightarrow> lq_slot q i = None)"

definition lq_core :: "nat \<Rightarrow> 'a clqueue \<Rightarrow> 'a list \<Rightarrow> nat \<Rightarrow> nat \<Rightarrow> nat \<Rightarrow> nat \<Rightarrow> nat \<Rightarrow> bool" where
  "lq_core m q xs W P T D K \<longleftrightarrow>
     clq_shape q m \<and> lq_sp q \<and> lq_sc q \<and> clq_head q = of_nat (length xs) \<and> clq_tail q = of_nat T \<and>
     P \<le> W \<and> W \<le> length xs \<and> T \<le> P \<and> K \<le> D \<and> D \<le> T \<and> length xs \<le> K + clq_S q * 2 ^ m \<and>
     clq_counts m K P q \<and> lq_cells m q xs D W"

lemma lq_coreD:
  assumes "lq_core m q xs W P T D K"
  shows "clq_shape q m" "lq_sp q" "lq_sc q" "clq_head q = of_nat (length xs)" "clq_tail q = of_nat T"
    "P \<le> W" "W \<le> length xs" "T \<le> P" "K \<le> D" "D \<le> T" "length xs \<le> K + clq_S q * 2 ^ m"
    "clq_counts m K P q" "lq_cells m q xs D W" "\<not> clq_mp q" "\<not> clq_mc q"
  using assms unfolding lq_core_def clq_mp_def clq_mc_def by blast+

text \<open>A change of one counter or one slot.\<close>

lemma counts_hf2:
  assumes s: "clq_shape q m" and c: "clq_counts m K P q" and n: "\<not> clq_mp q" "\<not> clq_mc q"
    and l: "Suc P < 2 ^ 32" "Suc P \<le> 65534 * 2 ^ m"
  shows "clq_counts m K (Suc P) (upd_line (get_li q (of_nat P)) (\<lambda>cl. cl\<lparr>hf2 := hf2 cl + 1\<rparr>) q)"
proof -
  have m: "m \<le> 29" using s by (simp add: clq_shape_def)
  have P: "P < 2 ^ 32" using l(1) by simp
  have lk: "(of_nat k = get_li q (of_nat P)) = (P mod 2 ^ m = k)" if "k < 2 ^ m" for k
    unfolding get_li_nat [OF s P] using line_index_eq [OF m that, of "P mod 2 ^ m"] by auto
  have b: "unat (hf2 (cls q (of_nat k)) + 1) = Suc (unat (hf2 (cls q (of_nat k))))" if "k < 2 ^ m" "P mod 2 ^ m = k" for k
  proof -
    have "line_count (2 ^ m) k (Suc P) \<le> 65534" by (rule line_count_bound [OF that(1) l(2)])
    then show ?thesis using clq_counts_hf2 [OF c that(1)] that(2) by (intro unat_inc_u16) simp
  qed
  show ?thesis
    using c n b unfolding clq_counts_def by (simp add: cls_upd_line lk clq_mp_def clq_mc_def)
qed

lemma counts_tf2:
  assumes s: "clq_shape q m" and c: "clq_counts m K P q" and n: "\<not> clq_mp q" "\<not> clq_mc q"
    and l: "Suc K < 2 ^ 32" "Suc K \<le> 65534 * 2 ^ m"
  shows "clq_counts m (Suc K) P (upd_line (get_li q (of_nat K)) (\<lambda>cl. cl\<lparr>tf2 := tf2 cl + 1\<rparr>) q)"
proof -
  have m: "m \<le> 29" using s by (simp add: clq_shape_def)
  have K: "K < 2 ^ 32" using l(1) by simp
  have lk: "(of_nat k = get_li q (of_nat K)) = (K mod 2 ^ m = k)" if "k < 2 ^ m" for k
    unfolding get_li_nat [OF s K] using line_index_eq [OF m that, of "K mod 2 ^ m"] by auto
  have b: "unat (tf2 (cls q (of_nat k)) + 1) = Suc (unat (tf2 (cls q (of_nat k))))" if "k < 2 ^ m" "K mod 2 ^ m = k" for k
  proof -
    have "line_count (2 ^ m) k (Suc K) \<le> 65534" by (rule line_count_bound [OF that(1) l(2)])
    then show ?thesis using clq_counts_tf2 [OF c that(1)] that(2) by (intro unat_inc_u16) simp
  qed
  show ?thesis
    using c n b unfolding clq_counts_def by (simp add: cls_upd_line lk clq_mp_def clq_mc_def)
qed

lemma lq_slot_upd:
  assumes "clq_shape q m" "i < 2 ^ 32" "j < 2 ^ 32" "j < i + clq_S q * 2 ^ m" "i < j + clq_S q * 2 ^ m"
  shows "lq_slot (upd_line (get_li q (of_nat i)) (\<lambda>cl. cl\<lparr>slots := (slots cl)(get_si q (of_nat i) := v)\<rparr>) q) j =
    (if j = i then v else lq_slot q j)"
proof (cases "j = i")
  case True
  then show ?thesis by (simp add: cls_upd_line)
next
  case False
  then have "get_li q (of_nat i) \<noteq> get_li q (of_nat j) \<or> get_si q (of_nat i) \<noteq> get_si q (of_nat j)"
    using clq_places_differ [OF assms(1), of i j] clq_places_differ [OF assms(1), of j i] assms by (metis linorder_neqE_nat)
  then show ?thesis using False by (auto simp: cls_upd_line)
qed

lemma slots_counter:
  "slots (cls (upd_line l (\<lambda>cl. cl\<lparr>hf2 := f cl\<rparr>) q) k) = slots (cls q k)"
  "slots (cls (upd_line l (\<lambda>cl. cl\<lparr>tf2 := f cl\<rparr>) q) k) = slots (cls q k)"
  by (simp_all add: cls_upd_line)

lemma counts_slots:
  "clq_counts m K P (upd_line l (\<lambda>cl. cl\<lparr>slots := f cl\<rparr>) q) = clq_counts m K P q"
proof -
  have "hf2 (cls (upd_line l (\<lambda>cl. cl\<lparr>slots := f cl\<rparr>) q) k) = hf2 (cls q k)" "tf2 (cls (upd_line l (\<lambda>cl. cl\<lparr>slots := f cl\<rparr>) q) k) = tf2 (cls q k)"
    "hf1 (cls (upd_line l (\<lambda>cl. cl\<lparr>slots := f cl\<rparr>) q) k) = hf1 (cls q k)" "tf1 (cls (upd_line l (\<lambda>cl. cl\<lparr>slots := f cl\<rparr>) q) k) = tf1 (cls q k)" for k
    by (simp_all add: cls_upd_line)
  then show ?thesis by (simp only: clq_counts_def clq_mp_def clq_mc_def upd_line_fields)
qed

section \<open>The tests\<close>

lemma core_full:
  assumes c: "lq_core m q xs W P T D K" and P: "P = length xs" and b: "length xs < 2 ^ 32"
  shows "line_full q (get_li q (of_nat (length xs))) \<longleftrightarrow> length xs = K + clq_S q * 2 ^ m"
proof -
  note C = lq_coreD [OF c]
  let ?l = "length xs mod 2 ^ m"
  have l: "?l < 2 ^ m" by simp
  have g: "get_li q (of_nat (length xs)) = of_nat ?l" by (rule get_li_nat [OF C(1) b])
  have K: "K \<le> length xs" using C(6-10) by linarith
  have mono: "line_count (2 ^ m) ?l K \<le> line_count (2 ^ m) ?l (length xs)" by (rule line_count_mono [OF K])
  have "line_full q (get_li q (of_nat (length xs))) \<longleftrightarrow>
      int (unat (hf2 (cls q (of_nat ?l)))) - int (unat (tf2 (cls q (of_nat ?l)))) = int (clq_S q)"
    unfolding g line_full_def by simp
  also have "\<dots> \<longleftrightarrow> line_count (2 ^ m) ?l (length xs) - line_count (2 ^ m) ?l K = clq_S q"
    unfolding clq_counts_hf2 [OF C(12) l] clq_counts_tf2 [OF C(12) l] P using mono by linarith
  also have "\<dots> \<longleftrightarrow> length xs = K + clq_S q * 2 ^ m" using C(11) K by (intro line_full_iff) simp_all
  finally show ?thesis .
qed

lemma core_empty:
  assumes c: "lq_core m q xs W P T D K" and K: "K = T" and b: "length xs < 2 ^ 32"
  shows "line_empty q (get_li q (of_nat T)) \<longleftrightarrow> P = T"
proof -
  note C = lq_coreD [OF c]
  let ?l = "T mod 2 ^ m"
  have l: "?l < 2 ^ m" by simp
  have "T < 2 ^ 32" using C(6-8) b by linarith
  then have g: "get_li q (of_nat T) = of_nat ?l" by (rule get_li_nat [OF C(1)])
  have "line_empty q (get_li q (of_nat T)) \<longleftrightarrow> unat (hf2 (cls q (of_nat ?l))) = unat (tf2 (cls q (of_nat ?l)))"
    unfolding g line_empty_def by (simp add: word_unat_eq_iff)
  also have "\<dots> \<longleftrightarrow> line_count (2 ^ m) ?l P = line_count (2 ^ m) ?l T"
    unfolding clq_counts_hf2 [OF C(12) l] clq_counts_tf2 [OF C(12) l] K by simp
  also have "\<dots> \<longleftrightarrow> P = T" using C(8) by (intro line_empty_iff) simp
  finally show ?thesis .
qed

section \<open>The accesses\<close>

lemma core_claim:
  assumes c: "lq_core m q xs W P T D K" and "length xs < K + clq_S q * 2 ^ m"
  shows "lq_core m (q\<lparr>clq_head := clq_head q + 1\<rparr>) (xs @ [x]) W P T D K"
proof -
  note C = lq_coreD [OF c]
  have "lq_cells m (q\<lparr>clq_head := v\<rparr>) (xs @ [x]) D W" for v
    using C(7,13) by (simp add: lq_cells_def nth_append)
  moreover have "clq_counts m K P (q\<lparr>clq_head := v\<rparr>)" for v
    using C(12) by (simp add: clq_counts_def clq_mp_def clq_mc_def)
  moreover have "clq_shape (q\<lparr>clq_head := v\<rparr>) m" for v using C(1) by (simp add: clq_shape_def)
  ultimately show ?thesis using C assms(2) by (simp add: lq_core_def)
qed

lemma core_take:
  assumes c: "lq_core m q xs W P T D K" and "T < P"
  shows "lq_core m (q\<lparr>clq_tail := clq_tail q + 1\<rparr>) xs W P (Suc T) D K"
proof -
  note C = lq_coreD [OF c]
  have "lq_cells m (q\<lparr>clq_tail := v\<rparr>) xs D W" for v
    using C(13) by (simp add: lq_cells_def)
  moreover have "clq_counts m K P (q\<lparr>clq_tail := v\<rparr>)" for v
    using C(12) by (simp add: clq_counts_def clq_mp_def clq_mc_def)
  moreover have "clq_shape (q\<lparr>clq_tail := v\<rparr>) m" for v using C(1) by (simp add: clq_shape_def)
  ultimately show ?thesis using C assms(2) by (simp add: lq_core_def)
qed

lemma core_write:
  assumes c: "lq_core m q xs W P T D K" and W: "W < length xs" and b: "length xs < 2 ^ 32"
  shows "lq_slot q W = None" "lq_core m (clq_construct (get_li q (of_nat W)) (get_si q (of_nat W)) (xs ! W) q) xs (Suc W) P T D K"
proof -
  note C = lq_coreD [OF c]
  have w: "W < D + clq_S q * 2 ^ m" "W < 2 ^ 32" using C(9,11) W b by linarith+
  then show "lq_slot q W = None" using C(13) by (simp add: lq_cells_def)
  let ?q = "clq_construct (get_li q (of_nat W)) (get_si q (of_nat W)) (xs ! W) q"
  have slot: "lq_slot ?q j = (if j = W then Some (xs ! W) else lq_slot q j)"
    if "D \<le> j" "j < D + clq_S q * 2 ^ m" "j < 2 ^ 32" for j
    using lq_slot_upd [OF C(1) w(2) that(3), of "Some (xs ! W)"] that w C(6-10) by (simp add: clq_construct_def)
  have "lq_cells m ?q xs D (Suc W)"
    unfolding lq_cells_def
  proof (intro conjI allI impI)
    fix i assume i: "D \<le> i \<and> i < Suc W"
    then have "i < D + clq_S q * 2 ^ m" "i < 2 ^ 32" using w by linarith+
    then show "lq_slot ?q i = Some (xs ! i)"
      using slot [of i] i C(13) by (auto simp: lq_cells_def less_Suc_eq)
  next
    fix i assume i: "Suc W \<le> i \<and> i < D + clq_S ?q * 2 ^ m \<and> i < 2 ^ 32"
    then have "i < D + clq_S q * 2 ^ m" by (simp add: clq_construct_def)
    then show "lq_slot ?q i = None"
      using slot [of i] i C(6-10,13) by (auto simp: lq_cells_def)
  qed
  moreover have "clq_counts m K P ?q"
    using C(12) by (simp add: clq_construct_def counts_slots)
  ultimately show "lq_core m ?q xs (Suc W) P T D K"
    using C W by (simp add: lq_core_def clq_construct_def)
qed

lemma core_read:
  assumes c: "lq_core m q xs W P T D K" and D: "D < T" and b: "length xs < 2 ^ 32" and KD: "K = D"
  shows "\<exists>q'. clq_move_out (get_li q (of_nat D)) (get_si q (of_nat D)) q = Ret (xs ! D, q') \<and> lq_core m q' xs W P T (Suc D) K"
proof -
  note C = lq_coreD [OF c]
  have d: "D < W" "D < 2 ^ 32" using C(6-8) D b by linarith+
  then have s: "lq_slot q D = Some (xs ! D)" using C(13) by (simp add: lq_cells_def)
  let ?q = "upd_line (get_li q (of_nat D)) (\<lambda>cl. cl\<lparr>slots := (slots cl)(get_si q (of_nat D) := None)\<rparr>) q"
  have mv: "clq_move_out (get_li q (of_nat D)) (get_si q (of_nat D)) q = Ret (xs ! D, ?q)"
    using s by (simp add: clq_move_out_def clq_destroy_def)
  have S: "1 \<le> clq_S q * 2 ^ m" using clq_S_bounds [OF C(1)] by (simp add: Suc_le_eq)
  have slot: "lq_slot ?q j = (if j = D then None else lq_slot q j)"
    if "D \<le> j" "j < D + clq_S q * 2 ^ m" "j < 2 ^ 32" for j
    using lq_slot_upd [OF C(1) d(2) that(3), of None] that by simp
  have lap: "lq_slot ?q (D + clq_S q * 2 ^ m) = None" if "D + clq_S q * 2 ^ m < 2 ^ 32"
  proof -
    have "(D + clq_S q * 2 ^ m) div 2 ^ m mod clq_S q = D div 2 ^ m mod clq_S q" by simp
    then show ?thesis
      using that get_li_nat [OF C(1) that] get_li_nat [OF C(1) d(2)] get_si_nat [OF C(1) that] get_si_nat [OF C(1) d(2)]
      by (simp add: cls_upd_line)
  qed
  have "lq_cells m ?q xs (Suc D) W"
    unfolding lq_cells_def
  proof (intro conjI allI impI)
    fix i assume i: "Suc D \<le> i \<and> i < W"
    then have "i < D + clq_S q * 2 ^ m" "i < 2 ^ 32" using C(7,11) KD b by linarith+
    then show "lq_slot ?q i = Some (xs ! i)"
      using slot [of i] i C(13) by (auto simp: lq_cells_def)
  next
    fix i assume i: "W \<le> i \<and> i < Suc D + clq_S ?q * 2 ^ m \<and> i < 2 ^ 32"
    show "lq_slot ?q i = None"
    proof (cases "i = D + clq_S q * 2 ^ m")
      case True
      then show ?thesis using lap i by simp
    next
      case False
      then have "i < D + clq_S q * 2 ^ m" using i by simp
      then show ?thesis using slot [of i] i d C(13) by (auto simp: lq_cells_def)
    qed
  qed
  moreover have "clq_counts m K P ?q"
    using C(12) by (simp add: counts_slots)
  ultimately have "lq_core m ?q xs W P T (Suc D) K"
    using C D by (simp add: lq_core_def)
  with mv show ?thesis by blast
qed

lemma cells_counter:
  "lq_cells m (upd_line l (\<lambda>cl. cl\<lparr>hf2 := f cl\<rparr>) q) xs D W = lq_cells m q xs D W"
  "lq_cells m (upd_line l (\<lambda>cl. cl\<lparr>tf2 := f cl\<rparr>) q) xs D W = lq_cells m q xs D W"
  by (simp_all add: lq_cells_def slots_counter)

lemma core_count:
  assumes c: "lq_core m q xs W P T D K" and P: "P < W" and b: "length xs < 2 ^ 32" "length xs \<le> 65534 * 2 ^ m"
  shows "lq_core m (upd_line (get_li q (of_nat P)) (\<lambda>cl. cl\<lparr>hf2 := hf2 cl + 1\<rparr>) q) xs W (Suc P) T D K"
proof -
  note C = lq_coreD [OF c]
  have "clq_counts m K (Suc P) (upd_line (get_li q (of_nat P)) (\<lambda>cl. cl\<lparr>hf2 := hf2 cl + 1\<rparr>) q)"
    using C(7) P b by (intro counts_hf2 C) linarith+
  then show ?thesis using C P by (simp add: lq_core_def cells_counter)
qed

lemma core_drop:
  assumes c: "lq_core m q xs W P T D K" and K: "K < D" and b: "length xs < 2 ^ 32" "length xs \<le> 65534 * 2 ^ m"
  shows "lq_core m (upd_line (get_li q (of_nat K)) (\<lambda>cl. cl\<lparr>tf2 := tf2 cl + 1\<rparr>) q) xs W P T D (Suc K)"
proof -
  note C = lq_coreD [OF c]
  have "clq_counts m (Suc K) P (upd_line (get_li q (of_nat K)) (\<lambda>cl. cl\<lparr>tf2 := tf2 cl + 1\<rparr>) q)"
    using C(6-10) K b by (intro counts_tf2 C) linarith+
  then show ?thesis using C K by (simp add: lq_core_def cells_counter)
qed

end
