(* ===== verification/CLQueue_Conc_Linear.thy ===== *)
theory CLQueue_Conc_Linear
  imports CLQueue_Conc_Spsc ConQueue_Conc_Spec
begin

text \<open>
  A \<open>CLQueue\<close> with a single producer and a single consumer, each in its own thread (or both in one), is an atomic
  bounded queue: the invariant of its steps, and the steps of the specification they map to.
\<close>

section \<open>Control points\<close>

text \<open>How many elements of the producer's claim are not constructed and not counted; those of the consumer's claim that
  are not moved out and not counted.\<close>

fun unwritten :: "'a lq_pc \<Rightarrow> nat" where
  "unwritten (LqWrite c x oh) = 1"
| "unwritten _ = 0"

fun uncounted :: "'a lq_pc \<Rightarrow> nat" where
  "uncounted (LqWrite c x oh) = 1"
| "uncounted (LqCount c x oh) = 1"
| "uncounted (LqCounted c x oh w) = 1"
| "uncounted _ = 0"

fun unread :: "'a lq_pc \<Rightarrow> nat" where
  "unread (LqRead ot) = 1"
| "unread _ = 0"

fun undropped :: "'a lq_pc \<Rightarrow> nat" where
  "undropped (LqRead ot) = 1"
| "undropped (LqDrop y ot) = 1"
| "undropped (LqDropped y ot w) = 1"
| "undropped _ = 0"

definition lq_W :: "(cq_end \<Rightarrow> nat) \<Rightarrow> 'a lq_state \<Rightarrow> nat" where
  "lq_W solo s = length (lq_in s) - unwritten (lq_pc s (solo ProdEnd))"

definition lq_P :: "(cq_end \<Rightarrow> nat) \<Rightarrow> 'a lq_state \<Rightarrow> nat" where
  "lq_P solo s = length (lq_in s) - uncounted (lq_pc s (solo ProdEnd))"

definition lq_T :: "'a lq_state \<Rightarrow> nat" where
  "lq_T s = unat (clq_tail (lq_q s))"

definition lq_D :: "(cq_end \<Rightarrow> nat) \<Rightarrow> 'a lq_state \<Rightarrow> nat" where
  "lq_D solo s = lq_T s - unread (lq_pc s (solo ConsEnd))"

definition lq_K :: "(cq_end \<Rightarrow> nat) \<Rightarrow> 'a lq_state \<Rightarrow> nat" where
  "lq_K solo s = lq_T s - undropped (lq_pc s (solo ConsEnd))"

lemmas lq_marks = lq_W_def lq_P_def lq_T_def lq_D_def lq_K_def

text \<open>What a thread knows at its control point.\<close>

fun lq_ok :: "(cq_end \<Rightarrow> nat) \<Rightarrow> nat \<Rightarrow> 'a clqueue \<Rightarrow> 'a list \<Rightarrow> nat \<Rightarrow> nat \<Rightarrow> nat \<Rightarrow> nat \<Rightarrow> 'a lq_pc \<Rightarrow> bool" where
  "lq_ok solo m q xs K P T t LqIdle \<longleftrightarrow> True"
| "lq_ok solo m q xs K P T t (LqTest c x oh) \<longleftrightarrow> t = solo ProdEnd \<and> lq_value c = [x] \<and> oh = of_nat (length xs)"
| "lq_ok solo m q xs K P T t (LqClaim c x oh) \<longleftrightarrow>
     t = solo ProdEnd \<and> lq_value c = [x] \<and> oh = of_nat (length xs) \<and> length xs < K + clq_S q * 2 ^ m"
| "lq_ok solo m q xs K P T t (LqWrite c x oh) \<longleftrightarrow>
     t = solo ProdEnd \<and> lq_value c = [x] \<and> oh = of_nat (length xs - 1) \<and> xs \<noteq> [] \<and> last xs = x"
| "lq_ok solo m q xs K P T t (LqCount c x oh) \<longleftrightarrow>
     t = solo ProdEnd \<and> lq_value c = [x] \<and> oh = of_nat (length xs - 1) \<and> xs \<noteq> [] \<and> last xs = x"
| "lq_ok solo m q xs K P T t (LqCounted c x oh w) \<longleftrightarrow>
     t = solo ProdEnd \<and> lq_value c = [x] \<and> oh = of_nat (length xs - 1) \<and> xs \<noteq> [] \<and> last xs = x \<and>
     w = hf2 (cls q (get_li q oh))"
| "lq_ok solo m q xs K P T t (LqSeek ot) \<longleftrightarrow> t = solo ConsEnd \<and> ot = of_nat T"
| "lq_ok solo m q xs K P T t (LqTake ot) \<longleftrightarrow> t = solo ConsEnd \<and> ot = of_nat T \<and> T < P"
| "lq_ok solo m q xs K P T t (LqRead ot) \<longleftrightarrow> t = solo ConsEnd \<and> ot = of_nat (T - 1) \<and> 0 < T"
| "lq_ok solo m q xs K P T t (LqDrop y ot) \<longleftrightarrow> t = solo ConsEnd \<and> ot = of_nat (T - 1) \<and> 0 < T \<and> y = xs ! (T - 1)"
| "lq_ok solo m q xs K P T t (LqDropped y ot w) \<longleftrightarrow>
     t = solo ConsEnd \<and> ot = of_nat (T - 1) \<and> 0 < T \<and> y = xs ! (T - 1) \<and> w = tf2 (cls q (get_li q ot))"
| "lq_ok solo m q xs K P T t _ \<longleftrightarrow> False"

definition lq_inv :: "(cq_end \<Rightarrow> nat) \<Rightarrow> nat \<Rightarrow> nat \<Rightarrow> 'a lq_state \<Rightarrow> bool" where
  "lq_inv solo N m s \<longleftrightarrow> \<not> lq_ub s \<and> lq_lost s = [] \<and> (\<forall>t\<ge>N. lq_pc s t = LqIdle) \<and>
     lq_core m (lq_q s) (lq_in s) (lq_W solo s) (lq_P solo s) (lq_T s) (lq_D solo s) (lq_K solo s) \<and>
     (\<forall>t. lq_ok solo m (lq_q s) (lq_in s) (lq_K solo s) (lq_P solo s) (lq_T s) t (lq_pc s t))"

lemma lq_invD:
  assumes "lq_inv solo N m s"
  shows "\<not> lq_ub s" "lq_lost s = []" "N \<le> t \<Longrightarrow> lq_pc s t = LqIdle"
    "lq_core m (lq_q s) (lq_in s) (lq_W solo s) (lq_P solo s) (lq_T s) (lq_D solo s) (lq_K solo s)"
    "lq_ok solo m (lq_q s) (lq_in s) (lq_K solo s) (lq_P solo s) (lq_T s) t (lq_pc s t)"
  using assms unfolding lq_inv_def by blast+

text \<open>A thread's knowledge survives the steps of the other end.\<close>

lemma lq_ok_producer_moves:
  assumes "lq_ok solo m q xs K P T t p" "t \<noteq> solo ProdEnd" "T \<le> length xs" "P \<le> P'"
    "\<And>l. tf2 (cls q' l) = tf2 (cls q l)" "\<And>n. get_li q' n = get_li q n"
  shows "lq_ok solo m q' (xs @ ys) K P' T t p"
  using assms by (cases p) (auto simp: nth_append)

lemma lq_ok_consumer_moves:
  assumes "lq_ok solo m q xs K P T t p" "t \<noteq> solo ConsEnd" "K \<le> K'"
    "\<And>l. hf2 (cls q' l) = hf2 (cls q l)" "\<And>n. get_li q' n = get_li q n" "clq_T_SIZE q' = clq_T_SIZE q"
  shows "lq_ok solo m q' xs K' P T' t p"
  using assms by (cases p) auto

section \<open>The invariant after a step\<close>

text \<open>A step of the producer's thread between its own control points.\<close>

lemma inv_producer:
  assumes inv: "lq_inv solo N m s" and t: "solo ProdEnd < N" and p: "lq_pc s (solo ProdEnd) = p"
    and pop: "unread p = 0" "undropped p = 0" "unread p' = 0" "undropped p' = 0"
    and s': "lq_pc s' = (lq_pc s)(solo ProdEnd := p')" "lq_in s' = lq_in s @ ys" "lq_ub s' = lq_ub s" "lq_lost s' = lq_lost s"
    and core: "lq_core m (lq_q s') (lq_in s') (length (lq_in s') - unwritten p') (length (lq_in s') - uncounted p')
      (lq_T s) (lq_D solo s) (lq_K solo s)"
    and P: "length (lq_in s) - uncounted p \<le> length (lq_in s') - uncounted p'"
    and q: "\<And>l. tf2 (cls (lq_q s') l) = tf2 (cls (lq_q s) l)" "\<And>n. get_li (lq_q s') n = get_li (lq_q s) n"
      "clq_tail (lq_q s') = clq_tail (lq_q s)"
    and ok: "lq_ok solo m (lq_q s') (lq_in s') (lq_K solo s) (length (lq_in s') - uncounted p') (lq_T s) (solo ProdEnd) p'"
  shows "lq_inv solo N m s'"
proof -
  note I = lq_invD [OF inv]
  have T: "lq_T s' = lq_T s" by (simp add: lq_T_def q)
  have gaps: "unread (lq_pc s' (solo ConsEnd)) = unread (lq_pc s (solo ConsEnd))"
    "undropped (lq_pc s' (solo ConsEnd)) = undropped (lq_pc s (solo ConsEnd))"
    using p pop by (auto simp: s')
  have marks: "lq_W solo s' = length (lq_in s') - unwritten p'" "lq_P solo s' = length (lq_in s') - uncounted p'"
    "lq_D solo s' = lq_D solo s" "lq_K solo s' = lq_K solo s"
    unfolding lq_W_def lq_P_def lq_D_def lq_K_def T gaps by (simp_all add: s')
  have Ple: "lq_P solo s \<le> length (lq_in s') - uncounted p'" using P p by (simp add: lq_P_def)
  have Tle: "lq_T s \<le> length (lq_in s)" using lq_coreD(6-8) [OF I(4)] by linarith
  have "lq_ok solo m (lq_q s') (lq_in s') (lq_K solo s) (length (lq_in s') - uncounted p') (lq_T s) u (lq_pc s' u)" for u
  proof (cases "u = solo ProdEnd")
    case True
    then show ?thesis using ok by (simp add: s')
  next
    case False
    then show ?thesis
      using lq_ok_producer_moves [OF I(5) False Tle Ple q(1,2), where ys = ys] by (simp add: s')
  qed
  then show ?thesis
    using I(1-3) core t unfolding lq_inv_def T marks by (simp add: s')
qed

lemma inv_consumer:
  assumes inv: "lq_inv solo N m s" and t: "solo ConsEnd < N" and p: "lq_pc s (solo ConsEnd) = p"
    and push: "unwritten p = 0" "uncounted p = 0" "unwritten p' = 0" "uncounted p' = 0"
    and s': "lq_pc s' = (lq_pc s)(solo ConsEnd := p')" "lq_in s' = lq_in s" "lq_ub s' = lq_ub s" "lq_lost s' = lq_lost s"
    and T: "lq_T s' = T'"
    and core: "lq_core m (lq_q s') (lq_in s) (lq_W solo s) (lq_P solo s) T' (T' - unread p') (T' - undropped p')"
    and K: "lq_T s - undropped p \<le> T' - undropped p'"
    and q: "\<And>l. hf2 (cls (lq_q s') l) = hf2 (cls (lq_q s) l)" "\<And>n. get_li (lq_q s') n = get_li (lq_q s) n"
      "clq_T_SIZE (lq_q s') = clq_T_SIZE (lq_q s)"
    and ok: "lq_ok solo m (lq_q s') (lq_in s) (T' - undropped p') (lq_P solo s) T' (solo ConsEnd) p'"
  shows "lq_inv solo N m s'"
proof -
  note I = lq_invD [OF inv]
  have gaps: "unwritten (lq_pc s' (solo ProdEnd)) = unwritten (lq_pc s (solo ProdEnd))"
    "uncounted (lq_pc s' (solo ProdEnd)) = uncounted (lq_pc s (solo ProdEnd))"
    using p push by (auto simp: s')
  have marks: "lq_W solo s' = lq_W solo s" "lq_P solo s' = lq_P solo s" "lq_D solo s' = T' - unread p'" "lq_K solo s' = T' - undropped p'"
    unfolding lq_W_def lq_P_def lq_D_def lq_K_def T gaps by (simp_all add: s')
  have Kle: "lq_K solo s \<le> T' - undropped p'" using K p by (simp add: lq_K_def)
  have "lq_ok solo m (lq_q s') (lq_in s) (T' - undropped p') (lq_P solo s) T' u (lq_pc s' u)" for u
  proof (cases "u = solo ConsEnd")
    case True
    then show ?thesis using ok by (simp add: s')
  next
    case False
    then show ?thesis
      using lq_ok_consumer_moves [OF I(5) False Kle q] by (simp add: s')
  qed
  then show ?thesis
    using I(1-3) core t unfolding lq_inv_def T marks by (simp add: s')
qed

section \<open>The mapping to the specification\<close>

fun lq_spec :: "'a lq_call \<Rightarrow> 'a cq_call" where
  "lq_spec (LqPush x) = Emplace x"
| "lq_spec (LqPushUnsafe x) = Emplace x"
| "lq_spec LqPop = Pop"

fun lq_status :: "'a list \<Rightarrow> 'a lq_pc \<Rightarrow> 'a at_status" where
  "lq_status xs LqIdle = AtIdle"
| "lq_status xs (LqTest c x oh) = AtCalled (lq_spec c)"
| "lq_status xs (LqClaim c x oh) = AtCalled (lq_spec c)"
| "lq_status xs (LqWrite c x oh) = AtCalled (lq_spec c)"
| "lq_status xs (LqCount c x oh) = AtCalled (lq_spec c)"
| "lq_status xs (LqCounted c x oh w) = AtCalled (lq_spec c)"
| "lq_status xs (LqRead ot) = AtTaken Pop [xs ! unat ot]"
| "lq_status xs (LqDrop y ot) = AtTaken Pop [y]"
| "lq_status xs (LqDropped y ot w) = AtTaken Pop [y]"
| "lq_status xs _ = AtCalled Pop"

fun lq_result_list :: "'a lq_result \<Rightarrow> 'a list" where
  "lq_result_list (LqTrue ys) = ys"
| "lq_result_list _ = []"

fun lq_response :: "nat \<times> 'a lq_call \<times> 'a lq_result \<Rightarrow> nat \<times> 'a cq_call \<times> 'a list" where
  "lq_response (t, c, r) = (t, lq_spec c, lq_result_list r)"

definition lq_items :: "(cq_end \<Rightarrow> nat) \<Rightarrow> 'a lq_state \<Rightarrow> 'a list" where
  "lq_items solo s = drop (lq_T s) (take (lq_P solo s) (lq_in s))"

definition lq_abs :: "(cq_end \<Rightarrow> nat) \<Rightarrow> 'a lq_state \<Rightarrow> 'a at_queue" where
  "lq_abs solo s = \<lparr>at_items = lq_items solo s, at_status = (\<lambda>t. lq_status (lq_in s) (lq_pc s t)), at_log = map lq_response (lq_log s)\<rparr>"

lemma lq_abs_fields [simp]:
  "at_items (lq_abs solo s) = lq_items solo s" "at_status (lq_abs solo s) = (\<lambda>t. lq_status (lq_in s) (lq_pc s t))"
  "at_log (lq_abs solo s) = map lq_response (lq_log s)"
  by (simp_all add: lq_abs_def)

lemma lq_spec_end: "lq_value c = [x] \<Longrightarrow> lq_spec c = Emplace x"
  by (cases c) auto

lemma lq_status_stable:
  assumes "lq_inv solo N m s"
  shows "lq_status (lq_in s @ ys) (lq_pc s u) = lq_status (lq_in s) (lq_pc s u)"
proof (cases "lq_pc s u")
  case (LqRead ot)
  have "lq_T s \<le> length (lq_in s)" using lq_coreD(6-8) [OF lq_invD(4) [OF assms]] by linarith
  moreover have "ot = of_nat (lq_T s - 1)" "0 < lq_T s" using lq_invD(5) [OF assms, of u] LqRead by simp_all
  moreover have "unat (of_nat (lq_T s - 1) :: u32) = lq_T s - 1"
    using unat_u32_less [of "clq_tail (lq_q s)"] by (intro unat_of_nat_u32) (simp add: lq_T_def less_imp_diff_less)
  moreover have "lq_T s - 1 < length (lq_in s)" using calculation(1,3) by linarith
  ultimately show ?thesis using LqRead by (simp add: nth_append)
qed simp_all

lemma lq_items_length:
  assumes "lq_inv solo N m s"
  shows "length (lq_items solo s) = lq_P solo s - lq_T s"
  using lq_coreD(6-8) [OF lq_invD(4) [OF assms]] by (simp add: lq_items_def)

text \<open>Steps that change only a status, or nothing at all.\<close>

lemma lq_abs_status:
  assumes inv: "lq_inv solo N m s" and s': "lq_pc s' = (lq_pc s)(t := p')" "lq_in s' = lq_in s @ ys" "lq_log s' = lq_log s"
    and P: "lq_P solo s' = lq_P solo s" and T: "lq_T s' = lq_T s"
  shows "lq_abs solo s' = (lq_abs solo s)\<lparr>at_status := (at_status (lq_abs solo s))(t := lq_status (lq_in s') p')\<rparr>"
proof -
  have "lq_P solo s \<le> length (lq_in s)" by (simp add: lq_P_def)
  then have "lq_items solo s' = lq_items solo s" using s'(2) P T by (simp add: lq_items_def)
  then show ?thesis using s' lq_status_stable [OF inv, of ys] by (simp add: lq_abs_def fun_eq_iff)
qed

lemma lq_abs_same:
  assumes inv: "lq_inv solo N m s" and s': "lq_pc s' = (lq_pc s)(t := p')" "lq_in s' = lq_in s @ ys" "lq_log s' = lq_log s"
    and P: "lq_P solo s' = lq_P solo s" and T: "lq_T s' = lq_T s" and st: "lq_status (lq_in s') p' = lq_status (lq_in s) (lq_pc s t)"
  shows "lq_abs solo s' = lq_abs solo s"
  unfolding lq_abs_status [OF inv s' P T] st by (simp add: lq_abs_def fun_upd_idem)

text \<open>The steps that complete a call.\<close>

lemma lq_abs_return:
  assumes s': "lq_pc s' = (lq_pc s)(t := LqIdle)" "lq_in s' = lq_in s" "lq_log s' = lq_log s @ [(t, c, r)]"
  shows "lq_abs solo s' = at_finish t (lq_spec c) (lq_result_list r) ((lq_abs solo s)\<lparr>at_items := lq_items solo s'\<rparr>)"
  using s' by (simp add: lq_abs_def at_finish_def fun_eq_iff)

section \<open>The steps of the producer\<close>

text \<open>What a step of a thread has to establish.\<close>

definition lq_sim :: "(cq_end \<Rightarrow> nat) \<Rightarrow> nat \<Rightarrow> nat \<Rightarrow> 'a lq_state \<Rightarrow> 'a lq_state \<Rightarrow> bool" where
  "lq_sim solo N m s s' \<longleftrightarrow> lq_inv solo N m s' \<and> clq_T_SIZE (lq_q s') = clq_T_SIZE (lq_q s) \<and>
     (at_step (clq_S (lq_q s) * 2 ^ m) N)\<^sup>*\<^sup>* (lq_abs solo s) (lq_abs solo s')"

lemma lq_sim_same: "lq_inv solo N m s' \<Longrightarrow> clq_T_SIZE (lq_q s') = clq_T_SIZE (lq_q s) \<Longrightarrow> lq_abs solo s' = lq_abs solo s \<Longrightarrow> lq_sim solo N m s s'"
  by (simp add: lq_sim_def)

lemma lq_sim_step: "lq_inv solo N m s' \<Longrightarrow> clq_T_SIZE (lq_q s') = clq_T_SIZE (lq_q s) \<Longrightarrow>
    at_step (clq_S (lq_q s) * 2 ^ m) N (lq_abs solo s) (lq_abs solo s') \<Longrightarrow> lq_sim solo N m s s'"
  by (simp add: lq_sim_def r_into_rtranclp)

lemma sim_begin_push:
  assumes inv: "lq_inv solo N m s" and t: "t < N" and pc: "lq_pc s t = LqIdle" and c: "c \<noteq> LqPop" and may: "lq_may solo (lq_q s) t c"
  shows "lq_sim solo N m s (lq_begin t c s)"
proof -
  note I = lq_invD [OF inv] and C = lq_coreD [OF lq_invD(4) [OF inv]]
  have tp: "t = solo ProdEnd" using may c C(2) by (simp add: lq_may_def)
  obtain x where x: "lq_value c = [x]" using c by (cases c) auto
  let ?p = "LqTest c x (clq_head (lq_q s))"
  have s': "lq_begin t c s = lq_goto t ?p s" using c C(2) x by (cases c) auto
  have W: "lq_W solo s = length (lq_in s)" "lq_P solo s = length (lq_in s)" using pc tp by (simp_all add: lq_W_def lq_P_def)
  have "lq_inv solo N m (lq_goto t ?p s)"
    by (rule inv_producer [OF inv, where p = LqIdle and p' = ?p and ys = "[]"])
      (use t tp pc x C(4) I(4) W in \<open>simp_all add: lq_goto_def\<close>)
  moreover have "lq_abs solo (lq_goto t ?p s) = (lq_abs solo s)\<lparr>at_status := (at_status (lq_abs solo s))(t := AtCalled (lq_spec c))\<rparr>"
    using lq_abs_status [OF inv, of "lq_goto t ?p s" t ?p "[]"] W(2) tp by (simp add: lq_goto_def lq_P_def lq_T_def)
  moreover have "at_step (clq_S (lq_q s) * 2 ^ m) N (lq_abs solo s) ((lq_abs solo s)\<lparr>at_status := (at_status (lq_abs solo s))(t := AtCalled (lq_spec c))\<rparr>)"
    using t pc by (intro at_call) simp_all
  ultimately show ?thesis unfolding s' by (intro lq_sim_step) (simp_all add: lq_goto_def)
qed

lemma at_room_taken:
  assumes inv: "lq_inv solo N m s" and p: "lq_pc s t = LqTest c x oh"
  shows "lq_T s \<le> lq_K solo s + (\<Sum>u\<in>{..<N} - {t}. at_room (lq_status (lq_in s) (lq_pc s u)))"
proof (cases "undropped (lq_pc s (solo ConsEnd)) = 0")
  case True
  then show ?thesis by (simp add: lq_K_def)
next
  case False
  let ?c = "solo ConsEnd"
  have r: "at_room (lq_status (lq_in s) (lq_pc s ?c)) = 1" "undropped (lq_pc s ?c) = 1"
    using False by (cases "lq_pc s ?c"; simp)+
  have "?c < N" using lq_invD(3) [OF inv, of ?c] r(2) by (metis not_le undropped.simps(4) zero_neq_one)
  moreover have "?c \<noteq> t" using r(2) p by auto
  ultimately have "1 \<le> (\<Sum>u\<in>{..<N} - {t}. at_room (lq_status (lq_in s) (lq_pc s u)))"
    using r(1) member_le_sum [of ?c "{..<N} - {t}" "\<lambda>u. at_room (lq_status (lq_in s) (lq_pc s u))"] by simp
  then show ?thesis using r(2) by (simp add: lq_K_def)
qed

lemma sim_test:
  assumes inv: "lq_inv solo N m s" and t: "t < N" and pc: "lq_pc s t = LqTest c x oh" and b: "length (lq_in s) < 2 ^ 32"
  shows "lq_sim solo N m s (lq_next fails t (LqTest c x oh) s)"
proof -
  note I = lq_invD [OF inv] and C = lq_coreD [OF lq_invD(4) [OF inv]]
  have k: "t = solo ProdEnd" "lq_value c = [x]" "oh = of_nat (length (lq_in s))" using I(5) [of t] pc by simp_all
  have W: "lq_W solo s = length (lq_in s)" "lq_P solo s = length (lq_in s)" using pc k(1) by (simp_all add: lq_W_def lq_P_def)
  note full = core_full [OF I(4) W(2) b]
  show ?thesis
  proof (cases "line_full (lq_q s) (get_li (lq_q s) oh)")
    case True
    then have len: "length (lq_in s) = lq_K solo s + clq_S (lq_q s) * 2 ^ m" using full k(3) by simp
    let ?s = "lq_return t c LqFalse s"
    have s': "lq_next fails t (LqTest c x oh) s = ?s" using True by simp
    have inv': "lq_inv solo N m ?s"
      by (rule inv_producer [OF inv, where p = "LqTest c x oh" and p' = LqIdle and ys = "[]"])
        (use t k(1) pc C I(4) W in \<open>simp_all add: lq_return_def\<close>)
    have P: "lq_P solo ?s = lq_P solo s" "lq_T ?s = lq_T s" using W(2) k(1) by (simp_all add: lq_return_def lq_P_def lq_T_def)
    have "lq_abs solo ?s = at_finish t (lq_spec c) [] ((lq_abs solo s)\<lparr>at_items := lq_items solo ?s\<rparr>)"
      using lq_abs_return [of ?s s t c LqFalse solo] by (simp add: lq_return_def)
    moreover have "lq_items solo ?s = lq_items solo s" using P by (simp add: lq_items_def) (simp add: lq_return_def)
    ultimately have a: "lq_abs solo ?s = at_finish t (lq_spec c) [] (lq_abs solo s)" by (simp add: lq_abs_def)
    have "clq_S (lq_q s) * 2 ^ m \<le> length (lq_items solo s) + (\<Sum>u\<in>{..<N} - {t}. at_room (lq_status (lq_in s) (lq_pc s u)))"
      using at_room_taken [OF inv pc] lq_items_length [OF inv] len W(2) C(8) by linarith
    then have "at_step (clq_S (lq_q s) * 2 ^ m) N (lq_abs solo s) (at_finish t (lq_spec c) [] (lq_abs solo s))"
      using t pc lq_spec_end [OF k(2)] by (intro at_full) simp_all
    then show ?thesis unfolding s' using inv' a by (intro lq_sim_step) (simp_all add: lq_return_def)
  next
    case False
    then have len: "length (lq_in s) < lq_K solo s + clq_S (lq_q s) * 2 ^ m" using full k(3) C(11) by simp
    let ?p = "LqClaim c x oh"
    have s': "lq_next fails t (LqTest c x oh) s = lq_goto t ?p s" using False C(2) by simp
    have inv': "lq_inv solo N m (lq_goto t ?p s)"
      by (rule inv_producer [OF inv, where p = "LqTest c x oh" and p' = ?p and ys = "[]"])
        (use t k pc C I(4) W len in \<open>simp_all add: lq_goto_def\<close>)
    have "lq_abs solo (lq_goto t ?p s) = lq_abs solo s"
      by (rule lq_abs_same [OF inv, where t = t and p' = ?p and ys = "[]"]) (use W(2) k(1) pc in \<open>simp_all add: lq_goto_def lq_P_def lq_T_def\<close>)
    then show ?thesis unfolding s' using inv' by (intro lq_sim_same) (simp_all add: lq_goto_def)
  qed
qed

lemma last_nth: "xs \<noteq> [] \<Longrightarrow> last xs = x \<Longrightarrow> xs ! (length xs - 1) = x"
  by (simp add: last_conv_nth)

lemma sim_claim:
  assumes inv: "lq_inv solo N m s" and t: "t < N" and pc: "lq_pc s t = LqClaim c x oh"
  shows "lq_sim solo N m s (lq_next fails t (LqClaim c x oh) s)"
proof -
  note I = lq_invD [OF inv] and C = lq_coreD [OF lq_invD(4) [OF inv]]
  have k: "t = solo ProdEnd" "lq_value c = [x]" "oh = of_nat (length (lq_in s))" "length (lq_in s) < lq_K solo s + clq_S (lq_q s) * 2 ^ m"
    using I(5) [of t] pc by simp_all
  have W: "lq_W solo s = length (lq_in s)" "lq_P solo s = length (lq_in s)" using pc k(1) by (simp_all add: lq_W_def lq_P_def)
  let ?p = "LqWrite c x oh" and ?s = "lq_goto t (LqWrite c x oh) (lq_claim x s)"
  have core: "lq_core m ((lq_q s)\<lparr>clq_head := clq_head (lq_q s) + 1\<rparr>) (lq_in s @ [x]) (length (lq_in s)) (length (lq_in s)) (lq_T s) (lq_D solo s) (lq_K solo s)"
    using core_claim [OF I(4) k(4)] W by simp
  have inv': "lq_inv solo N m ?s"
    by (rule inv_producer [OF inv, where p = "LqClaim c x oh" and p' = ?p and ys = "[x]"])
      (use t k pc core in \<open>simp_all add: lq_goto_def lq_claim_def\<close>)
  have "lq_abs solo ?s = lq_abs solo s"
    by (rule lq_abs_same [OF inv, where t = t and p' = ?p and ys = "[x]"])
      (use W(2) k(1) pc in \<open>simp_all add: lq_goto_def lq_claim_def lq_P_def lq_T_def\<close>)
  then show ?thesis using inv' by (simp add: lq_sim_same lq_goto_def lq_claim_def)
qed

lemma sim_write:
  assumes inv: "lq_inv solo N m s" and t: "t < N" and pc: "lq_pc s t = LqWrite c x oh" and b: "length (lq_in s) < 2 ^ 32"
  shows "lq_sim solo N m s (lq_next fails t (LqWrite c x oh) s)"
proof -
  note I = lq_invD [OF inv] and C = lq_coreD [OF lq_invD(4) [OF inv]]
  have k: "t = solo ProdEnd" "lq_value c = [x]" "oh = of_nat (length (lq_in s) - 1)" "lq_in s \<noteq> []" "last (lq_in s) = x"
    using I(5) [of t] pc by simp_all
  have W: "lq_W solo s = length (lq_in s) - 1" "lq_P solo s = length (lq_in s) - 1" using pc k(1) by (simp_all add: lq_W_def lq_P_def)
  have lt: "length (lq_in s) - 1 < length (lq_in s)" "Suc (length (lq_in s) - 1) = length (lq_in s)" using k(4) by simp_all
  note cw = core_write [OF lq_invD(4) [OF inv, unfolded W] lt(1) b, unfolded lt(2) last_nth [OF k(4,5)], folded k(3)]
  let ?p = "LqCount c x oh"
  let ?s = "s\<lparr>lq_q := clq_construct (get_li (lq_q s) oh) (get_si (lq_q s) oh) x (lq_q s), lq_pc := (lq_pc s)(t := ?p)\<rparr>"
  have s': "lq_next fails t (LqWrite c x oh) s = ?s"
    using C(2) cw(1) k(3) by (simp add: lq_write_def lq_goto_def Let_def)
  have inv': "lq_inv solo N m ?s"
  proof (rule inv_producer [OF inv, where p = "LqWrite c x oh" and p' = ?p and ys = "[]"])
    show "lq_core m (lq_q ?s) (lq_in ?s) (length (lq_in ?s) - unwritten ?p) (length (lq_in ?s) - uncounted ?p) (lq_T s) (lq_D solo s) (lq_K solo s)"
      using cw(2) by simp
    show "tf2 (cls (lq_q ?s) l) = tf2 (cls (lq_q s) l)" for l by (simp add: clq_construct_def cls_upd_line)
  qed (use t k pc in \<open>simp_all add: clq_construct_def\<close>)
  have "lq_abs solo ?s = lq_abs solo s"
    by (rule lq_abs_same [OF inv, where t = t and p' = ?p and ys = "[]"])
      (use W(2) k(1) pc in \<open>simp_all add: lq_P_def lq_T_def clq_construct_def\<close>)
  then show ?thesis unfolding s' using inv' by (intro lq_sim_same) (simp_all add: clq_construct_def)
qed

lemma sim_count:
  assumes inv: "lq_inv solo N m s" and t: "t < N" and pc: "lq_pc s t = LqCount c x oh"
  shows "lq_sim solo N m s (lq_next fails t (LqCount c x oh) s)"
proof -
  note I = lq_invD [OF inv]
  have k: "t = solo ProdEnd" "lq_value c = [x]" "oh = of_nat (length (lq_in s) - 1)" "lq_in s \<noteq> []" "last (lq_in s) = x"
    using I(5) [of t] pc by simp_all
  have W: "lq_W solo s = length (lq_in s)" "lq_P solo s = length (lq_in s) - 1" using pc k(1) by (simp_all add: lq_W_def lq_P_def)
  let ?p = "LqCounted c x oh (hf2 (cls (lq_q s) (get_li (lq_q s) oh)))"
  have inv': "lq_inv solo N m (lq_goto t ?p s)"
    by (rule inv_producer [OF inv, where p = "LqCount c x oh" and p' = ?p and ys = "[]"])
      (use t k pc I(4) W in \<open>simp_all add: lq_goto_def\<close>)
  have "lq_abs solo (lq_goto t ?p s) = lq_abs solo s"
    by (rule lq_abs_same [OF inv, where t = t and p' = ?p and ys = "[]"])
      (use W(2) k(1) pc in \<open>simp_all add: lq_goto_def lq_P_def lq_T_def\<close>)
  then show ?thesis using inv' by (simp add: lq_sim_same lq_goto_def)
qed

lemma drop_last_elem: "n \<le> length xs - 1 \<Longrightarrow> xs \<noteq> [] \<Longrightarrow> last xs = x \<Longrightarrow> drop n xs = drop n (take (length xs - 1) xs) @ [x]"
  by (cases xs rule: rev_cases) simp_all

lemma upd_line_loaded: "f (cls q l) = g (cls q l) \<Longrightarrow> upd_line l f q = upd_line l g q"
  by (simp add: upd_line_def)

lemma sim_counted:
  assumes inv: "lq_inv solo N m s" and t: "t < N" and pc: "lq_pc s t = LqCounted c x oh w"
    and b: "length (lq_in s) < 2 ^ 32" "length (lq_in s) \<le> 65534 * 2 ^ m"
  shows "lq_sim solo N m s (lq_next fails t (LqCounted c x oh w) s)"
proof -
  note I = lq_invD [OF inv] and C = lq_coreD [OF lq_invD(4) [OF inv]]
  have k: "t = solo ProdEnd" "lq_value c = [x]" "oh = of_nat (length (lq_in s) - 1)" "lq_in s \<noteq> []" "last (lq_in s) = x"
    "w = hf2 (cls (lq_q s) (get_li (lq_q s) oh))"
    using I(5) [of t] pc by simp_all
  have W: "lq_W solo s = length (lq_in s)" "lq_P solo s = length (lq_in s) - 1" using pc k(1) by (simp_all add: lq_W_def lq_P_def)
  have lt: "length (lq_in s) - 1 < length (lq_in s)" "Suc (length (lq_in s) - 1) = length (lq_in s)" using k(4) by simp_all
  define q where "q = upd_line (get_li (lq_q s) oh) (\<lambda>cl. cl\<lparr>hf2 := hf2 cl + 1\<rparr>) (lq_q s)"
  let ?s = "lq_return t c (LqTrue [x]) (s\<lparr>lq_q := q\<rparr>)"
  have "upd_line (get_li (lq_q s) oh) (\<lambda>cl. cl\<lparr>hf2 := w + 1\<rparr>) (lq_q s) = q" unfolding q_def k(6) by (rule upd_line_loaded) simp
  then have s': "lq_next fails t (LqCounted c x oh w) s = ?s" by (simp add: lq_upd_def)
  have core: "lq_core m q (lq_in s) (length (lq_in s)) (length (lq_in s)) (lq_T s) (lq_D solo s) (lq_K solo s)"
    using core_count [OF lq_invD(4) [OF inv, unfolded W] lt(1) b] unfolding lt(2) by (simp only: q_def k(3))
  have qf: "clq_tail q = clq_tail (lq_q s)" "clq_T_SIZE q = clq_T_SIZE (lq_q s)" "get_li q n = get_li (lq_q s) n" "tf2 (cls q l) = tf2 (cls (lq_q s) l)" for n l
    by (simp_all add: q_def cls_upd_line)
  have inv': "lq_inv solo N m ?s"
    by (rule inv_producer [OF inv, where p = "LqCounted c x oh w" and p' = LqIdle and ys = "[]"])
      (use t k(1) pc core qf in \<open>simp_all add: lq_return_def\<close>)
  have "lq_T s \<le> length (lq_in s) - 1" using C(8) W(2) by simp
  then have "drop (lq_T s) (lq_in s) = drop (lq_T s) (take (length (lq_in s) - 1) (lq_in s)) @ [x]"
    using k(4,5) by (intro drop_last_elem)
  moreover have "lq_items solo ?s = drop (lq_T s) (lq_in s)"
    using k(1) qf by (simp add: lq_items_def lq_P_def lq_T_def lq_return_def)
  ultimately have items: "lq_items solo ?s = lq_items solo s @ [x]" unfolding lq_items_def W(2) by simp
  have a: "lq_abs solo ?s = at_finish t (lq_spec c) [x] ((lq_abs solo s)\<lparr>at_items := at_items (lq_abs solo s) @ [x]\<rparr>)"
    using lq_abs_return [of ?s s t c "LqTrue [x]" solo] items by (simp add: lq_return_def)
  have "length (lq_items solo s) + 1 \<le> clq_S (lq_q s) * 2 ^ m"
    using lq_items_length [OF inv] W(2) C(9-11) \<open>lq_T s \<le> length (lq_in s) - 1\<close> lt by linarith
  then have "at_step (clq_S (lq_q s) * 2 ^ m) N (lq_abs solo s) (lq_abs solo ?s)"
    unfolding a using t pc lq_spec_end [OF k(2)] by (intro at_push) simp_all
  then show ?thesis unfolding s' using inv' qf by (intro lq_sim_step) (simp_all add: lq_return_def)
qed

section \<open>The steps of the consumer\<close>

lemma sim_begin_pop:
  assumes inv: "lq_inv solo N m s" and t: "t < N" and pc: "lq_pc s t = LqIdle" and may: "lq_may solo (lq_q s) t LqPop"
  shows "lq_sim solo N m s (lq_begin t LqPop s)"
proof -
  note I = lq_invD [OF inv] and C = lq_coreD [OF lq_invD(4) [OF inv]]
  have tc: "t = solo ConsEnd" using may C(3) by (simp add: lq_may_def)
  let ?p = "LqSeek (clq_tail (lq_q s)) :: 'a lq_pc"
  have s': "lq_begin t LqPop s = lq_goto t ?p s" using C(3) by simp
  have D: "lq_D solo s = lq_T s" "lq_K solo s = lq_T s" using pc tc by (simp_all add: lq_D_def lq_K_def)
  have inv': "lq_inv solo N m (lq_goto t ?p s)"
    by (rule inv_consumer [OF inv, where p = LqIdle and p' = ?p and T' = "lq_T s"])
      (use t tc pc C(5) I(4) D in \<open>simp_all add: lq_goto_def lq_T_def\<close>)
  have P: "lq_P solo (lq_goto t ?p s) = lq_P solo s" using pc by (simp add: lq_goto_def lq_P_def)
  have "lq_abs solo (lq_goto t ?p s) = (lq_abs solo s)\<lparr>at_status := (at_status (lq_abs solo s))(t := AtCalled (lq_spec LqPop))\<rparr>"
    using lq_abs_status [OF inv, of "lq_goto t ?p s" t ?p "[]"] P by (simp add: lq_goto_def lq_T_def)
  moreover have "at_step (clq_S (lq_q s) * 2 ^ m) N (lq_abs solo s) ((lq_abs solo s)\<lparr>at_status := (at_status (lq_abs solo s))(t := AtCalled (lq_spec LqPop))\<rparr>)"
    using t pc by (intro at_call) simp_all
  ultimately show ?thesis unfolding s' using inv' by (intro lq_sim_step) (simp_all add: lq_goto_def)
qed

lemma sim_seek:
  assumes inv: "lq_inv solo N m s" and t: "t < N" and pc: "lq_pc s t = LqSeek ot" and b: "length (lq_in s) < 2 ^ 32"
  shows "lq_sim solo N m s (lq_next fails t (LqSeek ot) s)"
proof -
  note I = lq_invD [OF inv] and C = lq_coreD [OF lq_invD(4) [OF inv]]
  have k: "t = solo ConsEnd" "ot = of_nat (lq_T s)" using I(5) [of t] pc by simp_all
  have D: "lq_D solo s = lq_T s" "lq_K solo s = lq_T s" using pc k(1) by (simp_all add: lq_D_def lq_K_def)
  note empty = core_empty [OF I(4) D(2) b]
  show ?thesis
  proof (cases "line_empty (lq_q s) (get_li (lq_q s) ot)")
    case True
    then have PT: "lq_P solo s = lq_T s" using empty k(2) by simp
    let ?s = "lq_return t LqPop LqFalse s"
    have s': "lq_next fails t (LqSeek ot) s = ?s" using True C(3) by simp
    have inv': "lq_inv solo N m ?s"
      by (rule inv_consumer [OF inv, where p = "LqSeek ot" and p' = LqIdle and T' = "lq_T s"])
        (use t k pc I(4) D in \<open>simp_all add: lq_return_def lq_T_def\<close>)
    have items: "lq_items solo s = []" using PT by (simp add: lq_items_def)
    have "lq_P solo ?s = lq_P solo s" using pc by (simp add: lq_return_def lq_P_def)
    then have items': "lq_items solo ?s = []" using PT by (simp add: lq_items_def) (simp add: lq_return_def lq_T_def)
    have "lq_abs solo ?s = at_finish t (lq_spec LqPop) [] (lq_abs solo s)"
      using lq_abs_return [of ?s s t LqPop LqFalse solo] items items' by (simp add: lq_return_def lq_abs_def)
    moreover have "at_step (clq_S (lq_q s) * 2 ^ m) N (lq_abs solo s) (at_finish t (lq_spec LqPop) [] (lq_abs solo s))"
      using t pc items by (intro at_empty) simp_all
    ultimately show ?thesis unfolding s' using inv' by (intro lq_sim_step) (simp_all add: lq_return_def)
  next
    case False
    then have PT: "lq_T s < lq_P solo s" using empty k(2) C(8) by simp
    let ?p = "LqTake ot :: 'a lq_pc"
    have s': "lq_next fails t (LqSeek ot) s = lq_goto t ?p s" using False by simp
    have inv': "lq_inv solo N m (lq_goto t ?p s)"
      by (rule inv_consumer [OF inv, where p = "LqSeek ot" and p' = ?p and T' = "lq_T s"])
        (use t k pc I(4) D PT in \<open>simp_all add: lq_goto_def lq_T_def\<close>)
    have "lq_abs solo (lq_goto t ?p s) = lq_abs solo s"
      by (rule lq_abs_same [OF inv, where t = t and p' = ?p and ys = "[]"])
        (use pc in \<open>simp_all add: lq_goto_def lq_P_def lq_T_def\<close>)
    then show ?thesis unfolding s' using inv' by (intro lq_sim_same) (simp_all add: lq_goto_def)
  qed
qed

lemma sim_take:
  assumes inv: "lq_inv solo N m s" and t: "t < N" and pc: "lq_pc s t = LqTake ot" and b: "length (lq_in s) < 2 ^ 32"
  shows "lq_sim solo N m s (lq_next fails t (LqTake ot) s)"
proof -
  note I = lq_invD [OF inv] and C = lq_coreD [OF lq_invD(4) [OF inv]]
  have k: "t = solo ConsEnd" "ot = of_nat (lq_T s)" "lq_T s < lq_P solo s" using I(5) [of t] pc by simp_all
  have D: "lq_D solo s = lq_T s" "lq_K solo s = lq_T s" using pc k(1) by (simp_all add: lq_D_def lq_K_def)
  have lt: "lq_T s < length (lq_in s)" "Suc (lq_T s) < 2 ^ 32" using k(3) C(6,7) b by linarith+
  let ?p = "LqRead ot :: 'a lq_pc"
  define q where "q = (lq_q s)\<lparr>clq_tail := clq_tail (lq_q s) + 1\<rparr>"
  have tail: "unat (clq_tail (lq_q s) + 1) = Suc (lq_T s)"
    unfolding C(5) using lt(2) unat_of_nat_u32 [of "Suc (lq_T s)"] by (simp add: add.commute)
  let ?s = "lq_goto t ?p (s\<lparr>lq_q := q\<rparr>)"
  have s': "lq_next fails t (LqTake ot) s = ?s" using C(3) by (simp add: q_def)
  have qf: "clq_T_SIZE q = clq_T_SIZE (lq_q s)" "get_li q n = get_li (lq_q s) n" "hf2 (cls q l) = hf2 (cls (lq_q s) l)"
    "unat (clq_tail q) = Suc (lq_T s)" for n l using tail by (simp_all add: q_def)
  have core: "lq_core m q (lq_in s) (lq_W solo s) (lq_P solo s) (Suc (lq_T s)) (lq_T s) (lq_T s)"
    using core_take [OF lq_invD(4) [OF inv, unfolded D] k(3)] by (simp add: q_def)
  have inv': "lq_inv solo N m ?s"
    by (rule inv_consumer [OF inv, where p = "LqTake ot" and p' = ?p and T' = "Suc (lq_T s)"])
      (use t k pc core qf D in \<open>simp_all add: lq_goto_def lq_T_def [of "_\<lparr>lq_q := q\<rparr>"] lq_T_def [of "_\<lparr>lq_pc := _\<rparr>"]\<close>)
  have T: "lq_T ?s = Suc (lq_T s)" using qf by (simp add: lq_goto_def lq_T_def)
  have P: "lq_P solo ?s = lq_P solo s" using pc by (simp add: lq_goto_def lq_P_def)
  have it: "lq_items solo s = lq_in s ! lq_T s # lq_items solo ?s"
    using k(3) lt(1) Cons_nth_drop_Suc [of "lq_T s" "take (lq_P solo s) (lq_in s)"]
    unfolding lq_items_def T P by (simp add: lq_goto_def)
  have u: "unat ot = lq_T s" using k(2) lt by (simp add: unat_of_nat_u32)
  have a: "lq_abs solo ?s = (lq_abs solo s)\<lparr>at_items := lq_items solo ?s,
      at_status := (at_status (lq_abs solo s))(t := AtTaken Pop [lq_in s ! lq_T s])\<rparr>"
    by (simp add: lq_abs_def lq_goto_def fun_eq_iff u)
  have "at_step (clq_S (lq_q s) * 2 ^ m) N (lq_abs solo s) (lq_abs solo ?s)"
    unfolding a using t pc it by (intro at_take) simp_all
  then show ?thesis unfolding s' using inv' qf by (intro lq_sim_step) (simp_all add: lq_goto_def)
qed

lemma sim_read:
  assumes inv: "lq_inv solo N m s" and t: "t < N" and pc: "lq_pc s t = LqRead ot" and b: "length (lq_in s) < 2 ^ 32"
  shows "lq_sim solo N m s (lq_next fails t (LqRead ot) s)"
proof -
  note I = lq_invD [OF inv] and C = lq_coreD [OF lq_invD(4) [OF inv]]
  have k: "t = solo ConsEnd" "ot = of_nat (lq_T s - 1)" "0 < lq_T s" using I(5) [of t] pc by simp_all
  have D: "lq_D solo s = lq_T s - 1" "lq_K solo s = lq_T s - 1" using pc k(1) by (simp_all add: lq_D_def lq_K_def)
  have lt: "lq_T s - 1 < lq_T s" "Suc (lq_T s - 1) = lq_T s" using k(3) by simp_all
  obtain q where mv: "clq_move_out (get_li (lq_q s) ot) (get_si (lq_q s) ot) (lq_q s) = Ret (lq_in s ! (lq_T s - 1), q)"
    and core: "lq_core m q (lq_in s) (lq_W solo s) (lq_P solo s) (lq_T s) (lq_T s) (lq_T s - 1)"
    using core_read [OF lq_invD(4) [OF inv, unfolded D] lt(1) b refl] unfolding lt(2) k(2) by blast
  have qf: "clq_T_SIZE q = clq_T_SIZE (lq_q s)" "get_li q n = get_li (lq_q s) n" "hf2 (cls q l) = hf2 (cls (lq_q s) l)"
    "clq_tail q = clq_tail (lq_q s)" for n l
    using mv by (auto simp: clq_move_out_def clq_destroy_def cls_upd_line split: option.splits)
  let ?p = "LqDrop (lq_in s ! (lq_T s - 1)) ot"
  let ?s = "lq_goto t ?p (s\<lparr>lq_q := q\<rparr>)"
  have s': "lq_next fails t (LqRead ot) s = ?s" using mv C(3) by simp
  have inv': "lq_inv solo N m ?s"
    by (rule inv_consumer [OF inv, where p = "LqRead ot" and p' = ?p and T' = "lq_T s"])
      (use t k pc core qf D in \<open>simp_all add: lq_goto_def lq_T_def\<close>)
  have u: "unat ot = lq_T s - 1" using k(2) b lt C(6-8) by (simp only:) (intro unat_of_nat_u32, simp)
  have "lq_abs solo ?s = lq_abs solo s"
    by (rule lq_abs_same [OF inv, where t = t and p' = ?p and ys = "[]"])
      (use pc u qf in \<open>simp_all add: lq_goto_def lq_P_def lq_T_def\<close>)
  then show ?thesis unfolding s' using inv' qf by (intro lq_sim_same) (simp_all add: lq_goto_def)
qed

lemma sim_drop:
  assumes inv: "lq_inv solo N m s" and t: "t < N" and pc: "lq_pc s t = LqDrop y ot"
  shows "lq_sim solo N m s (lq_next fails t (LqDrop y ot) s)"
proof -
  note I = lq_invD [OF inv]
  have k: "t = solo ConsEnd" "ot = of_nat (lq_T s - 1)" "0 < lq_T s" "y = lq_in s ! (lq_T s - 1)" using I(5) [of t] pc by simp_all
  have D: "lq_D solo s = lq_T s" "lq_K solo s = lq_T s - 1" using pc k(1) by (simp_all add: lq_D_def lq_K_def)
  let ?p = "LqDropped y ot (tf2 (cls (lq_q s) (get_li (lq_q s) ot)))"
  have inv': "lq_inv solo N m (lq_goto t ?p s)"
    by (rule inv_consumer [OF inv, where p = "LqDrop y ot" and p' = ?p and T' = "lq_T s"])
      (use t k pc I(4) D in \<open>simp_all add: lq_goto_def lq_T_def\<close>)
  have "lq_abs solo (lq_goto t ?p s) = lq_abs solo s"
    by (rule lq_abs_same [OF inv, where t = t and p' = ?p and ys = "[]"])
      (use pc in \<open>simp_all add: lq_goto_def lq_P_def lq_T_def\<close>)
  then show ?thesis using inv' by (simp add: lq_sim_same lq_goto_def)
qed

lemma sim_dropped:
  assumes inv: "lq_inv solo N m s" and t: "t < N" and pc: "lq_pc s t = LqDropped y ot w"
    and b: "length (lq_in s) < 2 ^ 32" "length (lq_in s) \<le> 65534 * 2 ^ m"
  shows "lq_sim solo N m s (lq_next fails t (LqDropped y ot w) s)"
proof -
  note I = lq_invD [OF inv] and C = lq_coreD [OF lq_invD(4) [OF inv]]
  have k: "t = solo ConsEnd" "ot = of_nat (lq_T s - 1)" "0 < lq_T s" "w = tf2 (cls (lq_q s) (get_li (lq_q s) ot))"
    using I(5) [of t] pc by simp_all
  have D: "lq_D solo s = lq_T s" "lq_K solo s = lq_T s - 1" using pc k(1) by (simp_all add: lq_D_def lq_K_def)
  have lt: "lq_T s - 1 < lq_T s" "Suc (lq_T s - 1) = lq_T s" using k(3) by simp_all
  define q where "q = upd_line (get_li (lq_q s) ot) (\<lambda>cl. cl\<lparr>tf2 := tf2 cl + 1\<rparr>) (lq_q s)"
  let ?s = "lq_return t LqPop (LqTrue [y]) (s\<lparr>lq_q := q\<rparr>)"
  have "upd_line (get_li (lq_q s) ot) (\<lambda>cl. cl\<lparr>tf2 := w + 1\<rparr>) (lq_q s) = q" unfolding q_def k(4) by (rule upd_line_loaded) simp
  then have s': "lq_next fails t (LqDropped y ot w) s = ?s" by (simp add: lq_upd_def)
  have core: "lq_core m q (lq_in s) (lq_W solo s) (lq_P solo s) (lq_T s) (lq_T s) (lq_T s)"
    using core_drop [OF lq_invD(4) [OF inv, unfolded D] lt(1) b] unfolding lt(2) by (simp only: q_def k(2))
  have qf: "clq_tail q = clq_tail (lq_q s)" "clq_T_SIZE q = clq_T_SIZE (lq_q s)" "get_li q n = get_li (lq_q s) n" "hf2 (cls q l) = hf2 (cls (lq_q s) l)" for n l
    by (simp_all add: q_def cls_upd_line)
  have inv': "lq_inv solo N m ?s"
    by (rule inv_consumer [OF inv, where p = "LqDropped y ot w" and p' = LqIdle and T' = "lq_T s"])
      (use t k(1) pc core qf D in \<open>simp_all add: lq_return_def lq_T_def\<close>)
  have "lq_items solo ?s = lq_items solo s"
    using pc qf by (simp add: lq_items_def lq_P_def lq_T_def lq_return_def)
  then have a: "lq_abs solo ?s = at_finish t Pop [y] (lq_abs solo s)"
    using lq_abs_return [of ?s s t LqPop "LqTrue [y]" solo] by (simp add: lq_return_def lq_abs_def)
  have "at_step (clq_S (lq_q s) * 2 ^ m) N (lq_abs solo s) (at_finish t Pop [y] (lq_abs solo s))"
    using t pc by (intro at_return) simp_all
  then show ?thesis unfolding s' using inv' qf a by (intro lq_sim_step) (simp_all add: lq_return_def)
qed

section \<open>All steps\<close>

lemma lq_thread_sim:
  assumes inv: "lq_inv solo N m s" and t: "t < N" and step: "lq_thread solo t s s'"
    and b: "length (lq_in s) < 2 ^ 32" "length (lq_in s) \<le> 65534 * 2 ^ m"
  shows "lq_sim solo N m s s'"
proof (cases "lq_pc s t = LqIdle")
  case True
  then obtain c where c: "lq_may solo (lq_q s) t c" "s' = lq_begin t c s" using step by (auto simp: lq_thread_def)
  then show ?thesis
    using sim_begin_push [OF inv t True] sim_begin_pop [OF inv t True] by (cases "c = LqPop") auto
next
  case False
  then obtain fails where s': "s' = lq_next fails t (lq_pc s t) s" using step by (auto simp: lq_thread_def)
  note ok = lq_invD(5) [OF inv, of t]
  show ?thesis
  proof (cases "lq_pc s t")
    case (LqTest c x oh)
    show ?thesis using sim_test [OF inv t LqTest b(1)] s' unfolding LqTest by simp
  next
    case (LqClaim c x oh)
    show ?thesis using sim_claim [OF inv t LqClaim] s' unfolding LqClaim by simp
  next
    case (LqWrite c x oh)
    show ?thesis using sim_write [OF inv t LqWrite b(1)] s' unfolding LqWrite by simp
  next
    case (LqCount c x oh)
    show ?thesis using sim_count [OF inv t LqCount] s' unfolding LqCount by simp
  next
    case (LqCounted c x oh w)
    show ?thesis using sim_counted [OF inv t LqCounted b] s' unfolding LqCounted by simp
  next
    case (LqSeek ot)
    show ?thesis using sim_seek [OF inv t LqSeek b(1)] s' unfolding LqSeek by simp
  next
    case (LqTake ot)
    show ?thesis using sim_take [OF inv t LqTake b(1)] s' unfolding LqTake by simp
  next
    case (LqRead ot)
    show ?thesis using sim_read [OF inv t LqRead b(1)] s' unfolding LqRead by simp
  next
    case (LqDrop y ot)
    show ?thesis using sim_drop [OF inv t LqDrop] s' unfolding LqDrop by simp
  next
    case (LqDropped y ot w)
    show ?thesis using sim_dropped [OF inv t LqDropped b] s' unfolding LqDropped by simp
  qed (use False ok in simp_all)
qed

end
