(* ===== verification/CLQueue_Properties.thy ===== *)
theory CLQueue_Properties
  imports CLQueue_Contract
begin

text \<open>
  \<open>CLQueue\<close>: construction and \<open>clear\<close>, the interpretation of the queue with a limited life, and the
  properties, the cases outside the contract included.
\<close>

section \<open>clear\<close>

lemma clq_destroy_live:
  assumes "slots (cls q l) s = Some x"
  shows "clq_destroy l s q = Ret (q\<lparr>cls := (cls q)(l := (cls q l)\<lparr>slots := (slots (cls q l))(s := None)\<rparr>)\<rparr>)"
  using assms by (simp add: clq_destroy_def upd_line_def)

lemma clq_clear_loop_live:
  assumes "clq_shape q m" "p + n < 2 ^ 32" "n \<le> clq_S q * 2 ^ m"
    and "\<forall>i<n. slots (cls q (get_li q (of_nat (p + i)))) (get_si q (of_nat (p + i))) \<noteq> None"
  shows "\<exists>f. clq_clear_loop n (of_nat p) q = Ret (q\<lparr>cls := f\<rparr>)"
  using assms
proof (induction n arbitrary: p q)
  case 0
  then show ?case by (intro exI [of _ "cls q"]) simp
next
  case (Suc n)
  let ?l = "get_li q (of_nat p)" and ?s = "get_si q (of_nat p)"
  obtain x where "slots (cls q ?l) ?s = Some x" using Suc.prems(4) by force
  note d = clq_destroy_live [OF this]
  let ?q = "q\<lparr>cls := (cls q)(?l := (cls q ?l)\<lparr>slots := (slots (cls q ?l))(?s := None)\<rparr>)\<rparr>"
  have lay: "get_li ?q k = get_li q k" "get_si ?q k = get_si q k" for k by (rule clq_layout_cong; simp)+
  have "slots (cls ?q (get_li q (of_nat (Suc p + i)))) (get_si q (of_nat (Suc p + i))) \<noteq> None" if "i < n" for i
  proof -
    have "?l \<noteq> get_li q (of_nat (Suc p + i)) \<or> ?s \<noteq> get_si q (of_nat (Suc p + i))"
      using that Suc.prems(2,3) by (intro clq_places_differ [OF Suc.prems(1)]) simp_all
    moreover have "slots (cls q (get_li q (of_nat (Suc p + i)))) (get_si q (of_nat (Suc p + i))) \<noteq> None"
      using Suc.prems(4) [rule_format, of "Suc i"] that by simp
    ultimately show ?thesis by auto
  qed
  moreover have "clq_shape ?q m" using Suc.prems(1) by (simp add: clq_shape_def)
  ultimately obtain f where "clq_clear_loop n (of_nat (Suc p)) ?q = Ret (?q\<lparr>cls := f\<rparr>)"
    using Suc.IH [of ?q "Suc p"] Suc.prems(2,3) lay by auto
  then show ?case by (intro exI [of _ f]) (simp add: d add.commute)
qed

text \<open>The state after the reset of the counters.\<close>

lemma clq_reset_fields:
  "clq_T_SIZE (clq_reset q) = clq_T_SIZE q" "clq_USE_BLOCK (clq_reset q) = clq_USE_BLOCK q"
  "clq_flags (clq_reset q) = clq_flags q" "max_line (clq_reset q) = max_line q"
  "clq_max_size (clq_reset q) = clq_max_size q" "max_line_mask (clq_reset q) = max_line_mask q"
  "max_line_mask_bits (clq_reset q) = max_line_mask_bits q"
  "dequeue_overcommit (clq_reset q) = dequeue_overcommit q" "overcommit (clq_reset q) = overcommit q"
  "clq_head (clq_reset q) = 0" "clq_tail (clq_reset q) = 0"
  by (simp_all add: clq_reset_def)

lemma clq_reset_lines:
  assumes "li < max_line q"
  shows "hf2 (cls (clq_reset q) li) = 1" "tf2 (cls (clq_reset q) li) = 1"
    "hf1 (cls (clq_reset q) li) = (if li = 0 then 1 else 0)" "tf1 (cls (clq_reset q) li) = (if li = 0 then 1 else 0)"
  using assms by (auto simp: clq_reset_def cls_upd_line)

lemma clq_reset_rel:
  assumes "clq_shape q m" "dequeue_overcommit q - overcommit q = of_nat d"
  shows "clq_rel m 0 d (clq_reset q) []"
proof -
  have sh: "clq_shape (clq_reset q) m" using assms(1) by (simp add: clq_shape_def clq_reset_fields)
  have m: "m \<le> 29" "max_line q = 2 ^ m" using assms(1) by (simp_all add: clq_shape_def)
  have p: "(2 :: nat) ^ m \<le> 2147483648" using m by (intro pow2_le_31) simp
  have "clq_counts m 0 0 (clq_reset q)"
    unfolding clq_counts_def
  proof (intro allI impI)
    fix l :: nat assume l: "l < 2 ^ m"
    then have u: "unat (of_nat l :: u32) = l" using p by (intro unat_of_nat_u32) linarith
    have "unat (max_line q) = 2 ^ m" using m by (simp add: unat_pow2_u32)
    then have lt: "(of_nat l :: u32) < max_line q" unfolding word_less_nat_alt u using l by simp
    have z: "(of_nat l :: u32) = 0 \<longleftrightarrow> l = 0" by (rule of_nat_0_u32 [of l "of_nat l"]) (simp only: u order_refl)
    note L = clq_reset_lines [OF lt, unfolded z]
    show "unat (hf2 (cls (clq_reset q) (of_nat l))) = Suc (line_count (2 ^ m) l 0) \<and>
     unat (tf2 (cls (clq_reset q) (of_nat l))) = Suc (line_count (2 ^ m) l 0) \<and>
     (clq_mp (clq_reset q) \<longrightarrow> unat (hf1 (cls (clq_reset q) (of_nat l))) = line_count (2 ^ m) l (Suc 0)) \<and>
     (clq_mc (clq_reset q) \<longrightarrow> unat (tf1 (cls (clq_reset q) (of_nat l))) = line_count (2 ^ m) l (Suc 0))"
      unfolding L by (cases "l = 0") simp_all
  qed
  with sh assms(2) show ?thesis by (simp add: clq_rel_def clq_reset_fields)
qed

lemma clq_clear_rel:
  assumes "clq_rel m t d q xs" "dequeue_overcommit q - overcommit q = of_nat d"
  shows "\<exists>q'. clq_clear q = Ret q' \<and> clq_rel m 0 d q' [] \<and> clq_max_size q' = clq_max_size q \<and> clq_flags q' = clq_flags q \<and>
    dequeue_overcommit q' - overcommit q' = of_nat d"
proof -
  note R = clq_relD [OF assms(1)]
  have n: "unat (clq_head q - clq_tail q) = length xs"
    using R(3) by (simp add: R(5,6) unat_of_nat_u32)
  obtain f where f: "clq_clear_loop (length xs) (of_nat t) q = Ret (q\<lparr>cls := f\<rparr>)"
    using clq_clear_loop_live [OF R(1,3,2)] R(9) by auto
  let ?q = "q\<lparr>cls := f\<rparr>"
  have "clq_clear q = Ret (clq_reset ?q)" unfolding clq_clear_def n unfolding R(6) f by simp
  moreover have "clq_rel m 0 d (clq_reset ?q) []"
    using R(1) assms(2) by (intro clq_reset_rel) (simp_all add: clq_shape_def)
  ultimately show ?thesis using assms(2) by (intro exI [of _ "clq_reset ?q"]) (simp add: clq_reset_fields)
qed

section \<open>Construction\<close>

lemma clq_grow_total:
  assumes "7 \<le> unat s" "unat maxsz \<le> 2 ^ 31" "unat maxsz \<le> unat s * 2 ^ f" "unat s < 2 ^ 32"
  shows "\<exists>k. clq_grow (Suc f) s maxsz = Ret (of_nat (unat s * 2 ^ k)) \<and> unat maxsz \<le> unat s * 2 ^ k \<and>
    unat s * 2 ^ k < 2 ^ 32 \<and> (k = 0 \<or> unat s * 2 ^ k < 2 * unat maxsz)"
  using assms
proof (induction f arbitrary: s)
  case 0
  then show ?case by (intro exI [of _ 0]) (simp add: word_less_nat_alt)
next
  case (Suc f)
  show ?case
  proof (cases "s < maxsz")
    case True
    then have lt: "unat s < unat maxsz" by (simp add: word_less_nat_alt)
    have "push_bit 1 s = s * 2" by (simp add: push_bit_eq_mult)
    moreover have v: "unat (s * 2) = 2 * unat s" using lt Suc.prems(2) by (simp add: unat_word_ariths)
    ultimately have u: "unat (push_bit 1 s) = 2 * unat s" by simp
    have "\<exists>k. clq_grow (Suc f) (push_bit 1 s) maxsz = Ret (of_nat (unat (push_bit 1 s) * 2 ^ k)) \<and>
        unat maxsz \<le> unat (push_bit 1 s) * 2 ^ k \<and> unat (push_bit 1 s) * 2 ^ k < 2 ^ 32 \<and>
        (k = 0 \<or> unat (push_bit 1 s) * 2 ^ k < 2 * unat maxsz)"
      using Suc.prems lt by (intro Suc.IH) (simp_all add: u v)
    then obtain k where k: "clq_grow (Suc f) (push_bit 1 s) maxsz = Ret (of_nat (2 * unat s * 2 ^ k))"
      "unat maxsz \<le> 2 * unat s * 2 ^ k" "2 * unat s * 2 ^ k < 2 ^ 32" "k = 0 \<or> 2 * unat s * 2 ^ k < 2 * unat maxsz"
      unfolding u by blast
    have e: "2 * unat s * 2 ^ k = unat s * 2 ^ Suc k" by simp
    have "unat s * 2 ^ Suc k < 2 * unat maxsz" using k(4) lt by auto
    moreover have "clq_grow (Suc (Suc f)) s maxsz = Ret (of_nat (unat s * 2 ^ Suc k))"
      using True k(1) unfolding e by simp
    ultimately show ?thesis using k(2,3) unfolding e by blast
  next
    case False
    then show ?thesis by (intro exI [of _ 0]) (simp add: word_less_nat_alt not_less)
  qed
qed

lemma popcount_mask: "k \<le> 32 \<Longrightarrow> popcount (mask k) = k"
proof -
  assume "k \<le> 32"
  then have u: "[0..<32] = [0..<k] @ [k..<32]" using upt_add_eq_append [of 0 k "32 - k"] by simp
  have "filter (bit (mask k :: u32)) [0..<k] = [0..<k]" using \<open>k \<le> 32\<close> by (simp add: filter_id_conv bit_mask_iff)
  moreover have "filter (bit (mask k :: u32)) [k..<32] = []" by (simp add: filter_empty_conv bit_mask_iff)
  ultimately show ?thesis unfolding popcount_def u filter_append by simp
qed

definition clq_flags_ok :: "u32 \<Rightarrow> bool" where
  "clq_flags_ok fl \<longleftrightarrow> \<not> (has_flag fl F_MP_ENQ \<and> has_flag fl F_MP_RTS_ENQ) \<and>
     \<not> (has_flag fl F_MC_RTS_DEQ \<and> has_flag fl F_MC_DEQ) \<and> \<not> has_flag fl F_EXACT_SZ"

lemma clq_ctor_rel:
  assumes "1 \<le> T" "1 \<le> unat maxsz" "unat maxsz \<le> 2 ^ 31" "clq_flags_ok fl"
  shows "\<exists>q m. clq_ctor T False h h raw maxsz fl = Ret q \<and> clq_rel m 0 0 q [] \<and> clq_flags q = clq_default_flags fl \<and>
    unat maxsz \<le> unat (clq_max_size q) \<and> unat (clq_max_size q) \<le> max (SLOT_MAX_INLINE T) (2 * unat maxsz) \<and>
    max_line q = 2 ^ m \<and> m \<le> 29 \<and> unat (clq_max_size q) = SLOT_MAX_INLINE T * 2 ^ m \<and>
    dequeue_overcommit q = 0 \<and> overcommit q = 0"
proof -
  define S where "S = SLOT_MAX_INLINE T"
  have S: "7 \<le> S" "S \<le> 70" using SLOT_MAX_INLINE_bounds [OF assms(1)] by (simp_all add: S_def)
  have u: "unat (of_nat S :: u32) = S" using S by (intro unat_of_nat_u32) linarith
  have "unat maxsz \<le> unat (of_nat S :: u32) * 2 ^ 32" unfolding u using assms(3) S by simp
  then obtain k where k: "clq_grow 33 (of_nat S) maxsz = Ret (of_nat (S * 2 ^ k))" "unat maxsz \<le> S * 2 ^ k"
    "S * 2 ^ k < 2 ^ 32" "k = 0 \<or> S * 2 ^ k < 2 * unat maxsz"
    using clq_grow_total [of "of_nat S" maxsz 32] assms(3) S unfolding u by auto
  have "7 * 2 ^ k < (2 :: nat) ^ 32" using mult_le_mono1 [OF S(1), of "2 ^ k"] k(3) by linarith
  then have "(2 :: nat) ^ k < 2 ^ 30" by simp
  then have k29: "k \<le> 29" using power_less_imp_less_exp [of "2 :: nat" k 30] by simp
  have us: "unat (of_nat (S * 2 ^ k) :: u32) = S * 2 ^ k" using k(3) by (intro unat_of_nat_u32) simp
  have "unat (of_nat (S * 2 ^ k) div of_nat S :: u32) = S * 2 ^ k div S" by (simp only: unat_div us u)
  also have "\<dots> = 2 ^ k" using S by simp
  also have "\<dots> = unat (2 ^ k :: u32)" using k29 by (simp add: unat_pow2_u32)
  finally have ln: "of_nat (S * 2 ^ k) div of_nat S = (2 ^ k :: u32)" by (simp only: word_unat_eq_iff)
  define q0 :: "'a clqueue" where "q0 = \<lparr>clq_T_SIZE = T, clq_USE_BLOCK = False, clq_flags = clq_default_flags fl,
            cls = (\<lambda>li. (raw li)\<lparr>slots := \<lambda>_. None\<rparr>), max_line = 2 ^ k, clq_max_size = of_nat (S * 2 ^ k), max_line_mask = 2 ^ k - 1,
            max_line_mask_bits = popcount (2 ^ k - 1), dequeue_overcommit = 0, overcommit = 0,
            clq_head = h, clq_tail = h\<rparr>"
  have mk: "2 ^ k - 1 = (mask k :: u32)" by (simp add: mask_eq_decr_exp)
  have "clq_shape q0 k"
    using assms(1) k(3) k29 popcount_mask [of k] by (simp add: clq_shape_def q0_def mk S_def)
  then have "clq_rel k 0 0 (clq_reset q0) []" by (rule clq_reset_rel) (simp add: q0_def)
  moreover have "maxsz \<noteq> 0" using assms(2) by auto
  then have "clq_ctor T False h h raw maxsz fl = clq_clear q0"
    using assms(4) k(1) ln by (auto simp: clq_ctor_def clq_flags_ok_def Let_def q0_def simp flip: S_def)
  moreover have "clq_clear q0 = Ret (clq_reset q0)" by (simp add: clq_clear_def q0_def)
  moreover have "clq_max_size (clq_reset q0) = of_nat (S * 2 ^ k)" by (simp add: clq_reset_fields q0_def)
  moreover have "clq_flags (clq_reset q0) = clq_default_flags fl" "max_line (clq_reset q0) = 2 ^ k"
    "dequeue_overcommit (clq_reset q0) = 0" "overcommit (clq_reset q0) = 0"
    by (simp_all add: clq_reset_fields q0_def)
  moreover have "S * 2 ^ k \<le> max S (2 * unat maxsz)" using k(4) by auto
  ultimately show ?thesis
    using k(2) k29 us by (intro exI [of _ "clq_reset q0"] exI [of _ k]) (simp flip: S_def)
qed

section \<open>CLQueue as a queue\<close>

definition clq_life :: "nat \<Rightarrow> 'a clqueue \<Rightarrow> 'a list \<Rightarrow> bool" where
  "clq_life n q xs \<longleftrightarrow> (\<exists>m t. clq_rel m t t q xs \<and> t + length xs + n < 2 ^ 32 \<and> t + length xs + n \<le> 65534 * 2 ^ m)"

definition clq_cap :: "'a clqueue \<Rightarrow> nat" where
  "clq_cap q = unat (clq_max_size q)"

lemma clq_rel_cap: "clq_rel m t d q xs \<Longrightarrow> clq_cap q = clq_S q * 2 ^ m"
proof -
  assume "clq_rel m t d q xs"
  then have "clq_max_size q = of_nat (clq_S q * 2 ^ m)" "clq_S q * 2 ^ m < 2 ^ 32"
    by (auto simp: clq_rel_def clq_shape_def)
  then show ?thesis using unat_of_nat_u32 [of "clq_S q * 2 ^ m"] by (simp add: clq_cap_def)
qed

interpretation clq: lifetime_queue clq_life clq_cap clq_push clq_pop "\<lambda>_. True"
proof unfold_locales
  fix q :: "'a clqueue" and xs n x
  show "clq_life n q xs \<Longrightarrow> length xs \<le> clq_cap q"
    unfolding clq_life_def using clq_rel_cap clq_relD(2) by metis
  show "\<exists>q'. clq_push x q = Ret (True, q') \<and> clq_life n q' (xs @ [x]) \<and> clq_cap q' = clq_cap q"
    if life: "clq_life (Suc n) q xs" and "length xs < clq_cap q"
  proof -
    obtain m t where r: "clq_rel m t t q xs" and l: "t + length xs + Suc n < 2 ^ 32" "t + length xs + Suc n \<le> 65534 * 2 ^ m"
      using life unfolding clq_life_def by blast
    have c: "length xs < clq_S q * 2 ^ m" using that clq_rel_cap [OF r] by simp
    have "clq_rel m t t (clq_pushed x q) (xs @ [x])" using l by (intro clq_push_rel [OF r c]) simp_all
    with l have "clq_life n (clq_pushed x q) (xs @ [x])" unfolding clq_life_def by (intro exI [of _ m] exI [of _ t]) simp
    then show ?thesis using clq_emplace_eq [OF r c] by (simp add: clq_push_def clq_cap_def clq_pushed_fields)
  qed
  show "\<exists>q'. clq_push x q = Ret (False, q') \<and> clq_life n q' xs \<and> clq_cap q' = clq_cap q"
    if life: "clq_life n q xs" and "length xs = clq_cap q"
  proof -
    obtain m t where r: "clq_rel m t t q xs" using life unfolding clq_life_def by blast
    have "line_full q (get_li q (clq_head q))" using that clq_rel_cap [OF r] line_full_rel [OF r] by simp
    then show ?thesis using life by (simp add: clq_push_def clq_emplace_impl_def Let_def)
  qed
  show "\<exists>q'. clq_pop q = Ret (Some x, q') \<and> clq_life n q' xs \<and> clq_cap q' = clq_cap q"
    if life: "clq_life n q (x # xs)"
  proof -
    obtain m t where r: "clq_rel m t t q (x # xs)" and l: "t + length (x # xs) + n < 2 ^ 32" "t + length (x # xs) + n \<le> 65534 * 2 ^ m"
      using life unfolding clq_life_def by blast
    have "clq_life n (clq_popped q) xs"
      unfolding clq_life_def using clq_pop_rel [OF r] l by (intro exI [of _ m] exI [of _ "Suc t"]) simp
    then show ?thesis using clq_pop_eq [OF r] by (simp add: clq_cap_def clq_popped_fields)
  qed
  show "\<exists>q'. clq_pop q = Ret (None, q') \<and> clq_life n q' [] \<and> clq_cap q' = clq_cap q"
    if life: "clq_life n q []"
  proof -
    obtain m t where r: "clq_rel m t t q []" and l: "t + n < 2 ^ 32" "t + n \<le> 65534 * 2 ^ m"
      using life unfolding clq_life_def by auto
    obtain q' where "clq_pop q = Ret (None, q')" "clq_rel m t t q' []" "clq_max_size q' = clq_max_size q"
      using clq_pop_none [OF r] by blast
    with l show ?thesis unfolding clq_life_def clq_cap_def by (intro exI [of _ q']) auto
  qed
qed

section \<open>Properties\<close>

text \<open>Storage for the witnesses below.\<close>

definition zero_lines :: "u32 \<Rightarrow> nat cache_line" where
  "zero_lines = (\<lambda>_. \<lparr>hf1 = 0, tf1 = 0, hf2 = 0, tf2 = 0, slots = \<lambda>_. None\<rparr>)"

text \<open>Property C20: \<open>CLQueue\<close> with \<open>USE_BLOCK = false\<close> is built for every size from 1 to \<open>2^31\<close> and every admissible flags (its \<open>head\<close> and
  \<open>tail\<close> starting equal); its capacity is at least the size asked for and at most twice as large (or one line). In
  every mode it then answers each sequence of at most \<open>65534\<close> pushes per cache line, fewer than \<open>2^32\<close> in all,
  and any pops, as a list bounded by that capacity.\<close>

theorem clq_refines_bounded_list:
  assumes "1 \<le> T" "1 \<le> unat maxsz" "unat maxsz \<le> 2 ^ 31" "clq_flags_ok fl"
  shows "\<exists>q. clq_ctor T False h h raw maxsz fl = Ret q \<and>
    unat maxsz \<le> unat (clq_capacity q) \<and> unat (clq_capacity q) \<le> max (SLOT_MAX_INLINE T) (2 * unat maxsz) \<and>
    (\<forall>ops. enqueues ops \<le> 65534 * unat (max_line q) \<longrightarrow> enqueues ops < 2 ^ 32 \<longrightarrow>
      (\<exists>q'. queue_run clq_push clq_pop ops q = Ret (fst (spec_run (unat (clq_capacity q)) ops []), q')))"
proof -
  obtain q m where q: "clq_ctor T False h h raw maxsz fl = Ret q" "clq_rel m 0 0 q []"
    "unat maxsz \<le> unat (clq_max_size q)" "unat (clq_max_size q) \<le> max (SLOT_MAX_INLINE T) (2 * unat maxsz)"
    "max_line q = 2 ^ m" "m \<le> 29"
    using clq_ctor_rel [OF assms, of h raw] by blast
  have ml: "unat (max_line q) = 2 ^ m" using q(5,6) by (simp add: unat_pow2_u32)
  have "\<exists>q'. queue_run clq_push clq_pop ops q = Ret (fst (spec_run (unat (clq_capacity q)) ops []), q')"
    if "enqueues ops \<le> 65534 * unat (max_line q)" "enqueues ops < 2 ^ 32" for ops
  proof -
    have "clq_life (enqueues ops) q []" unfolding clq_life_def using q(2) that ml by (intro exI [of _ m] exI [of _ 0]) simp
    from clq.life_run [OF this order_refl] show ?thesis by (auto simp: clq_cap_def clq_capacity_def)
  qed
  with q(1,3,4) show ?thesis unfolding clq_capacity_def by (intro exI [of _ q]) simp
qed

lemma clq_refines_bounded_list_witness:
  "\<exists>q q' :: nat clqueue. clq_ctor 8 False 0 0 zero_lines 10 0 = Ret q \<and>
     queue_run clq_push clq_pop [Enqueue 5, Enqueue 6, Dequeue, Dequeue, Dequeue] q =
       Ret ([Enqueued True, Enqueued True, Dequeued (Some 5), Dequeued (Some 6), Dequeued None], q')"
proof -
  have a: "clq_flags_ok 0" "1 \<le> (8 :: nat)" "1 \<le> unat (10 :: u32)" "unat (10 :: u32) \<le> 2 ^ 31"
    by (simp_all add: clq_flags_ok_def has_flag_def)
  let ?ops = "[Enqueue 5, Enqueue 6, Dequeue, Dequeue, Dequeue] :: nat qop list"
  obtain q :: "nat clqueue" where q: "clq_ctor 8 False 0 0 zero_lines 10 0 = Ret q" "10 \<le> unat (clq_capacity q)"
    and run: "\<forall>ops. enqueues ops \<le> 65534 * unat (max_line q) \<longrightarrow> enqueues ops < 2 ^ 32 \<longrightarrow>
      (\<exists>q'. queue_run clq_push clq_pop ops q = Ret (fst (spec_run (unat (clq_capacity q)) ops []), q'))"
    using clq_refines_bounded_list [OF a(2-4,1), of 0 zero_lines] by auto
  have "unat (max_line q) \<noteq> 0"
    using clq_ctor_rel [OF a(2-4,1), of 0 zero_lines] q(1) by (auto simp: unat_pow2_u32)
  then have "enqueues ?ops \<le> 65534 * unat (max_line q)" "enqueues ?ops < 2 ^ 32" by simp_all
  with run obtain q' where "queue_run clq_push clq_pop ?ops q = Ret (fst (spec_run (unat (clq_capacity q)) ?ops []), q')" by blast
  with q show ?thesis by (intro exI [of _ q] exI [of _ q']) simp
qed

text \<open>The test for a full line compares \<open>hf2 - tf2\<close> after promotion to \<open>int\<close>: a push to a full line
  is refused only while \<open>hf2\<close> has not wrapped around past \<open>tf2\<close>; after it has, the push is accepted and
  the new element overwrites a live one.\<close>

theorem clq_full_test_wraps:
  assumes "hf2 (cls q li) - tf2 (cls q li) = of_nat (clq_S q)" "1 \<le> clq_T_SIZE q"
    and "li = get_li q (clq_head q)" "slots (cls q li) (get_si q (clq_head q)) = Some y"
    and "has_flag (clq_flags q) F_SP_ENQ \<or> hf1 (cls q li) = hf2 (cls q li)"
  shows "if tf2 (cls q li) \<le> hf2 (cls q li) then clq_push x q = Ret (False, q)
    else \<exists>q'. clq_push x q = Ret (True, q') \<and> slots (cls q' li) (get_si q (clq_head q)) = Some x"
proof -
  have s: "7 \<le> clq_S q" "clq_S q \<le> 70" using SLOT_MAX_INLINE_bounds [OF assms(2)] by auto
  have u: "unat (of_nat (clq_S q) :: u16) = clq_S q" using s by (simp add: unat_of_nat)
  show ?thesis
  proof (cases "tf2 (cls q li) \<le> hf2 (cls q li)")
    case True
    then have "unat (hf2 (cls q li)) - unat (tf2 (cls q li)) = clq_S q" "unat (tf2 (cls q li)) \<le> unat (hf2 (cls q li))"
      using assms(1) u by (simp_all add: unat_sub flip: word_le_nat_alt) (metis unat_sub)
    then have "int (unat (hf2 (cls q li))) - int (unat (tf2 (cls q li))) = int (clq_S q)" by linarith
    then have "line_full q li" by (simp add: line_full_def)
    with True assms(3) show ?thesis by (simp add: clq_push_def clq_emplace_impl_def Let_def)
  next
    case False
    then have "int (unat (hf2 (cls q li))) < int (unat (tf2 (cls q li)))"
      by (simp only: word_le_nat_alt not_le of_nat_less_iff)
    then have "\<not> line_full q li" using s by (simp add: line_full_def)
    with False assms(3,5) show ?thesis
      by (auto simp: clq_push_def clq_emplace_impl_def clq_publish_def clq_construct_def cls_upd_line Let_def)
  qed
qed

lemma clq_full_test_wraps_witness:
  "\<exists>q'. clq_push 9 \<lparr>clq_T_SIZE = 8, clq_USE_BLOCK = False, clq_flags = 1,
       cls = (\<lambda>_. \<lparr>hf1 = 0, tf1 = 0, hf2 = 2, tf2 = 65531, slots = \<lambda>_. Some (4 :: nat)\<rparr>), max_line = 1, clq_max_size = 7,
       max_line_mask = 0, max_line_mask_bits = 0, dequeue_overcommit = 0, overcommit = 0, clq_head = 65537, clq_tail = 65530\<rparr> =
     Ret (True, q')"
proof -
  let ?q = "\<lparr>clq_T_SIZE = 8, clq_USE_BLOCK = False, clq_flags = 1,
       cls = (\<lambda>_. \<lparr>hf1 = 0, tf1 = 0, hf2 = 2, tf2 = 65531, slots = \<lambda>_. Some (4 :: nat)\<rparr>), max_line = 1, clq_max_size = 7,
       max_line_mask = 0, max_line_mask_bits = 0, dequeue_overcommit = 0, overcommit = 0, clq_head = 65537, clq_tail = 65530\<rparr>"
  have S: "SLOT_MAX_INLINE 8 = 7" by (simp add: SLOT_MAX_INLINE_def LINE_SIZE_def)
  have w: "(2 :: u16) - 65531 = 7" by simp
  have "if tf2 (cls ?q 0) \<le> hf2 (cls ?q 0) then clq_push 9 ?q = Ret (False, ?q)
    else \<exists>q'. clq_push 9 ?q = Ret (True, q') \<and> slots (cls q' 0) (get_si ?q (clq_head ?q)) = Some 9"
    by (rule clq_full_test_wraps [of ?q 0 4 9]) (simp_all add: S w get_li_def has_flag_def F_SP_ENQ_def)
  moreover have "\<not> tf2 (cls ?q 0) \<le> hf2 (cls ?q 0)" by simp
  ultimately show ?thesis by auto
qed

lemma has_flag_fl_or: "has_flag (fl OR a) b \<longleftrightarrow> has_flag fl b \<or> has_flag a b"
  by (simp add: has_flag_def bit.conj_disj_distrib2 or_eq_0_iff)

lemma clq_default_SC: "has_flag (clq_default_flags fl) F_SC_DEQ = has_flag fl F_SC_DEQ"
proof -
  have "\<not> has_flag F_MP_ENQ F_SC_DEQ" "\<not> has_flag F_MC_DEQ F_SC_DEQ" by (simp_all add: has_flag_def conq_flag_defs)
  then show ?thesis by (simp add: clq_default_flags_def has_flag_fl_or Let_def)
qed

lemma clq_pop_looks_elsewhere:
  assumes "\<not> has_flag (clq_flags q) F_SC_DEQ" "dequeue_overcommit q - overcommit q = p" "line_empty q (get_li q p)"
  shows "\<exists>q'. clq_pop q = Ret (None, q')"
  using assms by (simp add: clq_pop_def Let_def line_empty_def)

text \<open>\<open>clear\<close> resets the positions but neither \<open>dequeue_overcommit\<close> nor \<open>overcommit\<close>: in a
  multi-consumer queue of more than one line, after a push, a pop and a \<open>clear\<close>, an element that is pushed
  is not found by \<open>pop\<close>, which looks at the second line.\<close>

theorem clq_clear_loses_element:
  assumes "1 \<le> T" "SLOT_MAX_INLINE T < unat maxsz" "unat maxsz \<le> 2 ^ 31" "clq_flags_ok fl" "\<not> has_flag fl F_SC_DEQ"
  shows "\<exists>q q1 q2. clq_ctor T False h h raw maxsz fl = Ret q \<and>
    queue_run clq_push clq_pop [Enqueue x, Dequeue] q = Ret ([Enqueued True, Dequeued (Some x)], q1) \<and>
    run_bind (clq_clear q1) (queue_run clq_push clq_pop [Enqueue y, Dequeue]) = Ret ([Enqueued True, Dequeued None], q2)"
proof -
  obtain q m where q: "clq_ctor T False h h raw maxsz fl = Ret q" "clq_rel m 0 0 q []" "clq_flags q = clq_default_flags fl"
    "unat maxsz \<le> unat (clq_max_size q)" "m \<le> 29" "unat (clq_max_size q) = SLOT_MAX_INLINE T * 2 ^ m"
    "dequeue_overcommit q = 0" "overcommit q = 0"
    using clq_ctor_rel [OF assms(1) _ assms(3,4), of h raw] assms(2) by auto
  have m: "1 \<le> m" using q(4,6) assms(2) by (cases m) auto
  then have p2: "(2 :: nat) \<le> 2 ^ m" using power_increasing [of 1 m "2 :: nat"] by simp
  have sc: "\<not> has_flag (clq_flags q') F_SC_DEQ" if "clq_flags q' = clq_flags q" for q' :: "'a clqueue"
    using that q(3) assms(5) clq_default_SC by simp
  have room: "length ([] :: 'a list) < clq_S q' * 2 ^ m" if "clq_shape q' m" for q' :: "'a clqueue"
    using clq_S_bounds [OF that] by simp
  have l: "Suc (0 + length ([] :: 'a list)) < 2 ^ 32" "Suc (0 + length ([] :: 'a list)) \<le> 65534 * 2 ^ m" using p2 by simp_all
  let ?q1 = "clq_pushed x q" let ?q2 = "clq_popped ?q1"
  have r1: "clq_rel m 0 0 ?q1 [x]" using clq_push_rel [OF q(2) room l] clq_relD(1) [OF q(2)] by simp
  have r2: "clq_rel m (Suc 0) (Suc 0) ?q2 []" by (rule clq_pop_rel [OF r1])
  have e1: "clq_push x q = Ret (True, ?q1)" "clq_pop ?q1 = Ret (Some x, ?q2)"
    using clq_emplace_eq [OF q(2) room] clq_relD(1) [OF q(2)] clq_pop_eq [OF r1] by (simp_all add: clq_push_def)
  have d2: "dequeue_overcommit ?q2 - overcommit ?q2 = of_nat (Suc 0)" "clq_flags ?q2 = clq_flags q"
    using sc [of ?q1] q(7,8) by (simp_all add: clq_popped_fields clq_pushed_fields)
  obtain q3 where q3: "clq_clear ?q2 = Ret q3" "clq_rel m 0 (Suc 0) q3 []" "clq_flags q3 = clq_flags ?q2"
    "dequeue_overcommit q3 - overcommit q3 = of_nat (Suc 0)"
    using clq_clear_rel [OF r2 d2(1)] by blast
  let ?q4 = "clq_pushed y q3"
  have r4: "clq_rel m 0 (Suc 0) ?q4 [y]" using clq_push_rel [OF q3(2) room l] clq_relD(1) [OF q3(2)] by simp
  have e4: "clq_push y q3 = Ret (True, ?q4)"
    using clq_emplace_eq [OF q3(2) room] clq_relD(1) [OF q3(2)] by (simp add: clq_push_def)
  have li: "get_li ?q4 1 = of_nat 1" using get_li_nat [OF clq_relD(1) [OF r4], of 1] p2 m by simp
  have "line_empty ?q4 (of_nat 1)"
    using clq_counts_hf2 [OF clq_relD(8) [OF r4], of 1] clq_counts_tf2 [OF clq_relD(8) [OF r4], of 1] p2
    by (simp add: line_empty_def word_unat_eq_iff)
  then have "line_empty ?q4 (get_li ?q4 1)" using li by simp
  moreover have "dequeue_overcommit ?q4 - overcommit ?q4 = 1" using q3(4) by (simp add: clq_pushed_fields)
  moreover have "\<not> has_flag (clq_flags ?q4) F_SC_DEQ" using sc [of ?q4] d2(2) q3(3) by (simp add: clq_pushed_fields)
  ultimately have "\<exists>q5. clq_pop ?q4 = Ret (None, q5)" by (intro clq_pop_looks_elsewhere)
  with q(1) e1 q3(1) e4 show ?thesis by auto
qed

lemma clq_clear_loses_element_witness:
  "\<exists>q q1 q2 :: nat clqueue. clq_ctor 8 False 0 0 zero_lines 10 0 = Ret q \<and>
    queue_run clq_push clq_pop [Enqueue 5, Dequeue] q = Ret ([Enqueued True, Dequeued (Some 5)], q1) \<and>
    run_bind (clq_clear q1) (queue_run clq_push clq_pop [Enqueue 6, Dequeue]) = Ret ([Enqueued True, Dequeued None], q2)"
proof (rule clq_clear_loses_element)
  show "SLOT_MAX_INLINE 8 < unat (10 :: u32)" by (simp add: SLOT_MAX_INLINE_def LINE_SIZE_def)
qed (simp_all add: clq_flags_ok_def has_flag_def)

text \<open>The constructor runs \<open>clear\<close> on the uninitialized \<open>head\<close> and \<open>tail\<close>: unless they happen to
  hold equal values, it destroys objects that were never constructed.\<close>

theorem clq_ctor_uninitialized:
  assumes "1 \<le> T" "1 \<le> unat maxsz" "unat maxsz \<le> 2 ^ 31" "clq_flags_ok fl" "h \<noteq> t"
  shows "clq_ctor T b h t raw maxsz fl = UB"
proof -
  have S: "7 \<le> SLOT_MAX_INLINE T" "SLOT_MAX_INLINE T \<le> 70" using SLOT_MAX_INLINE_bounds [OF assms(1)] by auto
  have u: "unat (of_nat (SLOT_MAX_INLINE T) :: u32) = SLOT_MAX_INLINE T" using S by (intro unat_of_nat_u32) linarith
  have "unat maxsz \<le> unat (of_nat (SLOT_MAX_INLINE T) :: u32) * 2 ^ 32" unfolding u using assms(3) S by simp
  then obtain s where s: "clq_grow 33 (of_nat (SLOT_MAX_INLINE T)) maxsz = Ret s"
    using clq_grow_total [of "of_nat (SLOT_MAX_INLINE T)" maxsz 32] assms(3) S unfolding u by auto
  have "h - t \<noteq> 0" using assms(5) by simp
  then have "unat (h - t) \<noteq> 0" by (simp only: unat_eq_0 not_False_eq_True)
  then obtain n where n: "unat (h - t) = Suc n" by (cases "unat (h - t)") auto
  have "maxsz \<noteq> 0" using assms(2) by auto
  then show ?thesis
    using assms(4) s n by (auto simp: clq_ctor_def clq_flags_ok_def clq_clear_def clq_destroy_def Let_def)
qed

lemma clq_ctor_uninitialized_witness: "clq_ctor 4 False 3 0 zero_lines 10 0 = UB"
  by (rule clq_ctor_uninitialized) (simp_all add: clq_flags_ok_def has_flag_def)

text \<open>With \<open>USE_BLOCK\<close> and fewer than 64 lines, position \<open>2^m\<close> is stored where position 0 is.\<close>

lemma clq_block_few_lines_collide:
  assumes "clq_USE_BLOCK q" "max_line_mask q = mask m" "m < 6" "1 \<le> clq_T_SIZE q"
  shows "get_li q (2 ^ m) = get_li q 0 \<and> get_si q (2 ^ m) = get_si q 0"
proof -
  have s: "7 \<le> clq_S q" "clq_S q \<le> 70" using SLOT_MAX_INLINE_bounds [OF assms(4)] by auto
  have c: "clq_slot_max q * 64 = of_nat (clq_S q * 64)" by (simp add: clq_slot_max_def)
  have "clq_S q * 64 < 4294967296" using s by linarith
  then have u: "unat (clq_slot_max q * 64) = clq_S q * 64" unfolding c by (rule unat_of_nat_u32)
  have p: "unat (2 ^ m :: u32) = 2 ^ m" using assms(3) by (simp add: unat_pow2_u32)
  have lt: "(2 :: nat) ^ m < 64" using power_strict_increasing [OF assms(3), of "2 :: nat"] by simp
  have "unat ((2 :: u32) ^ m mod 64) = unat ((2 :: u32) ^ m)" unfolding unat_mod p using lt by simp
  then have 1: "(2 :: u32) ^ m mod 64 = 2 ^ m" by (simp only: word_unat_eq_iff)
  have "unat ((2 :: u32) ^ m div (clq_slot_max q * 64)) = 0" unfolding unat_div p u using lt s by simp
  then have 2: "(2 :: u32) ^ m div (clq_slot_max q * 64) = 0" by (simp only: unat_eq_0)
  have "unat ((2 :: u32) ^ m mod (clq_slot_max q * 64)) = unat ((2 :: u32) ^ m)" unfolding unat_mod p u using lt s by simp
  then have 3: "(2 :: u32) ^ m mod (clq_slot_max q * 64) = 2 ^ m" by (simp only: word_unat_eq_iff)
  have "unat ((2 :: u32) ^ m AND mask m) = 0" unfolding unat_and_mask p by simp
  then have 4: "(2 :: u32) ^ m AND mask m = 0" by (simp only: unat_eq_0)
  have "unat ((2 :: u32) ^ m div 64) = 0" unfolding unat_div p using lt by simp
  then have 5: "(2 :: u32) ^ m div 64 = 0" by (simp only: unat_eq_0)
  show ?thesis using assms(1,2) unfolding get_li_def get_si_def by (simp only: if_True 1 2 3 5) (simp add: 4)
qed

text \<open>A requested size above \<open>14 * 2^28\<close> (elements of 4 bytes) makes the doubling loop of the constructor endless.\<close>

lemma clq_grow_endless:
  assumes "3758096384 < maxsz"
  shows "clq_grow n 14 maxsz = Spin"
proof -
  have "push_bit j (14 :: u32) \<le> 3758096384" for j
  proof (cases "j < 32")
    case True
    have "list_all (\<lambda>j. push_bit j (14 :: u32) \<le> 3758096384) [0..<32]" by code_simp
    with True show ?thesis by (simp add: list_all_iff)
  next
    case False
    then have "push_bit j (14 :: u32) = 0" by (intro bit_eqI) (auto simp: bit_push_bit_iff dest: bit_imp_le_length)
    then show ?thesis by (simp only:) simp
  qed
  then have "push_bit j (14 :: u32) < maxsz" for j using assms by (rule le_less_trans)
  then have "clq_grow n (push_bit j 14) maxsz = Spin" for j
    by (induction n arbitrary: j) (simp_all only: clq_grow.simps if_True push_bit_push_bit)
  from this [of 0] show ?thesis by simp
qed

section \<open>The loop of the constructor\<close>

lemma clq_grow_value:
  "clq_grow n s m = (if \<exists>j<n. m \<le> push_bit j s then Ret (push_bit (LEAST j. m \<le> push_bit j s) s) else Spin)"
proof (induction n arbitrary: s)
  case (Suc n)
  show ?case
  proof (cases "m \<le> s")
    case True
    then have "(LEAST j. m \<le> push_bit j s) = 0" by (intro Least_eq_0) simp
    then show ?thesis using True by (auto simp: not_less intro: exI [of _ 0])
  next
    case False
    have sh: "push_bit (Suc j) s = push_bit j (push_bit 1 s)" for j by simp
    have ex: "(\<exists>j<Suc n. m \<le> push_bit j s) \<longleftrightarrow> (\<exists>j<n. m \<le> push_bit j (push_bit 1 s))"
      unfolding sh [symmetric] Ex_less_Suc2 using False by simp
    have least: "(LEAST j. m \<le> push_bit j s) = Suc (LEAST j. m \<le> push_bit j (push_bit 1 s))" if "m \<le> push_bit (Suc i) s" for i
      using Least_Suc [of "\<lambda>j. m \<le> push_bit j s" "Suc i"] that False unfolding sh by simp
    show ?thesis
    proof (cases "\<exists>j<n. m \<le> push_bit j (push_bit 1 s)")
      case True
      then obtain i where i: "m \<le> push_bit (Suc i) s" unfolding sh by blast
      have "push_bit (LEAST j. m \<le> push_bit j s) s = push_bit (LEAST j. m \<le> push_bit j (push_bit 1 s)) (push_bit 1 s)"
        unfolding least [OF i] sh ..
      then show ?thesis using True False ex Suc.IH [of "push_bit 1 s"] by (simp only: clq_grow.simps if_True not_le [symmetric] if_not_P) simp
    next
      case none: False
      then show ?thesis using False ex Suc.IH [of "push_bit 1 s"] by (simp only: clq_grow.simps not_le [symmetric]) simp
    qed
  qed
qed simp

lemma push_bit_32: "32 \<le> j \<Longrightarrow> push_bit j (s :: u32) = 0"
  by (intro bit_eqI) (simp add: bit_push_bit_iff)

text \<open>Property C29: the constructor's loop \<open>while (s < max_size) s <<= 1\<close>, for which the model has fuel, ends exactly when one of the
  first 32 left shifts of its start value reaches \<open>max_size\<close>; 33 rounds of fuel are then enough, and the result is the
  first such shift. Otherwise no amount of fuel gives a result.\<close>

theorem clq_grow_terminates:
  "((\<exists>n r. clq_grow n s m = Ret r) \<longleftrightarrow> m = 0 \<or> (\<exists>j<32. m \<le> push_bit j s)) \<and>
   ((\<exists>n r. clq_grow n s m = Ret r) \<longleftrightarrow> clq_grow 33 s m = Ret (push_bit (LEAST j. m \<le> push_bit j s) s))"
proof -
  have *: "(\<exists>j<n. m \<le> push_bit j s) \<Longrightarrow> m = 0 \<or> (\<exists>j<32. m \<le> push_bit j s)" for n
    using push_bit_32 [of _ s] by (metis not_le word_le_0_iff)
  have **: "m = 0 \<or> (\<exists>j<32. m \<le> push_bit j s) \<Longrightarrow> \<exists>j<33. m \<le> push_bit j s"
  proof (elim disjE exE conjE)
    show "\<exists>j<33. m \<le> push_bit j s" if "m = 0" using that by (intro exI [of _ 0]) simp
    show "\<exists>j<33. m \<le> push_bit j s" if "j < 32" "m \<le> push_bit j s" for j using that by (intro exI [of _ j]) simp
  qed
  have 1: "(\<exists>n r. clq_grow n s m = Ret r) \<longleftrightarrow> (\<exists>n. \<exists>j<n. m \<le> push_bit j s)"
    unfolding clq_grow_value by auto
  have 2: "clq_grow 33 s m = Ret (push_bit (LEAST j. m \<le> push_bit j s) s) \<longleftrightarrow> (\<exists>j<33. m \<le> push_bit j s)"
    unfolding clq_grow_value by auto
  show ?thesis unfolding 1 2 using * ** by blast
qed

text \<open>For elements of 5 bytes a line has 11 slots, and a size between \<open>11 * 2^28\<close> and \<open>3 * 2^30\<close> makes the loop
  end with \<open>3 * 2^30\<close>, after an overflow: not a multiple of 11.\<close>

lemma clq_grow_overflow: "SLOT_MAX_INLINE 5 = 11 \<and> clq_grow 33 11 3000000000 = Ret 3221225472 \<and> \<not> 11 dvd (3221225472 :: nat)"
proof -
  have "clq_grow 33 11 3000000000 = Ret 3221225472" by code_simp
  moreover have "SLOT_MAX_INLINE 5 = 11" by code_simp
  moreover have "\<not> 11 dvd (3221225472 :: nat)" by simp
  ultimately show ?thesis by blast
qed

end
