(* ===== verification/CLQueue_Conc_Races.thy ===== *)
theory CLQueue_Conc_Races
  imports CLQueue_Conc CLQueue_Properties
begin

text \<open>
  Runs of \<open>CLQueue\<close> with two producers or two consumers in which the tests of the lines, which look at counted
  elements only, let a thread through that should have waited.
\<close>

section \<open>Schedules are runs\<close>

fun lq_allowed :: "(cq_end \<Rightarrow> nat) \<Rightarrow> nat \<Rightarrow> 'a clqueue \<Rightarrow> 'a lq_move \<Rightarrow> bool" where
  "lq_allowed solo N q (LqBegin t c) \<longleftrightarrow> t < N \<and> lq_may solo q t c"
| "lq_allowed solo N q (LqGo t) \<longleftrightarrow> t < N"
| "lq_allowed solo N q (LqFail t) \<longleftrightarrow> t < N"

lemma lq_upd_flags [simp]: "clq_flags (lq_q (lq_upd l f s)) = clq_flags (lq_q s)"
  by (simp add: lq_upd_def)

lemma lq_write_flags [simp]: "clq_flags (lq_q (lq_write oh x s)) = clq_flags (lq_q s)"
  by (simp add: lq_write_def clq_construct_def Let_def)

lemma move_out_flags: "clq_move_out l i q = Ret (y, q') \<Longrightarrow> clq_flags q' = clq_flags q"
  by (auto simp: clq_move_out_def clq_destroy_def split: option.splits)

lemma lq_begin_flags: "clq_flags (lq_q (lq_begin t c s)) = clq_flags (lq_q s)"
  by (cases c) (simp_all add: lq_goto_def lq_claim_def)

lemma lq_next_flags: "clq_flags (lq_q (lq_next b t p s)) = clq_flags (lq_q s)"
  by (cases p) (auto simp: lq_goto_def lq_claim_def lq_return_def Let_def dest: move_out_flags split: run.splits)

lemma lq_act_step:
  assumes "lq_act a s = Some s'" "lq_allowed solo N (lq_q s) a"
  shows "lq_step solo N s s' \<and> clq_flags (lq_q s') = clq_flags (lq_q s)"
proof (cases a)
  case (LqBegin t c)
  then have "lq_pc s t = LqIdle" "s' = lq_begin t c s" using assms(1) by (auto split: if_splits)
  then show ?thesis using assms(2) LqBegin lq_begin_flags unfolding lq_step_def lq_thread_def by auto
next
  case (LqGo t)
  then have "lq_pc s t \<noteq> LqIdle" "s' = lq_next False t (lq_pc s t) s" using assms(1) by (auto split: if_splits)
  then show ?thesis using assms(2) LqGo lq_next_flags unfolding lq_step_def lq_thread_def by auto
next
  case (LqFail t)
  then have "lq_pc s t \<noteq> LqIdle" "s' = lq_next True t (lq_pc s t) s" using assms(1) by (auto split: if_splits)
  then show ?thesis using assms(2) LqFail lq_next_flags unfolding lq_step_def lq_thread_def by auto
qed

lemma lq_allowed_flags: "clq_flags q' = clq_flags q \<Longrightarrow> lq_allowed solo N q' a = lq_allowed solo N q a"
  by (cases a) (simp_all add: lq_may_def)

lemma lq_run_steps:
  "lq_run as s = Some s' \<Longrightarrow> \<forall>a\<in>set as. lq_allowed solo N (lq_q s) a \<Longrightarrow> (lq_step solo N)\<^sup>*\<^sup>* s s'"
proof (induction as arbitrary: s)
  case (Cons a as)
  then obtain s1 where s1: "lq_act a s = Some s1" "lq_run as s1 = Some s'" by (auto split: option.splits)
  then have "lq_step solo N s s1" "clq_flags (lq_q s1) = clq_flags (lq_q s)" using lq_act_step [OF s1(1), of solo N] Cons.prems(2) by simp_all
  moreover have "(lq_step solo N)\<^sup>*\<^sup>* s1 s'"
    using Cons.prems(2) lq_allowed_flags [OF calculation(2)] by (intro Cons.IH [OF s1(2)]) simp
  ultimately show ?case by (meson converse_rtranclp_into_rtranclp)
qed simp

section \<open>A line whose counters lag behind\<close>

text \<open>The queue \<open>q\<close>, but the line \<open>l\<close> has not counted the last \<open>a\<close> pushes and \<open>b\<close> pops.\<close>

definition lag :: "u16 \<Rightarrow> u16 \<Rightarrow> u32 \<Rightarrow> 'a clqueue \<Rightarrow> 'a clqueue" where
  "lag a b l q = upd_line l (\<lambda>cl. cl\<lparr>hf2 := hf2 cl - a, tf2 := tf2 cl - b\<rparr>) q"

lemma lag_0 [simp]: "lag 0 0 l q = q"
  by (simp add: lag_def upd_line_def)

lemma lag_fields [simp]:
  "clq_flags (lag a b l q) = clq_flags q" "clq_head (lag a b l q) = clq_head q" "clq_tail (lag a b l q) = clq_tail q"
  "get_li (lag a b l q) n = get_li q n" "get_si (lag a b l q) n = get_si q n" "clq_T_SIZE (lag a b l q) = clq_T_SIZE q"
  "dequeue_overcommit (lag a b l q) = dequeue_overcommit q" "overcommit (lag a b l q) = overcommit q"
  by (simp_all add: lag_def)

lemma lag_lines:
  "hf2 (cls (lag a b l q) k) = (if k = l then hf2 (cls q k) - a else hf2 (cls q k))"
  "tf2 (cls (lag a b l q) k) = (if k = l then tf2 (cls q k) - b else tf2 (cls q k))"
  "hf1 (cls (lag a b l q) k) = hf1 (cls q k)" "tf1 (cls (lag a b l q) k) = tf1 (cls q k)"
  "slots (cls (lag a b l q) k) = slots (cls q k)"
  by (simp_all add: lag_def cls_upd_line)

lemma lag_other: "(a = 0 \<and> b = 0) \<or> k \<noteq> l \<Longrightarrow> hf2 (cls (lag a b l q) k) = hf2 (cls q k) \<and> tf2 (cls (lag a b l q) k) = tf2 (cls q k)"
  by (auto simp: lag_lines)

lemma lag_pushed: "clq_pushed x (lag a b l q) = lag a b l (clq_pushed x q)"
proof (rule clqueue.equality)
  have m: "clq_mp (lag a b l q) = clq_mp q" by (simp add: clq_mp_def)
  show "cls (clq_pushed x (lag a b l q)) = cls (lag a b l (clq_pushed x q))"
  proof (rule ext)
    show "cls (clq_pushed x (lag a b l q)) k = cls (lag a b l (clq_pushed x q)) k" for k
      by (rule cache_line.equality) (simp_all add: clq_pushed_lines lag_lines m)
  qed
qed (simp_all add: clq_pushed_fields lag_def)

lemma lag_popped: "clq_popped (lag a b l q) = lag a b l (clq_popped q)"
proof (rule clqueue.equality)
  have m: "clq_mc (lag a b l q) = clq_mc q" by (simp add: clq_mc_def)
  show "cls (clq_popped (lag a b l q)) = cls (lag a b l (clq_popped q))"
  proof (rule ext)
    show "cls (clq_popped (lag a b l q)) k = cls (lag a b l (clq_popped q)) k" for k
      by (rule cache_line.equality) (simp_all add: clq_popped_lines lag_lines m)
  qed
qed (simp_all add: clq_popped_fields lag_def)

section \<open>A push and a pop by one thread\<close>

definition push_moves :: "'a clqueue \<Rightarrow> nat" where
  "push_moves q = (if clq_mp q then 6 else 3)"

definition push_schedule :: "'a clqueue \<Rightarrow> nat \<Rightarrow> 'a \<Rightarrow> 'a lq_move list" where
  "push_schedule q u x = LqBegin u (LqPush x) # replicate (push_moves q) (LqGo u)"

definition slot_content :: "'a option \<Rightarrow> 'a list" where
  "slot_content v = (case v of None \<Rightarrow> [] | Some y \<Rightarrow> [y])"

text \<open>A push up to the last increment.\<close>

lemma lag_count: "lag 1 0 l (upd_line l (\<lambda>cl. cl\<lparr>hf2 := hf2 cl + 1\<rparr>) q) = q" "lag 0 1 l (upd_line l (\<lambda>cl. cl\<lparr>tf2 := tf2 cl + 1\<rparr>) q) = q"
  by (simp_all add: lag_def upd_line_def fun_upd_idem)

lemma pushed_stalled:
  assumes li: "get_li q (clq_head q) = li"
  shows "\<not> clq_mp q \<Longrightarrow> clq_construct li (get_si q (clq_head q)) x (q\<lparr>clq_head := clq_head q + 1\<rparr>) = lag 1 0 li (clq_pushed x q)"
    and "clq_mp q \<Longrightarrow> upd_line (get_li q (clq_head q + 1)) (\<lambda>cl. cl\<lparr>hf1 := hf1 cl + 1\<rparr>)
      (clq_construct li (get_si q (clq_head q)) x (q\<lparr>clq_head := clq_head q + 1\<rparr>)) = lag 1 0 li (clq_pushed x q)"
  using li by (simp_all add: clq_pushed_def Let_def lag_count)

lemma run_push_stalled:
  fixes s :: "'a lq_state"
  assumes q: "lq_q s = q" and li: "get_li q (clq_head q) = li"
    and pc: "lq_pc s u = LqIdle" and nf: "\<not> line_full q li" and turn: "clq_mp q \<Longrightarrow> hf1 (cls q li) = hf2 (cls q li)"
  shows "lq_run (push_schedule q u x) s = Some (s\<lparr>lq_q := lag 1 0 li (clq_pushed x q),
      lq_pc := (lq_pc s)(u := LqCount (LqPush x) x (clq_head q)), lq_in := lq_in s @ [x],
      lq_lost := lq_lost s @ slot_content (slots (cls q li) (get_si q (clq_head q)))\<rparr>)"
proof (cases "clq_mp q")
  case False
  then show ?thesis
    using pc nf li pushed_stalled(1) [OF li False, of x] q
    by (simp add: push_schedule_def push_moves_def numeral_3_eq_3 lq_goto_def lq_claim_def lq_write_def Let_def slot_content_def clq_mp_def)
next
  case True
  have six: "replicate 6 (LqGo u) = [LqGo u, LqGo u, LqGo u, LqGo u, LqGo u, LqGo u :: 'a lq_move]" by (simp add: numeral_eq_Suc)
  have c: "hf1 (cls (clq_construct li i x (q\<lparr>clq_head := v\<rparr>)) k) = hf1 (cls q k)" "hf2 (cls (clq_construct li i x (q\<lparr>clq_head := v\<rparr>)) k) = hf2 (cls q k)" for i v k
    by (simp_all add: clq_construct_def cls_upd_line)
  have l: "get_li (clq_construct li i x (q\<lparr>clq_head := v\<rparr>)) n = get_li q n" for i v n by (simp add: clq_construct_def)
  have w: "upd_line k (\<lambda>cl. cl\<lparr>hf1 := hf1 (cls q k) + 1\<rparr>) (clq_construct li i x (q\<lparr>clq_head := v\<rparr>)) =
      upd_line k (\<lambda>cl. cl\<lparr>hf1 := hf1 cl + 1\<rparr>) (clq_construct li i x (q\<lparr>clq_head := v\<rparr>))" for k i v
    by (simp add: upd_line_def clq_construct_def)
  show ?thesis
    using pc nf li turn [OF True] True pushed_stalled(2) [OF li True, of x] q
    by (simp add: push_schedule_def push_moves_def six lq_goto_def lq_claim_def lq_write_def lq_upd_def Let_def slot_content_def clq_mp_def c l w)
qed

lemma lag_recount: "upd_line l (\<lambda>cl. cl\<lparr>hf2 := hf2 (cls (lag 1 0 l q) l) + 1\<rparr>) (lag 1 0 l q) = q"
    "upd_line l (\<lambda>cl. cl\<lparr>tf2 := tf2 (cls (lag 0 1 l q) l) + 1\<rparr>) (lag 0 1 l q) = q"
  by (simp_all add: lag_def upd_line_def fun_upd_idem)

lemma lq_run_append: "lq_run (as @ bs) s = (case lq_run as s of None \<Rightarrow> None | Some s \<Rightarrow> lq_run bs s)"
  by (induction as arbitrary: s) (simp_all split: option.splits)

lemma run_push:
  fixes s :: "'a lq_state"
  assumes q: "lq_q s = q" and li: "get_li q (clq_head q) = li"
    and pc: "lq_pc s u = LqIdle" and nf: "\<not> line_full q li" and turn: "clq_mp q \<Longrightarrow> hf1 (cls q li) = hf2 (cls q li)"
  shows "lq_run (push_schedule q u x @ [LqGo u, LqGo u]) s = Some (s\<lparr>lq_q := clq_pushed x q, lq_in := lq_in s @ [x],
      lq_log := lq_log s @ [(u, LqPush x, LqTrue [x])], lq_lost := lq_lost s @ slot_content (slots (cls q li) (get_si q (clq_head q)))\<rparr>)"
proof -
  have "get_li (clq_pushed x q) (clq_head q) = li" using li by (simp add: clq_layout_cong [of "clq_pushed x q" q] clq_pushed_fields)
  then show ?thesis
    using run_push_stalled [OF assms, of x] lag_recount(1) [of li "clq_pushed x q"] fun_upd_idem [of "lq_pc s" u LqIdle, OF pc]
    by (simp add: lq_run_append lq_goto_def lq_return_def lq_upd_def)
qed

definition pop_schedule :: "'a clqueue \<Rightarrow> nat \<Rightarrow> 'a lq_move list" where
  "pop_schedule q u = LqBegin u LqPop # replicate (if clq_mc q then 8 else 5) (LqGo u)"

lemma popped_stalled:
  assumes li: "get_li q (clq_tail q) = li" and sc: "\<not> lq_sc q"
  defines "q1 \<equiv> upd_line li (\<lambda>cl. cl\<lparr>slots := (slots cl)(get_si q (clq_tail q) := None)\<rparr>)
      (q\<lparr>dequeue_overcommit := dequeue_overcommit q + 1, clq_tail := clq_tail q + 1\<rparr>)"
  shows "\<not> clq_mc q \<Longrightarrow> q1 = lag 0 1 li (clq_popped q)"
    and "clq_mc q \<Longrightarrow> upd_line (get_li q (clq_tail q + 1)) (\<lambda>cl. cl\<lparr>tf1 := tf1 cl + 1\<rparr>) q1 = lag 0 1 li (clq_popped q)"
  using li sc by (simp_all add: q1_def clq_popped_def Let_def lag_count)

text \<open>A pop (of a queue for several consumers) up to the last increment.\<close>

lemma run_pop_stalled:
  fixes s :: "'a lq_state"
  assumes q: "lq_q s = q" and li: "get_li q (clq_tail q) = li" and sc: "\<not> lq_sc q"
    and pc: "lq_pc s u = LqIdle" and d: "dequeue_overcommit q - overcommit q = clq_tail q"
    and ne: "hf2 (cls q li) \<noteq> tf2 (cls q li)" and y: "slots (cls q li) (get_si q (clq_tail q)) = Some y"
    and turn: "clq_mc q \<Longrightarrow> tf1 (cls q li) = tf2 (cls q li)"
  shows "lq_run (pop_schedule q u) s = Some (s\<lparr>lq_q := lag 0 1 li (clq_popped q), lq_pc := (lq_pc s)(u := LqDrop y (clq_tail q))\<rparr>)"
proof (cases "clq_mc q")
  case False
  have five: "replicate 5 (LqGo u) = [LqGo u, LqGo u, LqGo u, LqGo u, LqGo u :: 'a lq_move]" by (simp add: numeral_eq_Suc)
  show ?thesis
    using False pc ne li y d sc popped_stalled(1) [OF li sc False] q
    by (simp add: pop_schedule_def five lq_goto_def line_empty_def clq_move_out_def clq_destroy_def clq_mc_def)
next
  case True
  have eight: "replicate 8 (LqGo u) = [LqGo u, LqGo u, LqGo u, LqGo u, LqGo u, LqGo u, LqGo u, LqGo u :: 'a lq_move]" by (simp add: numeral_eq_Suc)
  let ?q1 = "upd_line li (\<lambda>cl. cl\<lparr>slots := (slots cl)(get_si q (clq_tail q) := None)\<rparr>)
      (q\<lparr>dequeue_overcommit := dequeue_overcommit q + 1, clq_tail := clq_tail q + 1\<rparr>)"
  have c: "tf1 (cls ?q1 k) = tf1 (cls q k)" "tf2 (cls ?q1 k) = tf2 (cls q k)" "get_li ?q1 n = get_li q n" for k n
    by (simp_all add: cls_upd_line)
  have w: "upd_line k (\<lambda>cl. cl\<lparr>tf1 := tf1 (cls q k) + 1\<rparr>) ?q1 = upd_line k (\<lambda>cl. cl\<lparr>tf1 := tf1 cl + 1\<rparr>) ?q1" for k
    by (simp add: upd_line_def)
  show ?thesis
    using pc ne li y d sc turn [OF True] True popped_stalled(2) [OF li sc True] q
    by (simp add: pop_schedule_def eight lq_goto_def lq_upd_def line_empty_def clq_move_out_def clq_destroy_def Let_def clq_mc_def c w)
qed

lemma run_pop:
  fixes s :: "'a lq_state"
  assumes q: "lq_q s = q" and li: "get_li q (clq_tail q) = li" and sc: "\<not> lq_sc q"
    and pc: "lq_pc s u = LqIdle" and d: "dequeue_overcommit q - overcommit q = clq_tail q"
    and ne: "hf2 (cls q li) \<noteq> tf2 (cls q li)" and y: "slots (cls q li) (get_si q (clq_tail q)) = Some y"
    and turn: "clq_mc q \<Longrightarrow> tf1 (cls q li) = tf2 (cls q li)"
  shows "lq_run (pop_schedule q u @ [LqGo u, LqGo u]) s = Some (s\<lparr>lq_q := clq_popped q, lq_log := lq_log s @ [(u, LqPop, LqTrue [y])]\<rparr>)"
proof -
  have "get_li (clq_popped q) (clq_tail q) = li" using li by (simp add: clq_layout_cong [of "clq_popped q" q] clq_popped_fields)
  then show ?thesis
    using run_pop_stalled [OF assms] lag_recount(2) [of li "clq_popped q"] fun_upd_idem [of "lq_pc s" u LqIdle, OF pc]
    by (simp add: lq_run_append lq_goto_def lq_return_def lq_upd_def)
qed

section \<open>Many pushes and pops\<close>

definition lq_fresh :: "nat \<Rightarrow> 'a clqueue \<Rightarrow> nat \<Rightarrow> bool" where
  "lq_fresh m q h \<longleftrightarrow> (\<forall>i. h \<le> i \<and> i < clq_S q * 2 ^ m \<and> i < 2 ^ 32 \<longrightarrow> slots (cls q (get_li q (of_nat i))) (get_si q (of_nat i)) = None)"

lemma layout_pushed [simp]: "get_li (clq_pushed x q) n = get_li q n" "get_si (clq_pushed x q) n = get_si q n"
  by (rule clq_layout_cong; simp add: clq_pushed_fields)+

lemma layout_popped [simp]: "get_li (clq_popped q) n = get_li q n" "get_si (clq_popped q) n = get_si q n"
  by (rule clq_layout_cong; simp add: clq_popped_fields)+

lemma fresh_pushed:
  assumes "clq_shape q m" "lq_fresh m q h" "clq_head q = of_nat h"
  shows "lq_fresh m (clq_pushed x q) (Suc h)"
  unfolding lq_fresh_def
proof (intro allI impI)
  fix i assume i: "Suc h \<le> i \<and> i < clq_S (clq_pushed x q) * 2 ^ m \<and> i < 2 ^ 32"
  then have "get_li q (of_nat h) \<noteq> get_li q (of_nat i) \<or> get_si q (of_nat h) \<noteq> get_si q (of_nat i)"
    using clq_places_differ [OF assms(1), of h i] by (simp add: clq_pushed_fields)
  moreover have "slots (cls q (get_li q (of_nat i))) (get_si q (of_nat i)) = None"
    using assms(2) i unfolding lq_fresh_def by (simp add: clq_pushed_fields)
  ultimately show "slots (cls (clq_pushed x q) (get_li (clq_pushed x q) (of_nat i))) (get_si (clq_pushed x q) (of_nat i)) = None"
    using assms(3) by (auto simp: clq_pushed_lines)
qed

lemma fresh_popped: "lq_fresh m q h \<Longrightarrow> lq_fresh m (clq_popped q) h"
  unfolding lq_fresh_def by (auto simp: clq_popped_lines clq_popped_fields)

lemma line_full_lag: "a = 0 \<and> b = 0 \<or> k \<noteq> l \<Longrightarrow> line_full (lag a b l q) k = line_full q k"
  using lag_other [of a b k l q] by (simp add: line_full_def)

lemma solo_push:
  fixes s :: "'a lq_state"
  assumes s: "lq_q s = lag a b l q" "lq_pc s u = LqIdle" "u < N" "lq_may solo q u (LqPush x)"
    and r: "clq_rel m t d q xs" and f: "lq_fresh m q (t + length xs)" and b: "t + length xs < clq_S q * 2 ^ m" "Suc (t + length xs) \<le> 65534 * 2 ^ m"
      "Suc (t + length xs) < 2 ^ 32"
    and o: "a = 0 \<and> b = 0 \<or> get_li q (of_nat (t + length xs)) \<noteq> l"
  shows "\<exists>s'. (lq_step solo N)\<^sup>*\<^sup>* s s' \<and> lq_q s' = lag a b l (clq_pushed x q) \<and> lq_pc s' = lq_pc s \<and> lq_in s' = lq_in s @ [x] \<and>
      lq_lost s' = lq_lost s \<and> lq_log s' = lq_log s @ [(u, LqPush x, LqTrue [x])]"
proof -
  note R = clq_relD [OF r]
  let ?q = "lag a b l q" and ?li = "get_li q (clq_head q)"
  have o': "a = 0 \<and> b = 0 \<or> ?li \<noteq> l" using o R(5) by simp
  have nf: "\<not> line_full ?q ?li" using line_full_lag [OF o', of q] line_full_rel [OF r] b by simp
  have mp: "clq_mp ?q = clq_mp q" by (simp add: clq_mp_def)
  have turn: "clq_mp ?q \<Longrightarrow> hf1 (cls ?q ?li) = hf2 (cls ?q ?li)"
    using clq_turn(1) [OF r] lag_other [OF o', of q] by (simp add: mp lag_lines(3))
  have "slots (cls ?q ?li) (get_si ?q (clq_head ?q)) = None"
    using f [unfolded lq_fresh_def, rule_format, of "t + length xs"] b by (simp add: lag_lines R(5))
  then have "lq_run (push_schedule ?q u x @ [LqGo u, LqGo u]) s = Some (s\<lparr>lq_q := clq_pushed x ?q, lq_in := lq_in s @ [x],
      lq_log := lq_log s @ [(u, LqPush x, LqTrue [x])], lq_lost := lq_lost s @ []\<rparr>)"
    using run_push [OF s(1) _ s(2) nf turn, of x] by (simp add: slot_content_def)
  from lq_run_steps [OF this, of solo N]
  have "(lq_step solo N)\<^sup>*\<^sup>* s (s\<lparr>lq_q := clq_pushed x ?q, lq_in := lq_in s @ [x],
      lq_log := lq_log s @ [(u, LqPush x, LqTrue [x])], lq_lost := lq_lost s @ []\<rparr>)"
    using s by (auto simp: push_schedule_def lq_may_def)
  then show ?thesis by (intro exI conjI) (assumption, simp_all add: lag_pushed)
qed

text \<open>Pushes that do not meet the lagging line.\<close>

lemma solo_pushes:
  fixes s :: "'a lq_state"
  assumes "lq_q s = lag a b l q" "lq_pc s u = LqIdle" "u < N" "\<forall>x. lq_may solo q u (LqPush x)"
    and "clq_rel m t d q xs" "lq_fresh m q (t + length xs)" "t + length xs + length ys \<le> clq_S q * 2 ^ m"
      "t + length xs + length ys \<le> 65534 * 2 ^ m" "t + length xs + length ys < 2 ^ 32"
    and "a = 0 \<and> b = 0 \<or> (\<forall>i<length ys. get_li q (of_nat (t + length xs + i)) \<noteq> l)"
  shows "\<exists>s' q'. (lq_step solo N)\<^sup>*\<^sup>* s s' \<and> lq_q s' = lag a b l q' \<and> clq_rel m t d q' (xs @ ys) \<and> lq_fresh m q' (t + length xs + length ys) \<and>
      clq_flags q' = clq_flags q \<and> clq_max_size q' = clq_max_size q \<and> clq_T_SIZE q' = clq_T_SIZE q \<and>
      dequeue_overcommit q' = dequeue_overcommit q \<and> overcommit q' = overcommit q \<and>
      lq_pc s' = lq_pc s \<and> lq_in s' = lq_in s @ ys \<and> lq_lost s' = lq_lost s \<and>
      lq_log s' = lq_log s @ map (\<lambda>y. (u, LqPush y, LqTrue [y])) ys"
  using assms
proof (induction ys arbitrary: s q xs)
  case Nil
  then show ?case by (intro exI [of _ s] exI [of _ q]) simp
next
  case (Cons y ys)
  note R = clq_relD [OF Cons.prems(5)]
  have room: "length xs < clq_S q * 2 ^ m" using Cons.prems(7) by simp
  have o: "a = 0 \<and> b = 0 \<or> get_li q (of_nat (t + length xs)) \<noteq> l" using Cons.prems(10) by force
  obtain s1 where s1: "(lq_step solo N)\<^sup>*\<^sup>* s s1" "lq_q s1 = lag a b l (clq_pushed y q)" "lq_pc s1 = lq_pc s" "lq_in s1 = lq_in s @ [y]"
      "lq_lost s1 = lq_lost s" "lq_log s1 = lq_log s @ [(u, LqPush y, LqTrue [y])]"
    using solo_push [OF Cons.prems(1-3) _ Cons.prems(5,6) _ _ _ o, of solo y] Cons.prems(4,7,8,9) by auto
  let ?q = "clq_pushed y q"
  have r1: "clq_rel m t d ?q (xs @ [y])" using Cons.prems(8,9) by (intro clq_push_rel [OF Cons.prems(5) room]) simp_all
  have "lq_fresh m ?q (Suc (t + length xs))" by (rule fresh_pushed [OF R(1) Cons.prems(6) R(5)])
  then have f1: "lq_fresh m ?q (t + length (xs @ [y]))" by simp
  have ok: "\<forall>x. lq_may solo ?q u (LqPush x)" using Cons.prems(4) by (simp add: lq_may_def clq_pushed_fields)
  have o1: "a = 0 \<and> b = 0 \<or> (\<forall>i<length ys. get_li ?q (of_nat (t + length (xs @ [y]) + i)) \<noteq> l)"
  proof (cases "a = 0 \<and> b = 0")
    case False
    have "get_li ?q (of_nat (t + length (xs @ [y]) + i)) \<noteq> l" if "i < length ys" for i
    proof -
      have "get_li q (of_nat (t + length xs + Suc i)) \<noteq> l" using Cons.prems(10) False that by (metis Suc_less_eq length_Cons)
      then show ?thesis by (simp add: algebra_simps)
    qed
    then show ?thesis by blast
  qed simp
  obtain s2 q2 where s2: "(lq_step solo N)\<^sup>*\<^sup>* s1 s2" "lq_q s2 = lag a b l q2" "clq_rel m t d q2 ((xs @ [y]) @ ys)"
      "lq_fresh m q2 (t + length (xs @ [y]) + length ys)" "clq_flags q2 = clq_flags ?q" "clq_max_size q2 = clq_max_size ?q" "clq_T_SIZE q2 = clq_T_SIZE ?q"
      "dequeue_overcommit q2 = dequeue_overcommit ?q" "overcommit q2 = overcommit ?q"
      "lq_pc s2 = lq_pc s1" "lq_in s2 = lq_in s1 @ ys" "lq_lost s2 = lq_lost s1" "lq_log s2 = lq_log s1 @ map (\<lambda>y. (u, LqPush y, LqTrue [y])) ys"
    using Cons.IH [OF s1(2) _ Cons.prems(3) ok r1 f1 _ _ _ o1] Cons.prems(2,7,8,9) s1(3) by (auto simp: clq_pushed_fields)
  have "(lq_step solo N)\<^sup>*\<^sup>* s s2" using s1(1) s2(1) by (rule rtranclp_trans)
  then show ?case using s1(3-6) s2(2-13) by (intro exI [of _ s2] exI [of _ q2]) (simp add: clq_pushed_fields)
qed

lemma solo_pop:
  fixes s :: "'a lq_state"
  assumes s: "lq_q s = lag a b l q" "lq_pc s u = LqIdle" "u < N" and sc: "\<not> lq_sc q"
    and r: "clq_rel m t t q (x # xs)" and o: "a = 0 \<and> b = 0 \<or> get_li q (of_nat t) \<noteq> l"
  shows "\<exists>s'. (lq_step solo N)\<^sup>*\<^sup>* s s' \<and> lq_q s' = lag a b l (clq_popped q) \<and> lq_pc s' = lq_pc s \<and> lq_in s' = lq_in s \<and>
      lq_lost s' = lq_lost s \<and> lq_log s' = lq_log s @ [(u, LqPop, LqTrue [x])]"
proof -
  note R = clq_relD [OF r]
  let ?q = "lag a b l q" and ?li = "get_li q (clq_tail q)"
  have o': "a = 0 \<and> b = 0 \<or> ?li \<noteq> l" using o R(6) by simp
  have ne: "hf2 (cls ?q ?li) \<noteq> tf2 (cls ?q ?li)"
    using lag_other [OF o', of q] line_empty_rel [OF r] R(6) by (simp add: line_empty_def)
  have mc: "clq_mc ?q = clq_mc q" by (simp add: clq_mc_def)
  have turn: "clq_mc ?q \<Longrightarrow> tf1 (cls ?q ?li) = tf2 (cls ?q ?li)"
    using clq_turn(2) [OF r] lag_other [OF o', of q] by (simp add: mc lag_lines(4))
  have y: "slots (cls ?q ?li) (get_si ?q (clq_tail ?q)) = Some x" using R(9) [of 0] R(6) by (simp add: lag_lines)
  have d: "dequeue_overcommit ?q - overcommit ?q = clq_tail ?q" using R(6,7) sc by simp
  have "lq_run (pop_schedule ?q u @ [LqGo u, LqGo u]) s = Some (s\<lparr>lq_q := clq_popped ?q, lq_log := lq_log s @ [(u, LqPop, LqTrue [x])]\<rparr>)"
    using run_pop [OF s(1) _ _ s(2) d ne y turn] sc by simp
  from lq_run_steps [OF this, of solo N]
  have "(lq_step solo N)\<^sup>*\<^sup>* s (s\<lparr>lq_q := clq_popped ?q, lq_log := lq_log s @ [(u, LqPop, LqTrue [x])]\<rparr>)"
    using s sc by (auto simp: pop_schedule_def lq_may_def)
  then show ?thesis by (intro exI conjI) (assumption, simp_all add: lag_popped)
qed

lemma solo_pops:
  fixes s :: "'a lq_state"
  assumes "lq_q s = lag a b l q" "lq_pc s u = LqIdle" "u < N" "\<not> lq_sc q" "clq_rel m t t q (ys @ xs)"
    and "a = 0 \<and> b = 0 \<or> (\<forall>i<length ys. get_li q (of_nat (t + i)) \<noteq> l)" "lq_fresh m q h"
  shows "\<exists>s' q'. (lq_step solo N)\<^sup>*\<^sup>* s s' \<and> lq_q s' = lag a b l q' \<and> clq_rel m (t + length ys) (t + length ys) q' xs \<and> lq_fresh m q' h \<and>
      clq_flags q' = clq_flags q \<and> clq_T_SIZE q' = clq_T_SIZE q \<and> lq_pc s' = lq_pc s \<and> lq_in s' = lq_in s \<and>
      lq_log s' = lq_log s @ map (\<lambda>y. (u, LqPop, LqTrue [y])) ys"
  using assms
proof (induction ys arbitrary: s q t)
  case Nil
  then show ?case by (intro exI [of _ s] exI [of _ q]) simp
next
  case (Cons y ys)
  have o: "a = 0 \<and> b = 0 \<or> get_li q (of_nat t) \<noteq> l" using Cons.prems(6) by force
  have r: "clq_rel m t t q (y # (ys @ xs))" using Cons.prems(5) by simp
  obtain s1 where s1: "(lq_step solo N)\<^sup>*\<^sup>* s s1" "lq_q s1 = lag a b l (clq_popped q)" "lq_pc s1 = lq_pc s" "lq_in s1 = lq_in s"
      "lq_log s1 = lq_log s @ [(u, LqPop, LqTrue [y])]"
    using solo_pop [OF Cons.prems(1-4) r o, of solo] by blast
  let ?q = "clq_popped q"
  have r1: "clq_rel m (Suc t) (Suc t) ?q (ys @ xs)" by (rule clq_pop_rel [OF r])
  have o1: "a = 0 \<and> b = 0 \<or> (\<forall>i<length ys. get_li ?q (of_nat (Suc t + i)) \<noteq> l)"
  proof (cases "a = 0 \<and> b = 0")
    case False
    have "get_li ?q (of_nat (Suc t + i)) \<noteq> l" if "i < length ys" for i
    proof -
      have "get_li q (of_nat (t + Suc i)) \<noteq> l" using Cons.prems(6) False that by (metis Suc_less_eq length_Cons)
      then show ?thesis by (simp add: algebra_simps)
    qed
    then show ?thesis by blast
  qed simp
  obtain s2 q2 where s2: "(lq_step solo N)\<^sup>*\<^sup>* s1 s2" "lq_q s2 = lag a b l q2" "clq_rel m (Suc t + length ys) (Suc t + length ys) q2 xs" "lq_fresh m q2 h"
      "clq_flags q2 = clq_flags ?q" "clq_T_SIZE q2 = clq_T_SIZE ?q" "lq_pc s2 = lq_pc s1" "lq_in s2 = lq_in s1"
      "lq_log s2 = lq_log s1 @ map (\<lambda>y. (u, LqPop, LqTrue [y])) ys"
    using Cons.IH [OF s1(2) _ Cons.prems(3) _ r1 o1 fresh_popped [OF Cons.prems(7)]] Cons.prems(2,4) s1(3) by (auto simp: clq_popped_fields)
  have "(lq_step solo N)\<^sup>*\<^sup>* s s2" using s1(1) s2(1) by (rule rtranclp_trans)
  then show ?case using s1(3-5) s2(2-9) by (intro exI [of _ s2] exI [of _ q2]) (simp add: clq_popped_fields)
qed

text \<open>A push up to placement new, and a pop up to the move out of its slot.\<close>

lemma run_push_write:
  fixes s :: "'a lq_state"
  assumes q: "lq_q s = q" and li: "get_li q (clq_head q) = li" and pc: "lq_pc s u = LqIdle" and nf: "\<not> line_full q li"
  shows "\<exists>s'. lq_run (LqBegin u (LqPush x) # replicate 3 (LqGo u)) s = Some s' \<and> lq_in s' = lq_in s @ [x] \<and> lq_log s' = lq_log s \<and>
    lq_lost s' = lq_lost s @ slot_content (slots (cls q li) (get_si q (clq_head q)))"
  using assms by (simp add: numeral_3_eq_3 lq_goto_def lq_claim_def lq_write_def Let_def slot_content_def)

lemma run_pop_read:
  fixes s :: "'a lq_state"
  assumes q: "lq_q s = q" and li: "get_li q (clq_tail q) = li" and sc: "\<not> lq_sc q"
    and pc: "lq_pc s u = LqIdle" and d: "dequeue_overcommit q - overcommit q = clq_tail q"
    and ne: "hf2 (cls q li) \<noteq> tf2 (cls q li)" and y: "slots (cls q li) (get_si q (clq_tail q)) = None"
  shows "\<exists>s'. lq_run (LqBegin u LqPop # replicate 5 (LqGo u)) s = Some s' \<and> lq_in s' = lq_in s \<and> lq_log s' = lq_log s \<and> lq_ub s'"
proof -
  have five: "replicate 5 (LqGo u) = [LqGo u, LqGo u, LqGo u, LqGo u, LqGo u :: 'a lq_move]" by (simp add: numeral_eq_Suc)
  show ?thesis using assms by (simp add: five lq_goto_def line_empty_def clq_move_out_def)
qed

text \<open>The same with the last step left out: the line lags behind.\<close>

lemma solo_push_stalled:
  fixes s :: "'a lq_state"
  assumes s: "lq_q s = q" "lq_pc s u = LqIdle" "u < N" "lq_may solo q u (LqPush x)"
    and r: "clq_rel m t d q xs" and f: "lq_fresh m q (t + length xs)" and b: "t + length xs < clq_S q * 2 ^ m" "Suc (t + length xs) \<le> 65534 * 2 ^ m"
      "Suc (t + length xs) < 2 ^ 32"
  shows "\<exists>s'. (lq_step solo N)\<^sup>*\<^sup>* s s' \<and> lq_q s' = lag 1 0 (get_li q (clq_head q)) (clq_pushed x q) \<and>
      lq_pc s' = (lq_pc s)(u := LqCount (LqPush x) x (clq_head q)) \<and> lq_in s' = lq_in s @ [x] \<and> lq_lost s' = lq_lost s \<and> lq_log s' = lq_log s"
proof -
  note R = clq_relD [OF r]
  let ?li = "get_li q (clq_head q)"
  have nf: "\<not> line_full q ?li" using line_full_rel [OF r] b by simp
  have e: "slots (cls q ?li) (get_si q (clq_head q)) = None"
    using f [unfolded lq_fresh_def, rule_format, of "t + length xs"] b by (simp add: R(5))
  note run = run_push_stalled [OF s(1) refl s(2) nf clq_turn(1) [OF r], of x]
  show ?thesis
    by (rule exI, rule conjI, rule lq_run_steps [OF run])
      (use s in \<open>auto simp: push_schedule_def lq_may_def e slot_content_def\<close>)
qed

lemma solo_pop_stalled:
  fixes s :: "'a lq_state"
  assumes s: "lq_q s = q" "lq_pc s u = LqIdle" "u < N" and sc: "\<not> lq_sc q" and r: "clq_rel m t t q (x # xs)"
  shows "\<exists>s'. (lq_step solo N)\<^sup>*\<^sup>* s s' \<and> lq_q s' = lag 0 1 (get_li q (clq_tail q)) (clq_popped q) \<and>
      lq_pc s' = (lq_pc s)(u := LqDrop x (clq_tail q)) \<and> lq_in s' = lq_in s \<and> lq_lost s' = lq_lost s \<and> lq_log s' = lq_log s"
proof -
  note R = clq_relD [OF r]
  let ?li = "get_li q (clq_tail q)"
  have ne: "hf2 (cls q ?li) \<noteq> tf2 (cls q ?li)" using line_empty_rel [OF r] R(6) by (simp add: line_empty_def)
  have y: "slots (cls q ?li) (get_si q (clq_tail q)) = Some x" using R(9) [of 0] R(6) by simp
  have d: "dequeue_overcommit q - overcommit q = clq_tail q" using R(6,7) sc by simp
  note run = run_pop_stalled [OF s(1) refl sc s(2) d ne y clq_turn(2) [OF r]]
  show ?thesis
    by (rule exI, rule conjI, rule lq_run_steps [OF run]) (use s sc in \<open>auto simp: pop_schedule_def lq_may_def\<close>)
qed

end
