(* ===== verification/CLQueue_Conc_Properties.thy ===== *)
theory CLQueue_Conc_Properties
  imports CLQueue_Conc_Linear CLQueue_Conc_Races
begin

text \<open>
  \<open>CLQueue\<close> used by several threads: correct with a single producer and a single consumer, and wrong in every other
  mode, whatever its size.
\<close>

section \<open>The constructed queue\<close>

lemma clq_ctor_slots:
  assumes "clq_ctor T False h h raw maxsz fl = Ret q"
  shows "slots (cls q l) i = None"
proof -
  have "slots (cls (clq_reset q0) l) i = slots (cls q0 l) i" for q0 :: "'a clqueue"
    by (simp add: clq_reset_def cls_upd_line Let_def)
  then show ?thesis
    using assms by (auto simp: clq_ctor_def clq_clear_def Let_def run_bind_Ret_iff split: if_splits)
qed

lemma clq_default_SP: "has_flag (clq_default_flags fl) F_SP_ENQ = has_flag fl F_SP_ENQ"
proof -
  have "\<not> has_flag F_MP_ENQ F_SP_ENQ" "\<not> has_flag F_MC_DEQ F_SP_ENQ" by (simp_all add: has_flag_def conq_flag_defs)
  then show ?thesis by (simp add: clq_default_flags_def has_flag_fl_or Let_def)
qed

lemma clq_ctor_start:
  assumes q: "clq_ctor T False h h raw maxsz fl = Ret q" and "1 \<le> T" "1 \<le> unat maxsz" "unat maxsz \<le> 2 ^ 31" "clq_flags_ok fl"
  obtains m where "clq_rel m 0 0 q []" "clq_flags q = clq_default_flags fl" "m \<le> 29" "unat (max_line q) = 2 ^ m"
    "unat (clq_capacity q) = clq_S q * 2 ^ m" "clq_S q * 2 ^ m < 2 ^ 32" "7 \<le> clq_S q" "clq_S q \<le> 70" "lq_fresh m q 0"
    "dequeue_overcommit q - overcommit q = 0"
proof -
  obtain m where m: "clq_rel m 0 0 q []" "clq_flags q = clq_default_flags fl" "max_line q = 2 ^ m" "m \<le> 29"
    "dequeue_overcommit q = 0" "overcommit q = 0"
    using clq_ctor_rel [OF assms(2-5), of h raw] q by auto
  have sh: "clq_shape q m" using clq_relD(1) [OF m(1)] .
  show ?thesis
  proof (rule that [OF m(1,2,4)])
    show "unat (max_line q) = 2 ^ m" using m(3,4) by (simp add: unat_pow2_u32)
    show "unat (clq_capacity q) = clq_S q * 2 ^ m" using clq_rel_cap [OF m(1)] by (simp add: clq_cap_def clq_capacity_def)
    show "clq_S q * 2 ^ m < 2 ^ 32" using sh by (simp add: clq_shape_def)
    show "7 \<le> clq_S q" "clq_S q \<le> 70" using clq_S_bounds [OF sh] by simp_all
    show "lq_fresh m q 0" by (simp add: lq_fresh_def clq_ctor_slots [OF q])
    show "dequeue_overcommit q - overcommit q = 0" using m(5,6) by simp
  qed
qed

section \<open>Single producer and single consumer\<close>

lemma lq_inv_start:
  assumes "clq_rel m 0 0 q []" "lq_sp q" "lq_sc q" "\<And>l i. slots (cls q l) i = None"
  shows "lq_inv solo N m (lq_start q)" "lq_abs solo (lq_start q) = at_init"
proof -
  note R = clq_relD [OF assms(1)]
  have "lq_core m q [] 0 0 0 0 0"
    using R(1,5,6,8) assms(2-4) by (simp add: lq_core_def lq_cells_def)
  then show "lq_inv solo N m (lq_start q)"
    using R(6) by (simp add: lq_inv_def lq_start_def lq_marks)
  show "lq_abs solo (lq_start q) = at_init"
    by (simp add: lq_abs_def lq_start_def at_init_def lq_items_def)
qed

lemma lq_in_mono: "lq_step solo N s s' \<Longrightarrow> length (lq_in s) \<le> length (lq_in s')"
proof -
  have "length (lq_in s) \<le> length (lq_in (lq_begin t c s))" for t c
    by (cases c) (simp_all add: lq_goto_def lq_claim_def)
  moreover have "length (lq_in s) \<le> length (lq_in (lq_next b t p s))" for b t p
    by (cases p) (auto simp: lq_goto_def lq_claim_def lq_return_def lq_write_def lq_upd_def Let_def split: run.splits)
  ultimately show "lq_step solo N s s' \<Longrightarrow> length (lq_in s) \<le> length (lq_in s')"
    by (auto simp: lq_step_def lq_thread_def split: if_splits)
qed

lemma lq_reach:
  assumes "(lq_step solo N)\<^sup>*\<^sup>* s0 s" "lq_inv solo N m s0" "clq_S (lq_q s0) = S"
    "length (lq_in s) < 2 ^ 32" "length (lq_in s) \<le> 65534 * 2 ^ m"
  shows "lq_inv solo N m s \<and> clq_S (lq_q s) = S \<and> (at_step (S * 2 ^ m) N)\<^sup>*\<^sup>* (lq_abs solo s0) (lq_abs solo s)"
  using assms
proof (induction rule: rtranclp_induct)
  case (step s s')
  note le = lq_in_mono [OF step.hyps(2)]
  have IH: "lq_inv solo N m s" "clq_S (lq_q s) = S" "(at_step (S * 2 ^ m) N)\<^sup>*\<^sup>* (lq_abs solo s0) (lq_abs solo s)"
    using step.IH step.prems le by simp_all
  obtain t where t: "t < N" "lq_thread solo t s s'" using step.hyps(2) by (auto simp: lq_step_def)
  have "lq_sim solo N m s s'" using le step.prems by (intro lq_thread_sim [OF IH(1) t]) simp_all
  then show ?case using IH unfolding lq_sim_def by (auto intro: rtranclp_trans)
qed simp

text \<open>Property C5: a \<open>CLQueue\<close> with one producer thread and one consumer thread (\<open>F_SP_ENQ\<close>, \<open>F_SC_DEQ\<close>), of any size up to \<open>2^31\<close>
  and with \<open>USE_BLOCK = false\<close>, is an
  atomic bounded queue: every interleaving of the two threads' accesses maps to steps of the specification, with
  the same calls and results; no live element is overwritten and no empty slot is read (up to \<open>65534\<close> pushes per line, fewer
  than \<open>2^32\<close> in all).\<close>

theorem clq_spsc_linearizable:
  assumes "clq_ctor T False h h raw maxsz fl = Ret q" "1 \<le> T" "1 \<le> unat maxsz" "unat maxsz \<le> 2 ^ 31" "clq_flags_ok fl"
    and "has_flag fl F_SP_ENQ" "has_flag fl F_SC_DEQ"
    and "(lq_step solo N)\<^sup>*\<^sup>* (lq_start q) s" "length (lq_in s) < 2 ^ 32" "length (lq_in s) \<le> 65534 * unat (max_line q)"
  shows "(at_step (unat (clq_capacity q)) N)\<^sup>*\<^sup>* at_init (lq_abs solo s) \<and> lq_lost s = [] \<and> \<not> lq_ub s"
proof -
  obtain m where m: "clq_rel m 0 0 q []" "clq_flags q = clq_default_flags fl" "unat (max_line q) = 2 ^ m"
    "unat (clq_capacity q) = clq_S q * 2 ^ m"
    by (rule clq_ctor_start [OF assms(1-5)])
  have "lq_sp q" "lq_sc q" using assms(6,7) m(2) by (simp_all add: clq_default_SP clq_default_SC)
  note start = lq_inv_start [OF m(1) this clq_ctor_slots [OF assms(1)]]
  have "clq_S (lq_q (lq_start q)) = clq_S q" by (simp add: lq_start_def)
  from lq_reach [OF assms(8) start(1) this assms(9)] assms(10) m(3)
  have "lq_inv solo N m s" "(at_step (clq_S q * 2 ^ m) N)\<^sup>*\<^sup>* (lq_abs solo (lq_start q)) (lq_abs solo s)" by simp_all
  then show ?thesis using lq_invD(1,2) m(4) start(2) by metis
qed

text \<open>Thread 1 looks into the empty queue while thread 0 pushes, then pops while thread 0 pushes again.\<close>

definition spsc_schedule :: "nat lq_move list" where
  "spsc_schedule = [LqBegin 0 (LqPush 5), LqGo 0, LqGo 0, LqBegin 1 LqPop, LqGo 0, LqGo 1, LqGo 0, LqGo 0, LqBegin 1 LqPop,
     LqBegin 0 (LqPushUnsafe 6), LqGo 1, LqGo 0, LqGo 1, LqGo 0, LqGo 1, LqGo 1, LqGo 0, LqGo 1]"

lemma clq_spsc_linearizable_witness:
  "\<exists>s. map lq_response (lq_log s) = [(1, Pop, []), (0, Emplace (5 :: nat), [5]), (1, Pop, [5])] \<and> lq_status (lq_in s) (lq_pc s 0) = AtCalled (Emplace 6) \<and>
     (at_step 7 2)\<^sup>*\<^sup>* at_init (lq_abs (\<lambda>e. if e = ProdEnd then 0 else 1) s)"
proof -
  let ?q = "case clq_ctor 8 False 0 0 zero_lines 4 3 of Ret q \<Rightarrow> q"
  let ?solo = "\<lambda>e. if e = ProdEnd then 0 else (1 :: nat)"
  have q: "clq_ctor 8 False 0 0 zero_lines 4 3 = Ret ?q"
    using clq_ctor_rel [of 8 4 3 0 zero_lines] by (auto simp: clq_flags_ok_def has_flag_def conq_flag_defs)
  have "map_option (\<lambda>s. (map lq_response (lq_log s), lq_in s, lq_status (lq_in s) (lq_pc s 0))) (lq_run spsc_schedule (lq_start ?q)) =
    Some ([(1, Pop, []), (0, Emplace 5, [5]), (1, Pop, [5])], [5, 6], AtCalled (Emplace 6))" by code_simp
  then obtain s where s: "lq_run spsc_schedule (lq_start ?q) = Some s" "lq_in s = [5, 6]"
    "map lq_response (lq_log s) = [(1, Pop, []), (0, Emplace 5, [5]), (1, Pop, [5])]" "lq_status (lq_in s) (lq_pc s 0) = AtCalled (Emplace 6)"
    by (cases "lq_run spsc_schedule (lq_start ?q)") auto
  have run: "(lq_step ?solo 2)\<^sup>*\<^sup>* (lq_start ?q) s"
    by (rule lq_run_steps [OF s(1)]) (simp add: spsc_schedule_def lq_may_def)
  obtain m where m: "unat (max_line ?q) = 2 ^ m" "unat (clq_capacity ?q) = clq_S ?q * 2 ^ m"
    by (rule clq_ctor_start [OF q]) (auto simp: clq_flags_ok_def has_flag_def conq_flag_defs)
  have cap: "unat (clq_capacity ?q) = 7" by code_simp
  have "1 \<le> (2 :: nat) ^ m" by simp
  then have "2 \<le> 65534 * (2 :: nat) ^ m" by linarith
  moreover have "length (lq_in s) = 2" by (simp add: s(2))
  ultimately have l: "length (lq_in s) \<le> 65534 * unat (max_line ?q)" by (simp only: m(1))
  have "(at_step (unat (clq_capacity ?q)) 2)\<^sup>*\<^sup>* at_init (lq_abs ?solo s)"
    using clq_spsc_linearizable [OF q _ _ _ _ _ _ run _ l] s(2) by (simp add: clq_flags_ok_def has_flag_def conq_flag_defs)
  with s(3,4) show ?thesis unfolding cap by (intro exI [of _ s]) simp
qed

section \<open>Several producers\<close>

lemma rel_head_line:
  assumes "clq_rel m t d q xs" "t + length xs + i < 2 ^ 32"
  shows "get_li q (of_nat (t + length xs + i)) = of_nat ((t + length xs + i) mod 2 ^ m)"
  by (rule get_li_nat [OF clq_relD(1) [OF assms(1)] assms(2)])

lemma lines_differ:
  assumes "clq_shape q m" "h < 2 ^ 32" "k < 2 ^ 32" "h < k" "k < h + 2 ^ m"
  shows "get_li q (of_nat h) \<noteq> get_li q (of_nat k)"
proof -
  have "h mod 2 ^ m \<noteq> k mod 2 ^ m"
  proof
    assume "h mod 2 ^ m = k mod 2 ^ m"
    moreover have "k - h < 2 ^ m" "h + (k - h) = k" using assms(4,5) by linarith+
    ultimately have "0 = k - h" using mod_add_inj [of 0 "2 ^ m" "k - h" h] by simp
    then show False using assms(4) by simp
  qed
  then show ?thesis
    using get_li_nat [OF assms(1,2)] get_li_nat [OF assms(1,3)] line_index_eq [of m "h mod 2 ^ m" "k mod 2 ^ m"] assms(1)
    by (simp add: clq_shape_def)
qed

text \<open>A line that lags behind by one push does not look full.\<close>

lemma lagging_not_full:
  assumes r: "clq_rel m t d q xs" and full: "length xs = clq_S q * 2 ^ m"
  shows "\<not> line_full (lag 1 0 (get_li q (clq_head q)) q) (get_li q (clq_head q))"
proof -
  let ?l = "get_li q (clq_head q)"
  have "line_full q ?l" using line_full_rel [OF r] full by simp
  then have f: "uint (hf2 (cls q ?l)) - uint (tf2 (cls q ?l)) = int (clq_S q)" by (simp add: line_full_def)
  then have "0 < uint (hf2 (cls q ?l))" using clq_S_bounds [OF clq_relD(1) [OF r]] uint_ge_0 [of "tf2 (cls q ?l)"] by linarith
  then have "uint (hf2 (cls q ?l) - 1) = uint (hf2 (cls q ?l)) - 1"
    by (simp add: uint_sub_if')
  then show ?thesis using f by (simp add: line_full_def lag_lines)
qed

text \<open>Thread 0 fills the new queue.\<close>

lemma first_pushes:
  fixes q :: "'a clqueue"
  assumes r: "clq_rel m 0 0 q []" and f: "lq_fresh m q 0" and b: "clq_S q * 2 ^ m < 2 ^ 32" and len: "length ys \<le> clq_S q * 2 ^ m"
    and may: "\<forall>x. lq_may solo q 0 (LqPush x)" and N: "0 < N"
  shows "\<exists>s. (lq_step solo N)\<^sup>*\<^sup>* (lq_start q) s \<and> clq_rel m 0 0 (lq_q s) ys \<and> lq_fresh m (lq_q s) (length ys) \<and>
      clq_flags (lq_q s) = clq_flags q \<and> clq_T_SIZE (lq_q s) = clq_T_SIZE q \<and> lq_pc s = (\<lambda>_. LqIdle) \<and> lq_in s = ys \<and> lq_lost s = [] \<and>
      lq_log s = map (\<lambda>y. (0, LqPush y, LqTrue [y])) ys"
proof -
  have "clq_S q * 2 ^ m \<le> 65534 * 2 ^ m" using clq_S_bounds [OF clq_relD(1) [OF r]] by simp
  with len have "length ys \<le> 65534 * 2 ^ m" by (rule le_trans)
  then have l: "0 + length ([] :: 'a list) + length ys \<le> clq_S q * 2 ^ m" "0 + length ([] :: 'a list) + length ys \<le> 65534 * 2 ^ m"
    "0 + length ([] :: 'a list) + length ys < 2 ^ 32" using len b by simp_all
  have s: "lq_q (lq_start q) = lag 0 0 0 q" "lq_pc (lq_start q) 0 = LqIdle" by (simp_all add: lq_start_def)
  have f': "lq_fresh m q (0 + length ([] :: 'a list))" using f by simp
  show ?thesis
    using solo_pushes [OF s N may r f' l] by (auto simp: lq_start_def)
qed

lemma four_parts:
  assumes "length xs = a + 1 + c + 1"
  shows "\<exists>ys y zs z. xs = ys @ y # zs @ [z] \<and> length ys = a \<and> length zs = c"
proof -
  obtain us z where u: "xs = us @ [z]" using assms by (cases xs rule: rev_cases) auto
  have "us = take a us @ us ! a # drop (Suc a) us" using assms u by (intro id_take_nth_drop) simp
  moreover have "length (take a us) = a" "length (drop (Suc a) us) = c" using assms u by simp_all
  ultimately show ?thesis using u by (metis append.assoc append_Cons)
qed

text \<open>The last push of the run: a queue that holds \<open>xs\<close> from position 0 on, full, whose line of position 0 lags behind.\<close>

lemma push_into_full:
  fixes s :: "'a lq_state"
  assumes s: "lq_q s = lag 1 0 (of_nat 0) q" "lq_pc s u = LqIdle" "u < N" "lq_may solo q u (LqPush z)"
    and r: "clq_rel m 0 0 q xs" and full: "length xs = clq_S q * 2 ^ m" and b: "clq_S q * 2 ^ m < 2 ^ 32"
  shows "\<exists>s'. (lq_step solo N)\<^sup>*\<^sup>* s s' \<and> lq_in s' = lq_in s @ [z] \<and> lq_log s' = lq_log s \<and> lq_lost s' = lq_lost s @ [hd xs]"
proof -
  note R = clq_relD [OF r]
  have h: "clq_head q = of_nat (clq_S q * 2 ^ m)" using R(5) full by simp
  have place: "get_li q (clq_head q) = of_nat 0" "get_li q (of_nat 0) = of_nat 0" "get_si q (clq_head q) = get_si q (of_nat 0)"
    unfolding h using get_li_nat [OF R(1) b] get_li_nat [OF R(1), of 0] get_si_nat [OF R(1) b] get_si_nat [OF R(1), of 0] by simp_all
  have "0 < length xs" using full clq_S_bounds [OF R(1)] by simp
  then have old: "slots (cls q (of_nat 0)) (get_si q (clq_head q)) = Some (hd xs)"
    using R(9) [of 0] place(2) unfolding place(3) by (cases xs) simp_all
  have nf: "\<not> line_full (lag 1 0 (of_nat 0) q) (of_nat 0)" using lagging_not_full [OF r full] place(1) by simp
  obtain s' where s': "lq_run (LqBegin u (LqPush z) # replicate 3 (LqGo u)) s = Some s'" "lq_in s' = lq_in s @ [z]" "lq_log s' = lq_log s"
    "lq_lost s' = lq_lost s @ [hd xs]"
    using run_push_write [OF s(1) _ s(2) nf, of z] place(1) old by (auto simp: lag_lines slot_content_def)
  have "(lq_step solo N)\<^sup>*\<^sup>* s s'"
    by (rule lq_run_steps [OF s'(1)]) (use s in \<open>auto simp: lq_may_def\<close>)
  then show ?thesis using s'(2-4) by blast
qed

text \<open>Property C23: in the modes for several producers a push can be accepted by a full \<open>CLQueue\<close>, of any size: the test for a
  full line counts completed pushes only. Two threads push; the first is interrupted before its last increment and the
  second goes once around the lines. Then one element more than the capacity has been accepted without any pop, and the
  oldest element is overwritten.\<close>

theorem clq_mp_overwrites:
  assumes q: "clq_ctor T False h h raw maxsz fl = Ret q" and arg: "1 \<le> T" "1 \<le> unat maxsz" "unat maxsz \<le> 2 ^ 31" "clq_flags_ok fl"
    and mp: "\<not> has_flag fl F_SP_ENQ" and len: "length xs = Suc (unat (clq_capacity q))"
  shows "\<exists>s. (lq_step solo 2)\<^sup>*\<^sup>* (lq_start q) s \<and> lq_in s = xs \<and> lq_lost s = [hd xs] \<and> (\<forall>r\<in>set (lq_log s). fst (snd r) \<noteq> LqPop)"
proof -
  obtain m where m: "clq_rel m 0 0 q []" "clq_flags q = clq_default_flags fl" "m \<le> 29" "unat (clq_capacity q) = clq_S q * 2 ^ m"
    "clq_S q * 2 ^ m < 2 ^ 32" "7 \<le> clq_S q" "clq_S q \<le> 70" "lq_fresh m q 0"
    by (rule clq_ctor_start [OF q arg])
  define S where "S = clq_S q"
  define L where "L = (2 :: nat) ^ m"
  have L: "1 \<le> L" "L \<le> S * L" "S * L \<le> 65534 * L" using m(6,7) by (simp_all add: S_def L_def)
  have "length xs = (S * L - L) + 1 + (L - 1) + 1" using len m(4) L by (simp add: S_def L_def)
  then obtain ys y zs z where xs: "xs = ys @ y # zs @ [z]" "length ys = S * L - L" "length zs = L - 1"
    using four_parts by blast
  have len1: "length ys < S * L" "Suc (length ys) \<le> S * L" "Suc (length ys) + length zs = S * L" using xs(2,3) L by linarith+
  have may: "lq_may solo q' u (LqPush x)" if "clq_flags q' = clq_flags q" for q' :: "'a clqueue" and u x
    using mp m(2) that by (simp add: lq_may_def clq_default_SP)
  obtain s1 where 1: "(lq_step solo 2)\<^sup>*\<^sup>* (lq_start q) s1" "clq_rel m 0 0 (lq_q s1) ys" "lq_fresh m (lq_q s1) (length ys)"
      "clq_flags (lq_q s1) = clq_flags q" "clq_T_SIZE (lq_q s1) = clq_T_SIZE q" "lq_pc s1 = (\<lambda>_. LqIdle)" "lq_in s1 = ys" "lq_lost s1 = []"
      "lq_log s1 = map (\<lambda>y. (0, LqPush y, LqTrue [y])) ys"
    using first_pushes [OF m(1,8,5), of ys solo 2] len1 may by (auto simp: S_def L_def)
  note R1 = clq_relD [OF 1(2)]
  have b: "S * L < 2 ^ 32" "clq_S (lq_q s1) * 2 ^ m = S * L" using m(5) 1(5) by (simp_all add: S_def L_def)
  let ?q1 = "lq_q s1" and ?q2 = "clq_pushed y (lq_q s1)"
  have "length ys = (S - 1) * 2 ^ m" "length ys < 2 ^ 32" using xs(2) b len1 by (simp_all add: diff_mult_distrib L_def)
  then have li: "get_li ?q1 (clq_head ?q1) = of_nat 0" using get_li_nat [OF R1(1), of "length ys"] R1(5) by simp
  have lim: "n \<le> 65534 * 2 ^ m \<and> n < 2 ^ 32" if "n \<le> S * L" for n
    using that L(3) b(1) le_trans [of n "S * L" "65534 * L"] by (simp only: L_def) simp
  have b1: "0 + length ys < clq_S ?q1 * 2 ^ m" "Suc (0 + length ys) \<le> 65534 * 2 ^ m" "Suc (0 + length ys) < 2 ^ 32"
    using b(2) len1(1) lim [OF len1(2)] by simp_all
  have f1: "lq_fresh m ?q1 (0 + length ys)" using 1(3) by simp
  obtain s2 where 2: "(lq_step solo 2)\<^sup>*\<^sup>* s1 s2" "lq_q s2 = lag 1 0 (of_nat 0) ?q2" "lq_pc s2 1 = LqIdle" "lq_in s2 = ys @ [y]" "lq_lost s2 = []"
      "lq_log s2 = lq_log s1"
    using solo_push_stalled [OF refl _ _ may [OF 1(4)] 1(2) f1 b1, of 0 2 y] 1(6-8) unfolding li by auto
  have r2: "clq_rel m 0 0 ?q2 (ys @ [y])" using b1 by (intro clq_push_rel [OF 1(2)]) simp_all
  have f2: "lq_fresh m ?q2 (0 + length (ys @ [y]))" using fresh_pushed [OF R1(1) 1(3)] R1(5) by simp
  have b2: "0 + length (ys @ [y]) + length zs \<le> clq_S ?q2 * 2 ^ m" "0 + length (ys @ [y]) + length zs \<le> 65534 * 2 ^ m"
      "0 + length (ys @ [y]) + length zs < 2 ^ 32"
    using len1(3) b(2) lim [of "length (ys @ [y]) + length zs"] by (simp_all add: clq_pushed_fields)
  have "get_li ?q2 (of_nat (0 + length (ys @ [y]) + i)) \<noteq> of_nat 0" if "i < length zs" for i
  proof -
    have "get_li ?q1 (of_nat (length ys)) \<noteq> get_li ?q1 (of_nat (length (ys @ [y]) + i))"
      using that xs(3) len1 b by (intro lines_differ [OF R1(1)]) (simp_all add: L_def)
    then show ?thesis using li R1(5) by simp
  qed
  then have o2: "(1 :: u16) = 0 \<and> (0 :: u16) = 0 \<or> (\<forall>i<length zs. get_li ?q2 (of_nat (0 + length (ys @ [y]) + i)) \<noteq> of_nat 0)" by blast
  obtain s3 q3 where 3: "(lq_step solo 2)\<^sup>*\<^sup>* s2 s3" "lq_q s3 = lag 1 0 (of_nat 0) q3" "clq_rel m 0 0 q3 ((ys @ [y]) @ zs)" "clq_flags q3 = clq_flags ?q2"
      "clq_T_SIZE q3 = clq_T_SIZE ?q2" "lq_pc s3 = lq_pc s2" "lq_in s3 = lq_in s2 @ zs" "lq_lost s3 = lq_lost s2"
      "lq_log s3 = lq_log s2 @ map (\<lambda>y. (1, LqPush y, LqTrue [y])) zs"
    using solo_pushes [OF 2(2,3) _ _ r2 f2 b2 o2, of 2 solo] may 1(4) by (auto simp: clq_pushed_fields)
  have full: "length ((ys @ [y]) @ zs) = clq_S q3 * 2 ^ m" "clq_S q3 * 2 ^ m < 2 ^ 32"
    using len1 b 3(5) by (simp_all add: clq_pushed_fields)
  obtain s4 where 4: "(lq_step solo 2)\<^sup>*\<^sup>* s3 s4" "lq_in s4 = lq_in s3 @ [z]" "lq_log s4 = lq_log s3" "lq_lost s4 = lq_lost s3 @ [hd ((ys @ [y]) @ zs)]"
    using push_into_full [OF 3(2) _ _ may 3(3) full, where u = 1 and N = 2 and z = z] 3(4,6) 2(3) 1(4) by (auto simp: clq_pushed_fields)
  have "(lq_step solo 2)\<^sup>*\<^sup>* (lq_start q) s4" using 1(1) 2(1) 3(1) 4(1) by (meson rtranclp_trans)
  moreover have "lq_in s4 = xs" using 4(2) 3(7) 2(4) xs(1) by simp
  moreover have "lq_lost s4 = [hd xs]" using 4(4) 3(8) 2(5) xs(1) by (cases ys) simp_all
  moreover have "\<forall>r\<in>set (lq_log s4). fst (snd r) \<noteq> LqPop" using 4(3) 3(9) 2(6) 1(9) by auto
  ultimately show ?thesis by blast
qed

lemma clq_mp_overwrites_witness:
  "\<exists>q s. clq_ctor 8 False 0 0 zero_lines 4 0 = Ret q \<and> unat (clq_capacity q) = 7 \<and>
     (lq_step (\<lambda>_. 0) 2)\<^sup>*\<^sup>* (lq_start q) s \<and> lq_in s = [1 :: nat, 2, 3, 4, 5, 6, 7, 8] \<and> lq_lost s = [1]"
proof -
  let ?q = "case clq_ctor 8 False 0 0 zero_lines 4 0 of Ret q \<Rightarrow> q"
  have q: "clq_ctor 8 False 0 0 zero_lines 4 0 = Ret ?q"
    using clq_ctor_rel [of 8 4 0 0 zero_lines] by (auto simp: clq_flags_ok_def has_flag_def)
  have cap: "unat (clq_capacity ?q) = 7" by code_simp
  have len: "length [1 :: nat, 2, 3, 4, 5, 6, 7, 8] = Suc (unat (clq_capacity ?q))" unfolding cap by simp
  have a: "1 \<le> (8 :: nat)" "1 \<le> unat (4 :: u32)" "unat (4 :: u32) \<le> 2 ^ 31" "clq_flags_ok 0" "\<not> has_flag 0 F_SP_ENQ"
    by (simp_all add: clq_flags_ok_def has_flag_def)
  obtain s where "(lq_step (\<lambda>_. 0) 2)\<^sup>*\<^sup>* (lq_start ?q) s" "lq_in s = [1 :: nat, 2, 3, 4, 5, 6, 7, 8]" "lq_lost s = [hd [1 :: nat, 2, 3, 4, 5, 6, 7, 8]]"
    using clq_mp_overwrites [OF q a len, of "\<lambda>_. 0"] by blast
  with q cap show ?thesis by (intro exI [of _ ?q] exI [of _ s]) simp
qed

section \<open>Several consumers\<close>

text \<open>The last pop of the run: the queue is empty, but its line lags behind by one pop.\<close>

lemma pop_from_empty:
  fixes s :: "'a lq_state"
  assumes s: "lq_q s = lag 0 1 (of_nat 0) q" "lq_pc s u = LqIdle" "u < N" and sc: "\<not> lq_sc q"
    and r: "clq_rel m (2 ^ m) (2 ^ m) q []" and f: "lq_fresh m q (2 ^ m)"
  shows "\<exists>s'. (lq_step solo N)\<^sup>*\<^sup>* s s' \<and> lq_in s' = lq_in s \<and> lq_log s' = lq_log s \<and> lq_ub s'"
proof -
  note R = clq_relD [OF r]
  have p: "(2 :: nat) ^ m < 2 ^ 32" using R(3) by simp
  have place: "get_li q (clq_tail q) = of_nat 0" unfolding R(6) using get_li_nat [OF R(1) p] by simp
  have "hf2 (cls q (of_nat 0)) = tf2 (cls q (of_nat 0))"
    using line_empty_rel [OF r] place R(6) by (simp add: line_empty_def)
  then have ne: "hf2 (cls (lag 0 1 (of_nat 0) q) (of_nat 0)) \<noteq> tf2 (cls (lag 0 1 (of_nat 0) q) (of_nat 0))"
    by (simp add: lag_lines)
  have "(2 :: nat) ^ m < clq_S q * 2 ^ m" using clq_S_bounds [OF R(1)] by simp
  then have "slots (cls q (get_li q (of_nat (2 ^ m)))) (get_si q (of_nat (2 ^ m))) = None" using f p unfolding lq_fresh_def by blast
  then have e: "slots (cls (lag 0 1 (of_nat 0) q) (of_nat 0)) (get_si (lag 0 1 (of_nat 0) q) (clq_tail (lag 0 1 (of_nat 0) q))) = None"
    using place by (simp add: R(6) lag_lines)
  have d: "dequeue_overcommit q - overcommit q = clq_tail q" using R(6,7) sc by simp
  obtain s' where s': "lq_run (LqBegin u LqPop # replicate 5 (LqGo u)) s = Some s'" "lq_in s' = lq_in s" "lq_log s' = lq_log s" "lq_ub s'"
    using run_pop_read [OF s(1) _ _ s(2) _ ne e] place sc d by auto
  have "(lq_step solo N)\<^sup>*\<^sup>* s s'"
    by (rule lq_run_steps [OF s'(1)]) (use s sc in \<open>auto simp: lq_may_def\<close>)
  then show ?thesis using s'(2-4) by blast
qed

text \<open>Property C24: in the modes for several consumers a pop of an empty \<open>CLQueue\<close>, of any size, can read a slot that holds no
  element: the tests for an empty line do not know of pops that are not completed. With one element in each line,
  the first consumer is interrupted before its last increment and the second pops the others and goes on to the next
  slot of the first line.\<close>

theorem clq_mc_reads_raw:
  assumes q: "clq_ctor T False h h raw maxsz fl = Ret q" and arg: "1 \<le> T" "1 \<le> unat maxsz" "unat maxsz \<le> 2 ^ 31" "clq_flags_ok fl"
    and mc: "\<not> has_flag fl F_SC_DEQ" and sp: "has_flag fl F_SP_ENQ \<longrightarrow> solo ProdEnd = 0" and len: "length xs = unat (max_line q)"
  shows "\<exists>s. (lq_step solo 2)\<^sup>*\<^sup>* (lq_start q) s \<and> lq_in s = xs \<and> lq_ub s"
proof -
  obtain m where m: "clq_rel m 0 0 q []" "clq_flags q = clq_default_flags fl" "unat (max_line q) = 2 ^ m"
    "clq_S q * 2 ^ m < 2 ^ 32" "7 \<le> clq_S q" "lq_fresh m q 0"
    by (rule clq_ctor_start [OF q arg])
  define L where "L = (2 :: nat) ^ m"
  have L: "1 \<le> L" "L \<le> clq_S q * L" "length xs = L" using m(3,5) len by (simp_all add: L_def)
  obtain x ys where xs: "xs = x # ys" "length ys = L - 1" using L by (cases xs) auto
  have sc: "\<not> lq_sc q'" if "clq_flags q' = clq_flags q" for q' :: "'a clqueue" using mc m(2) that by (simp add: clq_default_SC)
  have may: "\<forall>x. lq_may solo q 0 (LqPush x)" using sp m(2) by (simp add: lq_may_def clq_default_SP)
  obtain s1 where 1: "(lq_step solo 2)\<^sup>*\<^sup>* (lq_start q) s1" "clq_rel m 0 0 (lq_q s1) xs" "lq_fresh m (lq_q s1) (length xs)"
      "clq_flags (lq_q s1) = clq_flags q" "lq_pc s1 = (\<lambda>_. LqIdle)" "lq_in s1 = xs"
    using first_pushes [OF m(1,6,4) _ may, of xs 2] L by (auto simp: L_def)
  let ?q1 = "lq_q s1" and ?q2 = "clq_popped (lq_q s1)"
  note R1 = clq_relD [OF 1(2)]
  have li: "get_li ?q1 (clq_tail ?q1) = of_nat 0" unfolding R1(6) using get_li_nat [OF R1(1), of 0] by simp
  have r1: "clq_rel m 0 0 ?q1 (x # ys)" using 1(2) xs(1) by simp
  obtain s2 where 2: "(lq_step solo 2)\<^sup>*\<^sup>* s1 s2" "lq_q s2 = lag 0 1 (of_nat 0) ?q2" "lq_pc s2 1 = LqIdle" "lq_in s2 = xs"
    using solo_pop_stalled [OF refl _ _ sc [OF 1(4)] r1, of 0 2 solo] 1(5,6) unfolding li by auto
  have r2: "clq_rel m (Suc 0) (Suc 0) ?q2 (ys @ [])" using clq_pop_rel [OF r1] by simp
  have sc2: "\<not> lq_sc ?q2" using sc [of ?q2] 1(4) by (simp add: clq_popped_fields)
  have "get_li ?q2 (of_nat (Suc 0 + i)) \<noteq> of_nat 0" if "i < length ys" for i
  proof -
    have "Suc 0 + i < 2 ^ 32" using that R1(3) xs by simp
    then have "get_li ?q1 (of_nat 0) \<noteq> get_li ?q1 (of_nat (Suc 0 + i))"
      using that xs(2) by (intro lines_differ [OF R1(1)]) (simp_all add: L_def)
    then show ?thesis using li R1(6) by simp
  qed
  then have o2: "(0 :: u16) = 0 \<and> (1 :: u16) = 0 \<or> (\<forall>i<length ys. get_li ?q2 (of_nat (Suc 0 + i)) \<noteq> of_nat 0)" by blast
  obtain s3 q3 where 3: "(lq_step solo 2)\<^sup>*\<^sup>* s2 s3" "lq_q s3 = lag 0 1 (of_nat 0) q3" "clq_rel m (Suc 0 + length ys) (Suc 0 + length ys) q3 []"
      "lq_fresh m q3 (length xs)" "clq_flags q3 = clq_flags ?q2" "lq_pc s3 = lq_pc s2" "lq_in s3 = lq_in s2"
    using solo_pops [OF 2(2,3) _ sc2 r2 o2 fresh_popped [OF 1(3)], of 2 solo] by auto
  have end3: "Suc 0 + length ys = 2 ^ m" "length xs = 2 ^ m" using xs(2) L by (simp_all add: L_def)
  have sc3: "\<not> lq_sc q3" using sc2 3(5) by simp
  obtain s4 where 4: "(lq_step solo 2)\<^sup>*\<^sup>* s3 s4" "lq_in s4 = lq_in s3" "lq_ub s4"
    using pop_from_empty [OF 3(2) _ _ sc3 3(3,4) [unfolded end3], of 1 2 solo] 3(6) 2(3) by auto
  have "(lq_step solo 2)\<^sup>*\<^sup>* (lq_start q) s4" using 1(1) 2(1) 3(1) 4(1) by (meson rtranclp_trans)
  then show ?thesis using 4(2,3) 3(7) 2(4) by auto
qed

lemma clq_mc_reads_raw_witness:
  "\<exists>q s. clq_ctor 8 False 0 0 zero_lines 10 1 = Ret q \<and> unat (max_line q) = 2 \<and>
     (lq_step (\<lambda>_. 0) 2)\<^sup>*\<^sup>* (lq_start q) s \<and> lq_in s = [5 :: nat, 6] \<and> lq_ub s"
proof -
  let ?q = "case clq_ctor 8 False 0 0 zero_lines 10 1 of Ret q \<Rightarrow> q"
  have a: "1 \<le> (8 :: nat)" "1 \<le> unat (10 :: u32)" "unat (10 :: u32) \<le> 2 ^ 31" "clq_flags_ok 1" "\<not> has_flag 1 F_SC_DEQ"
    by (simp_all add: clq_flags_ok_def has_flag_def conq_flag_defs)
  have q: "clq_ctor 8 False 0 0 zero_lines 10 1 = Ret ?q"
    using clq_ctor_rel [OF a(1-4), of 0 zero_lines] by auto
  have lines: "unat (max_line ?q) = 2" by code_simp
  have len: "length [5 :: nat, 6] = unat (max_line ?q)" unfolding lines by simp
  obtain s where "(lq_step (\<lambda>_. 0) 2)\<^sup>*\<^sup>* (lq_start ?q) s" "lq_in s = [5 :: nat, 6]" "lq_ub s"
    using clq_mc_reads_raw [OF q a _ len, of "\<lambda>_. 0"] by auto
  with q lines show ?thesis by (intro exI [of _ ?q] exI [of _ s]) simp
qed

end
