(* ===== verification/Atomic_Queue.thy ===== *)
theory Atomic_Queue
  imports Queue_Interface Ring_Window
begin

text \<open>
  queue-bench/atomic_queue.h, the code of one caller at a time: the index shuffling and rounding of
  namespace \<open>details\<close>, the operations of \<open>AtomicQueueCommon<Derived>\<close> and the four queues derived
  from it, and \<open>RetryDecorator\<close>. The static constants of \<open>Derived\<close> are a record; the calls of
  \<open>Derived::do_push\<close> and \<open>Derived::do_pop\<close> are function arguments. A cell is the value of an
  \<open>std::atomic<T>\<close>, or the pair of a state byte and an element. Busy waiting for a cell that only
  another thread could change is \<open>Spin\<close>.
\<close>

section \<open>Index shuffling\<close>

fun get_cache_line_index_bits :: "nat \<Rightarrow> nat" where
  "get_cache_line_index_bits elements_per_cache_line =
    (if elements_per_cache_line = 256 then 8 else if elements_per_cache_line = 128 then 7
     else if elements_per_cache_line = 64 then 6 else if elements_per_cache_line = 32 then 5
     else if elements_per_cache_line = 16 then 4 else if elements_per_cache_line = 8 then 3
     else if elements_per_cache_line = 4 then 2 else if elements_per_cache_line = 2 then 1 else 0)"

definition get_index_shuffle_bits :: "bool \<Rightarrow> u32 \<Rightarrow> nat \<Rightarrow> nat" where
  "get_index_shuffle_bits minimize_contention array_size elements_per_cache_line =
    (if minimize_contention
     then let bits = get_cache_line_index_bits elements_per_cache_line; min_size = push_bit (bits * 2) 1
          in if array_size < min_size then 0 else bits
     else 0)"

definition remap_index_with_mix :: "nat \<Rightarrow> u32 \<Rightarrow> u32 \<Rightarrow> u32" where
  "remap_index_with_mix bits index mix = index XOR mix XOR push_bit bits mix"

definition remap_index :: "nat \<Rightarrow> u32 \<Rightarrow> u32" where
  "remap_index bits index =
    (if bits = 0 then index
     else remap_index_with_mix bits index ((index XOR drop_bit bits index) AND (push_bit bits 1 - 1)))"

section \<open>Rounding up\<close>

definition decrement :: "'w::len word \<Rightarrow> 'w word" where
  "decrement x = x - 1"

definition increment :: "'w::len word \<Rightarrow> 'w word" where
  "increment x = x + 1"

primrec or_equal :: "'w::len word \<Rightarrow> nat list \<Rightarrow> 'w word" where
  "or_equal x [] = x"
| "or_equal x (u # rest) = or_equal (x OR drop_bit u x) rest"

definition round_up_to_power_of_2 :: "u32 \<Rightarrow> u32" where
  "round_up_to_power_of_2 a = increment (or_equal (decrement a) [1, 2, 4, 8, 16])"

definition round_up_to_power_of_2_64 :: "u64 \<Rightarrow> u64" where
  "round_up_to_power_of_2_64 a = increment (or_equal (decrement a) [1, 2, 4, 8, 16, 32])"

section \<open>State\<close>

text \<open>The static constants of a derived class, and whether it writes \<open>& (size_ - 1)\<close> (\<open>d_mask\<close>) or
  \<open>% size_\<close>.\<close>

record derived =
  d_spsc :: bool
  d_total_order :: bool
  d_maximize_throughput :: bool
  d_shuffle_bits :: nat
  d_mask :: bool

text \<open>\<open>aq_cells\<close> is None for the null pointer of a queue that was moved from.\<close>

record 'c atomic_queue =
  aq_head :: u32
  aq_tail :: u32
  aq_size :: u32
  aq_cells :: "(u32 \<Rightarrow> 'c) option"

datatype cell_state = EMPTY | STORING | STORED | LOADING

section \<open>One cell\<close>

text \<open>\<open>do_pop_atomic\<close> and \<open>do_push_atomic\<close>: the new value of the cell and, for pop, the element.
  With \<open>exchange\<close> (not SPSC) an empty cell is overwritten by NIL, which it holds already.\<close>

definition do_pop_atomic :: "derived \<Rightarrow> 'a \<Rightarrow> 'a \<Rightarrow> ('a \<times> 'a) run" where
  "do_pop_atomic d NIL cell =
    (if d_spsc d
     then (let element = cell in if element \<noteq> NIL then Ret (element, NIL) else Spin)
     else (let element = cell; cell' = NIL in if element \<noteq> NIL then Ret (element, cell') else Spin))"

definition do_push_atomic :: "derived \<Rightarrow> 'a \<Rightarrow> 'a \<Rightarrow> 'a \<Rightarrow> 'a run" where
  "do_push_atomic d NIL element cell =
    (if element = NIL then Throw ''assert''
     else if d_spsc d then (if cell \<noteq> NIL then Spin else Ret element)
     else (let expected = NIL in if cell = expected then Ret element else Spin))"

definition do_pop_any :: "derived \<Rightarrow> cell_state \<times> 'a \<Rightarrow> ('a \<times> cell_state \<times> 'a) run" where
  "do_pop_any d c =
    (let (state, q_element) = c
     in if d_spsc d then (if state \<noteq> STORED then Spin else Ret (q_element, EMPTY, q_element))
        else if state = STORED then (let state1 = LOADING; element = q_element in Ret (element, EMPTY, q_element))
        else Spin)"

definition do_push_any :: "derived \<Rightarrow> 'a \<Rightarrow> cell_state \<times> 'a \<Rightarrow> (cell_state \<times> 'a) run" where
  "do_push_any d element c =
    (let (state, q_element) = c
     in if d_spsc d then (if state \<noteq> EMPTY then Spin else Ret (STORED, element))
        else if state = EMPTY then (let state1 = STORING in Ret (STORED, element))
        else Spin)"

section \<open>do_push and do_pop of the derived classes\<close>

definition aq_index :: "derived \<Rightarrow> u32 \<Rightarrow> u32 \<Rightarrow> u32" where
  "aq_index d sz i = remap_index (d_shuffle_bits d) (if d_mask d then i AND (sz - 1) else i mod sz)"

text \<open>Access to the array through a null pointer or outside its \<open>size_\<close> elements is undefined.\<close>

definition with_cell :: "derived \<Rightarrow> ('c \<Rightarrow> ('b \<times> 'c) run) \<Rightarrow> u32 \<Rightarrow> 'c atomic_queue \<Rightarrow> ('b \<times> 'c atomic_queue) run" where
  "with_cell d f i q =
    (case aq_cells q of
       None \<Rightarrow> UB
     | Some cs \<Rightarrow>
         let k = aq_index d (aq_size q) i
         in if k < aq_size q then run_bind (f (cs k)) (\<lambda>(r, c). Ret (r, q\<lparr>aq_cells := Some (cs(k := c))\<rparr>)) else UB)"

definition aq_do_pop :: "derived \<Rightarrow> 'a \<Rightarrow> u32 \<Rightarrow> 'a atomic_queue \<Rightarrow> ('a \<times> 'a atomic_queue) run" where
  "aq_do_pop d NIL tail q = with_cell (d\<lparr>d_mask := False\<rparr>) (do_pop_atomic d NIL) tail q"

definition aq_do_push :: "derived \<Rightarrow> 'a \<Rightarrow> 'a \<Rightarrow> u32 \<Rightarrow> 'a atomic_queue \<Rightarrow> (unit \<times> 'a atomic_queue) run" where
  "aq_do_push d NIL element head q =
    with_cell (d\<lparr>d_mask := False\<rparr>) (\<lambda>c. run_bind (do_push_atomic d NIL element c) (\<lambda>c'. Ret ((), c'))) head q"

text \<open>The same in \<open>AtomicQueueB\<close>, where \<open>d_mask\<close> selects \<open>& (size_ - 1)\<close>.\<close>

definition aqb_do_pop :: "derived \<Rightarrow> 'a \<Rightarrow> u32 \<Rightarrow> 'a atomic_queue \<Rightarrow> ('a \<times> 'a atomic_queue) run" where
  "aqb_do_pop d NIL tail q = with_cell (d\<lparr>d_mask := True\<rparr>) (do_pop_atomic d NIL) tail q"

definition aqb_do_push :: "derived \<Rightarrow> 'a \<Rightarrow> 'a \<Rightarrow> u32 \<Rightarrow> 'a atomic_queue \<Rightarrow> (unit \<times> 'a atomic_queue) run" where
  "aqb_do_push d NIL element head q =
    with_cell (d\<lparr>d_mask := True\<rparr>) (\<lambda>c. run_bind (do_push_atomic d NIL element c) (\<lambda>c'. Ret ((), c'))) head q"

definition aq2_do_pop :: "derived \<Rightarrow> u32 \<Rightarrow> (cell_state \<times> 'a) atomic_queue \<Rightarrow> ('a \<times> (cell_state \<times> 'a) atomic_queue) run" where
  "aq2_do_pop d tail q = with_cell (d\<lparr>d_mask := False\<rparr>) (do_pop_any d) tail q"

definition aq2_do_push :: "derived \<Rightarrow> 'a \<Rightarrow> u32 \<Rightarrow> (cell_state \<times> 'a) atomic_queue \<Rightarrow> (unit \<times> (cell_state \<times> 'a) atomic_queue) run" where
  "aq2_do_push d element head q =
    with_cell (d\<lparr>d_mask := False\<rparr>) (\<lambda>c. run_bind (do_push_any d element c) (\<lambda>c'. Ret ((), c'))) head q"

definition aqb2_do_pop :: "derived \<Rightarrow> u32 \<Rightarrow> (cell_state \<times> 'a) atomic_queue \<Rightarrow> ('a \<times> (cell_state \<times> 'a) atomic_queue) run" where
  "aqb2_do_pop d tail q = with_cell (d\<lparr>d_mask := True\<rparr>) (do_pop_any d) tail q"

definition aqb2_do_push :: "derived \<Rightarrow> 'a \<Rightarrow> u32 \<Rightarrow> (cell_state \<times> 'a) atomic_queue \<Rightarrow> (unit \<times> (cell_state \<times> 'a) atomic_queue) run" where
  "aqb2_do_push d element head q =
    with_cell (d\<lparr>d_mask := True\<rparr>) (\<lambda>c. run_bind (do_push_any d element c) (\<lambda>c'. Ret ((), c'))) head q"

section \<open>AtomicQueueCommon\<close>

definition aq_try_push ::
  "(u32 \<Rightarrow> 'c atomic_queue \<Rightarrow> (unit \<times> 'c atomic_queue) run) \<Rightarrow> 'c atomic_queue \<Rightarrow> (bool \<times> 'c atomic_queue) run"
where
  "aq_try_push do_push q =
    (let head = aq_head q
     in if sint (aq_size q) \<le> sint (head - aq_tail q) then Ret (False, q)
        else run_bind (do_push head (q\<lparr>aq_head := head + 1\<rparr>)) (\<lambda>(_, q'). Ret (True, q')))"

definition aq_try_pop ::
  "(u32 \<Rightarrow> 'c atomic_queue \<Rightarrow> ('a \<times> 'c atomic_queue) run) \<Rightarrow> 'c atomic_queue \<Rightarrow> ('a option \<times> 'c atomic_queue) run"
where
  "aq_try_pop do_pop q =
    (let tail = aq_tail q
     in if sint (aq_head q - tail) \<le> 0 then Ret (None, q)
        else run_bind (do_pop tail (q\<lparr>aq_tail := tail + 1\<rparr>)) (\<lambda>(x, q'). Ret (Some x, q')))"

definition aq_push ::
  "(u32 \<Rightarrow> 'c atomic_queue \<Rightarrow> (unit \<times> 'c atomic_queue) run) \<Rightarrow> 'c atomic_queue \<Rightarrow> 'c atomic_queue run"
where
  "aq_push do_push q =
    (let head = aq_head q in run_bind (do_push head (q\<lparr>aq_head := head + 1\<rparr>)) (\<lambda>(_, q'). Ret q'))"

definition aq_pop ::
  "(u32 \<Rightarrow> 'c atomic_queue \<Rightarrow> ('a \<times> 'c atomic_queue) run) \<Rightarrow> 'c atomic_queue \<Rightarrow> ('a \<times> 'c atomic_queue) run"
where
  "aq_pop do_pop q = (let tail = aq_tail q in do_pop tail (q\<lparr>aq_tail := tail + 1\<rparr>))"

definition was_size :: "'c atomic_queue \<Rightarrow> u32" where
  "was_size q = word_of_int (max (sint (aq_head q - aq_tail q)) 0)"

definition was_empty :: "'c atomic_queue \<Rightarrow> bool" where
  "was_empty q \<longleftrightarrow> was_size q = 0"

definition was_full :: "'c atomic_queue \<Rightarrow> bool" where
  "was_full q \<longleftrightarrow> aq_size q \<le> was_size q"

definition aq_capacity :: "'c atomic_queue \<Rightarrow> u32" where
  "aq_capacity q = aq_size q"

section \<open>RetryDecorator\<close>

text \<open>A \<open>try_push\<close> that fails changes nothing: repeating it without another thread spins.\<close>

definition retry_push ::
  "(u32 \<Rightarrow> 'c atomic_queue \<Rightarrow> (unit \<times> 'c atomic_queue) run) \<Rightarrow> 'c atomic_queue \<Rightarrow> 'c atomic_queue run"
where
  "retry_push do_push q = run_bind (aq_try_push do_push q) (\<lambda>(b, q'). if b then Ret q' else Spin)"

definition retry_pop ::
  "(u32 \<Rightarrow> 'c atomic_queue \<Rightarrow> ('a \<times> 'c atomic_queue) run) \<Rightarrow> 'c atomic_queue \<Rightarrow> ('a \<times> 'c atomic_queue) run"
where
  "retry_pop do_pop q = run_bind (aq_try_pop do_pop q) (\<lambda>(x, q'). case x of Some element \<Rightarrow> Ret (element, q') | None \<Rightarrow> Spin)"

section \<open>Constructors, move, swap and destructor\<close>

text \<open>\<open>AtomicQueue<T, SIZE, NIL, MINIMIZE_CONTENTION, ...>\<close>; \<open>sizeof_T\<close> is the size of \<open>std::atomic<T>\<close>
  and \<open>T0\<close> the value \<open>T{}\<close>.\<close>

definition fixed_size :: "bool \<Rightarrow> u32 \<Rightarrow> u32" where
  "fixed_size minimize_contention SIZE = (if minimize_contention then round_up_to_power_of_2 SIZE else SIZE)"

definition fixed_derived :: "bool \<Rightarrow> bool \<Rightarrow> bool \<Rightarrow> bool \<Rightarrow> u32 \<Rightarrow> nat \<Rightarrow> derived" where
  "fixed_derived minimize_contention maximize_throughput total_order spsc SIZE elements_per_cache_line =
    \<lparr>d_spsc = spsc, d_total_order = total_order, d_maximize_throughput = maximize_throughput,
     d_shuffle_bits = get_index_shuffle_bits minimize_contention (fixed_size minimize_contention SIZE) elements_per_cache_line,
     d_mask = False\<rparr>"

definition aq_ctor :: "'a \<Rightarrow> 'a \<Rightarrow> bool \<Rightarrow> u32 \<Rightarrow> 'a atomic_queue" where
  "aq_ctor T0 NIL minimize_contention SIZE =
    \<lparr>aq_head = 0, aq_tail = 0, aq_size = fixed_size minimize_contention SIZE,
     aq_cells = Some (if T0 \<noteq> NIL then (\<lambda>_. NIL) else (\<lambda>_. T0))\<rparr>"

definition aq2_ctor :: "'a \<Rightarrow> bool \<Rightarrow> u32 \<Rightarrow> (cell_state \<times> 'a) atomic_queue" where
  "aq2_ctor T0 minimize_contention SIZE =
    \<lparr>aq_head = 0, aq_tail = 0, aq_size = fixed_size minimize_contention SIZE, aq_cells = Some (\<lambda>_. (EMPTY, T0))\<rparr>"

text \<open>\<open>AtomicQueueB\<close> and \<open>AtomicQueueB2\<close>: the size is an argument of the constructor.\<close>

definition dynamic_derived :: "bool \<Rightarrow> bool \<Rightarrow> bool \<Rightarrow> nat \<Rightarrow> derived" where
  "dynamic_derived maximize_throughput total_order spsc elements_per_cache_line =
    \<lparr>d_spsc = spsc, d_total_order = total_order, d_maximize_throughput = maximize_throughput,
     d_shuffle_bits = get_cache_line_index_bits elements_per_cache_line, d_mask = True\<rparr>"

definition dynamic_size :: "derived \<Rightarrow> u32 \<Rightarrow> u32" where
  "dynamic_size d sz = max (round_up_to_power_of_2 sz) (push_bit (d_shuffle_bits d * 2) 1)"

definition aqb_ctor :: "derived \<Rightarrow> 'a \<Rightarrow> u32 \<Rightarrow> 'a atomic_queue" where
  "aqb_ctor d NIL sz = \<lparr>aq_head = 0, aq_tail = 0, aq_size = dynamic_size d sz, aq_cells = Some (\<lambda>_. NIL)\<rparr>"

definition aqb2_ctor :: "derived \<Rightarrow> 'a \<Rightarrow> u32 \<Rightarrow> (cell_state \<times> 'a) atomic_queue" where
  "aqb2_ctor d T0 sz = \<lparr>aq_head = 0, aq_tail = 0, aq_size = dynamic_size d sz, aq_cells = Some (\<lambda>_. (EMPTY, T0))\<rparr>"

text \<open>The copy constructor, the assignment and the swap of \<open>AtomicQueueCommon\<close>: the positions only.\<close>

definition common_copy :: "'c atomic_queue \<Rightarrow> 'c atomic_queue \<Rightarrow> 'c atomic_queue" where
  "common_copy a b = a\<lparr>aq_head := aq_head b, aq_tail := aq_tail b\<rparr>"

definition common_swap :: "'c atomic_queue \<Rightarrow> 'c atomic_queue \<Rightarrow> 'c atomic_queue \<times> 'c atomic_queue" where
  "common_swap a b =
    (let h = aq_head a; t = aq_tail a; a1 = a\<lparr>aq_head := aq_head b, aq_tail := aq_tail b\<rparr>
     in (a1, b\<lparr>aq_head := h, aq_tail := t\<rparr>))"

text \<open>The move constructor: the new queue and what is left of \<open>b\<close>.\<close>

definition aqb_move_ctor :: "'c atomic_queue \<Rightarrow> 'c atomic_queue \<times> 'c atomic_queue" where
  "aqb_move_ctor b =
    (\<lparr>aq_head = aq_head b, aq_tail = aq_tail b, aq_size = aq_size b, aq_cells = aq_cells b\<rparr>,
     b\<lparr>aq_size := 0, aq_cells := None\<rparr>)"

definition aqb_swap :: "'c atomic_queue \<Rightarrow> 'c atomic_queue \<Rightarrow> 'c atomic_queue \<times> 'c atomic_queue" where
  "aqb_swap a b =
    (let (a1, b1) = common_swap a b
     in (a1\<lparr>aq_size := aq_size b1, aq_cells := aq_cells b1\<rparr>, b1\<lparr>aq_size := aq_size a1, aq_cells := aq_cells a1\<rparr>))"

definition aqb_move_assign :: "'c atomic_queue \<Rightarrow> 'c atomic_queue \<Rightarrow> 'c atomic_queue \<times> 'c atomic_queue" where
  "aqb_move_assign a b = (let (b1, a1) = aqb_swap b a in (a1, b1))"

text \<open>\<open>AtomicQueueB2\<close> has a second array, moved along with the first; its cells are one map here.\<close>

definition aqb2_move_ctor :: "(cell_state \<times> 'a) atomic_queue \<Rightarrow> (cell_state \<times> 'a) atomic_queue \<times> (cell_state \<times> 'a) atomic_queue" where
  "aqb2_move_ctor b =
    (\<lparr>aq_head = aq_head b, aq_tail = aq_tail b, aq_size = aq_size b, aq_cells = aq_cells b\<rparr>,
     b\<lparr>aq_size := 0, aq_cells := None\<rparr>)"

definition aqb2_swap :: "(cell_state \<times> 'a) atomic_queue \<Rightarrow> (cell_state \<times> 'a) atomic_queue \<Rightarrow> (cell_state \<times> 'a) atomic_queue \<times> (cell_state \<times> 'a) atomic_queue" where
  "aqb2_swap a b =
    (let (a1, b1) = common_swap a b
     in (a1\<lparr>aq_size := aq_size b1, aq_cells := aq_cells b1\<rparr>, b1\<lparr>aq_size := aq_size a1, aq_cells := aq_cells a1\<rparr>))"

definition aqb2_move_assign :: "(cell_state \<times> 'a) atomic_queue \<Rightarrow> (cell_state \<times> 'a) atomic_queue \<Rightarrow> (cell_state \<times> 'a) atomic_queue \<times> (cell_state \<times> 'a) atomic_queue" where
  "aqb2_move_assign a b = (let (b1, a1) = aqb2_swap b a in (a1, b1))"

text \<open>The destructor: the sizes given to \<open>deallocate\<close> (twice for \<open>AtomicQueueB2\<close>).\<close>

definition aqb_dtor :: "'c atomic_queue \<Rightarrow> u32 list" where
  "aqb_dtor q = (case aq_cells q of None \<Rightarrow> [] | Some _ \<Rightarrow> [aq_size q])"

definition aqb2_dtor :: "(cell_state \<times> 'a) atomic_queue \<Rightarrow> u32 list" where
  "aqb2_dtor q = (case aq_cells q of None \<Rightarrow> [] | Some _ \<Rightarrow> [aq_size q, aq_size q])"

end
