(* ===== verification/Atomic_Queue_Contract.thy ===== *)
theory Atomic_Queue_Contract
  imports Atomic_Queue
begin

text \<open>
  The queues of atomic_queue.h, one caller at a time, against the bounded queue: the shuffled
  index is a permutation of the cells, a cell is a one-element buffer (\<open>cell_protocol\<close>, met by the
  NIL protocol and by the state-byte protocol), and every queue over such cells is a bounded queue.
\<close>

section \<open>The shuffled index\<close>

lemma bit_remap_index:
  assumes "2 * b \<le> 32" "n < 32"
  shows "bit (remap_index b x) n \<longleftrightarrow> bit x (if n < b then n + b else if n < 2 * b then n - b else n)"
proof (cases "b = 0")
  case False
  have m: "bit (push_bit b 1 - 1 :: u32) j \<longleftrightarrow> j < b" if "j < 32" for j
    using that bit_mask_iff [of b j, where ?'a = u32] by (simp add: mask_eq_decr_exp push_bit_eq_mult)
  define mix where "mix = (x XOR drop_bit b x) AND (push_bit b 1 - 1)"
  have mix: "bit mix j \<longleftrightarrow> j < b \<and> (bit x j \<noteq> bit x (b + j))" for j
    using m [of j] assms(1) unfolding mix_def
    by (cases "j < 32") (auto simp: bit_and_iff bit_xor_iff bit_drop_bit_eq dest: bit_imp_le_length)
  have sh: "bit (push_bit b mix) n \<longleftrightarrow> b \<le> n \<and> n < 2 * b \<and> (bit x (n - b) \<noteq> bit x n)"
    using assms mix [of "n - b"] by (auto simp: bit_push_bit_iff)
  have "remap_index b x = x XOR mix XOR push_bit b mix"
    using False by (simp add: remap_index_def remap_index_with_mix_def mix_def)
  then show ?thesis
    using mix [of n] sh by (auto simp: bit_xor_iff add.commute)
qed (simp add: remap_index_def)

lemma remap_index_involution: "2 * b \<le> 32 \<Longrightarrow> remap_index b (remap_index b x) = x"
  by (rule bit_eqI) (auto simp: bit_remap_index possible_bit_def)

lemma inj_remap_index: "2 * b \<le> 32 \<Longrightarrow> inj (remap_index b)"
  by (metis inj_on_inverseI remap_index_involution)

lemma take_bit_remap_index:
  assumes "take_bit k x = x" "2 * b \<le> k" "k \<le> 31"
  shows "take_bit k (remap_index b x) = remap_index b x"
proof (rule bit_eqI)
  fix n assume "possible_bit TYPE(u32) n"
  then have n: "n < 32" by (simp add: possible_bit_def)
  have x: "\<not> bit x j" if "k \<le> j" for j
    using that assms(1) by (metis bit_take_bit_iff not_le)
  show "bit (take_bit k (remap_index b x)) n \<longleftrightarrow> bit (remap_index b x) n"
  proof (cases "n < k")
    case False
    then have "\<not> bit x n" "\<not> n < b" "\<not> n < 2 * b" using x [of n] assms(2) by auto
    with assms(2,3) n show ?thesis by (simp add: bit_take_bit_iff bit_remap_index)
  qed (simp add: bit_take_bit_iff)
qed

text \<open>The shapes for which index shuffling is meant: a power of two with enough bits.\<close>

definition aq_shape :: "derived \<Rightarrow> u32 \<Rightarrow> nat \<Rightarrow> bool" where
  "aq_shape d sz k \<longleftrightarrow> k \<le> 30 \<and> sz = 2 ^ k \<and> 2 * d_shuffle_bits d \<le> k"

lemma aq_index_mask: "aq_shape d sz k \<Longrightarrow> aq_index d sz i = remap_index (d_shuffle_bits d) (i AND mask k)"
proof -
  assume a: "aq_shape d sz k"
  have "i mod 2 ^ k = i AND mask k"
    by (metis take_bit_eq_mask take_bit_eq_mod)
  then show ?thesis using a by (simp add: aq_index_def aq_shape_def mask_eq_decr_exp)
qed

lemma aq_index_less:
  assumes "aq_shape d sz k"
  shows "aq_index d sz i < sz"
proof -
  have k: "k \<le> 31" "2 * d_shuffle_bits d \<le> k" using assms by (simp_all add: aq_shape_def)
  let ?r = "aq_index d sz i"
  have "take_bit k ?r = ?r"
    unfolding aq_index_mask [OF assms]
    by (rule take_bit_remap_index [OF _ k(2,1)]) (simp add: take_bit_eq_mask)
  then have "unat ?r = unat (?r AND mask k)" by (simp add: take_bit_eq_mask)
  also have "\<dots> < 2 ^ k" by (simp add: unat_and_mask)
  finally show ?thesis using assms k by (simp add: aq_shape_def word_less_nat_alt unat_pow2_u32)
qed

lemma aq_index_window: "aq_shape d sz k \<Longrightarrow> window_inj (aq_index d sz) (2 ^ k) t"
proof -
  assume a: "aq_shape d sz k"
  then have k: "k \<le> 31" "2 * d_shuffle_bits d \<le> 32" by (simp_all add: aq_shape_def)
  have "window_inj (\<lambda>i. remap_index (d_shuffle_bits d) (i AND mask k)) (2 ^ k) t"
    by (rule window_inj_comp [OF window_inj_mask [OF k(1)] inj_remap_index [OF k(2)]])
  moreover have "aq_index d sz = (\<lambda>i. remap_index (d_shuffle_bits d) (i AND mask k))"
    using aq_index_mask [OF a] by blast
  ultimately show ?thesis by simp
qed

section \<open>Cells\<close>

text \<open>One cell: filled by a push, emptied by a pop; otherwise either waits for another thread.\<close>

locale cell_protocol =
  fixes push_cell :: "'a \<Rightarrow> 'c \<Rightarrow> (unit \<times> 'c) run"
    and pop_cell :: "'c \<Rightarrow> ('a \<times> 'c) run"
    and free :: "'c \<Rightarrow> bool"
    and full :: "'a \<Rightarrow> 'c \<Rightarrow> bool"
    and ok :: "'a \<Rightarrow> bool"
  assumes push_free: "ok x \<Longrightarrow> free c \<Longrightarrow> \<exists>c'. push_cell x c = Ret ((), c') \<and> full x c'"
    and pop_full: "full x c \<Longrightarrow> \<exists>c'. pop_cell c = Ret (x, c') \<and> free c'"
    and push_full: "ok y \<Longrightarrow> full x c \<Longrightarrow> push_cell y c = Spin"
    and pop_free: "free c \<Longrightarrow> pop_cell c = Spin"

text \<open>What the waiting operations do when the trying ones succeed or fail.\<close>

lemma aq_push_try: "aq_try_push f q = Ret (True, q') \<Longrightarrow> aq_push f q = Ret q' \<and> retry_push f q = Ret q'"
  by (auto simp: aq_try_push_def aq_push_def retry_push_def run_bind_Ret_iff Let_def split: if_splits)

lemma aq_pop_try: "aq_try_pop f q = Ret (Some x, q') \<Longrightarrow> aq_pop f q = Ret (x, q') \<and> retry_pop f q = Ret (x, q')"
  by (auto simp: aq_try_pop_def aq_pop_def retry_pop_def run_bind_Ret_iff Let_def split: if_splits)

text \<open>The elements \<open>xs\<close> are in the cells from position \<open>aq_tail\<close> on, the other cells are free.\<close>

definition aq_rel :: "('c \<Rightarrow> bool) \<Rightarrow> ('a \<Rightarrow> 'c \<Rightarrow> bool) \<Rightarrow> derived \<Rightarrow> 'c atomic_queue \<Rightarrow> 'a list \<Rightarrow> bool" where
  "aq_rel free full d q xs \<longleftrightarrow>
    (\<exists>k cs. aq_shape d (aq_size q) k \<and> aq_cells q = Some cs \<and> length xs \<le> 2 ^ k \<and>
       aq_head q = aq_tail q + of_nat (length xs) \<and>
       (\<forall>i<length xs. full (xs ! i) (cs (aq_index d (aq_size q) (aq_tail q + of_nat i)))) \<and>
       (\<forall>i. length xs \<le> i \<longrightarrow> i < 2 ^ k \<longrightarrow> free (cs (aq_index d (aq_size q) (aq_tail q + of_nat i)))))"

lemma sint_of_nat_u32: "n < 2147483648 \<Longrightarrow> sint (of_nat n :: u32) = int n"
  by (simp add: sint_uint unat_of_nat_u32 uint_nat signed_take_bit_int_eq_self)

lemma pow2_le_30: "k \<le> 30 \<Longrightarrow> (2 :: nat) ^ k \<le> 1073741824"
  using power_increasing [of k 30 "2 :: nat"] by simp

lemma aq_shapeD:
  assumes "aq_shape d sz k"
  shows "unat sz = 2 ^ k" "sint sz = 2 ^ k" "(2 :: nat) ^ k \<le> 1073741824"
proof -
  show p: "(2 :: nat) ^ k \<le> 1073741824" using assms by (intro pow2_le_30) (simp add: aq_shape_def)
  show "unat sz = 2 ^ k" using assms by (simp add: aq_shape_def unat_pow2_u32)
  have "sint (of_nat (2 ^ k) :: u32) = int (2 ^ k)" using p by (intro sint_of_nat_u32) linarith
  then show "sint sz = 2 ^ k" using assms by (simp add: aq_shape_def)
qed

lemma aq_index_period:
  assumes "aq_shape d sz k"
  shows "aq_index d sz (p + 2 ^ k) = aq_index d sz p"
proof -
  have k: "k \<le> 31" using assms by (simp add: aq_shape_def)
  have "unat (p + 2 ^ k) mod 2 ^ k = (unat p + 2 ^ k) mod 2 ^ 32 mod 2 ^ k"
    using k by (simp add: unat_word_ariths unat_pow2_u32)
  also have "\<dots> = unat p mod 2 ^ k"
    using mod_mod_cancel [OF le_imp_power_dvd [of k 32 "2 :: nat"], of "unat p + 2 ^ k"] k by simp
  finally have "(p + 2 ^ k) AND mask k = p AND mask k"
    by (simp add: word_unat_eq_iff unat_and_mask)
  then show ?thesis by (simp add: aq_index_mask [OF assms])
qed

lemma aq_window:
  assumes "aq_shape d sz k" "i < 2 ^ k" "j < 2 ^ k" "i \<noteq> j"
  shows "aq_index d sz (t + of_nat i) \<noteq> aq_index d sz (t + of_nat j)"
  using window_injD [OF aq_index_window [OF assms(1)] assms(2,3)] assms(4) by blast

section \<open>A queue over cells\<close>

locale cell_queue = cell_protocol push_cell pop_cell free full ok
  for push_cell :: "'a \<Rightarrow> 'c \<Rightarrow> (unit \<times> 'c) run" and pop_cell free full ok +
  fixes d :: derived
begin

lemma push_room:
  assumes "ok x" "aq_rel free full d q xs" "length xs < unat (aq_size q)"
  shows "\<exists>q'. aq_try_push (with_cell d (push_cell x)) q = Ret (True, q') \<and>
    aq_rel free full d q' (xs @ [x]) \<and> aq_size q' = aq_size q"
proof -
  obtain k cs where s: "aq_shape d (aq_size q) k" and cs: "aq_cells q = Some cs"
    and h: "aq_head q = aq_tail q + of_nat (length xs)"
    and fl: "\<forall>i<length xs. full (xs ! i) (cs (aq_index d (aq_size q) (aq_tail q + of_nat i)))"
    and fr: "\<forall>i. length xs \<le> i \<longrightarrow> i < 2 ^ k \<longrightarrow> free (cs (aq_index d (aq_size q) (aq_tail q + of_nat i)))"
    using assms(2) unfolding aq_rel_def by blast
  have n: "length xs < 2 ^ k" using assms(3) aq_shapeD(1) [OF s] by simp
  let ?k = "aq_index d (aq_size q) (aq_head q)"
  have "free (cs ?k)" using fr n h by simp
  then obtain c where c: "push_cell x (cs ?k) = Ret ((), c)" "full x c" using push_free [OF assms(1)] by blast
  let ?q = "q\<lparr>aq_head := aq_head q + 1, aq_cells := Some (cs(?k := c))\<rparr>"
  have "sint (aq_head q - aq_tail q) = int (length xs)"
    using h n aq_shapeD(3) [OF s] sint_of_nat_u32 [of "length xs"] by simp
  then have "aq_try_push (with_cell d (push_cell x)) q = Ret (True, ?q)"
    using n cs c(1) aq_shapeD(2) [OF s] aq_index_less [OF s, of "aq_head q"]
    by (simp add: aq_try_push_def with_cell_def Let_def)
  moreover have "aq_index d (aq_size q) (aq_tail q + of_nat i) \<noteq> ?k" if "i < 2 ^ k" "i \<noteq> length xs" for i
    using aq_window [OF s that(1) n that(2)] h by simp
  then have "aq_rel free full d ?q (xs @ [x])"
    unfolding aq_rel_def using s n h fl fr c(2)
    by (intro exI [of _ k] exI [of _ "cs(?k := c)"]) (auto simp: nth_append less_Suc_eq add.assoc)
  ultimately show ?thesis by (intro exI [of _ ?q]) simp
qed

lemma push_refused:
  assumes "aq_rel free full d q xs" "length xs = unat (aq_size q)"
  shows "aq_try_push (with_cell d (push_cell x)) q = Ret (False, q)"
proof -
  obtain k where s: "aq_shape d (aq_size q) k" and h: "aq_head q = aq_tail q + of_nat (length xs)"
    using assms(1) unfolding aq_rel_def by blast
  have "sint (aq_head q - aq_tail q) = int (length xs)"
    using h assms(2) aq_shapeD [OF s] sint_of_nat_u32 [of "length xs"] by simp
  then show ?thesis using assms(2) aq_shapeD(1,2) [OF s] by (simp add: aq_try_push_def)
qed

lemma try_pop_take:
  assumes "aq_rel free full d q (x # xs)"
  shows "\<exists>q'. aq_try_pop (with_cell d pop_cell) q = Ret (Some x, q') \<and> aq_rel free full d q' xs \<and> aq_size q' = aq_size q"
proof -
  obtain k cs where s: "aq_shape d (aq_size q) k" and cs: "aq_cells q = Some cs"
    and n: "Suc (length xs) \<le> 2 ^ k" and h: "aq_head q = aq_tail q + of_nat (Suc (length xs))"
    and fl: "\<forall>i<Suc (length xs). full ((x # xs) ! i) (cs (aq_index d (aq_size q) (aq_tail q + of_nat i)))"
    and fr: "\<forall>i. Suc (length xs) \<le> i \<longrightarrow> i < 2 ^ k \<longrightarrow> free (cs (aq_index d (aq_size q) (aq_tail q + of_nat i)))"
    using assms unfolding aq_rel_def by auto
  let ?i = "\<lambda>i. aq_index d (aq_size q) (aq_tail q + of_nat i)"
  have "full x (cs (?i 0))" using fl by (metis nth_Cons_0 zero_less_Suc)
  then obtain c where c: "pop_cell (cs (aq_index d (aq_size q) (aq_tail q))) = Ret (x, c)" "free c"
    using pop_full by fastforce
  let ?q = "q\<lparr>aq_tail := aq_tail q + 1, aq_cells := Some (cs(?i 0 := c))\<rparr>"
  have "sint (aq_head q - aq_tail q) = int (Suc (length xs))"
    using h n aq_shapeD(3) [OF s] sint_of_nat_u32 [of "Suc (length xs)"] by simp
  then have "aq_try_pop (with_cell d pop_cell) q = Ret (Some x, ?q)"
    using cs c(1) aq_index_less [OF s, of "aq_tail q"] by (simp add: aq_try_pop_def with_cell_def Let_def)
  moreover have "aq_rel free full d ?q xs"
  proof -
    have a: "?i (Suc i) \<noteq> ?i 0" if "Suc i < 2 ^ k" for i using aq_window [OF s that, of 0] by simp
    have 1: "full (xs ! i) ((cs(?i 0 := c)) (?i (Suc i)))" if "i < length xs" for i
      using fl [rule_format, of "Suc i"] a [of i] that n by simp
    have 2: "free ((cs(?i 0 := c)) (?i (Suc i)))" if "length xs \<le> i" "i < 2 ^ k" for i
    proof (cases "Suc i < 2 ^ k")
      case True
      with fr [rule_format, of "Suc i"] that a [of i] show ?thesis by simp
    next
      case False
      with that(2) have "Suc i = 2 ^ k" by simp
      then have "?i (Suc i) = ?i 0"
        using aq_index_period [OF s, of "aq_tail q"] by simp
      with c(2) show ?thesis by simp
    qed
    show ?thesis
      unfolding aq_rel_def
    proof (intro exI conjI allI impI)
      show "full (xs ! i) ((cs(?i 0 := c)) (aq_index d (aq_size ?q) (aq_tail ?q + of_nat i)))" if "i < length xs" for i
        using 1 [OF that] by (simp add: add.assoc)
      show "free ((cs(?i 0 := c)) (aq_index d (aq_size ?q) (aq_tail ?q + of_nat i)))" if "length xs \<le> i" "i < 2 ^ k" for i
        using 2 [OF that] by (simp add: add.assoc)
    qed (use s n h in \<open>simp_all add: fun_upd_def\<close>)
  qed
  ultimately show ?thesis by (intro exI [of _ ?q]) simp
qed

text \<open>The operations that claim a position without looking.\<close>

lemma push_waits:
  assumes "ok y" "aq_rel free full d q xs" "length xs = unat (aq_size q)"
  shows "aq_push (with_cell d (push_cell y)) q = Spin"
proof -
  obtain k cs where s: "aq_shape d (aq_size q) k" and cs: "aq_cells q = Some cs"
    and h: "aq_head q = aq_tail q + of_nat (length xs)"
    and fl: "\<forall>i<length xs. full (xs ! i) (cs (aq_index d (aq_size q) (aq_tail q + of_nat i)))"
    using assms(2) unfolding aq_rel_def by blast
  have l: "length xs = 2 ^ k" using assms(3) aq_shapeD(1) [OF s] by simp
  then have "aq_index d (aq_size q) (aq_head q) = aq_index d (aq_size q) (aq_tail q)"
    using h aq_index_period [OF s] by simp
  moreover have "full (xs ! 0) (cs (aq_index d (aq_size q) (aq_tail q + of_nat 0)))"
    by (rule fl [rule_format]) (simp add: l)
  ultimately have "push_cell y (cs (aq_index d (aq_size q) (aq_head q))) = Spin"
    using push_full [OF assms(1)] by simp
  then show ?thesis using cs aq_index_less [OF s] by (simp add: aq_push_def with_cell_def Let_def)
qed

lemma pop_waits:
  assumes "aq_rel free full d q []"
  shows "aq_pop (with_cell d pop_cell) q = Spin"
proof -
  obtain k cs where s: "aq_shape d (aq_size q) k" and cs: "aq_cells q = Some cs"
    and fr: "\<forall>i. i < 2 ^ k \<longrightarrow> free (cs (aq_index d (aq_size q) (aq_tail q + of_nat i)))"
    using assms unfolding aq_rel_def by auto
  from fr have "free (cs (aq_index d (aq_size q) (aq_tail q + of_nat 0)))" by (rule allE [of _ 0]) simp
  then have "pop_cell (cs (aq_index d (aq_size q) (aq_tail q))) = Spin" using pop_free by simp
  then show ?thesis using cs aq_index_less [OF s] by (simp add: aq_pop_def with_cell_def Let_def)
qed

lemma pop_none: "aq_rel free full d q [] \<Longrightarrow> aq_try_pop (with_cell d pop_cell) q = Ret (None, q)"
  by (auto simp: aq_rel_def aq_try_pop_def)

end

sublocale cell_queue \<subseteq> bounded_queue "aq_rel free full d" "\<lambda>q. unat (aq_size q)"
  "\<lambda>x. aq_try_push (with_cell d (push_cell x))" "aq_try_pop (with_cell d pop_cell)" ok
proof unfold_locales
  show "length xs \<le> unat (aq_size q)" if "aq_rel free full d q xs" for q xs
    using that aq_shapeD(1) by (auto simp: aq_rel_def)
  show "\<exists>q'. aq_try_push (with_cell d (push_cell x)) q = Ret (True, q') \<and> aq_rel free full d q' (xs @ [x]) \<and>
      unat (aq_size q') = unat (aq_size q)"
    if "ok x" "aq_rel free full d q xs" "length xs < unat (aq_size q)" for x q xs
    using push_room [OF that] by auto
  show "\<exists>q'. aq_try_push (with_cell d (push_cell x)) q = Ret (False, q') \<and> aq_rel free full d q' xs \<and>
      unat (aq_size q') = unat (aq_size q)"
    if "ok x" "aq_rel free full d q xs" "length xs = unat (aq_size q)" for x q xs
    using push_refused [OF that(2,3)] that(2) by simp
  show "\<exists>q'. aq_try_pop (with_cell d pop_cell) q = Ret (Some x, q') \<and> aq_rel free full d q' xs \<and>
      unat (aq_size q') = unat (aq_size q)"
    if "aq_rel free full d q (x # xs)" for x q xs
    using try_pop_take [OF that] by auto
  show "\<exists>q'. aq_try_pop (with_cell d pop_cell) q = Ret (None, q') \<and> aq_rel free full d q' [] \<and>
      unat (aq_size q') = unat (aq_size q)"
    if "aq_rel free full d q []" for q
    using pop_none [OF that] that by simp
qed

end
