(* ===== verification/Atomic_Queue_Properties.thy ===== *)
theory Atomic_Queue_Properties
  imports Atomic_Queue_Contract
begin

text \<open>
  The two cell protocols of atomic_queue.h interpret \<open>cell_queue\<close>; the constructors establish its
  relation; properties of the four queues.
\<close>

interpretation atomic: cell_queue "\<lambda>x c. run_bind (do_push_atomic d NIL x c) (\<lambda>c'. Ret ((), c'))" "do_pop_atomic d NIL"
  "\<lambda>c. c = NIL" "\<lambda>x c. c = x \<and> x \<noteq> NIL" "\<lambda>x. x \<noteq> NIL" d for d :: derived and NIL :: 'a
  by unfold_locales (auto simp: do_push_atomic_def do_pop_atomic_def)

interpretation any: cell_queue "\<lambda>x c. run_bind (do_push_any d x c) (\<lambda>c'. Ret ((), c'))" "do_pop_any d"
  "\<lambda>c. fst c = EMPTY" "\<lambda>x c. c = (STORED, x)" "\<lambda>_. True" d for d :: derived
  by unfold_locales (auto simp: do_push_any_def do_pop_any_def split: prod.splits)

abbreviation atomic_rel :: "'a \<Rightarrow> derived \<Rightarrow> 'a atomic_queue \<Rightarrow> 'a list \<Rightarrow> bool" where
  "atomic_rel NIL \<equiv> aq_rel (\<lambda>c. c = NIL) (\<lambda>x c. c = x \<and> x \<noteq> NIL)"

abbreviation any_rel :: "derived \<Rightarrow> (cell_state \<times> 'a) atomic_queue \<Rightarrow> 'a list \<Rightarrow> bool" where
  "any_rel \<equiv> aq_rel (\<lambda>c. fst c = EMPTY) (\<lambda>x c. c = (STORED, x))"

lemma d_mask_same: "\<not> d_mask d \<Longrightarrow> d\<lparr>d_mask := False\<rparr> = d" "d_mask d \<Longrightarrow> d\<lparr>d_mask := True\<rparr> = d"
  by (cases d; simp)+

lemma with_cell_atomic:
  "\<not> d_mask d \<Longrightarrow> aq_do_push d NIL x = with_cell d (\<lambda>c. run_bind (do_push_atomic d NIL x c) (\<lambda>c'. Ret ((), c')))"
  "\<not> d_mask d \<Longrightarrow> aq_do_pop d NIL = with_cell d (do_pop_atomic d NIL)"
  "d_mask d \<Longrightarrow> aqb_do_push d NIL x = with_cell d (\<lambda>c. run_bind (do_push_atomic d NIL x c) (\<lambda>c'. Ret ((), c')))"
  "d_mask d \<Longrightarrow> aqb_do_pop d NIL = with_cell d (do_pop_atomic d NIL)"
  by ((intro ext)?; simp add: fun_eq_iff aq_do_push_def aq_do_pop_def aqb_do_push_def aqb_do_pop_def d_mask_same)+

lemma with_cell_any:
  "\<not> d_mask d \<Longrightarrow> aq2_do_push d y = with_cell d (\<lambda>c. run_bind (do_push_any d y c) (\<lambda>c'. Ret ((), c')))"
  "\<not> d_mask d \<Longrightarrow> aq2_do_pop d = with_cell d (do_pop_any d)"
  "d_mask d \<Longrightarrow> aqb2_do_push d y = with_cell d (\<lambda>c. run_bind (do_push_any d y c) (\<lambda>c'. Ret ((), c')))"
  "d_mask d \<Longrightarrow> aqb2_do_pop d = with_cell d (do_pop_any d)"
  by ((intro ext)?; simp add: fun_eq_iff aq2_do_push_def aq2_do_pop_def aqb2_do_push_def aqb2_do_pop_def d_mask_same)+

lemma derived_mask [simp]:
  "\<not> d_mask (fixed_derived m mt tot sp SIZE e)" "d_mask (dynamic_derived mt tot sp e)"
  by (simp_all add: fixed_derived_def dynamic_derived_def)


section \<open>Sizes\<close>

lemma round_up_to_power_of_2_eq: "round_up_to_power_of_2 a = round_up32 a"
  by (simp add: round_up_to_power_of_2_def round_up32_def smear32_def smear_step_def increment_def decrement_def)

lemma index_bits_le: "get_cache_line_index_bits n \<le> 8"
  by simp

lemma round_up_30:
  assumes "1 \<le> unat n" "unat n \<le> 2 ^ 30"
  obtains k where "k \<le> 30" "round_up_to_power_of_2 n = 2 ^ k" "unat n \<le> 2 ^ k" "2 ^ k < 2 * unat n"
proof -
  obtain k where k: "k \<le> 31" "round_up32 n = 2 ^ k" "unat n \<le> 2 ^ k" "2 ^ k < 2 * unat n"
    using round_up32_spec [of n] assms by auto
  have "(2 :: nat) ^ k < 2 ^ 31" using k(4) assms(2) by simp
  then have "k < 31" by (rule power_less_imp_less_exp [rotated]) simp
  with that [of k] k show ?thesis by (simp add: round_up_to_power_of_2_eq)
qed

lemma push_bit_one: "push_bit n (1 :: u32) = 2 ^ n"
  by (simp add: push_bit_eq_mult)

lemma shuffle_fits:
  assumes "k \<le> 30"
  shows "2 * get_index_shuffle_bits m (2 ^ k) e \<le> k"
proof -
  define b where "b = get_cache_line_index_bits e"
  have b: "b \<le> 8" unfolding b_def by (rule index_bits_le)
  have "2 * b \<le> k" if "\<not> (2 :: u32) ^ k < 2 ^ (2 * b)"
  proof -
    have "unat ((2 :: u32) ^ (2 * b)) \<le> unat ((2 :: u32) ^ k)" using that by (simp add: word_le_nat_alt not_less)
    then have "(2 :: nat) ^ (2 * b) \<le> 2 ^ k" using assms b unat_pow2_u32 [of k] unat_pow2_u32 [of "2 * b"] by simp
    then show ?thesis by (rule power_le_imp_le_exp [rotated]) simp
  qed
  then show ?thesis
    unfolding get_index_shuffle_bits_def Let_def b_def [symmetric] push_bit_one by (simp add: mult.commute)
qed

definition size_ok :: "bool \<Rightarrow> u32 \<Rightarrow> bool" where
  "size_ok minimize_contention SIZE \<longleftrightarrow>
    (if minimize_contention then 1 \<le> unat SIZE \<and> unat SIZE \<le> 2 ^ 30 else \<exists>k\<le>30. SIZE = 2 ^ k)"

lemma fixed_shape:
  assumes "size_ok m SIZE"
  shows "\<exists>k. aq_shape (fixed_derived m mt tot sp SIZE e) (fixed_size m SIZE) k \<and> unat SIZE \<le> unat (fixed_size m SIZE)"
proof (cases m)
  case True
  with assms obtain k where k: "k \<le> 30" "fixed_size m SIZE = 2 ^ k" "unat SIZE \<le> 2 ^ k"
    using round_up_30 [of SIZE] by (auto simp: size_ok_def fixed_size_def)
  then show ?thesis
    using shuffle_fits [of k m e] by (intro exI [of _ k]) (simp add: aq_shape_def fixed_derived_def unat_pow2_u32)
next
  case False
  with assms obtain k where "k \<le> 30" "SIZE = 2 ^ k" by (auto simp: size_ok_def)
  with False shuffle_fits [of k m e] show ?thesis
    by (intro exI [of _ k]) (simp add: aq_shape_def fixed_derived_def fixed_size_def)
qed

lemma max_pow2_u32: "k \<le> 31 \<Longrightarrow> j \<le> 31 \<Longrightarrow> max (2 ^ k :: u32) (2 ^ j) = 2 ^ max k j"
  by (auto simp: max_def word_le_nat_alt unat_pow2_u32 power_increasing)

lemma dynamic_shape:
  assumes "1 \<le> unat sz" "unat sz \<le> 2 ^ 30"
  shows "\<exists>k. aq_shape (dynamic_derived mt tot sp e) (dynamic_size (dynamic_derived mt tot sp e) sz) k \<and>
    unat sz \<le> unat (dynamic_size (dynamic_derived mt tot sp e) sz)"
proof -
  obtain k where k: "k \<le> 30" "round_up_to_power_of_2 sz = 2 ^ k" "unat sz \<le> 2 ^ k"
    using round_up_30 [OF assms] by blast
  define b where "b = get_cache_line_index_bits e"
  have b: "b \<le> 8" unfolding b_def by (rule index_bits_le)
  have s: "d_shuffle_bits (dynamic_derived mt tot sp e) = b" unfolding dynamic_derived_def b_def by (simp only: derived.simps)
  have z: "dynamic_size (dynamic_derived mt tot sp e) sz = 2 ^ max k (2 * b)"
    using k b by (simp add: dynamic_size_def s push_bit_one max_pow2_u32 mult.commute)
  have "(2 :: nat) ^ k \<le> 2 ^ max k (2 * b)" by (rule power_increasing) simp_all
  then have "unat sz \<le> 2 ^ max k (2 * b)" using k(3) by linarith
  moreover have "max k (2 * b) \<le> 30" using k b by simp
  ultimately show ?thesis
    unfolding z aq_shape_def s by (intro exI [of _ "max k (2 * b)"]) (simp add: unat_pow2_u32)
qed

text \<open>A new queue is empty, and its observers tell its length.\<close>

lemma aq_rel_new:
  assumes "aq_shape d sz k" "\<forall>i. free (cs i)"
  shows "aq_rel free full d \<lparr>aq_head = 0, aq_tail = 0, aq_size = sz, aq_cells = Some cs\<rparr> []"
  using assms by (auto simp: aq_rel_def)

lemma aq_ctor_new:
  assumes "size_ok m SIZE"
  shows "atomic_rel NIL (fixed_derived m mt tot sp SIZE e) (aq_ctor T0 NIL m SIZE) [] \<and>
    unat SIZE \<le> unat (aq_capacity (aq_ctor T0 NIL m SIZE))"
proof -
  have c: "(if T0 \<noteq> NIL then (\<lambda>_. NIL) else (\<lambda>_. T0)) = (\<lambda>_ :: u32. NIL)" by auto
  from fixed_shape [OF assms, of mt tot sp e] show ?thesis
    unfolding aq_ctor_def aq_capacity_def c by (auto intro!: aq_rel_new)
qed

lemma aq2_ctor_new:
  "size_ok m SIZE \<Longrightarrow> any_rel (fixed_derived m mt tot sp SIZE e) (aq2_ctor T0 m SIZE) [] \<and>
    unat SIZE \<le> unat (aq_capacity (aq2_ctor T0 m SIZE))"
  using fixed_shape [of m SIZE mt tot sp e]
  unfolding aq2_ctor_def aq_capacity_def by (auto intro!: aq_rel_new)

lemma aqb_ctor_new:
  "size_ok True SIZE \<Longrightarrow> atomic_rel NIL (dynamic_derived mt tot sp e) (aqb_ctor (dynamic_derived mt tot sp e) NIL SIZE) [] \<and>
    unat SIZE \<le> unat (aq_capacity (aqb_ctor (dynamic_derived mt tot sp e) NIL SIZE))"
  using dynamic_shape [of SIZE mt tot sp e]
  unfolding aqb_ctor_def aq_capacity_def size_ok_def by (auto intro!: aq_rel_new)

lemma aqb2_ctor_new:
  "size_ok True SIZE \<Longrightarrow> any_rel (dynamic_derived mt tot sp e) (aqb2_ctor (dynamic_derived mt tot sp e) T0 SIZE) [] \<and>
    unat SIZE \<le> unat (aq_capacity (aqb2_ctor (dynamic_derived mt tot sp e) T0 SIZE))"
  using dynamic_shape [of SIZE mt tot sp e]
  unfolding aqb2_ctor_def aq_capacity_def size_ok_def by (auto intro!: aq_rel_new)

lemma aq_rel_observers:
  assumes "aq_rel free full d q xs"
  shows "unat (was_size q) = length xs \<and> (was_empty q \<longleftrightarrow> xs = []) \<and>
    (was_full q \<longleftrightarrow> length xs = unat (aq_capacity q))"
proof -
  obtain k where s: "aq_shape d (aq_size q) k" and h: "aq_head q = aq_tail q + of_nat (length xs)" and l: "length xs \<le> 2 ^ k"
    using assms unfolding aq_rel_def by blast
  have n: "length xs < 2147483648" using l aq_shapeD(3) [OF s] by linarith
  then have "sint (aq_head q - aq_tail q) = int (length xs)" using h by (simp add: sint_of_nat_u32)
  then have w: "was_size q = of_nat (length xs)" by (simp add: was_size_def)
  have u: "unat (of_nat (length xs) :: u32) = length xs" using n by (simp add: unat_of_nat_u32)
  show ?thesis using l aq_shapeD(1) [OF s] n
    by (auto simp: was_empty_def was_full_def aq_capacity_def w u word_le_nat_alt simp flip: unat_eq_0)
qed

section \<open>Move and swap\<close>

text \<open>Member-wise, in two steps through the base class: a swap exchanges the whole queues; the
  move assignment, a swap, leaves the old contents with the source; and every array is released
  once, with the size it was allocated with.\<close>

lemma aqb_swap_exchanges: "aqb_swap a b = (b, a)" "aqb_move_assign a b = (b, a)"
  by (simp_all add: aqb_swap_def aqb_move_assign_def common_swap_def)

lemma aqb2_swap_exchanges: "aqb2_swap a b = (b, a)" "aqb2_move_assign a b = (b, a)"
  by (simp_all add: aqb2_swap_def aqb2_move_assign_def common_swap_def)

lemma aqb_move_releases_once:
  "fst (aqb_move_ctor q) = q \<and> aqb_dtor (fst (aqb_move_ctor q)) @ aqb_dtor (snd (aqb_move_ctor q)) = aqb_dtor q"
  "fst (aqb2_move_ctor p) = p \<and> aqb2_dtor (fst (aqb2_move_ctor p)) @ aqb2_dtor (snd (aqb2_move_ctor p)) = aqb2_dtor p"
  by (simp_all add: aqb_move_ctor_def aqb2_move_ctor_def aqb_dtor_def aqb2_dtor_def split: option.split)

section \<open>Properties\<close>

text \<open>Property C14: \<open>AtomicQueue\<close> (any template arguments whose size is at most \<open>2^30\<close>, a power of two when
  contention is not minimized) and \<open>AtomicQueueB\<close> answer every sequence of \<open>try_push\<close> and \<open>try_pop\<close>
  calls as a bounded list does, the shuffled indices and the wrap-around of the positions included,
  as long as NIL is never pushed; the capacity is at least the size asked for, and the
  observers agree with the list.\<close>

theorem atomic_queue_refines_bounded_list:
  assumes "q = aq_ctor T0 NIL m SIZE \<and> d = fixed_derived m mt tot sp SIZE e \<and> size_ok m SIZE \<and>
        do_push = aq_do_push d NIL \<and> do_pop = aq_do_pop d NIL \<or>
      q = aqb_ctor d NIL SIZE \<and> d = dynamic_derived mt tot sp e \<and> size_ok True SIZE \<and>
        do_push = aqb_do_push d NIL \<and> do_pop = aqb_do_pop d NIL"
    and "\<forall>x. Enqueue x \<in> set ops \<longrightarrow> x \<noteq> NIL"
  shows "unat SIZE \<le> unat (aq_capacity q) \<and>
    (\<exists>q'. queue_run (\<lambda>x. aq_try_push (do_push x)) (aq_try_pop do_pop) ops q =
            Ret (fst (spec_run (unat (aq_capacity q)) ops []), q') \<and>
          unat (was_size q') = length (snd (spec_run (unat (aq_capacity q)) ops [])))"
proof -
  have r: "atomic_rel NIL d q [] \<and> unat SIZE \<le> unat (aq_capacity q)"
    using assms(1) aq_ctor_new [of m SIZE NIL mt tot sp e T0] aqb_ctor_new [of SIZE NIL mt tot sp e] by blast
  have "do_push = (\<lambda>x. with_cell d (\<lambda>c. run_bind (do_push_atomic d NIL x c) (\<lambda>c'. Ret ((), c'))))"
    "do_pop = with_cell d (do_pop_atomic d NIL)"
    using assms(1) by (auto simp: with_cell_atomic fun_eq_iff)
  with atomic.run_refines [OF conjunct1 [OF r] assms(2)] r aq_rel_observers show ?thesis
    unfolding aq_capacity_def by blast
qed

lemma atomic_queue_refines_bounded_list_witness:
  "\<exists>q'. queue_run (\<lambda>x. aq_try_push (aqb_do_push (dynamic_derived True False False 16) 0 x))
      (aq_try_pop (aqb_do_pop (dynamic_derived True False False 16) 0))
      [Dequeue, Enqueue 5, Enqueue 6, Dequeue] (aqb_ctor (dynamic_derived True False False 16) (0 :: nat) 20) =
    Ret ([Dequeued None, Enqueued True, Enqueued True, Dequeued (Some 5)], q')"
proof -
  let ?d = "dynamic_derived True False False 16"
  let ?ops = "[Dequeue, Enqueue 5, Enqueue 6, Dequeue] :: nat qop list"
  let ?q = "aqb_ctor ?d (0 :: nat) 20"
  have s: "size_ok True 20" by (simp add: size_ok_def)
  have ok: "\<forall>x. Enqueue x \<in> set ?ops \<longrightarrow> x \<noteq> (0 :: nat)" by simp
  have "unat (20 :: u32) \<le> unat (aq_capacity ?q) \<and>
    (\<exists>q'. queue_run (\<lambda>x. aq_try_push (aqb_do_push ?d 0 x)) (aq_try_pop (aqb_do_pop ?d 0)) ?ops ?q =
        Ret (fst (spec_run (unat (aq_capacity ?q)) ?ops []), q') \<and>
      unat (was_size q') = length (snd (spec_run (unat (aq_capacity ?q)) ?ops [])))"
    by (rule atomic_queue_refines_bounded_list [OF disjI2 ok, where d = ?d and q = ?q and SIZE = 20 and
          do_push = "aqb_do_push ?d 0" and do_pop = "aqb_do_pop ?d 0" and mt = True and tot = False and sp = False and e = 16])
      (simp add: s)
  then show ?thesis by auto
qed

text \<open>The same for \<open>AtomicQueue2\<close> and \<open>AtomicQueueB2\<close>, whose cells have a state byte; every value
  can be stored.\<close>

theorem atomic_queue2_refines_bounded_list:
  assumes "q = aq2_ctor T0 m SIZE \<and> d = fixed_derived m mt tot sp SIZE 64 \<and> size_ok m SIZE \<and>
        do_push = aq2_do_push d \<and> do_pop = aq2_do_pop d \<or>
      q = aqb2_ctor d T0 SIZE \<and> d = dynamic_derived mt tot sp 64 \<and> size_ok True SIZE \<and>
        do_push = aqb2_do_push d \<and> do_pop = aqb2_do_pop d"
  shows "unat SIZE \<le> unat (aq_capacity q) \<and>
    (\<exists>q'. queue_run (\<lambda>x. aq_try_push (do_push x)) (aq_try_pop do_pop) ops q =
            Ret (fst (spec_run (unat (aq_capacity q)) ops []), q') \<and>
          unat (was_size q') = length (snd (spec_run (unat (aq_capacity q)) ops [])))"
proof -
  have r: "any_rel d q [] \<and> unat SIZE \<le> unat (aq_capacity q)"
    using assms(1) aq2_ctor_new [of m SIZE mt tot sp 64 T0] aqb2_ctor_new [of SIZE mt tot sp 64 T0] by blast
  have "do_push = (\<lambda>x. with_cell d (\<lambda>c. run_bind (do_push_any d x c) (\<lambda>c'. Ret ((), c'))))"
    "do_pop = with_cell d (do_pop_any d)"
    using assms(1) by (auto simp: with_cell_any fun_eq_iff)
  with any.run_refines [OF conjunct1 [OF r], of ops] r aq_rel_observers show ?thesis
    unfolding aq_capacity_def by blast
qed

lemma atomic_queue2_refines_bounded_list_witness:
  "\<exists>q'. queue_run (\<lambda>x. aq_try_push (aq2_do_push (fixed_derived False True False True 2 64) x))
      (aq_try_pop (aq2_do_pop (fixed_derived False True False True 2 64)))
      [Enqueue 5, Enqueue 6, Enqueue 7, Dequeue] (aq2_ctor (0 :: nat) False 2) =
    Ret ([Enqueued True, Enqueued True, Enqueued False, Dequeued (Some 5)], q')"
proof -
  let ?d = "fixed_derived False True False True 2 64" and ?q = "aq2_ctor (0 :: nat) False 2"
  let ?ops = "[Enqueue 5, Enqueue 6, Enqueue 7, Dequeue] :: nat qop list"
  have s: "size_ok False 2" unfolding size_ok_def by (simp add: exI [of _ 1])
  have c: "unat (aq_capacity ?q) = 2" by (simp add: aq_capacity_def aq2_ctor_def fixed_size_def)
  have "\<exists>q'. queue_run (\<lambda>x. aq_try_push (aq2_do_push ?d x)) (aq_try_pop (aq2_do_pop ?d)) ?ops ?q =
        Ret (fst (spec_run (unat (aq_capacity ?q)) ?ops []), q') \<and>
      unat (was_size q') = length (snd (spec_run (unat (aq_capacity ?q)) ?ops []))"
    by (rule conjunct2 [OF atomic_queue2_refines_bounded_list [OF disjI1, where d = ?d and q = ?q and SIZE = 2 and ?T0.0 = 0 and m = False and
          do_push = "aq2_do_push ?d" and do_pop = "aq2_do_pop ?d" and mt = True and tot = False and sp = True]])
      (simp add: s)
  then show ?thesis unfolding c by auto
qed

text \<open>The operations that wait, \<open>push\<close> and \<open>pop\<close> of the queue and those of \<open>RetryDecorator\<close>, do what
  \<open>try_push\<close> and \<open>try_pop\<close> do when these succeed, and without other threads wait for ever
  exactly when the queue is full or empty.\<close>

theorem atomic_queue_waits:
  assumes "atomic_rel NIL d q xs" "x \<noteq> NIL"
    and "do_push = (if d_mask d then aqb_do_push d NIL else aq_do_push d NIL)"
    and "do_pop = (if d_mask d then aqb_do_pop d NIL else aq_do_pop d NIL)"
  shows "(if length xs < unat (aq_capacity q)
      then \<exists>q'. aq_push (do_push x) q = Ret q' \<and> retry_push (do_push x) q = Ret q' \<and> atomic_rel NIL d q' (xs @ [x])
      else aq_push (do_push x) q = Spin \<and> retry_push (do_push x) q = Spin) \<and>
    (case xs of
       [] \<Rightarrow> aq_pop do_pop q = Spin \<and> retry_pop do_pop q = Spin
     | y # ys \<Rightarrow> \<exists>q'. aq_pop do_pop q = Ret (y, q') \<and> retry_pop do_pop q = Ret (y, q') \<and> atomic_rel NIL d q' ys)"
proof (intro conjI)
  have p: "do_push = (\<lambda>x. with_cell d (\<lambda>c. run_bind (do_push_atomic d NIL x c) (\<lambda>c'. Ret ((), c'))))"
    "do_pop = with_cell d (do_pop_atomic d NIL)"
    using assms(3,4) by (auto simp: with_cell_atomic fun_eq_iff)
  show "if length xs < unat (aq_capacity q)
      then \<exists>q'. aq_push (do_push x) q = Ret q' \<and> retry_push (do_push x) q = Ret q' \<and> atomic_rel NIL d q' (xs @ [x])
      else aq_push (do_push x) q = Spin \<and> retry_push (do_push x) q = Spin"
  proof (cases "length xs < unat (aq_capacity q)")
    case True
    then show ?thesis
      using atomic.push_room [OF assms(2,1)] aq_push_try [of "do_push x" q] unfolding p by (auto simp: aq_capacity_def)
  next
    case False
    then have "length xs = unat (aq_size q)"
      using atomic.holds_bound [OF assms(1)] by (simp add: aq_capacity_def)
    with False show ?thesis
      using atomic.push_refused [OF assms(1)] atomic.push_waits [OF assms(2,1)] unfolding p by (simp add: retry_push_def)
  qed
  show "case xs of
       [] \<Rightarrow> aq_pop do_pop q = Spin \<and> retry_pop do_pop q = Spin
     | y # ys \<Rightarrow> \<exists>q'. aq_pop do_pop q = Ret (y, q') \<and> retry_pop do_pop q = Ret (y, q') \<and> atomic_rel NIL d q' ys"
  proof (cases xs)
    case Nil
    with assms(1) show ?thesis
      using atomic.pop_none [of NIL d q] atomic.pop_waits [of NIL d q] unfolding p by (simp add: retry_pop_def)
  next
    case (Cons y ys)
    with assms(1) show ?thesis
      using atomic.try_pop_take [of NIL d q y ys] aq_pop_try [of do_pop q y] unfolding p by auto
  qed
qed

lemma atomic_queue_waits_witness:
  "aq_pop (aq_do_pop (fixed_derived False True False False 2 16) 0) (aq_ctor (0 :: nat) 0 False 2) = Spin"
proof -
  have "size_ok False 2" unfolding size_ok_def by (simp add: exI [of _ 1])
  then have "atomic_rel 0 (fixed_derived False True False False 2 16) (aq_ctor (0 :: nat) 0 False 2) []"
    by (rule conjunct1 [OF aq_ctor_new])
  from conjunct2 [OF atomic_queue_waits [OF this, of 1, OF _ refl refl]] show ?thesis by simp
qed

section \<open>Sizes that are no power of two\<close>

text \<open>When \<open>head_\<close> becomes 0 with \<open>2^32 mod size_\<close> elements queued, \<open>head % size_\<close> is the cell of the oldest
  one. A single caller gets there: it moves the empty queue on by pushing and popping, then pushes.\<close>

abbreviation moved_on :: "u32 \<Rightarrow> 'a \<Rightarrow> u32 \<Rightarrow> 'a atomic_queue" where
  "moved_on n NIL p \<equiv> \<lparr>aq_head = p, aq_tail = p, aq_size = n, aq_cells = Some (\<lambda>_. NIL)\<rparr>"

abbreviation filled :: "u32 \<Rightarrow> 'a \<Rightarrow> 'a \<Rightarrow> nat \<Rightarrow> nat \<Rightarrow> 'a atomic_queue" where
  "filled n NIL x r j \<equiv> \<lparr>aq_head = of_nat j - of_nat r, aq_tail = - of_nat r, aq_size = n,
     aq_cells = Some (\<lambda>i. if unat i < j then x else NIL)\<rparr>"

lemma odd_size_push:
  assumes "d_shuffle_bits d = 0" "\<not> d_mask d" "x \<noteq> NIL" "unat n < 2 ^ 31"
    and "sint (aq_head q - aq_tail q) = int j" "j < unat n" "aq_size q = n" "aq_cells q = Some cs"
    and "cs (aq_head q mod n) = NIL"
  shows "aq_try_push (aq_do_push d NIL x) q =
    Ret (True, q\<lparr>aq_head := aq_head q + 1, aq_cells := Some (cs(aq_head q mod n := x))\<rparr>)"
proof -
  have n: "sint n = int (unat n)" using assms(4) sint_of_nat_u32 [of "unat n"] by simp
  have "aq_head q mod n < n" using assms(6) by (simp add: word_less_nat_alt unat_mod)
  moreover have "\<not> sint n \<le> sint (aq_head q - aq_tail q)" unfolding n assms(5) using assms(6) by (simp only: of_nat_le_iff not_le)
  ultimately show ?thesis
    using assms by (simp add: aq_try_push_def aq_do_push_def with_cell_def do_push_atomic_def Let_def aq_index_def
        remap_index_def d_mask_same(1) [OF assms(2)])
qed

lemma odd_size_round:
  assumes "d_shuffle_bits d = 0" "\<not> d_mask d" "x \<noteq> NIL" "unat n < 2 ^ 31" "1 \<le> unat n"
  shows "queue_run (\<lambda>x. aq_try_push (aq_do_push d NIL x)) (aq_try_pop (aq_do_pop d NIL)) [Enqueue x, Dequeue] (moved_on n NIL p) =
    Ret ([Enqueued True, Dequeued (Some x)], moved_on n NIL (p + 1))"
proof -
  have "p mod n < n" using assms(5) by (simp add: word_less_nat_alt unat_mod)
  then have "aq_try_pop (aq_do_pop d NIL) ((moved_on n NIL p)\<lparr>aq_head := p + 1, aq_cells := Some ((\<lambda>_. NIL)(p mod n := x))\<rparr>) =
      Ret (Some x, moved_on n NIL (p + 1))"
    using assms by (simp add: aq_try_pop_def aq_do_pop_def with_cell_def do_pop_atomic_def Let_def aq_index_def
        remap_index_def d_mask_same(1) [OF assms(2)] fun_eq_iff)
  then show ?thesis using odd_size_push [OF assms(1-4), of "moved_on n NIL p" 0 "\<lambda>_. NIL"] assms(5) by simp
qed

lemma odd_size_rounds:
  assumes "d_shuffle_bits d = 0" "\<not> d_mask d" "x \<noteq> NIL" "unat n < 2 ^ 31" "1 \<le> unat n"
  shows "\<exists>rs. queue_run (\<lambda>x. aq_try_push (aq_do_push d NIL x)) (aq_try_pop (aq_do_pop d NIL)) (push_pop_rounds k x)
      (moved_on n NIL p) = Ret (rs, moved_on n NIL (p + of_nat k))"
proof (induction k arbitrary: p)
  case (Suc k)
  obtain rs where "queue_run (\<lambda>x. aq_try_push (aq_do_push d NIL x)) (aq_try_pop (aq_do_pop d NIL)) (push_pop_rounds k x)
      (moved_on n NIL (p + 1)) = Ret (rs, moved_on n NIL (p + 1 + of_nat k))" using Suc [of "p + 1"] by blast
  moreover have s: "push_pop_rounds (Suc k) x = [Enqueue x, Dequeue] @ push_pop_rounds k x" by (simp add: push_pop_rounds_def)
  ultimately show ?case
    unfolding s queue_run_append odd_size_round [OF assms] by (simp add: add.assoc del: queue_run.simps)
qed (simp add: push_pop_rounds_def)

lemma odd_size_index:
  fixes n :: u32
  assumes "r = 2 ^ 32 mod unat n" "j < r" "r < unat n" "unat n < 2 ^ 31"
  shows "(of_nat j - of_nat r) mod n = of_nat j" "unat (of_nat j :: u32) = j"
proof -
  have r31: "r < 2147483648" using assms(3,4) by simp
  show j: "unat (of_nat j :: u32) = j" using assms(2) r31 by (intro unat_of_nat_u32) simp
  have "(of_nat j - of_nat r :: u32) = of_nat (2 ^ 32 - r + j)" using r31 by (simp add: of_nat_diff)
  then have "unat (of_nat j - of_nat r :: u32) = 2 ^ 32 - r + j"
    using assms(2) r31 by (simp add: unat_of_nat_u32 del: of_nat_diff of_nat_add)
  moreover have "(2 ^ 32 - r) mod unat n = 0" unfolding assms(1) by (metis dvd_imp_mod_0 dvd_minus_mod)
  then have "(2 ^ 32 - r + j) mod unat n = j" using assms(2,3) by (simp add: mod_add_eq [symmetric] del: mod_add_eq)
  ultimately show "(of_nat j - of_nat r) mod n = of_nat j" using j by (simp add: word_unat_eq_iff unat_mod)
qed

lemma odd_size_fill:
  assumes "d_shuffle_bits d = 0" "\<not> d_mask d" "x \<noteq> NIL" "unat n < 2 ^ 31" "1 \<le> unat n"
    and "r = 2 ^ 32 mod unat n" "j \<le> r"
  shows "\<exists>rs. queue_run (\<lambda>x. aq_try_push (aq_do_push d NIL x)) (aq_try_pop (aq_do_pop d NIL)) (replicate (r - j) (Enqueue x))
      (filled n NIL x r j) = Ret (rs, filled n NIL x r r)"
  using assms(7)
proof (induction "r - j" arbitrary: j)
  case (Suc k)
  let ?q = "filled n NIL x r j"
  have r: "r < unat n" "j < r" using assms(5,6) Suc.hyps(2) by simp_all
  then have r31: "r < 2147483648" using assms(4) by simp
  note i = odd_size_index [OF assms(6) r(2,1) assms(4)]
  have "sint (of_nat j :: u32) = int j" using r r31 by (intro sint_of_nat_u32) simp
  then have "aq_try_push (aq_do_push d NIL x) ?q = Ret (True, ?q\<lparr>aq_head := aq_head ?q + 1,
      aq_cells := Some ((\<lambda>i. if unat i < j then x else NIL)(aq_head ?q mod n := x))\<rparr>)"
    using r i by (intro odd_size_push [OF assms(1-4), of _ j]) simp_all
  moreover have "(\<lambda>i. if unat i < j then x else NIL)(of_nat j := x) = (\<lambda>i :: u32. if unat i < Suc j then x else NIL)"
    using i by (auto simp: fun_eq_iff less_Suc_eq)
  ultimately have "aq_try_push (aq_do_push d NIL x) ?q = Ret (True, filled n NIL x r (Suc j))"
    using i by (simp add: algebra_simps)
  moreover have "k = r - Suc j" "Suc j \<le> r" using Suc.hyps(2) r by simp_all
  ultimately show ?case using Suc.hyps(1) [of "Suc j"] Suc.hyps(2) [symmetric] by auto
qed simp

lemma odd_size_wrap_blocks:
  assumes "d_shuffle_bits d = 0" "\<not> d_mask d" "x \<noteq> NIL" "y \<noteq> NIL" "unat n < 2 ^ 31" "0 < r" "r < unat n"
  shows "aq_try_push (aq_do_push d NIL y) (filled n NIL x r r) = Spin \<and>
    unat (was_size (filled n NIL x r r)) = r \<and> \<not> was_full (filled n NIL x r r)"
proof -
  have r31: "r < 2147483648" using assms(5,7) by simp
  have n: "sint n = int (unat n)" using assms(5) sint_of_nat_u32 [of "unat n"] by simp
  have le: "sint (of_nat r :: u32) = int r" by (rule sint_of_nat_u32 [OF r31])
  have "\<not> sint n \<le> sint (of_nat r :: u32)" unfolding n le not_le using assms(7) by (simp only: of_nat_less_iff)
  moreover have "0 < n" using assms(7) by (simp add: word_less_nat_alt)
  ultimately have "aq_try_push (aq_do_push d NIL y) (filled n NIL x r r) = Spin"
    using assms by (simp add: aq_try_push_def aq_do_push_def with_cell_def do_push_atomic_def Let_def aq_index_def
        remap_index_def d_mask_same(1) [OF assms(2)])
  moreover have s: "unat (was_size (filled n NIL x r r)) = r" using r31 le by (simp add: was_size_def unat_of_nat_u32)
  ultimately show ?thesis using assms(7) by (simp add: was_full_def word_le_nat_alt)
qed

text \<open>Property C40: a fixed size that is no power of two (\<open>MINIMIZE_CONTENTION = false\<close>, below \<open>2^31\<close>) breaks at the
  wrap-around of the positions. One caller pushes and pops a new queue until its positions are \<open>2^32 mod SIZE\<close> short of
  the wrap-around and then pushes \<open>2^32 mod SIZE\<close> elements: all calls return, the queue is not full, and the next
  \<open>try_push\<close> waits for a cell that only a pop by another thread empties.\<close>

theorem atomic_queue_odd_size_blocks:
  assumes "1 \<le> unat SIZE" "unat SIZE < 2 ^ 31" "2 ^ 32 mod unat SIZE \<noteq> 0" "x \<noteq> NIL" "y \<noteq> NIL"
    and "d = fixed_derived False throughput total_order spsc SIZE epcl"
  shows "\<exists>rs q'. queue_run (\<lambda>x. aq_try_push (aq_do_push d NIL x)) (aq_try_pop (aq_do_pop d NIL))
        (push_pop_rounds (2 ^ 32 - 2 ^ 32 mod unat SIZE) x @ replicate (2 ^ 32 mod unat SIZE) (Enqueue x))
        (aq_ctor T0 NIL False SIZE) = Ret (rs, q') \<and>
      unat (was_size q') = 2 ^ 32 mod unat SIZE \<and> \<not> was_full q' \<and>
      aq_try_push (aq_do_push d NIL y) q' = Spin"
proof -
  let ?r = "2 ^ 32 mod unat SIZE" and ?run = "queue_run (\<lambda>x. aq_try_push (aq_do_push d NIL x)) (aq_try_pop (aq_do_pop d NIL))"
  let ?q = "filled SIZE NIL x ?r ?r"
  have d: "d_shuffle_bits d = 0" "\<not> d_mask d" using assms(6) by (simp_all add: fixed_derived_def get_index_shuffle_bits_def)
  have r: "?r < unat SIZE" "?r < 2147483648"
    using assms(1,2) mod_less_divisor [of "unat SIZE" "2 ^ 32"] less_trans [of "2 ^ 32 mod unat SIZE" "unat SIZE" "2 ^ 31"] by simp_all
  have c: "aq_ctor T0 NIL False SIZE = moved_on SIZE NIL 0" by (simp add: aq_ctor_def fixed_size_def)
  have "(of_nat (2 ^ 32 - ?r) :: u32) = - of_nat ?r" using r(2) by (simp add: of_nat_diff)
  then obtain rs where rs: "?run (push_pop_rounds (2 ^ 32 - ?r) x) (aq_ctor T0 NIL False SIZE) = Ret (rs, filled SIZE NIL x ?r 0)"
    using odd_size_rounds [OF d assms(4,2,1), of "2 ^ 32 - ?r" 0] unfolding c by auto
  obtain rs' where rs': "?run (replicate ?r (Enqueue x)) (filled SIZE NIL x ?r 0) = Ret (rs', ?q)"
    using odd_size_fill [OF d assms(4,2,1) refl, of 0] by auto
  have "?run (push_pop_rounds (2 ^ 32 - ?r) x @ replicate ?r (Enqueue x)) (aq_ctor T0 NIL False SIZE) = Ret (rs @ rs', ?q)"
    unfolding queue_run_append rs run_bind.simps prod.case rs' ..
  moreover have "0 < ?r" using assms(3) by blast
  note odd_size_wrap_blocks [OF d assms(4,5,2) this r(1)]
  ultimately show ?thesis by blast
qed

lemma atomic_queue_odd_size_blocks_witness:
  "\<exists>rs q'. queue_run (\<lambda>x. aq_try_push (aq_do_push (fixed_derived False True False False 3 16) 0 x))
        (aq_try_pop (aq_do_pop (fixed_derived False True False False 3 16) 0))
        (push_pop_rounds (2 ^ 32 - 1) 7 @ [Enqueue 7]) (aq_ctor (0 :: nat) 0 False 3) = Ret (rs, q') \<and>
      aq_try_push (aq_do_push (fixed_derived False True False False 3 16) 0 9) q' = Spin"
  using atomic_queue_odd_size_blocks [of 3 7 "0 :: nat" 9 "fixed_derived False True False False 3 16" True False False 16 0] by auto

end
