(* ===== verification/Atomic_Queue_Conc.thy ===== *)
theory Atomic_Queue_Conc
  imports Atomic_Queue_Properties Transition "HOL-Library.Multiset"
begin

text \<open>
  \<open>AtomicQueue\<close> and \<open>AtomicQueueB\<close> (not SPSC) used by \<open>N\<close> threads at once: every access to \<open>head_\<close>,
  \<open>tail_\<close> and to a cell is one atomic step (sequentially consistent memory). The control point of a
  thread inside an operation carries its local variables. The multisets \<open>aqc_in\<close> and \<open>aqc_out\<close> are
  history variables: the elements of all claimed pushes, and those returned by completed pops.
\<close>

datatype 'a aq_pc =
    AqIdle
  | AqTryPush 'a u32
  | AqPushCas 'a u32
  | AqPushing 'a u32
  | AqTryPop u32
  | AqPopCas u32
  | AqPopping u32

record 'a aqc_state =
  aqc_head :: u32
  aqc_tail :: u32
  aqc_cells :: "u32 \<Rightarrow> 'a"
  aqc_pc :: "nat \<Rightarrow> 'a aq_pc"
  aqc_in :: "'a multiset"
  aqc_out :: "'a multiset"

definition aqc_init :: "'a \<Rightarrow> 'a aqc_state \<Rightarrow> bool" where
  "aqc_init NIL s \<longleftrightarrow> aqc_head s = 0 \<and> aqc_tail s = 0 \<and> aqc_cells s = (\<lambda>_. NIL) \<and> aqc_pc s = (\<lambda>_. AqIdle) \<and>
     aqc_in s = {#} \<and> aqc_out s = {#}"

text \<open>\<open>try_push\<close>: load, test, exchange (which reloads on failure), then \<open>do_push\<close>; \<open>push\<close> claims at
  once. A failed test returns false. The waiting rounds of the loops change nothing and are left out.\<close>

inductive aqc_step :: "nat \<Rightarrow> derived \<Rightarrow> u32 \<Rightarrow> 'a \<Rightarrow> 'a aqc_state \<Rightarrow> 'a aqc_state \<Rightarrow> bool" for N d sz NIL where
  aqc_try_push: "aqc_step N d sz NIL s (s\<lparr>aqc_pc := (aqc_pc s)(t := AqTryPush x (aqc_head s))\<rparr>)"
    if "t < N" "aqc_pc s t = AqIdle" "x \<noteq> NIL"
| aqc_push_full: "aqc_step N d sz NIL s (s\<lparr>aqc_pc := (aqc_pc s)(t := AqIdle)\<rparr>)"
    if "t < N" "aqc_pc s t = AqTryPush x h" "sint sz \<le> sint (h - aqc_tail s)"
| aqc_push_test: "aqc_step N d sz NIL s (s\<lparr>aqc_pc := (aqc_pc s)(t := AqPushCas x h)\<rparr>)"
    if "t < N" "aqc_pc s t = AqTryPush x h" "\<not> sint sz \<le> sint (h - aqc_tail s)"
| aqc_push_cas: "aqc_step N d sz NIL s (s\<lparr>aqc_head := h + 1, aqc_pc := (aqc_pc s)(t := AqPushing x h), aqc_in := add_mset x (aqc_in s)\<rparr>)"
    if "t < N" "aqc_pc s t = AqPushCas x h" "aqc_head s = h"
| aqc_push_retry: "aqc_step N d sz NIL s (s\<lparr>aqc_pc := (aqc_pc s)(t := AqTryPush x (aqc_head s))\<rparr>)"
    if "t < N" "aqc_pc s t = AqPushCas x h" "aqc_head s \<noteq> h"
| aqc_push: "aqc_step N d sz NIL s (s\<lparr>aqc_head := aqc_head s + 1, aqc_pc := (aqc_pc s)(t := AqPushing x (aqc_head s)), aqc_in := add_mset x (aqc_in s)\<rparr>)"
    if "t < N" "aqc_pc s t = AqIdle" "x \<noteq> NIL"
| aqc_do_push: "aqc_step N d sz NIL s (s\<lparr>aqc_cells := (aqc_cells s)(aq_index d sz h := x), aqc_pc := (aqc_pc s)(t := AqIdle)\<rparr>)"
    if "t < N" "aqc_pc s t = AqPushing x h" "aqc_cells s (aq_index d sz h) = NIL"
| aqc_try_pop: "aqc_step N d sz NIL s (s\<lparr>aqc_pc := (aqc_pc s)(t := AqTryPop (aqc_tail s))\<rparr>)"
    if "t < N" "aqc_pc s t = AqIdle"
| aqc_pop_empty: "aqc_step N d sz NIL s (s\<lparr>aqc_pc := (aqc_pc s)(t := AqIdle)\<rparr>)"
    if "t < N" "aqc_pc s t = AqTryPop p" "sint (aqc_head s - p) \<le> 0"
| aqc_pop_test: "aqc_step N d sz NIL s (s\<lparr>aqc_pc := (aqc_pc s)(t := AqPopCas p)\<rparr>)"
    if "t < N" "aqc_pc s t = AqTryPop p" "\<not> sint (aqc_head s - p) \<le> 0"
| aqc_pop_cas: "aqc_step N d sz NIL s (s\<lparr>aqc_tail := p + 1, aqc_pc := (aqc_pc s)(t := AqPopping p)\<rparr>)"
    if "t < N" "aqc_pc s t = AqPopCas p" "aqc_tail s = p"
| aqc_pop_retry: "aqc_step N d sz NIL s (s\<lparr>aqc_pc := (aqc_pc s)(t := AqTryPop (aqc_tail s))\<rparr>)"
    if "t < N" "aqc_pc s t = AqPopCas p" "aqc_tail s \<noteq> p"
| aqc_pop: "aqc_step N d sz NIL s (s\<lparr>aqc_tail := aqc_tail s + 1, aqc_pc := (aqc_pc s)(t := AqPopping (aqc_tail s))\<rparr>)"
    if "t < N" "aqc_pc s t = AqIdle"
| aqc_do_pop: "aqc_step N d sz NIL s (s\<lparr>aqc_cells := (aqc_cells s)(aq_index d sz p := NIL), aqc_pc := (aqc_pc s)(t := AqIdle),
      aqc_out := add_mset x (aqc_out s)\<rparr>)"
    if "t < N" "aqc_pc s t = AqPopping p" "aqc_cells s (aq_index d sz p) = x" "x \<noteq> NIL"

section \<open>Conservation\<close>

text \<open>The elements a thread carries, the elements in the cells, and the claimed pops under way.\<close>

fun aq_hand :: "'a aq_pc \<Rightarrow> 'a multiset" where
  "aq_hand (AqPushing x h) = {#x#}"
| "aq_hand _ = {#}"

fun aq_taking :: "'a aq_pc \<Rightarrow> nat" where
  "aq_taking (AqPopping p) = 1"
| "aq_taking _ = 0"

fun aq_nonnil :: "'a \<Rightarrow> 'a aq_pc \<Rightarrow> bool" where
  "aq_nonnil NIL (AqTryPush x h) = (x \<noteq> NIL)"
| "aq_nonnil NIL (AqPushCas x h) = (x \<noteq> NIL)"
| "aq_nonnil NIL (AqPushing x h) = (x \<noteq> NIL)"
| "aq_nonnil NIL _ = True"

definition cell_content :: "'a \<Rightarrow> 'a \<Rightarrow> 'a multiset" where
  "cell_content NIL c = (if c = NIL then {#} else {#c#})"

definition aqc_hands :: "nat \<Rightarrow> 'a aqc_state \<Rightarrow> 'a multiset" where
  "aqc_hands N s = (\<Sum>t<N. aq_hand (aqc_pc s t))"

definition aqc_stored :: "'a \<Rightarrow> 'a aqc_state \<Rightarrow> 'a multiset" where
  "aqc_stored NIL s = (\<Sum>i\<in>UNIV. cell_content NIL (aqc_cells s i))"

definition aqc_takers :: "nat \<Rightarrow> 'a aqc_state \<Rightarrow> nat" where
  "aqc_takers N s = (\<Sum>t<N. aq_taking (aqc_pc s t))"

definition aqc_inv :: "nat \<Rightarrow> 'a \<Rightarrow> 'a aqc_state \<Rightarrow> bool" where
  "aqc_inv N NIL s \<longleftrightarrow> aqc_in s = aqc_out s + aqc_hands N s + aqc_stored NIL s \<and>
     aqc_head s = of_nat (size (aqc_in s)) \<and> aqc_tail s = of_nat (size (aqc_out s) + aqc_takers N s) \<and>
     (\<forall>t. aq_nonnil NIL (aqc_pc s t))"

lemma aqc_hands_upd: "t < N \<Longrightarrow> aqc_pc s' = (aqc_pc s)(t := c) \<Longrightarrow>
    aqc_hands N s' + aq_hand (aqc_pc s t) = aqc_hands N s + aq_hand c"
  unfolding aqc_hands_def by (simp only:) (rule sum_fun_upd; simp)

lemma aqc_takers_upd: "t < N \<Longrightarrow> aqc_pc s' = (aqc_pc s)(t := c) \<Longrightarrow>
    aqc_takers N s' + aq_taking (aqc_pc s t) = aqc_takers N s + aq_taking c"
  unfolding aqc_takers_def by (simp only:) (rule sum_fun_upd; simp)

lemma aqc_stored_upd: "aqc_cells s' = (aqc_cells s)(k := c) \<Longrightarrow>
    aqc_stored NIL s' + cell_content NIL (aqc_cells s k) = aqc_stored NIL s + cell_content NIL c"
  unfolding aqc_stored_def by (simp only:) (rule sum_fun_upd; simp)

lemma aqc_stored_same: "aqc_cells s' = aqc_cells s \<Longrightarrow> aqc_stored NIL s' = aqc_stored NIL s"
  by (simp add: aqc_stored_def)

lemma aqc_inv_pc:
  assumes "aqc_inv N NIL s" "t < N" "aq_hand c = aq_hand (aqc_pc s t)" "aq_taking c = aq_taking (aqc_pc s t)" "aq_nonnil NIL c"
  shows "aqc_inv N NIL (s\<lparr>aqc_pc := (aqc_pc s)(t := c)\<rparr>)"
proof -
  let ?s = "s\<lparr>aqc_pc := (aqc_pc s)(t := c)\<rparr>"
  have "aqc_hands N ?s = aqc_hands N s" "aqc_takers N ?s = aqc_takers N s" "aqc_stored NIL ?s = aqc_stored NIL s"
    using aqc_hands_upd [of t N ?s s c] aqc_takers_upd [of t N ?s s c] aqc_stored_same [of ?s s NIL] assms(2-4) by simp_all
  then show ?thesis using assms(1,5) by (simp add: aqc_inv_def)
qed

text \<open>A claimed push: the element is now in the hands of the thread.\<close>

lemma aqc_inv_claim:
  assumes "aqc_inv N NIL s" "t < N" "aq_hand (aqc_pc s t) = {#}" "aq_taking (aqc_pc s t) = 0" "x \<noteq> NIL" "h = aqc_head s"
  shows "aqc_inv N NIL (s\<lparr>aqc_head := h + 1, aqc_pc := (aqc_pc s)(t := AqPushing x h), aqc_in := add_mset x (aqc_in s)\<rparr>)"
proof -
  let ?s = "s\<lparr>aqc_head := h + 1, aqc_pc := (aqc_pc s)(t := AqPushing x h), aqc_in := add_mset x (aqc_in s)\<rparr>"
  have "aqc_hands N ?s = add_mset x (aqc_hands N s)" "aqc_takers N ?s = aqc_takers N s" "aqc_stored NIL ?s = aqc_stored NIL s"
    using aqc_hands_upd [of t N ?s s "AqPushing x h"] aqc_takers_upd [of t N ?s s "AqPushing x h"] aqc_stored_same [of ?s s NIL] assms(2-4)
    by simp_all
  then show ?thesis using assms(1,5,6) by (simp add: aqc_inv_def add.commute)
qed

text \<open>A claimed pop.\<close>

lemma aqc_inv_take:
  assumes "aqc_inv N NIL s" "t < N" "aq_hand (aqc_pc s t) = {#}" "aq_taking (aqc_pc s t) = 0" "p = aqc_tail s"
  shows "aqc_inv N NIL (s\<lparr>aqc_tail := p + 1, aqc_pc := (aqc_pc s)(t := AqPopping p)\<rparr>)"
proof -
  let ?s = "s\<lparr>aqc_tail := p + 1, aqc_pc := (aqc_pc s)(t := AqPopping p)\<rparr>"
  have "aqc_hands N ?s = aqc_hands N s" "aqc_takers N ?s = Suc (aqc_takers N s)" "aqc_stored NIL ?s = aqc_stored NIL s"
    using aqc_hands_upd [of t N ?s s "AqPopping p"] aqc_takers_upd [of t N ?s s "AqPopping p"] aqc_stored_same [of ?s s NIL] assms(2-4)
    by simp_all
  then show ?thesis using assms(1,5) by (simp add: aqc_inv_def add.commute)
qed

lemma aqc_step_inv: "aqc_step N d sz NIL s s' \<Longrightarrow> aqc_inv N NIL s \<Longrightarrow> aqc_inv N NIL s'"
proof (induction rule: aqc_step.induct)
  case (aqc_push_full t s x h)
  then show ?case by (intro aqc_inv_pc) simp_all
next
  case (aqc_push_test t s x h)
  then have "aq_nonnil NIL (aqc_pc s t)" unfolding aqc_inv_def by blast
  with aqc_push_test show ?case by (intro aqc_inv_pc) simp_all
next
  case (aqc_push_retry t s x h)
  then have "aq_nonnil NIL (aqc_pc s t)" unfolding aqc_inv_def by blast
  with aqc_push_retry show ?case by (intro aqc_inv_pc) simp_all
next
  case (aqc_push_cas t s x h)
  then have "aq_nonnil NIL (aqc_pc s t)" unfolding aqc_inv_def by blast
  with aqc_push_cas show ?case by (intro aqc_inv_claim) simp_all
next
  case (aqc_push t s x)
  then show ?case by (intro aqc_inv_claim) simp_all
next
  case (aqc_do_push t s x h)
  let ?s = "s\<lparr>aqc_cells := (aqc_cells s)(aq_index d sz h := x), aqc_pc := (aqc_pc s)(t := AqIdle)\<rparr>"
  have n: "aq_nonnil NIL (aqc_pc s t)" using aqc_do_push(4) unfolding aqc_inv_def by blast
  have "add_mset x (aqc_hands N ?s) = aqc_hands N s" "aqc_takers N ?s = aqc_takers N s"
    "aqc_stored NIL ?s = add_mset x (aqc_stored NIL s)"
    using aqc_hands_upd [of t N ?s s AqIdle] aqc_takers_upd [of t N ?s s AqIdle]
      aqc_stored_upd [of ?s s "aq_index d sz h" x NIL] aqc_do_push(1-3) n
    by (simp_all add: cell_content_def)
  then show ?case using aqc_do_push(4) by (auto simp: aqc_inv_def)
next
  case (aqc_pop_cas t s p)
  then show ?case by (intro aqc_inv_take) simp_all
next
  case (aqc_pop t s)
  then show ?case by (intro aqc_inv_take) simp_all
next
  case (aqc_do_pop t s p x)
  let ?s = "s\<lparr>aqc_cells := (aqc_cells s)(aq_index d sz p := NIL), aqc_pc := (aqc_pc s)(t := AqIdle), aqc_out := add_mset x (aqc_out s)\<rparr>"
  have "aqc_hands N ?s = aqc_hands N s" "Suc (aqc_takers N ?s) = aqc_takers N s"
    "add_mset x (aqc_stored NIL ?s) = aqc_stored NIL s"
    using aqc_hands_upd [of t N ?s s AqIdle] aqc_takers_upd [of t N ?s s AqIdle]
      aqc_stored_upd [of ?s s "aq_index d sz p" NIL NIL] aqc_do_pop(1-4)
    by (simp_all add: cell_content_def)
  then show ?case using aqc_do_pop(5) by (auto simp: aqc_inv_def simp flip: add_Suc_right)
qed (intro aqc_inv_pc; simp)+

interpretation aqc: transition_system "aqc_init NIL" "aqc_step N d sz NIL" "aqc_inv N NIL" for N d sz and NIL :: 'a
proof unfold_locales
  show "aqc_inv N NIL s" if "aqc_init NIL s" for s :: "'a aqc_state"
    using that by (simp add: aqc_init_def aqc_inv_def aqc_hands_def aqc_takers_def aqc_stored_def cell_content_def)
  show "aqc_inv N NIL s'" if "aqc_inv N NIL s" "aqc_step N d sz NIL s s'" for s s' :: "'a aqc_state"
    by (rule aqc_step_inv [OF that(2,1)])
qed

text \<open>Property C9: whatever the interleaving of any number of threads calling \<open>try_push\<close>, \<open>push\<close>,
  \<open>try_pop\<close> and \<open>pop\<close>, no element is lost, duplicated or invented: the elements pushed are
  those popped, those in the cells and those a thread is about to store; the positions count
  the claims. Once as many pops as pushes have been completed, exactly the pushed elements have been popped.\<close>

theorem atomic_queue_conserves:
  assumes "aqc_init NIL s0" "(aqc_step N d sz NIL)\<^sup>*\<^sup>* s0 s"
  shows "aqc_in s = aqc_out s + aqc_hands N s + aqc_stored NIL s \<and>
    aqc_head s = of_nat (size (aqc_in s)) \<and> aqc_tail s = of_nat (size (aqc_out s) + aqc_takers N s) \<and>
    (size (aqc_out s) = size (aqc_in s) \<longrightarrow> aqc_out s = aqc_in s)"
proof -
  have inv: "aqc_inv N NIL s" by (rule aqc.reach_inv [OF assms])
  have "aqc_out s = aqc_in s" if "size (aqc_out s) = size (aqc_in s)"
  proof -
    have e: "aqc_in s = aqc_out s + (aqc_hands N s + aqc_stored NIL s)" using inv by (simp add: aqc_inv_def add.assoc)
    then have "size (aqc_hands N s + aqc_stored NIL s) = 0" using that by (metis add_cancel_left_right size_union)
    then show ?thesis using e by simp
  qed
  with inv show ?thesis by (simp add: aqc_inv_def)
qed

lemma aq_index_0: "aq_index d sz 0 = 0"
  by (simp add: aq_index_def remap_index_def remap_index_with_mix_def)

lemma atomic_queue_conserves_witness:
  "\<exists>s. (aqc_step 2 (fixed_derived True True False False 16 16) 16 0)\<^sup>*\<^sup>* \<lparr>aqc_head = 0, aqc_tail = 0, aqc_cells = \<lambda>_. 0 :: nat, aqc_pc = \<lambda>_. AqIdle, aqc_in = {#}, aqc_out = {#}\<rparr> s \<and>
     aqc_in s = {#5#} \<and> aqc_out s = aqc_in s"
proof -
  let ?s0 = "\<lparr>aqc_head = 0, aqc_tail = 0, aqc_cells = \<lambda>_. 0 :: nat, aqc_pc = \<lambda>_. AqIdle, aqc_in = {#}, aqc_out = {#}\<rparr>"
  let ?s1 = "?s0\<lparr>aqc_head := aqc_head ?s0 + 1, aqc_pc := (aqc_pc ?s0)(0 := AqPushing 5 (aqc_head ?s0)), aqc_in := add_mset 5 (aqc_in ?s0)\<rparr>"
  let ?s2 = "?s1\<lparr>aqc_tail := aqc_tail ?s1 + 1, aqc_pc := (aqc_pc ?s1)(1 := AqPopping (aqc_tail ?s1))\<rparr>"
  let ?s3 = "?s2\<lparr>aqc_cells := (aqc_cells ?s2)(aq_index (fixed_derived True True False False 16 16) 16 0 := 5), aqc_pc := (aqc_pc ?s2)(0 := AqIdle)\<rparr>"
  let ?s4 = "?s3\<lparr>aqc_cells := (aqc_cells ?s3)(aq_index (fixed_derived True True False False 16 16) 16 0 := 0), aqc_pc := (aqc_pc ?s3)(1 := AqIdle), aqc_out := add_mset 5 (aqc_out ?s3)\<rparr>"
  have "aqc_step 2 (fixed_derived True True False False 16 16) 16 0 ?s0 ?s1" by (rule aqc_step.aqc_push) simp_all
  moreover have "aqc_step 2 (fixed_derived True True False False 16 16) 16 0 ?s1 ?s2" by (rule aqc_step.aqc_pop) simp_all
  moreover have "aqc_step 2 (fixed_derived True True False False 16 16) 16 0 ?s2 ?s3" by (rule aqc_step.aqc_do_push) (simp_all add: aq_index_0)
  moreover have "aqc_step 2 (fixed_derived True True False False 16 16) 16 0 ?s3 ?s4" by (rule aqc_step.aqc_do_pop) (simp_all add: aq_index_0)
  ultimately have r: "(aqc_step 2 (fixed_derived True True False False 16 16) 16 0)\<^sup>*\<^sup>* ?s0 ?s4"
    by (meson converse_rtranclp_into_rtranclp rtranclp.rtrancl_refl)
  have i: "aqc_init 0 ?s0" by (simp add: aqc_init_def)
  have "size (aqc_out ?s4) = size (aqc_in ?s4) \<longrightarrow> aqc_out ?s4 = aqc_in ?s4"
    using atomic_queue_conserves [OF i r] by blast
  then have "aqc_out ?s4 = aqc_in ?s4" by (rule mp) simp
  with r show ?thesis by (intro exI [of _ ?s4] conjI) simp_all
qed

end
