(* ===== verification/Atomic_Queue_Conc2.thy ===== *)
theory Atomic_Queue_Conc2
  imports Atomic_Queue_Conc
begin

text \<open>
  \<open>AtomicQueue2\<close> and \<open>AtomicQueueB2\<close> (not SPSC) used by \<open>N\<close> threads at once. The elements are ordinary
  memory, guarded by one state byte per cell (\<open>do_push_any\<close>, \<open>do_pop_any\<close>): an exchange of the
  byte, the access to the element, and the store of the byte are separate steps.
\<close>

datatype 'a as_pc =
    AsIdle
  | AsTryPush 'a u32
  | AsPushCas 'a u32
  | AsPushing 'a u32       \<comment> \<open>state.compare_exchange_strong(EMPTY, STORING)\<close>
  | AsStoring 'a u32       \<comment> \<open>q_element = element\<close>
  | AsStored 'a u32        \<comment> \<open>state.store(STORED)\<close>
  | AsTryPop u32
  | AsPopCas u32
  | AsPopping u32          \<comment> \<open>state.compare_exchange_strong(STORED, LOADING)\<close>
  | AsLoading u32          \<comment> \<open>element = move(q_element)\<close>
  | AsLoaded 'a u32        \<comment> \<open>state.store(EMPTY)\<close>

record 'a as_state =
  as_head :: u32
  as_tail :: u32
  as_states :: "u32 \<Rightarrow> cell_state"
  as_elems :: "u32 \<Rightarrow> 'a"
  as_pc :: "nat \<Rightarrow> 'a as_pc"
  as_in :: "'a multiset"
  as_out :: "'a multiset"

definition as_init :: "'a as_state \<Rightarrow> bool" where
  "as_init s \<longleftrightarrow> as_head s = 0 \<and> as_tail s = 0 \<and> as_states s = (\<lambda>_. EMPTY) \<and> as_pc s = (\<lambda>_. AsIdle) \<and>
     as_in s = {#} \<and> as_out s = {#}"

abbreviation as_goto :: "nat \<Rightarrow> 'a as_pc \<Rightarrow> 'a as_state \<Rightarrow> 'a as_state" where
  "as_goto t c s \<equiv> s\<lparr>as_pc := (as_pc s)(t := c)\<rparr>"

text \<open>One step of thread \<open>t\<close>. The last argument of \<open>AsStoring\<close>, \<open>AsStored\<close>, \<open>AsLoading\<close> and \<open>AsLoaded\<close>
  is the cell. \<open>y\<close> is what moving from an element leaves behind.\<close>

inductive as_thread :: "derived \<Rightarrow> u32 \<Rightarrow> nat \<Rightarrow> 'a as_state \<Rightarrow> 'a as_state \<Rightarrow> bool" for d sz t where
  as_try_push: "as_thread d sz t s (as_goto t (AsTryPush x (as_head s)) s)"
    if "as_pc s t = AsIdle"
| as_push_full: "as_thread d sz t s (as_goto t AsIdle s)"
    if "as_pc s t = AsTryPush x h" "sint sz \<le> sint (h - as_tail s)"
| as_push_test: "as_thread d sz t s (as_goto t (AsPushCas x h) s)"
    if "as_pc s t = AsTryPush x h" "\<not> sint sz \<le> sint (h - as_tail s)"
| as_push_cas: "as_thread d sz t s (as_goto t (AsPushing x h) (s\<lparr>as_head := h + 1, as_in := add_mset x (as_in s)\<rparr>))"
    if "as_pc s t = AsPushCas x h" "as_head s = h"
| as_push_retry: "as_thread d sz t s (as_goto t (AsTryPush x (as_head s)) s)"
    if "as_pc s t = AsPushCas x h" "as_head s \<noteq> h"
| as_push: "as_thread d sz t s (as_goto t (AsPushing x (as_head s)) (s\<lparr>as_head := as_head s + 1, as_in := add_mset x (as_in s)\<rparr>))"
    if "as_pc s t = AsIdle"
| as_storing: "as_thread d sz t s (as_goto t (AsStoring x k) (s\<lparr>as_states := (as_states s)(k := STORING)\<rparr>))"
    if "as_pc s t = AsPushing x h" "k = aq_index d sz h" "as_states s k = EMPTY"
| as_store: "as_thread d sz t s (as_goto t (AsStored x k) (s\<lparr>as_elems := (as_elems s)(k := x)\<rparr>))"
    if "as_pc s t = AsStoring x k"
| as_stored: "as_thread d sz t s (as_goto t AsIdle (s\<lparr>as_states := (as_states s)(k := STORED)\<rparr>))"
    if "as_pc s t = AsStored x k"
| as_try_pop: "as_thread d sz t s (as_goto t (AsTryPop (as_tail s)) s)"
    if "as_pc s t = AsIdle"
| as_pop_empty: "as_thread d sz t s (as_goto t AsIdle s)"
    if "as_pc s t = AsTryPop p" "sint (as_head s - p) \<le> 0"
| as_pop_test: "as_thread d sz t s (as_goto t (AsPopCas p) s)"
    if "as_pc s t = AsTryPop p" "\<not> sint (as_head s - p) \<le> 0"
| as_pop_cas: "as_thread d sz t s (as_goto t (AsPopping p) (s\<lparr>as_tail := p + 1\<rparr>))"
    if "as_pc s t = AsPopCas p" "as_tail s = p"
| as_pop_retry: "as_thread d sz t s (as_goto t (AsTryPop (as_tail s)) s)"
    if "as_pc s t = AsPopCas p" "as_tail s \<noteq> p"
| as_pop: "as_thread d sz t s (as_goto t (AsPopping (as_tail s)) (s\<lparr>as_tail := as_tail s + 1\<rparr>))"
    if "as_pc s t = AsIdle"
| as_loading: "as_thread d sz t s (as_goto t (AsLoading k) (s\<lparr>as_states := (as_states s)(k := LOADING)\<rparr>))"
    if "as_pc s t = AsPopping p" "k = aq_index d sz p" "as_states s k = STORED"
| as_load: "as_thread d sz t s (as_goto t (AsLoaded (as_elems s k) k) (s\<lparr>as_elems := (as_elems s)(k := y)\<rparr>))"
    if "as_pc s t = AsLoading k"
| as_loaded: "as_thread d sz t s (as_goto t AsIdle (s\<lparr>as_states := (as_states s)(k := EMPTY), as_out := add_mset x (as_out s)\<rparr>))"
    if "as_pc s t = AsLoaded x k"

definition as_step :: "nat \<Rightarrow> derived \<Rightarrow> u32 \<Rightarrow> 'a as_state \<Rightarrow> 'a as_state \<Rightarrow> bool" where
  "as_step N d sz s s' \<longleftrightarrow> (\<exists>t<N. as_thread d sz t s s')"

section \<open>Ownership of cells\<close>

text \<open>The cell a thread has taken, with the state byte that goes with it.\<close>

fun as_owns :: "'a as_pc \<Rightarrow> (u32 \<times> cell_state) option" where
  "as_owns (AsStoring x k) = Some (k, STORING)"
| "as_owns (AsStored x k) = Some (k, STORING)"
| "as_owns (AsLoading k) = Some (k, LOADING)"
| "as_owns (AsLoaded x k) = Some (k, LOADING)"
| "as_owns _ = None"

definition as_owned :: "'a as_state \<Rightarrow> bool" where
  "as_owned s \<longleftrightarrow> (\<forall>t k b. as_owns (as_pc s t) = Some (k, b) \<longrightarrow> as_states s k = b) \<and>
     (\<forall>t u k b b'. as_owns (as_pc s t) = Some (k, b) \<longrightarrow> as_owns (as_pc s u) = Some (k, b') \<longrightarrow> t = u) \<and>
     (\<forall>t x k. as_pc s t = AsStored x k \<longrightarrow> as_elems s k = x)"

lemma as_ownedD:
  assumes "as_owned s"
  shows "as_owns (as_pc s t) = Some (k, b) \<Longrightarrow> as_states s k = b"
    "as_owns (as_pc s t) = Some (k, b) \<Longrightarrow> as_owns (as_pc s u) = Some (k, b') \<Longrightarrow> t = u"
    "as_pc s t = AsStored x k \<Longrightarrow> as_elems s k = x"
  using assms unfolding as_owned_def by blast+

lemma as_owned_goto:
  assumes "as_owned s" "as_owns p = None"
  shows "as_owned (as_goto t p s)"
  using assms as_ownedD [OF assms(1)] by (cases p) (auto simp: as_owned_def)

lemma as_owned_frame [simp]:
  "as_owned (s\<lparr>as_head := h\<rparr>) = as_owned s" "as_owned (s\<lparr>as_tail := h\<rparr>) = as_owned s"
  "as_owned (s\<lparr>as_in := m\<rparr>) = as_owned s" "as_owned (s\<lparr>as_out := m\<rparr>) = as_owned s"
  by (simp_all add: as_owned_def)

lemma as_owned_cong:
  "as_pc s' = as_pc s \<Longrightarrow> as_states s' = as_states s \<Longrightarrow> as_elems s' = as_elems s \<Longrightarrow> as_owned s' = as_owned s"
  by (simp add: as_owned_def)

text \<open>Taking a free cell, working on an owned one, giving it back.\<close>

lemma as_owned_take:
  assumes "as_owned s" "as_states s k \<in> {EMPTY, STORED}" "as_owns p = Some (k, b)" "b \<in> {STORING, LOADING}" "\<And>x. p \<noteq> AsStored x k"
  shows "as_owned (as_goto t p (s\<lparr>as_states := (as_states s)(k := b)\<rparr>))"
proof -
  have other: "as_owns (as_pc s u) \<noteq> Some (k, b')" for u b'
  proof
    assume o: "as_owns (as_pc s u) = Some (k, b')"
    then have "b' \<in> {STORING, LOADING}" by (cases "as_pc s u") auto
    then show False using as_ownedD(1) [OF assms(1) o] assms(2) by auto
  qed
  show ?thesis
    unfolding as_owned_def using as_ownedD [OF assms(1)] assms(3,5) other
    by (auto split: if_splits) (metis as_owns.simps(2) option.inject prod.inject)+
qed

lemma as_owned_work:
  assumes "as_owned s" "as_owns (as_pc s t) = Some (k, b)" "as_owns p = Some (k, b)" "\<And>x. p = AsStored x k \<Longrightarrow> y = x"
  shows "as_owned (as_goto t p (s\<lparr>as_elems := (as_elems s)(k := y)\<rparr>))"
proof -
  have st: "as_states s k = b" by (rule as_ownedD(1) [OF assms(1,2)])
  have other: "as_owns (as_pc s u) \<noteq> Some (k, b')" if "u \<noteq> t" for u b'
    using as_ownedD(2) [OF assms(1) assms(2), of u b'] that by blast
  have own: "k' = k" if "p = AsStored x k'" for x k' using assms(3) that by simp
  show ?thesis
    unfolding as_owned_def
  proof (intro conjI allI impI)
    let ?s = "as_goto t p (s\<lparr>as_elems := (as_elems s)(k := y)\<rparr>)"
    show "as_states ?s k' = b'" if "as_owns (as_pc ?s u) = Some (k', b')" for u k' b'
      using that as_ownedD(1) [OF assms(1), of u k' b'] assms(3) st by (cases "u = t") auto
    show "u = w" if "as_owns (as_pc ?s u) = Some (k', b')" "as_owns (as_pc ?s w) = Some (k', b'')" for u w k' b' b''
      using that as_ownedD(2) [OF assms(1), of u k' b' w b''] assms(3) other [of u b'] other [of w b'']
      by (cases "u = t"; cases "w = t") auto
    show "as_elems ?s k' = x" if "as_pc ?s u = AsStored x k'" for u x k'
    proof (cases "u = t")
      case True
      then show ?thesis using that own assms(4) by auto
    next
      case False
      then have "as_owns (as_pc s u) = Some (k', STORING)" using that by simp
      then have "k' \<noteq> k" using other [OF False, of STORING] by auto
      then show ?thesis using that False as_ownedD(3) [OF assms(1), of u x k'] by simp
    qed
  qed
qed

lemma as_owned_give:
  assumes "as_owned s" "as_owns (as_pc s t) = Some (k, b)" "as_owns p = None"
  shows "as_owned (as_goto t p (s\<lparr>as_states := (as_states s)(k := b')\<rparr>))"
proof -
  have other: "as_owns (as_pc s u) \<noteq> Some (k, c)" if "u \<noteq> t" for u c
    using as_ownedD(2) [OF assms(1) assms(2), of u c] that by blast
  show ?thesis
    unfolding as_owned_def
  proof (intro conjI allI impI)
    let ?s = "as_goto t p (s\<lparr>as_states := (as_states s)(k := b')\<rparr>)"
    show "as_states ?s k' = c" if "as_owns (as_pc ?s u) = Some (k', c)" for u k' c
      using that as_ownedD(1) [OF assms(1), of u k' c] assms(3) other [of u c] by (cases "u = t") auto
    show "u = w" if "as_owns (as_pc ?s u) = Some (k', c)" "as_owns (as_pc ?s w) = Some (k', c')" for u w k' c c'
      using that as_ownedD(2) [OF assms(1), of u k' c w c'] assms(3) by (cases "u = t"; cases "w = t") auto
    show "as_elems ?s k' = x" if "as_pc ?s u = AsStored x k'" for u x k'
      using that as_ownedD(3) [OF assms(1), of u x k'] assms(3) by (cases "u = t") auto
  qed
qed

section \<open>Conservation\<close>

fun as_hand :: "(u32 \<Rightarrow> 'a) \<Rightarrow> 'a as_pc \<Rightarrow> 'a multiset" where
  "as_hand e (AsPushing x h) = {#x#}"
| "as_hand e (AsStoring x k) = {#x#}"
| "as_hand e (AsStored x k) = {#x#}"
| "as_hand e (AsLoading k) = {#e k#}"
| "as_hand e (AsLoaded x k) = {#x#}"
| "as_hand e _ = {#}"

fun as_taking :: "'a as_pc \<Rightarrow> nat" where
  "as_taking (AsPopping p) = 1"
| "as_taking (AsLoading k) = 1"
| "as_taking (AsLoaded x k) = 1"
| "as_taking _ = 0"

definition as_hands :: "nat \<Rightarrow> 'a as_state \<Rightarrow> 'a multiset" where
  "as_hands N s = (\<Sum>t<N. as_hand (as_elems s) (as_pc s t))"

definition as_takers :: "nat \<Rightarrow> 'a as_state \<Rightarrow> nat" where
  "as_takers N s = (\<Sum>t<N. as_taking (as_pc s t))"

definition stored_in :: "cell_state \<Rightarrow> 'a \<Rightarrow> 'a multiset" where
  "stored_in b x = (if b = STORED then {#x#} else {#})"

definition as_stored :: "'a as_state \<Rightarrow> 'a multiset" where
  "as_stored s = (\<Sum>k\<in>UNIV. stored_in (as_states s k) (as_elems s k))"

definition as_inv :: "nat \<Rightarrow> 'a as_state \<Rightarrow> bool" where
  "as_inv N s \<longleftrightarrow> as_owned s \<and> as_in s = as_out s + as_hands N s + as_stored s \<and>
     as_head s = of_nat (size (as_in s)) \<and> as_tail s = of_nat (size (as_out s) + as_takers N s)"

lemma sum_move:
  fixes f g :: "'b \<Rightarrow> 'c :: cancel_comm_monoid_add"
  assumes "finite A" "t \<in> A" "\<And>u. u \<in> A \<Longrightarrow> u \<noteq> t \<Longrightarrow> g u = f u"
  shows "sum g A + f t = sum f A + g t"
proof -
  have "sum g (A - {t}) = sum f (A - {t})" by (rule sum.cong) (use assms(3) in auto)
  then show ?thesis using assms(1,2) by (simp add: sum.remove [of A t] ac_simps)
qed

lemma as_hands_move:
  assumes "t < N" "as_pc s' = (as_pc s)(t := p)" "\<And>u. u \<noteq> t \<Longrightarrow> as_hand (as_elems s') (as_pc s u) = as_hand (as_elems s) (as_pc s u)"
  shows "as_hands N s' + as_hand (as_elems s) (as_pc s t) = as_hands N s + as_hand (as_elems s') p"
  unfolding as_hands_def using assms
    sum_move [of "{..<N}" t "\<lambda>u. as_hand (as_elems s') (as_pc s' u)" "\<lambda>u. as_hand (as_elems s) (as_pc s u)"] by simp

lemma as_takers_move:
  assumes "t < N" "as_pc s' = (as_pc s)(t := p)"
  shows "as_takers N s' + as_taking (as_pc s t) = as_takers N s + as_taking p"
  unfolding as_takers_def using assms
    sum_move [of "{..<N}" t "\<lambda>u. as_taking (as_pc s' u)" "\<lambda>u. as_taking (as_pc s u)"] by simp

lemma as_stored_move:
  assumes "\<And>i. i \<noteq> k \<Longrightarrow> as_states s' i = as_states s i \<and> as_elems s' i = as_elems s i"
  shows "as_stored s' + stored_in (as_states s k) (as_elems s k) = as_stored s + stored_in (as_states s' k) (as_elems s' k)"
  unfolding as_stored_def
  by (rule sum_move [of UNIV k "\<lambda>i. stored_in (as_states s' i) (as_elems s' i)"]) (use assms in auto)

lemma as_stored_same: "as_states s' = as_states s \<Longrightarrow> as_elems s' = as_elems s \<Longrightarrow> as_stored s' = as_stored s"
  by (simp add: as_stored_def)

text \<open>A step that touches neither elements nor state bytes.\<close>

lemma as_inv_plain:
  assumes inv: "as_inv N s" and t: "t < N" and own: "as_owns p = None"
    and s': "as_pc s' = (as_pc s)(t := p)" "as_states s' = as_states s" "as_elems s' = as_elems s" "as_out s' = as_out s"
    and m: "as_in s' + as_hand (as_elems s) (as_pc s t) = as_in s + as_hand (as_elems s) p"
    and ht: "as_head s' = of_nat (size (as_in s'))" "as_tail s' + of_nat (as_taking (as_pc s t)) = as_tail s + of_nat (as_taking p)"
  shows "as_inv N s'"
proof -
  have I: "as_owned s" "as_in s = as_out s + as_hands N s + as_stored s" "as_tail s = of_nat (size (as_out s) + as_takers N s)"
    using inv by (simp_all add: as_inv_def)
  have "as_owned s'"
    using as_owned_goto [OF I(1) own, of t] as_owned_cong [of s' "as_goto t p s"] s' by simp
  moreover have h: "as_hands N s' + as_hand (as_elems s) (as_pc s t) = as_hands N s + as_hand (as_elems s) p"
    using as_hands_move [OF t s'(1)] s'(3) by simp
  moreover have "as_in s' = as_out s' + as_hands N s' + as_stored s'"
  proof -
    have "as_in s' + as_hand (as_elems s) (as_pc s t) = as_out s + (as_hands N s + as_hand (as_elems s) p) + as_stored s"
      unfolding m I(2) by (simp add: ac_simps)
    also have "\<dots> = (as_out s + as_hands N s' + as_stored s) + as_hand (as_elems s) (as_pc s t)"
      unfolding h [symmetric] by (simp add: ac_simps)
    finally show ?thesis using s' as_stored_same [of s' s] by simp
  qed
  moreover have "as_tail s' = of_nat (size (as_out s') + as_takers N s')"
  proof -
    have "(of_nat (as_takers N s' + as_taking (as_pc s t)) :: u32) = of_nat (as_takers N s + as_taking p)"
      using as_takers_move [OF t s'(1)] by simp
    then have "as_tail s' + of_nat (as_taking (as_pc s t)) = of_nat (size (as_out s) + as_takers N s') + of_nat (as_taking (as_pc s t))"
      unfolding ht(2) I(3) by (simp add: ac_simps)
    then show ?thesis by (simp add: s'(4))
  qed
  ultimately show ?thesis using ht(1) by (simp add: as_inv_def)
qed

text \<open>A step on one cell.\<close>

lemma as_inv_cell:
  assumes inv: "as_inv N s" and t: "t < N" and own: "as_owned s'"
    and s': "as_pc s' = (as_pc s)(t := p)" "as_in s' = as_in s" "as_head s' = as_head s" "as_tail s' = as_tail s"
    and cell: "\<And>i. i \<noteq> k \<Longrightarrow> as_states s' i = as_states s i \<and> as_elems s' i = as_elems s i"
    and others: "as_elems s' = as_elems s \<or> (\<exists>b. as_owns (as_pc s t) = Some (k, b))"
    and m: "as_out s' + as_hand (as_elems s') p + stored_in (as_states s' k) (as_elems s' k) =
      as_out s + as_hand (as_elems s) (as_pc s t) + stored_in (as_states s k) (as_elems s k)"
    and tk: "size (as_out s') + as_taking p = size (as_out s) + as_taking (as_pc s t)"
  shows "as_inv N s'"
proof -
  have I: "as_owned s" "as_in s = as_out s + as_hands N s + as_stored s" "as_head s = of_nat (size (as_in s))"
    "as_tail s = of_nat (size (as_out s) + as_takers N s)"
    using inv by (simp_all add: as_inv_def)
  have same: "as_hand (as_elems s') (as_pc s u) = as_hand (as_elems s) (as_pc s u)" if "u \<noteq> t" for u
  proof (cases "as_pc s u")
    case (AsLoading i)
    then have "as_owns (as_pc s u) = Some (i, LOADING)" by simp
    then have "i \<noteq> k \<or> as_elems s' = as_elems s" using others as_ownedD(2) [OF I(1)] that by metis
    then show ?thesis using AsLoading cell [of i] by auto
  qed simp_all
  have h: "as_hands N s' + as_hand (as_elems s) (as_pc s t) = as_hands N s + as_hand (as_elems s') p"
    using as_hands_move [OF t s'(1) same] by simp
  have st: "as_stored s' + stored_in (as_states s k) (as_elems s k) = as_stored s + stored_in (as_states s' k) (as_elems s' k)"
    using as_stored_move [OF cell] by simp
  define A B where "A = as_hand (as_elems s) (as_pc s t)" and "B = stored_in (as_states s k) (as_elems s k)"
  have "as_out s' + as_hands N s' + as_stored s' + A + B =
      (as_out s' + as_hand (as_elems s') p + stored_in (as_states s' k) (as_elems s' k)) + as_hands N s + as_stored s"
    using h st unfolding A_def [symmetric] B_def [symmetric] by (metis (no_types, lifting) add.assoc add.commute)
  also have "\<dots> = as_in s + A + B" unfolding m I(2) A_def B_def by (simp add: ac_simps)
  finally have "as_in s' = as_out s' + as_hands N s' + as_stored s'" using s'(2) by simp
  moreover have "size (as_out s') + as_takers N s' = size (as_out s) + as_takers N s"
    using as_takers_move [OF t s'(1)] tk by linarith
  ultimately show ?thesis using own I(3,4) s'(2-4) by (simp add: as_inv_def)
qed

lemma as_thread_inv:
  assumes step: "as_thread d sz t s s'" and t: "t < N" and inv: "as_inv N s"
  shows "as_inv N s'"
proof -
  have own: "as_owned s" and hd: "as_head s = of_nat (size (as_in s))" using inv by (simp_all add: as_inv_def)
  show ?thesis
    using step
  proof cases
    case (as_storing x h k)
    then show ?thesis
      using as_owned_take [OF own, of k "AsStoring x k" STORING t]
      by (intro as_inv_cell [OF inv t, of s' "AsStoring x k" k]) (simp_all add: stored_in_def)
  next
    case (as_store x k)
    then have "as_states s k = STORING" using as_ownedD(1) [OF own, of t k STORING] by simp
    then show ?thesis
      using as_store as_owned_work [OF own, of t k STORING "AsStored x k" x]
      by (intro as_inv_cell [OF inv t, of s' "AsStored x k" k]) (simp_all add: stored_in_def)
  next
    case (as_stored x k)
    then have "as_states s k = STORING" "as_elems s k = x"
      using as_ownedD(1) [OF own, of t k STORING] as_ownedD(3) [OF own, of t x k] by simp_all
    then show ?thesis
      using as_stored as_owned_give [OF own, of t k STORING AsIdle STORED]
      by (intro as_inv_cell [OF inv t, of s' AsIdle k]) (simp_all add: stored_in_def)
  next
    case (as_loading p k)
    then show ?thesis
      using as_owned_take [OF own, of k "AsLoading k" LOADING t]
      by (intro as_inv_cell [OF inv t, of s' "AsLoading k" k]) (simp_all add: stored_in_def)
  next
    case (as_load k y)
    then have "as_states s k = LOADING" using as_ownedD(1) [OF own, of t k LOADING] by simp
    then show ?thesis
      using as_load as_owned_work [OF own, of t k LOADING "AsLoaded (as_elems s k) k" y]
      by (intro as_inv_cell [OF inv t, of s' "AsLoaded (as_elems s k) k" k]) (simp_all add: stored_in_def)
  next
    case (as_loaded x k)
    then have st: "as_states s k = LOADING" using as_ownedD(1) [OF own, of t k LOADING] by simp
    have "as_owned (as_goto t AsIdle (s\<lparr>as_states := (as_states s)(k := EMPTY)\<rparr>))"
      using as_owned_give [OF own, of t k LOADING AsIdle EMPTY] as_loaded by simp
    then have "as_owned s'" using as_owned_cong [of s' "as_goto t AsIdle (s\<lparr>as_states := (as_states s)(k := EMPTY)\<rparr>)"] as_loaded by simp
    then show ?thesis
      using as_loaded st by (intro as_inv_cell [OF inv t, of s' AsIdle k]) (simp_all add: stored_in_def)
  next
    case (as_push_cas x h)
    then show ?thesis using hd by (intro as_inv_plain [OF inv t, of "AsPushing x h"]) simp_all
  next
    case (as_push x)
    then show ?thesis using hd by (intro as_inv_plain [OF inv t, of "AsPushing x (as_head s)"]) simp_all
  next
    case (as_pop_cas p)
    then show ?thesis using hd by (intro as_inv_plain [OF inv t, of "AsPopping p"]) simp_all
  next
    case as_pop
    then show ?thesis using hd by (intro as_inv_plain [OF inv t, of "AsPopping (as_tail s)"]) simp_all
  next
    case (as_try_push x)
    then show ?thesis using hd by (intro as_inv_plain [OF inv t, of "AsTryPush x (as_head s)"]) simp_all
  next
    case (as_push_full x h)
    then show ?thesis using hd by (intro as_inv_plain [OF inv t, of AsIdle]) simp_all
  next
    case (as_push_test x h)
    then show ?thesis using hd by (intro as_inv_plain [OF inv t, of "AsPushCas x h"]) simp_all
  next
    case (as_push_retry x h)
    then show ?thesis using hd by (intro as_inv_plain [OF inv t, of "AsTryPush x (as_head s)"]) simp_all
  next
    case as_try_pop
    then show ?thesis using hd by (intro as_inv_plain [OF inv t, of "AsTryPop (as_tail s)"]) simp_all
  next
    case (as_pop_empty p)
    then show ?thesis using hd by (intro as_inv_plain [OF inv t, of AsIdle]) simp_all
  next
    case (as_pop_test p)
    then show ?thesis using hd by (intro as_inv_plain [OF inv t, of "AsPopCas p"]) simp_all
  next
    case (as_pop_retry p)
    then show ?thesis using hd by (intro as_inv_plain [OF inv t, of "AsTryPop (as_tail s)"]) simp_all
  qed
qed

interpretation asq: transition_system as_init "as_step N d sz" "as_inv N" for N d sz
proof unfold_locales
  show "as_inv N s" if "as_init s" for s :: "'a as_state"
    using that by (simp add: as_init_def as_inv_def as_owned_def as_hands_def as_takers_def as_stored_def stored_in_def)
  show "as_inv N s'" if "as_inv N s" "as_step N d sz s s'" for s s' :: "'a as_state"
    using that as_thread_inv unfolding as_step_def by blast
qed

text \<open>Property C10: with the state bytes of \<open>AtomicQueue2\<close> and \<open>AtomicQueueB2\<close>, no two threads ever access the
  same element at once, although the elements are not atomic, and no element is lost, duplicated or invented: those pushed are
  those popped, those stored in a cell and those in the hands of a thread; the positions count the claims.\<close>

theorem atomic_queue2_conserves:
  assumes "as_init s0" "(as_step N d sz)\<^sup>*\<^sup>* s0 s"
  shows "(\<forall>t u k b b'. as_owns (as_pc s t) = Some (k, b) \<and> as_owns (as_pc s u) = Some (k, b') \<longrightarrow> t = u) \<and>
    as_in s = as_out s + as_hands N s + as_stored s \<and>
    as_head s = of_nat (size (as_in s)) \<and> as_tail s = of_nat (size (as_out s) + as_takers N s)"
  using asq.reach_inv [OF assms] unfolding as_inv_def as_owned_def by blast

lemma atomic_queue2_conserves_witness:
  "\<exists>s. (as_step 2 (fixed_derived True True False False 16 16) 16)\<^sup>*\<^sup>* \<lparr>as_head = 0, as_tail = 0, as_states = \<lambda>_. EMPTY,
       as_elems = \<lambda>_. 0 :: nat, as_pc = \<lambda>_. AsIdle, as_in = {#}, as_out = {#}\<rparr> s \<and>
     as_pc s 0 = AsStored 5 0 \<and> as_pc s 1 = AsPopping 0 \<and> as_in s = as_out s + as_hands 2 s + as_stored s"
proof -
  let ?d = "fixed_derived True True False False 16 16"
  let ?s0 = "\<lparr>as_head = 0, as_tail = 0, as_states = \<lambda>_. EMPTY, as_elems = \<lambda>_. 0 :: nat, as_pc = \<lambda>_. AsIdle, as_in = {#}, as_out = {#}\<rparr>"
  let ?s1 = "as_goto 0 (AsPushing 5 (as_head ?s0)) (?s0\<lparr>as_head := as_head ?s0 + 1, as_in := add_mset 5 (as_in ?s0)\<rparr>)"
  let ?s2 = "as_goto 1 (AsPopping (as_tail ?s1)) (?s1\<lparr>as_tail := as_tail ?s1 + 1\<rparr>)"
  let ?s3 = "as_goto 0 (AsStoring 5 0) (?s2\<lparr>as_states := (as_states ?s2)(0 := STORING)\<rparr>)"
  let ?s4 = "as_goto 0 (AsStored 5 0) (?s3\<lparr>as_elems := (as_elems ?s3)(0 := 5)\<rparr>)"
  have "as_thread ?d 16 0 ?s0 ?s1" by (rule as_thread.as_push) simp
  then have "as_step 2 ?d 16 ?s0 ?s1" unfolding as_step_def by (intro exI [of _ 0]) simp
  moreover have "as_thread ?d 16 1 ?s1 ?s2" by (rule as_thread.as_pop) simp
  then have "as_step 2 ?d 16 ?s1 ?s2" unfolding as_step_def by (intro exI [of _ 1]) simp
  moreover have "as_thread ?d 16 0 ?s2 ?s3" by (rule as_thread.as_storing [of _ _ 5 0]) (simp_all add: aq_index_0)
  then have "as_step 2 ?d 16 ?s2 ?s3" unfolding as_step_def by (intro exI [of _ 0]) simp
  moreover have "as_thread ?d 16 0 ?s3 ?s4" by (rule as_thread.as_store) simp
  then have "as_step 2 ?d 16 ?s3 ?s4" unfolding as_step_def by (intro exI [of _ 0]) simp
  ultimately have r: "(as_step 2 ?d 16)\<^sup>*\<^sup>* ?s0 ?s4"
    by (meson converse_rtranclp_into_rtranclp rtranclp.rtrancl_refl)
  have i: "as_init ?s0" by (simp add: as_init_def)
  have "as_in ?s4 = as_out ?s4 + as_hands 2 ?s4 + as_stored ?s4"
    using atomic_queue2_conserves [OF i r] by blast
  with r show ?thesis by (intro exI [of _ ?s4] conjI) simp_all
qed

end
