(* ===== verification/Rte_Ring.thy ===== *)
theory Rte_Ring
  imports Queue_Interface Ring_Window
begin

text \<open>
  queue-bench/rte_ring.h: \<open>RteRing<T, mode, size>\<close>, one caller at a time. \<open>size\<close> is a power of two
  and \<open>mask\<close> is \<open>size - 1\<close>; a cell of \<open>objs_\<close> that was never written is None.
\<close>

datatype rte_status = RTE_RING_OK | RTX_RING_FULL | RTX_RING_NOT_ENOUGH

record 'a rte_ring =
  rt_mp :: bool
  rt_mc :: bool
  rt_mask :: u32
  rt_prod_head :: u32
  rt_prod_tail :: u32
  rt_cons_head :: u32
  rt_cons_tail :: u32
  rt_objs :: "u32 \<Rightarrow> 'a option"

definition rte_ctor :: "bool \<Rightarrow> bool \<Rightarrow> u32 \<Rightarrow> 'a rte_ring" where
  "rte_ctor mp mc sz = \<lparr>rt_mp = mp, rt_mc = mc, rt_mask = sz - 1, rt_prod_head = 0, rt_prod_tail = 0,
     rt_cons_head = 0, rt_cons_tail = 0, rt_objs = \<lambda>_. None\<rparr>"

definition rte_enqueue_sp :: "'a \<Rightarrow> 'a rte_ring \<Rightarrow> rte_status \<times> 'a rte_ring" where
  "rte_enqueue_sp x s =
    (let prod_head = rt_prod_head s; free_entries = rt_mask s + rt_cons_tail s - prod_head
     in if free_entries = 0 then (RTX_RING_FULL, s)
        else let prod_next = prod_head + 1
             in (RTE_RING_OK, s\<lparr>rt_prod_head := prod_next, rt_objs := (rt_objs s)(prod_head AND rt_mask s := Some x),
                               rt_prod_tail := prod_next\<rparr>))"

text \<open>The exchange on \<open>prod_head_\<close> succeeds at once; the wait for \<open>prod_tail_\<close> would need other threads.\<close>

definition rte_enqueue_mp :: "'a \<Rightarrow> 'a rte_ring \<Rightarrow> (rte_status \<times> 'a rte_ring) run" where
  "rte_enqueue_mp x s =
    (let prod_head = rt_prod_head s; free_entries = rt_mask s + rt_cons_tail s - prod_head
     in if free_entries = 0 then Ret (RTX_RING_FULL, s)
        else let prod_next = prod_head + 1;
                 s1 = s\<lparr>rt_prod_head := prod_next, rt_objs := (rt_objs s)(prod_head AND rt_mask s := Some x)\<rparr>
             in if rt_prod_tail s1 \<noteq> prod_head then Spin else Ret (RTE_RING_OK, s1\<lparr>rt_prod_tail := prod_next\<rparr>))"

text \<open>The copy loop of the bulk operations.\<close>

primrec rte_write :: "u32 \<Rightarrow> u32 \<Rightarrow> 'a list \<Rightarrow> (u32 \<Rightarrow> 'a option) \<Rightarrow> (u32 \<Rightarrow> 'a option)" where
  "rte_write m p [] objs = objs"
| "rte_write m p (x # xs) objs = rte_write m (p + 1) xs (objs(p AND m := Some x))"

definition rte_enqueue_sp_bulk :: "u32 \<Rightarrow> 'a list \<Rightarrow> bool \<Rightarrow> 'a rte_ring \<Rightarrow> rte_status \<times> u32 option \<times> 'a rte_ring" where
  "rte_enqueue_sp_bulk n table fixed s =
    (let prod_head = rt_prod_head s; free_entries = rt_mask s + rt_cons_tail s - prod_head
     in if n > free_entries \<and> (fixed \<or> free_entries = 0) then (RTX_RING_FULL, None, s)
        else let n' = min n free_entries; prod_next = prod_head + n'
             in (RTE_RING_OK, Some n', s\<lparr>rt_prod_head := prod_next,
                   rt_objs := rte_write (rt_mask s) prod_head (take (unat n') table) (rt_objs s), rt_prod_tail := prod_next\<rparr>))"

definition rte_enqueue_mp_bulk :: "u32 \<Rightarrow> 'a list \<Rightarrow> bool \<Rightarrow> 'a rte_ring \<Rightarrow> (rte_status \<times> u32 option \<times> 'a rte_ring) run" where
  "rte_enqueue_mp_bulk n table fixed s =
    (let prod_head = rt_prod_head s; free_entries = rt_mask s + rt_cons_tail s - prod_head
     in if n > free_entries \<and> (fixed \<or> free_entries = 0) then Ret (RTX_RING_FULL, None, s)
        else let n' = min n free_entries; prod_next = prod_head + n';
                 s1 = s\<lparr>rt_prod_head := prod_next, rt_objs := rte_write (rt_mask s) prod_head (take (unat n') table) (rt_objs s)\<rparr>
             in if rt_prod_tail s1 \<noteq> prod_head then Spin else Ret (RTE_RING_OK, Some n', s1\<lparr>rt_prod_tail := prod_next\<rparr>))"

text \<open>The dequeue side indexes with \<open>% mask\<close>; with \<open>size = 1\<close> that divides by zero.\<close>

definition rte_dequeue_sc :: "'a rte_ring \<Rightarrow> (rte_status \<times> 'a option \<times> 'a rte_ring) run" where
  "rte_dequeue_sc s =
    (let cons_head = rt_cons_head s; entries = rt_prod_tail s - cons_head
     in if entries = 0 then Ret (RTX_RING_NOT_ENOUGH, None, s)
        else if rt_mask s = 0 then UB
        else let cons_next = cons_head + 1
             in Ret (RTE_RING_OK, rt_objs s (cons_head mod rt_mask s), s\<lparr>rt_cons_head := cons_next, rt_cons_tail := cons_next\<rparr>))"

definition rte_dequeue_mc :: "'a rte_ring \<Rightarrow> (rte_status \<times> 'a option \<times> 'a rte_ring) run" where
  "rte_dequeue_mc s =
    (let cons_head = rt_cons_head s; entries = rt_prod_tail s - cons_head
     in if entries = 0 then Ret (RTX_RING_NOT_ENOUGH, None, s)
        else if rt_mask s = 0 then UB
        else let cons_next = cons_head + 1; s1 = s\<lparr>rt_cons_head := cons_next\<rparr>
             in if rt_cons_tail s1 \<noteq> cons_head then Spin
                else Ret (RTE_RING_OK, rt_objs s (cons_head mod rt_mask s), s1\<lparr>rt_cons_tail := cons_next\<rparr>))"

text \<open>
  Both bulk dequeues begin with \<open>res_n = 0\<close>, which sets the pointer and not the number: the count is
  never reported, whatever the caller passed. The second component is what \<open>*res_n\<close> was set to.
\<close>

definition rte_read :: "u32 \<Rightarrow> u32 \<Rightarrow> nat \<Rightarrow> (u32 \<Rightarrow> 'a option) \<Rightarrow> 'a option list" where
  "rte_read m p n objs = map (\<lambda>i. objs ((p + of_nat i) mod m)) [0..<n]"

definition rte_dequeue_sc_bulk :: "u32 \<Rightarrow> bool \<Rightarrow> 'a rte_ring \<Rightarrow> (rte_status \<times> u32 option \<times> 'a option list \<times> 'a rte_ring) run" where
  "rte_dequeue_sc_bulk n fixed s =
    (let cons_head = rt_cons_head s; entries = rt_prod_tail s - cons_head
     in if n > entries \<and> (fixed \<or> entries = 0) then Ret (RTX_RING_NOT_ENOUGH, None, [], s)
        else let n' = min n entries; cons_next = cons_head + n'
             in if rt_mask s = 0 \<and> n' \<noteq> 0 then UB
                else Ret (RTE_RING_OK, None, rte_read (rt_mask s) cons_head (unat n') (rt_objs s),
                          s\<lparr>rt_cons_head := cons_next, rt_cons_tail := cons_next\<rparr>))"

definition rte_dequeue_mc_bulk :: "u32 \<Rightarrow> bool \<Rightarrow> 'a rte_ring \<Rightarrow> (rte_status \<times> u32 option \<times> 'a option list \<times> 'a rte_ring) run" where
  "rte_dequeue_mc_bulk n fixed s =
    (let cons_head = rt_cons_head s; entries = rt_prod_tail s - cons_head
     in if n > entries \<and> (fixed \<or> entries = 0) then Ret (RTX_RING_NOT_ENOUGH, None, [], s)
        else let n' = min n entries; cons_next = cons_head + n'; s1 = s\<lparr>rt_cons_head := cons_next\<rparr>
             in if rt_mask s = 0 \<and> n' \<noteq> 0 then UB
                else if rt_cons_tail s1 \<noteq> cons_head then Spin
                else Ret (RTE_RING_OK, None, rte_read (rt_mask s) cons_head (unat n') (rt_objs s), s1\<lparr>rt_cons_tail := cons_next\<rparr>))"

definition rte_enqueue :: "'a \<Rightarrow> 'a rte_ring \<Rightarrow> (rte_status \<times> 'a rte_ring) run" where
  "rte_enqueue x s = (if rt_mp s then rte_enqueue_mp x s else Ret (rte_enqueue_sp x s))"

definition rte_dequeue :: "'a rte_ring \<Rightarrow> (rte_status \<times> 'a option \<times> 'a rte_ring) run" where
  "rte_dequeue s = (if rt_mc s then rte_dequeue_mc s else rte_dequeue_sc s)"

definition rte_enqueue_bulk :: "u32 \<Rightarrow> 'a list \<Rightarrow> bool \<Rightarrow> 'a rte_ring \<Rightarrow> (rte_status \<times> u32 option \<times> 'a rte_ring) run" where
  "rte_enqueue_bulk n table fixed s =
    (if rt_mp s then rte_enqueue_mp_bulk n table fixed s else Ret (rte_enqueue_sp_bulk n table fixed s))"

definition rte_dequeue_bulk :: "u32 \<Rightarrow> bool \<Rightarrow> 'a rte_ring \<Rightarrow> (rte_status \<times> u32 option \<times> 'a option list \<times> 'a rte_ring) run" where
  "rte_dequeue_bulk n fixed s = (if rt_mc s then rte_dequeue_mc_bulk n fixed s else rte_dequeue_sc_bulk n fixed s)"

text \<open>\<open>RteQ\<close> of benchmark.cc.\<close>

definition rteq_enqueue :: "'a \<Rightarrow> 'a rte_ring \<Rightarrow> (bool \<times> 'a rte_ring) run" where
  "rteq_enqueue x s = run_bind (rte_enqueue x s) (\<lambda>(r, s'). Ret (r = RTE_RING_OK, s'))"

definition rteq_dequeue :: "'a rte_ring \<Rightarrow> ('a option \<times> 'a rte_ring) run" where
  "rteq_dequeue s = run_bind (rte_dequeue s) (\<lambda>(r, x, s'). Ret (if r = RTE_RING_OK then x else None, s'))"

section \<open>The contents of a ring\<close>

definition rte_rel :: "nat \<Rightarrow> 'a rte_ring \<Rightarrow> 'a list \<Rightarrow> bool" where
  "rte_rel k s xs \<longleftrightarrow> 1 \<le> k \<and> k \<le> 31 \<and> rt_mask s = mask k \<and> rt_prod_head s = rt_prod_tail s \<and> rt_cons_head s = rt_cons_tail s \<and>
     rt_prod_tail s = rt_cons_head s + of_nat (length xs) \<and> length xs \<le> 2 ^ k - 1 \<and>
     (\<forall>i<length xs. rt_objs s ((rt_cons_head s + of_nat i) AND rt_mask s) = Some (xs ! i))"

lemma rte_free:
  assumes "rte_rel k s xs"
  shows "unat (rt_mask s + rt_cons_tail s - rt_prod_head s) = 2 ^ k - 1 - length xs"
proof -
  have le: "(2 :: nat) ^ k \<le> 2147483648" using assms by (intro pow2_le_31) (simp add: rte_rel_def)
  have l: "length xs \<le> 2 ^ k - 1" using assms by (simp add: rte_rel_def)
  have e: "rt_mask s + rt_cons_tail s - rt_prod_head s = mask k - of_nat (length xs)"
    using assms by (simp add: rte_rel_def)
  have m: "unat (mask k :: u32) = 2 ^ k - 1" using assms by (intro unat_mask_u32) (simp add: rte_rel_def)
  have n: "unat (of_nat (length xs) :: u32) = length xs" using l le by (intro unat_of_nat_u32) linarith
  have "of_nat (length xs) \<le> (mask k :: u32)" using m n l by (simp add: word_le_nat_alt)
  then show ?thesis unfolding e using m n by (simp add: unat_sub)
qed

lemma rte_entries: "rte_rel k s xs \<Longrightarrow> rt_prod_tail s - rt_cons_head s = 0 \<longleftrightarrow> xs = []"
proof -
  assume r: "rte_rel k s xs"
  have le: "(2 :: nat) ^ k \<le> 2147483648" using r by (intro pow2_le_31) (simp add: rte_rel_def)
  have "rt_prod_tail s - rt_cons_head s = of_nat (length xs)" using r by (simp add: rte_rel_def)
  moreover have "length xs \<le> 2 ^ k - 1" using r by (simp add: rte_rel_def)
  then have "unat (of_nat (length xs) :: u32) = length xs" using le by (intro unat_of_nat_u32) linarith
  ultimately show ?thesis by (simp flip: unat_eq_0)
qed

lemma rte_rel_nth: "rte_rel k s xs \<Longrightarrow> i < length xs \<Longrightarrow> rt_objs s ((rt_cons_head s + of_nat i) AND rt_mask s) = Some (xs ! i)"
  unfolding rte_rel_def by blast

section \<open>One operation\<close>

lemma rte_enqueue_variants: "rt_prod_head s = rt_prod_tail s \<Longrightarrow> rte_enqueue_mp x s = Ret (rte_enqueue_sp x s)"
  by (simp add: rte_enqueue_mp_def rte_enqueue_sp_def Let_def)

lemma rte_enqueue_rel:
  assumes "rte_rel k s xs"
  shows "if length xs < 2 ^ k - 1
    then \<exists>s'. rte_enqueue x s = Ret (RTE_RING_OK, s') \<and> rte_rel k s' (xs @ [x]) \<and> rt_cons_head s' = rt_cons_head s \<and>
        rt_objs s' = (rt_objs s)((rt_cons_head s + of_nat (length xs)) AND rt_mask s := Some x)
    else rte_enqueue x s = Ret (RTX_RING_FULL, s)"
proof -
  have v: "rte_enqueue x s = Ret (rte_enqueue_sp x s)"
    using assms rte_enqueue_variants [of s x] by (simp add: rte_enqueue_def rte_rel_def)
  note f = rte_free [OF assms]
  show ?thesis
  proof (cases "length xs < 2 ^ k - 1")
    case True
    then have nz: "rt_mask s + rt_cons_tail s - rt_prod_head s \<noteq> 0" using f by (metis unat_0 zero_less_diff less_irrefl)
    let ?p = "rt_prod_head s"
    let ?s = "s\<lparr>rt_prod_head := ?p + 1, rt_objs := (rt_objs s)(?p AND rt_mask s := Some x), rt_prod_tail := ?p + 1\<rparr>"
    have p: "?p = rt_cons_head s + of_nat (length xs)" using assms by (simp add: rte_rel_def)
    have "(rt_cons_head s + of_nat i) AND rt_mask s \<noteq> ?p AND rt_mask s" if "i < length xs" for i
    proof
      assume e: "(rt_cons_head s + of_nat i) AND rt_mask s = ?p AND rt_mask s"
      have "i < 2 ^ k" "length xs < 2 ^ k" using that True by linarith+
      with e p assms have "i = length xs"
        by (intro and_mask_inj [of k "rt_cons_head s" i "length xs"]) (simp_all add: rte_rel_def)
      with that show False by simp
    qed
    then have "rte_rel k ?s (xs @ [x])"
      using assms True p by (auto simp: rte_rel_def nth_append less_Suc_eq)
    with True v nz show ?thesis by (simp add: rte_enqueue_sp_def Let_def flip: p)
  next
    case False
    then have "rt_mask s + rt_cons_tail s - rt_prod_head s = 0" using f assms by (simp add: rte_rel_def flip: unat_eq_0)
    with False v show ?thesis by (simp add: rte_enqueue_sp_def Let_def)
  qed
qed

lemma rte_dequeue_rel:
  assumes "rte_rel k s xs"
  shows "case xs of [] \<Rightarrow> rte_dequeue s = Ret (RTX_RING_NOT_ENOUGH, None, s)
    | y # ys \<Rightarrow> \<exists>s'. rte_dequeue s = Ret (RTE_RING_OK, rt_objs s (rt_cons_head s mod rt_mask s), s') \<and> rte_rel k s' ys \<and>
        rt_cons_head s' = rt_cons_head s + 1 \<and> rt_objs s' = rt_objs s"
proof (cases xs)
  case Nil
  then show ?thesis using rte_entries [OF assms] by (simp add: rte_dequeue_def rte_dequeue_sc_def rte_dequeue_mc_def)
next
  case (Cons y ys)
  then have e: "rt_prod_tail s - rt_cons_head s \<noteq> 0" using rte_entries [OF assms] by simp
  have "unat (rt_mask s) = 2 ^ k - 1" using assms by (simp add: rte_rel_def unat_mask_u32)
  moreover have "(2 :: nat) ^ 1 \<le> 2 ^ k" using assms by (intro power_increasing) (simp_all add: rte_rel_def)
  ultimately have m: "rt_mask s \<noteq> 0" by (auto simp flip: unat_eq_0)
  let ?s = "s\<lparr>rt_cons_head := rt_cons_head s + 1, rt_cons_tail := rt_cons_head s + 1\<rparr>"
  have "rt_objs s ((rt_cons_head s + 1 + of_nat i) AND rt_mask s) = Some (ys ! i)" if "i < length ys" for i
  proof -
    have "rt_objs s ((rt_cons_head s + of_nat (Suc i)) AND rt_mask s) = Some (xs ! Suc i)"
      using that Cons by (intro rte_rel_nth [OF assms]) simp
    then show ?thesis using Cons by (simp add: add.assoc)
  qed
  moreover have "length ys \<le> 2 ^ k - 1" using assms Cons by (simp add: rte_rel_def)
  ultimately have "rte_rel k ?s ys" using assms Cons unfolding rte_rel_def by (simp add: add.assoc)
  with Cons e m assms show ?thesis
    by (simp add: rte_dequeue_def rte_dequeue_sc_def rte_dequeue_mc_def Let_def rte_rel_def)
qed

text \<open>\<open>% mask\<close> and \<open>& mask\<close> agree below \<open>mask\<close> only.\<close>

lemma rte_index_first_lap:
  assumes "rt_mask s = mask k" "k \<le> 31" "unat (p :: u32) < 2 ^ k - 1"
  shows "p mod rt_mask s = p AND rt_mask s"
proof -
  have m: "unat (rt_mask s) = 2 ^ k - 1" using assms by (simp add: unat_mask_u32)
  have "unat (p AND mask k) = unat p mod 2 ^ k" by (rule unat_and_mask)
  then have "unat (p AND mask k) = unat p" using assms(3) by simp
  moreover have "unat (p mod rt_mask s) = unat p" using m assms(3) by (simp add: unat_mod)
  ultimately show ?thesis using assms(1) by (metis word_unat_eq_iff)
qed

text \<open>The ring during its first lap, as a queue with a limited life: \<open>n\<close> more elements.\<close>

definition rte_life :: "nat \<Rightarrow> 'a rte_ring \<Rightarrow> 'a list \<Rightarrow> bool" where
  "rte_life n s xs \<longleftrightarrow> (\<exists>k. rte_rel k s xs \<and> unat (rt_cons_head s) + length xs + n \<le> 2 ^ k - 1)"

definition rte_cap :: "'a rte_ring \<Rightarrow> nat" where
  "rte_cap s = unat (rt_mask s)"

lemma rte_rel_mask: "rte_rel k s xs \<Longrightarrow> k \<le> 31 \<and> rt_mask s = mask k \<and> rte_cap s = 2 ^ k - 1"
  by (simp add: rte_rel_def rte_cap_def unat_mask_u32)

lemma rteq_enqueue_life:
  assumes "rte_life (Suc n) s xs" "length xs < rte_cap s"
  shows "\<exists>s'. rteq_enqueue x s = Ret (True, s') \<and> rte_life n s' (xs @ [x]) \<and> rte_cap s' = rte_cap s"
proof -
  obtain k where k: "rte_rel k s xs" "unat (rt_cons_head s) + length xs + Suc n \<le> 2 ^ k - 1"
    using assms(1) unfolding rte_life_def by blast
  with rte_enqueue_rel [OF k(1), of x] assms(2) rte_rel_mask [OF k(1)] obtain s' where
    s': "rte_enqueue x s = Ret (RTE_RING_OK, s')" "rte_rel k s' (xs @ [x])" "rt_cons_head s' = rt_cons_head s" by auto
  then have "rte_life n s' (xs @ [x])" using k(2) unfolding rte_life_def by (intro exI [of _ k]) simp
  with s' rte_rel_mask [OF k(1)] rte_rel_mask [OF s'(2)] show ?thesis by (simp add: rteq_enqueue_def)
qed

lemma rteq_dequeue_life:
  assumes "rte_life n s (y # ys)"
  shows "\<exists>s'. rteq_dequeue s = Ret (Some y, s') \<and> rte_life n s' ys \<and> rte_cap s' = rte_cap s"
proof -
  obtain k where k: "rte_rel k s (y # ys)" "unat (rt_cons_head s) + Suc (length ys) + n \<le> 2 ^ k - 1"
    using assms unfolding rte_life_def by auto
  have m: "rt_mask s = mask k" "k \<le> 31" "unat (rt_cons_head s) < 2 ^ k - 1" using rte_rel_mask [OF k(1)] k(2) by auto
  have "rt_objs s (rt_cons_head s mod rt_mask s) = Some y"
    using rte_rel_nth [OF k(1), of 0] rte_index_first_lap [OF m] by simp
  with rte_dequeue_rel [OF k(1)] obtain s' where s': "rte_dequeue s = Ret (RTE_RING_OK, Some y, s')"
    "rte_rel k s' ys" "rt_cons_head s' = rt_cons_head s + 1" by auto
  have "unat (rt_cons_head s + 1) = unat (rt_cons_head s) + 1"
    using m(3) pow2_le_31 [OF m(2)] by (simp add: unat_word_ariths)
  then have "rte_life n s' ys" using s'(2,3) k(2) unfolding rte_life_def by (intro exI [of _ k]) simp
  with s' rte_rel_mask [OF k(1)] rte_rel_mask [OF s'(2)] show ?thesis by (simp add: rteq_dequeue_def)
qed

interpretation rte: lifetime_queue rte_life rte_cap rteq_enqueue rteq_dequeue "\<lambda>_. True"
proof unfold_locales
  fix s :: "'a rte_ring" and xs n x
  show "rte_life n s xs \<Longrightarrow> length xs \<le> rte_cap s"
    unfolding rte_life_def using rte_rel_mask by fastforce
  show "rte_life (Suc n) s xs \<Longrightarrow> length xs < rte_cap s \<Longrightarrow>
      \<exists>s'. rteq_enqueue x s = Ret (True, s') \<and> rte_life n s' (xs @ [x]) \<and> rte_cap s' = rte_cap s"
    by (rule rteq_enqueue_life)
  show "\<exists>s'. rteq_enqueue x s = Ret (False, s') \<and> rte_life n s' xs \<and> rte_cap s' = rte_cap s"
    if a: "rte_life n s xs" and "length xs = rte_cap s"
  proof -
    obtain k where k: "rte_rel k s xs" using a unfolding rte_life_def by blast
    with that rte_enqueue_rel [OF k, of x] rte_rel_mask [OF k] show ?thesis by (simp add: rteq_enqueue_def)
  qed
  show "rte_life n s (x # xs) \<Longrightarrow> \<exists>s'. rteq_dequeue s = Ret (Some x, s') \<and> rte_life n s' xs \<and> rte_cap s' = rte_cap s"
    by (rule rteq_dequeue_life)
  show "\<exists>s'. rteq_dequeue s = Ret (None, s') \<and> rte_life n s' [] \<and> rte_cap s' = rte_cap s" if a: "rte_life n s []"
  proof -
    obtain k where k: "rte_rel k s []" using a unfolding rte_life_def by blast
    with a rte_dequeue_rel [OF k] show ?thesis by (simp add: rteq_dequeue_def)
  qed
qed

text \<open>The first lap of \<open>RteRing\<close> is right: in every mode, as long as at most \<open>size - 1\<close>
  elements are ever enqueued, any sequence of enqueue and dequeue calls gives the answers of a
  list bounded by \<open>size - 1\<close>. (The benchmark stays within this: 1000000 elements, size 1048576.)\<close>

theorem rte_first_lap_fifo:
  assumes "1 \<le> k" "k \<le> 31" "enqueues ops \<le> 2 ^ k - 1"
  shows "\<exists>s. queue_run rteq_enqueue rteq_dequeue ops (rte_ctor mp mc (2 ^ k)) =
    Ret (fst (spec_run (2 ^ k - 1) ops []), s)"
proof -
  let ?s = "rte_ctor mp mc (2 ^ k) :: 'a rte_ring"
  have r: "rte_rel k ?s []"
    using assms(1,2) by (simp add: rte_rel_def rte_ctor_def mask_eq_decr_exp)
  have "unat (rt_cons_head ?s) + length ([] :: 'a list) + (2 ^ k - 1) \<le> 2 ^ k - 1" by (simp add: rte_ctor_def)
  with r have "rte_life (2 ^ k - 1) ?s []" unfolding rte_life_def by blast
  from rte.life_run [OF this assms(3)] show ?thesis using rte_rel_mask [OF r] by auto
qed

lemma rte_first_lap_fifo_witness:
  "\<exists>s. queue_run rteq_enqueue rteq_dequeue [Enqueue 1, Enqueue 2, Dequeue, Dequeue, Enqueue (3 :: nat), Dequeue, Dequeue] (rte_ctor True False (2 ^ 2)) =
    Ret ([Enqueued True, Enqueued True, Dequeued (Some 1), Dequeued (Some 2), Enqueued True, Dequeued (Some 3), Dequeued None], s)"
  using rte_first_lap_fifo [of 2 "[Enqueue 1, Enqueue 2, Dequeue, Dequeue, Enqueue (3 :: nat), Dequeue, Dequeue]" True False]
  by simp

section \<open>After the first lap\<close>

text \<open>When the two ways to compute a slot agree: in the laps whose number is a multiple of \<open>mask\<close>, and not on the last cell.\<close>

lemma rte_index_agrees:
  assumes "1 \<le> k" "k \<le> 31"
  shows "(p :: u32) mod mask k = p AND mask k \<longleftrightarrow> unat p mod 2 ^ k \<noteq> 2 ^ k - 1 \<and> (2 ^ k - 1) dvd unat p div 2 ^ k"
proof -
  define M where "M = (2 :: nat) ^ k - 1"
  define r where "r = unat p mod 2 ^ k"
  define d where "d = unat p div 2 ^ k"
  have "(2 :: nat) ^ 1 \<le> 2 ^ k" using assms(1) by (intro power_increasing) simp_all
  then have M: "2 ^ k = Suc M" "0 < M" by (simp_all add: M_def)
  have r: "r \<le> M" using M by (simp add: r_def less_Suc_eq_le [symmetric])
  have p: "unat p = d * M + (d + r)" using div_mult_mod_eq [of "unat p" "2 ^ k"] by (simp add: d_def r_def M algebra_simps)
  have "unat (p mod mask k) = unat p mod M" using assms(2) by (simp add: unat_mod unat_mask_u32 M_def)
  also have "\<dots> = (d + r) mod M" unfolding p by simp
  finally have 1: "unat (p mod mask k) = (d + r) mod M" .
  have 2: "unat (p AND mask k) = r" by (simp add: unat_and_mask r_def)
  have "(d + r) mod M = r \<longleftrightarrow> r \<noteq> M \<and> M dvd d"
  proof (cases "r = M")
    case True
    then show ?thesis using M(2) by (metis mod_less_divisor less_irrefl)
  next
    case False
    then have "r mod M = r" using r by simp
    then have "(d + r) mod M = r \<longleftrightarrow> (d + r) mod M = r mod M" by simp
    also have "\<dots> \<longleftrightarrow> M dvd d" using mod_eq_dvd_iff_nat [of r "d + r" M] by simp
    finally show ?thesis using False by simp
  qed
  then show ?thesis unfolding word_unat_eq_iff 1 2 by (simp add: r_def d_def M_def)
qed

text \<open>Enqueue and dequeue in turn, on an empty ring: cell 0 has been written.\<close>

lemma rte_rounds:
  assumes "rte_rel k s []" "unat (rt_cons_head s) + n \<le> 2 ^ k - 1" "rt_cons_head s = 0 \<or> rt_objs s 0 = Some x"
  shows "\<exists>rs s'. queue_run rteq_enqueue rteq_dequeue (push_pop_rounds n x) s = Ret (rs, s') \<and> rte_rel k s' [] \<and>
    unat (rt_cons_head s') = unat (rt_cons_head s) + n \<and> (rt_cons_head s' = 0 \<or> rt_objs s' 0 = Some x)"
  using assms
proof (induction n arbitrary: s)
  case (Suc n)
  have k: "1 \<le> k" "k \<le> 31" "(0 :: nat) < 2 ^ k - 1"
    using Suc.prems(1,2) by (simp_all add: rte_rel_def)
  obtain s1 where s1: "rte_enqueue x s = Ret (RTE_RING_OK, s1)" "rte_rel k s1 [x]" "rt_cons_head s1 = rt_cons_head s"
    "rt_objs s1 = (rt_objs s)(rt_cons_head s AND rt_mask s := Some x)"
    using rte_enqueue_rel [OF Suc.prems(1), of x] k(3) by auto
  obtain s2 y where s2: "rte_dequeue s1 = Ret (RTE_RING_OK, y, s2)" "rte_rel k s2 []" "rt_cons_head s2 = rt_cons_head s + 1" "rt_objs s2 = rt_objs s1"
    using rte_dequeue_rel [OF s1(2)] s1(3) by auto
  have u: "unat (rt_cons_head s2) = unat (rt_cons_head s) + 1"
    using s2(3) Suc.prems(2) pow2_le_31 [OF k(2)] by (simp add: unat_word_ariths)
  have "rt_objs s2 0 = Some x" using s1(4) s2(4) Suc.prems(3) by auto
  then obtain rs s' where "queue_run rteq_enqueue rteq_dequeue (push_pop_rounds n x) s2 = Ret (rs, s')" "rte_rel k s' []"
    "unat (rt_cons_head s') = unat (rt_cons_head s2) + n" "rt_cons_head s' = 0 \<or> rt_objs s' 0 = Some x"
    using Suc.IH [OF s2(2)] u Suc.prems(2) by auto
  moreover have "rteq_enqueue x s = Ret (True, s1)" "rteq_dequeue s1 = Ret (y, s2)"
    using s1(1) s2(1) by (simp_all add: rteq_enqueue_def rteq_dequeue_def)
  ultimately show ?case using u by (simp add: push_pop_rounds_def)
qed (simp add: push_pop_rounds_def)

text \<open>Property C39: enqueue stores at \<open>head & mask\<close>, dequeue reads at \<open>head % mask\<close>. In a ring of any size \<open>2 ^ k\<close> and mode, when \<open>x\<close> has been enqueued and
  dequeued \<open>size - 1\<close> times and \<open>y\<close> is enqueued next, dequeue returns \<open>x\<close> again and not \<open>y\<close>. In general a dequeue at position
  \<open>p\<close> of the element \<open>y\<close> reads another slot than that of \<open>y\<close> unless the lap \<open>p / size\<close> is a multiple of \<open>mask\<close> and \<open>p\<close> is
  not on the last cell: of the first \<open>mask\<close> laps only the first is right, up to its last cell. And no bulk
  dequeue ever reports its count.\<close>

theorem rte_dequeue_wrong_slot:
  fixes x y :: 'a
  assumes "1 \<le> k" "k \<le> 31"
  shows "(\<exists>rs s. queue_run rteq_enqueue rteq_dequeue (push_pop_rounds (2 ^ k - 1) x @ [Enqueue y, Dequeue]) (rte_ctor mp mc (2 ^ k)) =
      Ret (rs @ [Enqueued True, Dequeued (Some x)], s)) \<and>
    (\<forall>(s :: 'a rte_ring) y ys. rte_rel k s (y # ys) \<longrightarrow>
      (\<exists>s'. rte_dequeue s = Ret (RTE_RING_OK, rt_objs s (rt_cons_head s mod rt_mask s), s')) \<and>
      rt_objs s (rt_cons_head s AND rt_mask s) = Some y \<and>
      (rt_cons_head s mod rt_mask s = rt_cons_head s AND rt_mask s \<longleftrightarrow>
        unat (rt_cons_head s) mod 2 ^ k \<noteq> 2 ^ k - 1 \<and> (2 ^ k - 1) dvd unat (rt_cons_head s) div 2 ^ k)) \<and>
    (\<forall>(s :: 'a rte_ring) n fixed r res out s'. rte_dequeue_bulk n fixed s = Ret (r, res, out, s') \<longrightarrow> res = None)"
proof (intro conjI allI impI)
  let ?s = "rte_ctor mp mc (2 ^ k)"
  have "(2 :: nat) ^ 1 \<le> 2 ^ k" using assms(1) by (intro power_increasing) simp_all
  then have m0: "(0 :: nat) < 2 ^ k - 1" by simp
  have "rte_rel k ?s []" using assms by (simp add: rte_rel_def rte_ctor_def mask_eq_decr_exp)
  then obtain rs s where s: "queue_run rteq_enqueue rteq_dequeue (push_pop_rounds (2 ^ k - 1) x) ?s = Ret (rs, s)" "rte_rel k s []"
    "unat (rt_cons_head s) = 2 ^ k - 1" "rt_cons_head s = 0 \<or> rt_objs s 0 = Some x"
    using rte_rounds [of k ?s "2 ^ k - 1" x] by (auto simp: rte_ctor_def)
  have m: "rt_mask s = mask k" "unat (rt_mask s) = 2 ^ k - 1" using s(2) assms by (simp_all add: rte_rel_def unat_mask_u32)
  then have c: "rt_cons_head s = rt_mask s" using s(3) by (simp add: word_unat_eq_iff)
  have nz: "rt_mask s \<noteq> 0" using m(2) m0 by (metis less_irrefl unat_0)
  obtain s1 where s1: "rte_enqueue y s = Ret (RTE_RING_OK, s1)" "rte_rel k s1 [y]" "rt_cons_head s1 = rt_cons_head s"
    "rt_objs s1 = (rt_objs s)(rt_mask s := Some y)"
    using rte_enqueue_rel [OF s(2), of y] m0 c by auto
  have "rt_mask s1 = rt_mask s" using s1(2) m(1) by (simp add: rte_rel_def)
  then have "rt_cons_head s1 mod rt_mask s1 = 0" using s1(3) c by simp
  then obtain s2 where "rte_dequeue s1 = Ret (RTE_RING_OK, rt_objs s1 0, s2)" using rte_dequeue_rel [OF s1(2)] by auto
  moreover have "rt_objs s1 0 = Some x" using s(4) s1(4) nz c by auto
  ultimately show "\<exists>rs s. queue_run rteq_enqueue rteq_dequeue (push_pop_rounds (2 ^ k - 1) x @ [Enqueue y, Dequeue]) ?s =
      Ret (rs @ [Enqueued True, Dequeued (Some x)], s)"
    using s(1) s1(1) by (simp add: queue_run_append rteq_enqueue_def rteq_dequeue_def)
next
  fix s :: "'a rte_ring" and y ys assume r: "rte_rel k s (y # ys)"
  show "\<exists>s'. rte_dequeue s = Ret (RTE_RING_OK, rt_objs s (rt_cons_head s mod rt_mask s), s')" using rte_dequeue_rel [OF r] by auto
  show "rt_objs s (rt_cons_head s AND rt_mask s) = Some y" using rte_rel_nth [OF r, of 0] by simp
  have "rt_mask s = mask k" using r by (simp add: rte_rel_def)
  then show "rt_cons_head s mod rt_mask s = rt_cons_head s AND rt_mask s \<longleftrightarrow>
      unat (rt_cons_head s) mod 2 ^ k \<noteq> 2 ^ k - 1 \<and> (2 ^ k - 1) dvd unat (rt_cons_head s) div 2 ^ k"
    using rte_index_agrees [OF assms, of "rt_cons_head s"] by simp
next
  show "res = None" if "rte_dequeue_bulk n fixed s = Ret (r, res, out, s')" for s :: "'a rte_ring" and n fixed r res out s'
    using that by (auto simp: rte_dequeue_bulk_def rte_dequeue_sc_bulk_def rte_dequeue_mc_bulk_def Let_def split: if_splits)
qed

lemma rte_dequeue_wrong_slot_witness:
  "\<exists>rs s. queue_run rteq_enqueue rteq_dequeue (push_pop_rounds (2 ^ 2 - 1) ''old'' @ [Enqueue ''new'', Dequeue]) (rte_ctor True False (2 ^ 2)) =
    Ret (rs @ [Enqueued True, Dequeued (Some ''old'')], s)"
  by (rule conjunct1 [OF rte_dequeue_wrong_slot [of 2 "''old''" "''new''" True False]]) simp_all

end
