(* ===== verification/Rte_Ring_Conc.thy ===== *)
theory Rte_Ring_Conc
  imports Rte_Ring ConQueue_Conc
begin

text \<open>
  \<open>RteRing\<close> used by several threads: all four operations of each end, single and bulk, in every mode, as a step
  function. One step is one access to a head, to a tail or to a cell; both ends have the same protocol, so a step is
  written once for the end a call works on. The exchange on the head is strong: it fails only when the head has
  changed. The pauses of the wait loop (\<open>cpu_relax\<close>, \<open>sched_yield\<close>) change no state.
\<close>

section \<open>The two ends\<close>

fun ring_head :: "cq_end \<Rightarrow> 'a rte_ring \<Rightarrow> u32" where
  "ring_head ProdEnd r = rt_prod_head r"
| "ring_head ConsEnd r = rt_cons_head r"

fun ring_tail :: "cq_end \<Rightarrow> 'a rte_ring \<Rightarrow> u32" where
  "ring_tail ProdEnd r = rt_prod_tail r"
| "ring_tail ConsEnd r = rt_cons_tail r"

fun set_ring_head :: "cq_end \<Rightarrow> u32 \<Rightarrow> 'a rte_ring \<Rightarrow> 'a rte_ring" where
  "set_ring_head ProdEnd v r = r\<lparr>rt_prod_head := v\<rparr>"
| "set_ring_head ConsEnd v r = r\<lparr>rt_cons_head := v\<rparr>"

fun set_ring_tail :: "cq_end \<Rightarrow> u32 \<Rightarrow> 'a rte_ring \<Rightarrow> 'a rte_ring" where
  "set_ring_tail ProdEnd v r = r\<lparr>rt_prod_tail := v\<rparr>"
| "set_ring_tail ConsEnd v r = r\<lparr>rt_cons_tail := v\<rparr>"

fun ring_multi :: "cq_end \<Rightarrow> 'a rte_ring \<Rightarrow> bool" where
  "ring_multi ProdEnd r = rt_mp r"
| "ring_multi ConsEnd r = rt_mc r"

section \<open>Calls and control points\<close>

text \<open>A bulk enqueue has its table, of \<open>n\<close> elements; the flag is \<open>fixed\<close>.\<close>

datatype 'a rr_call = RrEnq 'a | RrEnqBulk "'a list" bool | RrDeq | RrDeqBulk u32 bool

fun rr_end :: "'a rr_call \<Rightarrow> cq_end" where
  "rr_end (RrEnq x) = ProdEnd"
| "rr_end (RrEnqBulk xs fixed) = ProdEnd"
| "rr_end RrDeq = ConsEnd"
| "rr_end (RrDeqBulk n fixed) = ConsEnd"

fun rr_table :: "'a rr_call \<Rightarrow> 'a list" where
  "rr_table (RrEnq x) = [x]"
| "rr_table (RrEnqBulk xs fixed) = xs"
| "rr_table RrDeq = []"
| "rr_table (RrDeqBulk n fixed) = []"

fun rr_want :: "'a rr_call \<Rightarrow> u32" where
  "rr_want (RrEnq x) = 1"
| "rr_want (RrEnqBulk xs fixed) = of_nat (length xs)"
| "rr_want RrDeq = 1"
| "rr_want (RrDeqBulk n fixed) = n"

fun rr_fixed :: "'a rr_call \<Rightarrow> bool" where
  "rr_fixed (RrEnqBulk xs fixed) = fixed"
| "rr_fixed (RrDeqBulk n fixed) = fixed"
| "rr_fixed c = False"

text \<open>\<open>free_entries\<close> or \<open>entries\<close>, when the call has read \<open>h\<close> as its own head; and how many positions it goes on to
  claim (None: it returns at once).\<close>

fun rr_room :: "cq_end \<Rightarrow> u32 \<Rightarrow> 'a rte_ring \<Rightarrow> u32" where
  "rr_room ProdEnd h r = rt_mask r + rt_cons_tail r - h"
| "rr_room ConsEnd h r = rt_prod_tail r - h"

fun rr_grant :: "'a rr_call \<Rightarrow> u32 \<Rightarrow> u32 option" where
  "rr_grant (RrEnq x) a = (if a = 0 then None else Some 1)"
| "rr_grant (RrEnqBulk xs fixed) a =
     (let n = of_nat (length xs) in if n > a \<and> (fixed \<or> a = 0) then None else Some (min n a))"
| "rr_grant RrDeq a = (if a = 0 then None else Some 1)"
| "rr_grant (RrDeqBulk n fixed) a = (if n > a \<and> (fixed \<or> a = 0) then None else Some (min n a))"

text \<open>A claim: \<open>rk_len\<close> positions from \<open>rk_pos\<close> on; the first \<open>length rk_done\<close> have been written or read.\<close>

record 'a rr_claim =
  rk_call :: "'a rr_call"
  rk_pos :: u32
  rk_len :: u32
  rk_done :: "'a list"

datatype 'a rr_pc =
    RrIdle
  | RrTest "'a rr_call" u32        \<comment> \<open>own head loaded; load of the other end's tail\<close>
  | RrClaim "'a rr_call" u32 u32   \<comment> \<open>exchange of the head; a plain store in single mode\<close>
  | RrRetry "'a rr_call"           \<comment> \<open>the exchange failed: the head is loaded again\<close>
  | RrWork "'a rr_claim"           \<comment> \<open>the next cell\<close>
  | RrWait "'a rr_claim"           \<comment> \<open>while (tail != head)\<close>
  | RrStore "'a rr_claim"          \<comment> \<open>store of the tail\<close>

text \<open>
  History: \<open>rr_in\<close> are the elements of all claimed enqueues in the order of the claims, \<open>rr_log\<close> the completed
  calls, with the status and the elements written or read. \<open>rr_ub\<close> records a division by zero or the use of a cell that was
  never written.
\<close>

record 'a rr_state =
  rr_ring :: "'a rte_ring"
  rr_pc :: "nat \<Rightarrow> 'a rr_pc"
  rr_in :: "'a list"
  rr_log :: "(nat \<times> 'a rr_call \<times> rte_status \<times> 'a list) list"
  rr_ub :: bool

definition rr_start :: "'a rte_ring \<Rightarrow> 'a rr_state" where
  "rr_start r = \<lparr>rr_ring = r, rr_pc = (\<lambda>_. RrIdle), rr_in = [], rr_log = [], rr_ub = False\<rparr>"

definition rr_goto :: "nat \<Rightarrow> 'a rr_pc \<Rightarrow> 'a rr_state \<Rightarrow> 'a rr_state" where
  "rr_goto t p s = s\<lparr>rr_pc := (rr_pc s)(t := p)\<rparr>"

definition rr_return :: "nat \<Rightarrow> 'a rr_call \<Rightarrow> rte_status \<Rightarrow> 'a list \<Rightarrow> 'a rr_state \<Rightarrow> 'a rr_state" where
  "rr_return t c r ys s = s\<lparr>rr_pc := (rr_pc s)(t := RrIdle), rr_log := rr_log s @ [(t, c, r, ys)]\<rparr>"

section \<open>Steps\<close>

definition rr_refusal :: "'a rr_call \<Rightarrow> rte_status" where
  "rr_refusal c = (case rr_end c of ProdEnd \<Rightarrow> RTX_RING_FULL | ConsEnd \<Rightarrow> RTX_RING_NOT_ENOUGH)"

definition rr_take :: "'a rr_call \<Rightarrow> u32 \<Rightarrow> u32 \<Rightarrow> 'a rr_state \<Rightarrow> 'a rr_state" where
  "rr_take c h l s = s\<lparr>rr_ring := set_ring_head (rr_end c) (h + l) (rr_ring s), rr_in := rr_in s @ take (unat l) (rr_table c)\<rparr>"

text \<open>One round of the copy loop: number \<open>i\<close> of the claim is written or read. A dequeue indexes with \<open>% mask\<close>.\<close>

definition rr_put :: "'a rr_claim \<Rightarrow> 'a rte_ring \<Rightarrow> ('a \<times> 'a rte_ring) run" where
  "rr_put k r =
     (let i = length (rk_done k); x = rr_table (rk_call k) ! i
      in Ret (x, r\<lparr>rt_objs := (rt_objs r)((rk_pos k + of_nat i) AND rt_mask r := Some x)\<rparr>))"

definition rr_get :: "'a rr_claim \<Rightarrow> 'a rte_ring \<Rightarrow> ('a \<times> 'a rte_ring) run" where
  "rr_get k r =
     (let i = length (rk_done k)
      in if rt_mask r = 0 then UB
         else case rt_objs r ((rk_pos k + of_nat i) mod rt_mask r) of None \<Rightarrow> UB | Some x \<Rightarrow> Ret (x, r))"

definition rr_access :: "'a rr_claim \<Rightarrow> 'a rte_ring \<Rightarrow> ('a \<times> 'a rte_ring) run" where
  "rr_access k r = (case rr_end (rk_call k) of ProdEnd \<Rightarrow> rr_put k r | ConsEnd \<Rightarrow> rr_get k r)"

definition rr_begin :: "nat \<Rightarrow> 'a rr_call \<Rightarrow> 'a rr_state \<Rightarrow> 'a rr_state" where
  "rr_begin t c s = rr_goto t (RrTest c (ring_head (rr_end c) (rr_ring s))) s"

fun rr_next :: "nat \<Rightarrow> 'a rr_pc \<Rightarrow> 'a rr_state \<Rightarrow> 'a rr_state" where
  "rr_next t RrIdle s = s"
| "rr_next t (RrTest c h) s =
     (case rr_grant c (rr_room (rr_end c) h (rr_ring s)) of
        None \<Rightarrow> rr_return t c (rr_refusal c) [] s
      | Some l \<Rightarrow> rr_goto t (RrClaim c h l) s)"
| "rr_next t (RrClaim c h l) s =
     (if ring_multi (rr_end c) (rr_ring s) \<and> ring_head (rr_end c) (rr_ring s) \<noteq> h then rr_goto t (RrRetry c) s
      else rr_goto t (RrWork \<lparr>rk_call = c, rk_pos = h, rk_len = l, rk_done = []\<rparr>) (rr_take c h l s))"
| "rr_next t (RrRetry c) s = rr_goto t (RrTest c (ring_head (rr_end c) (rr_ring s))) s"
| "rr_next t (RrWork k) s =
     (if length (rk_done k) < unat (rk_len k)
      then case rr_access k (rr_ring s) of
          Ret (x, r) \<Rightarrow> rr_goto t (RrWork (k\<lparr>rk_done := rk_done k @ [x]\<rparr>)) (s\<lparr>rr_ring := r\<rparr>)
        | _ \<Rightarrow> s\<lparr>rr_ub := True\<rparr>
      else rr_goto t (if ring_multi (rr_end (rk_call k)) (rr_ring s) then RrWait k else RrStore k) s)"
| "rr_next t (RrWait k) s =
     (if ring_tail (rr_end (rk_call k)) (rr_ring s) \<noteq> rk_pos k then s else rr_goto t (RrStore k) s)"
| "rr_next t (RrStore k) s =
     rr_return t (rk_call k) RTE_RING_OK (rk_done k)
       (s\<lparr>rr_ring := set_ring_tail (rr_end (rk_call k)) (rk_pos k + rk_len k) (rr_ring s)\<rparr>)"

text \<open>In a single mode only the thread \<open>solo e\<close> uses the end \<open>e\<close>. The calls may be restricted to those in \<open>P\<close>.\<close>

definition rr_may :: "(cq_end \<Rightarrow> nat) \<Rightarrow> 'a rte_ring \<Rightarrow> nat \<Rightarrow> 'a rr_call \<Rightarrow> bool" where
  "rr_may solo r t c \<longleftrightarrow> (\<not> ring_multi (rr_end c) r \<longrightarrow> t = solo (rr_end c))"

definition rr_thread :: "('a rr_call \<Rightarrow> bool) \<Rightarrow> (cq_end \<Rightarrow> nat) \<Rightarrow> nat \<Rightarrow> 'a rr_state \<Rightarrow> 'a rr_state \<Rightarrow> bool" where
  "rr_thread P solo t s s' \<longleftrightarrow>
     (if rr_pc s t = RrIdle then \<exists>c. P c \<and> rr_may solo (rr_ring s) t c \<and> s' = rr_begin t c s
      else s' = rr_next t (rr_pc s t) s)"

definition rr_step :: "('a rr_call \<Rightarrow> bool) \<Rightarrow> (cq_end \<Rightarrow> nat) \<Rightarrow> nat \<Rightarrow> 'a rr_state \<Rightarrow> 'a rr_state \<Rightarrow> bool" where
  "rr_step P solo N s s' \<longleftrightarrow> (\<exists>t<N. rr_thread P solo t s s')"

section \<open>Schedules\<close>

datatype 'a rr_move = RrBegin nat "'a rr_call" | RrGo nat

fun rr_act :: "'a rr_move \<Rightarrow> 'a rr_state \<Rightarrow> 'a rr_state option" where
  "rr_act (RrBegin t c) s = (if rr_pc s t = RrIdle then Some (rr_begin t c s) else None)"
| "rr_act (RrGo t) s = (if rr_pc s t = RrIdle then None else Some (rr_next t (rr_pc s t) s))"

fun rr_run :: "'a rr_move list \<Rightarrow> 'a rr_state \<Rightarrow> 'a rr_state option" where
  "rr_run [] s = Some s"
| "rr_run (a # as) s = (case rr_act a s of None \<Rightarrow> None | Some s \<Rightarrow> rr_run as s)"

fun rr_move_ok :: "('a rr_call \<Rightarrow> bool) \<Rightarrow> (cq_end \<Rightarrow> nat) \<Rightarrow> 'a rte_ring \<Rightarrow> nat \<Rightarrow> 'a rr_move \<Rightarrow> bool" where
  "rr_move_ok P solo r N (RrBegin t c) \<longleftrightarrow> t < N \<and> P c \<and> rr_may solo r t c"
| "rr_move_ok P solo r N (RrGo t) \<longleftrightarrow> t < N"

text \<open>What no step changes.\<close>

definition ring_cfg :: "'a rte_ring \<Rightarrow> u32 \<times> bool \<times> bool" where
  "ring_cfg r = (rt_mask r, rt_mp r, rt_mc r)"

lemma ring_simps [simp]:
  "ring_head e (set_ring_head e' v r) = (if e = e' then v else ring_head e r)"
  "ring_tail e (set_ring_head e' v r) = ring_tail e r"
  "ring_head e (set_ring_tail e' v r) = ring_head e r"
  "ring_tail e (set_ring_tail e' v r) = (if e = e' then v else ring_tail e r)"
  "rt_objs (set_ring_head e' v r) = rt_objs r" "rt_objs (set_ring_tail e' v r) = rt_objs r"
  "ring_cfg (set_ring_head e' v r) = ring_cfg r" "ring_cfg (set_ring_tail e' v r) = ring_cfg r"
  "ring_head e (r\<lparr>rt_objs := f\<rparr>) = ring_head e r" "ring_tail e (r\<lparr>rt_objs := f\<rparr>) = ring_tail e r"
  "ring_cfg (r\<lparr>rt_objs := f\<rparr>) = ring_cfg r"
  by (cases e; cases e'; simp add: ring_cfg_def)+

lemma ring_multi_cfg: "ring_cfg r = ring_cfg r' \<Longrightarrow> ring_multi e r = ring_multi e r'"
  by (cases e) (simp_all add: ring_cfg_def)

lemma rr_may_cfg: "ring_cfg r = ring_cfg r' \<Longrightarrow> rr_may solo r t c = rr_may solo r' t c"
  using ring_multi_cfg [of r r'] by (simp add: rr_may_def)

lemma rr_access_ring: "rr_access k r = Ret (x, r') \<Longrightarrow> ring_cfg r' = ring_cfg r \<and> ring_head e r' = ring_head e r \<and> ring_tail e r' = ring_tail e r"
  by (auto simp: rr_access_def rr_put_def rr_get_def Let_def split: cq_end.splits if_splits option.splits)

lemma rr_next_cfg: "ring_cfg (rr_ring (rr_next t p s)) = ring_cfg (rr_ring s)"
  using rr_access_ring [of _ "rr_ring s"]
  by (cases p) (auto simp: rr_goto_def rr_return_def rr_take_def Let_def split: run.splits option.splits)

lemma rr_act_cfg: "rr_act a s = Some s' \<Longrightarrow> ring_cfg (rr_ring s') = ring_cfg (rr_ring s)"
  by (cases a) (auto simp: rr_begin_def rr_goto_def rr_next_cfg split: if_splits)

lemma rr_step_cfg: "rr_step P solo N s s' \<Longrightarrow> ring_cfg (rr_ring s') = ring_cfg (rr_ring s)"
  by (auto simp: rr_step_def rr_thread_def rr_begin_def rr_goto_def rr_next_cfg split: if_splits)

lemma rr_act_step: "rr_act a s = Some s' \<Longrightarrow> rr_move_ok P solo (rr_ring s) N a \<Longrightarrow> rr_step P solo N s s'"
  by (cases a) (auto simp: rr_step_def rr_thread_def split: if_splits)

lemma rr_run_steps:
  "rr_run as s = Some s' \<Longrightarrow> \<forall>a\<in>set as. rr_move_ok P solo (rr_ring s) N a \<Longrightarrow> (rr_step P solo N)\<^sup>*\<^sup>* s s'"
proof (induction as arbitrary: s)
  case (Cons a as)
  then obtain s1 where s1: "rr_act a s = Some s1" "rr_run as s1 = Some s'" by (auto split: option.splits)
  have "rr_move_ok P solo (rr_ring s1) N b = rr_move_ok P solo (rr_ring s) N b" for b
    using rr_may_cfg [OF rr_act_cfg [OF s1(1)]] by (cases b) simp_all
  then have "(rr_step P solo N)\<^sup>*\<^sup>* s1 s'" using Cons s1(2) by simp
  moreover have "rr_step P solo N s s1" using rr_act_step [OF s1(1)] Cons.prems(2) by simp
  ultimately show ?case by (rule converse_rtranclp_into_rtranclp [rotated])
qed simp

end
