(* ===== verification/Rte_Ring_Conc_Sim.thy ===== *)
theory Rte_Ring_Conc_Sim
  imports Rte_Ring_Conc ConQueue_Conc_Properties
begin

text \<open>
  During the first lap a \<open>RteRing\<close> under concurrency is simulated by a \<open>ConQueue\<close> of capacity \<open>mask\<close> whose ends
  are both in default mode: the single modes of the ring, too, since nothing distinguishes an exchange without a
  competitor from a store. A call with \<open>fixed\<close> is matched from its claim on only, so that it may be refused although
  there is room for a part of it.
\<close>

section \<open>The relation\<close>

fun rr_cq :: "'a rr_call \<Rightarrow> 'a cq_call" where
  "rr_cq (RrEnq x) = Emplace x"
| "rr_cq (RrEnqBulk xs fixed) = PushBulk xs"
| "rr_cq RrDeq = Pop"
| "rr_cq (RrDeqBulk n fixed) = PopBulk n"

lemma rr_cq_simps [simp]: "call_end (rr_cq c) = rr_end c" "call_xs (rr_cq c) = rr_table c"
  by (cases c; simp)+

abbreviation rr_pos :: "u32 \<Rightarrow> po_val" where
  "rr_pos h \<equiv> \<lparr>pos = h, cnt = 0\<rparr>"

definition rr_claim :: "'a rr_claim \<Rightarrow> 'a cq_claim" where
  "rr_claim k = \<lparr>ck_call = rr_cq (rk_call k), ck_pos = rk_pos k, ck_len = rk_len k, ck_done = rk_done k\<rparr>"

lemma rr_claim_simps [simp]:
  "ck_call (rr_claim k) = rr_cq (rk_call k)" "ck_pos (rr_claim k) = rk_pos k" "ck_len (rr_claim k) = rk_len k" "ck_done (rr_claim k) = rk_done k"
  "ck_end (rr_claim k) = rr_end (rk_call k)" "rr_claim k\<lparr>ck_done := ys\<rparr> = rr_claim (k\<lparr>rk_done := ys\<rparr>)"
  by (simp_all add: rr_claim_def ck_end_def)

text \<open>The control points of the two. A failed exchange leaves the \<open>ConQueue\<close> before its exchange.\<close>

fun rr_match :: "'a rr_pc \<Rightarrow> 'a cq_pc \<Rightarrow> bool" where
  "rr_match RrIdle p \<longleftrightarrow> p = CqIdle"
| "rr_match (RrTest c h) p \<longleftrightarrow> rr_want c \<noteq> 0 \<and> p = (if rr_fixed c then CqIdle else CqTest (rr_cq c) (rr_pos h))"
| "rr_match (RrClaim c h l) p \<longleftrightarrow> rr_want c \<noteq> 0 \<and> (if rr_fixed c then l = rr_want c \<and> p = CqIdle else p = CqCas (rr_cq c) (rr_pos h) l)"
| "rr_match (RrRetry c) p \<longleftrightarrow> rr_want c \<noteq> 0 \<and> (if rr_fixed c then p = CqIdle else \<exists>v l. p = CqCas (rr_cq c) v l)"
| "rr_match (RrWork k) p \<longleftrightarrow> p = CqWork (rr_claim k)"
| "rr_match (RrWait k) p \<longleftrightarrow> p = CqWait (rr_claim k)"
| "rr_match (RrStore k) p \<longleftrightarrow> p = CqTurn (rr_claim k)"

fun rr_call_of :: "'a rr_pc \<Rightarrow> 'a rr_call option" where
  "rr_call_of RrIdle = None"
| "rr_call_of (RrTest c h) = Some c"
| "rr_call_of (RrClaim c h l) = Some c"
| "rr_call_of (RrRetry c) = Some c"
| "rr_call_of (RrWork k) = Some (rk_call k)"
| "rr_call_of (RrWait k) = Some (rk_call k)"
| "rr_call_of (RrStore k) = Some (rk_call k)"

text \<open>What the thread of a single end knows: its call is the only one at that end and the head has not moved.\<close>

definition rr_alone :: "(cq_end \<Rightarrow> nat) \<Rightarrow> 'a rte_ring \<Rightarrow> nat \<Rightarrow> 'a rr_pc \<Rightarrow> bool" where
  "rr_alone solo r t p \<longleftrightarrow> (\<forall>c. rr_call_of p = Some c \<longrightarrow> \<not> ring_multi (rr_end c) r \<longrightarrow> t = solo (rr_end c)) \<and>
     (\<forall>c h. p = RrTest c h \<or> (\<exists>l. p = RrClaim c h l) \<longrightarrow> \<not> ring_multi (rr_end c) r \<longrightarrow> h = ring_head (rr_end c) r)"

text \<open>The head that a call has read is not ahead of the head; and the room of a call with \<open>fixed\<close> does not shrink before
  its claim.\<close>

fun rr_limit :: "cq_end \<Rightarrow> 'a rte_ring \<Rightarrow> nat" where
  "rr_limit ProdEnd r = unat (rt_cons_tail r) + unat (rt_mask r)"
| "rr_limit ConsEnd r = unat (rt_prod_tail r)"

definition rr_room_ok :: "'a rte_ring \<Rightarrow> 'a rr_pc \<Rightarrow> bool" where
  "rr_room_ok r p \<longleftrightarrow> (\<forall>c h. p = RrTest c h \<or> (\<exists>l. p = RrClaim c h l) \<longrightarrow> unat h \<le> unat (ring_head (rr_end c) r)) \<and>
     (\<forall>c h l. p = RrClaim c h l \<longrightarrow> rr_fixed c \<longrightarrow> h = ring_head (rr_end c) r \<longrightarrow> unat h + unat (rr_want c) \<le> rr_limit (rr_end c) r)"

text \<open>The log of the specification leaves out the refused calls with \<open>fixed\<close>.\<close>

definition rr_seen :: "nat \<times> 'a rr_call \<times> rte_status \<times> 'a list \<Rightarrow> bool" where
  "rr_seen x = (case x of (t, c, r, ys) \<Rightarrow> r = RTE_RING_OK \<or> \<not> rr_fixed c)"

fun rr_response :: "nat \<times> 'a rr_call \<times> rte_status \<times> 'a list \<Rightarrow> nat \<times> 'a cq_call \<times> 'a list" where
  "rr_response (t, c, r, ys) = (t, rr_cq c, ys)"

definition rr_heads :: "'a rte_ring \<Rightarrow> 'a conqueue \<Rightarrow> bool" where
  "rr_heads r q \<longleftrightarrow> (\<forall>e. head_of e q = rr_pos (ring_head e r) \<and> pos (tail_of e q) = ring_tail e r \<and> mode_of e q = Default)"

definition rr_cells :: "nat \<Rightarrow> 'a rte_ring \<Rightarrow> 'a conqueue \<Rightarrow> bool" where
  "rr_cells k r q \<longleftrightarrow> (\<forall>n x. n < 2 ^ k - 1 \<longrightarrow> ring q (conq_slot q (of_nat n)) = Some x \<longrightarrow> rt_objs r (of_nat n) = Some x)"

definition rr_sim :: "(cq_end \<Rightarrow> nat) \<Rightarrow> nat \<Rightarrow> 'a rr_state \<Rightarrow> 'a cq_state \<Rightarrow> bool" where
  "rr_sim solo k s a \<longleftrightarrow> rt_mask (rr_ring s) = mask k \<and> max_size (cq_q a) = mask k \<and> rr_heads (rr_ring s) (cq_q a) \<and>
     rr_cells k (rr_ring s) (cq_q a) \<and> cq_in a = rr_in s \<and> map cq_response (cq_log a) = map rr_response (filter rr_seen (rr_log s)) \<and>
     (\<forall>t. rr_match (rr_pc s t) (cq_pc a t) \<and> rr_alone solo (rr_ring s) t (rr_pc s t) \<and> rr_room_ok (rr_ring s) (rr_pc s t)) \<and> \<not> rr_ub s"

lemma rr_simD:
  assumes "rr_sim solo k s a"
  shows "rt_mask (rr_ring s) = mask k" "max_size (cq_q a) = mask k" "head_of e (cq_q a) = rr_pos (ring_head e (rr_ring s))"
    "pos (tail_of e (cq_q a)) = ring_tail e (rr_ring s)" "mode_of e (cq_q a) = Default" "rr_cells k (rr_ring s) (cq_q a)" "cq_in a = rr_in s"
    "map cq_response (cq_log a) = map rr_response (filter rr_seen (rr_log s))" "rr_match (rr_pc s t) (cq_pc a t)"
    "rr_alone solo (rr_ring s) t (rr_pc s t)" "rr_room_ok (rr_ring s) (rr_pc s t)" "\<not> rr_ub s"
  using assms unfolding rr_sim_def rr_heads_def by blast+

section \<open>Room\<close>

text \<open>Without \<open>fixed\<close> both codes find the same room.\<close>

lemma grant_room:
  assumes "max_size q = rt_mask r" "pos (cons_tail q) = rt_cons_tail r" "pos (prod_tail q) = rt_prod_tail r" "\<not> rr_fixed c" "rr_want c \<noteq> 0"
  shows "rr_grant c (rr_room (rr_end c) h r) = (let l = call_room (rr_cq c) (rr_pos h) q in if l = 0 then None else Some l)"
proof -
  have m: "min n a = 0 \<longleftrightarrow> n = 0 \<or> a = 0" for n a :: u32 by (auto simp: min_def word_le_nat_alt unat_eq_0)
  show ?thesis
  proof (cases c)
    case (RrEnq x)
    have "h - rt_cons_tail r = rt_mask r \<longleftrightarrow> rt_mask r + rt_cons_tail r - h = 0" by (auto simp: algebra_simps)
    with RrEnq assms show ?thesis by (simp add: conq_capacity_def)
  next
    case (RrEnqBulk xs fixed)
    define A where "A = rt_mask r - h + rt_cons_tail r"
    have A: "rt_mask r + rt_cons_tail r - h = A" by (simp add: A_def)
    have "call_room (rr_cq c) (rr_pos h) q = min A (of_nat (length xs))"
      using RrEnqBulk assms(1,2) by (simp add: conq_capacity_def A_def)
    moreover have "rr_room (rr_end c) h r = A" using RrEnqBulk A by simp
    ultimately show ?thesis using RrEnqBulk assms(4,5) by (simp add: m Let_def min.commute word_gt_0)
  qed (use assms in \<open>auto simp: m Let_def word_gt_0\<close>)
qed

lemma grant_fixed:
  assumes "rr_fixed c" "rr_grant c a = Some l"
  shows "l = rr_want c" "rr_want c \<le> a"
  using assms by (cases c; auto simp: Let_def min_def split: if_splits)+

lemma fixed_room:
  assumes "max_size q = rt_mask r" "pos (cons_tail q) = rt_cons_tail r" "pos (prod_tail q) = rt_prod_tail r"
    "rr_fixed c" "rr_want c \<le> rr_room (rr_end c) h r"
  shows "call_room (rr_cq c) (rr_pos h) q = rr_want c"
proof (cases c)
  case (RrEnqBulk xs fixed)
  define A where "A = rt_mask r - h + rt_cons_tail r"
    have A: "rt_mask r + rt_cons_tail r - h = A" by (simp add: A_def)
  have "call_room (rr_cq c) (rr_pos h) q = min A (of_nat (length xs))"
    using RrEnqBulk assms(1,2) by (simp add: conq_capacity_def A_def)
  moreover have "of_nat (length xs) \<le> A" using RrEnqBulk assms(5) A by simp
  ultimately show ?thesis using RrEnqBulk by (simp add: min_absorb2)
qed (use assms in \<open>auto simp: min_def\<close>)

lemma rr_limit_cq: "rr_sim solo k s a \<Longrightarrow> rr_limit e (rr_ring s) = limit a e"
  using rr_simD(1,2) [of solo k s a] rr_simD(4) [of solo k s a ProdEnd] rr_simD(4) [of solo k s a ConsEnd]
  by (cases e) (simp_all add: tail_pos_def cq_cap_def)

lemma rr_room_limit:
  assumes sim: "rr_sim solo k s a" and inv: "cq_inv solo N a"
  shows "unat (rr_room e (ring_head e (rr_ring s)) (rr_ring s)) = rr_limit e (rr_ring s) - unat (ring_head e (rr_ring s))"
    "unat (ring_head e (rr_ring s)) = claimed a e" "claimed a e \<le> limit a e"
proof -
  note S = rr_simD [OF sim]
  have h: "unat (ring_head e (rr_ring s)) = claimed a e" for e
    using cq_invD(3) [OF inv, of e] S(3,5) [of e] by (simp add: ends_ok_def cq_mode_at_def)
  show "unat (ring_head e (rr_ring s)) = claimed a e" by (rule h)
  show le: "claimed a e \<le> limit a e" for e using cq_invD(3) [OF inv, of e] by (simp add: ends_ok_def)
  note L = rr_limit_cq [OF sim, of e]
  show "unat (rr_room e (ring_head e (rr_ring s)) (rr_ring s)) = rr_limit e (rr_ring s) - unat (ring_head e (rr_ring s))"
  proof (cases e)
    case ProdEnd
    have e': "m + t - h = m - h + t" for h t m :: u32 by simp
    have t: "unat (rt_cons_tail (rr_ring s)) \<le> unat (rt_prod_head (rr_ring s))"
      using ends_chain [OF inv] h [of ProdEnd] S(4) [of ConsEnd] by (simp add: tail_pos_def)
    have l: "unat (rt_prod_head (rr_ring s)) \<le> unat (rt_cons_tail (rr_ring s)) + unat (rt_mask (rr_ring s))"
      using le [of e] L h [of e] ProdEnd by simp
    show ?thesis unfolding ProdEnd using room_word [OF l t] by (simp add: e')
  next
    case ConsEnd
    have "unat (rt_cons_head (rr_ring s)) \<le> unat (rt_prod_tail (rr_ring s))"
      using le [of e] L h [of e] ConsEnd by simp
    then show ?thesis unfolding ConsEnd by (simp add: unat_sub word_le_nat_alt)
  qed
qed

section \<open>The other threads\<close>

lemma rr_alone_frame:
  assumes "rr_alone solo r u p" "ring_cfg r' = ring_cfg r" "u \<noteq> t"
    "\<And>e. ring_head e r' \<noteq> ring_head e r \<Longrightarrow> ring_multi e r \<or> t = solo e"
  shows "rr_alone solo r' u p"
proof -
  have m: "ring_multi e r' = ring_multi e r" for e by (rule ring_multi_cfg [OF assms(2)])
  have "h = ring_head (rr_end c) r'" if p: "p = RrTest c h \<or> (\<exists>l. p = RrClaim c h l)" and s: "\<not> ring_multi (rr_end c) r" for c h
  proof -
    have "rr_call_of p = Some c" using p by auto
    then have "u = solo (rr_end c)" using assms(1) s unfolding rr_alone_def by blast
    then have "ring_head (rr_end c) r' = ring_head (rr_end c) r" using assms(3) assms(4) [of "rr_end c"] s by blast
    then show ?thesis using assms(1) p s unfolding rr_alone_def by metis
  qed
  then show ?thesis using assms(1) unfolding rr_alone_def m by blast
qed

lemma rr_room_frame:
  assumes "rr_room_ok r p" "\<And>e. unat (ring_head e r) \<le> unat (ring_head e r')" "\<And>e. rr_limit e r \<le> rr_limit e r'"
  shows "rr_room_ok r' p"
proof -
  have "unat h \<le> unat (ring_head (rr_end c) r')" if "p = RrTest c h \<or> (\<exists>l. p = RrClaim c h l)" for c h
    using assms(1) that assms(2) le_trans unfolding rr_room_ok_def by blast
  moreover have "unat h + unat (rr_want c) \<le> rr_limit (rr_end c) r'"
    if p: "p = RrClaim c h l" "rr_fixed c" and h: "h = ring_head (rr_end c) r'" for c h l
  proof -
    have "unat h \<le> unat (ring_head (rr_end c) r)" using assms(1) p unfolding rr_room_ok_def by blast
    then have "unat (ring_head (rr_end c) r) = unat h" using assms(2) [of "rr_end c"] h by simp
    then have "h = ring_head (rr_end c) r" by (simp add: word_unat_eq_iff)
    then have "unat h + unat (rr_want c) \<le> rr_limit (rr_end c) r" using assms(1) p unfolding rr_room_ok_def by blast
    then show ?thesis using assms(3) [of "rr_end c"] by linarith
  qed
  ultimately show ?thesis unfolding rr_room_ok_def by blast
qed

lemma rr_sim_upd:
  assumes sim: "rr_sim solo k s a"
    and pcs: "rr_pc s' = (rr_pc s)(t := p)" "cq_pc a' = (cq_pc a)(t := p')"
    and own: "rr_match p p'" "rr_alone solo (rr_ring s') t p" "rr_room_ok (rr_ring s') p"
    and ring: "ring_cfg (rr_ring s') = ring_cfg (rr_ring s)" "\<And>e. unat (ring_head e (rr_ring s)) \<le> unat (ring_head e (rr_ring s'))"
      "\<And>e. rr_limit e (rr_ring s) \<le> rr_limit e (rr_ring s')"
      "\<And>e. ring_head e (rr_ring s') \<noteq> ring_head e (rr_ring s) \<Longrightarrow> ring_multi e (rr_ring s) \<or> t = solo e"
    and rest: "max_size (cq_q a') = max_size (cq_q a)" "rr_heads (rr_ring s') (cq_q a')" "rr_cells k (rr_ring s') (cq_q a')"
      "cq_in a' = rr_in s'" "map cq_response (cq_log a') = map rr_response (filter rr_seen (rr_log s'))" "\<not> rr_ub s'"
  shows "rr_sim solo k s' a'"
proof -
  note S = rr_simD [OF sim]
  have "rr_match (rr_pc s' u) (cq_pc a' u) \<and> rr_alone solo (rr_ring s') u (rr_pc s' u) \<and> rr_room_ok (rr_ring s') (rr_pc s' u)" for u
  proof (cases "u = t")
    case False
    then show ?thesis
      using S(9) [of u] rr_alone_frame [OF S(10) [of u] ring(1) False ring(4)] rr_room_frame [OF S(11) [of u] ring(2,3)] pcs by simp
  qed (use own pcs in simp)
  moreover have "rt_mask (rr_ring s') = mask k" using S(1) ring(1) by (simp add: ring_cfg_def)
  ultimately show ?thesis unfolding rr_sim_def using rest S(2) by simp
qed

text \<open>A step that moves one thread only.\<close>

lemma rr_sim_goto:
  assumes "rr_sim solo k s a" "rr_match p p'" "rr_alone solo (rr_ring s) t p" "rr_room_ok (rr_ring s) p"
  shows "rr_sim solo k (rr_goto t p s) (cq_goto t p' a)"
  by (rule rr_sim_upd [OF assms(1), where t = t and p = p and p' = p'])
    (use assms rr_simD [OF assms(1)] in \<open>auto simp: rr_goto_def rr_heads_def\<close>)

lemma rr_sim_stay:
  assumes "rr_sim solo k s a" "rr_match p (cq_pc a t)" "rr_alone solo (rr_ring s) t p" "rr_room_ok (rr_ring s) p"
  shows "rr_sim solo k (rr_goto t p s) a"
  using rr_sim_goto [OF assms] by simp

section \<open>Begin, test and exchange\<close>

lemma cq_thread_steps: "t < N \<Longrightarrow> cq_thread solo t a a' \<Longrightarrow> (cq_step solo N)\<^sup>*\<^sup>* a a'"
  unfolding cq_step_def by blast

lemma rr_alone_test:
  "rr_may solo r t c \<Longrightarrow> rr_alone solo r t (RrTest c (ring_head (rr_end c) r))"
  by (auto simp: rr_alone_def rr_may_def)

text \<open>A load of the head, at the beginning of a call or after a failed exchange.\<close>

lemma rr_load_sim:
  assumes sim: "rr_sim solo k s a" and t: "t < N" and c: "rr_want c \<noteq> 0" "rr_may solo (rr_ring s) t c"
    and p: "cq_pc a t = CqIdle \<or> \<not> rr_fixed c \<and> (\<exists>v l. cq_pc a t = CqCas (rr_cq c) v l)"
  shows "\<exists>a'. (cq_step solo N)\<^sup>*\<^sup>* a a' \<and> rr_sim solo k (rr_begin t c s) a'"
proof -
  note S = rr_simD [OF sim]
  let ?h = "ring_head (rr_end c) (rr_ring s)"
  have own: "rr_alone solo (rr_ring s) t (RrTest c ?h)" "rr_room_ok (rr_ring s) (RrTest c ?h)"
    using rr_alone_test [OF c(2)] by (auto simp: rr_room_ok_def)
  show ?thesis
  proof (cases "rr_fixed c")
    case True
    then have "rr_sim solo k (rr_goto t (RrTest c ?h) s) a" using p c by (intro rr_sim_stay [OF sim _ own]) simp
    then show ?thesis unfolding rr_begin_def by blast
  next
    case False
    let ?a = "cq_goto t (CqTest (rr_cq c) (head_of (call_end (rr_cq c)) (cq_q a))) a"
    have "cq_thread solo t a ?a"
      using p cq_call [of a t "rr_cq c" solo] cq_cas_fail [of a t "rr_cq c" _ _ solo] S(5) by auto
    then have "(cq_step solo N)\<^sup>*\<^sup>* a ?a" by (rule cq_thread_steps [OF t])
    moreover have "rr_sim solo k (rr_goto t (RrTest c ?h) s) ?a"
      using False c S(3) by (intro rr_sim_goto [OF sim _ own]) simp
    ultimately show ?thesis unfolding rr_begin_def by blast
  qed
qed

lemma rr_return_sim:
  assumes "rr_sim solo k s a" "cq_pc a t = CqIdle" "rr_fixed c" "r \<noteq> RTE_RING_OK"
  shows "rr_sim solo k (rr_return t c r [] s) a"
proof -
  have "rr_sim solo k (rr_return t c r [] s) (a\<lparr>cq_pc := (cq_pc a)(t := CqIdle)\<rparr>)"
    by (rule rr_sim_upd [OF assms(1), where t = t and p = RrIdle and p' = CqIdle])
      (use assms rr_simD [OF assms(1)] in \<open>auto simp: rr_return_def rr_heads_def rr_alone_def rr_room_ok_def rr_seen_def\<close>)
  then show ?thesis using assms(2) by (metis fun_upd_triv cq_state.surjective cq_state.update_convs(2))
qed

lemma rr_refuse_sim:
  assumes "rr_sim solo k s a" "\<not> rr_fixed c"
  shows "rr_sim solo k (rr_return t c r [] s) (cq_return t (Refused (rr_cq c)) a)"
  by (rule rr_sim_upd [OF assms(1), where t = t and p = RrIdle and p' = CqIdle])
    (use assms rr_simD [OF assms(1)] in \<open>auto simp: rr_return_def cq_return_def rr_heads_def rr_alone_def rr_room_ok_def rr_seen_def\<close>)

lemma refusal_not_ok: "rr_refusal c \<noteq> RTE_RING_OK"
  by (simp add: rr_refusal_def split: cq_end.splits)

lemma rr_test_sim:
  assumes sim: "rr_sim solo k s a" and inv: "cq_inv solo N a" and t: "t < N" and p: "rr_pc s t = RrTest c h"
  shows "\<exists>a'. (cq_step solo N)\<^sup>*\<^sup>* a a' \<and> rr_sim solo k (rr_next t (RrTest c h) s) a'"
proof -
  note S = rr_simD [OF sim]
  let ?r = "rr_ring s"
  have m: "rr_want c \<noteq> 0" "cq_pc a t = (if rr_fixed c then CqIdle else CqTest (rr_cq c) (rr_pos h))"
    using S(9) [of t] p by simp_all
  have same: "max_size (cq_q a) = rt_mask ?r" "pos (cons_tail (cq_q a)) = rt_cons_tail ?r" "pos (prod_tail (cq_q a)) = rt_prod_tail ?r"
    using S(1,2) S(4) [of ProdEnd] S(4) [of ConsEnd] by simp_all
  have alone: "rr_alone solo ?r t (RrClaim c h l)" for l
    using S(10) [of t] unfolding p rr_alone_def by simp
  have le: "unat h \<le> unat (ring_head (rr_end c) ?r)" using S(11) [of t] unfolding p rr_room_ok_def by simp
  show ?thesis
  proof (cases "rr_grant c (rr_room (rr_end c) h ?r)")
    case None
    show ?thesis
    proof (cases "rr_fixed c")
      case True
      then show ?thesis using rr_return_sim [OF sim _ True refusal_not_ok] m None by auto
    next
      case False
      then have "call_room (rr_cq c) (rr_pos h) (cq_q a) = 0"
        using grant_room [OF same False m(1), of h] None by (simp add: Let_def split: if_splits)
      then have "cq_thread solo t a (cq_return t (Refused (rr_cq c)) a)"
        using m False by (intro cq_refuse) simp_all
      then show ?thesis using rr_refuse_sim [OF sim False] cq_thread_steps [OF t] None by fastforce
    qed
  next
    case (Some l)
    show ?thesis
    proof (cases "rr_fixed c")
      case True
      note g = grant_fixed [OF True Some]
      have "unat h + unat (rr_want c) \<le> rr_limit (rr_end c) ?r" if "h = ring_head (rr_end c) ?r"
        using rr_room_limit [OF sim inv, of "rr_end c"] rr_limit_cq [OF sim, of "rr_end c"] g(2) that by (simp add: word_le_nat_alt)
      then have "rr_room_ok ?r (RrClaim c h l)" using le by (auto simp: rr_room_ok_def)
      then have "rr_sim solo k (rr_goto t (RrClaim c h l) s) a" using m True g(1) by (intro rr_sim_stay [OF sim _ alone]) simp_all
      then show ?thesis using Some by auto
    next
      case False
      then have l: "call_room (rr_cq c) (rr_pos h) (cq_q a) = l" "l \<noteq> 0"
        using grant_room [OF same False m(1), of h] Some by (auto simp: Let_def split: if_splits)
      then have "cq_thread solo t a (cq_goto t (CqCas (rr_cq c) (rr_pos h) (call_room (rr_cq c) (rr_pos h) (cq_q a))) a)"
        using m False by (intro cq_test) simp_all
      moreover have "rr_room_ok ?r (RrClaim c h l)" using le False by (auto simp: rr_room_ok_def)
      then have "rr_sim solo k (rr_goto t (RrClaim c h l) s) (cq_goto t (CqCas (rr_cq c) (rr_pos h) l) a)"
        using m False by (intro rr_sim_goto [OF sim _ alone]) simp_all
      ultimately show ?thesis using Some l cq_thread_steps [OF t] by fastforce
    qed
  qed
qed

text \<open>The claim. A call with \<open>fixed\<close> makes its steps before the exchange only now.\<close>

lemma rr_claim_start:
  assumes sim: "rr_sim solo k s a" and inv: "cq_inv solo N a" and t: "t < N" and p: "rr_pc s t = RrClaim c h l" and h: "h = ring_head (rr_end c) (rr_ring s)"
  shows "(cq_step solo N)\<^sup>*\<^sup>* a (cq_goto t (CqCas (rr_cq c) (rr_pos h) l) a)" "unat h + unat l \<le> rr_limit (rr_end c) (rr_ring s)"
proof -
  note S = rr_simD [OF sim]
  have m: "rr_want c \<noteq> 0" "if rr_fixed c then l = rr_want c \<and> cq_pc a t = CqIdle else cq_pc a t = CqCas (rr_cq c) (rr_pos h) l"
    using S(9) [of t] p by simp_all
  have hd: "head_of (call_end (rr_cq c)) (cq_q a) = rr_pos h" using S(3) h by simp
  have "(cq_step solo N)\<^sup>*\<^sup>* a (cq_goto t (CqCas (rr_cq c) (rr_pos h) l) a) \<and> unat h + unat l \<le> rr_limit (rr_end c) (rr_ring s)"
  proof (cases "rr_fixed c")
    case True
    then have lim: "unat h + unat l \<le> rr_limit (rr_end c) (rr_ring s)"
      using S(11) [of t] h m(2) unfolding p rr_room_ok_def by simp
    have "unat (rr_room (rr_end c) h (rr_ring s)) = rr_limit (rr_end c) (rr_ring s) - unat h"
      using rr_room_limit(1) [OF sim inv, of "rr_end c"] h by simp
    then have "rr_want c \<le> rr_room (rr_end c) h (rr_ring s)" using lim m(2) True by (simp add: word_le_nat_alt)
    then have room: "call_room (rr_cq c) (rr_pos h) (cq_q a) = l"
      using fixed_room [of "cq_q a" "rr_ring s", OF _ _ _ True] S(1,2) S(4) [of ProdEnd] S(4) [of ConsEnd] m(2) True by simp
    let ?a = "cq_goto t (CqTest (rr_cq c) (rr_pos h)) a"
    have "cq_thread solo t a ?a" using cq_call [of a t "rr_cq c" solo] m(2) True S(5) hd by simp
    moreover have "cq_thread solo t ?a (cq_goto t (CqCas (rr_cq c) (rr_pos h) l) ?a)"
      using cq_test [of ?a t "rr_cq c" "rr_pos h" solo] room m True by simp
    moreover have "cq_goto t (CqCas (rr_cq c) (rr_pos h) l) ?a = cq_goto t (CqCas (rr_cq c) (rr_pos h) l) a" by simp
    ultimately have "(cq_step solo N)\<^sup>*\<^sup>* a (cq_goto t (CqCas (rr_cq c) (rr_pos h) l) a)"
      using cq_thread_steps [OF t] by (metis rtranclp_trans)
    then show ?thesis using lim by blast
  next
    case False
    then have pc: "cq_pc a t = CqCas (rr_cq c) (rr_pos h) l" using m(2) by simp
    then have "cq_goto t (CqCas (rr_cq c) (rr_pos h) l) a = a" by (metis fun_upd_triv cq_state.surjective cq_state.update_convs(2))
    moreover have "unat h + unat l \<le> limit a (rr_end c)"
      using cq_invD(9) [OF inv, of t] rr_room_limit(2) [OF sim inv, of "rr_end c"] h unfolding pc by simp
    ultimately show ?thesis using rr_limit_cq [OF sim] by simp
  qed
  then show "(cq_step solo N)\<^sup>*\<^sup>* a (cq_goto t (CqCas (rr_cq c) (rr_pos h) l) a)" "unat h + unat l \<le> rr_limit (rr_end c) (rr_ring s)"
    by blast+
qed

lemma rr_limit_less:
  assumes "rr_sim solo k s a" "cq_inv solo N a" "length (rr_in s) < 2 ^ k" "k \<le> 31"
  shows "rr_limit e (rr_ring s) < 2 ^ 32"
proof (cases e)
  case ProdEnd
  have "rr_limit e (rr_ring s) = tail_pos a ConsEnd + cq_cap a" using rr_limit_cq [OF assms(1), of e] ProdEnd by simp
  moreover have "tail_pos a ConsEnd < 2 ^ k" using ends_chain [OF assms(2)] rr_simD(7) [OF assms(1)] assms(3) by simp
  moreover have "cq_cap a = 2 ^ k - 1" using rr_simD(2) [OF assms(1)] assms(4) by (simp add: cq_cap_def unat_mask_u32)
  moreover have "(2 :: nat) ^ k \<le> 2 ^ 31" using assms(4) by (intro power_increasing) simp_all
  ultimately show ?thesis by simp
qed simp

lemma rr_claim_sim:
  assumes sim: "rr_sim solo k s a" and inv: "cq_inv solo N a" and t: "t < N" and p: "rr_pc s t = RrClaim c h l"
    and b: "length (rr_in s) < 2 ^ k" "k \<le> 31"
  shows "\<exists>a'. (cq_step solo N)\<^sup>*\<^sup>* a a' \<and> rr_sim solo k (rr_next t (RrClaim c h l) s) a'"
proof -
  note S = rr_simD [OF sim]
  let ?r = "rr_ring s" and ?e = "rr_end c"
  have alone: "\<not> ring_multi ?e ?r \<Longrightarrow> t = solo ?e \<and> h = ring_head ?e ?r"
    using S(10) [of t] unfolding p rr_alone_def by simp
  show ?thesis
  proof (cases "ring_multi ?e ?r \<and> ring_head ?e ?r \<noteq> h")
    case True
    have "rr_match (RrRetry c) (cq_pc a t)" using S(9) [of t] p by (auto split: if_splits)
    then have "rr_sim solo k (rr_goto t (RrRetry c) s) a"
      using True by (intro rr_sim_stay [OF sim]) (simp_all add: rr_alone_def rr_room_ok_def)
    then show ?thesis using True by auto
  next
    case False
    then have h: "h = ring_head ?e ?r" using alone by blast
    note st = rr_claim_start [OF sim inv t p h]
    let ?a = "cq_goto t (CqCas (rr_cq c) (rr_pos h) l) a"
    let ?q = "set_head (call_end (rr_cq c)) (mp_head 0 (rr_pos h) l) (cq_q ?a)"
    let ?a' = "cq_take t (rr_cq c) (rr_pos h) l (?a\<lparr>cq_q := ?q\<rparr>)"
    have "cq_thread solo t ?a ?a'" using S(3,5) h by (intro cq_cas_default) simp_all
    then have run: "(cq_step solo N)\<^sup>*\<^sup>* a ?a'" using cq_thread_steps [OF t] st(1) by (meson rtranclp_trans)
    have "unat h + unat l < 2 ^ 32" using st(2) rr_limit_less [OF sim inv b, of ?e] by linarith
    then have hl: "unat (h + l) = unat h + unat l" by (simp add: unat_add_u32)
    let ?s = "rr_goto t (RrWork \<lparr>rk_call = c, rk_pos = h, rk_len = l, rk_done = []\<rparr>) (rr_take c h l s)"
    have ring: "rr_ring ?s = set_ring_head ?e (h + l) ?r" by (simp add: rr_goto_def rr_take_def)
    have lim: "rr_limit e (rr_ring ?s) = rr_limit e ?r" for e unfolding ring by (cases e; cases ?e; simp)
    have "rr_sim solo k ?s ?a'"
    proof (rule rr_sim_upd [OF sim, where t = t and p = "RrWork \<lparr>rk_call = c, rk_pos = h, rk_len = l, rk_done = []\<rparr>"
          and p' = "CqWork (new_claim (rr_cq c) (rr_pos h) l)"])
      show "unat (ring_head e ?r) \<le> unat (ring_head e (rr_ring ?s))" for e unfolding ring using hl h by simp
      show "rr_heads (rr_ring ?s) (cq_q ?a')"
        unfolding ring using S(3,4,5) by (simp add: rr_heads_def cq_take_def mp_head_def)
      show "rr_cells k (rr_ring ?s) (cq_q ?a')"
        unfolding ring using S(6) by (simp add: rr_cells_def cq_take_def conq_slot_def to_id_def) (cases ?e; simp)
      show "max_size (cq_q ?a') = max_size (cq_q a)" by (cases ?e) (simp_all add: cq_take_def)
      show "rr_alone solo (rr_ring ?s) t (RrWork \<lparr>rk_call = c, rk_pos = h, rk_len = l, rk_done = []\<rparr>)"
        using alone ring_multi_cfg [of "rr_ring ?s" ?r ?e] unfolding ring by (simp add: rr_alone_def)
      show "ring_multi e ?r \<or> t = solo e" if "ring_head e (rr_ring ?s) \<noteq> ring_head e ?r" for e
        using that alone unfolding ring by (auto split: if_splits)
    qed (use S lim in \<open>simp_all add: rr_goto_def rr_take_def cq_take_def rr_room_ok_def rr_claim_def new_claim_def\<close>)
    then show ?thesis using run False by auto
  qed
qed

section \<open>The cells\<close>

lemma of_nat_u32_inj: "n < 2 ^ 32 \<Longrightarrow> m < 2 ^ 32 \<Longrightarrow> (of_nat n :: u32) = of_nat m \<longleftrightarrow> n = m"
proof -
  assume a: "n < 2 ^ 32" "m < 2 ^ 32"
  have "unat (of_nat n :: u32) = n" "unat (of_nat m :: u32) = m" using a by (simp_all add: unat_of_nat)
  then show ?thesis by metis
qed

lemma first_lap_index:
  assumes "m = mask k" "k \<le> 31" "n < 2 ^ k - 1"
  shows "of_nat n mod m = (of_nat n :: u32)" "of_nat n AND m = (of_nat n :: u32)" "m \<noteq> 0"
proof -
  have k: "(2 :: nat) ^ k \<le> 2 ^ 31" using assms(2) by (intro power_increasing) simp_all
  then have n: "unat (of_nat n :: u32) = n" using assms(3) by (intro unat_of_nat_u32) simp
  have m: "unat m = 2 ^ k - 1" using assms(1,2) by (simp add: unat_mask_u32)
  show "of_nat n mod m = (of_nat n :: u32)" using n m assms(3) by (simp add: word_unat_eq_iff unat_mod)
  have "unat (of_nat n AND m :: u32) = n mod 2 ^ k" using unat_and_mask [of "of_nat n :: u32" k] assms(1) n by simp
  then show "of_nat n AND m = (of_nat n :: u32)" using n assms(3) by (simp add: word_unat_eq_iff)
  show "m \<noteq> 0" using m assms(3) by auto
qed

text \<open>One round of the copy loop.\<close>

lemma rr_access_sim:
  assumes sim: "rr_sim solo k s a" and inv: "cq_inv solo N a" and b: "length (rr_in s) < 2 ^ k" "k \<le> 31"
    and p: "rr_pc s t = RrWork c" "length (rk_done c) < unat (rk_len c)"
  obtains x r q where "rr_access c (rr_ring s) = Ret (x, r)" "work_on (rr_claim c) (cq_q a) = Ret (x, q)"
    "rr_heads r q" "rr_cells k r q" "conq_cfg q = conq_cfg (cq_q a)"
proof -
  note S = rr_simD [OF sim]
  let ?c = "rr_claim c" and ?n = "ck_front (rr_claim c)" and ?m = "rt_mask (rr_ring s)"
  have pc: "claim_of (cq_pc a t) = Some ?c" "length (ck_done ?c) < unat (ck_len ?c)" using S(9) [of t] p by simp_all
  have k: "(2 :: nat) ^ k \<le> 2 ^ 31" using b(2) by (intro power_increasing) simp_all
  have len: "length (cq_in a) < 2 ^ 32" using S(7) b k by simp
  note F = front_facts [OF inv pc] and W = work_on_ok [OF inv len pc]
  have n: "?n < 2 ^ k - 1" using F(4) cq_invD(2) [OF inv] S(7) b(1) by simp
  note ix = first_lap_index [OF S(1) b(2) n]
  have "(of_nat ?n :: u32) = of_nat (unat (rk_pos c)) + of_nat (length (rk_done c))" by (simp add: ck_front_def)
  then have pos: "rk_pos c + of_nat (length (rk_done c)) = of_nat ?n" by simp
  define q where "q = (cq_q a)\<lparr>ring := (ring (cq_q a)) (cq_cell a ?n := if ck_end ?c = ProdEnd then Some (cq_in a ! ?n) else None)\<rparr>"
  have w: "work_on ?c (cq_q a) = Ret (cq_in a ! ?n, q)" using W(1) by (simp add: q_def)
  have apart: "conq_slot (cq_q a) (of_nat i) \<noteq> cq_cell a ?n" if "i < 2 ^ k - 1" "i \<noteq> ?n" for i
  proof -
    have lay: "n' < m' \<and> m' < 2 ^ 32 \<and> m' < n' + unat (max_size (cq_q a)) \<longrightarrow> conq_slot (cq_q a) (of_nat n') \<noteq> conq_slot (cq_q a) (of_nat m')" for n' m'
      using cq_invD(1) [OF inv] unfolding cq_layout_def by blast
    have "unat (max_size (cq_q a)) = 2 ^ k - 1" using S(2) b(2) by (simp add: unat_mask_u32)
    then show ?thesis using lay [of i ?n] lay [of ?n i] that n k unfolding cq_cell_def by (cases "i < ?n") auto
  qed
  have q: "conq_cfg q = conq_cfg (cq_q a)" "head_of e q = head_of e (cq_q a)" "tail_of e q = tail_of e (cq_q a)" "mode_of e q = mode_of e (cq_q a)"
    "conq_slot q = conq_slot (cq_q a)" for e
    by (simp_all add: q_def conq_slot_def to_id_def fun_eq_iff)
  have hd: "rr_heads (rr_ring s) q" using S(3-5) unfolding rr_heads_def q by blast
  show ?thesis
  proof (cases "rr_end (rk_call c)")
    case ProdEnd
    let ?x = "rr_table (rk_call c) ! length (rk_done c)"
    let ?r = "(rr_ring s)\<lparr>rt_objs := (rt_objs (rr_ring s))(of_nat ?n := Some ?x)\<rparr>"
    have acc: "rr_access c (rr_ring s) = Ret (?x, ?r)" using ProdEnd pos ix(2) by (simp add: rr_access_def rr_put_def rr_get_def Let_def)
    have x: "cq_in a ! ?n = ?x" using w ProdEnd by (auto simp: work_on_def Let_def run_bind_Ret_iff)
    have "rt_objs ?r (of_nat i) = Some y" if i: "i < 2 ^ k - 1" "ring q (conq_slot q (of_nat i)) = Some y" for i y
    proof (cases "i = ?n")
      case True
      then show ?thesis using i(2) x ProdEnd by (simp add: q_def cq_cell_def conq_slot_def to_id_def)
    next
      case False
      then have "ring (cq_q a) (conq_slot (cq_q a) (of_nat i)) = Some y"
        using i(2) apart [OF i(1) False] unfolding q(5) by (simp add: q_def)
      then have "rt_objs (rr_ring s) (of_nat i) = Some y" using S(6) i(1) unfolding rr_cells_def by blast
      then show ?thesis using False i(1) n k by (simp add: of_nat_u32_inj)
    qed
    then have cells: "rr_cells k ?r q" unfolding rr_cells_def by blast
    have "rr_heads ?r q" using hd by (simp add: rr_heads_def)
    then show ?thesis using that [OF acc _ _ cells q(1)] w x by simp
  next
    case ConsEnd
    have "cq_in a ! ?n = cq_in a ! ?n \<and> ring (cq_q a) (cq_cell a ?n) = Some (cq_in a ! ?n)"
      using W(3) cq_invD(10) [OF inv] ConsEnd unfolding cells_ok_def by simp
    then have "rt_objs (rr_ring s) (of_nat ?n) = Some (cq_in a ! ?n)"
      using S(6) n unfolding rr_cells_def cq_cell_def by blast
    then have acc: "rr_access c (rr_ring s) = Ret (cq_in a ! ?n, rr_ring s)"
      using ConsEnd pos ix(1,3) by (simp add: rr_access_def rr_put_def rr_get_def Let_def)
    have "rt_objs (rr_ring s) (of_nat i) = Some y" if i: "i < 2 ^ k - 1" "ring q (conq_slot q (of_nat i)) = Some y" for i y
    proof -
      have "ring (cq_q a) (conq_slot (cq_q a) (of_nat i)) = Some y"
        using i(2) ConsEnd unfolding q(5) by (simp add: q_def split: if_splits)
      then show ?thesis using S(6) i(1) unfolding rr_cells_def by blast
    qed
    then have cells: "rr_cells k (rr_ring s) q" unfolding rr_cells_def by blast
    show ?thesis by (rule that [OF acc w hd cells q(1)])
  qed
qed

section \<open>Copying and publishing\<close>

lemma rr_limit_cong: "ring_cfg r' = ring_cfg r \<Longrightarrow> (\<And>e. ring_tail e r' = ring_tail e r) \<Longrightarrow> rr_limit e r' = rr_limit e r"
proof -
  assume a: "ring_cfg r' = ring_cfg r" and t: "\<And>e. ring_tail e r' = ring_tail e r"
  show ?thesis using a t [of ProdEnd] t [of ConsEnd] by (cases e) (simp_all add: ring_cfg_def)
qed

lemma match_claim: "rr_match p p' \<Longrightarrow> claim_of p' = Some d \<Longrightarrow> \<exists>c. d = rr_claim c \<and> rr_call_of p = Some (rk_call c)"
  by (cases p) (auto split: if_splits)

text \<open>At a single end nobody else has a claim, so the tail is where the claim begins.\<close>

lemma rr_single_tail:
  assumes sim: "rr_sim solo k s a" and inv: "cq_inv solo N a" and c: "rr_call_of (rr_pc s t) = Some (rk_call c)" "claim_of (cq_pc a t) = Some (rr_claim c)"
    and single: "\<not> ring_multi (rr_end (rk_call c)) (rr_ring s)"
  shows "ring_tail (rr_end (rk_call c)) (rr_ring s) = rk_pos c"
proof -
  note S = rr_simD [OF sim]
  let ?e = "rr_end (rk_call c)"
  have ok: "claim_ok a (rr_claim c)" by (rule cq_invD(4) [OF inv c(2)])
  have "tail_pos a ?e = ck_start (rr_claim c)"
  proof (rule ccontr)
    assume "tail_pos a ?e \<noteq> ck_start (rr_claim c)"
    then have lt: "tail_pos a ?e < ck_start (rr_claim c)" using ok by (simp add: claim_ok_def)
    moreover have "tail_pos a ?e < claimed a ?e" using lt ok unfolding claim_ok_def by simp
    moreover have "covered a ?e" using cq_invD(7) [OF inv] S(5) by (simp add: cq_mode_at_def)
    ultimately obtain u d where d: "claim_of (cq_pc a u) = Some d" "ck_end d = ?e" "ck_start d \<le> tail_pos a ?e"
      unfolding covered_def by blast
    obtain c' where c': "d = rr_claim c'" "rr_call_of (rr_pc s u) = Some (rk_call c')"
      using match_claim [OF S(9) [of u] d(1)] by blast
    have "u = solo ?e" using S(10) [of u] c' d(2) single unfolding rr_alone_def by simp
    moreover have "t = solo ?e" using S(10) [of t] c(1) single unfolding rr_alone_def by simp
    ultimately have "d = rr_claim c" using d(1) c(2) by simp
    then show False using d(3) lt by simp
  qed
  then show ?thesis using S(4) [of ?e] by (simp add: tail_pos_def ck_start_def word_unat_eq_iff)
qed

lemma rr_work_sim:
  assumes sim: "rr_sim solo k s a" and inv: "cq_inv solo N a" and t: "t < N" and b: "length (rr_in s) < 2 ^ k" "k \<le> 31"
    and p: "rr_pc s t = RrWork c"
  shows "\<exists>a'. (cq_step solo N)\<^sup>*\<^sup>* a a' \<and> rr_sim solo k (rr_next t (RrWork c) s) a'"
proof -
  note S = rr_simD [OF sim]
  let ?e = "rr_end (rk_call c)"
  have pc: "cq_pc a t = CqWork (rr_claim c)" using S(9) [of t] p by simp
  have call: "\<not> ring_multi ?e (rr_ring s) \<Longrightarrow> t = solo ?e" using S(10) [of t] p by (simp add: rr_alone_def)
  show ?thesis
  proof (cases "length (rk_done c) < unat (rk_len c)")
    case True
    obtain x r q where w: "rr_access c (rr_ring s) = Ret (x, r)" "work_on (rr_claim c) (cq_q a) = Ret (x, q)"
      "rr_heads r q" "rr_cells k r q" "conq_cfg q = conq_cfg (cq_q a)"
      by (rule rr_access_sim [OF sim inv b p True])
    note R = rr_access_ring [OF w(1)]
    let ?c = "c\<lparr>rk_done := rk_done c @ [x]\<rparr>"
    let ?s = "rr_goto t (RrWork ?c) (s\<lparr>rr_ring := r\<rparr>)" and ?a = "cq_goto t (CqWork (rr_claim c\<lparr>ck_done := ck_done (rr_claim c) @ [x]\<rparr>)) (a\<lparr>cq_q := q\<rparr>)"
    have "cq_thread solo t a ?a" using True pc w(2) by (intro cq_work) simp_all
    moreover have "rr_limit e r = rr_limit e (rr_ring s)" for e using R by (intro rr_limit_cong) simp_all
    moreover have "ring_multi e r = ring_multi e (rr_ring s)" for e using R by (intro ring_multi_cfg) simp
    ultimately have "rr_sim solo k ?s ?a"
      by (intro rr_sim_upd [OF sim, where t = t and p = "RrWork ?c" and p' = "CqWork (rr_claim ?c)"])
        (use S w(3-5) R call in \<open>simp_all add: rr_goto_def rr_alone_def rr_room_ok_def conq_cfg_def\<close>)
    then show ?thesis using \<open>cq_thread solo t a ?a\<close> cq_thread_steps [OF t] True w(1) by fastforce
  next
    case False
    have "claim_ok a (rr_claim c)" using cq_invD(4) [OF inv, of t] pc by simp
    then have len: "length (rk_done c) = unat (rk_len c)" using False by (simp add: claim_ok_def ck_front_def ck_stop_def)
    let ?a = "cq_goto t (CqWait (rr_claim c)) a"
    have "cq_thread solo t a (cq_goto t (after_work (mode_of (call_end (ck_call (rr_claim c))) (cq_q a)) (rr_claim c)) a)"
      using pc len by (intro cq_done) simp_all
    then have 1: "(cq_step solo N)\<^sup>*\<^sup>* a ?a" using S(5) cq_thread_steps [OF t] by (simp add: after_work_def)
    show ?thesis
    proof (cases "ring_multi ?e (rr_ring s)")
      case True
      then have "rr_sim solo k (rr_goto t (RrWait c) s) ?a"
        by (intro rr_sim_goto [OF sim]) (simp_all add: rr_alone_def rr_room_ok_def)
      then show ?thesis using 1 False True by auto
    next
      case single: False
      have "ring_tail ?e (rr_ring s) = rk_pos c" using p pc single by (intro rr_single_tail [OF sim inv, where t = t]) simp_all
      then have "cq_thread solo t ?a (cq_goto t (CqTurn (rr_claim c)) ?a)" using S(4) [of ?e] by (intro cq_turn) simp_all
      then have "(cq_step solo N)\<^sup>*\<^sup>* ?a (cq_goto t (CqTurn (rr_claim c)) ?a)" by (rule cq_thread_steps [OF t])
      then have "(cq_step solo N)\<^sup>*\<^sup>* a (cq_goto t (CqTurn (rr_claim c)) a)" using 1 by simp
      moreover have "rr_sim solo k (rr_goto t (RrStore c) s) (cq_goto t (CqTurn (rr_claim c)) a)"
        using call by (intro rr_sim_goto [OF sim]) (simp_all add: rr_alone_def rr_room_ok_def)
      ultimately show ?thesis using False single by auto
    qed
  qed
qed

lemma rr_wait_sim:
  assumes sim: "rr_sim solo k s a" and t: "t < N" and p: "rr_pc s t = RrWait c"
  shows "\<exists>a'. (cq_step solo N)\<^sup>*\<^sup>* a a' \<and> rr_sim solo k (rr_next t (RrWait c) s) a'"
proof (cases "ring_tail (rr_end (rk_call c)) (rr_ring s) = rk_pos c")
  case True
  note S = rr_simD [OF sim]
  have "cq_thread solo t a (cq_goto t (CqTurn (rr_claim c)) a)"
    using S(4) [of "rr_end (rk_call c)"] S(9) [of t] p True by (intro cq_turn) simp_all
  moreover have "rr_sim solo k (rr_goto t (RrStore c) s) (cq_goto t (CqTurn (rr_claim c)) a)"
    using S(10) [of t] p by (intro rr_sim_goto [OF sim]) (simp_all add: rr_alone_def rr_room_ok_def)
  ultimately show ?thesis using True cq_thread_steps [OF t] by fastforce
qed (use sim in auto)

lemma rr_store_sim:
  assumes sim: "rr_sim solo k s a" and inv: "cq_inv solo N a" and t: "t < N" and b: "length (rr_in s) < 2 ^ k" "k \<le> 31" and p: "rr_pc s t = RrStore c"
  shows "\<exists>a'. (cq_step solo N)\<^sup>*\<^sup>* a a' \<and> rr_sim solo k (rr_next t (RrStore c) s) a'"
proof -
  note S = rr_simD [OF sim]
  let ?e = "rr_end (rk_call c)" and ?c = "rr_claim c"
  have pc: "cq_pc a t = CqTurn ?c" using S(9) [of t] p by simp
  then have ok: "claim_ok a ?c" "ck_start ?c = tail_pos a ?e" using cq_invD(4,9) [OF inv, of t] by simp_all
  then have tl: "ring_tail ?e (rr_ring s) = rk_pos c" using S(4) [of ?e] by (simp add: tail_pos_def ck_start_def word_unat_eq_iff)
  have "unat (rk_pos c) + unat (rk_len c) \<le> limit a ?e"
    using ok(1) cq_invD(3) [OF inv, of ?e] by (simp add: claim_ok_def ck_stop_def ends_ok_def)
  then have sum: "unat (rk_pos c + rk_len c) = unat (rk_pos c) + unat (rk_len c)"
    using rr_limit_less [OF sim inv b, of ?e] rr_limit_cq [OF sim, of ?e] by (simp add: unat_add_u32)
  let ?w = "pos (tail_of ?e (cq_q a))"
  let ?a = "cq_goto t (CqAdd ?c ?w) a"
  let ?q = "set_tail ?e ((tail_of ?e (cq_q a))\<lparr>pos := rk_pos c + rk_len c\<rparr>) (cq_q a)"
  let ?a' = "cq_return t (Served ?c) (?a\<lparr>cq_q := ?q\<rparr>)"
  have w: "?w = rk_pos c" using S(4) [of ?e] tl by simp
  have "cq_thread solo t a ?a" using cq_load [OF pc, of solo] by simp
  moreover have "cq_thread solo t ?a ?a'" using cq_store [of ?a t ?c ?w solo] w by simp
  ultimately have run: "(cq_step solo N)\<^sup>*\<^sup>* a ?a'" using cq_thread_steps [OF t] by (meson rtranclp_trans)
  let ?r = "set_ring_tail ?e (rk_pos c + rk_len c) (rr_ring s)"
  let ?s = "rr_return t (rk_call c) RTE_RING_OK (rk_done c) (s\<lparr>rr_ring := ?r\<rparr>)"
  have lim: "rr_limit e (rr_ring s) \<le> rr_limit e ?r" for e using tl sum by (cases e; cases ?e) simp_all
  have q: "conq_slot ?q = conq_slot (cq_q a)" "max_size ?q = max_size (cq_q a)"
    by (cases ?e; simp add: fun_eq_iff conq_slot_def to_id_def)+
  have "rr_sim solo k ?s ?a'"
  proof (rule rr_sim_upd [OF sim, where t = t and p = RrIdle and p' = CqIdle])
    show "rr_heads (rr_ring ?s) (cq_q ?a')" using S(3-5) by (simp add: rr_heads_def rr_return_def cq_return_def)
    show "rr_cells k (rr_ring ?s) (cq_q ?a')" using S(6) by (simp add: rr_cells_def rr_return_def cq_return_def q)
    show "map cq_response (cq_log ?a') = map rr_response (filter rr_seen (rr_log ?s))"
      using S(8) by (simp add: rr_return_def cq_return_def rr_seen_def)
  qed (use S lim q in \<open>simp_all add: rr_return_def cq_return_def rr_alone_def rr_room_ok_def\<close>)
  then show ?thesis using run by auto
qed

section \<open>All steps\<close>

lemma rr_next_in: "\<exists>xs. rr_in (rr_next t p s) = rr_in s @ xs"
  by (cases p) (auto simp: rr_goto_def rr_return_def rr_take_def split: option.splits run.splits)

lemma rr_step_in: "rr_step P solo N s s' \<Longrightarrow> \<exists>xs. rr_in s' = rr_in s @ xs"
  using rr_next_in by (fastforce simp: rr_step_def rr_thread_def rr_begin_def rr_goto_def split: if_splits)

abbreviation "rr_asks \<equiv> \<lambda>c. rr_want c \<noteq> 0"

lemma rr_thread_sim:
  assumes sim: "rr_sim solo k s a" and inv: "cq_inv solo N a" and t: "t < N" and b: "length (rr_in s) < 2 ^ k" "k \<le> 31"
    and st: "rr_thread rr_asks solo t s s'"
  shows "\<exists>a'. (cq_step solo N)\<^sup>*\<^sup>* a a' \<and> rr_sim solo k s' a'"
proof -
  note S = rr_simD(9,10) [OF sim, of t]
  show ?thesis
  proof (cases "rr_pc s t")
    case RrIdle
    then obtain c where "rr_want c \<noteq> 0" "rr_may solo (rr_ring s) t c" "s' = rr_begin t c s" using st by (auto simp: rr_thread_def)
    then show ?thesis using rr_load_sim [OF sim t] S(1) RrIdle by simp
  next
    case (RrTest c h)
    then show ?thesis using rr_test_sim [OF sim inv t] st by (simp add: rr_thread_def del: rr_next.simps)
  next
    case (RrClaim c h l)
    then show ?thesis using rr_claim_sim [OF sim inv t _ b] st by (simp add: rr_thread_def del: rr_next.simps)
  next
    case (RrRetry c)
    then have "rr_may solo (rr_ring s) t c" using S(2) by (simp add: rr_alone_def rr_may_def)
    then show ?thesis using rr_load_sim [OF sim t] S(1) RrRetry st by (auto simp: rr_thread_def rr_begin_def split: if_splits)
  next
    case (RrWork c)
    then show ?thesis using rr_work_sim [OF sim inv t b] st by (simp add: rr_thread_def del: rr_next.simps)
  next
    case (RrWait c)
    then show ?thesis using rr_wait_sim [OF sim t] st by (simp add: rr_thread_def del: rr_next.simps)
  next
    case (RrStore c)
    then show ?thesis using rr_store_sim [OF sim inv t b] st by (simp add: rr_thread_def del: rr_next.simps)
  qed
qed

end
