(* ===== verification/Rte_Ring_Conc_Properties.thy ===== *)
theory Rte_Ring_Conc_Properties
  imports Rte_Ring_Conc_Sim
begin

text \<open>
  The properties of \<open>RteRing\<close> used by several threads: an atomic bounded queue during its first lap, for all calls that ask for at
  least one element; and blocked for ever by one bulk enqueue of no element.
\<close>

section \<open>The mapping to the specification\<close>

definition rr_items :: "'a rr_state \<Rightarrow> 'a list" where
  "rr_items s = drop (unat (rt_cons_head (rr_ring s))) (take (unat (rt_prod_tail (rr_ring s))) (rr_in s))"

definition rr_claimed :: "'a list \<Rightarrow> 'a rr_claim \<Rightarrow> 'a at_status" where
  "rr_claimed xs k = (case rr_end (rk_call k) of
       ProdEnd \<Rightarrow> AtCalled (rr_cq (rk_call k))
     | ConsEnd \<Rightarrow> AtTaken (rr_cq (rk_call k)) (take (unat (rk_len k)) (drop (unat (rk_pos k)) xs)))"

definition rr_unclaimed :: "'a rr_call \<Rightarrow> 'a at_status" where
  "rr_unclaimed c = (if rr_fixed c then AtIdle else AtCalled (rr_cq c))"

fun rr_status :: "'a list \<Rightarrow> 'a rr_pc \<Rightarrow> 'a at_status" where
  "rr_status xs RrIdle = AtIdle"
| "rr_status xs (RrTest c h) = rr_unclaimed c"
| "rr_status xs (RrClaim c h l) = rr_unclaimed c"
| "rr_status xs (RrRetry c) = rr_unclaimed c"
| "rr_status xs (RrWork k) = rr_claimed xs k"
| "rr_status xs (RrWait k) = rr_claimed xs k"
| "rr_status xs (RrStore k) = rr_claimed xs k"

definition rr_abs :: "'a rr_state \<Rightarrow> 'a at_queue" where
  "rr_abs s = \<lparr>at_items = rr_items s, at_status = (\<lambda>t. rr_status (rr_in s) (rr_pc s t)),
     at_log = map rr_response (filter rr_seen (rr_log s))\<rparr>"

lemma match_status: "rr_match p p' \<Longrightarrow> cq_status xs p' = rr_status xs p"
  by (cases p) (auto simp: cq_status_claim rr_unclaimed_def rr_claimed_def ck_block_def ck_start_def split: cq_end.splits if_splits)

lemma rr_sim_abs:
  assumes sim: "rr_sim solo k s a" and inv: "cq_inv solo N a"
  shows "cq_abs a = rr_abs s"
proof -
  note S = rr_simD [OF sim]
  have "claimed a ConsEnd = unat (rt_cons_head (rr_ring s))" using rr_room_limit(2) [OF sim inv, of ConsEnd] by simp
  moreover have "tail_pos a ProdEnd = unat (rt_prod_tail (rr_ring s))" using S(4) [of ProdEnd] by (simp add: tail_pos_def)
  ultimately have "cq_items a = rr_items s" using S(7) by (simp add: cq_items_def rr_items_def)
  then show ?thesis using S(7,8) match_status [OF S(9)] by (simp add: cq_abs_def rr_abs_def)
qed

section \<open>Reachable states\<close>

definition rr_rel :: "(cq_end \<Rightarrow> nat) \<Rightarrow> nat \<Rightarrow> nat \<Rightarrow> 'a conqueue \<Rightarrow> 'a rr_state \<Rightarrow> 'a cq_state \<Rightarrow> bool" where
  "rr_rel solo N k q s a \<longleftrightarrow> k \<le> 31 \<and> cq_fresh q \<and> (cq_step solo N)\<^sup>*\<^sup>* (cq_start q) a \<and> rr_sim solo k s a"

lemma rr_rel_inv:
  assumes "rr_rel solo N k q s a" "length (rr_in s) < 2 ^ k"
  shows "cq_inv solo N a"
proof -
  have "(2 :: nat) ^ k \<le> 2 ^ 31" using assms(1) by (intro power_increasing) (simp_all add: rr_rel_def)
  then have "length (cq_in a) < 2 ^ 32" using assms rr_simD(7) [of solo k s a] by (simp add: rr_rel_def)
  then show ?thesis using assms(1) cq_reach_inv [OF _ cq_init_start] unfolding rr_rel_def by blast
qed

interpretation rrc: simulation "cq_step solo N" "rr_step rr_asks solo N" "rr_rel solo N k q" "\<lambda>s. length (rr_in s) < 2 ^ k"
  for solo N k and q :: "'a conqueue"
proof unfold_locales
  fix s s' :: "'a rr_state" and a
  have less: "length (rr_in s) < 2 ^ k" if "rr_step rr_asks solo N s s'" "length (rr_in s') < 2 ^ k"
    using rr_step_in [OF that(1)] that(2) by auto
  then show "rr_step rr_asks solo N s s' \<Longrightarrow> length (rr_in s') < 2 ^ k \<Longrightarrow> length (rr_in s) < 2 ^ k" .
  assume r: "rr_rel solo N k q s a" and st: "rr_step rr_asks solo N s s'" and ok: "length (rr_in s') < 2 ^ k"
  obtain t where "t < N" "rr_thread rr_asks solo t s s'" using st by (auto simp: rr_step_def)
  with r rr_thread_sim [OF _ rr_rel_inv [OF r less [OF st ok]] _ less [OF st ok]]
  obtain a' where "(cq_step solo N)\<^sup>*\<^sup>* a a'" "rr_sim solo k s' a'" by (auto simp: rr_rel_def)
  then show "\<exists>a'. (cq_step solo N)\<^sup>*\<^sup>* a a' \<and> rr_rel solo N k q s' a'"
    using r unfolding rr_rel_def by (meson rtranclp_trans)
qed

lemma rr_rel_start:
  assumes "1 \<le> k" "k \<le> 31"
  obtains q :: "'a conqueue" where "conq_ctor_alloc (mask k) 0 = Ret q" "rr_rel solo N k q (rr_start (rte_ctor mp mc (2 ^ k))) (cq_start q)"
proof -
  have "(2 :: nat) ^ 1 \<le> 2 ^ k" using assms(1) by (intro power_increasing) simp_all
  moreover have "(2 :: nat) ^ k \<le> 2 ^ 31" using assms(2) by (intro power_increasing) simp_all
  ultimately have k: "2 \<le> (2 :: nat) ^ k" "(2 :: nat) ^ k \<le> 2 ^ 31" by simp_all
  have m: "unat (mask k :: u32) = 2 ^ k - 1" using assms(2) by (intro unat_mask_u32) simp
  then have nz: "(mask k :: u32) \<noteq> 0" "unat (mask k :: u32) \<le> 2 ^ 31" using k assms(1) by auto
  then obtain q :: "'a conqueue" where q: "conq_ctor_alloc (mask k) 0 = Ret q"
    by (auto simp: conq_ctor_alloc_def conq_ctor_def has_flag_def Let_def)
  note F = ctor_fresh [OF q nz(2)]
  have c: "head_of e q = rr_pos 0 \<and> tail_of e q = rr_pos 0" "ring q = (\<lambda>_. None)" for e
    using F(1) by (simp_all add: cq_fresh_def)
  have "mode_of e q = Default" for e
    using F(3) by (cases e) (simp_all add: has_flag_def conq_default_flags_def conq_flag_defs)
  then have "rr_sim solo k (rr_start (rte_ctor mp mc (2 ^ k))) (cq_start q)"
    using c F(2) by (auto simp: rr_sim_def rr_start_def rte_ctor_def cq_start_def rr_heads_def rr_cells_def rr_alone_def rr_room_ok_def all_ends mask_eq_decr_exp)
  then show ?thesis using q F(1) assms(2) by (intro that) (simp_all add: rr_rel_def)
qed

section \<open>The first lap\<close>

lemma rr_first_lap:
  assumes "1 \<le> k" "k \<le> 31" "(rr_step rr_asks solo N)\<^sup>*\<^sup>* (rr_start (rte_ctor mp mc (2 ^ k))) s" "length (rr_in s) < 2 ^ k"
  shows "(at_step (2 ^ k - 1) N)\<^sup>*\<^sup>* at_init (rr_abs s) \<and> \<not> rr_ub s"
proof -
  obtain q :: "'a conqueue" where q: "conq_ctor_alloc (mask k) 0 = Ret q" "rr_rel solo N k q (rr_start (rte_ctor mp mc (2 ^ k))) (cq_start q)"
    by (rule rr_rel_start [OF assms(1,2)])
  from rrc.sim_steps [OF assms(3) q(2) assms(4)] obtain a where a: "rr_rel solo N k q s a" by blast
  then have R: "cq_fresh q" "(cq_step solo N)\<^sup>*\<^sup>* (cq_start q) a" "rr_sim solo k s a" by (simp_all add: rr_rel_def)
  have m: "unat (mask k :: u32) = 2 ^ k - 1" using assms(2) by (intro unat_mask_u32) simp
  have k: "(2 :: nat) ^ k \<le> 2 ^ 31" using assms(2) by (intro power_increasing) simp_all
  have F: "max_size q = mask k" "flags q = conq_default_flags 0" using ctor_fresh(2,3) [OF q(1)] m k by simp_all
  have strict: "cq_strict b" if "conq_cfg (cq_q b) = conq_cfg q" for b :: "'a cq_state"
    by (rule modes_strict [OF that F(2)]) (simp_all add: has_flag_def)
  have "length (cq_in a) + unat (max_size q) < 2 ^ 32" using F(1) m k assms(4) rr_simD(7) [OF R(3)] by simp
  then have "(at_step (unat (max_size q)) N)\<^sup>*\<^sup>* at_init (cq_abs a)"
    by (rule reach_abs [OF R(1) cq_init_start R(2) _ strict])
  then show ?thesis using F(1) m rr_sim_abs [OF R(3) rr_rel_inv [OF a assms(4)]] rr_simD(12) [OF R(3)] by simp
qed

text \<open>Property C6: a \<open>RteRing\<close> of any size, in any mode and used by any number of threads at once, is an atomic queue bounded by
  \<open>size - 1\<close> during its first lap (fewer than \<open>size\<close> elements claimed in all, which the benchmark respects): every
  interleaving of the accesses of single and bulk calls that ask for at least one element maps to steps of the specification, with the
  same calls and results (refused calls with \<open>fixed\<close> have no effect and do not appear), and no unwritten cell is read.\<close>

theorem rte_conc_first_lap:
  assumes "1 \<le> k" "k \<le> 31" "(rr_step rr_asks solo N)\<^sup>*\<^sup>* (rr_start (rte_ctor mp mc (2 ^ k))) s" "length (rr_in s) < 2 ^ k"
  shows "(at_step (2 ^ k - 1) N)\<^sup>*\<^sup>* at_init (rr_abs s) \<and> \<not> rr_ub s"
  by (rule rr_first_lap [OF assms])

text \<open>The exchange of thread 0 fails once; its bulk call then gets one place only. Thread 1 is refused a \<open>fixed\<close> call.\<close>

definition lap_schedule :: "nat rr_move list" where
  "lap_schedule = [RrBegin 0 (RrEnqBulk [5, 6] False), RrGo 0, RrBegin 1 (RrEnqBulk [7, 8] True), RrGo 1, RrGo 1, RrGo 0, RrGo 0, RrGo 0, RrGo 0,
     RrGo 0, RrGo 0, RrGo 0, RrGo 1, RrGo 1, RrGo 1, RrGo 1, RrGo 1, RrGo 0, RrGo 0, RrBegin 1 (RrDeqBulk 4 True), RrGo 1, RrBegin 1 RrDeq, RrGo 1, RrGo 1,
     RrGo 1]"

lemma rte_conc_first_lap_witness:
  "\<exists>s. map rr_response (rr_log s) = [(1, PushBulk [7, 8], [7, 8 :: nat]), (0, PushBulk [5, 6], [5]), (1, PopBulk 4, [])] \<and>
     at_status (rr_abs s) 1 = AtTaken Pop [7] \<and> at_items (rr_abs s) = [8, 5] \<and> (at_step 3 2)\<^sup>*\<^sup>* at_init (rr_abs s)"
proof -
  let ?r = "rte_ctor True True (2 ^ 2)"
  have "map_option (\<lambda>s. (map rr_response (rr_log s), rr_in s, at_status (rr_abs s) 1, at_items (rr_abs s))) (rr_run lap_schedule (rr_start ?r)) =
    Some ([(1, PushBulk [7, 8], [7, 8]), (0, PushBulk [5, 6], [5]), (1, PopBulk 4, [])], [7, 8, 5], AtTaken Pop [7], [8, 5])"
    by code_simp
  then obtain s where s: "rr_run lap_schedule (rr_start ?r) = Some s" "rr_in s = [7, 8, 5]"
    "map rr_response (rr_log s) = [(1, PushBulk [7, 8], [7, 8]), (0, PushBulk [5, 6], [5]), (1, PopBulk 4, [])]"
    "at_status (rr_abs s) 1 = AtTaken Pop [7]" "at_items (rr_abs s) = [8, 5]"
    by (cases "rr_run lap_schedule (rr_start ?r)") auto
  have "(rr_step rr_asks (\<lambda>_. 0) 2)\<^sup>*\<^sup>* (rr_start ?r) s"
    by (rule rr_run_steps [OF s(1)]) (simp add: lap_schedule_def rr_may_def rr_start_def rte_ctor_def)
  then have "(at_step (2 ^ 2 - 1) 2)\<^sup>*\<^sup>* at_init (rr_abs s)"
    using rte_conc_first_lap [of 2 "\<lambda>_. 0" 2 True True s] s(2) by simp
  then show ?thesis using s(3-5) by (intro exI [of _ s]) simp
qed

section \<open>A bulk enqueue of nothing\<close>

text \<open>
  A call with \<open>n = 0\<close> claims no place and still stores the tail. When it is overtaken between its test of the tail
  and its store, the tail moves back. After that every enqueue waits for a tail that nobody will set.
\<close>

fun jam_pc :: "u32 \<Rightarrow> 'a rr_pc \<Rightarrow> bool" where
  "jam_pc m RrIdle \<longleftrightarrow> True"
| "jam_pc m (RrTest c h) \<longleftrightarrow> (if rr_end c = ProdEnd then 0 < unat h \<and> unat h \<le> unat m else h = 0)"
| "jam_pc m (RrClaim c h l) \<longleftrightarrow> (if rr_end c = ProdEnd then 0 < unat h \<and> unat h + unat l \<le> unat m else h = 0 \<and> l = 0)"
| "jam_pc m (RrRetry c) \<longleftrightarrow> True"
| "jam_pc m (RrWork k) \<longleftrightarrow> (if rr_end (rk_call k) = ProdEnd then rk_pos k \<noteq> 0 else rk_pos k = 0 \<and> rk_len k = 0 \<and> rk_done k = [])"
| "jam_pc m (RrWait k) \<longleftrightarrow> (if rr_end (rk_call k) = ProdEnd then rk_pos k \<noteq> 0 else rk_pos k = 0 \<and> rk_len k = 0 \<and> rk_done k = [])"
| "jam_pc m (RrStore k) \<longleftrightarrow> rr_end (rk_call k) = ConsEnd \<and> rk_pos k = 0 \<and> rk_len k = 0 \<and> rk_done k = []"

definition jammed :: "(nat \<times> 'a rr_call \<times> rte_status \<times> 'a list) set \<Rightarrow> 'a rr_state \<Rightarrow> bool" where
  "jammed L s \<longleftrightarrow> rt_mp (rr_ring s) \<and> rt_prod_tail (rr_ring s) = 0 \<and> rt_cons_head (rr_ring s) = 0 \<and> rt_cons_tail (rr_ring s) = 0 \<and>
     0 < unat (rt_prod_head (rr_ring s)) \<and> unat (rt_prod_head (rr_ring s)) \<le> unat (rt_mask (rr_ring s)) \<and>
     (\<forall>t. jam_pc (rt_mask (rr_ring s)) (rr_pc s t)) \<and> (\<forall>x\<in>set (rr_log s). x \<in> L \<or> snd (snd (snd x)) = [])"

lemma jam_goto: "jammed L s \<Longrightarrow> jam_pc (rt_mask (rr_ring s)) p \<Longrightarrow> jammed L (rr_goto t p s)"
  by (simp add: jammed_def rr_goto_def)

lemma jam_return: "jammed L s \<Longrightarrow> jammed L (rr_return t c r [] s)"
  by (auto simp: jammed_def rr_return_def)

lemma grant_le: "rr_grant c a = Some l \<Longrightarrow> l \<le> a"
proof -
  assume g: "rr_grant c a = Some l"
  have one: "1 \<le> a" if "a \<noteq> 0" using that by (simp add: word_le_nat_alt unat_gt_0 Suc_le_eq)
  show ?thesis using g one by (cases c) (auto simp: Let_def split: if_splits)
qed

lemma jam_next:
  assumes j: "jammed L s" and p: "rr_pc s t = p"
  shows "jammed L (rr_next t p s)"
proof -
  let ?r = "rr_ring s"
  have J: "rt_mp ?r" "rt_prod_tail ?r = 0" "rt_cons_head ?r = 0" "rt_cons_tail ?r = 0" "0 < unat (rt_prod_head ?r)"
    "unat (rt_prod_head ?r) \<le> unat (rt_mask ?r)" "jam_pc (rt_mask ?r) p"
    using j p unfolding jammed_def by blast+
  show ?thesis
  proof (cases p)
    case (RrTest c h)
    show ?thesis
    proof (cases "rr_grant c (rr_room (rr_end c) h ?r)")
      case (Some l)
      have "jam_pc (rt_mask ?r) (RrClaim c h l)"
      proof (cases "rr_end c")
        case ProdEnd
        have "h \<le> rt_mask ?r" using J(7) RrTest ProdEnd by (simp add: word_le_nat_alt)
        then have "unat (rt_mask ?r - h) = unat (rt_mask ?r) - unat h" "unat h \<le> unat (rt_mask ?r)" by (simp_all add: unat_sub word_le_nat_alt)
        then show ?thesis using grant_le [OF Some] J(4,7) RrTest ProdEnd by (simp add: word_le_nat_alt)
      next
        case ConsEnd
        then show ?thesis using grant_le [OF Some] J(2,7) RrTest by simp
      qed
      then show ?thesis using RrTest Some jam_goto [OF j] by simp
    qed (use RrTest jam_return [OF j] in simp)
  next
    case (RrClaim c h l)
    show ?thesis
    proof (cases "ring_multi (rr_end c) ?r \<and> ring_head (rr_end c) ?r \<noteq> h")
      case False
      let ?k = "\<lparr>rk_call = c, rk_pos = h, rk_len = l, rk_done = []\<rparr>"
      have "jammed L (rr_take c h l s)"
      proof (cases "rr_end c")
        case ProdEnd
        then have "unat h + unat l \<le> unat (rt_mask ?r)" "0 < unat h" using J(7) RrClaim by simp_all
        moreover from this have "unat h + unat l < 4294967296" using unat_u32_less [of "rt_mask ?r"] by linarith
        then have "unat (h + l) = unat h + unat l" by (simp add: unat_add_u32)
        ultimately show ?thesis using j ProdEnd by (simp add: jammed_def rr_take_def)
      next
        case ConsEnd
        then show ?thesis using j J(7) RrClaim by (simp add: jammed_def rr_take_def)
      qed
      moreover have "jam_pc (rt_mask (rr_ring (rr_take c h l s))) (RrWork ?k)"
        using J(7) RrClaim by (auto split: if_splits)
      ultimately have "jammed L (rr_goto t (RrWork ?k) (rr_take c h l s))" by (rule jam_goto)
      then show ?thesis using False RrClaim by auto
    qed (use RrClaim jam_goto [OF j] in simp)
  next
    case (RrRetry c)
    have "jam_pc (rt_mask ?r) (RrTest c (ring_head (rr_end c) ?r))" using J by (cases "rr_end c") simp_all
    then show ?thesis using RrRetry jam_goto [OF j] by simp
  next
    case (RrWork k)
    show ?thesis
    proof (cases "length (rk_done k) < unat (rk_len k)")
      case True
      then have e: "rr_end (rk_call k) = ProdEnd" using J(7) RrWork by (auto split: if_splits)
      then obtain x r where a: "rr_access k ?r = Ret (x, r)" by (simp add: rr_access_def rr_put_def rr_get_def Let_def)
      then have "jammed L (s\<lparr>rr_ring := r\<rparr>)" using j e by (auto simp: jammed_def rr_access_def rr_put_def rr_get_def Let_def)
      then have "jammed L (rr_goto t (RrWork (k\<lparr>rk_done := rk_done k @ [x]\<rparr>)) (s\<lparr>rr_ring := r\<rparr>))"
        by (rule jam_goto) (use J(7) RrWork e in simp)
      then show ?thesis using True RrWork a by simp
    next
      case False
      have "jam_pc (rt_mask ?r) (if ring_multi (rr_end (rk_call k)) ?r then RrWait k else RrStore k)"
        using J(1,7) RrWork by (cases "rr_end (rk_call k)") simp_all
      then show ?thesis using False RrWork jam_goto [OF j] by simp
    qed
  next
    case (RrWait k)
    show ?thesis
    proof (cases "ring_tail (rr_end (rk_call k)) ?r = rk_pos k")
      case True
      then have "jam_pc (rt_mask ?r) (RrStore k)" using J(2,7) RrWait by (cases "rr_end (rk_call k)") auto
      then show ?thesis using True RrWait jam_goto [OF j] by simp
    qed (use RrWait j in simp)
  next
    case (RrStore k)
    then have k: "rr_end (rk_call k) = ConsEnd" "rk_pos k = 0" "rk_len k = 0" "rk_done k = []" using J(7) by simp_all
    have "jammed L (s\<lparr>rr_ring := set_ring_tail ConsEnd 0 ?r\<rparr>)" using j by (simp add: jammed_def)
    then show ?thesis using RrStore k jam_return by simp
  qed (use j in simp)
qed

lemma jam_step:
  assumes "jammed L s" "rr_step P solo N s s'"
  shows "jammed L s'"
proof -
  obtain t where t: "rr_thread P solo t s s'" using assms(2) by (auto simp: rr_step_def)
  show ?thesis
  proof (cases "rr_pc s t = RrIdle")
    case True
    then obtain c where "s' = rr_begin t c s" using t by (auto simp: rr_thread_def)
    moreover have "jam_pc (rt_mask (rr_ring s)) (RrTest c (ring_head (rr_end c) (rr_ring s)))"
      using assms(1) by (cases "rr_end c") (simp_all add: jammed_def)
    ultimately show ?thesis using jam_goto [OF assms(1)] by (simp add: rr_begin_def)
  next
    case False
    then show ?thesis using t jam_next [OF assms(1)] by (simp add: rr_thread_def)
  qed
qed

lemma jam_steps: "(rr_step P solo N)\<^sup>*\<^sup>* s s' \<Longrightarrow> jammed L s \<Longrightarrow> jammed L s'"
  by (induction rule: rtranclp_induct) (auto intro: jam_step)

definition jam_schedule :: "'a \<Rightarrow> 'a rr_move list" where
  "jam_schedule x = [RrBegin 0 (RrEnqBulk [] False), RrGo 0, RrGo 0, RrGo 0, RrGo 0, RrBegin 1 (RrEnq x), RrGo 1, RrGo 1, RrGo 1, RrGo 1, RrGo 1, RrGo 1, RrGo 0]"

lemma jam_run:
  assumes "m \<noteq> 0"
  shows "\<exists>s. rr_run (jam_schedule x) (rr_start (rte_ctor True mc (m + 1))) = Some s \<and> rr_pc s = (\<lambda>_. RrIdle) \<and>
    rr_log s = [(1, RrEnq x, RTE_RING_OK, [x]), (0, RrEnqBulk [] False, RTE_RING_OK, [])] \<and>
    rr_ring s = (rte_ctor True mc (m + 1))\<lparr>rt_prod_head := 1, rt_objs := [0 \<mapsto> x]\<rparr>"
  using assms by (simp add: jam_schedule_def rr_start_def rte_ctor_def rr_begin_def rr_goto_def rr_take_def rr_access_def rr_put_def rr_get_def rr_return_def fun_eq_iff)

text \<open>Property C25: one bulk enqueue with \<open>n = 0\<close> can block a multi-producer \<open>RteRing\<close> of any size for ever. Thread 0 begins
  it; before it stores the tail, thread 1 enqueues \<open>x\<close>, and is told that it is done. Both calls have returned; but from then
  on, whatever any number of threads call, \<open>x\<close> is not delivered, and no call returns that has moved an element.\<close>

theorem rte_empty_bulk_blocks:
  assumes "1 \<le> k" "k \<le> 31"
  shows "\<exists>s. (rr_step (\<lambda>_. True) solo 2)\<^sup>*\<^sup>* (rr_start (rte_ctor True mc (2 ^ k))) s \<and> (\<forall>t. rr_pc s t = RrIdle) \<and>
     rr_log s = [(1, RrEnq x, RTE_RING_OK, [x]), (0, RrEnqBulk [] False, RTE_RING_OK, [])] \<and>
     (\<forall>N s'. (rr_step (\<lambda>_. True) solo N)\<^sup>*\<^sup>* s s' \<longrightarrow> (\<forall>r\<in>set (rr_log s') - set (rr_log s). snd (snd (snd r)) = []))"
proof -
  let ?m = "mask k :: u32"
  have m: "unat ?m = 2 ^ k - 1" using assms(2) by (intro unat_mask_u32) simp
  have k: "(2 :: nat) ^ 1 \<le> 2 ^ k" using assms(1) by (intro power_increasing) simp_all
  have nz: "?m \<noteq> 0" "1 \<le> unat ?m" using m k assms(1) by auto
  have sz: "?m + 1 = 2 ^ k" by (simp add: mask_eq_decr_exp)
  obtain s where s: "rr_run (jam_schedule x) (rr_start (rte_ctor True mc (2 ^ k))) = Some s" "rr_pc s = (\<lambda>_. RrIdle)"
    "rr_log s = [(1, RrEnq x, RTE_RING_OK, [x]), (0, RrEnqBulk [] False, RTE_RING_OK, [])]"
    "rr_ring s = (rte_ctor True mc (2 ^ k))\<lparr>rt_prod_head := 1, rt_objs := [0 \<mapsto> x]\<rparr>"
    using jam_run [OF nz(1), of x mc] unfolding sz by blast
  have "jammed (set (rr_log s)) s" using nz(2) sz s(2,4) by (simp add: jammed_def rte_ctor_def flip: sz)
  then have "jammed (set (rr_log s)) s'" if "(rr_step (\<lambda>_. True) solo N)\<^sup>*\<^sup>* s s'" for N s'
    using jam_steps [OF that] by blast
  then have "\<forall>N s'. (rr_step (\<lambda>_. True) solo N)\<^sup>*\<^sup>* s s' \<longrightarrow> (\<forall>r\<in>set (rr_log s') - set (rr_log s). snd (snd (snd r)) = [])"
    unfolding jammed_def by blast
  moreover have "(rr_step (\<lambda>_. True) solo 2)\<^sup>*\<^sup>* (rr_start (rte_ctor True mc (2 ^ k))) s"
    by (rule rr_run_steps [OF s(1)]) (simp add: jam_schedule_def rr_may_def rr_start_def rte_ctor_def)
  ultimately show ?thesis using s(2,3) by (intro exI [of _ s]) simp
qed

lemma rte_empty_bulk_blocks_witness:
  "\<exists>s. (rr_step (\<lambda>_. True) (\<lambda>_. 0) 2)\<^sup>*\<^sup>* (rr_start (rte_ctor True True (2 ^ 20))) s \<and>
     rr_log s = [(1, RrEnq (7 :: nat), RTE_RING_OK, [7]), (0, RrEnqBulk [] False, RTE_RING_OK, [])] \<and>
     (\<forall>N s'. (rr_step (\<lambda>_. True) (\<lambda>_. 0) N)\<^sup>*\<^sup>* s s' \<longrightarrow> (\<forall>r\<in>set (rr_log s') - set (rr_log s). snd (snd (snd r)) = []))"
  using rte_empty_bulk_blocks [of 20 "\<lambda>_. 0" True "7 :: nat"] by auto

end
