(* ===== verification/Mbench.thy ===== *)
theory Mbench
  imports Prelude
begin

text \<open>
  \<open>mbench_base\<close> of mbench.h: \<open>run_test_task\<close> splits \<open>iteration\<close> operations among the threads of each group,
  numbers them, and reports a phase every \<open>output_internal\<close> operations of a thread. The operations and hooks
  are virtual functions of the user; the model gives the calls each thread makes, in order.
\<close>

section \<open>One thread\<close>

text \<open>A thread calls \<open>test_thread_op\<close> with a number, and \<open>test_phase_output\<close>, whose number \<open>oiter\<close> comes from a
  counter all threads share.\<close>

datatype bench_call = ThreadOp u32 | PhaseOutput

text \<open>\<open>iteration_per_thread\<close>, and the number of the operation \<open>thread_iter\<close>, in 32-bit arithmetic.\<close>

definition iteration_per_thread :: "u32 \<Rightarrow> int \<Rightarrow> u32" where
  "iteration_per_thread iteration n = iteration div word_of_int n"

definition op_number :: "nat \<Rightarrow> u32 \<Rightarrow> u32 \<Rightarrow> u32" where
  "op_number thread_id ipt thread_iter = of_nat thread_id * ipt + thread_iter"

text \<open>The loop over \<open>thread_iter\<close>; the number left to do decreases. A remainder by zero is undefined.\<close>

fun thread_loop :: "u32 \<Rightarrow> nat \<Rightarrow> u32 \<Rightarrow> nat \<Rightarrow> u32 \<Rightarrow> bench_call list run" where
  "thread_loop interval thread_id ipt 0 i = Ret []"
| "thread_loop interval thread_id ipt (Suc m) i =
    (if interval = 0 then UB
     else run_bind (thread_loop interval thread_id ipt m (i + 1)) (\<lambda>cs.
       Ret (ThreadOp (op_number thread_id ipt i) # (if (i + 1) mod interval = 0 then [PhaseOutput] else []) @ cs)))"

definition thread_body :: "u32 \<Rightarrow> u32 \<Rightarrow> int \<Rightarrow> nat \<Rightarrow> bench_call list run" where
  "thread_body iteration interval n thread_id =
    (let ipt = iteration_per_thread iteration n in thread_loop interval thread_id ipt (unat ipt) 0)"

text \<open>\<open>oiter\<close> of the \<open>k\<close>-th report.\<close>

definition phase_number :: "u32 \<Rightarrow> nat \<Rightarrow> u32" where
  "phase_number interval k = (of_nat k + 1) * interval"

section \<open>All threads\<close>

text \<open>
  A group whose size does not divide \<open>iteration\<close> makes \<open>run_test_task\<close> throw; when threads of an earlier
  group are already running, their \<open>std::thread\<close> objects are destroyed and the program is terminated.
\<close>

fun start_groups :: "u32 \<Rightarrow> int list \<Rightarrow> nat \<Rightarrow> (int \<times> nat) list run" where
  "start_groups iteration [] thread_id = Ret []"
| "start_groups iteration (n # ns) thread_id =
    (if word_of_int n = (0 :: u32) then UB
     else if iteration mod word_of_int n \<noteq> 0 then
       Throw (if thread_id = 0 then ''need iteration % thread_cnt == 0'' else ''std::terminate'')
     else run_bind (start_groups iteration ns (thread_id + nat n)) (\<lambda>ts.
       Ret (map (\<lambda>i. (n, thread_id + i)) [0..<nat n] @ ts)))"

fun run_all :: "(int \<times> nat) list \<Rightarrow> u32 \<Rightarrow> u32 \<Rightarrow> bench_call list list run" where
  "run_all [] iteration interval = Ret []"
| "run_all ((n, t) # ts) iteration interval =
    run_bind (thread_body iteration interval n t) (\<lambda>c. run_bind (run_all ts iteration interval) (\<lambda>cs. Ret (c # cs)))"

definition run_test_task :: "int list \<Rightarrow> u32 \<Rightarrow> int \<Rightarrow> bench_call list list run" where
  "run_test_task thread_count iteration output_internal_time =
    run_bind (start_groups iteration thread_count 0) (\<lambda>ts.
      if word_of_int output_internal_time = (0 :: u32) then UB
      else run_all ts iteration (iteration div word_of_int output_internal_time))"

section \<open>What the threads do\<close>

fun op_numbers :: "bench_call list \<Rightarrow> u32 list" where
  "op_numbers [] = []"
| "op_numbers (ThreadOp n # cs) = n # op_numbers cs"
| "op_numbers (PhaseOutput # cs) = op_numbers cs"

fun phases :: "bench_call list \<Rightarrow> nat" where
  "phases [] = 0"
| "phases (ThreadOp n # cs) = phases cs"
| "phases (PhaseOutput # cs) = Suc (phases cs)"

lemma op_numbers_append: "op_numbers (cs @ ds) = op_numbers cs @ op_numbers ds"
  by (induction cs rule: op_numbers.induct) auto

lemma thread_loop_numbers:
  assumes "interval \<noteq> 0"
  shows "\<exists>cs. thread_loop interval t ipt m i = Ret cs \<and> op_numbers cs = map (\<lambda>j. op_number t ipt (i + of_nat j)) [0..<m]"
proof (induction m arbitrary: i)
  case (Suc m)
  obtain cs where "thread_loop interval t ipt m (i + 1) = Ret cs"
    "op_numbers cs = map (\<lambda>j. op_number t ipt (i + 1 + of_nat j)) [0..<m]" using Suc by blast
  moreover have "(i + 1) + of_nat j = i + of_nat (Suc j)" for j by (simp add: add.assoc)
  ultimately show ?case using assms by (simp add: op_numbers_append map_upt_Suc del: upt_Suc of_nat_Suc)
qed simp

lemma phases_append: "phases (cs @ ds) = phases cs + phases ds"
  by (induction cs rule: phases.induct) auto

lemma div_Suc_phase: "(a + 1) div n = a div n + of_bool ((a + 1) mod n = (0 :: nat))" if "0 < n"
  using that by (simp add: div_Suc)

lemma thread_loop_phases:
  assumes "interval \<noteq> 0" "unat i + m < 4294967296" "thread_loop interval t ipt m i = Ret cs"
  shows "phases cs = (unat i + m) div unat interval - unat i div unat interval"
  using assms(2,3)
proof (induction m arbitrary: i cs)
  case (Suc m)
  have n: "0 < unat interval" using assms(1) by (simp add: unat_gt_0)
  obtain ds where d: "thread_loop interval t ipt m (i + 1) = Ret ds"
    "cs = ThreadOp (op_number t ipt i) # (if (i + 1) mod interval = 0 then [PhaseOutput] else []) @ ds"
    using Suc.prems(2) assms(1) by (auto simp: run_bind_Ret_iff)
  have u: "unat (i + 1) = unat i + 1" using Suc.prems(1) by (simp add: unat_add_u32)
  have z: "(i + 1) mod interval = 0 \<longleftrightarrow> (unat i + 1) mod unat interval = 0"
  proof -
    have "unat ((i + 1) mod interval) = (unat i + 1) mod unat interval" by (simp only: unat_mod u)
    then show ?thesis by (simp only: unat_eq_0 [symmetric])
  qed
  have ih: "phases ds = (unat i + 1 + m) div unat interval - (unat i + 1) div unat interval"
    using Suc.IH [OF _ d(1)] Suc.prems(1) u by simp
  have le: "(unat i + 1) div unat interval \<le> (unat i + 1 + m) div unat interval" by (intro div_le_mono) simp
  have "phases cs = of_bool ((unat i + 1) mod unat interval = 0) + phases ds"
    using d(2) z by (simp add: phases_append)
  then show ?case using ih le div_Suc_phase [OF n, of "unat i"] by simp
qed simp


section \<open>The whole run\<close>

definition thread_numbers :: "u32 \<Rightarrow> int \<times> nat \<Rightarrow> u32 list" where
  "thread_numbers iteration p = (case p of (n, t) \<Rightarrow>
     map (\<lambda>j. op_number t (iteration_per_thread iteration n) (of_nat j)) [0..<unat (iteration_per_thread iteration n)])"

lemma run_all_numbers:
  assumes "interval \<noteq> 0"
  shows "\<exists>css. run_all ts iteration interval = Ret css \<and> map op_numbers css = map (thread_numbers iteration) ts"
proof (induction ts)
  case (Cons p ts)
  obtain n t where p: "p = (n, t)" by (cases p)
  obtain cs where "thread_body iteration interval n t = Ret cs" "op_numbers cs = thread_numbers iteration p"
    using thread_loop_numbers [OF assms, of t "iteration_per_thread iteration n" "unat (iteration_per_thread iteration n)" 0] p
    by (auto simp: thread_body_def thread_numbers_def Let_def)
  with Cons p show ?case by auto
qed simp

fun group_threads :: "int list \<Rightarrow> nat \<Rightarrow> (int \<times> nat) list" where
  "group_threads [] t = []"
| "group_threads (n # ns) t = map (\<lambda>i. (n, t + i)) [0..<nat n] @ group_threads ns (t + nat n)"

definition divides_run :: "u32 \<Rightarrow> int \<Rightarrow> bool" where
  "divides_run iteration n \<longleftrightarrow> 0 < n \<and> n < 2 ^ 31 \<and> unat iteration mod nat n = 0"

lemma unat_count: "0 < n \<Longrightarrow> n < 2 ^ 31 \<Longrightarrow> unat (word_of_int n :: u32) = nat n"
  using unat_of_nat_u32 [of "nat n"] by simp

lemma divides_run_word:
  assumes "divides_run iteration n"
  shows "word_of_int n \<noteq> (0 :: u32)" "iteration mod word_of_int n = 0"
    "unat (iteration_per_thread iteration n) = unat iteration div nat n"
proof -
  have u: "unat (word_of_int n :: u32) = nat n" using assms by (intro unat_count) (auto simp: divides_run_def)
  then show "word_of_int n \<noteq> (0 :: u32)" using assms by (auto simp: divides_run_def)
  have "unat (iteration mod word_of_int n) = 0" using assms u by (simp only: unat_mod divides_run_def)
  then show "iteration mod word_of_int n = 0" by (simp only: unat_eq_0)
  show "unat (iteration_per_thread iteration n) = unat iteration div nat n"
    unfolding iteration_per_thread_def by (simp only: unat_div u)
qed

lemma start_groups_ok:
  "\<forall>n\<in>set ns. divides_run iteration n \<Longrightarrow> start_groups iteration ns t = Ret (group_threads ns t)"
proof (induction ns arbitrary: t)
  case (Cons n ns)
  then have "divides_run iteration n" by simp
  then have "word_of_int n \<noteq> (0 :: u32)" "iteration mod word_of_int n = 0" by (rule divides_run_word)+
  with Cons show ?case by simp
qed simp

lemma concat_ranges: "concat (map (\<lambda>t. map (\<lambda>j. t * k + j) [0..<k]) [0..<n]) = [0..<n * k]"
proof (induction n)
  case (Suc n)
  have "map (\<lambda>j. n * k + j) [0..<k] = [n * k..<n * k + k]" by (simp add: map_add_upt add.commute)
  moreover have "[0..<Suc n * k] = [0..<n * k] @ [n * k..<n * k + k]"
    using upt_add_eq_append [of 0 "n * k" k] by (simp add: add.commute)
  ultimately show ?case using Suc by simp
qed simp

lemma group_numbers:
  assumes "divides_run iteration n"
  shows "concat (map (thread_numbers iteration) (map (\<lambda>i. (n, i)) [0..<nat n])) = map of_nat [0..<unat iteration]"
proof -
  let ?k = "unat (iteration_per_thread iteration n)"
  have k: "?k = unat iteration div nat n" by (rule divides_run_word(3) [OF assms])
  have "nat n * ?k = unat iteration" unfolding k using assms by (auto simp: divides_run_def)
  then have "map (of_nat :: nat \<Rightarrow> u32) [0..<unat iteration] = map of_nat [0..<nat n * ?k]" by simp
  also have "\<dots> = concat (map (map of_nat) (map (\<lambda>t. map (\<lambda>j. t * ?k + j) [0..<?k]) [0..<nat n]))"
    unfolding concat_ranges [symmetric] map_concat ..
  also have "\<dots> = concat (map (thread_numbers iteration) (map (\<lambda>i. (n, i)) [0..<nat n]))"
    by (simp add: thread_numbers_def op_number_def o_def)
  finally show ?thesis ..
qed

text \<open>Property C28: when every group size divides \<open>iteration\<close> (and \<open>output_internal_time\<close> is neither 0 nor more than \<open>iteration\<close>), \<open>run_test_task\<close> starts
  every thread of every group, and the operation numbers the threads of the first group call
  \<open>test_thread_op\<close> with are, together, each of \<open>0, ..., iteration - 1\<close> exactly once.\<close>

theorem mbench_partition:
  assumes "\<forall>n\<in>set ns. divides_run iteration n" "word_of_int oit \<noteq> (0 :: u32)" "word_of_int oit \<le> iteration" "ns = n # ms"
  shows "\<exists>css. run_test_task ns iteration oit = Ret css \<and> length css = (\<Sum>n\<leftarrow>ns. nat n) \<and>
    concat (map op_numbers (take (nat n) css)) = map of_nat [0..<unat iteration]"
proof -
  have i: "iteration div word_of_int oit \<noteq> 0"
  proof
    assume "iteration div word_of_int oit = 0"
    then have "unat iteration div unat (word_of_int oit :: u32) = 0" by (simp only: unat_div [symmetric] unat_0)
    then show False using assms(2,3) by (simp add: word_le_nat_alt div_eq_0_iff unat_eq_0)
  qed
  obtain css where css: "run_all (group_threads ns 0) iteration (iteration div word_of_int oit) = Ret css"
    "map op_numbers css = map (thread_numbers iteration) (group_threads ns 0)"
    using run_all_numbers [OF i] by blast
  have len: "length (group_threads ns t) = (\<Sum>n\<leftarrow>ns. nat n)" for t by (induction ns t rule: group_threads.induct) simp_all
  have l: "length css = (\<Sum>n\<leftarrow>ns. nat n)" using arg_cong [OF css(2), of length] len by simp
  have "map op_numbers (take (nat n) css) = map (thread_numbers iteration) (take (nat n) (group_threads ns 0))"
    using css(2) by (simp only: take_map [symmetric])
  also have "take (nat n) (group_threads ns 0) = map (\<lambda>i. (n, i)) [0..<nat n]" using assms(4) by simp
  finally have "concat (map op_numbers (take (nat n) css)) = map of_nat [0..<unat iteration]"
    using group_numbers assms(1,4) by simp
  with css(1) l start_groups_ok [OF assms(1)] assms(2) show ?thesis by (simp add: run_test_task_def)
qed

lemma mbench_partition_witness:
  "\<exists>css. run_test_task [2, 3] 6 1 = Ret css \<and> length css = 5 \<and> concat (map op_numbers (take 2 css)) = [0, 1, 2, 3, 4, 5]"
proof -
  have "[0..<6] = [0, 1, 2, 3, 4, 5 :: nat]" by (simp add: upt_conv_Cons)
  then show ?thesis using mbench_partition [of "[2, 3]" 6 1 2 "[3]"] by (simp add: divides_run_def)
qed

text \<open>A group that does not divide: the first group throws, a later one terminates the program.\<close>

lemma mbench_terminates: "run_test_task [2, 4] 6 1 = Throw ''std::terminate''" "run_test_task [4] 6 1 = Throw ''need iteration % thread_cnt == 0''"
  by (simp_all add: run_test_task_def)

text \<open>Every thread reports a phase each \<open>interval\<close> operations.\<close>

lemma thread_body_phases:
  assumes "interval \<noteq> 0" "thread_body iteration interval n t = Ret cs"
  shows "phases cs = unat (iteration_per_thread iteration n) div unat interval"
  using thread_loop_phases [OF assms(1), of 0 "unat (iteration_per_thread iteration n)"] assms(2)
  by (simp add: thread_body_def Let_def)

end
