(* ===== verification/Benchmark.thy ===== *)
theory Benchmark
  imports ConQueue_Contract CLQueue_Properties Rte_Ring Atomic_Queue_Properties Mbench
begin

text \<open>
  queue-bench/benchmark.cc: the configuration of the queues, \<open>queue_bench\<close>, the adaptors of the queues to
  \<open>TestQueueModelBase\<close> and the plan of \<open>main\<close>. Here the calls of \<open>enqueue\<close> and \<open>dequeue\<close> are atomic and
  their order is a schedule. The queues' own theories have the single steps of concurrent calls.
\<close>

section \<open>Configuration\<close>

definition upper_power_of_2 :: "u32 \<Rightarrow> u32" where
  "upper_power_of_2 n =
    (let n = n - 1; n = n OR drop_bit 1 n; n = n OR drop_bit 2 n; n = n OR drop_bit 4 n; n = n OR drop_bit 8 n;
         n = n OR drop_bit 16 n
     in n + 1)"

definition IT :: u32 where "IT = 1000000"

definition conq_flag_get :: "int \<Rightarrow> int \<Rightarrow> int \<Rightarrow> u32" where
  "conq_flag_get prod_th_num cons_th_num ts =
    (if prod_th_num = 1 then F_SP_ENQ else if ts = 0 then F_MP_ENQ else F_MP_RTS_ENQ) OR
    (if cons_th_num = 1 then F_SC_DEQ else if ts = 0 then F_MC_DEQ else F_MC_RTS_DEQ)"

section \<open>The adaptors\<close>

definition ConQ_ctor :: "int \<Rightarrow> int \<Rightarrow> int \<Rightarrow> u32 conqueue run" where
  "ConQ_ctor p c ts = conq_ctor_alloc (upper_power_of_2 IT) (conq_flag_get p c ts)"

definition ConQ_enqueue :: "u32 \<Rightarrow> u32 \<Rightarrow> u32 conqueue \<Rightarrow> (bool \<times> u32 conqueue) run" where
  "ConQ_enqueue g x q = conq_push g x q"

definition ConQ_dequeue :: "u32 \<Rightarrow> u32 conqueue \<Rightarrow> (u32 option \<times> u32 conqueue) run" where
  "ConQ_dequeue g q = conq_pop g q"

definition CLQ_ctor :: "u32 \<Rightarrow> (u32 \<Rightarrow> u32 cache_line) \<Rightarrow> int \<Rightarrow> int \<Rightarrow> int \<Rightarrow> u32 clqueue run" where
  "CLQ_ctor h raw p c ts = clq_ctor 4 False h h raw (upper_power_of_2 IT) (conq_flag_get p c ts)"

definition CLQ_enqueue :: "u32 \<Rightarrow> u32 clqueue \<Rightarrow> (bool \<times> u32 clqueue) run" where
  "CLQ_enqueue x q = clq_push x q"

definition CLQ_dequeue :: "u32 clqueue \<Rightarrow> (u32 option \<times> u32 clqueue) run" where
  "CLQ_dequeue q = clq_pop q"

definition RteQ_ctor :: "bool \<Rightarrow> bool \<Rightarrow> u32 rte_ring" where
  "RteQ_ctor mp mc = rte_ctor mp mc (upper_power_of_2 IT)"

definition AtQ_derived :: derived where
  "AtQ_derived = fixed_derived True True False False (upper_power_of_2 IT) 16"

definition AtQ_ctor :: "u32 atomic_queue" where
  "AtQ_ctor = aq_ctor 0 (- 1) True (upper_power_of_2 IT)"

definition AtQ_enqueue :: "u32 \<Rightarrow> u32 atomic_queue \<Rightarrow> (bool \<times> u32 atomic_queue) run" where
  "AtQ_enqueue x q = run_bind (retry_push (aq_do_push AtQ_derived (- 1) x) q) (\<lambda>q. Ret (True, q))"

definition AtQ_dequeue :: "u32 atomic_queue \<Rightarrow> (u32 option \<times> u32 atomic_queue) run" where
  "AtQ_dequeue q = run_bind (retry_pop (aq_do_pop AtQ_derived (- 1)) q) (\<lambda>(x, q). Ret (Some x, q))"

section \<open>The threads of \<open>queue_bench\<close>\<close>

text \<open>The queue, \<open>thread_iter\<close> and \<open>s[thread_id].c\<close> of the threads. The sums stay far below \<open>2^63\<close>.\<close>

record 'q bench_state =
  b_q :: 'q
  b_iter :: "nat \<Rightarrow> nat"
  b_s :: "nat \<Rightarrow> int"

definition bench_init :: "'q \<Rightarrow> 'q bench_state" where
  "bench_init q = \<lparr>b_q = q, b_iter = \<lambda>_. 0, b_s = \<lambda>_. 0\<rparr>"

text \<open>\<open>thread_count\<close> after \<open>test_env_init\<close>.\<close>

definition bench_groups :: "nat \<Rightarrow> nat \<Rightarrow> int list" where
  "bench_groups p c = [int p, int c]"

text \<open>Thread \<open>t\<close> makes one call of \<open>enqueue\<close> or \<open>dequeue\<close> in the loop of \<open>test_thread_op\<close>; the operation is over
  when the call succeeds.\<close>

definition bench_turn ::
  "(u32 \<Rightarrow> 'q \<Rightarrow> (bool \<times> 'q) run) \<Rightarrow> ('q \<Rightarrow> (u32 option \<times> 'q) run) \<Rightarrow> nat \<Rightarrow> nat \<Rightarrow> u32 \<Rightarrow> nat \<Rightarrow> 'q bench_state \<Rightarrow> 'q bench_state run"
where
  "bench_turn enq deq p c iteration t st =
    (let ipt = iteration_per_thread iteration (int (if t < p then p else c)); i = b_iter st t in
     if unat ipt \<le> i then Ret st
     else if t < p then
       run_bind (enq (op_number t ipt (of_nat i)) (b_q st)) (\<lambda>(b, q).
         Ret (if b then st\<lparr>b_q := q, b_iter := (b_iter st)(t := Suc i)\<rparr> else st\<lparr>b_q := q\<rparr>))
     else
       run_bind (deq (b_q st)) (\<lambda>(r, q).
         Ret (case r of None \<Rightarrow> st\<lparr>b_q := q\<rparr>
              | Some x \<Rightarrow> st\<lparr>b_q := q, b_iter := (b_iter st)(t := Suc i), b_s := (b_s st)(t := b_s st t + int (unat x))\<rparr>)))"

fun bench_run ::
  "(u32 \<Rightarrow> 'q \<Rightarrow> (bool \<times> 'q) run) \<Rightarrow> ('q \<Rightarrow> (u32 option \<times> 'q) run) \<Rightarrow> nat \<Rightarrow> nat \<Rightarrow> u32 \<Rightarrow> nat list \<Rightarrow> 'q bench_state \<Rightarrow> 'q bench_state run"
where
  "bench_run enq deq p c iteration [] st = Ret st"
| "bench_run enq deq p c iteration (t # ts) st =
    run_bind (bench_turn enq deq p c iteration t st) (bench_run enq deq p c iteration ts)"

definition bench_finished :: "nat \<Rightarrow> nat \<Rightarrow> u32 \<Rightarrow> 'q bench_state \<Rightarrow> bool" where
  "bench_finished p c iteration st \<longleftrightarrow>
    (\<forall>t<p. b_iter st t = unat (iteration_per_thread iteration (int p))) \<and>
    (\<forall>t<c. b_iter st (p + t) = unat (iteration_per_thread iteration (int c)))"

text \<open>The assertion of \<open>test_over\<close>.\<close>

definition bench_check :: "nat \<Rightarrow> nat \<Rightarrow> u32 \<Rightarrow> 'q bench_state \<Rightarrow> bool" where
  "bench_check p c iteration st \<longleftrightarrow> (\<Sum>t<p + c. b_s st t) = int (unat iteration) * (int (unat iteration) - 1) div 2"

section \<open>The plan of \<open>main\<close>\<close>

datatype bench_queue = RteQ bool bool | AtQ | ModcQ | ConQ | CLQ

definition thread_nums :: "int list" where
  "thread_nums = [1, 2, 4, 5, 8, 10, 16, 20]"

definition csv_header :: "int \<Rightarrow> string list" where
  "csv_header ts = (if ts = 0 then [''prod'', ''rte_ring'', ''clqueue'']
     else [''prod'', ''rte_ring'', ''atomic_queue'', ''moodycamel'', ''clqueue''])"

text \<open>The benchmarks of one pair of thread numbers, with the names of their tests, and the columns of the entry.\<close>

definition rte_bench :: "int \<Rightarrow> int \<Rightarrow> bench_queue \<times> string" where
  "rte_bench p c =
    (if c = 1 \<and> p = 1 then (RteQ False False, ''RteRing SPSC'')
     else if c > 1 \<and> p = 1 then (RteQ False True, ''RteRing SPMC'')
     else if c = 1 \<and> p > 1 then (RteQ True False, ''RteRing MPSC'')
     else (RteQ True True, ''RteRing MPMC''))"

definition pair_plan :: "int \<Rightarrow> int \<Rightarrow> int \<Rightarrow> (bench_queue \<times> string) list" where
  "pair_plan ts c p = [rte_bench p c] @
    (if ts = 1 then [(AtQ, ''AtomicQueue''), (ModcQ, ''moodycamel'')] else []) @ [(ConQ, ''ConQueue''), (CLQ, ''CLQueue'')]"

definition entry_columns :: "int \<Rightarrow> bench_queue list" where
  "entry_columns ts = (if ts = 0 then [RteQ True True, CLQ] else [RteQ True True, AtQ, ModcQ, CLQ])"

definition main_plan :: "int \<Rightarrow> (int \<times> int \<times> (bench_queue \<times> string) list) list" where
  "main_plan ts = concat (map (\<lambda>c. map (\<lambda>p. (c, p, pair_plan ts c p)) thread_nums) thread_nums)"

end
