(* ===== verification/Bench_Sum.thy ===== *)
theory Bench_Sum
  imports Benchmark
begin

text \<open>
  The check at the end of a benchmark: over any queue that meets the contract for \<open>iteration\<close> elements, the
  numbers the consumers add up are those the producers enqueued, whatever the schedule.
\<close>

section \<open>The operation numbers\<close>

lemma sum_rows: "(\<Sum>t<p. \<Sum>i<k. t * k + i) = (\<Sum>i<p * k. i :: nat)"
proof (induction p)
  case (Suc p)
  have "(\<Sum>i<Suc p * k. i) = (\<Sum>i<p * k. i) + (\<Sum>i=p * k..<p * k + k. i)"
    using sum.atLeastLessThan_concat [of 0 "p * k" "p * k + k" "\<lambda>i. i"] by (simp add: lessThan_atLeast0 add.commute)
  moreover have "(\<Sum>i=p * k..<p * k + k. i) = (\<Sum>i<k. p * k + i)"
    using sum.shift_bounds_nat_ivl [of "\<lambda>i. i" 0 "p * k" k] by (simp add: lessThan_atLeast0 add.commute)
  ultimately show ?case using Suc by simp
qed simp

lemma op_number_unat:
  assumes "t < p" "i < k" "p * k = unat (it :: u32)" "unat ipt = k"
  shows "unat (op_number t ipt (of_nat i)) = t * k + i"
proof -
  have "t * k + i < t * k + k" using assms(2) by simp
  also have "\<dots> = (t + 1) * k" by simp
  also have "\<dots> \<le> p * k" using assms(1) by (intro mult_le_mono1) simp
  finally have l: "t * k + i < 4294967296" using assms(3) unat_u32_less [of it] by linarith
  have "op_number t ipt (of_nat i) = of_nat (t * k + i)"
    by (simp add: op_number_def flip: assms(4))
  then show ?thesis using l by (simp add: unat_of_nat_u32 del: of_nat_add of_nat_mult)
qed

lemma gauss_int: "int (\<Sum>i<n. i) = int n * (int n - 1) div 2"
proof -
  have "2 * int (\<Sum>i<n. i) = int n * (int n - 1)" by (induction n) (auto simp: algebra_simps)
  then show ?thesis by simp
qed

section \<open>The invariant of the threads\<close>

text \<open>What was enqueued so far, as a sum, and how much.\<close>

definition bench_sent :: "nat \<Rightarrow> nat \<Rightarrow> 'q bench_state \<Rightarrow> int" where
  "bench_sent p k st = (\<Sum>t<p. \<Sum>i<b_iter st t. int (t * k + i))"

definition bench_inv :: "nat \<Rightarrow> nat \<Rightarrow> nat \<Rightarrow> nat \<Rightarrow> u32 list \<Rightarrow> 'q bench_state \<Rightarrow> bool" where
  "bench_inv p c k m xs st \<longleftrightarrow> (\<forall>t<p. b_iter st t \<le> k) \<and> (\<forall>t. p \<le> t \<longrightarrow> t < p + c \<longrightarrow> b_iter st t \<le> m) \<and>
     (\<forall>t<p. b_s st t = 0) \<and>
     (\<Sum>t<p. b_iter st t) = length xs + (\<Sum>t=p..<p + c. b_iter st t) \<and>
     bench_sent p k st = (\<Sum>x\<leftarrow>xs. int (unat x)) + (\<Sum>t<p + c. b_s st t)"

lemma sum_upd_less: "t < (n :: nat) \<Longrightarrow> (\<Sum>u<n. (f(t := v)) u) = (\<Sum>u<n. f u) - f t + (v :: int)"
  using sum.remove [of "{..<n}" t "f(t := v)"] sum.remove [of "{..<n}" t f] sum.cong [of "{..<n} - {t}" "{..<n} - {t}" "f(t := v)" f]
  by simp

lemma sum_Suc_upd:
  "finite A \<Longrightarrow> (\<Sum>u\<in>A. (f(t := Suc (f t))) u) = (\<Sum>u\<in>A. f u) + of_bool (t \<in> A)"
proof (induction rule: finite_induct)
  case (insert a A)
  then show ?case by (cases "a = t") auto
qed simp

lemma sum_cong_upd:
  fixes f g :: "nat \<Rightarrow> nat"
  assumes "\<And>u. u \<noteq> t \<Longrightarrow> f u = g u" "t < n \<Longrightarrow> f t + y = g t + x" "\<not> t < n \<Longrightarrow> x = y"
  shows "(\<Sum>u<n. f u) + y = (\<Sum>u<n. g u) + x"
proof (cases "t < n")
  case True
  have "(\<Sum>u\<in>{..<n} - {t}. f u) = (\<Sum>u\<in>{..<n} - {t}. g u)" using assms(1) by (intro sum.cong) auto
  then show ?thesis using True assms(2) sum.remove [of "{..<n}" t f] sum.remove [of "{..<n}" t g] by simp
next
  case False
  have "(\<Sum>u<n. f u) = (\<Sum>u<n. g u)" using assms(1) False by (intro sum.cong) auto
  then show ?thesis using assms(3) False by simp
qed

lemma sent_upd:
  assumes "t < p" "b_iter st' = (b_iter st)(t := Suc (b_iter st t))"
  shows "bench_sent p k st' = bench_sent p k st + int (t * k + b_iter st t)"
proof -
  let ?f = "\<lambda>it u. \<Sum>i<it u. int (u * k + i)"
  have r: "(\<Sum>u\<in>{..<p} - {t}. ?f (b_iter st') u) = (\<Sum>u\<in>{..<p} - {t}. ?f (b_iter st) u)"
    using assms(2) by (intro sum.cong) auto
  have "?f (b_iter st') t = ?f (b_iter st) t + int (t * k + b_iter st t)" using assms(2) by simp
  then show ?thesis
    unfolding bench_sent_def using assms(1) r
      sum.remove [of "{..<p}" t "?f (b_iter st')"] sum.remove [of "{..<p}" t "?f (b_iter st)"] by simp
qed

lemma bench_inv_send:
  assumes "bench_inv p c k m xs st" "t < p" "b_iter st t < k" "unat x = t * k + b_iter st t"
  shows "bench_inv p c k m (xs @ [x]) (st\<lparr>b_q := q, b_iter := (b_iter st)(t := Suc (b_iter st t))\<rparr>)"
proof -
  let ?st = "st\<lparr>b_q := q, b_iter := (b_iter st)(t := Suc (b_iter st t))\<rparr>"
  have "bench_sent p k ?st = bench_sent p k st + int (unat x)" using sent_upd [of t p ?st st k] assms(2,4) by simp
  moreover have "(\<Sum>u<p. b_iter ?st u) = (\<Sum>u<p. b_iter st u) + 1" "(\<Sum>u=p..<p + c. b_iter ?st u) = (\<Sum>u=p..<p + c. b_iter st u)"
    using sum_Suc_upd [of "{..<p}" "b_iter st" t] sum_Suc_upd [of "{p..<p + c}" "b_iter st" t] assms(2) by simp_all
  ultimately show ?thesis using assms(1-3) by (simp add: bench_inv_def)
qed

lemma bench_inv_receive:
  assumes "bench_inv p c k m (x # xs) st" "p \<le> t" "t < p + c" "b_iter st t < m"
  shows "bench_inv p c k m xs (st\<lparr>b_q := q, b_iter := (b_iter st)(t := Suc (b_iter st t)), b_s := (b_s st)(t := b_s st t + int (unat x))\<rparr>)"
proof -
  let ?st = "st\<lparr>b_q := q, b_iter := (b_iter st)(t := Suc (b_iter st t)), b_s := (b_s st)(t := b_s st t + int (unat x))\<rparr>"
  have "(\<Sum>u<p + c. b_s ?st u) = (\<Sum>u<p + c. b_s st u) + int (unat x)"
    using sum_upd_less [OF assms(3), of "b_s st"] by simp
  moreover have "bench_sent p k ?st = bench_sent p k st"
    unfolding bench_sent_def using assms(2) by (intro sum.cong) auto
  moreover have "(\<Sum>u<p. b_iter ?st u) = (\<Sum>u<p. b_iter st u)" "(\<Sum>u=p..<p + c. b_iter ?st u) = (\<Sum>u=p..<p + c. b_iter st u) + 1"
    using sum_Suc_upd [of "{..<p}" "b_iter st" t] sum_Suc_upd [of "{p..<p + c}" "b_iter st" t] assms(2,3) by simp_all
  ultimately show ?thesis using assms by (auto simp: bench_inv_def)
qed

lemma bench_inv_q: "bench_inv p c k m xs st \<Longrightarrow> bench_inv p c k m xs (st\<lparr>b_q := q\<rparr>)"
  by (simp add: bench_inv_def bench_sent_def)

lemma bench_sent_bound: "\<forall>t<p. f t \<le> k \<Longrightarrow> t < p \<Longrightarrow> f t < k \<Longrightarrow> (\<Sum>u<p. f u) < p * (k :: nat)"
proof -
  assume a: "\<forall>t<p. f t \<le> k" "t < p" "f t < k"
  have "(\<Sum>u<p. f u) < (\<Sum>u<p. k)" using a by (intro sum_strict_mono_ex1) auto
  then show ?thesis by simp
qed

text \<open>All threads are done: the queue is empty and the sums agree.\<close>

lemma bench_inv_done:
  assumes "bench_inv p c k m xs st" "p * k = unat (it :: u32)" "c * m = unat it"
    and "\<forall>t<p. b_iter st t = k" "\<forall>t<c. b_iter st (p + t) = m"
  shows "bench_check p c it st"
proof -
  have "(\<Sum>t<p. b_iter st t) = unat it" using assms(2,4) by simp
  moreover have "(\<Sum>t=p..<p + c. b_iter st t) = unat it"
  proof -
    have "(\<Sum>t=p..<p + c. b_iter st t) = (\<Sum>t<c. b_iter st (p + t))"
      using sum.shift_bounds_nat_ivl [of "b_iter st" 0 p c] by (simp add: lessThan_atLeast0 add.commute)
    then show ?thesis using assms(3,5) by simp
  qed
  ultimately have "xs = []" using assms(1) by (simp add: bench_inv_def)
  then have "(\<Sum>t<p + c. b_s st t) = bench_sent p k st" using assms(1) by (simp add: bench_inv_def)
  also have "\<dots> = int (\<Sum>t<p. \<Sum>i<k. t * k + i)" using assms(4) by (simp add: bench_sent_def)
  also have "\<dots> = int (\<Sum>i<unat it. i)" by (simp only: sum_rows assms(2))
  finally show ?thesis by (simp only: bench_check_def gauss_int)
qed


section \<open>Over the contract of a queue\<close>

definition divides_count :: "u32 \<Rightarrow> nat \<Rightarrow> bool" where
  "divides_count it n \<longleftrightarrow> 0 < n \<and> n < 2 ^ 31 \<and> unat it mod n = 0"

lemma divides_count_ipt:
  assumes "divides_count it n"
  shows "unat (iteration_per_thread it (int n)) = unat it div n" "n * (unat it div n) = unat it"
  using divides_run_word(3) [of it "int n"] assms by (auto simp: divides_run_def divides_count_def)

text \<open>\<open>TestQueueModelBase<uint32_t>\<close>: a queue of numbers that is right for as many elements as the benchmark sends.\<close>

locale test_queue = lifetime_queue holds cap enq deq "\<lambda>_. True"
  for holds :: "nat \<Rightarrow> 'q \<Rightarrow> u32 list \<Rightarrow> bool" and cap :: "'q \<Rightarrow> nat"
    and enq :: "u32 \<Rightarrow> 'q \<Rightarrow> (bool \<times> 'q) run" and deq :: "'q \<Rightarrow> (u32 option \<times> 'q) run"
begin

lemma send_ok:
  assumes "holds n q xs" "0 < n"
  shows "\<exists>b q' n'. enq x q = Ret (b, q') \<and> holds n' q' (if b then xs @ [x] else xs) \<and> n \<le> n' + of_bool b"
proof (cases "length xs = cap q")
  case True
  with life_full [OF TrueI assms(1), of x] show ?thesis by (auto intro!: exI [of _ n])
next
  case False
  obtain m where m: "n = Suc m" using assms(2) by (cases n) auto
  have "length xs < cap q" using False life_bound [OF assms(1)] by simp
  then obtain q' where "enq x q = Ret (True, q')" "holds m q' (xs @ [x])"
    using life_room [OF TrueI, of m q xs x] assms(1) m by blast
  with m show ?thesis by (intro exI [of _ True] exI [of _ q'] exI [of _ m]) simp
qed

lemma receive_ok:
  assumes "holds n q xs"
  shows "\<exists>q'. case xs of [] \<Rightarrow> deq q = Ret (None, q') \<and> holds n q' [] | x # ys \<Rightarrow> deq q = Ret (Some x, q') \<and> holds n q' ys"
  using life_take [of n q] life_none [of n q] assms by (cases xs) auto

lemma turn_send_ok:
  assumes "divides_count it p" "t < p" "holds n (b_q st) xs" "bench_inv p c (unat it div p) m xs st"
    and "unat it \<le> n + (\<Sum>t<p. b_iter st t)" "b_iter st t < unat it div p"
  shows "\<exists>st' xs' n'. bench_turn enq deq p c it t st = Ret st' \<and> holds n' (b_q st') xs' \<and>
    bench_inv p c (unat it div p) m xs' st' \<and> unat it \<le> n' + (\<Sum>t<p. b_iter st' t)"
proof -
  let ?k = "unat it div p" and ?x = "op_number t (iteration_per_thread it (int p)) (of_nat (b_iter st t))"
  note pk = divides_count_ipt [OF assms(1)]
  have "\<forall>u<p. b_iter st u \<le> ?k" using assms(4) by (simp add: bench_inv_def)
  then have "(\<Sum>u<p. b_iter st u) < unat it" using bench_sent_bound [of p "b_iter st" ?k t] assms(2,6) pk(2) by simp
  then have "0 < n" using assms(5) by simp
  then obtain b q' n' where e: "enq ?x (b_q st) = Ret (b, q')" "holds n' q' (if b then xs @ [?x] else xs)" "n \<le> n' + of_bool b"
    using send_ok [OF assms(3), of ?x] by blast
  have x: "unat ?x = t * ?k + b_iter st t" by (rule op_number_unat [OF assms(2,6) pk(2) pk(1)])
  let ?st = "st\<lparr>b_q := q', b_iter := (b_iter st)(t := Suc (b_iter st t))\<rparr>"
  show ?thesis
  proof (cases b)
    case True
    have "bench_inv p c ?k m (xs @ [?x]) ?st" using bench_inv_send [OF assms(4,2,6) x] by simp
    moreover have "(\<Sum>u<p. b_iter ?st u) = (\<Sum>u<p. b_iter st u) + 1"
      using sum_Suc_upd [of "{..<p}" "b_iter st" t] assms(2) by simp
    moreover have "bench_turn enq deq p c it t st = Ret ?st"
      using e(1) True assms(2,6) pk(1) by (simp add: bench_turn_def Let_def)
    ultimately show ?thesis using e(2,3) True assms(5) by (intro exI [of _ ?st] exI [of _ "xs @ [?x]"] exI [of _ n']) simp
  next
    case False
    then have "bench_turn enq deq p c it t st = Ret (st\<lparr>b_q := q'\<rparr>)"
      using e(1) assms(2,6) pk(1) by (simp add: bench_turn_def Let_def)
    then show ?thesis
      using e(2,3) False assms(5) bench_inv_q [OF assms(4), of q']
      by (intro exI [of _ "st\<lparr>b_q := q'\<rparr>"] exI [of _ xs] exI [of _ n']) simp
  qed
qed

lemma turn_receive_ok:
  assumes "divides_count it c" "p \<le> t" "t < p + c" "holds n (b_q st) xs" "bench_inv p c k (unat it div c) xs st"
    and "unat it \<le> n + (\<Sum>t<p. b_iter st t)" "b_iter st t < unat it div c"
  shows "\<exists>st' xs' n'. bench_turn enq deq p c it t st = Ret st' \<and> holds n' (b_q st') xs' \<and>
    bench_inv p c k (unat it div c) xs' st' \<and> unat it \<le> n' + (\<Sum>t<p. b_iter st' t)"
proof -
  note cm = divides_count_ipt [OF assms(1)]
  obtain q' where q': "case xs of [] \<Rightarrow> deq (b_q st) = Ret (None, q') \<and> holds n q' []
      | x # ys \<Rightarrow> deq (b_q st) = Ret (Some x, q') \<and> holds n q' ys"
    using receive_ok [OF assms(4)] by blast
  show ?thesis
  proof (cases xs)
    case Nil
    then have "bench_turn enq deq p c it t st = Ret (st\<lparr>b_q := q'\<rparr>)"
      using q' assms(2,7) cm(1) by (simp add: bench_turn_def Let_def)
    then show ?thesis
      using q' Nil assms(6) bench_inv_q [OF assms(5), of q']
      by (intro exI [of _ "st\<lparr>b_q := q'\<rparr>"] exI [of _ xs] exI [of _ n]) simp
  next
    case (Cons x ys)
    let ?st = "st\<lparr>b_q := q', b_iter := (b_iter st)(t := Suc (b_iter st t)), b_s := (b_s st)(t := b_s st t + int (unat x))\<rparr>"
    have "bench_inv p c k (unat it div c) ys ?st"
      using bench_inv_receive [of p c k "unat it div c" x ys st t q'] assms(2,3,5,7) Cons by simp
    moreover have "(\<Sum>u<p. b_iter ?st u) = (\<Sum>u<p. b_iter st u)"
      using sum_Suc_upd [of "{..<p}" "b_iter st" t] assms(2) by simp
    moreover have "bench_turn enq deq p c it t st = Ret ?st"
      using q' Cons assms(2,7) cm(1) by (simp add: bench_turn_def Let_def)
    ultimately show ?thesis using q' Cons assms(6) by (intro exI [of _ ?st] exI [of _ ys] exI [of _ n]) simp
  qed
qed

text \<open>A thread that is done makes no call.\<close>

lemma turn_ok:
  assumes "divides_count it p" "divides_count it c" "t < p + c"
    and "holds n (b_q st) xs" "bench_inv p c (unat it div p) (unat it div c) xs st" "unat it \<le> n + (\<Sum>t<p. b_iter st t)"
  shows "\<exists>st' xs' n'. bench_turn enq deq p c it t st = Ret st' \<and> holds n' (b_q st') xs' \<and>
    bench_inv p c (unat it div p) (unat it div c) xs' st' \<and> unat it \<le> n' + (\<Sum>t<p. b_iter st' t)"
proof (cases "b_iter st t < unat it div (if t < p then p else c)")
  case True
  then show ?thesis
    using turn_send_ok [OF assms(1) _ assms(4,5,6)] turn_receive_ok [OF assms(2) _ assms(3-6)] by (cases "t < p") auto
next
  case False
  then have "bench_turn enq deq p c it t st = Ret st"
    using divides_count_ipt(1) [OF assms(1)] divides_count_ipt(1) [OF assms(2)]
    by (cases "t < p") (simp_all add: bench_turn_def Let_def not_less)
  then show ?thesis using assms(4-6) by blast
qed

lemma run_ok:
  assumes "divides_count it p" "divides_count it c"
  shows "set ts \<subseteq> {..<p + c} \<Longrightarrow> holds n (b_q st) xs \<Longrightarrow> bench_inv p c (unat it div p) (unat it div c) xs st \<Longrightarrow>
    unat it \<le> n + (\<Sum>t<p. b_iter st t) \<Longrightarrow>
    \<exists>st' xs'. bench_run enq deq p c it ts st = Ret st' \<and> bench_inv p c (unat it div p) (unat it div c) xs' st'"
proof (induction ts arbitrary: n st xs)
  case (Cons t ts)
  obtain st' xs' n' where "bench_turn enq deq p c it t st = Ret st'" "holds n' (b_q st') xs'"
    "bench_inv p c (unat it div p) (unat it div c) xs' st'" "unat it \<le> n' + (\<Sum>t<p. b_iter st' t)"
    using turn_ok [OF assms _ Cons.prems(2-4), of t] Cons.prems(1) by auto
  with Cons.IH [of n' st' xs'] Cons.prems(1) show ?case by auto
qed auto

lemma bench_sum:
  assumes "divides_count it p" "divides_count it c" "set ts \<subseteq> {..<p + c}" "holds (unat it) q []"
  shows "\<exists>st. bench_run enq deq p c it ts (bench_init q) = Ret st \<and> (bench_finished p c it st \<longrightarrow> bench_check p c it st)"
proof -
  have "bench_inv p c (unat it div p) (unat it div c) [] (bench_init q)"
    by (simp add: bench_inv_def bench_init_def bench_sent_def)
  then obtain st xs where st: "bench_run enq deq p c it ts (bench_init q) = Ret st"
    "bench_inv p c (unat it div p) (unat it div c) xs st"
    using run_ok [OF assms(1,2,3), of "unat it" "bench_init q" "[]"] assms(4) by (auto simp: bench_init_def)
  moreover have "bench_check p c it st" if "bench_finished p c it st"
    using bench_inv_done [OF st(2) divides_count_ipt(2) [OF assms(1)] divides_count_ipt(2) [OF assms(2)]] that
      divides_count_ipt(1) [OF assms(1)] divides_count_ipt(1) [OF assms(2)] by (simp add: bench_finished_def)
  ultimately show ?thesis by blast
qed

end


section \<open>The adaptors\<close>

lemma conq_adaptor: "ConQ_enqueue g = conq_push g" "ConQ_dequeue g = conq_pop g"
  by (simp_all add: fun_eq_iff ConQ_enqueue_def ConQ_dequeue_def)

lemma clq_adaptor: "CLQ_enqueue = clq_push" "CLQ_dequeue = clq_pop"
  by (simp_all add: fun_eq_iff CLQ_enqueue_def CLQ_dequeue_def)

interpretation bench_conq: test_queue "\<lambda>_. conq_holds" conq_cap "ConQ_enqueue g" "ConQ_dequeue g" for g
  unfolding conq_adaptor by (rule test_queue.intro) (rule conq.lifetime_queue_axioms)

interpretation bench_clq: test_queue clq_life clq_cap CLQ_enqueue CLQ_dequeue
  unfolding clq_adaptor by (rule test_queue.intro) (rule clq.lifetime_queue_axioms)

interpretation bench_rte: test_queue rte_life rte_cap rteq_enqueue rteq_dequeue
  by (rule test_queue.intro) (rule rte.lifetime_queue_axioms)

lemma upper_power_of_2_IT: "upper_power_of_2 IT = 1048576"
  by (simp add: upper_power_of_2_def IT_def Let_def)


lemma conq_flag_get_has:
  "\<not> has_flag (conq_flag_get p c ts) F_EXACT_SZ"
  "has_flag (conq_flag_get p c ts) F_MP_ENQ \<longleftrightarrow> p \<noteq> 1 \<and> ts = 0" "has_flag (conq_flag_get p c ts) F_MP_RTS_ENQ \<longleftrightarrow> p \<noteq> 1 \<and> ts \<noteq> 0"
  "has_flag (conq_flag_get p c ts) F_MC_DEQ \<longleftrightarrow> c \<noteq> 1 \<and> ts = 0" "has_flag (conq_flag_get p c ts) F_MC_RTS_DEQ \<longleftrightarrow> c \<noteq> 1 \<and> ts \<noteq> 0"
  "has_flag (conq_flag_get p c ts) F_SP_ENQ \<longleftrightarrow> p = 1" "has_flag (conq_flag_get p c ts) F_SC_DEQ \<longleftrightarrow> c = 1"
  by (auto simp: conq_flag_get_def has_flag_def conq_flag_defs)

lemma ConQ_ready: "\<exists>q. ConQ_ctor p c ts = Ret q \<and> conq_holds q []"
proof -
  have "\<exists>q. ConQ_ctor p c ts = Ret q"
    by (auto simp: ConQ_ctor_def conq_ctor_alloc_def conq_ctor_def upper_power_of_2_IT has_flag_or conq_flag_get_has Let_def)
  then obtain q where q: "ConQ_ctor p c ts = Ret q" by blast
  with ctor_alloc_holds(1) [of "upper_power_of_2 IT" "conq_flag_get p c ts" q] conq_flag_get_has(1)
  show ?thesis by (simp add: ConQ_ctor_def upper_power_of_2_IT)
qed

lemma CLQ_ready: "\<exists>q. CLQ_ctor h raw p c ts = Ret q \<and> clq_life 1000000 q []"
proof -
  have S: "SLOT_MAX_INLINE 4 = 14" by (simp add: SLOT_MAX_INLINE_def LINE_SIZE_def)
  have "clq_flags_ok (conq_flag_get p c ts)" by (auto simp: clq_flags_ok_def conq_flag_get_has)
  then obtain q m where q: "CLQ_ctor h raw p c ts = Ret q" "clq_rel m 0 0 q []" "1048576 \<le> 14 * (2 :: nat) ^ m"
    "max_line q = 2 ^ m" "m \<le> 29"
    using clq_ctor_rel [of 4 "upper_power_of_2 IT" "conq_flag_get p c ts" h raw] S by (auto simp: CLQ_ctor_def upper_power_of_2_IT)
  then have "clq_life 1000000 q []" unfolding clq_life_def by (intro exI [of _ m] exI [of _ 0]) simp
  with q show ?thesis by blast
qed

lemma RteQ_ready: "rte_life 1000000 (RteQ_ctor mp mc) []"
proof -
  have "rte_rel 20 (RteQ_ctor mp mc) []"
    by (simp add: rte_rel_def RteQ_ctor_def rte_ctor_def upper_power_of_2_IT mask_eq_decr_exp)
  then show ?thesis unfolding rte_life_def by (intro exI [of _ 20]) (simp add: RteQ_ctor_def rte_ctor_def)
qed

lemma IT_counts: "unat IT = 1000000"
  by (simp add: IT_def)

text \<open>For numbers of producers and consumers that divide \<open>IT\<close> and calls of \<open>enqueue\<close> and \<open>dequeue\<close> that do not
  overlap (Bench_ConQ and Bench_Conc have the calls interleaved), in any order over \<open>ConQ\<close>, \<open>CLQ\<close> and every \<open>RteQ\<close>, no call goes wrong, and when the threads have
  finished the assertion of \<open>test_over\<close> holds. So the benchmark cannot see that \<open>RteRing\<close> reads wrong slots
  from element 1048575 on.\<close>

lemma bench_check_holds:
  assumes "divides_count IT p" "divides_count IT c" "set ts \<subseteq> {..<p + c}"
  shows "(\<exists>q st. ConQ_ctor (int p) (int c) mode = Ret q \<and>
      bench_run (ConQ_enqueue g) (ConQ_dequeue g) p c IT ts (bench_init q) = Ret st \<and>
      (bench_finished p c IT st \<longrightarrow> bench_check p c IT st)) \<and>
    (\<exists>q st. CLQ_ctor h raw (int p) (int c) mode = Ret q \<and>
      bench_run CLQ_enqueue CLQ_dequeue p c IT ts (bench_init q) = Ret st \<and>
      (bench_finished p c IT st \<longrightarrow> bench_check p c IT st)) \<and>
    (\<exists>st. bench_run rteq_enqueue rteq_dequeue p c IT ts (bench_init (RteQ_ctor mp mc)) = Ret st \<and>
      (bench_finished p c IT st \<longrightarrow> bench_check p c IT st))"
proof (intro conjI)
  obtain q where q: "ConQ_ctor (int p) (int c) mode = Ret q" "conq_holds q []" using ConQ_ready by blast
  then show "\<exists>q st. ConQ_ctor (int p) (int c) mode = Ret q \<and>
      bench_run (ConQ_enqueue g) (ConQ_dequeue g) p c IT ts (bench_init q) = Ret st \<and>
      (bench_finished p c IT st \<longrightarrow> bench_check p c IT st)"
    using bench_conq.bench_sum [OF assms] by blast
  obtain r where r: "CLQ_ctor h raw (int p) (int c) mode = Ret r" "clq_life (unat IT) r []"
    using CLQ_ready IT_counts by metis
  then show "\<exists>q st. CLQ_ctor h raw (int p) (int c) mode = Ret q \<and>
      bench_run CLQ_enqueue CLQ_dequeue p c IT ts (bench_init q) = Ret st \<and>
      (bench_finished p c IT st \<longrightarrow> bench_check p c IT st)"
    using bench_clq.bench_sum [OF assms] by blast
  have "rte_life (unat IT) (RteQ_ctor mp mc) []" using RteQ_ready IT_counts by metis
  then show "\<exists>st. bench_run rteq_enqueue rteq_dequeue p c IT ts (bench_init (RteQ_ctor mp mc)) = Ret st \<and>
      (bench_finished p c IT st \<longrightarrow> bench_check p c IT st)"
    by (rule bench_rte.bench_sum [OF assms])
qed

end
