(* ===== verification/Bench_Conc.thy ===== *)
theory Bench_Conc
  imports Rte_Ring_Conc_Properties Bench_Sum
begin

text \<open>
  The benchmark over single steps: the threads of \<open>queue_bench<RteQ>\<close> with the calls of \<open>RteRing\<close> not atomic but
  interleaved access by access. The check of \<open>test_over\<close> holds all the same, since the ring of the benchmark is
  larger than the number of elements, and an atomic queue neither loses nor duplicates an element.
\<close>

section \<open>The threads\<close>

text \<open>\<open>test_thread_op\<close>: thread \<open>t\<close> repeats its call until it returns \<open>RTE_RING_OK\<close>.\<close>

definition rb_call :: "nat \<Rightarrow> nat \<Rightarrow> u32 \<Rightarrow> nat \<Rightarrow> nat \<Rightarrow> u32 rr_call" where
  "rb_call p c iteration t i =
    (if t < p then RrEnq (op_number t (iteration_per_thread iteration (int p)) (of_nat i)) else RrDeq)"

definition rb_return :: "nat \<Rightarrow> nat \<Rightarrow> (nat \<times> u32 rr_call \<times> rte_status \<times> u32 list) list \<Rightarrow> u32 rr_state bench_state \<Rightarrow> u32 rr_state bench_state"
where
  "rb_return p t returned st =
    (case returned of
       (u, c, RTE_RING_OK, ys) # _ \<Rightarrow> st\<lparr>b_iter := (b_iter st)(t := Suc (b_iter st t)),
         b_s := (if t < p then b_s st else (b_s st)(t := b_s st t + (\<Sum>y\<leftarrow>ys. int (unat y))))\<rparr>
     | _ \<Rightarrow> st)"

text \<open>The next access of thread \<open>t\<close>, and what follows when its call has returned with it.\<close>

definition rb_turn :: "nat \<Rightarrow> nat \<Rightarrow> u32 \<Rightarrow> nat \<Rightarrow> u32 rr_state bench_state \<Rightarrow> u32 rr_state bench_state" where
  "rb_turn p c iteration t st =
    (let q = b_q st; i = b_iter st t in
     if rr_pc q t = RrIdle then
       (if unat (iteration_per_thread iteration (int (if t < p then p else c))) \<le> i then st
        else st\<lparr>b_q := rr_begin t (rb_call p c iteration t i) q\<rparr>)
     else let q' = rr_next t (rr_pc q t) q
          in rb_return p t (drop (length (rr_log q)) (rr_log q')) (st\<lparr>b_q := q'\<rparr>))"

definition rb_run :: "nat \<Rightarrow> nat \<Rightarrow> u32 \<Rightarrow> nat list \<Rightarrow> u32 rr_state bench_state \<Rightarrow> u32 rr_state bench_state" where
  "rb_run p c iteration ts st = fold (rb_turn p c iteration) ts st"

section \<open>An atomic queue conserves its elements\<close>

fun at_taken :: "'a at_status \<Rightarrow> 'a list" where
  "at_taken (AtTaken c ys) = ys"
| "at_taken _ = []"

definition log_of :: "cq_end \<Rightarrow> (nat \<times> 'a cq_call \<times> 'a list) list \<Rightarrow> 'a list" where
  "log_of e L = concat (map (\<lambda>(t, c, ys). ys) (filter (\<lambda>(t, c, ys). call_end c = e) L))"

lemma log_of_simps [simp]:
  "log_of e [] = []" "log_of e (L @ [(t, c, ys)]) = log_of e L @ (if call_end c = e then ys else [])"
  by (simp_all add: log_of_def)

definition at_conserved :: "nat \<Rightarrow> 'a at_queue \<Rightarrow> bool" where
  "at_conserved N a \<longleftrightarrow> mset (log_of ProdEnd (at_log a)) =
     mset (at_items a) + (\<Sum>t<N. mset (at_taken (at_status a t))) + mset (log_of ConsEnd (at_log a)) \<and>
     (\<forall>t c ys. at_status a t = AtTaken c ys \<longrightarrow> call_end c = ConsEnd)"

lemma at_conserved_step:
  assumes "at_step cap N a a'" "at_conserved N a"
  shows "at_conserved N a'"
proof -
  have taken: "(\<Sum>u<N. mset (at_taken ((f(t := v)) u))) + mset (at_taken (f t)) = (\<Sum>u<N. mset (at_taken (f u))) + mset (at_taken v)"
    if "t < N" for f :: "nat \<Rightarrow> 'a at_status" and t v
    using sum_fun_upd [of "{..<N}" t "\<lambda>v. mset (at_taken v)" f v] that by simp
  show ?thesis
    using assms
  proof (induction rule: at_step.induct)
    case (at_call t a c)
    then show ?case using taken [of t "at_status a" "AtCalled c"] by (auto simp: at_conserved_def)
  next
    case (at_push t a c ys)
    then show ?case using taken [of t "at_status a" AtIdle] by (auto simp: at_conserved_def at_finish_def ac_simps)
  next
    case (at_full t a c)
    then show ?case using taken [of t "at_status a" AtIdle] by (auto simp: at_conserved_def at_finish_def)
  next
    case (at_take t a c ys zs)
    then show ?case using taken [of t "at_status a" "AtTaken c ys"] by (auto simp: at_conserved_def ac_simps)
  next
    case (at_empty t a c)
    then show ?case using taken [of t "at_status a" AtIdle] by (auto simp: at_conserved_def at_finish_def)
  next
    case (at_return t a c ys)
    then have "call_end c = ConsEnd" by (auto simp: at_conserved_def)
    with at_return show ?case using taken [of t "at_status a" AtIdle] by (auto simp: at_conserved_def at_finish_def ac_simps)
  qed
qed

lemma at_conserved_reach: "(at_step cap N)\<^sup>*\<^sup>* at_init a \<Longrightarrow> at_conserved N a"
proof (induction rule: rtranclp_induct)
  case base
  show ?case by (simp add: at_conserved_def at_init_def)
qed (rule at_conserved_step)

section \<open>Single calls\<close>

definition one_claim :: "'a rr_claim \<Rightarrow> bool" where
  "one_claim k \<longleftrightarrow> rk_len k = 1 \<and> length (rk_done k) \<le> 1 \<and>
     (rr_end (rk_call k) = ProdEnd \<longrightarrow> rk_done k = take (length (rk_done k)) (rr_table (rk_call k)))"

definition rr_single :: "'a rr_call \<Rightarrow> bool" where
  "rr_single c \<longleftrightarrow> (case c of RrEnq x \<Rightarrow> True | RrDeq \<Rightarrow> True | _ \<Rightarrow> False)"

fun rr_one :: "'a rr_pc \<Rightarrow> bool" where
  "rr_one RrIdle \<longleftrightarrow> True"
| "rr_one (RrTest c h) \<longleftrightarrow> rr_single c"
| "rr_one (RrClaim c h l) \<longleftrightarrow> rr_single c \<and> l = 1"
| "rr_one (RrRetry c) \<longleftrightarrow> rr_single c"
| "rr_one (RrWork k) \<longleftrightarrow> rr_single (rk_call k) \<and> one_claim k"
| "rr_one (RrWait k) \<longleftrightarrow> rr_single (rk_call k) \<and> one_claim k \<and> length (rk_done k) = 1"
| "rr_one (RrStore k) \<longleftrightarrow> rr_single (rk_call k) \<and> one_claim k \<and> length (rk_done k) = 1"

text \<open>A push that holds a claim.\<close>

fun rr_pushing :: "'a rr_pc \<Rightarrow> bool" where
  "rr_pushing (RrWork k) \<longleftrightarrow> rr_end (rk_call k) = ProdEnd"
| "rr_pushing (RrWait k) \<longleftrightarrow> rr_end (rk_call k) = ProdEnd"
| "rr_pushing (RrStore k) \<longleftrightarrow> rr_end (rk_call k) = ProdEnd"
| "rr_pushing _ \<longleftrightarrow> False"

lemma single_cases: "rr_single c \<Longrightarrow> (\<exists>x. c = RrEnq x) \<or> c = RrDeq"
  by (cases c) (simp_all add: rr_single_def)

lemma put_done: "rr_access k r = Ret (x, r') \<Longrightarrow> rr_end (rk_call k) = ProdEnd \<Longrightarrow> x = rr_table (rk_call k) ! length (rk_done k)"
  by (auto simp: rr_access_def rr_put_def Let_def)

text \<open>The next access of a single call: it goes on with the same call, or it returns.\<close>

lemma one_next:
  assumes "rr_pc s t = p" "rr_one p" "p \<noteq> RrIdle" "s' = rr_next t p s"
  obtains (goes) "rr_log s' = rr_log s" "rr_one (rr_pc s' t)" "rr_call_of (rr_pc s' t) = rr_call_of p" "rr_pc s' t \<noteq> RrIdle"
      "length (rr_in s') + of_bool (rr_pushing p) = length (rr_in s) + of_bool (rr_pushing (rr_pc s' t))"
  | (refused) c where "rr_call_of p = Some c" "rr_log s' = rr_log s @ [(t, c, rr_refusal c, [])]" "rr_pc s' t = RrIdle" "rr_in s' = rr_in s" "\<not> rr_pushing p"
  | (served) c ys where "rr_call_of p = Some c" "rr_log s' = rr_log s @ [(t, c, RTE_RING_OK, ys)]" "rr_pc s' t = RrIdle" "rr_in s' = rr_in s"
      "rr_pushing p = (rr_end c = ProdEnd)" "length ys = 1" "rr_end c = ProdEnd \<Longrightarrow> ys = rr_table c"
proof (cases p)
  case (RrTest c h)
  show ?thesis
  proof (cases "rr_grant c (rr_room (rr_end c) h (rr_ring s))")
    case None
    then show ?thesis using assms RrTest by (intro refused [of c]) (simp_all add: rr_return_def)
  next
    case (Some l)
    then have "l = 1" using assms(2) RrTest single_cases [of c] by (auto split: if_splits)
    then show ?thesis using assms RrTest Some by (intro goes) (simp_all add: rr_goto_def)
  qed
next
  case (RrClaim c h l)
  have "length (take (unat l) (rr_table c)) = of_bool (rr_end c = ProdEnd)"
    using assms(2) RrClaim single_cases [of c] by auto
  then show ?thesis using assms RrClaim by (intro goes) (auto simp: rr_goto_def rr_take_def one_claim_def)
next
  case (RrRetry c)
  then show ?thesis using assms by (intro goes) (simp_all add: rr_goto_def)
next
  case (RrWork k)
  have k: "rk_len k = 1" "length (rk_done k) \<le> 1" "rr_single (rk_call k)"
    "rr_end (rk_call k) = ProdEnd \<longrightarrow> rk_done k = take (length (rk_done k)) (rr_table (rk_call k))"
    using assms(2) RrWork by (simp_all add: one_claim_def)
  show ?thesis
  proof (cases "length (rk_done k) < unat (rk_len k)")
    case True
    then have nil: "rk_done k = []" using k(1) by simp
    show ?thesis
    proof (cases "\<exists>xr. rr_access k (rr_ring s) = Ret xr")
      case False
      then have "s' = s\<lparr>rr_ub := True\<rparr>" using assms RrWork True by (auto split: run.splits)
      then show ?thesis using assms RrWork by (intro goes) simp_all
    next
      case Ret: True
      then obtain xr where Ret: "rr_access k (rr_ring s) = Ret xr" by blast
      obtain x r where xr: "xr = (x, r)" by (cases xr)
      have "rr_table (rk_call k) = [x]" if "rr_end (rk_call k) = ProdEnd"
        using put_done [of k "rr_ring s" x r] Ret xr nil that single_cases [OF k(3)] by auto
      then have "one_claim (k\<lparr>rk_done := [x]\<rparr>)" using k(1) by (simp add: one_claim_def)
      then show ?thesis using assms RrWork True Ret xr nil k(3) by (intro goes) (simp_all add: rr_goto_def)
    qed
  next
    case False
    then have "length (rk_done k) = 1" using k(1,2) by (auto simp: le_Suc_eq)
    then show ?thesis using assms RrWork False by (intro goes) (simp_all add: rr_goto_def)
  qed
next
  case (RrWait k)
  then show ?thesis using assms by (intro goes) (simp_all add: rr_goto_def)
next
  case (RrStore k)
  have "length (rk_done k) = 1" "rr_end (rk_call k) = ProdEnd \<Longrightarrow> rk_done k = rr_table (rk_call k)"
    using assms(2) RrStore single_cases [of "rk_call k"] by (auto simp: one_claim_def)
  then show ?thesis using assms RrStore by (intro served [of "rk_call k" "rk_done k"]) (simp_all add: rr_return_def)
qed (use assms in simp)

section \<open>The invariant\<close>

abbreviation "rr_pushed s \<equiv> log_of ProdEnd (map rr_response (rr_log s))"
abbreviation "rr_popped s \<equiv> log_of ConsEnd (map rr_response (rr_log s))"

definition rb_limit :: "nat \<Rightarrow> nat \<Rightarrow> nat \<Rightarrow> nat \<Rightarrow> nat" where
  "rb_limit p k m t = (if t < p then k else m)"

text \<open>\<open>k\<close> and \<open>m\<close> are the numbers of operations of a producer and of a consumer.\<close>

definition rb_inv :: "nat \<Rightarrow> nat \<Rightarrow> u32 \<Rightarrow> nat \<Rightarrow> nat \<Rightarrow> u32 rr_state bench_state \<Rightarrow> bool" where
  "rb_inv p c it k m st \<longleftrightarrow>
     (\<forall>t<p + c. b_iter st t \<le> rb_limit p k m t) \<and> (\<forall>t<p. b_s st t = 0) \<and>
     (\<forall>t. rr_one (rr_pc (b_q st) t)) \<and> (\<forall>t\<ge>p + c. rr_pc (b_q st) t = RrIdle) \<and>
     (\<forall>t d. rr_call_of (rr_pc (b_q st) t) = Some d \<longrightarrow> b_iter st t < rb_limit p k m t \<and> d = rb_call p c it t (b_iter st t)) \<and>
     (\<Sum>t<p. b_iter st t) = length (rr_pushed (b_q st)) \<and> bench_sent p k st = (\<Sum>x\<leftarrow>rr_pushed (b_q st). int (unat x)) \<and>
     (\<Sum>t=p..<p + c. b_iter st t) = length (rr_popped (b_q st)) \<and> (\<Sum>t<p + c. b_s st t) = (\<Sum>x\<leftarrow>rr_popped (b_q st). int (unat x)) \<and>
     length (rr_in (b_q st)) = (\<Sum>t<p. b_iter st t + of_bool (rr_pushing (rr_pc (b_q st) t))) \<and>
     (\<forall>r\<in>set (rr_log (b_q st)). rr_seen r)"

lemma rb_invD:
  assumes "rb_inv p c it k m st"
  shows "t < p + c \<Longrightarrow> b_iter st t \<le> rb_limit p k m t" "t < p \<Longrightarrow> b_s st t = 0" "rr_one (rr_pc (b_q st) t)" "p + c \<le> t \<Longrightarrow> rr_pc (b_q st) t = RrIdle"
    "rr_call_of (rr_pc (b_q st) t) = Some d \<Longrightarrow> b_iter st t < rb_limit p k m t \<and> d = rb_call p c it t (b_iter st t)"
    "(\<Sum>t<p. b_iter st t) = length (rr_pushed (b_q st))" "bench_sent p k st = (\<Sum>x\<leftarrow>rr_pushed (b_q st). int (unat x))"
    "(\<Sum>t=p..<p + c. b_iter st t) = length (rr_popped (b_q st))" "(\<Sum>t<p + c. b_s st t) = (\<Sum>x\<leftarrow>rr_popped (b_q st). int (unat x))"
    "length (rr_in (b_q st)) = (\<Sum>t<p. b_iter st t + of_bool (rr_pushing (rr_pc (b_q st) t)))" "r \<in> set (rr_log (b_q st)) \<Longrightarrow> rr_seen r"
  using assms unfolding rb_inv_def by blast+

lemma rr_next_others: "u \<noteq> t \<Longrightarrow> rr_pc (rr_next t p s) u = rr_pc s u"
  by (cases p) (auto simp: rr_goto_def rr_return_def rr_take_def split: option.splits run.splits)

lemma single_seen: "rr_single c \<Longrightarrow> rr_seen (t, c, r, ys)"
  by (cases c) (simp_all add: rr_seen_def rr_single_def)

lemma rb_call_single [simp]: "rr_single (rb_call p c it t i)" "rr_end (rb_call p c it t i) = (if t < p then ProdEnd else ConsEnd)"
  by (simp_all add: rb_call_def rr_single_def)

lemma one_call_single: "rr_one p \<Longrightarrow> rr_call_of p = Some c \<Longrightarrow> rr_single c"
  by (cases p) auto

text \<open>A step after which the call goes on, or has been refused.\<close>

lemma rb_inv_quiet:
  assumes inv: "rb_inv p c it k m st" and q: "\<And>u. u \<noteq> t \<Longrightarrow> rr_pc q u = rr_pc (b_q st) u" and t: "t < p + c"
    and one: "rr_one (rr_pc q t)" and call: "\<And>d. rr_call_of (rr_pc q t) = Some d \<Longrightarrow> b_iter st t < rb_limit p k m t \<and> d = rb_call p c it t (b_iter st t)"
    and log: "rr_log q = rr_log (b_q st) \<or> (\<exists>d r. rr_log q = rr_log (b_q st) @ [(t, d, r, [])] \<and> rr_single d)"
    and ln: "length (rr_in q) + of_bool (rr_pushing (rr_pc (b_q st) t)) = length (rr_in (b_q st)) + of_bool (rr_pushing (rr_pc q t))"
    and cons: "\<not> t < p \<Longrightarrow> \<not> rr_pushing (rr_pc q t) \<and> \<not> rr_pushing (rr_pc (b_q st) t)"
  shows "rb_inv p c it k m (st\<lparr>b_q := q\<rparr>)"
proof -
  note I = rb_invD [OF inv]
  have lg: "rr_pushed q = rr_pushed (b_q st)" "rr_popped q = rr_popped (b_q st)" "\<forall>r\<in>set (rr_log q). rr_seen r"
    using log I(11) single_seen by auto
  let ?f = "\<lambda>q u. b_iter st u + of_bool (rr_pushing (rr_pc q u)) :: nat"
  have "(\<Sum>u<p. ?f q u) + of_bool (rr_pushing (rr_pc (b_q st) t)) = (\<Sum>u<p. ?f (b_q st) u) + of_bool (rr_pushing (rr_pc q t))"
    using q cons by (intro sum_cong_upd [of t]) simp_all
  then have len: "length (rr_in q) = (\<Sum>u<p. ?f q u)" using ln I(10) by simp
  have pcs: "rr_one (rr_pc q u)" "p + c \<le> u \<Longrightarrow> rr_pc q u = RrIdle"
    "rr_call_of (rr_pc q u) = Some d \<Longrightarrow> b_iter st u < rb_limit p k m u \<and> d = rb_call p c it u (b_iter st u)" for u d
    using I(3-5) [of u] one call q [of u] t by (cases "u = t"; simp)+
  have sent: "bench_sent p k (st\<lparr>b_q := q\<rparr>) = bench_sent p k st" by (simp add: bench_sent_def)
  show ?thesis
    unfolding rb_inv_def sent using I(1,2,6-9) len lg(3) pcs by (simp add: lg(1,2))
qed

lemma rb_inv_served:
  assumes inv: "rb_inv p c it k m st" and q: "\<And>u. u \<noteq> t \<Longrightarrow> rr_pc q u = rr_pc (b_q st) u" "rr_pc q t = RrIdle" and t: "t < p + c"
    and call: "rr_call_of (rr_pc (b_q st) t) = Some d" and log: "rr_log q = rr_log (b_q st) @ [(t, d, RTE_RING_OK, ys)]"
    and ln: "rr_in q = rr_in (b_q st)" and push: "rr_pushing (rr_pc (b_q st) t) = (rr_end d = ProdEnd)"
    and ys: "length ys = 1" "rr_end d = ProdEnd \<Longrightarrow> ys = rr_table d"
    and nums: "p * k = unat it" "unat (iteration_per_thread it (int p)) = k"
  shows "rb_inv p c it k m (rb_return p t [(t, d, RTE_RING_OK, ys)] (st\<lparr>b_q := q\<rparr>))"
proof -
  note I = rb_invD [OF inv]
  let ?st = "rb_return p t [(t, d, RTE_RING_OK, ys)] (st\<lparr>b_q := q\<rparr>)"
  obtain y where y: "ys = [y]" using ys(1) by (cases ys) auto
  have d: "b_iter st t < rb_limit p k m t" "d = rb_call p c it t (b_iter st t)" using I(5) [OF call] by simp_all
  have st: "b_q ?st = q" "b_iter ?st = (b_iter st)(t := Suc (b_iter st t))"
    "b_s ?st = (if t < p then b_s st else (b_s st)(t := b_s st t + int (unat y)))"
    by (simp_all add: rb_return_def y)
  have lg: "rr_pushed q = rr_pushed (b_q st) @ (if t < p then [y] else [])" "rr_popped q = rr_popped (b_q st) @ (if t < p then [] else [y])"
    using log d(2) y by simp_all
  have it: "(\<Sum>u<p. b_iter ?st u) = (\<Sum>u<p. b_iter st u) + of_bool (t < p)" "(\<Sum>u=p..<p + c. b_iter ?st u) = (\<Sum>u=p..<p + c. b_iter st u) + of_bool (p \<le> t)"
    using sum_Suc_upd [of "{..<p}" "b_iter st" t] sum_Suc_upd [of "{p..<p + c}" "b_iter st" t] st(2) t by simp_all
  have sent: "bench_sent p k ?st = bench_sent p k st + (if t < p then int (unat y) else 0)"
  proof (cases "t < p")
    case True
    then have "y = op_number t (iteration_per_thread it (int p)) (of_nat (b_iter st t))"
      using ys(2) y d(2) by (simp add: rb_call_def)
    then have "unat y = t * k + b_iter st t"
      using op_number_unat [OF True _ nums, of "b_iter st t"] d(1) True by (simp add: rb_limit_def)
    then show ?thesis using sent_upd [OF True st(2)] True by simp
  next
    case False
    then have "bench_sent p k ?st = bench_sent p k st" unfolding bench_sent_def st(2) by (intro sum.cong) auto
    then show ?thesis using False by simp
  qed
  have sums: "(\<Sum>u<p + c. b_s ?st u) = (\<Sum>u<p + c. b_s st u) + (if t < p then 0 else int (unat y))"
    using sum_upd_less [OF t, of "b_s st"] st(3) by simp
  have "(\<Sum>u<p. b_iter ?st u + of_bool (rr_pushing (rr_pc q u))) + 0 = (\<Sum>u<p. b_iter st u + of_bool (rr_pushing (rr_pc (b_q st) u))) + (0 :: nat)"
    by (rule sum_cong_upd [of t]) (use q push d(2) st(2) in simp_all)
  then have len: "length (rr_in q) = (\<Sum>u<p. b_iter ?st u + of_bool (rr_pushing (rr_pc q u)))" using ln I(10) by simp
  have pcs: "rr_one (rr_pc q u)" "p + c \<le> u \<Longrightarrow> rr_pc q u = RrIdle" "u < p + c \<Longrightarrow> b_iter ?st u \<le> rb_limit p k m u" "u < p \<Longrightarrow> b_s ?st u = 0"
    "rr_call_of (rr_pc q u) = Some e \<Longrightarrow> b_iter ?st u < rb_limit p k m u \<and> e = rb_call p c it u (b_iter ?st u)" for u e
    using I(1-5) [of u] q(1) [of u] q(2) d(1) t unfolding st(2,3) by (cases "u = t"; simp)+
  have "\<forall>r\<in>set (rr_log q). rr_seen r" using log I(11) by (auto simp: rr_seen_def)
  then show ?thesis
    unfolding rb_inv_def st(1) lg it sent sums using I(6-9) len pcs t by auto
qed

section \<open>All turns\<close>

lemma rb_inv_turn:
  assumes inv: "rb_inv p c it k m st" and t: "t < p + c" and nums: "p * k = unat it" "unat (iteration_per_thread it (int p)) = k"
    "unat (iteration_per_thread it (int c)) = m"
  shows "rb_inv p c it k m (rb_turn p c it t st)"
proof -
  note I = rb_invD [OF inv]
  let ?q = "b_q st"
  have lim: "unat (iteration_per_thread it (int (if t < p then p else c))) = rb_limit p k m t" using nums(2,3) by (simp add: rb_limit_def)
  show ?thesis
  proof (cases "rr_pc ?q t = RrIdle")
    case True
    let ?c = "rb_call p c it t (b_iter st t)"
    have "rb_inv p c it k m (st\<lparr>b_q := rr_begin t ?c ?q\<rparr>)" if "b_iter st t < rb_limit p k m t"
      using that True by (intro rb_inv_quiet [OF inv _ t]) (simp_all add: rr_begin_def rr_goto_def)
    then show ?thesis using True inv lim by (simp add: rb_turn_def Let_def not_le)
  next
    case False
    let ?s = "rr_next t (rr_pc ?q t) ?q"
    have turn: "rb_turn p c it t st = rb_return p t (drop (length (rr_log ?q)) (rr_log ?s)) (st\<lparr>b_q := ?s\<rparr>)"
      using False by (simp add: rb_turn_def Let_def)
    have cons: "\<not> rr_pushing x" if "rr_call_of x = Some d" "d = rb_call p c it t i" "\<not> t < p" for x d i
      using that by (cases x) auto
    obtain d where d: "rr_call_of (rr_pc ?q t) = Some d" using False by (cases "rr_pc ?q t") auto
    show ?thesis
    proof (cases rule: one_next [OF refl I(3) False refl])
      case goes: 1
      have "rb_inv p c it k m (st\<lparr>b_q := ?s\<rparr>)"
        using goes I(5) [of t] d cons [of "rr_pc ?q t"] cons [of "rr_pc ?s t"] rr_next_others [of _ t "rr_pc ?q t" ?q]
        by (intro rb_inv_quiet [OF inv _ t]) auto
      then show ?thesis unfolding turn goes(1) by (simp add: rb_return_def)
    next
      case refused: (2 e)
      have "rb_inv p c it k m (st\<lparr>b_q := ?s\<rparr>)"
        using refused rr_next_others [of _ t "rr_pc ?q t" ?q] one_call_single [OF I(3) refused(1)]
        by (intro rb_inv_quiet [OF inv _ t]) auto
      then show ?thesis unfolding turn refused(2) by (simp add: rb_return_def refusal_not_ok split: rte_status.splits)
    next
      case served: (3 e ys)
      have "rb_inv p c it k m (rb_return p t [(t, e, RTE_RING_OK, ys)] (st\<lparr>b_q := ?s\<rparr>))"
        by (rule rb_inv_served [OF inv rr_next_others served(3) t served(1,2,4,5,6,7) nums(1,2)])
      then show ?thesis unfolding turn served(2) by simp
    qed
  qed
qed

lemma rb_inv_start: "rb_inv p c it k m (bench_init (rr_start r))"
  by (simp add: rb_inv_def bench_init_def rr_start_def bench_sent_def)

lemma rb_in_bound:
  assumes "rb_inv p c it k m st"
  shows "length (rr_in (b_q st)) \<le> p * k"
proof -
  note I = rb_invD [OF assms]
  have "b_iter st t + of_bool (rr_pushing (rr_pc (b_q st) t)) \<le> k" if "t < p" for t
  proof (cases "rr_pushing (rr_pc (b_q st) t)")
    case True
    then obtain d where "rr_call_of (rr_pc (b_q st) t) = Some d" by (cases "rr_pc (b_q st) t") auto
    then show ?thesis using I(5) that by (fastforce simp: rb_limit_def)
  qed (use I(1) [of t] that in \<open>simp add: rb_limit_def\<close>)
  then have "(\<Sum>t<p. b_iter st t + of_bool (rr_pushing (rr_pc (b_q st) t))) \<le> (\<Sum>t<p. k)" by (intro sum_mono) simp
  then show ?thesis using I(10) by simp
qed

text \<open>A turn of thread \<open>t\<close> is a step of the ring, or none.\<close>

definition rb_solo :: "nat \<Rightarrow> cq_end \<Rightarrow> nat" where
  "rb_solo p e = (if e = ProdEnd then 0 else p)"

lemma b_q_return: "b_q (rb_return p t L st) = b_q st"
  by (simp add: rb_return_def split: list.split prod.split rte_status.split)

lemma rb_turn_step:
  assumes "t < p + c" "p = 1 \<or> ring_multi ProdEnd (rr_ring (b_q st))" "c = 1 \<or> ring_multi ConsEnd (rr_ring (b_q st))"
  shows "(rr_step rr_asks (rb_solo p) (p + c))\<^sup>*\<^sup>* (b_q st) (b_q (rb_turn p c it t st))"
proof -
  have "rr_step rr_asks (rb_solo p) (p + c) (b_q st) (rr_begin t (rb_call p c it t i) (b_q st))" if "rr_pc (b_q st) t = RrIdle" for i
  proof -
    have "rr_may (rb_solo p) (rr_ring (b_q st)) t (rb_call p c it t i)"
      using assms by (auto simp: rr_may_def rb_solo_def)
    moreover have "rr_want (rb_call p c it t i) \<noteq> 0" by (simp add: rb_call_def)
    ultimately show ?thesis using assms(1) that unfolding rr_step_def rr_thread_def by auto
  qed
  moreover have "rr_step rr_asks (rb_solo p) (p + c) (b_q st) (rr_next t (rr_pc (b_q st) t) (b_q st))" if "rr_pc (b_q st) t \<noteq> RrIdle"
    using assms(1) that unfolding rr_step_def rr_thread_def by auto
  ultimately show ?thesis by (auto simp: rb_turn_def Let_def b_q_return)
qed

lemma rr_steps_cfg: "(rr_step P solo N)\<^sup>*\<^sup>* s s' \<Longrightarrow> ring_cfg (rr_ring s') = ring_cfg (rr_ring s)"
  by (induction rule: rtranclp_induct) (auto simp: rr_step_cfg)

lemma rb_run_ok:
  assumes nums: "p * k = unat it" "unat (iteration_per_thread it (int p)) = k" "unat (iteration_per_thread it (int c)) = m"
    and modes: "p = 1 \<or> ring_multi ProdEnd r" "c = 1 \<or> ring_multi ConsEnd r"
  shows "set ts \<subseteq> {..<p + c} \<Longrightarrow> rb_inv p c it k m st \<Longrightarrow> (rr_step rr_asks (rb_solo p) (p + c))\<^sup>*\<^sup>* (rr_start r) (b_q st) \<Longrightarrow>
    rb_inv p c it k m (rb_run p c it ts st) \<and> (rr_step rr_asks (rb_solo p) (p + c))\<^sup>*\<^sup>* (rr_start r) (b_q (rb_run p c it ts st))"
proof (induction ts arbitrary: st)
  case (Cons t ts)
  have "ring_cfg (rr_ring (b_q st)) = ring_cfg r" using rr_steps_cfg [OF Cons.prems(3)] by (simp add: rr_start_def)
  then have "ring_multi e (rr_ring (b_q st)) = ring_multi e r" for e by (rule ring_multi_cfg)
  then have "(rr_step rr_asks (rb_solo p) (p + c))\<^sup>*\<^sup>* (b_q st) (b_q (rb_turn p c it t st))"
    using Cons.prems(1) modes by (intro rb_turn_step) simp_all
  with Cons.prems(3) have "(rr_step rr_asks (rb_solo p) (p + c))\<^sup>*\<^sup>* (rr_start r) (b_q (rb_turn p c it t st))"
    by (rule rtranclp_trans)
  moreover have "rb_inv p c it k m (rb_turn p c it t st)" using Cons.prems(1,2) nums by (intro rb_inv_turn) simp_all
  ultimately show ?case using Cons.IH [of "rb_turn p c it t st"] Cons.prems(1,3) unfolding rb_run_def by simp
qed (simp add: rb_run_def)

section \<open>The check\<close>

lemma rb_idle: "rb_inv p c it k m st \<Longrightarrow> b_iter st t = rb_limit p k m t \<Longrightarrow> rr_pc (b_q st) t = RrIdle"
  using rb_invD(5) [of p c it k m st t] by (cases "rr_pc (b_q st) t") auto

lemma rb_done:
  assumes inv: "rb_inv p c it k m st" and lin: "(at_step cap (p + c))\<^sup>*\<^sup>* at_init (rr_abs (b_q st))"
    and nums: "p * k = unat it" "c * m = unat it" and over: "\<forall>t<p. b_iter st t = k" "\<forall>t<c. b_iter st (p + t) = m"
  shows "bench_check p c it st"
proof -
  note I = rb_invD [OF inv]
  have "b_iter st t = rb_limit p k m t" if "t < p + c" for t
    using over(1) over(2) [rule_format, of "t - p"] that by (cases "t < p") (auto simp: rb_limit_def)
  then have idle: "rr_pc (b_q st) t = RrIdle" for t using rb_idle [OF inv] I(4) by (cases "t < p + c") auto
  have "filter rr_seen (rr_log (b_q st)) = rr_log (b_q st)" using I(11) by (simp add: filter_id_conv)
  then have m: "mset (rr_pushed (b_q st)) = mset (rr_items (b_q st)) + mset (rr_popped (b_q st))"
    using at_conserved_reach [OF lin] by (simp add: at_conserved_def rr_abs_def idle)
  have "length (rr_pushed (b_q st)) = length (rr_items (b_q st)) + length (rr_popped (b_q st))"
    using arg_cong [OF m, of size] by simp
  moreover have "(\<Sum>x\<leftarrow>rr_pushed (b_q st). int (unat x)) = (\<Sum>x\<leftarrow>rr_items (b_q st). int (unat x)) + (\<Sum>x\<leftarrow>rr_popped (b_q st). int (unat x))"
    using arg_cong [OF m, of "\<lambda>M. sum_mset (image_mset (\<lambda>x. int (unat x)) M)"] by (simp add: sum_mset_sum_list flip: mset_map)
  moreover have "t < p \<Longrightarrow> b_iter st t \<le> k" "p \<le> t \<Longrightarrow> t < p + c \<Longrightarrow> b_iter st t \<le> m" for t
    using I(1) [of t] by (simp_all add: rb_limit_def)
  ultimately have "bench_inv p c k m (rr_items (b_q st)) st"
    using I(2,6-9) unfolding bench_inv_def by simp
  then show ?thesis by (rule bench_inv_done [OF _ nums over])
qed

text \<open>The ring of the benchmark is an instance of the following property.\<close>

lemma RteQ_instance: "RteQ_ctor mp mc = rte_ctor mp mc (2 ^ 20)" "unat IT < 2 ^ 20"
  by (simp_all add: RteQ_ctor_def upper_power_of_2_IT IT_counts)

text \<open>Property C17: the benchmark of \<open>RteQ\<close> at the grain of single accesses, for a ring of \<open>2^k\<close> cells and fewer than \<open>2^k\<close>
  iterations (in the program \<open>2^20\<close> and \<open>1000000\<close>): for numbers of producers and consumers that divide the iterations,
  in a mode that fits them, and under every schedule of the threads' accesses, no unwritten cell is read, and when all
  threads have finished the assertion of \<open>test_over\<close> holds.\<close>

theorem bench_conc_check:
  assumes "divides_count it p" "divides_count it c" "p = 1 \<or> mp" "c = 1 \<or> mc" "set ts \<subseteq> {..<p + c}"
    and "1 \<le> k" "k \<le> 31" "unat it < 2 ^ k" "st = rb_run p c it ts (bench_init (rr_start (rte_ctor mp mc (2 ^ k))))"
  shows "\<not> rr_ub (b_q st) \<and> (bench_finished p c it st \<longrightarrow> bench_check p c it st)"
proof -
  let ?r = "rte_ctor mp mc (2 ^ k) :: u32 rte_ring"
  note pk = divides_count_ipt [OF assms(1)] and cm = divides_count_ipt [OF assms(2)]
  have modes: "p = 1 \<or> ring_multi ProdEnd ?r" "c = 1 \<or> ring_multi ConsEnd ?r" using assms(3,4) by (simp_all add: rte_ctor_def)
  have "b_q (bench_init (rr_start ?r)) = rr_start ?r" by (simp add: bench_init_def)
  then have R: "rb_inv p c it (unat it div p) (unat it div c) st" "(rr_step rr_asks (rb_solo p) (p + c))\<^sup>*\<^sup>* (rr_start ?r) (b_q st)"
    using rb_run_ok [OF pk(2,1) cm(1) modes assms(5) rb_inv_start] unfolding assms(9) by simp_all
  have "length (rr_in (b_q st)) < 2 ^ k" using rb_in_bound [OF R(1)] pk(2) assms(8) by simp
  note L = rr_first_lap [OF assms(6,7) R(2) this]
  have "bench_check p c it st" if "bench_finished p c it st"
    using that pk(1) cm(1) by (intro rb_done [OF R(1) conjunct1 [OF L] pk(2) cm(2)]) (simp_all add: bench_finished_def)
  with L show ?thesis by blast
qed

lemma bench_conc_check_witness:
  "\<exists>st. st = rb_run 2 1 2 (concat (replicate 20 [0, 2, 1])) (bench_init (rr_start (rte_ctor True False (2 ^ 2)))) \<and>
     bench_finished 2 1 2 st \<and> bench_check 2 1 2 st"
proof -
  let ?st = "rb_run 2 1 2 (concat (replicate 20 [0, 2, 1])) (bench_init (rr_start (rte_ctor True False (2 ^ 2))))"
  have "map (b_iter ?st) [0, 1, 2] = [1, 1, 2]" by code_simp
  then have "bench_finished 2 1 2 ?st"
    by (simp add: bench_finished_def iteration_per_thread_def less_2_cases_iff all_conj_distrib conj_disj_distribR numeral_2_eq_2 [symmetric])
  then show ?thesis
    using bench_conc_check [of 2 2 1 True False "concat (replicate 20 [0, 2, 1])" 2 ?st] by (simp add: divides_count_def)
qed

end
