(* ===== verification/Bench_ConQ.thy ===== *)
theory Bench_ConQ
  imports ConQueue_Conc_Properties Bench_Sum
begin

text \<open>
  The benchmark of \<open>ConQ\<close> over single steps: the producers and consumers of \<open>queue_bench<ConQ>\<close> with the calls of
  \<open>push\<close> and \<open>pop\<close> interleaved access by access, in the modes \<open>conq_flag_get\<close> chooses. Single mode has no
  synchronisation between callers of the same end: a call that begins while another thread's call has a claim of
  that end is a data race (\<open>cq_ub\<close>).
\<close>

section \<open>The threads\<close>

text \<open>\<open>test_thread_op\<close>: thread \<open>t\<close> repeats its call until it returns true.\<close>

definition cb_call :: "nat \<Rightarrow> u32 \<Rightarrow> nat \<Rightarrow> nat \<Rightarrow> u32 cq_call" where
  "cb_call p iteration t i =
    (if t < p then Emplace (op_number t (iteration_per_thread iteration (int p)) (of_nat i)) else Pop)"

definition cb_overlap :: "nat \<Rightarrow> nat \<Rightarrow> cq_end \<Rightarrow> 'a cq_state \<Rightarrow> bool" where
  "cb_overlap N t e s \<longleftrightarrow>
    list_ex (\<lambda>u. u \<noteq> t \<and> (case claim_of (cq_pc s u) of None \<Rightarrow> False | Some k \<Rightarrow> ck_end k = e)) [0..<N]"

definition cb_begin :: "nat \<Rightarrow> nat \<Rightarrow> 'a cq_call \<Rightarrow> 'a cq_state \<Rightarrow> 'a cq_state" where
  "cb_begin N t d s =
    (let e = call_end d; v = tail_of e (cq_q s); l = call_room d v (cq_q s)
     in if mode_of e (cq_q s) \<noteq> Single then cq_goto t (CqTest d (head_of e (cq_q s))) s
        else if cb_overlap N t e s then s\<lparr>cq_ub := True\<rparr>
        else if l = 0 then cq_return t (Refused d) s
        else cq_take t d v l s)"

definition cb_return :: "nat \<Rightarrow> nat \<Rightarrow> (nat \<times> u32 cq_ret) list \<Rightarrow> u32 cq_state bench_state \<Rightarrow> u32 cq_state bench_state" where
  "cb_return p t returned st =
    (case returned of
       (u, Served k) # _ \<Rightarrow> st\<lparr>b_iter := (b_iter st)(t := Suc (b_iter st t)),
         b_s := (if t < p then b_s st else (b_s st)(t := b_s st t + (\<Sum>y\<leftarrow>ck_done k. int (unat y))))\<rparr>
     | _ \<Rightarrow> st)"

text \<open>Thread \<open>t\<close> begins its next call, or makes the next access of its call; then comes what follows in
  \<open>test_thread_op\<close> when the call has returned with it.\<close>

inductive cb_step :: "nat \<Rightarrow> nat \<Rightarrow> u32 \<Rightarrow> u32 cq_state bench_state \<Rightarrow> u32 cq_state bench_state \<Rightarrow> bool" for p c iteration where
  cb_begins: "cb_step p c iteration st (cb_return p t (drop (length (cq_log (b_q st))) (cq_log s)) (st\<lparr>b_q := s\<rparr>))"
    if "t < p + c" "cq_pc (b_q st) t = CqIdle" "b_iter st t < unat (iteration_per_thread iteration (int (if t < p then p else c)))"
       "s = cb_begin (p + c) t (cb_call p iteration t (b_iter st t)) (b_q st)"
| cb_goes: "cb_step p c iteration st (cb_return p t (drop (length (cq_log (b_q st))) (cq_log s)) (st\<lparr>b_q := s\<rparr>))"
    if "t < p + c" "cq_pc (b_q st) t \<noteq> CqIdle" "cq_thread (\<lambda>_. t) t (b_q st) s"

text \<open>A scheduler that makes such steps.\<close>

definition cb_turn :: "nat \<Rightarrow> nat \<Rightarrow> u32 \<Rightarrow> nat \<Rightarrow> u32 cq_state bench_state \<Rightarrow> u32 cq_state bench_state" where
  "cb_turn p c iteration t st =
    (let q = b_q st; after = \<lambda>s. cb_return p t (drop (length (cq_log q)) (cq_log s)) (st\<lparr>b_q := s\<rparr>) in
     if cq_pc q t = CqIdle then
       (if b_iter st t < unat (iteration_per_thread iteration (int (if t < p then p else c)))
        then after (cb_begin (p + c) t (cb_call p iteration t (b_iter st t)) q) else st)
     else (case cq_go t (cq_pc q t) q of Some s \<Rightarrow> after s | None \<Rightarrow> st))"

definition cb_run :: "nat \<Rightarrow> nat \<Rightarrow> u32 \<Rightarrow> nat list \<Rightarrow> u32 cq_state bench_state \<Rightarrow> u32 cq_state bench_state" where
  "cb_run p c iteration ts st = fold (cb_turn p c iteration) ts st"

lemma cb_run_steps: "set ts \<subseteq> {..<p + c} \<Longrightarrow> (cb_step p c it)\<^sup>*\<^sup>* st (cb_run p c it ts st)"
proof (induction ts arbitrary: st)
  case (Cons t ts)
  have "(cb_step p c it)\<^sup>*\<^sup>* st (cb_turn p c it t st)"
    using Cons.prems cb_begins [of t p c st it] cb_goes [of t p c st _ it] cq_go_step [of t "b_q st" _ "\<lambda>_. t"]
    by (auto simp: cb_turn_def Let_def split: option.split)
  moreover have "(cb_step p c it)\<^sup>*\<^sup>* (cb_turn p c it t st) (cb_run p c it ts (cb_turn p c it t st))" using Cons by simp
  ultimately show ?case using rtranclp_trans by (fastforce simp: cb_run_def)
qed (simp add: cb_run_def)

section \<open>The steps of a call\<close>

fun cq_call_of :: "'a cq_pc \<Rightarrow> 'a cq_call option" where
  "cq_call_of CqIdle = None"
| "cq_call_of (CqTest c v) = Some c"
| "cq_call_of (CqCas c v l) = Some c"
| "cq_call_of p = map_option ck_call (claim_of p)"

lemma call_of_claim: "claim_of p = Some k \<Longrightarrow> cq_call_of p = Some (ck_call k)"
  by (cases p) simp_all

lemma call_of_None [simp]: "cq_call_of p = None \<longleftrightarrow> p = CqIdle"
  by (cases p) simp_all

lemma at_claim_call: "at_claim e p \<longleftrightarrow> claim_of p \<noteq> None \<and> (\<exists>d. cq_call_of p = Some d \<and> call_end d = e)"
  by (cases p) (auto simp: at_claim_def ck_end_def)

lemma cq_thread_others: "cq_thread solo t s s' \<Longrightarrow> u \<noteq> t \<Longrightarrow> cq_pc s' u = cq_pc s u"
  by (induction rule: cq_thread.induct) (simp_all add: cq_return_def cq_take_def)

lemma next_cases:
  assumes st: "cq_thread (\<lambda>_. t) t s s'" and inv: "cq_inv solo N s" and pc: "cq_pc s t \<noteq> CqIdle"
  obtains (goes) "cq_log s' = cq_log s" "cq_in s' = cq_in s" "cq_call_of (cq_pc s' t) = cq_call_of (cq_pc s t)"
      "map_option ck_len (claim_of (cq_pc s' t)) = map_option ck_len (claim_of (cq_pc s t))"
  | (claims) d v l where "cq_call_of (cq_pc s t) = Some d" "claim_of (cq_pc s t) = None" "cq_log s' = cq_log s"
      "cq_in s' = cq_in s @ take (unat l) (call_xs d)" "cq_pc s' t = CqWork (new_claim d v l)" "0 < unat l" "unat l \<le> call_count d"
  | (refused) d where "claim_of (cq_pc s t) = None" "cq_log s' = cq_log s @ [(t, Refused d)]" "cq_pc s' t = CqIdle" "cq_in s' = cq_in s"
  | (served) k where "claim_of (cq_pc s t) = Some k" "full_claim k" "cq_log s' = cq_log s @ [(t, Served k)]" "cq_pc s' t = CqIdle" "cq_in s' = cq_in s"
proof -
  note I = cq_invD(9) [OF inv, of t]
  show thesis
    using st
  proof cases
    case (cq_cas_default c v l g)
    then show thesis using claims [of c l v] I by (simp add: cq_take_def)
  next
    case (cq_cas_rts c v l)
    then show thesis using claims [of c l v] I by (simp add: cq_take_def)
  next
    case (cq_refuse c v)
    then show thesis using refused [of c] by (simp add: cq_return_def)
  next
    case (cq_store c w)
    then show thesis using served [of c] I by (simp add: cq_return_def)
  next
    case (cq_rts_set c v h)
    then show thesis using served [of c] I by (simp add: cq_return_def)
  qed (use pc goes in \<open>simp_all add: after_work_def split: cq_mode.splits\<close>)
qed

section \<open>The invariant\<close>

text \<open>\<open>k\<close> and \<open>m\<close> are the numbers of operations of a producer and of a consumer; a push is counted from the
  moment it has its claim.\<close>

definition cb_limit :: "nat \<Rightarrow> nat \<Rightarrow> nat \<Rightarrow> nat \<Rightarrow> nat" where
  "cb_limit p k m t = (if t < p then k else m)"

definition cb_work :: "u32 cq_state bench_state \<Rightarrow> nat \<Rightarrow> nat" where
  "cb_work st t = b_iter st t + of_bool (at_claim ProdEnd (cq_pc (b_q st) t))"

definition cb_inv :: "nat \<Rightarrow> nat \<Rightarrow> u32 \<Rightarrow> nat \<Rightarrow> nat \<Rightarrow> u32 cq_state bench_state \<Rightarrow> bool" where
  "cb_inv p c it k m st \<longleftrightarrow>
     (\<forall>t<p + c. b_iter st t \<le> cb_limit p k m t) \<and> (\<forall>t<p. b_s st t = 0) \<and> (\<forall>t\<ge>p + c. cq_pc (b_q st) t = CqIdle) \<and>
     (\<forall>t d. cq_call_of (cq_pc (b_q st) t) = Some d \<longrightarrow> b_iter st t < cb_limit p k m t \<and> d = cb_call p it t (b_iter st t)) \<and>
     (\<forall>t a. claim_of (cq_pc (b_q st) t) = Some a \<longrightarrow> unat (ck_len a) = 1) \<and>
     length (cq_in (b_q st)) = (\<Sum>t<p. cb_work st t) \<and>
     (\<Sum>x\<leftarrow>cq_in (b_q st). int (unat x)) = bench_sent p k (st\<lparr>b_iter := cb_work st\<rparr>) \<and>
     size (cq_popped (b_q st)) = (\<Sum>t=p..<p + c. b_iter st t) \<and>
     (\<Sum>x\<in>#cq_popped (b_q st). int (unat x)) = (\<Sum>t<p + c. b_s st t)"

lemma cb_invD:
  assumes "cb_inv p c it k m st"
  shows "t < p + c \<Longrightarrow> b_iter st t \<le> cb_limit p k m t" "t < p \<Longrightarrow> b_s st t = 0" "p + c \<le> t \<Longrightarrow> cq_pc (b_q st) t = CqIdle"
    "cq_call_of (cq_pc (b_q st) t) = Some d \<Longrightarrow> b_iter st t < cb_limit p k m t \<and> d = cb_call p it t (b_iter st t)"
    "claim_of (cq_pc (b_q st) t) = Some a \<Longrightarrow> unat (ck_len a) = 1" "length (cq_in (b_q st)) = (\<Sum>t<p. cb_work st t)"
    "(\<Sum>x\<leftarrow>cq_in (b_q st). int (unat x)) = bench_sent p k (st\<lparr>b_iter := cb_work st\<rparr>)"
    "size (cq_popped (b_q st)) = (\<Sum>t=p..<p + c. b_iter st t)" "(\<Sum>x\<in>#cq_popped (b_q st). int (unat x)) = (\<Sum>t<p + c. b_s st t)"
  using assms unfolding cb_inv_def by blast+

lemma bench_sent_cong: "(\<And>t. t < p \<Longrightarrow> b_iter st t = b_iter st' t) \<Longrightarrow> bench_sent p k st = bench_sent p k st'"
  unfolding bench_sent_def by (intro sum.cong) auto

lemma cb_call_end [simp]: "call_end (cb_call p it t i) = (if t < p then ProdEnd else ConsEnd)"
  by (simp add: cb_call_def)

lemma cb_call_count [simp]: "call_count (cb_call p it t i) = 1"
  by (simp add: cb_call_def)

lemma cb_call_value:
  assumes "t < p" "i < k" "p * k = unat it" "unat (iteration_per_thread it (int p)) = k"
  shows "\<exists>x. call_xs (cb_call p it t i) = [x] \<and> unat x = t * k + i"
  using assms op_number_unat [OF assms] by (simp add: cb_call_def)

text \<open>A step after which the call goes on, or has been refused.\<close>

lemma cb_inv_quiet:
  assumes inv: "cb_inv p c it k m st" and s: "\<And>u. u \<noteq> t \<Longrightarrow> cq_pc s u = cq_pc (b_q st) u" and t: "t < p + c"
    and same: "cq_in s = cq_in (b_q st)" "cq_popped s = cq_popped (b_q st)" "at_claim ProdEnd (cq_pc s t) = at_claim ProdEnd (cq_pc (b_q st) t)"
    and call: "\<And>d. cq_call_of (cq_pc s t) = Some d \<Longrightarrow> b_iter st t < cb_limit p k m t \<and> d = cb_call p it t (b_iter st t)"
    and len: "\<And>a. claim_of (cq_pc s t) = Some a \<Longrightarrow> unat (ck_len a) = 1"
  shows "cb_inv p c it k m (st\<lparr>b_q := s\<rparr>)"
proof -
  note I = cb_invD [OF inv]
  have w: "cb_work (st\<lparr>b_q := s\<rparr>) = cb_work st"
    using s same(3) by (auto simp: cb_work_def fun_eq_iff) metis+
  have pcs: "p + c \<le> u \<Longrightarrow> cq_pc s u = CqIdle" "claim_of (cq_pc s u) = Some a \<Longrightarrow> unat (ck_len a) = 1"
    "cq_call_of (cq_pc s u) = Some d \<Longrightarrow> b_iter st u < cb_limit p k m u \<and> d = cb_call p it u (b_iter st u)" for u d a
    using I(3-5) [of u] call len s [of u] t by (cases "u = t"; simp)+
  have "bench_sent p k (st\<lparr>b_q := s, b_iter := cb_work st\<rparr>) = bench_sent p k (st\<lparr>b_iter := cb_work st\<rparr>)"
    by (simp add: bench_sent_def)
  then show ?thesis unfolding cb_inv_def w using I(1,2,6-9) same(1,2) pcs by simp
qed

text \<open>A call gets its claim.\<close>

lemma cb_inv_claims:
  assumes inv: "cb_inv p c it k m st" and s: "\<And>u. u \<noteq> t \<Longrightarrow> cq_pc s u = cq_pc (b_q st) u" and t: "t < p + c"
    and d: "d = cb_call p it t (b_iter st t)" "b_iter st t < cb_limit p k m t" "claim_of (cq_pc (b_q st) t) = None"
    and new: "cq_in s = cq_in (b_q st) @ call_xs d" "cq_popped s = cq_popped (b_q st)" "cq_pc s t = CqWork (new_claim d v l)" "unat l = 1"
    and nums: "p * k = unat it" "unat (iteration_per_thread it (int p)) = k"
  shows "cb_inv p c it k m (st\<lparr>b_q := s\<rparr>)"
proof -
  note I = cb_invD [OF inv]
  have old: "cb_work st t = b_iter st t" using d(3) by (simp add: cb_work_def at_claim_def)
  have other: "u \<noteq> t \<Longrightarrow> cb_work (st\<lparr>b_q := s\<rparr>) u = cb_work st u" for u using s by (simp add: cb_work_def)
  have new_t: "cb_work (st\<lparr>b_q := s\<rparr>) t = b_iter st t + of_bool (t < p)"
    using new(3) d(1) by (simp add: cb_work_def at_claim_def ck_end_def new_claim_def)
  have sums: "length (cq_in s) = (\<Sum>u<p. cb_work (st\<lparr>b_q := s\<rparr>) u) \<and>
    (\<Sum>x\<leftarrow>cq_in s. int (unat x)) = bench_sent p k (st\<lparr>b_q := s, b_iter := cb_work (st\<lparr>b_q := s\<rparr>)\<rparr>)"
  proof (cases "t < p")
    case True
    obtain x where x: "call_xs d = [x]" "unat x = t * k + b_iter st t"
      using cb_call_value [OF True _ nums, of "b_iter st t"] d True by (auto simp: cb_limit_def)
    have w: "cb_work (st\<lparr>b_q := s\<rparr>) = (cb_work st)(t := Suc (cb_work st t))"
      using other new_t old True by (auto simp: fun_eq_iff)
    have "bench_sent p k (st\<lparr>b_q := s, b_iter := cb_work (st\<lparr>b_q := s\<rparr>)\<rparr>) = bench_sent p k (st\<lparr>b_iter := cb_work st\<rparr>) + int (unat x)"
      using sent_upd [OF True, of "st\<lparr>b_q := s, b_iter := cb_work (st\<lparr>b_q := s\<rparr>)\<rparr>" "st\<lparr>b_iter := cb_work st\<rparr>" k] w old x(2) by simp
    moreover have "(\<Sum>u<p. cb_work (st\<lparr>b_q := s\<rparr>) u) = (\<Sum>u<p. cb_work st u) + 1"
      using sum_Suc_upd [of "{..<p}" "cb_work st" t] True unfolding w by simp
    ultimately show ?thesis using I(6,7) new(1) x(1) by simp
  next
    case False
    then have w: "u < p \<Longrightarrow> cb_work (st\<lparr>b_q := s\<rparr>) u = cb_work st u" for u using other [of u] by auto
    have "bench_sent p k (st\<lparr>b_q := s, b_iter := cb_work (st\<lparr>b_q := s\<rparr>)\<rparr>) = bench_sent p k (st\<lparr>b_iter := cb_work st\<rparr>)"
      by (rule bench_sent_cong) (simp add: w)
    moreover have "call_xs d = []" using d(1) False by (simp add: cb_call_def)
    ultimately show ?thesis using I(6,7) new(1) w by simp
  qed
  have pcs: "p + c \<le> u \<Longrightarrow> cq_pc s u = CqIdle" "claim_of (cq_pc s u) = Some a \<Longrightarrow> unat (ck_len a) = 1"
    "cq_call_of (cq_pc s u) = Some e \<Longrightarrow> b_iter st u < cb_limit p k m u \<and> e = cb_call p it u (b_iter st u)" for u e a
    using I(3-5) [of u] d(1,2) new(3,4) s [of u] t by (cases "u = t"; auto simp: new_claim_def)+
  show ?thesis unfolding cb_inv_def using I(1,2,8,9) new(2) sums pcs by simp
qed

text \<open>A call returns with success.\<close>

lemma cb_inv_served:
  assumes inv: "cb_inv p c it k m st" and s: "\<And>u. u \<noteq> t \<Longrightarrow> cq_pc s u = cq_pc (b_q st) u" "cq_pc s t = CqIdle" and t: "t < p + c"
    and a: "claim_of (cq_pc (b_q st) t) = Some a" "full_claim a"
    and same: "cq_in s = cq_in (b_q st)" "cq_popped s = cq_popped (b_q st) + ret_popped (Served a)"
  shows "cb_inv p c it k m (cb_return p t [(t, Served a)] (st\<lparr>b_q := s\<rparr>))"
proof -
  note I = cb_invD [OF inv]
  let ?st = "cb_return p t [(t, Served a)] (st\<lparr>b_q := s\<rparr>)"
  have "length (ck_done a) = 1" using a(2) I(5) [OF a(1)] by (simp add: full_claim_def)
  then obtain y where y: "ck_done a = [y]" by (cases "ck_done a") auto
  have d: "b_iter st t < cb_limit p k m t" "ck_call a = cb_call p it t (b_iter st t)"
    using I(4) [OF call_of_claim [OF a(1)]] by simp_all
  have st: "b_q ?st = s" "b_iter ?st = (b_iter st)(t := Suc (b_iter st t))"
    "b_s ?st = (if t < p then b_s st else (b_s st)(t := b_s st t + int (unat y)))"
    by (simp_all add: cb_return_def y)
  have popped: "ret_popped (Served a) = (if t < p then {#} else {#y#})" using d(2) y by (simp add: ck_end_def)
  have "at_claim ProdEnd (cq_pc (b_q st) t) = (t < p)" using a(1) d(2) by (simp add: at_claim_def ck_end_def)
  then have w: "u < p \<Longrightarrow> cb_work ?st u = cb_work st u" for u
    using s by (cases "u = t") (simp_all add: cb_work_def st at_claim_def)
  have sent: "bench_sent p k (?st\<lparr>b_iter := cb_work ?st\<rparr>) = bench_sent p k (st\<lparr>b_iter := cb_work st\<rparr>)"
    by (rule bench_sent_cong) (simp add: w)
  have it: "(\<Sum>u=p..<p + c. b_iter ?st u) = (\<Sum>u=p..<p + c. b_iter st u) + of_bool (p \<le> t)"
    using sum_Suc_upd [of "{p..<p + c}" "b_iter st" t] st(2) t by simp
  have sums: "(\<Sum>u<p + c. b_s ?st u) = (\<Sum>u<p + c. b_s st u) + (if t < p then 0 else int (unat y))"
    using sum_upd_less [OF t, of "b_s st"] st(3) by simp
  have pcs: "p + c \<le> u \<Longrightarrow> cq_pc s u = CqIdle" "u < p + c \<Longrightarrow> b_iter ?st u \<le> cb_limit p k m u" "u < p \<Longrightarrow> b_s ?st u = 0"
    "claim_of (cq_pc s u) = Some b \<Longrightarrow> unat (ck_len b) = 1"
    "cq_call_of (cq_pc s u) = Some e \<Longrightarrow> b_iter ?st u < cb_limit p k m u \<and> e = cb_call p it u (b_iter ?st u)" for u e b
    using I(1-5) [of u] s d(1) t unfolding st(2,3) by (cases "u = t"; simp)+
  show ?thesis
    unfolding cb_inv_def st(1) sent it sums using I(6-9) w pcs same popped by (auto simp: not_less)
qed

lemma popped_append: "cq_log s' = cq_log s @ [(t, r)] \<Longrightarrow> cq_popped s' = cq_popped s + ret_popped r"
  by (simp add: cq_popped_def)

section \<open>All steps\<close>

text \<open>The modes of a queue built with \<open>conq_flag_get\<close>.\<close>

definition cb_modes :: "nat \<Rightarrow> nat \<Rightarrow> 'a conqueue \<Rightarrow> bool" where
  "cb_modes p c q \<longleftrightarrow> (mode_of ProdEnd q = Single \<longrightarrow> p = 1) \<and> (mode_of ConsEnd q = Single \<longrightarrow> c = 1)"

definition cb_solo :: "nat \<Rightarrow> cq_end \<Rightarrow> nat" where
  "cb_solo p e = (if e = ProdEnd then 0 else p)"

lemma cq_thread_solo: "cq_thread solo t s s' \<Longrightarrow> cq_pc s t \<noteq> CqIdle \<Longrightarrow> cq_thread solo' t s s'"
  by (induction rule: cq_thread.induct) ((rule cq_thread.intros; assumption) | blast)+

lemma cb_inv_goes:
  assumes inv: "cb_inv p c it k m st" and Q: "cq_inv solo N (b_q st)" and t: "t < p + c"
    and pc: "cq_pc (b_q st) t \<noteq> CqIdle" and st: "cq_thread (\<lambda>_. t) t (b_q st) s"
    and nums: "p * k = unat it" "unat (iteration_per_thread it (int p)) = k"
  shows "cb_inv p c it k m (cb_return p t (drop (length (cq_log (b_q st))) (cq_log s)) (st\<lparr>b_q := s\<rparr>))"
proof -
  note I = cb_invD [OF inv] and others = cq_thread_others [OF st]
  have quiet: "cb_return p t (drop (length (cq_log (b_q st))) (cq_log s)) (st\<lparr>b_q := s\<rparr>) = st\<lparr>b_q := s\<rparr>"
    if "cq_log s = cq_log (b_q st) \<or> (\<exists>d. cq_log s = cq_log (b_q st) @ [(t, Refused d)])"
    using that by (auto simp: cb_return_def)
  show ?thesis
  proof (cases rule: next_cases [OF st Q pc])
    case goes: 1
    have "at_claim ProdEnd (cq_pc s t) = at_claim ProdEnd (cq_pc (b_q st) t)"
      using goes(3,4) unfolding at_claim_call by (metis map_option_is_None)
    moreover have "unat (ck_len a) = 1" if "claim_of (cq_pc s t) = Some a" for a
      using goes(4) I(5) [of t] that by (auto simp: map_option_case split: option.splits)
    moreover have "cq_popped s = cq_popped (b_q st)" using goes(1) by (simp add: cq_popped_def)
    moreover have "b_iter st t < cb_limit p k m t \<and> d = cb_call p it t (b_iter st t)" if "cq_call_of (cq_pc s t) = Some d" for d
      using I(4) [of t d] goes(3) that by simp
    ultimately have "cb_inv p c it k m (st\<lparr>b_q := s\<rparr>)"
      using goes(2) by (intro cb_inv_quiet [OF inv others t]) simp_all
    then show ?thesis using quiet goes(1) by simp
  next
    case claims: (2 d v l)
    have d: "d = cb_call p it t (b_iter st t)" "b_iter st t < cb_limit p k m t" using I(4) [OF claims(1)] by simp_all
    then have l: "unat l = 1" using claims(6,7) by simp
    then have "take (unat l) (call_xs d) = call_xs d" using d(1) by (simp add: cb_call_def)
    moreover have "cq_popped s = cq_popped (b_q st)" using claims(3) by (simp add: cq_popped_def)
    ultimately have "cb_inv p c it k m (st\<lparr>b_q := s\<rparr>)"
      using claims(4) by (intro cb_inv_claims [OF inv others t d claims(2) _ _ claims(5) l nums]) simp_all
    then show ?thesis using quiet claims(3) by simp
  next
    case refused: (3 d)
    have "cb_inv p c it k m (st\<lparr>b_q := s\<rparr>)"
      using refused popped_append [OF refused(2)] by (intro cb_inv_quiet [OF inv others t]) (simp_all add: at_claim_def)
    then show ?thesis using quiet refused(2) by simp
  next
    case served: (4 a)
    have "cb_inv p c it k m (cb_return p t [(t, Served a)] (st\<lparr>b_q := s\<rparr>))"
      by (rule cb_inv_served [OF inv others served(4) t served(1,2,5) popped_append [OF served(3)]])
    then show ?thesis using served(3) by simp
  qed
qed

text \<open>In single mode the calls of the one caller of an end do not overlap.\<close>

lemma cb_no_overlap:
  assumes "cb_inv p c it k m st" "cb_modes p c (cq_q (b_q st))" "t < p + c" "d = cb_call p it t i"
    and "mode_of (call_end d) (cq_q (b_q st)) = Single"
  shows "t = cb_solo p (call_end d)" "\<not> cb_overlap (p + c) t (call_end d) (b_q st)"
proof -
  show s: "t = cb_solo p (call_end d)" using assms(2-5) by (auto simp: cb_modes_def cb_solo_def split: if_splits)
  have "u = t" if u: "u < p + c" "claim_of (cq_pc (b_q st) u) = Some a" "ck_end a = call_end d" for u a
  proof -
    have "call_end (cb_call p it u (b_iter st u)) = call_end d"
      using cb_invD(4) [OF assms(1) call_of_claim [OF u(2)]] u(3) by (simp add: ck_end_def)
    then show ?thesis using u(1) assms(2-5) by (auto simp: cb_modes_def split: if_splits)
  qed
  then show "\<not> cb_overlap (p + c) t (call_end d) (b_q st)"
    by (auto simp: cb_overlap_def list_ex_iff split: option.splits)
qed

lemma cb_begin_thread:
  assumes "cq_pc s t = CqIdle" "d \<notin> range PopBulk"
    and "mode_of (call_end d) (cq_q s) = Single \<Longrightarrow> t = solo (call_end d) \<and> \<not> cb_overlap N t (call_end d) s"
  shows "cq_thread solo t s (cb_begin N t d s)"
  using assms cq_call [of s t d solo] cq_solo_refuse [of s t d solo] cq_solo_take [of s t d solo]
  by (auto simp: cb_begin_def Let_def)

lemma cb_inv_begins:
  assumes inv: "cb_inv p c it k m st" and t: "t < p + c" and idle: "cq_pc (b_q st) t = CqIdle"
    and d: "d = cb_call p it t (b_iter st t)" "b_iter st t < cb_limit p k m t"
    and ov: "mode_of (call_end d) (cq_q (b_q st)) = Single \<Longrightarrow> \<not> cb_overlap (p + c) t (call_end d) (b_q st)"
    and s: "s = cb_begin (p + c) t d (b_q st)"
    and nums: "p * k = unat it" "unat (iteration_per_thread it (int p)) = k"
  shows "cb_inv p c it k m (cb_return p t (drop (length (cq_log (b_q st))) (cq_log s)) (st\<lparr>b_q := s\<rparr>))"
proof -
  let ?q = "cq_q (b_q st)" and ?v = "tail_of (call_end d) (cq_q (b_q st))"
  consider (test) "s = cq_goto t (CqTest d (head_of (call_end d) ?q)) (b_q st)" | (refused) "s = cq_return t (Refused d) (b_q st)"
    | (claims) "s = cq_take t d ?v (call_room d ?v ?q) (b_q st)" "call_room d ?v ?q \<noteq> 0"
    using ov s unfolding cb_begin_def Let_def by (cases "mode_of (call_end d) ?q = Single"; cases "call_room d ?v ?q = 0") auto
  then show ?thesis
  proof cases
    case test
    then have "cb_inv p c it k m (st\<lparr>b_q := s\<rparr>)"
      using d idle by (intro cb_inv_quiet [OF inv _ t]) (simp_all add: cq_popped_def at_claim_def)
    then show ?thesis using test by (simp add: cb_return_def)
  next
    case refused
    then have "cb_inv p c it k m (st\<lparr>b_q := s\<rparr>)"
      using idle by (intro cb_inv_quiet [OF inv _ t]) (simp_all add: cq_popped_def cq_return_def)
    then show ?thesis using refused by (simp add: cb_return_def cq_return_def)
  next
    case claims
    have "unat (call_room d ?v ?q) \<le> 1" using room_count [of d ?v ?q] d(1) by (simp add: cb_call_def split: if_splits)
    moreover have "unat (call_room d ?v ?q) \<noteq> 0" using claims(2) by (simp add: unat_eq_0)
    ultimately have l: "unat (call_room d ?v ?q) = 1" by linarith
    then have "take (unat (call_room d ?v ?q)) (call_xs d) = call_xs d" using d(1) by (auto simp: cb_call_def)
    then have "cb_inv p c it k m (st\<lparr>b_q := s\<rparr>)"
      using idle claims(1) by (intro cb_inv_claims [OF inv _ t d _ _ _ _ l nums, where v = ?v]) (simp_all add: cq_take_def cq_popped_def)
    then show ?thesis using claims(1) by (simp add: cb_return_def cq_take_def)
  qed
qed

lemma cb_inv_start: "cb_inv p c it k m (bench_init (cq_start q))"
  by (simp add: cb_inv_def bench_init_def cq_start_def bench_sent_def cq_popped_def cb_work_def at_claim_def)

lemma cb_in_bound:
  assumes "cb_inv p c it k m st"
  shows "length (cq_in (b_q st)) \<le> p * k"
proof -
  note I = cb_invD [OF assms]
  have "cb_work st t \<le> k" if "t < p" for t
  proof (cases "at_claim ProdEnd (cq_pc (b_q st) t)")
    case True
    then obtain d where "cq_call_of (cq_pc (b_q st) t) = Some d" unfolding at_claim_call by blast
    then show ?thesis using I(4) that by (fastforce simp: cb_limit_def cb_work_def)
  qed (use I(1) [of t] that in \<open>simp add: cb_limit_def cb_work_def\<close>)
  then have "(\<Sum>t<p. cb_work st t) \<le> (\<Sum>t<p. k)" by (intro sum_mono) simp
  then show ?thesis using I(6) by simp
qed

lemma cb_return_q: "b_q (cb_return p t L st) = b_q st"
  by (simp add: cb_return_def split: list.split prod.split cq_ret.split)

lemma cb_step_ok:
  assumes st: "cb_step p c it st st'" and inv: "cb_inv p c it k m st" and Q: "cq_inv (cb_solo p) (p + c) (b_q st)"
    and md: "cb_modes p c (cq_q (b_q st))"
    and nums: "p * k = unat it" "unat (iteration_per_thread it (int p)) = k" "unat (iteration_per_thread it (int c)) = m"
  shows "cb_inv p c it k m st' \<and> cq_step (cb_solo p) (p + c) (b_q st) (b_q st')"
  using st
proof cases
  case (cb_begins t s)
  let ?d = "cb_call p it t (b_iter st t)"
  have l: "b_iter st t < cb_limit p k m t" using cb_begins(4) nums by (simp add: cb_limit_def split: if_splits)
  have ov: "t = cb_solo p (call_end ?d) \<and> \<not> cb_overlap (p + c) t (call_end ?d) (b_q st)"
    if "mode_of (call_end ?d) (cq_q (b_q st)) = Single" using cb_no_overlap [OF inv md cb_begins(2) refl that] by blast
  have "cb_inv p c it k m st'"
    unfolding cb_begins(1) using ov by (intro cb_inv_begins [OF inv cb_begins(2,3) refl l _ cb_begins(5) nums(1,2)]) blast
  moreover have "cq_thread (cb_solo p) t (b_q st) s"
    unfolding cb_begins(5) using ov by (intro cb_begin_thread [OF cb_begins(3)]) (auto simp: cb_call_def)
  ultimately show ?thesis using cb_begins(2) unfolding cq_step_def cb_begins(1) cb_return_q by auto
next
  case (cb_goes t s)
  have "cq_thread (cb_solo p) t (b_q st) s" by (rule cq_thread_solo [OF cb_goes(4,3)])
  then show ?thesis
    using cb_inv_goes [OF inv Q cb_goes(2-4) nums(1,2)] cb_goes(2) unfolding cq_step_def cb_goes(1) cb_return_q by auto
qed

section \<open>The check\<close>

lemma cb_modes_flags:
  assumes "flags q = conq_default_flags (conq_flag_get (int p) (int c) ts)"
  shows "cb_modes p c q"
proof -
  have "\<not> has_flag F_MP_ENQ F_SP_ENQ" "\<not> has_flag F_MC_DEQ F_SP_ENQ" "\<not> has_flag F_MP_ENQ F_SC_DEQ" "\<not> has_flag F_MC_DEQ F_SC_DEQ"
    by (simp_all add: has_flag_def conq_flag_defs)
  then show ?thesis
    using assms by (auto simp: cb_modes_def default_flags_has conq_flag_get_has split: if_splits)
qed

lemma cb_reach:
  assumes q: "cq_fresh q" "cb_modes p c q" and run: "(cb_step p c it)\<^sup>*\<^sup>* (bench_init (cq_start q)) st"
    and nums: "p * k = unat it" "unat (iteration_per_thread it (int p)) = k" "unat (iteration_per_thread it (int c)) = m"
  shows "cb_inv p c it k m st \<and> cq_inv (cb_solo p) (p + c) (b_q st) \<and> cq_conserved (p + c) (b_q st)"
proof -
  have reach: "cq_inv (cb_solo p) (p + c) (b_q st) \<and> cq_conserved (p + c) (b_q st) \<and> conq_cfg (cq_q (b_q st)) = conq_cfg q"
    if "cb_inv p c it k m st" "(cq_step (cb_solo p) (p + c))\<^sup>*\<^sup>* (cq_start q) (b_q st)" for st
  proof (rule cq_reach [OF q(1) cq_init_start that(2)])
    show "length (cq_in (b_q st)) < 2 ^ 32" using cb_in_bound [OF that(1)] nums(1) unat_u32_less [of it] by (simp del: Suc_eq_plus1 add: le_less_trans)
  qed
  have "cb_inv p c it k m st \<and> (cq_step (cb_solo p) (p + c))\<^sup>*\<^sup>* (cq_start q) (b_q st)"
    using run
  proof (induction rule: rtranclp_induct)
    case base
    show ?case by (simp add: cb_inv_start) (simp add: bench_init_def)
  next
    case (step st st')
    note R = reach [OF conjunct1 [OF step.IH] conjunct2 [OF step.IH]]
    have "cb_modes p c (cq_q (b_q st))"
      using q(2) R mode_of_cfg [of "cq_q (b_q st)" q] by (simp add: cb_modes_def)
    with cb_step_ok [OF step.hyps(2) _ _ _ nums] step.IH R show ?case by (auto intro: rtranclp.rtrancl_into_rtrancl)
  qed
  with reach show ?thesis by blast
qed

lemma cb_done:
  assumes inv: "cb_inv p c it k m st" and Q: "cq_inv solo (p + c) (b_q st)" "cq_conserved (p + c) (b_q st)"
    and nums: "p * k = unat it" "c * m = unat it" and over: "\<forall>t<p. b_iter st t = k" "\<forall>t<c. b_iter st (p + t) = m"
  shows "bench_check p c it st"
proof -
  note I = cb_invD [OF inv]
  let ?s = "b_q st"
  have "b_iter st t = cb_limit p k m t" if "t < p + c" for t
    using over(1) over(2) [rule_format, of "t - p"] that by (cases "t < p") (auto simp: cb_limit_def)
  then have "cq_call_of (cq_pc ?s t) = None" for t
    using I(4) [of t] I(3) [of t] by (cases "t < p + c"; cases "cq_call_of (cq_pc ?s t)") auto
  then have idle: "cq_pc ?s t = CqIdle" for t by simp
  then have work: "cb_work st = b_iter st" by (simp add: cb_work_def at_claim_def fun_eq_iff)
  have taken: "mset (take (claimed ?s ConsEnd) (cq_in ?s)) = cq_popped ?s"
    using Q(2) by (simp add: cq_conserved_def cq_hands_def pop_hand_def idle)
  have "length (cq_in ?s) = unat it" using I(6) over(1) nums(1) by (simp add: work)
  moreover have "(\<Sum>t=p..<p + c. b_iter st t) = (\<Sum>t<c. b_iter st (p + t))"
    using sum.shift_bounds_nat_ivl [of "b_iter st" 0 p c] by (simp add: lessThan_atLeast0 add.commute)
  then have "size (cq_popped ?s) = unat it" using I(8) over(2) nums(2) by simp
  moreover have "size (cq_popped ?s) = min (length (cq_in ?s)) (claimed ?s ConsEnd)"
    using arg_cong [OF taken, of size] by simp
  ultimately have "take (claimed ?s ConsEnd) (cq_in ?s) = cq_in ?s" by simp
  then have all: "mset (cq_in ?s) = cq_popped ?s" using taken by simp
  have "(\<Sum>x\<leftarrow>cq_in ?s. int (unat x)) = (\<Sum>x\<in>#mset (cq_in ?s). int (unat x))" by (simp add: sum_mset_sum_list flip: mset_map)
  then have "bench_sent p k st = (\<Sum>t<p + c. b_s st t)" using I(7,9) all by (simp add: work)
  moreover have "(\<Sum>t<p. b_iter st t) = (\<Sum>t=p..<p + c. b_iter st t)" using I(6,8) all by (simp add: work flip: size_mset)
  moreover have "t < p \<Longrightarrow> b_iter st t \<le> k" "p \<le> t \<Longrightarrow> t < p + c \<Longrightarrow> b_iter st t \<le> m" for t
    using I(1) [of t] by (simp_all add: cb_limit_def)
  ultimately have "bench_inv p c k m [] st" using I(2) unfolding bench_inv_def by simp
  then show ?thesis by (rule bench_inv_done [OF _ nums over])
qed

text \<open>Property C18: the benchmark of \<open>ConQ\<close> at the grain of single accesses, for a queue of any size up to \<open>2^31\<close> (in the
  program \<open>2^20\<close>) built with the flags \<open>conq_flag_get\<close> returns, default or relaxed mode for several threads. For numbers of producers
  and consumers that divide the iterations and under every interleaving of the threads' accesses, no two calls race in single mode, no access is
  undefined, and when all threads have finished the assertion of \<open>test_over\<close> holds.\<close>

theorem bench_conq_check:
  assumes "divides_count it p" "divides_count it c" "conq_ctor_alloc m (conq_flag_get (int p) (int c) ts) = Ret q" "unat m \<le> 2 ^ 31"
    and "(cb_step p c it)\<^sup>*\<^sup>* (bench_init (cq_start q)) st"
  shows "\<not> cq_ub (b_q st) \<and> (bench_finished p c it st \<longrightarrow> bench_check p c it st)"
proof -
  note pk = divides_count_ipt [OF assms(1)] and cm = divides_count_ipt [OF assms(2)]
  note F = ctor_fresh [OF assms(3,4)]
  note R = cb_reach [OF F(1) cb_modes_flags [OF F(3)] assms(5) pk(2,1) cm(1)]
  have "bench_check p c it st" if "bench_finished p c it st"
    using that pk(1) cm(1) R by (intro cb_done [where solo = "cb_solo p", OF _ _ _ pk(2) cm(2)]) (simp_all add: bench_finished_def)
  with R show ?thesis using cq_invD(13) by blast
qed

definition cb_small :: "u32 conqueue" where
  "cb_small = (case conq_ctor_alloc 4 (conq_flag_get 2 1 0) of Ret q \<Rightarrow> q | _ \<Rightarrow> undefined)"

lemma bench_conq_check_witness:
  "\<exists>st. (cb_step 2 1 2)\<^sup>*\<^sup>* (bench_init (cq_start cb_small)) st \<and> bench_finished 2 1 2 st \<and> bench_check 2 1 2 st"
proof -
  let ?st = "cb_run 2 1 2 (concat (replicate 20 [0, 2, 1])) (bench_init (cq_start cb_small))"
  have "map (b_iter ?st) [0, 1, 2] = [1, 1, 2]" by code_simp
  then have fin: "bench_finished 2 1 2 ?st"
    by (simp add: bench_finished_def iteration_per_thread_def less_2_cases_iff all_conj_distrib conj_disj_distribR numeral_2_eq_2 [symmetric])
  have run: "(cb_step 2 1 2)\<^sup>*\<^sup>* (bench_init (cq_start cb_small)) ?st" by (rule cb_run_steps) auto
  have "conq_ctor_alloc 4 (conq_flag_get (int 2) (int 1) 0) = Ret cb_small"
    by (simp add: cb_small_def conq_ctor_alloc_def conq_ctor_def conq_flag_get_def has_flag_def conq_flag_defs Let_def)
  from bench_conq_check [OF _ _ this _ run] fin run show ?thesis by (auto simp: divides_count_def)
qed

end
