(* ===== verification/Spin_Mutex.thy ===== *)
theory Spin_Mutex
  imports Transition
begin

text \<open>
  \<open>__spin_mutex_impl<D>\<close> and \<open>ticket_mutex\<close> of extend_mutex.h: the atomic operations as
  functions on words, and any number of threads that use them as a step relation.
\<close>

section \<open>The bit spin lock\<close>

text \<open>\<open>l_ & (1UL << i)\<close> is computed in 64 bits; \<open>fetch_or\<close> and \<open>fetch_xor\<close> convert their argument to \<open>D\<close>.\<close>

definition check_lock :: "'w::len word \<Rightarrow> nat \<Rightarrow> bool" where
  "check_lock l i \<longleftrightarrow> (ucast l :: u64) AND push_bit i 1 \<noteq> 0"

definition lock_bit :: "nat \<Rightarrow> 'w::len word" where
  "lock_bit i = ucast (push_bit i (1 :: u64))"

datatype spin_pc = SpinIdle | SpinSeen nat | SpinHold nat

record 'l spin_state =
  spin_l :: 'l
  spin_pc :: "nat \<Rightarrow> spin_pc"

definition spin_init :: "('w::len) word spin_state \<Rightarrow> bool" where
  "spin_init s \<longleftrightarrow> spin_l s = 0 \<and> (\<forall>t. spin_pc s t = SpinIdle)"

text \<open>
  One step of one thread \<open>t\<close>: the relaxed load of \<open>try_lock\<close>, which gives up on a set bit; the
  \<open>fetch_or\<close>, which succeeds if the old value had the bit clear; \<open>unlock\<close>. The blocking \<open>lock\<close>
  repeats \<open>try_lock\<close>. A shift by 64 or more is undefined and not a step.
\<close>

inductive spin_step :: "('w::len) word spin_state \<Rightarrow> 'w word spin_state \<Rightarrow> bool" where
  spin_busy: "spin_pc s t = SpinIdle \<Longrightarrow> i < 64 \<Longrightarrow> check_lock (spin_l s) i \<Longrightarrow> spin_step s s"
| spin_load: "spin_pc s t = SpinIdle \<Longrightarrow> i < 64 \<Longrightarrow> \<not> check_lock (spin_l s) i \<Longrightarrow>
    spin_step s (s\<lparr>spin_pc := (spin_pc s)(t := SpinSeen i)\<rparr>)"
| spin_or: "spin_pc s t = SpinSeen i \<Longrightarrow> i < 64 \<Longrightarrow>
    spin_step s (s\<lparr>spin_l := spin_l s OR lock_bit i,
                  spin_pc := (spin_pc s)(t := if check_lock (spin_l s) i then SpinIdle else SpinHold i)\<rparr>)"
| spin_unlock: "spin_pc s t = SpinHold i \<Longrightarrow> i < 64 \<Longrightarrow>
    spin_step s (s\<lparr>spin_l := spin_l s XOR lock_bit i, spin_pc := (spin_pc s)(t := SpinIdle)\<rparr>)"

lemma check_lock_bit: "check_lock (l :: 'w::len word) i \<longleftrightarrow> i < 64 \<and> bit l i"
proof -
  have "check_lock l i \<longleftrightarrow> bit (ucast l :: u64) i"
    by (simp add: check_lock_def bit_iff_and_push_bit_not_eq_0)
  then show ?thesis by (simp add: bit_ucast_iff)
qed

lemma bit_lock_bit: "i < 64 \<Longrightarrow> bit (lock_bit i :: 'w::len word) j \<longleftrightarrow> j = i \<and> i < LENGTH('w)"
  by (auto simp: lock_bit_def bit_simps)

definition spin_holds :: "nat \<Rightarrow> ('w::len) word spin_state \<Rightarrow> nat \<Rightarrow> bool" where
  "spin_holds i s t \<longleftrightarrow> spin_pc s t = SpinHold i \<and> i < LENGTH('w)"

definition spin_inv :: "('w::len) word spin_state \<Rightarrow> bool" where
  "spin_inv s \<longleftrightarrow> (\<forall>i<LENGTH('w). (bit (spin_l s) i \<longleftrightarrow> (\<exists>t. spin_pc s t = SpinHold i)) \<and>
     (\<forall>t u. spin_pc s t = SpinHold i \<longrightarrow> spin_pc s u = SpinHold i \<longrightarrow> t = u))"

lemma spin_step_inv: "spin_step s s' \<Longrightarrow> spin_inv s \<Longrightarrow> spin_inv s'"
proof (induction rule: spin_step.induct)
  case (spin_or s t i)
  show ?case
    using spin_or unfolding spin_inv_def
    by (auto simp: check_lock_bit bit_or_iff bit_lock_bit split: if_splits) (metis spin_pc.distinct spin_pc.inject)+
next
  case (spin_unlock s t i)
  show ?case
    using spin_unlock unfolding spin_inv_def
    by (auto simp: bit_xor_iff bit_lock_bit split: if_splits) (metis spin_pc.inject)+
next
  case (spin_load s t i)
  then have "(\<exists>u. ((spin_pc s)(t := SpinSeen i)) u = SpinHold j) \<longleftrightarrow> (\<exists>u. spin_pc s u = SpinHold j)" for j
    by (auto simp: fun_upd_def split: if_splits) (metis spin_pc.distinct(3))
  with spin_load show ?case
    unfolding spin_inv_def by (auto split: if_splits)
qed simp

interpretation spin: lock_system spin_init spin_step spin_inv "spin_holds i" "\<lambda>_ _. False" for i
proof unfold_locales
  show "spin_inv s" if "spin_init s" for s :: "('w :: len) word spin_state"
    using that by (simp add: spin_init_def spin_inv_def)
  show "spin_inv t" if "spin_inv s" "spin_step s t" for s t :: "('w :: len) word spin_state"
    using that spin_step_inv by blast
qed (auto simp: spin_inv_def spin_holds_def)

text \<open>A step that clears a bit is the \<open>unlock\<close> of the thread that holds it.\<close>

lemma spin_clears:
  fixes s :: "('w :: len) word spin_state"
  assumes "spin_step s s'" "spin_inv s" "bit (spin_l s) i" "\<not> bit (spin_l s') i"
  shows "\<exists>t. spin_pc s t = SpinHold i \<and> spin_pc s' = (spin_pc s)(t := SpinIdle)"
  using assms
proof (induction rule: spin_step.induct)
  case (spin_unlock s t j)
  then have "j = i" by (auto simp: bit_xor_iff bit_lock_bit)
  with spin_unlock(1) show ?case by (intro exI [of _ t]) simp
qed (auto simp: bit_or_iff)

text \<open>Property C34: mutual exclusion of the spin lock, for every bit \<open>i\<close> inside the word and in every state the
  threads can reach by \<open>try_lock\<close>, \<open>lock\<close> and \<open>unlock\<close>: at most one thread holds the bit, the bit is set
  exactly while a thread holds it, and a step that clears it is a step of its holder, which gives it up.\<close>

theorem spin_mutual_exclusion:
  fixes s0 s :: "('w :: len) word spin_state"
  assumes "spin_init s0" "spin_step\<^sup>*\<^sup>* s0 s" "i < LENGTH('w)"
  shows "(\<forall>t u. spin_pc s t = SpinHold i \<longrightarrow> spin_pc s u = SpinHold i \<longrightarrow> t = u) \<and>
    (bit (spin_l s) i \<longleftrightarrow> (\<exists>t. spin_pc s t = SpinHold i)) \<and>
    (\<forall>s'. spin_step s s' \<longrightarrow> bit (spin_l s) i \<longrightarrow> \<not> bit (spin_l s') i \<longrightarrow>
      (\<exists>t. spin_pc s t = SpinHold i \<and> spin_pc s' = (spin_pc s)(t := SpinIdle)))"
proof -
  have inv: "spin_inv s" using spin.reach_inv [OF assms(1,2)] .
  have "\<forall>t u. spin_pc s t = SpinHold i \<longrightarrow> spin_pc s u = SpinHold i \<longrightarrow> t = u"
    using spin.exclusion [OF assms(1,2), of i] assms(3) by (simp add: spin_holds_def)
  moreover have "bit (spin_l s) i \<longleftrightarrow> (\<exists>t. spin_pc s t = SpinHold i)"
    using inv assms(3) by (simp add: spin_inv_def)
  ultimately show ?thesis using spin_clears [OF _ inv] by blast
qed

lemma spin_grab:
  assumes "spin_pc s t = SpinIdle" "i < 64" "\<not> check_lock (spin_l s) i"
  shows "spin_step\<^sup>*\<^sup>* s (s\<lparr>spin_l := spin_l s OR lock_bit i, spin_pc := (spin_pc s)(t := SpinHold i)\<rparr>)"
proof -
  let ?s = "s\<lparr>spin_pc := (spin_pc s)(t := SpinSeen i)\<rparr>"
  have "spin_step s ?s" using assms by (rule spin_step.spin_load)
  moreover have "spin_step ?s (s\<lparr>spin_l := spin_l s OR lock_bit i, spin_pc := (spin_pc s)(t := SpinHold i)\<rparr>)"
    using spin_step.spin_or [of ?s t i] assms(2,3) by simp
  ultimately show ?thesis by (meson converse_rtranclp_into_rtranclp r_into_rtranclp)
qed

lemma spin_mutual_exclusion_witness:
  "\<exists>s :: 8 word spin_state. spin_pc s 1 = SpinHold 3 \<and> (\<forall>u. spin_pc s u = SpinHold 3 \<longrightarrow> u = 1) \<and>
     (\<forall>s'. spin_step s s' \<longrightarrow> \<not> bit (spin_l s') 3 \<longrightarrow> spin_pc s' 1 = SpinIdle)"
proof -
  let ?i = "\<lparr>spin_l = 0, spin_pc = \<lambda>_. SpinIdle\<rparr> :: 8 word spin_state"
  let ?s = "\<lparr>spin_l = 0 OR lock_bit 3, spin_pc = (\<lambda>_. SpinIdle)(1 := SpinHold 3)\<rparr> :: 8 word spin_state"
  have i: "spin_init ?i" by (simp add: spin_init_def)
  have "spin_step\<^sup>*\<^sup>* ?i (?i\<lparr>spin_l := spin_l ?i OR lock_bit 3, spin_pc := (spin_pc ?i)(1 := SpinHold 3)\<rparr>)"
    by (rule spin_grab) (simp_all add: check_lock_bit)
  then have r: "spin_step\<^sup>*\<^sup>* ?i ?s" by (simp only: spin_state.simps)
  have h: "spin_pc ?s 1 = SpinHold 3" "bit (spin_l ?s) 3" by (simp_all add: bit_lock_bit)
  have n: "3 < LENGTH(8)" by simp
  note E = spin_mutual_exclusion [OF i r n]
  have u: "u = 1" if "spin_pc ?s u = SpinHold 3" for u using E h(1) that by blast
  have "spin_pc s' 1 = SpinIdle" if s': "spin_step ?s s'" "\<not> bit (spin_l s') 3" for s'
  proof -
    obtain t where t: "spin_pc ?s t = SpinHold 3" "spin_pc s' = (spin_pc ?s)(t := SpinIdle)" using E h(2) s' by blast
    then show ?thesis using u [OF t(1)] by simp
  qed
  then show ?thesis using h(1) u by (intro exI [of _ ?s]) blast
qed

text \<open>A bit number at or above the width of \<open>D\<close> (say bit 8 of \<open>spin_mutex_b8\<close>) gives no
  exclusion: \<open>1UL << i\<close> is cut off to 0 on its way into \<open>fetch_or\<close>, and every thread gets the
  lock.\<close>

theorem spin_wide_bit_unprotected:
  fixes s0 :: "('w :: len) word spin_state"
  assumes "spin_init s0" "LENGTH('w) \<le> i" "i < 64"
  shows "\<exists>s. spin_step\<^sup>*\<^sup>* s0 s \<and> (\<forall>t<n. spin_pc s t = SpinHold i) \<and> (\<forall>t\<ge>n. spin_pc s t = SpinIdle)"
proof (induction n)
  case 0
  with assms(1) show ?case by (auto simp: spin_init_def)
next
  case (Suc n)
  then obtain s where s: "spin_step\<^sup>*\<^sup>* s0 s" "\<forall>t<n. spin_pc s t = SpinHold i" "\<forall>t\<ge>n. spin_pc s t = SpinIdle"
    by blast
  have "\<not> check_lock (spin_l s) i"
    using assms(2) by (simp add: check_lock_bit) (meson bit_imp_le_length not_le)
  then have "spin_step\<^sup>*\<^sup>* s (s\<lparr>spin_l := spin_l s OR lock_bit i, spin_pc := (spin_pc s)(n := SpinHold i)\<rparr>)"
    by (intro spin_grab) (use s assms(3) in simp_all)
  with s(1) have "spin_step\<^sup>*\<^sup>* s0 (s\<lparr>spin_l := spin_l s OR lock_bit i, spin_pc := (spin_pc s)(n := SpinHold i)\<rparr>)"
    by (rule rtranclp_trans)
  with s(2,3) show ?case
    by (intro exI [of _ "s\<lparr>spin_l := spin_l s OR lock_bit i, spin_pc := (spin_pc s)(n := SpinHold i)\<rparr>"])
      (simp add: less_Suc_eq)
qed

lemma spin_wide_bit_unprotected_witness:
  "\<exists>s :: 8 word spin_state. spin_pc s 0 = SpinHold 8 \<and> spin_pc s 1 = SpinHold 8"
proof -
  have i: "spin_init (\<lparr>spin_l = 0, spin_pc = \<lambda>_. SpinIdle\<rparr> :: 8 word spin_state)" by (simp add: spin_init_def)
  have "LENGTH(8) \<le> 8" "(8 :: nat) < 64" by simp_all
  from spin_wide_bit_unprotected [OF i this, of 2] obtain s :: "8 word spin_state"
    where s: "\<forall>t<2. spin_pc s t = SpinHold 8" by blast
  have "(0 :: nat) < 2" "(1 :: nat) < 2" by simp_all
  with s show ?thesis by (intro exI [of _ s]) blast
qed

end
