(* ===== verification/Ticket_Mutex.thy ===== *)
theory Ticket_Mutex
  imports Transition
begin

text \<open>
  \<open>ticket_mutex\<close> of extend_mutex.h: the two 16-bit halves \<open>h\<close> (next ticket) and \<open>l\<close> (ticket being
  served) of the word \<open>raw\<close>, and \<open>N\<close> threads that lock, try to lock and unlock it. The lists
  \<open>tk_arrived\<close> and \<open>tk_granted\<close> and the number \<open>tk_released\<close> are history variables: who took a
  ticket, who got the lock, and how often it was released. No step reads them.
\<close>

type_synonym u16_ticket = "16 word"

datatype ticket_pc = TkIdle | TkWait u16_ticket | TkTry u16_ticket u16_ticket | TkHold

record ticket_state =
  tk_h :: u16_ticket
  tk_l :: u16_ticket
  tk_pc :: "nat \<Rightarrow> ticket_pc"
  tk_arrived :: "nat list"
  tk_granted :: "nat list"
  tk_released :: nat

definition ticket_init :: "ticket_state \<Rightarrow> bool" where
  "ticket_init s \<longleftrightarrow> tk_h s = 0 \<and> tk_l s = 0 \<and> (\<forall>t. tk_pc s t = TkIdle) \<and>
     tk_arrived s = [] \<and> tk_granted s = [] \<and> tk_released s = 0"

text \<open>
  \<open>lock\<close> is \<open>tk_lock\<close> (the \<open>fetch_add\<close> on \<open>h\<close>) and then \<open>tk_spin\<close> until \<open>tk_enter\<close>; \<open>try_lock\<close> is
  \<open>tk_try_busy\<close>, or \<open>tk_try_load\<close> and then \<open>tk_try_cas\<close> or \<open>tk_try_fail\<close> (the weak exchange may
  also fail when the values agree).
\<close>

inductive ticket_step :: "nat \<Rightarrow> ticket_state \<Rightarrow> ticket_state \<Rightarrow> bool" for N where
  tk_lock: "t < N \<Longrightarrow> tk_pc s t = TkIdle \<Longrightarrow>
    ticket_step N s (s\<lparr>tk_h := tk_h s + 1, tk_pc := (tk_pc s)(t := TkWait (tk_h s)),
                       tk_arrived := tk_arrived s @ [t]\<rparr>)"
| tk_spin: "tk_pc s t = TkWait ct \<Longrightarrow> tk_l s \<noteq> ct \<Longrightarrow> ticket_step N s s"
| tk_enter: "tk_pc s t = TkWait ct \<Longrightarrow> tk_l s = ct \<Longrightarrow>
    ticket_step N s (s\<lparr>tk_pc := (tk_pc s)(t := TkHold), tk_granted := tk_granted s @ [t]\<rparr>)"
| tk_try_busy: "t < N \<Longrightarrow> tk_pc s t = TkIdle \<Longrightarrow> tk_h s \<noteq> tk_l s \<Longrightarrow> ticket_step N s s"
| tk_try_load: "t < N \<Longrightarrow> tk_pc s t = TkIdle \<Longrightarrow> tk_h s = tk_l s \<Longrightarrow>
    ticket_step N s (s\<lparr>tk_pc := (tk_pc s)(t := TkTry (tk_h s) (tk_l s))\<rparr>)"
| tk_try_cas: "tk_pc s t = TkTry ovh ovl \<Longrightarrow> tk_h s = ovh \<Longrightarrow> tk_l s = ovl \<Longrightarrow>
    ticket_step N s (s\<lparr>tk_h := ovh + 1, tk_l := ovl, tk_pc := (tk_pc s)(t := TkHold),
                       tk_arrived := tk_arrived s @ [t], tk_granted := tk_granted s @ [t]\<rparr>)"
| tk_try_fail: "tk_pc s t = TkTry ovh ovl \<Longrightarrow> ticket_step N s (s\<lparr>tk_pc := (tk_pc s)(t := TkIdle)\<rparr>)"
| tk_unlock: "tk_pc s t = TkHold \<Longrightarrow>
    ticket_step N s (s\<lparr>tk_l := tk_l s + 1, tk_pc := (tk_pc s)(t := TkIdle),
                       tk_released := tk_released s + 1\<rparr>)"

section \<open>The invariant\<close>

text \<open>\<open>queued s k\<close>: the program point of the owner of ticket number \<open>k\<close>.\<close>

definition queued_pc :: "ticket_state \<Rightarrow> nat \<Rightarrow> ticket_pc" where
  "queued_pc s k = (if k < length (tk_granted s) then TkHold else TkWait (of_nat k))"

definition ticket_inv :: "nat \<Rightarrow> ticket_state \<Rightarrow> bool" where
  "ticket_inv N s \<longleftrightarrow>
     tk_h s = of_nat (length (tk_arrived s)) \<and> tk_l s = of_nat (tk_released s) \<and>
     tk_released s \<le> length (tk_granted s) \<and> length (tk_granted s) \<le> Suc (tk_released s) \<and>
     length (tk_granted s) \<le> length (tk_arrived s) \<and>
     tk_granted s = take (length (tk_granted s)) (tk_arrived s) \<and>
     (\<forall>k. tk_released s \<le> k \<and> k < length (tk_arrived s) \<longrightarrow> tk_pc s (tk_arrived s ! k) = queued_pc s k) \<and>
     (\<forall>t. (tk_pc s t = TkHold \<or> (\<exists>ct. tk_pc s t = TkWait ct)) \<longrightarrow> t \<in> set (drop (tk_released s) (tk_arrived s))) \<and>
     distinct (drop (tk_released s) (tk_arrived s)) \<and>
     (\<forall>t\<ge>N. tk_pc s t = TkIdle) \<and>
     (\<forall>t a b. tk_pc s t = TkTry a b \<longrightarrow> a = b)"

lemma ticket_owner:
  assumes "ticket_inv N s" "tk_pc s t = TkHold \<or> (\<exists>ct. tk_pc s t = TkWait ct)"
  obtains k where "tk_released s \<le> k" "k < length (tk_arrived s)" "tk_arrived s ! k = t" "tk_pc s t = queued_pc s k"
proof -
  from assms have "t \<in> set (drop (tk_released s) (tk_arrived s))" by (auto simp: ticket_inv_def)
  then obtain j where j: "j < length (drop (tk_released s) (tk_arrived s))" "drop (tk_released s) (tk_arrived s) ! j = t"
    by (auto simp: in_set_conv_nth)
  with assms(1) show ?thesis by (intro that [of "tk_released s + j"]) (auto simp: ticket_inv_def)
qed

lemma ticket_pending_bound:
  assumes "ticket_inv N s" "t < N" "tk_pc s t \<noteq> TkHold" "\<And>ct. tk_pc s t \<noteq> TkWait ct"
  shows "length (tk_arrived s) - tk_released s < N"
proof -
  let ?q = "drop (tk_released s) (tk_arrived s)"
  have "u < N \<and> u \<noteq> t" if "u \<in> set ?q" for u
  proof -
    from that obtain j where j: "j < length ?q" "u = ?q ! j" by (auto simp: in_set_conv_nth)
    then have "tk_pc s u = queued_pc s (tk_released s + j)"
      using assms(1) by (auto simp: ticket_inv_def)
    then have "tk_pc s u \<noteq> TkIdle" "tk_pc s u \<noteq> tk_pc s t"
      using assms(3,4) by (auto simp: queued_pc_def split: if_splits) metis+
    then show ?thesis using assms(1) by (meson ticket_inv_def not_le)
  qed
  then have "set ?q \<subset> {..<N}" using assms(2) by auto
  then have "card (set ?q) < N" by (metis card_lessThan finite_lessThan psubset_card_mono)
  moreover have "card (set ?q) = length ?q" using assms(1) by (simp add: ticket_inv_def distinct_card)
  ultimately show ?thesis by simp
qed

lemma ticket_pending_bound_le:
  assumes "ticket_inv N s"
  shows "length (tk_arrived s) - tk_released s \<le> N"
proof -
  let ?q = "drop (tk_released s) (tk_arrived s)"
  have "u < N" if "u \<in> set ?q" for u
  proof -
    from that obtain j where j: "j < length ?q" "u = ?q ! j" by (auto simp: in_set_conv_nth)
    then have "tk_pc s u = queued_pc s (tk_released s + j)"
      using assms(1) by (auto simp: ticket_inv_def)
    then have "tk_pc s u \<noteq> TkIdle" by (auto simp: queued_pc_def split: if_splits)
    then show ?thesis using assms(1) by (meson ticket_inv_def not_le)
  qed
  then have "card (set ?q) \<le> N" by (metis card_lessThan card_mono finite_lessThan lessThan_iff subsetI)
  moreover have "card (set ?q) = length ?q" using assms by (simp add: ticket_inv_def distinct_card)
  ultimately show ?thesis by simp
qed

lemma of_nat_u16_inj:
  assumes "(of_nat k :: 16 word) = of_nat r" "r \<le> k" "k - r < 65536"
  shows "k = r"
proof -
  have "k mod 65536 = r mod 65536" using assms(1) by (simp add: word_unat_eq_iff unat_of_nat)
  with mod_add_inj show ?thesis using assms(2,3)
    by (metis (no_types, lifting) mod_eq_dvd_iff_nat dvd_imp_le le_zero_eq not_le diff_is_0_eq le_antisym zero_less_diff)
qed

text \<open>The only ticket that is equal to \<open>l\<close> is the oldest that was not released.\<close>

lemma ticket_served:
  assumes "ticket_inv N s" "N \<le> 65536" "tk_pc s t = TkWait (tk_l s)"
  shows "length (tk_granted s) = tk_released s \<and> tk_released s < length (tk_arrived s) \<and>
         tk_arrived s ! tk_released s = t"
proof -
  obtain k where k: "tk_released s \<le> k" "k < length (tk_arrived s)" "tk_arrived s ! k = t" "tk_pc s t = queued_pc s k"
    using ticket_owner [OF assms(1)] assms(3) by blast
  with assms(1,3) have "(of_nat k :: 16 word) = of_nat (tk_released s)" "length (tk_granted s) \<le> k"
    by (auto simp: queued_pc_def ticket_inv_def split: if_splits)
  moreover have "k - tk_released s < 65536"
    using ticket_pending_bound_le [OF assms(1)] k(1,2) assms(2) by simp
  ultimately have "k = tk_released s" "length (tk_granted s) \<le> k" using k(1) of_nat_u16_inj by blast+
  with k assms(1) show ?thesis by (auto simp: ticket_inv_def)
qed

text \<open>A ticket pair with \<open>h = l\<close> means that nobody waits or holds.\<close>

lemma ticket_free:
  assumes "ticket_inv N s" "N \<le> 65536" "tk_pc s t = TkTry a b" "tk_h s = tk_l s"
  shows "length (tk_arrived s) = tk_released s \<and> length (tk_granted s) = tk_released s"
proof -
  have "t < N" using assms(1,3) by (metis ticket_inv_def not_le ticket_pc.distinct(3))
  then have "length (tk_arrived s) - tk_released s < N"
    using ticket_pending_bound [OF assms(1)] assms(3) by simp
  moreover have "(of_nat (length (tk_arrived s)) :: 16 word) = of_nat (tk_released s)"
      "tk_released s \<le> length (tk_arrived s)"
    using assms(1,4) by (auto simp: ticket_inv_def)
  ultimately have "length (tk_arrived s) = tk_released s"
    using of_nat_u16_inj assms(2) by (meson less_le_trans)
  with assms(1) show ?thesis by (auto simp: ticket_inv_def)
qed

section \<open>Every step keeps the invariant\<close>

lemma ticket_inv_lock:
  assumes "ticket_inv N s" "t < N" "tk_pc s t = TkIdle"
  shows "ticket_inv N (s\<lparr>tk_h := tk_h s + 1, tk_pc := (tk_pc s)(t := TkWait (tk_h s)),
                          tk_arrived := tk_arrived s @ [t]\<rparr>)"
proof -
  have "tk_pc s (tk_arrived s ! k) \<noteq> TkIdle" if "tk_released s \<le> k" "k < length (tk_arrived s)" for k
    using assms(1) that by (auto simp: ticket_inv_def queued_pc_def)
  then have "tk_arrived s ! k \<noteq> t" if "tk_released s \<le> k" "k < length (tk_arrived s)" for k
    using that assms(3) by metis
  moreover from this have "t \<notin> set (drop (tk_released s) (tk_arrived s))" by (auto simp: in_set_conv_nth)
  ultimately show ?thesis
    using assms unfolding ticket_inv_def queued_pc_def by (auto simp: nth_append less_Suc_eq)
qed

lemma ticket_inv_enter:
  assumes "ticket_inv N s" "N \<le> 65536" "tk_pc s t = TkWait (tk_l s)"
  shows "ticket_inv N (s\<lparr>tk_pc := (tk_pc s)(t := TkHold), tk_granted := tk_granted s @ [t]\<rparr>)"
proof -
  have f: "length (tk_granted s) = tk_released s" "tk_released s < length (tk_arrived s)"
      "tk_arrived s ! tk_released s = t"
    using ticket_served [OF assms] by simp_all
  have g: "tk_granted s @ [t] = take (Suc (tk_released s)) (tk_arrived s)"
    using f assms(1) by (simp add: ticket_inv_def take_Suc_conv_app_nth)
  have d: "tk_arrived s ! k \<noteq> t" if "tk_released s < k" "k < length (tk_arrived s)" for k
  proof -
    have "distinct (drop (tk_released s) (tk_arrived s))" using assms(1) by (simp add: ticket_inv_def)
    then have "drop (tk_released s) (tk_arrived s) ! (k - tk_released s) \<noteq> drop (tk_released s) (tk_arrived s) ! 0"
      using that by (subst nth_eq_iff_index_eq) auto
    then show ?thesis using that f by simp
  qed
  have "t < N" using assms(1,3) by (metis ticket_inv_def not_le ticket_pc.distinct(1))
  moreover have "t \<in> set (drop (tk_released s) (tk_arrived s))" using assms(1,3) by (auto simp: ticket_inv_def)
  ultimately show ?thesis
    using assms(1) f g d unfolding ticket_inv_def queued_pc_def
    by (auto simp: le_less min_def)
qed

lemma ticket_inv_cas:
  assumes "ticket_inv N s" "N \<le> 65536" "tk_pc s t = TkTry (tk_h s) (tk_l s)"
  shows "ticket_inv N (s\<lparr>tk_h := tk_h s + 1, tk_pc := (tk_pc s)(t := TkHold),
                       tk_arrived := tk_arrived s @ [t], tk_granted := tk_granted s @ [t]\<rparr>)"
proof -
  have "tk_h s = tk_l s" using assms(1,3) by (auto simp: ticket_inv_def)
  from ticket_free [OF assms this]
  have f: "length (tk_arrived s) = tk_released s" "length (tk_granted s) = tk_released s" by simp_all
  then have "tk_granted s = tk_arrived s" using assms(1) by (simp add: ticket_inv_def)
  moreover have "t < N" using assms(1,3) by (metis ticket_inv_def not_le ticket_pc.distinct(3))
  ultimately show ?thesis
    using assms(1) f unfolding ticket_inv_def queued_pc_def
    by (auto simp: nth_append less_Suc_eq)
qed

lemma ticket_inv_pc:
  assumes "ticket_inv N s" "t < N" "\<not> (tk_pc s t = TkHold \<or> (\<exists>ct. tk_pc s t = TkWait ct))"
    and "c = TkIdle \<or> (\<exists>a. c = TkTry a a)"
  shows "ticket_inv N (s\<lparr>tk_pc := (tk_pc s)(t := c)\<rparr>)"
proof -
  have "tk_arrived s ! k \<noteq> t" if "tk_released s \<le> k" "k < length (tk_arrived s)" for k
    using assms(1,3) that by (auto simp: ticket_inv_def queued_pc_def split: if_splits)
  then show ?thesis
    using assms unfolding ticket_inv_def queued_pc_def by auto
qed

lemma ticket_inv_unlock:
  assumes "ticket_inv N s" "tk_pc s t = TkHold"
  shows "ticket_inv N (s\<lparr>tk_l := tk_l s + 1, tk_pc := (tk_pc s)(t := TkIdle), tk_released := tk_released s + 1\<rparr>)"
proof -
  obtain k where k: "tk_released s \<le> k" "k < length (tk_arrived s)" "tk_arrived s ! k = t" "tk_pc s t = queued_pc s k"
    using ticket_owner [OF assms(1)] assms(2) by blast
  with assms have g: "length (tk_granted s) = Suc (tk_released s)" "k = tk_released s"
    by (auto simp: ticket_inv_def queued_pc_def split: if_splits)
  then have q: "drop (tk_released s) (tk_arrived s) = t # drop (Suc (tk_released s)) (tk_arrived s)"
    using k Cons_nth_drop_Suc [of "tk_released s" "tk_arrived s"] by simp
  then have n: "t \<notin> set (drop (Suc (tk_released s)) (tk_arrived s))"
    and d: "distinct (drop (Suc (tk_released s)) (tk_arrived s))"
    using assms(1) by (simp_all add: ticket_inv_def)
  have "tk_arrived s ! j \<noteq> t" if "Suc (tk_released s) \<le> j" "j < length (tk_arrived s)" for j
  proof -
    have "tk_arrived s ! j = drop (Suc (tk_released s)) (tk_arrived s) ! (j - Suc (tk_released s))"
      using that by simp
    with that show ?thesis using n by (metis diff_less_mono length_drop nth_mem)
  qed
  moreover have "u \<in> set (drop (Suc (tk_released s)) (tk_arrived s))"
    if "tk_pc s u = TkHold \<or> (\<exists>ct. tk_pc s u = TkWait ct)" "u \<noteq> t" for u
  proof -
    have "u \<in> set (drop (tk_released s) (tk_arrived s))" using that(1) assms(1) by (auto simp: ticket_inv_def)
    with q that(2) show ?thesis by simp
  qed
  ultimately show ?thesis
    using assms g(1) d unfolding ticket_inv_def queued_pc_def by simp
qed

lemma ticket_step_inv:
  assumes "ticket_step N s s'" "N \<le> 65536" "ticket_inv N s"
  shows "ticket_inv N s'"
  using assms
proof (induction rule: ticket_step.induct)
  case (tk_lock t s)
  then show ?case by (intro ticket_inv_lock)
next
  case (tk_enter s t ct)
  then show ?case by (intro ticket_inv_enter) auto
next
  case (tk_try_load t s)
  then show ?case by (intro ticket_inv_pc) auto
next
  case (tk_try_cas s t a b)
  then have "ticket_inv N (s\<lparr>tk_h := tk_h s + 1, tk_pc := (tk_pc s)(t := TkHold),
      tk_arrived := tk_arrived s @ [t], tk_granted := tk_granted s @ [t]\<rparr>)"
    by (intro ticket_inv_cas) auto
  with tk_try_cas show ?case by (cases s) simp
next
  case (tk_try_fail s t a b)
  then have "t < N" by (metis ticket_inv_def not_le ticket_pc.distinct(3))
  with tk_try_fail show ?case by (intro ticket_inv_pc) auto
next
  case (tk_unlock s t)
  then show ?case by (intro ticket_inv_unlock)
qed

text \<open>The type \<open>nat\<close> of the threads is cut to the \<open>N\<close> the invariant needs; more than 65536 wrap the tickets.\<close>

interpretation ticket: lock_system ticket_init "\<lambda>s s'. ticket_step N s s' \<and> N \<le> 65536"
    "ticket_inv N" "\<lambda>s t. tk_pc s t = TkHold" "\<lambda>_ _. False" for N
proof unfold_locales
  show "ticket_inv N s" if "ticket_init s" for s
    using that by (auto simp: ticket_init_def ticket_inv_def)
  show "ticket_inv N s'" if "ticket_inv N s" "ticket_step N s s' \<and> N \<le> 65536" for s s'
    using that ticket_step_inv by blast
  show "t = u" if "ticket_inv N s" "tk_pc s t = TkHold" "tk_pc s u = TkHold" for s t u
  proof -
    have "\<And>x k. \<lbrakk>tk_pc s x = queued_pc s k; tk_pc s x = TkHold; tk_released s \<le> k\<rbrakk> \<Longrightarrow> k = tk_released s"
      using that(1) by (auto simp: ticket_inv_def queued_pc_def split: if_splits)
    then show ?thesis using ticket_owner [OF that(1)] that(2,3) by metis
  qed
qed auto

lemma ticket_steps:
  "(ticket_step N)\<^sup>*\<^sup>* s s' \<Longrightarrow> N \<le> 65536 \<Longrightarrow> (\<lambda>s s'. ticket_step N s s' \<and> N \<le> 65536)\<^sup>*\<^sup>* s s'"
  by simp

section \<open>Exclusion, order and progress\<close>

text \<open>Property C8: with at most 65536 threads (one ticket each) at most one thread holds
  \<open>ticket_mutex\<close>, the lock is granted in the order in which the tickets were taken, whether by
  \<open>lock\<close> or by \<open>try_lock\<close>, and whenever the lock is free and a thread waits, the thread with the
  oldest ticket finds its number in \<open>l\<close>, so that its next step takes the lock.\<close>

theorem ticket_mutex_fifo:
  assumes "N \<le> 65536" "ticket_init s0" "(ticket_step N)\<^sup>*\<^sup>* s0 s"
  shows "(\<forall>t u. tk_pc s t = TkHold \<longrightarrow> tk_pc s u = TkHold \<longrightarrow> t = u) \<and>
    tk_granted s = take (length (tk_granted s)) (tk_arrived s) \<and>
    ((\<forall>t. tk_pc s t \<noteq> TkHold) \<longrightarrow> length (tk_granted s) < length (tk_arrived s) \<longrightarrow>
       tk_pc s (tk_arrived s ! length (tk_granted s)) = TkWait (tk_l s))"
proof (intro conjI allI impI)
  note r = assms(2) ticket_steps [OF assms(3,1)]
  have i: "ticket_inv N s" using ticket.reach_inv [OF r] .
  show "t = u" if "tk_pc s t = TkHold" "tk_pc s u = TkHold" for t u
    using ticket.exclusion [OF r, of t u] that by blast
  show "tk_granted s = take (length (tk_granted s)) (tk_arrived s)" using i by (simp add: ticket_inv_def)
  assume h: "\<forall>t. tk_pc s t \<noteq> TkHold" and l: "length (tk_granted s) < length (tk_arrived s)"
  have "length (tk_granted s) = tk_released s"
  proof (rule ccontr)
    assume "length (tk_granted s) \<noteq> tk_released s"
    with i l have "tk_pc s (tk_arrived s ! tk_released s) = TkHold"
      by (auto simp: ticket_inv_def queued_pc_def)
    with h show False by blast
  qed
  with i l show "tk_pc s (tk_arrived s ! length (tk_granted s)) = TkWait (tk_l s)"
    by (auto simp: ticket_inv_def queued_pc_def)
qed

lemma ticket_mutex_fifo_witness:
  "\<exists>s :: ticket_state. tk_pc s 0 = TkHold \<and> tk_arrived s = [0, 1] \<and> (\<forall>u. tk_pc s u = TkHold \<longrightarrow> u = 0)"
proof -
  let ?s0 = "\<lparr>tk_h = 0, tk_l = 0, tk_pc = \<lambda>_. TkIdle, tk_arrived = [], tk_granted = [], tk_released = 0\<rparr>"
  let ?s1 = "\<lparr>tk_h = 1, tk_l = 0, tk_pc = (\<lambda>_. TkIdle)(0 := TkWait 0), tk_arrived = [0], tk_granted = [], tk_released = 0\<rparr>"
  let ?s2 = "\<lparr>tk_h = 2, tk_l = 0, tk_pc = (\<lambda>_. TkIdle)(0 := TkWait 0, 1 := TkWait 1), tk_arrived = [0, 1], tk_granted = [], tk_released = 0\<rparr>"
  let ?s3 = "\<lparr>tk_h = 2, tk_l = 0, tk_pc = (\<lambda>_. TkIdle)(0 := TkHold, 1 := TkWait 1), tk_arrived = [0, 1], tk_granted = [0], tk_released = 0\<rparr>"
  have i: "ticket_init ?s0" by (simp add: ticket_init_def)
  have "ticket_step 2 ?s0 ?s1" using ticket_step.tk_lock [of 0 2 ?s0] by simp
  moreover have "ticket_step 2 ?s1 ?s2" using ticket_step.tk_lock [of 1 2 ?s1] by simp
  moreover have "ticket_step 2 ?s2 ?s3"
    using ticket_step.tk_enter [of ?s2 0 0 2] by (simp add: fun_upd_twist)
  ultimately have r: "(ticket_step 2)\<^sup>*\<^sup>* ?s0 ?s3"
    by (intro converse_rtranclp_into_rtranclp [of _ ?s0 ?s1] converse_rtranclp_into_rtranclp [of _ ?s1 ?s2]
      r_into_rtranclp)
  have "(2 :: nat) \<le> 65536" by simp
  from ticket_mutex_fifo [OF this i r, THEN conjunct1] have "\<forall>u. tk_pc ?s3 u = TkHold \<longrightarrow> u = 0"
    by (rule only_one) simp
  then show ?thesis by (intro exI [of _ ?s3] conjI) simp_all
qed

end
