(* ===== verification/Shared_Mutex.thy ===== *)
theory Shared_Mutex
  imports Transition
begin

text \<open>
  \<open>__shared_mutex_impl<D>\<close> of extend_mutex.h, "high read priority": bit 0 of \<open>l\<close> is the writer,
  each reader, waiting or not, adds 2.
\<close>

text \<open>
  A thread that called \<open>lock_shared\<close> while a writer was in is at \<open>ShWait\<close>: already counted in
  \<open>l\<close>, not yet in. \<open>try_lock_shared\<close> that met a writer is at \<open>ShUndo\<close> until its \<open>fetch_sub\<close>.
\<close>

datatype shared_pc = ShIdle | ShWriter | ShReader | ShWait | ShUndo

record 'l shared_state =
  sh_l :: 'l
  sh_pc :: "nat \<Rightarrow> shared_pc"

definition sh_counted :: "shared_pc \<Rightarrow> bool" where
  "sh_counted c \<longleftrightarrow> c = ShReader \<or> c = ShWait \<or> c = ShUndo"

definition shared_init :: "('w::len) word shared_state \<Rightarrow> bool" where
  "shared_init s \<longleftrightarrow> sh_l s = 0 \<and> (\<forall>t. sh_pc s t = ShIdle)"

inductive shared_step :: "nat \<Rightarrow> ('w::len) word shared_state \<Rightarrow> 'w word shared_state \<Rightarrow> bool" for N where
  sh_try_lock: "t < N \<Longrightarrow> sh_pc s t = ShIdle \<Longrightarrow> sh_l s = 0 \<Longrightarrow>
    shared_step N s (s\<lparr>sh_l := 1, sh_pc := (sh_pc s)(t := ShWriter)\<rparr>)"
| sh_try_lock_fail: "t < N \<Longrightarrow> sh_pc s t = ShIdle \<Longrightarrow> shared_step N s s"
| sh_lock_shared: "t < N \<Longrightarrow> sh_pc s t = ShIdle \<Longrightarrow>
    shared_step N s (s\<lparr>sh_l := sh_l s + 2,
      sh_pc := (sh_pc s)(t := if sh_l s AND 1 \<noteq> 0 then ShWait else ShReader)\<rparr>)"
| sh_wait: "t < N \<Longrightarrow> sh_pc s t = ShWait \<Longrightarrow>
    shared_step N s (s\<lparr>sh_pc := (sh_pc s)(t := if sh_l s AND 1 \<noteq> 0 then ShWait else ShReader)\<rparr>)"
| sh_try_lock_shared: "t < N \<Longrightarrow> sh_pc s t = ShIdle \<Longrightarrow>
    shared_step N s (s\<lparr>sh_l := sh_l s + 2,
      sh_pc := (sh_pc s)(t := if sh_l s AND 1 \<noteq> 0 then ShUndo else ShReader)\<rparr>)"
| sh_undo: "t < N \<Longrightarrow> sh_pc s t = ShUndo \<Longrightarrow>
    shared_step N s (s\<lparr>sh_l := sh_l s - 2, sh_pc := (sh_pc s)(t := ShIdle)\<rparr>)"
| sh_unlock: "t < N \<Longrightarrow> sh_pc s t = ShWriter \<Longrightarrow>
    shared_step N s (s\<lparr>sh_l := sh_l s XOR 1, sh_pc := (sh_pc s)(t := ShIdle)\<rparr>)"
| sh_unlock_shared: "t < N \<Longrightarrow> sh_pc s t = ShReader \<Longrightarrow>
    shared_step N s (s\<lparr>sh_l := sh_l s - 2, sh_pc := (sh_pc s)(t := ShIdle)\<rparr>)"

section \<open>The invariant: the word counts the threads\<close>

abbreviation "sh_writers N s \<equiv> threads_in N (\<lambda>c. c = ShWriter) (sh_pc s)"
abbreviation "sh_readers N s \<equiv> threads_in N (\<lambda>c. c = ShReader) (sh_pc s)"
abbreviation "sh_count N s \<equiv> threads_in N sh_counted (sh_pc s)"

definition shared_inv :: "nat \<Rightarrow> ('w::len) word shared_state \<Rightarrow> bool" where
  "shared_inv N s \<longleftrightarrow> unat (sh_l s) = 2 * sh_count N s + sh_writers N s \<and>
     sh_writers N s \<le> 1 \<and> (sh_writers N s = 1 \<longrightarrow> sh_readers N s = 0)"

lemma shared_move:
  assumes "t < N" "sh_pc s t = c"
  shows "threads_in N sh_counted ((sh_pc s)(t := c')) + of_bool (sh_counted c) = sh_count N s + of_bool (sh_counted c')"
    "threads_in N (\<lambda>c. c = ShWriter) ((sh_pc s)(t := c')) + of_bool (c = ShWriter) = sh_writers N s + of_bool (c' = ShWriter)"
    "threads_in N (\<lambda>c. c = ShReader) ((sh_pc s)(t := c')) + of_bool (c = ShReader) = sh_readers N s + of_bool (c' = ShReader)"
  using threads_in_upd [OF assms(1), of sh_counted "sh_pc s" c'] threads_in_upd [OF assms(1), of "\<lambda>c. c = ShWriter" "sh_pc s" c']
    threads_in_upd [OF assms(1), of "\<lambda>c. c = ShReader" "sh_pc s" c'] assms(2)
  by (simp_all only:)

lemma shared_room:
  fixes s :: "('w::len) word shared_state"
  assumes "shared_inv N s" "2 * N + 1 < 2 ^ LENGTH('w)" "t < N" "sh_pc s t = ShIdle"
  shows "unat (sh_l s + 2) = unat (sh_l s) + 2"
proof (rule unat_add_2)
  have "sh_count N s + 1 \<le> N"
    using shared_move(1) [OF assms(3,4), of ShReader] threads_in_le [of N sh_counted "(sh_pc s)(t := ShReader)"]
    by (simp add: sh_counted_def)
  with assms(1,2) show "unat (sh_l s) + 2 < 2 ^ LENGTH('w)" unfolding shared_inv_def by linarith
qed

lemma shared_odd: "shared_inv N s \<Longrightarrow> sh_l s AND 1 \<noteq> 0 \<longleftrightarrow> sh_writers N s = 1"
  by (cases "sh_writers N s") (auto simp: and_1_odd shared_inv_def)

lemma shared_enter:
  fixes s :: "('w::len) word shared_state"
  assumes "shared_inv N s" "2 * N + 1 < 2 ^ LENGTH('w)" "t < N" "sh_pc s t = ShIdle" "c = ShWait \<or> c = ShUndo"
  shows "shared_inv N (s\<lparr>sh_l := sh_l s + 2, sh_pc := (sh_pc s)(t := if sh_l s AND 1 \<noteq> 0 then c else ShReader)\<rparr>)"
  using shared_move [OF assms(3,4), of "if sh_l s AND 1 \<noteq> 0 then c else ShReader"] assms(1,5)
    shared_room [OF assms(1-4)] shared_odd [OF assms(1)]
  by (auto simp: shared_inv_def sh_counted_def split: if_splits)

lemma shared_leave:
  assumes "shared_inv N s" "t < N" "sh_pc s t = c" "c = ShReader \<or> c = ShUndo"
  shows "shared_inv N (s\<lparr>sh_l := sh_l s - 2, sh_pc := (sh_pc s)(t := ShIdle)\<rparr>)"
proof -
  have "0 < sh_count N s" using threads_in_pos [OF assms(2), of sh_counted "sh_pc s"] assms(3,4)
    by (auto simp: sh_counted_def)
  then have "unat (sh_l s - 2) = unat (sh_l s) - 2" using assms(1) by (intro unat_sub_2) (simp add: shared_inv_def)
  then show ?thesis
    using shared_move [OF assms(2,3), of ShIdle] assms(1,4) by (auto simp: shared_inv_def sh_counted_def)
qed

lemma shared_step_inv:
  fixes s :: "('w::len) word shared_state"
  assumes "shared_step N s s'" "2 * N + 1 < 2 ^ LENGTH('w)" "shared_inv N s"
  shows "shared_inv N s'"
  using assms
proof (induction rule: shared_step.induct)
  case (sh_try_lock t s)
  then have "sh_count N s = 0" "sh_writers N s = 0" by (auto simp: shared_inv_def)
  moreover have "sh_readers N s \<le> sh_count N s" by (rule threads_in_mono) (simp add: sh_counted_def)
  ultimately show ?case
    using shared_move [OF sh_try_lock(1,2), of ShWriter] by (auto simp: shared_inv_def sh_counted_def)
next
  case (sh_wait t s)
  then show ?case
    using shared_move [OF sh_wait(1,2), of "if sh_l s AND 1 \<noteq> 0 then ShWait else ShReader"]
      shared_odd [OF sh_wait(4)]
    by (auto simp: shared_inv_def sh_counted_def split: if_splits)
next
  case (sh_unlock t s)
  have "0 < sh_writers N s" using threads_in_pos [OF sh_unlock(1), of "\<lambda>c. c = ShWriter" "sh_pc s"] sh_unlock(2)
    by simp
  with sh_unlock(4) have "sh_writers N s = 1" "odd (unat (sh_l s))" by (auto simp: shared_inv_def)
  with sh_unlock(4) show ?case
    using shared_move [OF sh_unlock(1,2), of ShIdle] unat_xor_1 [of "sh_l s"]
    by (auto simp: shared_inv_def sh_counted_def)
next
  case (sh_lock_shared t s)
  then show ?case by (intro shared_enter) auto
next
  case (sh_try_lock_shared t s)
  then show ?case by (intro shared_enter) auto
next
  case (sh_undo t s)
  then show ?case by (intro shared_leave) auto
next
  case (sh_unlock_shared t s)
  then show ?case by (intro shared_leave) auto
qed simp

interpretation shared: lock_system shared_init
    "\<lambda>s s' :: ('w::len) word shared_state. shared_step N s s' \<and> 2 * N + 1 < 2 ^ LENGTH('w)"
    "shared_inv N" "\<lambda>s t. t < N \<and> sh_pc s t = ShWriter" "\<lambda>s t. t < N \<and> sh_pc s t = ShReader" for N
proof unfold_locales
  show "shared_inv N s" if "shared_init s" for s :: "'w word shared_state"
  proof -
    have "sh_count N s = 0" "sh_writers N s = 0"
      using that threads_in_0 [of N sh_counted "sh_pc s"] threads_in_0 [of N "\<lambda>c. c = ShWriter" "sh_pc s"]
      by (simp_all add: shared_init_def sh_counted_def)
    with that show ?thesis by (simp add: shared_init_def shared_inv_def)
  qed
  show "shared_inv N s'" if "shared_inv N s" "shared_step N s s' \<and> 2 * N + 1 < 2 ^ LENGTH('w)"
    for s s' :: "'w word shared_state"
    using that shared_step_inv by blast
  show "t = u" if "shared_inv N s" "t < N \<and> sh_pc s t = ShWriter" "u < N \<and> sh_pc s u = ShWriter"
    for s :: "'w word shared_state" and t u
    using that threads_in_1 [of N "\<lambda>c. c = ShWriter" "sh_pc s" t u] by (auto simp: shared_inv_def)
  show "\<not> (u < N \<and> sh_pc s u = ShReader)" if "shared_inv N s" "t < N \<and> sh_pc s t = ShWriter"
    for s :: "'w word shared_state" and t u
    using that threads_in_pos [of t N "\<lambda>c. c = ShWriter" "sh_pc s"]
      threads_in_pos [of u N "\<lambda>c. c = ShReader" "sh_pc s"] by (auto simp: shared_inv_def le_Suc_eq)
qed

section \<open>Exclusion within the counter's range, and beyond it\<close>

lemma shared_free: "shared_inv N s \<Longrightarrow> sh_l s = 0 \<longleftrightarrow> (\<forall>t<N. sh_pc s t = ShIdle)"
proof -
  assume i: "shared_inv N s"
  have idle: "\<not> sh_counted c \<and> c \<noteq> ShWriter \<longleftrightarrow> c = ShIdle" for c by (cases c) (auto simp: sh_counted_def)
  from i have "sh_l s = 0 \<longleftrightarrow> sh_count N s = 0 \<and> sh_writers N s = 0"
    by (auto simp: shared_inv_def simp flip: unat_eq_0)
  also have "\<dots> \<longleftrightarrow> (\<forall>t<N. \<not> sh_counted (sh_pc s t)) \<and> (\<forall>t<N. sh_pc s t \<noteq> ShWriter)"
    using threads_in_0 [of N sh_counted "sh_pc s"] threads_in_0 [of N "\<lambda>c. c = ShWriter" "sh_pc s"] by simp
  also have "\<dots> \<longleftrightarrow> (\<forall>t<N. sh_pc s t = ShIdle)"
    unfolding idle [symmetric] by blast
  finally show ?thesis .
qed

text \<open>Property C11: with \<open>N\<close> threads, \<open>2 N + 1 < 2 ^ w\<close> for a \<open>w\<close>-bit word (127 threads for
  \<open>shared_mutex_b8\<close>), a writer is alone: no second writer, no reader. The compare-exchange of a
  writer finds its 0 exactly when no thread is in, waiting or backing out: readers that wait go
  before any writer.\<close>

theorem shared_mutex_exclusion:
  fixes s0 s :: "('w::len) word shared_state"
  assumes "2 * N + 1 < 2 ^ LENGTH('w)" "shared_init s0" "(shared_step N)\<^sup>*\<^sup>* s0 s" "t < N" "u < N"
  shows "(sh_pc s t = ShWriter \<longrightarrow> sh_pc s u = ShWriter \<longrightarrow> t = u) \<and>
    (sh_pc s t = ShWriter \<longrightarrow> sh_pc s u \<noteq> ShReader) \<and>
    (sh_l s = 0 \<longleftrightarrow> (\<forall>v<N. sh_pc s v = ShIdle))"
proof -
  have r: "(\<lambda>s s'. shared_step N s s' \<and> 2 * N + 1 < 2 ^ LENGTH('w))\<^sup>*\<^sup>* s0 s" using assms(1,3) by simp
  show ?thesis
    using shared.exclusion [OF assms(2) r, of t u] shared_free [OF shared.reach_inv [OF assms(2) r]] assms(4,5)
    by blast
qed

lemma shared_readers_enter:
  fixes s0 :: "('w::len) word shared_state"
  assumes "shared_init s0" "n \<le> N"
  shows "\<exists>s. (shared_step N)\<^sup>*\<^sup>* s0 s \<and> sh_l s = of_nat (2 * n) \<and> (\<forall>t<n. sh_pc s t = ShReader) \<and>
    (\<forall>t\<ge>n. sh_pc s t = ShIdle)"
  using assms(2)
proof (induction n)
  case 0
  with assms(1) show ?case by (intro exI [of _ s0]) (simp add: shared_init_def)
next
  case (Suc n)
  then obtain s where s: "(shared_step N)\<^sup>*\<^sup>* s0 s" "sh_l s = of_nat (2 * n)" "\<forall>t<n. sh_pc s t = ShReader"
      "\<forall>t\<ge>n. sh_pc s t = ShIdle" by auto
  have "even (sh_l s)" using s(2) by simp
  then have e: "sh_l s AND 1 = 0" by (simp only: and_one_eq even_iff_mod_2_eq_zero)
  let ?s = "s\<lparr>sh_l := sh_l s + 2, sh_pc := (sh_pc s)(n := ShReader)\<rparr>"
  have "shared_step N s ?s" using shared_step.sh_lock_shared [of n N s] s(4) Suc.prems e by simp
  with s show ?case
    by (intro exI [of _ ?s]) (auto simp: less_Suc_eq intro: rtranclp.rtrancl_into_rtrancl)
qed

text \<open>One thread more breaks the lock: with \<open>2 ^ (w - 1)\<close> readers inside the counter is back
  at 0, and a writer gets in beside them.\<close>

theorem shared_mutex_reader_overflow:
  fixes s0 :: "('w::len) word shared_state"
  assumes "shared_init s0" "2 ^ (LENGTH('w) - 1) < N"
  shows "\<exists>s. (shared_step N)\<^sup>*\<^sup>* s0 s \<and> sh_pc s (2 ^ (LENGTH('w) - 1)) = ShWriter \<and>
    (\<forall>t<2 ^ (LENGTH('w) - 1). sh_pc s t = ShReader)"
proof -
  let ?n = "2 ^ (LENGTH('w) - 1) :: nat"
  obtain s :: "'w word shared_state" where s: "(shared_step N)\<^sup>*\<^sup>* s0 s" "sh_l s = of_nat (2 * ?n)"
      "\<forall>t<?n. sh_pc s t = ShReader" "\<forall>t\<ge>?n. sh_pc s t = ShIdle"
    using shared_readers_enter [OF assms(1), of ?n N] assms(2) by auto
  have "2 * ?n = 2 ^ LENGTH('w)" by (metis len_gt_0 power_eq_if not_less_zero)
  then have "sh_l s = 0" using s(2) by (simp add: word_unat_eq_iff unat_of_nat)
  let ?s = "s\<lparr>sh_l := 1, sh_pc := (sh_pc s)(?n := ShWriter)\<rparr>"
  have "shared_step N s ?s" using shared_step.sh_try_lock [of ?n N s] assms(2) s(4) \<open>sh_l s = 0\<close> by simp
  with s show ?thesis by (intro exI [of _ ?s]) (auto intro: rtranclp.rtrancl_into_rtrancl)
qed

lemma shared_mutex_exclusion_witness:
  "\<exists>s :: 8 word shared_state. sh_pc s 0 = ShReader \<and> sh_pc s 1 \<noteq> ShWriter \<and> sh_l s \<noteq> 0"
proof -
  have i: "shared_init (\<lparr>sh_l = 0, sh_pc = \<lambda>_. ShIdle\<rparr> :: 8 word shared_state)" by (simp add: shared_init_def)
  obtain s where s: "(shared_step 2)\<^sup>*\<^sup>* (\<lparr>sh_l = 0, sh_pc = \<lambda>_. ShIdle\<rparr> :: 8 word shared_state) s" "sh_pc s 0 = ShReader"
    using shared_readers_enter [OF i, of 1 2] by auto
  have "2 * 2 + 1 < (2 :: nat) ^ LENGTH(8)" "(1 :: nat) < 2" "(0 :: nat) < 2" by simp_all
  from shared_mutex_exclusion [OF this(1) i s(1) this(2,3)] s(2) \<open>0 < (2 :: nat)\<close> show ?thesis
    by (metis shared_pc.distinct(3))
qed

lemma shared_mutex_reader_overflow_witness:
  "\<exists>s :: 8 word shared_state. sh_pc s 128 = ShWriter \<and> sh_pc s 5 = ShReader"
proof -
  have i: "shared_init (\<lparr>sh_l = 0, sh_pc = \<lambda>_. ShIdle\<rparr> :: 8 word shared_state)" by (simp add: shared_init_def)
  have "(2 :: nat) ^ (LENGTH(8) - 1) < 200" by simp
  from shared_mutex_reader_overflow [OF i this] show ?thesis by force
qed

end
