(* ===== verification/Dlog.thy ===== *)
theory Dlog
  imports Prelude
begin

text \<open>
  The logging macros of dlog.h. \<open>printf\<close> is modelled for the conversions the header uses, length modifiers included: a format
  string and a list of arguments, each with its C type and its value. Integers are printed digit by digit; the text of a
  floating-point number or a pointer is the C library's and comes with the argument. Types are those of a 64-bit Linux.
\<close>

section \<open>Integer types and texts\<close>

datatype c_type = CChar | CShort | CInt | CLong | CLongLong | CUChar | CUShort | CUInt | CULong | CULongLong
  | CFloat | CDouble | CLongDouble | CPointer

text \<open>Width, and whether it is signed; None: no integer type.\<close>

fun c_width :: "c_type \<Rightarrow> (nat \<times> bool) option" where
  "c_width CChar = Some (8, True)"
| "c_width CShort = Some (16, True)"
| "c_width CInt = Some (32, True)"
| "c_width CLong = Some (64, True)"
| "c_width CLongLong = Some (64, True)"
| "c_width CUChar = Some (8, False)"
| "c_width CUShort = Some (16, False)"
| "c_width CUInt = Some (32, False)"
| "c_width CULong = Some (64, False)"
| "c_width CULongLong = Some (64, False)"
| "c_width _ = None"

text \<open>Conversion to an integer type.\<close>

definition to_type :: "c_type \<Rightarrow> int \<Rightarrow> int" where
  "to_type t v = (case c_width t of None \<Rightarrow> v | Some (n, signd) \<Rightarrow> if signd then signed_take_bit (n - 1) v else take_bit n v)"

text \<open>The default argument promotions.\<close>

fun promote :: "c_type \<Rightarrow> c_type" where
  "promote CChar = CInt"
| "promote CShort = CInt"
| "promote CUChar = CInt"
| "promote CUShort = CInt"
| "promote CFloat = CDouble"
| "promote t = t"

definition digit :: "nat \<Rightarrow> char" where
  "digit d = char_of (if d < 10 then 48 + d else 87 + d)"

fun digits :: "nat \<Rightarrow> nat \<Rightarrow> string" where
  "digits b n = (if n < b \<or> b \<le> 1 then [digit n] else digits b (n div b) @ [digit (n mod b)])"

declare digits.simps [simp del]

definition dec_text :: "int \<Rightarrow> string" where
  "dec_text v = (if v < 0 then ''-'' else '''') @ digits 10 (nat \<bar>v\<bar>)"

text \<open>Zeros in front, up to a width of \<open>n\<close>, after the sign.\<close>

definition pad_text :: "nat \<Rightarrow> int \<Rightarrow> string" where
  "pad_text n v = (let ds = digits 10 (nat \<bar>v\<bar>); sg = (if v < 0 then ''-'' else '''')
     in sg @ replicate (n - length sg - length ds) (CHR ''0'') @ ds)"

definition hex_text :: "int \<Rightarrow> string" where
  "hex_text v = (if v = 0 then '''' else ''0x'') @ digits 16 (nat v)"

text \<open>A C string ends at its first null character.\<close>

definition c_str :: "string \<Rightarrow> string" where
  "c_str = takeWhile (\<lambda>ch. ch \<noteq> CHR 0x00)"

section \<open>printf\<close>

text \<open>An integer with its type before promotion; a floating-point number or pointer with its type and text; a string.\<close>

datatype c_arg = AInt c_type int | AText c_type string | AStr string

datatype conversion = Dec c_type | DecPad nat | Hex c_type | Chr | Txt c_type | Str

text \<open>The conversions, without \<open>%\<close>.\<close>

definition conversions :: "(string \<times> conversion) list" where
  "conversions = [(''lld'', Dec CLongLong), (''llu'', Dec CULongLong), (''hhd'', Dec CChar), (''hhu'', Dec CUChar), (''06d'', DecPad 6),
     (''#lx'', Hex CULong), (''hd'', Dec CShort), (''hu'', Dec CUShort), (''ld'', Dec CLong), (''lu'', Dec CULong),
     (''lf'', Txt CDouble), (''Lf'', Txt CLongDouble), (''c'', Chr), (''d'', Dec CInt), (''u'', Dec CUInt),
     (''f'', Txt CDouble), (''p'', Txt CPointer), (''s'', Str)]"

text \<open>What a conversion prints for an argument, None if the promoted type is not the one it takes. A length modifier converts the
  promoted value to its type, and \<open>%c\<close> to \<open>unsigned char\<close>.\<close>

fun takes_arg :: "conversion \<Rightarrow> c_arg \<Rightarrow> string option" where
  "takes_arg (Dec t) (AInt ty v) = (if promote ty = promote t then Some (dec_text (to_type t v)) else None)"
| "takes_arg (DecPad n) (AInt ty v) = (if promote ty = CInt then Some (pad_text n v) else None)"
| "takes_arg (Hex t) (AInt ty v) = (if promote ty = promote t then Some (hex_text (to_type t v)) else None)"
| "takes_arg Chr (AInt ty v) = (if promote ty = CInt then Some [char_of (to_type CUChar v)] else None)"
| "takes_arg (Txt t) (AText ty txt) = (if promote ty = t then Some txt else None)"
| "takes_arg Str (AStr txt) = Some (c_str txt)"
| "takes_arg _ _ = None"

text \<open>The conversion that starts the string after a \<open>%\<close>.\<close>

definition next_conv :: "string \<Rightarrow> (string \<times> conversion) option" where
  "next_conv cs = find (\<lambda>(spec, t). take (length spec) cs = spec) conversions"

lemma next_conv_length: "next_conv cs = Some (spec, t) \<Longrightarrow> 0 < length spec \<and> length spec \<le> length cs"
proof -
  assume a: "next_conv cs = Some (spec, t)"
  then have "(spec, t) \<in> set conversions" "take (length spec) cs = spec"
    unfolding next_conv_def find_Some_iff by (auto simp: in_set_conv_nth)
  moreover from this(1) have "spec \<noteq> []" by (auto simp: conversions_def)
  ultimately show ?thesis by (metis length_greater_0_conv length_take min.cobounded1)
qed

text \<open>\<open>UB\<close>: a conversion outside the list, a missing argument or one of the wrong type.\<close>

function c_format :: "string \<Rightarrow> c_arg list \<Rightarrow> string run" where
  "c_format [] args = Ret []"
| "c_format (ch # cs) args =
     (if ch \<noteq> CHR ''%'' then run_bind (c_format cs args) (\<lambda>r. Ret (ch # r))
      else if take 1 cs = ''%'' then run_bind (c_format (drop 1 cs) args) (\<lambda>r. Ret (CHR ''%'' # r))
      else case next_conv cs of
          None \<Rightarrow> UB
        | Some (spec, t) \<Rightarrow>
            (case args of
               [] \<Rightarrow> UB
             | arg # rest \<Rightarrow>
                 (case takes_arg t arg of
                    None \<Rightarrow> UB
                  | Some txt \<Rightarrow> run_bind (c_format (drop (length spec) cs) rest) (\<lambda>r. Ret (txt @ r)))))"
  by pat_completeness auto
termination
  by (relation "measure (\<lambda>(cs, args). length cs)") (auto dest: next_conv_length)

text \<open>\<open>snprintf\<close> into a buffer of \<open>n\<close> bytes: all but the last \<open>n - 1\<close> characters are dropped.\<close>

definition c_snprintf :: "nat \<Rightarrow> string \<Rightarrow> c_arg list \<Rightarrow> string run" where
  "c_snprintf n fmt args = run_bind (c_format fmt args) (\<lambda>r. Ret (take (n - 1) r))"

section \<open>DLOG_STREAM and the levels\<close>

text \<open>What \<open>gettimeofday\<close>, \<open>strftime\<close>, \<open>pthread_self\<close>, \<open>__FILE__\<close> and \<open>__LINE__\<close> give, and the text of \<open>errno\<close>;
  \<open>lc_time\<close> is the result of \<open>strftime\<close> with its trailing dot.\<close>

record log_context =
  lc_time :: string
  lc_usec :: int
  lc_thread :: int
  lc_file :: string
  lc_line :: int
  lc_errno :: string

datatype log_stream = Stdout | Stderr

definition log_prefix :: string where
  "log_prefix = ''[%s.%06d] [%#lx] %s:%d: ''"

definition context_args :: "log_context \<Rightarrow> c_arg list" where
  "context_args lc = [AStr (lc_time lc), AInt CInt (lc_usec lc), AInt CULong (lc_thread lc), AStr (lc_file lc), AInt CInt (lc_line lc)]"

definition dlog_stream :: "log_context \<Rightarrow> string \<Rightarrow> c_arg list \<Rightarrow> string run" where
  "dlog_stream lc fmt args = c_format (log_prefix @ fmt @ [CHR 0x0A]) (context_args lc @ args)"

definition dlog_info :: "log_context \<Rightarrow> string \<Rightarrow> c_arg list \<Rightarrow> (log_stream \<times> string) run" where
  "dlog_info lc fmt args = run_bind (dlog_stream lc (''[INFO] '' @ fmt) args) (\<lambda>l. Ret (Stdout, l))"

definition dlog_error :: "log_context \<Rightarrow> string \<Rightarrow> c_arg list \<Rightarrow> (log_stream \<times> string) run" where
  "dlog_error lc fmt args =
     run_bind (dlog_stream lc (''[ERROR] '' @ fmt @ '': %s'') (args @ [AStr (lc_errno lc)])) (\<lambda>l. Ret (Stderr, l))"

definition dlog_warning :: "log_context \<Rightarrow> string \<Rightarrow> c_arg list \<Rightarrow> (log_stream \<times> string) run" where
  "dlog_warning lc fmt args = run_bind (dlog_stream lc (''[WARNING] '' @ fmt) args) (\<lambda>l. Ret (Stderr, l))"

text \<open>\<open>DLOG_FATAL\<close>: the line on \<open>stderr\<close> before the process aborts.\<close>

definition dlog_fatal :: "log_context \<Rightarrow> string \<Rightarrow> c_arg list \<Rightarrow> (log_stream \<times> string) run" where
  "dlog_fatal lc fmt args =
     run_bind (dlog_stream lc (''[FATAL] '' @ fmt @ '': %s'') (args @ [AStr (lc_errno lc)])) (\<lambda>l. Ret (Stderr, l))"

text \<open>\<open>DLOG_FILE\<close>: mode \<open>w+\<close> truncates the file; the new contents.\<close>

definition dlog_file :: "log_context \<Rightarrow> string \<Rightarrow> c_arg list \<Rightarrow> string \<Rightarrow> string run" where
  "dlog_file lc fmt args old = dlog_stream lc fmt args"

definition dlog_if :: "bool \<Rightarrow> log_context \<Rightarrow> string \<Rightarrow> c_arg list \<Rightarrow> (log_stream \<times> string) option run" where
  "dlog_if expr lc fmt args =
     (if expr then run_bind (dlog_info lc fmt args) (\<lambda>l. Ret (Some l)) else Ret None)"

section \<open>DLOG_EXPR and DLOG_ASSERT\<close>

fun dlog_type_fmt :: "c_type \<Rightarrow> string" where
  "dlog_type_fmt CChar = ''%c''"
| "dlog_type_fmt CShort = ''%hd''"
| "dlog_type_fmt CInt = ''%d''"
| "dlog_type_fmt CLong = ''%ld''"
| "dlog_type_fmt CLongLong = ''%lld''"
| "dlog_type_fmt CUChar = ''%hhu''"
| "dlog_type_fmt CUShort = ''%hu''"
| "dlog_type_fmt CUInt = ''%u''"
| "dlog_type_fmt CULong = ''%lu''"
| "dlog_type_fmt CULongLong = ''%llu''"
| "dlog_type_fmt CFloat = ''%f''"
| "dlog_type_fmt CDouble = ''%lf''"
| "dlog_type_fmt CLongDouble = ''%llf''"
| "dlog_type_fmt CPointer = ''%p''"

text \<open>The type by which the overload is chosen (all other pointers convert to \<open>const void *\<close>).\<close>

fun arg_type :: "c_arg \<Rightarrow> c_type" where
  "arg_type (AInt t v) = t"
| "arg_type (AText t txt) = t"
| "arg_type (AStr txt) = CPointer"

text \<open>
  \<open>val_a\<close>, \<open>op\<close> and \<open>val_b\<close> are the texts of the macro's arguments, \<open>holds\<close> the value of the
  comparison, \<open>a\<close> and \<open>b\<close> the values. The result is the line of the failed assertion, or \<open>None\<close>.
\<close>

definition dlog_expr_buffer :: "string \<Rightarrow> string \<Rightarrow> nat" where
  "dlog_expr_buffer val_a val_b = length (''Because '' @ val_a @ '' = %???, '' @ val_b @ '' = %???'') + 1"

definition dlog_expr :: "log_context \<Rightarrow> string \<Rightarrow> string \<Rightarrow> string \<Rightarrow> bool \<Rightarrow> c_arg \<Rightarrow> c_arg \<Rightarrow> (log_stream \<times> string) option run" where
  "dlog_expr lc val_a opt val_b holds a b =
     (if \<not> holds then
        run_bind (c_snprintf (dlog_expr_buffer val_a val_b) (''Because '' @ val_a @ '' = %s, '' @ val_b @ '' = %s'')
          [AStr (dlog_type_fmt (arg_type a)), AStr (dlog_type_fmt (arg_type b))]) (\<lambda>fmt.
        run_bind (c_snprintf (dlog_expr_buffer val_a val_b + 42) fmt [a, b]) (\<lambda>tmp.
        run_bind (dlog_fatal lc (''Assertion `'' @ val_a @ '' '' @ opt @ '' '' @ val_b @ ''` failed. %s'') [AStr tmp])
          (\<lambda>l. Ret (Some l))))
      else Ret None)"

definition dlog_assert :: "log_context \<Rightarrow> string \<Rightarrow> bool \<Rightarrow> string \<Rightarrow> c_arg list \<Rightarrow> (log_stream \<times> string) option run" where
  "dlog_assert lc expr holds fmt args =
     (if \<not> holds then
        run_bind (dlog_fatal lc (''Assertion `'' @ expr @ ''` failed. '' @ fmt) args) (\<lambda>l. Ret (Some l))
      else Ret None)"

end
