(* ===== verification/Dlog_Properties.thy ===== *)
theory Dlog_Properties
  imports Dlog
begin

text \<open>The properties of dlog.h: types of conversions, buffers, and what a percent sign does.\<close>

section \<open>Texts of numbers\<close>

text \<open>How a value is printed: a \<open>char\<close> as a character, the other integers as numbers.\<close>

fun value_text :: "c_arg \<Rightarrow> string" where
  "value_text (AInt t v) = (if t = CChar then [char_of (to_type CUChar v)] else dec_text v)"
| "value_text (AText t txt) = txt"
| "value_text (AStr txt) = c_str txt"

text \<open>A value of an integer type in its range, or a floating-point number or pointer.\<close>

fun well_typed :: "c_arg \<Rightarrow> bool" where
  "well_typed (AInt t v) \<longleftrightarrow> c_width t \<noteq> None \<and> to_type t v = v"
| "well_typed (AText t txt) \<longleftrightarrow> c_width t = None"
| "well_typed (AStr txt) \<longleftrightarrow> False"

lemma length_digits: "n < b ^ k \<Longrightarrow> 2 \<le> b \<Longrightarrow> 0 < k \<Longrightarrow> length (digits b n) \<le> k"
proof (induction b n arbitrary: k rule: digits.induct)
  case (1 b n)
  show ?case
  proof (cases "n < b")
    case True
    then show ?thesis using 1 by (simp add: digits.simps)
  next
    case False
    then obtain j where j: "k = Suc j" "0 < j" using 1(2,4) by (cases k; cases "k = 1") auto
    have "n div b < b ^ j" using 1(2,3) j(1) by (simp add: less_mult_imp_div_less mult.commute)
    then have "length (digits b (n div b)) \<le> j" using 1(1) [of j] 1(3) False j(2) by simp
    then show ?thesis using False 1(3) j(1) by (subst digits.simps) simp
  qed
qed

lemma digit_code: "d < 10 \<Longrightarrow> of_char (digit d) = 48 + d"
  by (simp add: digit_def of_char_of)

lemma digit_chars: "digit 0 = CHR ''0''" "digit (Suc 0) = CHR ''1''" "digit 1 = CHR ''1''" "digit 2 = CHR ''2''" "digit 3 = CHR ''3''" "digit 4 = CHR ''4''"
  "digit 5 = CHR ''5''" "digit 6 = CHR ''6''" "digit 7 = CHR ''7''" "digit 8 = CHR ''8''" "digit 9 = CHR ''9''" "digit 15 = CHR ''f''"
  by (simp_all add: digit_def char_of_def bit_Suc_0_iff)

text \<open>The digits are those of the number.\<close>

lemma foldl_digits: "foldl (\<lambda>n ch. 10 * n + (of_char ch - 48)) 0 (digits 10 n) = n"
proof (induction "10 :: nat" n rule: digits.induct)
  case (1 n)
  then show ?case by (subst digits.simps) (auto simp: digit_code)
qed

lemma length_dec_text: "\<bar>v\<bar> < 10 ^ k \<Longrightarrow> 0 < k \<Longrightarrow> length (dec_text v) \<le> k + of_bool (v < 0)"
proof -
  assume a: "\<bar>v\<bar> < 10 ^ k" "0 < k"
  have "int (nat \<bar>v\<bar>) < int (10 ^ k)" using a(1) by simp
  then have "nat \<bar>v\<bar> < 10 ^ k" by (simp only: of_nat_less_iff)
  then show ?thesis using length_digits [of _ 10 k] a(2) by (simp add: dec_text_def)
qed

lemma int_text_short:
  assumes "well_typed (AInt t v)"
  shows "length (value_text (AInt t v)) \<le> 20"
proof -
  have r: "- (2 ^ 63) \<le> v \<and> v < 2 ^ 64"
    using assms by (cases t) (simp_all add: to_type_def signed_take_bit_int_eq_self_iff take_bit_int_eq_self_iff)
  show ?thesis
  proof (cases "v < 0")
    case True
    with r have "\<bar>v\<bar> < 10 ^ 19" by simp
    from length_dec_text [OF this] True show ?thesis by simp
  next
    case False
    with r have "\<bar>v\<bar> < 10 ^ 20" by simp
    from length_dec_text [OF this] False show ?thesis by simp
  qed
qed

section \<open>Formats piece by piece\<close>

lemma c_format_plain:
  "CHR ''%'' \<notin> set xs \<Longrightarrow> c_format (xs @ ys) args = run_bind (c_format ys args) (\<lambda>r. Ret (xs @ r))"
proof (induction xs)
  case Nil
  then show ?case by (cases "c_format ys args") simp_all
next
  case (Cons x xs)
  then have "x \<noteq> CHR ''%''" by auto
  with Cons show ?case by (cases "c_format ys args") simp_all
qed

lemma c_format_plain_end: "CHR ''%'' \<notin> set xs \<Longrightarrow> c_format xs args = Ret xs"
  using c_format_plain [of xs "[]" args] by simp

lemma c_format_conv:
  assumes "next_conv (spec @ ys) = Some (spec, t)" "take 1 spec \<noteq> ''%''" "spec \<noteq> []" "takes_arg t a = Some txt"
  shows "c_format (CHR ''%'' # spec @ ys) (a # args) = run_bind (c_format ys args) (\<lambda>r. Ret (txt @ r))"
  using assms by (cases spec) simp_all

lemma next_conv_s: "next_conv (''s'' @ ys) = Some (''s'', Str)"
  by (simp add: next_conv_def conversions_def)

lemma c_format_s: "c_format (CHR ''%'' # CHR ''s'' # ys) (AStr txt # args) = run_bind (c_format ys args) (\<lambda>r. Ret (c_str txt @ r))"
  using c_format_conv [OF next_conv_s, of "AStr txt" "c_str txt" ys args] by simp

text \<open>The formats of the overloads of \<open>dlog_type_fmt\<close>, and the conversions they are.\<close>

definition fmt_spec :: "c_type \<Rightarrow> string" where
  "fmt_spec t = drop 1 (dlog_type_fmt t)"

definition fmt_conv :: "c_type \<Rightarrow> conversion" where
  "fmt_conv t = (if c_width t = None then Txt (promote t) else if t = CChar then Chr else Dec t)"

lemma fmt_spec: "dlog_type_fmt t = CHR ''%'' # fmt_spec t" "length (dlog_type_fmt t) \<le> 4" "fmt_spec t \<noteq> []" "take 1 (fmt_spec t) \<noteq> ''%''"
  by (cases t; simp add: fmt_spec_def)+

lemma c_str_fmt: "c_str (dlog_type_fmt t) = dlog_type_fmt t"
  by (cases t) (simp_all add: c_str_def)

lemma next_conv_fmt: "t \<noteq> CLongDouble \<Longrightarrow> next_conv (fmt_spec t @ ys) = Some (fmt_spec t, fmt_conv t)"
  by (cases t) (simp_all add: fmt_spec_def fmt_conv_def next_conv_def conversions_def)

lemma fmt_conv_takes: "well_typed a \<Longrightarrow> takes_arg (fmt_conv (arg_type a)) a = Some (value_text a)"
proof (cases a)
  case (AInt t v)
  assume "well_typed a"
  then show ?thesis using AInt by (auto simp: fmt_conv_def)
qed (auto simp: fmt_conv_def)

lemma c_format_fmt: "well_typed a \<Longrightarrow> arg_type a \<noteq> CLongDouble \<Longrightarrow>
    c_format (dlog_type_fmt (arg_type a) @ ys) (a # args) = run_bind (c_format ys args) (\<lambda>r. Ret (value_text a @ r))"
  using c_format_conv [of "fmt_spec (arg_type a)" ys "fmt_conv (arg_type a)" a "value_text a" args] next_conv_fmt [of "arg_type a" ys]
    fmt_conv_takes [of a] fmt_spec [of "arg_type a"] by simp

section \<open>Properties\<close>

text \<open>Property C30: each overload of \<open>dlog_type_fmt\<close> returns a conversion with which \<open>printf\<close> prints every value of its type exactly: a
  \<open>char\<close> as the character, any other integer type in decimal over its whole range (the length modifier does not cut the
  promoted argument off), floating-point numbers and pointers as the C library prints them. The overload for
  \<open>long double\<close> returns \<open>%llf\<close>, which is not a conversion.\<close>

theorem dlog_type_fmt_typed:
  assumes "well_typed a"
  shows "c_format (dlog_type_fmt (arg_type a)) [a] = (if arg_type a = CLongDouble then UB else Ret (value_text a))"
proof (cases "arg_type a = CLongDouble")
  case True
  then show ?thesis by (simp add: next_conv_def conversions_def)
next
  case False
  then show ?thesis using c_format_fmt [OF assms False, of "[]" "[]"] by simp
qed

lemma dlog_type_fmt_typed_witness:
  "c_format ''%hd'' [AInt CShort (- 32768)] = Ret ''-32768'' \<and> c_format ''%llu'' [AInt CULongLong 18446744073709551615] = Ret ''18446744073709551615'' \<and>
   c_format ''%c'' [AInt CChar (- 1)] = Ret [CHR 0xFF] \<and> c_format ''%llf'' [AText CLongDouble ''0.5''] = UB"
proof -
  have w: "well_typed (AInt CShort (- 32768))" "well_typed (AInt CULongLong 18446744073709551615)" "well_typed (AInt CChar (- 1))"
    "well_typed (AText CLongDouble ''0.5'')"
    by (simp_all add: to_type_def signed_take_bit_int_eq_self_iff take_bit_int_eq_self_iff)
  have t: "dec_text (- 32768) = ''-32768''" "dec_text 18446744073709551615 = ''18446744073709551615''" "to_type CUChar (- 1) = 255"
    "char_of (255 :: int) = CHR 0xFF"
    by (simp_all add: dec_text_def digits.simps digit_chars to_type_def char_of_def mask_eq_exp_minus_1)
  show ?thesis
    using dlog_type_fmt_typed [OF w(1)] dlog_type_fmt_typed [OF w(2)] dlog_type_fmt_typed [OF w(3)] dlog_type_fmt_typed [OF w(4)] t by simp
qed

text \<open>The text of a failed comparison.\<close>

definition because :: "string \<Rightarrow> string \<Rightarrow> string \<Rightarrow> string \<Rightarrow> string" where
  "because val_a ta val_b tb = ''Because '' @ val_a @ '' = '' @ ta @ '', '' @ val_b @ '' = '' @ tb"

definition printed_prefix :: "log_context \<Rightarrow> string" where
  "printed_prefix lc = ''['' @ c_str (lc_time lc) @ ''.'' @ pad_text 6 (lc_usec lc) @ ''] ['' @ hex_text (to_type CULong (lc_thread lc)) @ ''] '' @
     c_str (lc_file lc) @ '':'' @ dec_text (to_type CInt (lc_line lc)) @ '': ''"

lemma dlog_stream_text:
  "dlog_stream lc fmt args = run_bind (c_format (fmt @ [CHR 0x0A]) args) (\<lambda>r. Ret (printed_prefix lc @ r))"
  by (cases "c_format (fmt @ [CHR 0x0A]) args")
    (simp_all add: dlog_stream_def log_prefix_def context_args_def printed_prefix_def next_conv_def conversions_def)

lemma expr_format:
  assumes "CHR ''%'' \<notin> set val_a" "CHR ''%'' \<notin> set val_b" "c_str fa = fa" "c_str fb = fb"
  shows "c_format (''Because '' @ val_a @ '' = %s, '' @ val_b @ '' = %s'') [AStr fa, AStr fb] = Ret (because val_a fa val_b fb)"
proof -
  have 1: "c_format ('' = %s'') [AStr fb] = Ret ('' = '' @ fb)"
    using assms(4) by (simp add: next_conv_def conversions_def)
  have 2: "c_format ('', '' @ val_b @ '' = %s'') [AStr fb] = Ret ('', '' @ val_b @ '' = '' @ fb)"
    using c_format_plain [of "'', '' @ val_b" "'' = %s'' " "[AStr fb]"] assms(2) 1 by simp
  have 3: "c_format (CHR ''%'' # CHR ''s'' # '', '' @ val_b @ '' = %s'') [AStr fa, AStr fb] = Ret (fa @ '', '' @ val_b @ '' = '' @ fb)"
    unfolding c_format_s 2 assms(3) by simp
  have e: "''Because '' @ val_a @ '' = %s, '' @ val_b @ '' = %s'' =
      (''Because '' @ val_a @ '' = '') @ CHR ''%'' # CHR ''s'' # '', '' @ val_b @ '' = %s''" by simp
  show ?thesis
    unfolding e using c_format_plain [of "''Because '' @ val_a @ '' = ''" _ "[AStr fa, AStr fb]"] assms(1) 3 by (simp add: because_def)
qed

lemma because_format:
  assumes "CHR ''%'' \<notin> set val_a" "CHR ''%'' \<notin> set val_b" "well_typed a" "well_typed b" "arg_type a \<noteq> CLongDouble" "arg_type b \<noteq> CLongDouble"
  shows "c_format (because val_a (dlog_type_fmt (arg_type a)) val_b (dlog_type_fmt (arg_type b))) [a, b] =
    Ret (because val_a (value_text a) val_b (value_text b))"
proof -
  have 1: "c_format (dlog_type_fmt (arg_type b)) [b] = Ret (value_text b)" using c_format_fmt [OF assms(4,6), of "[]" "[]"] by simp
  have 2: "c_format ('', '' @ val_b @ '' = '' @ dlog_type_fmt (arg_type b)) [b] = Ret ('', '' @ val_b @ '' = '' @ value_text b)"
    using c_format_plain [of "'', '' @ val_b @ '' = ''" "dlog_type_fmt (arg_type b)" "[b]"] assms(2) 1 by simp
  have 3: "c_format (dlog_type_fmt (arg_type a) @ '', '' @ val_b @ '' = '' @ dlog_type_fmt (arg_type b)) [a, b] =
      Ret (value_text a @ '', '' @ val_b @ '' = '' @ value_text b)"
    unfolding c_format_fmt [OF assms(3,5)] 2 by simp
  show ?thesis
    using c_format_plain [of "''Because '' @ val_a @ '' = ''" "dlog_type_fmt (arg_type a) @ '', '' @ val_b @ '' = '' @ dlog_type_fmt (arg_type b)" "[a, b]"]
      assms(1) 3 by (simp add: because_def)
qed

text \<open>Property C31: a failed \<open>DLOG_EXPR\<close> whose operand texts and operator have no percent sign, and whose values are no \<open>long double\<close>,
  reports both texts and both values: its two buffers are never overrun and the format is never cut. The message
  ends where the values take more than 50 characters together, which integers never do, or at a \<open>char\<close> with the value 0.\<close>

theorem dlog_expr_message:
  assumes "CHR ''%'' \<notin> set val_a" "CHR ''%'' \<notin> set val_b" "CHR ''%'' \<notin> set opt"
    and "well_typed a" "well_typed b" "arg_type a \<noteq> CLongDouble" "arg_type b \<noteq> CLongDouble"
  shows "dlog_expr lc val_a opt val_b False a b =
      Ret (Some (Stderr, printed_prefix lc @ ''[FATAL] Assertion `'' @ val_a @ '' '' @ opt @ '' '' @ val_b @ ''` failed. '' @
        c_str (take (length val_a + length val_b + 66) (because val_a (value_text a) val_b (value_text b))) @
        '': '' @ c_str (lc_errno lc) @ [CHR 0x0A])) \<and>
    (length (value_text a) + length (value_text b) \<le> 50 \<longrightarrow>
      take (length val_a + length val_b + 66) (because val_a (value_text a) val_b (value_text b)) = because val_a (value_text a) val_b (value_text b)) \<and>
    (c_width (arg_type a) \<noteq> None \<and> c_width (arg_type b) \<noteq> None \<longrightarrow> length (value_text a) + length (value_text b) \<le> 50)"
proof -
  let ?fmt = "because val_a (dlog_type_fmt (arg_type a)) val_b (dlog_type_fmt (arg_type b))"
  let ?tmp = "take (length val_a + length val_b + 66) (because val_a (value_text a) val_b (value_text b))"
  have buf: "dlog_expr_buffer val_a val_b = length val_a + length val_b + 25" by (simp add: dlog_expr_buffer_def)
  have "length ?fmt \<le> length val_a + length val_b + 24"
    using fmt_spec(2) [of "arg_type a"] fmt_spec(2) [of "arg_type b"] by (simp add: because_def)
  then have 1: "c_snprintf (dlog_expr_buffer val_a val_b) (''Because '' @ val_a @ '' = %s, '' @ val_b @ '' = %s'')
      [AStr (dlog_type_fmt (arg_type a)), AStr (dlog_type_fmt (arg_type b))] = Ret ?fmt"
    unfolding c_snprintf_def expr_format [OF assms(1,2) c_str_fmt c_str_fmt] by (simp add: buf)
  have 2: "c_snprintf (dlog_expr_buffer val_a val_b + 42) ?fmt [a, b] = Ret ?tmp"
    unfolding c_snprintf_def because_format [OF assms(1,2,4-7)] by (simp add: buf add.commute)
  have 3: "dlog_fatal lc (''Assertion `'' @ val_a @ '' '' @ opt @ '' '' @ val_b @ ''` failed. %s'') [AStr ?tmp] =
      Ret (Stderr, printed_prefix lc @ ''[FATAL] Assertion `'' @ val_a @ '' '' @ opt @ '' '' @ val_b @ ''` failed. '' @ c_str ?tmp @ '': '' @
        c_str (lc_errno lc) @ [CHR 0x0A])"
  proof -
    have f: "c_format (''%s: %s'' @ [CHR 0x0A]) [AStr ?tmp, AStr (lc_errno lc)] = Ret (c_str ?tmp @ '': '' @ c_str (lc_errno lc) @ [CHR 0x0A])"
      by (simp add: next_conv_def conversions_def)
    have p: "CHR ''%'' \<notin> set (''[FATAL] Assertion `'' @ val_a @ '' '' @ opt @ '' '' @ val_b @ ''` failed. '')"
      using assms(1-3) by simp
    show ?thesis
      using c_format_plain [OF p, of "''%s: %s'' @ [CHR 0x0A]" "[AStr ?tmp, AStr (lc_errno lc)]"] f
      by (simp add: dlog_fatal_def dlog_stream_text)
  qed
  have "length (value_text a) + length (value_text b) \<le> 50 \<longrightarrow> ?tmp = because val_a (value_text a) val_b (value_text b)"
    by (simp add: because_def)
  moreover have short: "length (value_text x) \<le> 20" if "well_typed x" "c_width (arg_type x) \<noteq> None" for x
    using that int_text_short by (cases x) auto
  then have "c_width (arg_type a) \<noteq> None \<and> c_width (arg_type b) \<noteq> None \<longrightarrow> length (value_text a) + length (value_text b) \<le> 50"
    using short [of a] short [of b] assms(4,5) by linarith
  ultimately show ?thesis using 1 2 3 by (simp add: dlog_expr_def)
qed

definition demo_context :: log_context where
  "demo_context = \<lparr>lc_time = ''2022-05-27 10:00:00.'', lc_usec = 42, lc_thread = 127, lc_file = ''a.cc'', lc_line = 7, lc_errno = ''Success''\<rparr>"

lemma demo_prefix: "printed_prefix demo_context = ''[2022-05-27 10:00:00..000042] [0x7f] a.cc:7: ''"
proof -
  have z: "replicate 4 (CHR ''0'') = ''0000''" by (simp add: eval_nat_numeral)
  show ?thesis
    by (simp add: z printed_prefix_def demo_context_def c_str_def pad_text_def hex_text_def dec_text_def digits.simps digit_chars to_type_def)
qed

lemma dlog_expr_message_witness:
  "dlog_expr demo_context ''x'' ''=='' ''y'' False (AInt CInt (- 42)) (AInt CULong 7) =
     Ret (Some (Stderr, ''[2022-05-27 10:00:00..000042] [0x7f] a.cc:7: [FATAL] Assertion `x == y` failed. Because x = -42, y = 7: Success'' @ [CHR 0x0A]))"
proof -
  have w: "well_typed (AInt CInt (- 42))" "well_typed (AInt CULong 7)" by (simp_all add: to_type_def)
  have t: "dec_text (- 42) = ''-42''" "dec_text 7 = ''7''" by (simp_all add: dec_text_def digits.simps digit_chars)
  have e: "lc_errno demo_context = ''Success''" by (simp add: demo_context_def)
  show ?thesis
    using dlog_expr_message [of "''x''" "''y''" "''==''", OF _ _ _ w, of demo_context]
    by (simp add: because_def demo_prefix e t c_str_def)
qed

text \<open>The text of the first operand is part of a \<open>printf\<close> format. A percent sign in it that is followed by a
  space, as in \<open>x % 2\<close>, makes the report of a failed \<open>DLOG_EXPR\<close> undefined behaviour: what follows is no conversion or takes
  one of the two arguments, which are strings and as many as the conversions of the macro itself.\<close>

theorem dlog_expr_percent_ub:
  assumes "val_a = pre @ ''% '' @ post" "CHR ''%'' \<notin> set pre"
  shows "dlog_expr lc val_a opt val_b False a b = UB"
proof -
  have "next_conv (CHR '' '' # ys) = None" for ys by (simp add: next_conv_def conversions_def)
  then have "c_format (CHR ''%'' # CHR '' '' # ys) args = UB" for ys args by simp
  then have "c_format ((''Because '' @ pre) @ CHR ''%'' # CHR '' '' # ys) args = UB" for ys args
    using c_format_plain [of "''Because '' @ pre" "CHR ''%'' # CHR '' '' # ys" args] assms(2) by simp
  then show ?thesis by (simp add: dlog_expr_def c_snprintf_def assms(1))
qed

lemma dlog_expr_percent_ub_witness: "dlog_expr demo_context ''x % 2'' ''=='' ''0'' False (AInt CInt 1) (AInt CInt 0) = UB"
  by (rule dlog_expr_percent_ub [of _ "''x ''" "''2''"]) simp_all

text \<open>The line of a log call: \<open>lc_time\<close> ends with a dot and the format adds another.\<close>

lemma dlog_info_line: "CHR ''%'' \<notin> set msg \<Longrightarrow>
    dlog_info lc msg [] = Ret (Stdout, printed_prefix lc @ ''[INFO] '' @ msg @ [CHR 0x0A])"
  using c_format_plain_end [of "''[INFO] '' @ msg @ [CHR 0x0A]" "[]"] by (simp add: dlog_info_def dlog_stream_text)

lemma dlog_file_replaces: "dlog_file lc fmt args old = dlog_file lc fmt args old'"
  by (simp add: dlog_file_def)

end
