(* ===== verification/Extend_New.thy ===== *)
theory Extend_New
  imports Prelude
begin

text \<open>
  extend_new.h: \<open>aligned_new\<close> and \<open>aligned_delete\<close>, the objects with a flexible array at their end, and
  the per-thread values of \<open>thread_local_specific\<close>. A constructor of the user's type is a parameter: it
  takes the argument and gives the object and what the call leaves in the argument (an rvalue argument is
  moved from). Addresses and sizes are bytes, as 64-bit numbers.
\<close>

section \<open>aligned_new and aligned_delete\<close>

text \<open>The loop that constructs the objects one after the other from the same argument.\<close>

primrec construct_n :: "('arg \<Rightarrow> 'a \<times> 'arg) \<Rightarrow> nat \<Rightarrow> 'arg \<Rightarrow> 'a list" where
  "construct_n ctor 0 arg = []"
| "construct_n ctor (Suc n) arg = (let (x, arg') = ctor arg in x # construct_n ctor n arg')"

text \<open>\<open>alloc bytes\<close> is what \<open>aligned_alloc\<close> returns: the null pointer or a block of that many bytes. The product
  \<open>n * sizeof(T)\<close> is computed in 64 bits; constructing outside the block is undefined, and so is using the null pointer.
  The result is the block's size and the objects.\<close>

definition aligned_new :: "u64 \<Rightarrow> (u64 \<Rightarrow> bool) \<Rightarrow> ('arg \<Rightarrow> 'a \<times> 'arg) \<Rightarrow> u64 \<Rightarrow> 'arg \<Rightarrow> (u64 \<times> 'a list) option run" where
  "aligned_new sizeof_T alloc ctor n arg =
     (let bytes = n * sizeof_T in
      if n = 0 then Ret (if alloc bytes then Some (bytes, []) else None)
      else if \<not> alloc bytes then UB
      else if unat n * unat sizeof_T \<le> unat bytes then Ret (Some (bytes, construct_n ctor (unat n) arg))
      else UB)"

text \<open>\<open>aligned_delete\<close> destroys \<open>ptr[0]\<close>, ..., \<open>ptr[n - 1]\<close> and frees the block: the objects it leaves alive.\<close>

definition aligned_delete :: "'a list \<Rightarrow> u64 \<Rightarrow> 'a list run" where
  "aligned_delete objs n = (if unat n \<le> length objs then Ret (drop (unat n) objs) else UB)"

section \<open>Flexible arrays\<close>

text \<open>The layout of a type \<open>T\<close> whose last member is the array: \<open>sizeof(T)\<close>, \<open>alignof(T)\<close>, \<open>FT_OFFSET\<close>, \<open>sizeof(FT)\<close>.\<close>

record fa_layout =
  fa_size :: nat
  fa_align :: nat
  fa_offset :: nat
  fa_elem :: nat

text \<open>\<open>operator new\<close>: the size of the block and the offset of the object in it; the number of elements is kept
  in the first 8 bytes.\<close>

definition fa_block :: "fa_layout \<Rightarrow> nat \<Rightarrow> nat" where
  "fa_block L n = 8 + fa_offset L + n * fa_elem L"

definition fa_this :: "nat \<Rightarrow> nat" where
  "fa_this p = p + 8"

definition fa_header :: "nat \<Rightarrow> nat" where
  "fa_header this = this - 8"

text \<open>\<open>operator delete\<close>: the address given back.\<close>

definition fa_release :: "nat \<Rightarrow> nat" where
  "fa_release this = this - 8"

definition fa_elem_addr :: "fa_layout \<Rightarrow> nat \<Rightarrow> nat \<Rightarrow> nat" where
  "fa_elem_addr L this i = this + fa_offset L + i * fa_elem L"

text \<open>The constructor: \<open>T\<close> from \<open>__x\<close>, then the number of elements read back from the header, and each element from \<open>__y\<close>,
  which is forwarded as an rvalue every time.\<close>

definition fa_construct :: "(nat \<Rightarrow> nat option) \<Rightarrow> ('x \<Rightarrow> 't) \<Rightarrow> ('y \<Rightarrow> 'y \<times> 'y) \<Rightarrow> nat \<Rightarrow> 'x \<Rightarrow> 'y \<Rightarrow> ('t \<times> 'y list) run" where
  "fa_construct mem ctor_T move_FT this x y =
     (case mem (fa_header this) of
        None \<Rightarrow> UB
      | Some n \<Rightarrow> Ret (ctor_T x, construct_n move_FT n y))"

text \<open>\<open>new\<close> of a flexible array object at the block \<open>p\<close>.\<close>

definition fa_new :: "(nat \<Rightarrow> nat option) \<Rightarrow> nat \<Rightarrow> ('x \<Rightarrow> 't) \<Rightarrow> ('y \<Rightarrow> 'y \<times> 'y) \<Rightarrow> nat \<Rightarrow> 'x \<Rightarrow> 'y \<Rightarrow>
    ((nat \<Rightarrow> nat option) \<times> nat \<times> 't \<times> 'y list) run" where
  "fa_new mem p ctor_T move_FT n x y =
     (let mem = mem(p \<mapsto> n); this = fa_this p in
      run_bind (fa_construct mem ctor_T move_FT this x y) (\<lambda>(obj, ys). Ret (mem, this, obj, ys)))"

text \<open>The destructor destroys as many elements as the header says.\<close>

definition fa_destroy :: "(nat \<Rightarrow> nat option) \<Rightarrow> nat \<Rightarrow> 'y list \<Rightarrow> 'y list run" where
  "fa_destroy mem this ys =
     (case mem (fa_header this) of None \<Rightarrow> UB | Some n \<Rightarrow> if n \<le> length ys then Ret (drop n ys) else UB)"

section \<open>thread_local_specific\<close>

text \<open>
  \<open>tls_key\<close> is the thread's value of the pthread key (\<open>None\<close> is the null pointer), \<open>tls_heap\<close> the objects that
  \<open>new\<close> made and nobody deleted, \<open>tls_next\<close> a fresh address. \<open>tls_live\<close> tells whether the key still exists.
\<close>

record 'a tls =
  tls_key :: "nat \<Rightarrow> nat option"
  tls_heap :: "nat \<Rightarrow> 'a option"
  tls_next :: nat
  tls_live :: bool

definition tls_ctor :: "'a tls" where
  "tls_ctor = \<lparr>tls_key = (\<lambda>_. None), tls_heap = (\<lambda>_. None), tls_next = 0, tls_live = True\<rparr>"

definition tls_new :: "nat \<Rightarrow> 'a \<Rightarrow> 'a tls \<Rightarrow> 'a tls" where
  "tls_new t x s = s\<lparr>tls_heap := (tls_heap s)(tls_next s \<mapsto> x), tls_key := (tls_key s)(t \<mapsto> tls_next s), tls_next := tls_next s + 1\<rparr>"

text \<open>\<open>set\<close>: the address of the object returned by reference.\<close>

definition tls_set :: "nat \<Rightarrow> 'a \<Rightarrow> 'a tls \<Rightarrow> (nat \<times> 'a tls) run" where
  "tls_set t x s =
     (if \<not> tls_live s then UB
      else case tls_key s t of
          None \<Rightarrow> let s = tls_new t x s in (case tls_key s t of None \<Rightarrow> UB | Some p \<Rightarrow> Ret (p, s))
        | Some p \<Rightarrow> (case tls_heap s p of None \<Rightarrow> UB | Some y \<Rightarrow> Ret (p, s\<lparr>tls_heap := (tls_heap s)(p \<mapsto> x)\<rparr>)))"

text \<open>\<open>get\<close>; \<open>x0\<close> is what \<open>T()\<close> makes. The value read through the reference is returned with it.\<close>

definition tls_get :: "nat \<Rightarrow> 'a \<Rightarrow> 'a tls \<Rightarrow> (nat \<times> 'a \<times> 'a tls) run" where
  "tls_get t x0 s =
     (if \<not> tls_live s then UB
      else let s = (if tls_key s t = None then tls_new t x0 s else s) in
        case tls_key s t of None \<Rightarrow> UB
        | Some p \<Rightarrow> (case tls_heap s p of None \<Rightarrow> UB | Some y \<Rightarrow> Ret (p, y, s)))"

text \<open>The end of thread \<open>t\<close>: pthread clears the value and calls \<open>dtor_func\<close> with it, while the key exists.\<close>

definition tls_thread_exit :: "nat \<Rightarrow> 'a tls \<Rightarrow> 'a tls" where
  "tls_thread_exit t s =
     (if tls_live s then
        (case tls_key s t of None \<Rightarrow> s
         | Some p \<Rightarrow> s\<lparr>tls_key := (tls_key s)(t := None), tls_heap := (tls_heap s)(p := None)\<rparr>)
      else s)"

text \<open>The destructor: \<open>pthread_key_delete\<close> calls no destructor function.\<close>

definition tls_dtor :: "'a tls \<Rightarrow> 'a tls" where
  "tls_dtor s = s\<lparr>tls_live := False\<rparr>"

datatype 'a tls_op = TlsSet nat 'a | TlsGet nat 'a | TlsExit nat

fun tls_do :: "'a tls_op \<Rightarrow> 'a tls \<Rightarrow> 'a tls run" where
  "tls_do (TlsSet t x) s = run_bind (tls_set t x s) (\<lambda>(p, s). Ret s)"
| "tls_do (TlsGet t x0) s = run_bind (tls_get t x0 s) (\<lambda>(p, y, s). Ret s)"
| "tls_do (TlsExit t) s = Ret (tls_thread_exit t s)"

fun tls_run :: "'a tls_op list \<Rightarrow> 'a tls \<Rightarrow> 'a tls run" where
  "tls_run [] s = Ret s"
| "tls_run (x # xs) s = run_bind (tls_do x s) (tls_run xs)"

end
