(* ===== verification/Extend_New_Properties.thy ===== *)
theory Extend_New_Properties
  imports Extend_New
begin

text \<open>The properties of extend_new.h.\<close>

section \<open>Constructing many objects from one argument\<close>

lemma construct_n_length [simp]: "length (construct_n ctor n arg) = n"
  by (induction n arbitrary: arg) (simp_all add: split_beta Let_def)

lemma construct_n_copy: "(\<And>a. snd (ctor a) = a) \<Longrightarrow> construct_n ctor n arg = replicate n (fst (ctor arg))"
  by (induction n) (simp_all add: split_beta Let_def)

text \<open>Moving: the first object gets the argument, the others what moving from it leaves behind.\<close>

lemma construct_n_moved: "construct_n (\<lambda>a. (a, e)) n e = replicate n e"
  by (induction n) simp_all

lemma construct_n_move: "construct_n (\<lambda>a. (a, e)) (Suc n) y = y # replicate n e"
  by (simp add: construct_n_moved)

text \<open>\<open>aligned_new\<close> with an argument that the constructor leaves alone (an lvalue, or no argument) makes \<open>n\<close>
  equal objects inside its block, which \<open>aligned_delete\<close> with the same \<open>n\<close> destroys completely, whenever the allocation succeeds and
  \<open>n * sizeof(T)\<close> does not overflow; when the product overflows 64 bits it constructs beyond the block.\<close>

theorem aligned_new_delete:
  assumes "\<And>a. snd (ctor a) = a" "alloc (n * sizeof_T)" "n \<noteq> 0"
  shows "(unat n * unat sizeof_T < 2 ^ 64 \<longrightarrow>
      aligned_new sizeof_T alloc ctor n arg = Ret (Some (n * sizeof_T, replicate (unat n) (fst (ctor arg)))) \<and>
      aligned_delete (replicate (unat n) (fst (ctor arg))) n = Ret []) \<and>
    (2 ^ 64 \<le> unat n * unat sizeof_T \<longrightarrow> aligned_new sizeof_T alloc ctor n arg = UB)"
proof -
  have u: "unat (n * sizeof_T) = unat n * unat sizeof_T mod 2 ^ 64" by (simp add: unat_word_ariths)
  have "unat n * unat sizeof_T \<le> unat (n * sizeof_T) \<longleftrightarrow> unat n * unat sizeof_T < 2 ^ 64"
  proof
    assume "unat n * unat sizeof_T \<le> unat (n * sizeof_T)"
    then show "unat n * unat sizeof_T < 2 ^ 64"
      unfolding u using mod_less_divisor [of "2 ^ 64" "unat n * unat sizeof_T"] by simp
  next
    assume "unat n * unat sizeof_T < 2 ^ 64"
    then show "unat n * unat sizeof_T \<le> unat (n * sizeof_T)" unfolding u by simp
  qed
  then show ?thesis
    using assms construct_n_copy [OF assms(1), of "unat n" arg] by (simp add: aligned_new_def aligned_delete_def Let_def not_le [symmetric])
qed

lemma replicate_2: "replicate 2 x = [x, x]"
  by (simp add: numeral_2_eq_2)

lemma aligned_new_delete_witness:
  "aligned_new 16 (\<lambda>_. True) (\<lambda>a. (a, a)) 2 (7 :: nat) = Ret (Some (32, [7, 7])) \<and>
   aligned_new 16 (\<lambda>_. True) (\<lambda>a. (a, a)) 1152921504606846976 (7 :: nat) = UB"
  using aligned_new_delete [of "\<lambda>a. (a, a)" "\<lambda>_. True" 2 16 "7 :: nat"]
    aligned_new_delete [of "\<lambda>a. (a, a)" "\<lambda>_. True" 1152921504606846976 16 "7 :: nat"]
  by (simp add: replicate_2)

text \<open>Only the first element of a flexible array gets the value given for the elements: the constructor forwards the same
  rvalue for each, so all others are made from a moved-from object.\<close>

theorem flexible_array_moved_from:
  "fa_new mem p ctor_T (\<lambda>y. (y, e)) (Suc n) x y = Ret (mem(p \<mapsto> Suc n), fa_this p, ctor_T x, y # replicate n e)"
  by (simp add: fa_new_def fa_construct_def fa_header_def fa_this_def construct_n_moved Let_def)

text \<open>The memory of a flexible array object: every element lies inside the block behind the header, elements do not overlap, the
  destructor destroys exactly the constructed elements, and \<open>operator delete\<close> gives back the address that \<open>operator new\<close> got;
  but the object sits 8 bytes behind an aligned address, so a type with an alignment of 16 is misaligned.\<close>

theorem flexible_array_layout:
  assumes "0 < fa_elem L"
  shows "(\<forall>i<n. p + 8 \<le> fa_elem_addr L (fa_this p) i \<and> fa_elem_addr L (fa_this p) i + fa_elem L \<le> p + fa_block L n) \<and>
    (\<forall>i j. i < j \<longrightarrow> fa_elem_addr L (fa_this p) i + fa_elem L \<le> fa_elem_addr L (fa_this p) j) \<and>
    (\<exists>mem' ys obj. fa_new mem p ctor_T move_FT n x y = Ret (mem', fa_this p, obj, ys) \<and> length ys = n \<and>
       fa_destroy mem' (fa_this p) ys = Ret []) \<and>
    fa_release (fa_this p) = p \<and>
    (fa_align L = 16 \<and> 16 dvd p \<longrightarrow> \<not> fa_align L dvd fa_this p)"
proof -
  have m: "i * fa_elem L + fa_elem L \<le> j * fa_elem L" if "i < j" for i j
    using mult_le_mono1 [of "Suc i" j "fa_elem L"] that by simp
  have "\<not> 16 dvd p + (8 :: nat)" if "16 dvd p"
  proof
    assume "16 dvd p + 8"
    then have "16 dvd (8 :: nat)" using that by (metis dvd_add_right_iff)
    then show False by simp
  qed
  then show ?thesis
    using m by (auto simp: fa_elem_addr_def fa_this_def fa_block_def fa_release_def fa_new_def fa_construct_def fa_destroy_def fa_header_def Let_def)
qed

lemma flexible_array_layout_witness:
  "fa_elem_addr \<lparr>fa_size = 16, fa_align = 16, fa_offset = 16, fa_elem = 4\<rparr> (fa_this 32) 2 + 4 \<le> 32 + fa_block \<lparr>fa_size = 16, fa_align = 16, fa_offset = 16, fa_elem = 4\<rparr> 3 \<and>
   \<not> 16 dvd fa_this 32"
  using flexible_array_layout [of "\<lparr>fa_size = 16, fa_align = 16, fa_offset = 16, fa_elem = 4\<rparr>" 3 32 "\<lambda>_. None" "\<lambda>x. x :: nat" "\<lambda>y. (y, y)" 0 "0 :: nat"]
  by simp

section \<open>Per-thread values\<close>

text \<open>The threads that have a value own distinct live objects, and all objects belong to a thread.\<close>

definition tls_wf :: "'a tls \<Rightarrow> bool" where
  "tls_wf s \<longleftrightarrow> tls_live s \<and> inj_on (tls_key s) (dom (tls_key s)) \<and> ran (tls_key s) = dom (tls_heap s) \<and>
     (\<forall>p\<in>dom (tls_heap s). p < tls_next s)"

definition tls_value :: "'a tls \<Rightarrow> nat \<Rightarrow> 'a option" where
  "tls_value s t = (case tls_key s t of None \<Rightarrow> None | Some p \<Rightarrow> tls_heap s p)"

lemma tls_wf_ctor: "tls_wf tls_ctor"
  by (simp add: tls_wf_def tls_ctor_def)

lemma tls_wf_new:
  assumes "tls_wf s" "tls_key s t = None"
  shows "tls_wf (tls_new t x s)" "tls_value (tls_new t x s) = (tls_value s)(t \<mapsto> x)" "tls_key (tls_new t x s) t \<noteq> None"
proof -
  have ran: "p < tls_next s" if "tls_key s u = Some p" for u p
    using assms(1) that unfolding tls_wf_def by (metis ranI)
  have "inj_on (tls_key (tls_new t x s)) (dom (tls_key (tls_new t x s)))"
  proof (rule inj_onI)
    fix a b assume ab: "a \<in> dom (tls_key (tls_new t x s))" "b \<in> dom (tls_key (tls_new t x s))"
      "tls_key (tls_new t x s) a = tls_key (tls_new t x s) b"
    have inj: "inj_on (tls_key s) (dom (tls_key s))" using assms(1) by (simp add: tls_wf_def)
    show "a = b"
    proof (cases "a = t \<or> b = t")
      case True
      then show ?thesis using ab ran [of a "tls_next s"] ran [of b "tls_next s"] by (auto simp: tls_new_def split: if_splits)
    next
      case False
      then show ?thesis using ab inj_onD [OF inj, of a b] by (simp add: tls_new_def domIff)
    qed
  qed
  moreover have "ran (tls_key (tls_new t x s)) = dom (tls_heap (tls_new t x s))"
    using assms by (simp add: tls_new_def tls_wf_def)
  ultimately show "tls_wf (tls_new t x s)"
    using assms(1) by (auto simp: tls_wf_def tls_new_def less_SucI)
  show "tls_value (tls_new t x s) = (tls_value s)(t \<mapsto> x)"
  proof (rule ext)
    show "tls_value (tls_new t x s) u = ((tls_value s)(t \<mapsto> x)) u" for u
      using ran [of u] by (cases "tls_key s u") (auto simp: tls_value_def tls_new_def)
  qed
  show "tls_key (tls_new t x s) t \<noteq> None" by (simp add: tls_new_def)
qed

lemma tls_wf_key: "tls_wf s \<Longrightarrow> tls_key s t = Some p \<Longrightarrow> \<exists>y. tls_heap s p = Some y"
  unfolding tls_wf_def by (metis domD ranI)

lemma tls_wf_other: "tls_wf s \<Longrightarrow> tls_key s t = Some p \<Longrightarrow> tls_key s u = Some p \<Longrightarrow> u = t"
  unfolding tls_wf_def inj_on_def by (metis domI)

lemma tls_set_ok:
  assumes "tls_wf s"
  shows "\<exists>p s'. tls_set t x s = Ret (p, s') \<and> tls_wf s' \<and> tls_value s' = (tls_value s)(t \<mapsto> x)"
proof (cases "tls_key s t")
  case None
  obtain p where "tls_key (tls_new t x s) t = Some p" using tls_wf_new(3) [OF assms None] by auto
  then show ?thesis
    using tls_wf_new [OF assms None, of x] assms None by (simp add: tls_set_def tls_wf_def)
next
  case (Some p)
  obtain y where y: "tls_heap s p = Some y" using tls_wf_key [OF assms Some] by blast
  have "tls_wf (s\<lparr>tls_heap := (tls_heap s)(p \<mapsto> x)\<rparr>)"
    using assms y by (auto simp: tls_wf_def insert_absorb)
  moreover have "tls_value (s\<lparr>tls_heap := (tls_heap s)(p \<mapsto> x)\<rparr>) = (tls_value s)(t \<mapsto> x)"
  proof (rule ext)
    show "tls_value (s\<lparr>tls_heap := (tls_heap s)(p \<mapsto> x)\<rparr>) u = ((tls_value s)(t \<mapsto> x)) u" for u
      using Some tls_wf_other [OF assms Some, of u] by (cases "tls_key s u") (auto simp: tls_value_def)
  qed
  ultimately show ?thesis using assms Some y by (simp add: tls_set_def tls_wf_def)
qed

lemma tls_get_ok:
  assumes "tls_wf s"
  shows "\<exists>p s'. tls_get t x0 s = Ret (p, (case tls_value s t of None \<Rightarrow> x0 | Some y \<Rightarrow> y), s') \<and> tls_wf s' \<and>
    tls_value s' = (tls_value s)(t \<mapsto> (case tls_value s t of None \<Rightarrow> x0 | Some y \<Rightarrow> y))"
proof (cases "tls_key s t")
  case None
  obtain p where p: "tls_key (tls_new t x0 s) t = Some p" using tls_wf_new(3) [OF assms None] by auto
  have v: "tls_value (tls_new t x0 s) t = Some x0" using tls_wf_new(2) [OF assms None, of x0] by simp
  then have "tls_heap (tls_new t x0 s) p = Some x0" using p by (simp add: tls_value_def)
  then show ?thesis
    using tls_wf_new [OF assms None, of x0] assms None p by (simp add: tls_get_def tls_wf_def tls_value_def [of s])
next
  case (Some p)
  obtain y where y: "tls_heap s p = Some y" using tls_wf_key [OF assms Some] by blast
  then have v: "tls_value s t = Some y" using Some by (simp add: tls_value_def)
  then have "(tls_value s)(t \<mapsto> y) = tls_value s" by (simp add: fun_upd_idem)
  then show ?thesis using assms Some y v by (simp add: tls_get_def tls_wf_def)
qed

lemma tls_exit_ok:
  assumes "tls_wf s"
  shows "tls_wf (tls_thread_exit t s)" "tls_value (tls_thread_exit t s) = (tls_value s)(t := None)"
proof -
  have "tls_wf (tls_thread_exit t s) \<and> tls_value (tls_thread_exit t s) = (tls_value s)(t := None)"
  proof (cases "tls_key s t")
    case None
    then have "(tls_value s)(t := None) = tls_value s" by (auto simp: tls_value_def)
    then show ?thesis using assms None by (simp add: tls_thread_exit_def)
  next
    case (Some p)
    let ?s = "s\<lparr>tls_key := (tls_key s)(t := None), tls_heap := (tls_heap s)(p := None)\<rparr>"
    have inj: "inj_on (tls_key s) (dom (tls_key s))" and rd: "ran (tls_key s) = dom (tls_heap s)" and l: "tls_live s"
      using assms by (simp_all add: tls_wf_def)
    have "inj_on ((tls_key s)(t := None)) (dom ((tls_key s)(t := None)))"
    proof (rule inj_onI)
      fix a b assume ab: "a \<in> dom ((tls_key s)(t := None))" "b \<in> dom ((tls_key s)(t := None))"
        "((tls_key s)(t := None)) a = ((tls_key s)(t := None)) b"
      then have "a \<noteq> t" "b \<noteq> t" by auto
      then show "a = b" using ab inj_onD [OF inj, of a b] by simp
    qed
    moreover have "ran ((tls_key s)(t := None)) = dom ((tls_heap s)(p := None))"
    proof -
      have "q \<in> ran ((tls_key s)(t := None)) \<longleftrightarrow> q \<in> ran (tls_key s) \<and> q \<noteq> p" for q
      proof
        assume "q \<in> ran ((tls_key s)(t := None))"
        then obtain u where u: "((tls_key s)(t := None)) u = Some q" by (auto simp: ran_def)
        then have u: "u \<noteq> t" "tls_key s u = Some q" by (auto split: if_splits)
        then show "q \<in> ran (tls_key s) \<and> q \<noteq> p" using tls_wf_other [OF assms Some, of u] ranI [of "tls_key s" u q] u(2) by blast
      next
        assume q: "q \<in> ran (tls_key s) \<and> q \<noteq> p"
        then obtain u where u: "tls_key s u = Some q" by (auto simp: ran_def)
        then have "((tls_key s)(t := None)) u = Some q" using Some q by auto
        then show "q \<in> ran ((tls_key s)(t := None))" by (rule ranI)
      qed
      then show ?thesis using rd by auto
    qed
    ultimately have "tls_wf ?s" using assms by (auto simp: tls_wf_def)
    moreover have "tls_value ?s = (tls_value s)(t := None)"
    proof (rule ext)
      show "tls_value ?s u = ((tls_value s)(t := None)) u" for u
        using Some tls_wf_other [OF assms Some, of u] by (cases "tls_key s u") (auto simp: tls_value_def)
    qed
    ultimately show ?thesis using l Some by (simp add: tls_thread_exit_def)
  qed
  then show "tls_wf (tls_thread_exit t s)" "tls_value (tls_thread_exit t s) = (tls_value s)(t := None)" by simp_all
qed

text \<open>What a sequence of operations means for each thread's value.\<close>

fun tls_meaning :: "'a tls_op \<Rightarrow> (nat \<Rightarrow> 'a option) \<Rightarrow> nat \<Rightarrow> 'a option" where
  "tls_meaning (TlsSet t x) m = m(t \<mapsto> x)"
| "tls_meaning (TlsGet t x0) m = (if m t = None then m(t \<mapsto> x0) else m)"
| "tls_meaning (TlsExit t) m = m(t := None)"

lemma tls_do_ok: "tls_wf s \<Longrightarrow> \<exists>s'. tls_do a s = Ret s' \<and> tls_wf s' \<and> tls_value s' = tls_meaning a (tls_value s)"
proof (cases a)
  case (TlsSet t x)
  assume "tls_wf s"
  then show ?thesis using tls_set_ok [of s t x] TlsSet by auto
next
  case (TlsGet t x0)
  assume "tls_wf s"
  then show ?thesis using tls_get_ok [of s t x0] TlsGet by (fastforce simp: fun_upd_idem split: option.splits)
next
  case (TlsExit t)
  assume "tls_wf s"
  then show ?thesis using tls_exit_ok [of s t] TlsExit by simp
qed

text \<open>Property C32: \<open>thread_local_specific\<close> is a map from threads to values: after any sequence of \<open>set\<close>, \<open>get\<close> and thread exits, by any
  threads, none of which goes wrong, each thread has the value it set last (or the default object that its \<open>get\<close> made), independent of
  the others; there is exactly one object per thread with a value, and the exit of a thread deletes its own.\<close>

theorem thread_local_refines_map:
  "\<exists>s. tls_run acts tls_ctor = Ret s \<and> tls_value s = fold tls_meaning acts (\<lambda>_. None) \<and>
     bij_betw (\<lambda>t. the (tls_key s t)) (dom (tls_value s)) (dom (tls_heap s))"
proof -
  have run: "tls_wf s \<Longrightarrow> \<exists>s'. tls_run acts s = Ret s' \<and> tls_wf s' \<and> tls_value s' = fold tls_meaning acts (tls_value s)" for s :: "'a tls"
  proof (induction acts arbitrary: s)
    case (Cons a acts)
    obtain s1 where s1: "tls_do a s = Ret s1" "tls_wf s1" "tls_value s1 = tls_meaning a (tls_value s)"
      using tls_do_ok [OF Cons.prems] by blast
    then show ?case using Cons.IH [OF s1(2)] by simp
  qed simp
  have v0: "tls_value (tls_ctor :: 'a tls) = (\<lambda>_. None)" by (simp add: tls_value_def tls_ctor_def fun_eq_iff)
  obtain s where s: "tls_run acts tls_ctor = Ret s" "tls_wf s" "tls_value s = fold tls_meaning acts (\<lambda>_. None)"
    using run [OF tls_wf_ctor] v0 by auto
  have dom: "dom (tls_value s) = dom (tls_key s)"
    using tls_wf_key [OF s(2)] by (auto simp: tls_value_def split: option.splits)
  have "bij_betw (\<lambda>t. the (tls_key s t)) (dom (tls_key s)) (ran (tls_key s))"
    unfolding bij_betw_def
  proof
    show "inj_on (\<lambda>t. the (tls_key s t)) (dom (tls_key s))"
      using tls_wf_other [OF s(2)] by (auto simp: inj_on_def)
    show "(\<lambda>t. the (tls_key s t)) ` dom (tls_key s) = ran (tls_key s)" by (force simp: ran_def)
  qed
  then have "bij_betw (\<lambda>t. the (tls_key s t)) (dom (tls_value s)) (dom (tls_heap s))"
    unfolding dom using s(2) by (simp add: tls_wf_def)
  then show ?thesis using s by blast
qed

text \<open>The destructor of \<open>thread_local_specific\<close> deletes the key only: the objects of the threads that are still running
  stay, and their exits no longer delete them.\<close>

lemma thread_local_dtor_leaks:
  "tls_heap (fold tls_thread_exit ts (tls_dtor s)) = tls_heap s"
proof -
  have "\<not> tls_live r \<Longrightarrow> fold tls_thread_exit ts r = r" for r :: "'a tls"
    by (induction ts) (simp_all add: tls_thread_exit_def)
  then show ?thesis by (simp add: tls_dtor_def)
qed

end
