(* ===== verification/Intention_Mutex.thy ===== *)
theory Intention_Mutex
  imports Transition
begin

text \<open>
  \<open>__intention_mutex_impl<D>\<close> of extend_mutex.h: readers, one of which can be promoted to the
  writer. Bit 0 of \<open>l\<close> is the intention to write, each reader adds 2.
\<close>

text \<open>
  \<open>ImTry v\<close>: inside \<open>lock_shared\<close> with \<open>l_ = v\<close>; \<open>ImDrop\<close>: in \<open>try_lock_prompt\<close>, bit 0 set and
  the own share not yet given up; \<open>ImWait\<close>: waiting for the other readers to leave.
\<close>

datatype 'l intention_pc = ImIdle | ImTry 'l | ImReader | ImDrop | ImWait | ImWriter

record 'l intention_state =
  im_l :: 'l
  im_pc :: "nat \<Rightarrow> 'l intention_pc"

definition intention_init :: "('w::len) word intention_state \<Rightarrow> bool" where
  "intention_init s \<longleftrightarrow> im_l s = 0 \<and> (\<forall>t. im_pc s t = ImIdle)"

text \<open>
  \<open>unlock_shared\<close> and \<open>try_lock_prompt\<close> are for a reader, \<open>unlock\<close> for the writer. A failed exchange
  reloads \<open>l_\<close> (\<open>im_cas_fail\<close>), also when it fails spuriously.
\<close>

inductive intention_step :: "nat \<Rightarrow> ('w::len) word intention_state \<Rightarrow> 'w word intention_state \<Rightarrow> bool" for N where
  im_load: "t < N \<Longrightarrow> im_pc s t = ImIdle \<Longrightarrow>
    intention_step N s (s\<lparr>im_pc := (im_pc s)(t := ImTry (im_l s))\<rparr>)"
| im_reload: "t < N \<Longrightarrow> im_pc s t = ImTry v \<Longrightarrow> v AND 1 \<noteq> 0 \<Longrightarrow>
    intention_step N s (s\<lparr>im_pc := (im_pc s)(t := ImTry (im_l s))\<rparr>)"
| im_cas: "t < N \<Longrightarrow> im_pc s t = ImTry v \<Longrightarrow> v AND 1 = 0 \<Longrightarrow> im_l s = v \<Longrightarrow>
    intention_step N s (s\<lparr>im_l := v + 2, im_pc := (im_pc s)(t := ImReader)\<rparr>)"
| im_cas_fail: "t < N \<Longrightarrow> im_pc s t = ImTry v \<Longrightarrow> v AND 1 = 0 \<Longrightarrow>
    intention_step N s (s\<lparr>im_pc := (im_pc s)(t := ImTry (im_l s))\<rparr>)"
| im_prompt: "t < N \<Longrightarrow> im_pc s t = ImReader \<Longrightarrow>
    intention_step N s (s\<lparr>im_l := im_l s OR 1,
      im_pc := (im_pc s)(t := if im_l s AND 1 \<noteq> 0 then ImReader else ImDrop)\<rparr>)"
| im_drop: "t < N \<Longrightarrow> im_pc s t = ImDrop \<Longrightarrow>
    intention_step N s (s\<lparr>im_l := im_l s - 2, im_pc := (im_pc s)(t := ImWait)\<rparr>)"
| im_wait: "t < N \<Longrightarrow> im_pc s t = ImWait \<Longrightarrow>
    intention_step N s (s\<lparr>im_pc := (im_pc s)(t := if im_l s AND NOT 1 \<noteq> 0 then ImWait else ImWriter)\<rparr>)"
| im_unlock: "t < N \<Longrightarrow> im_pc s t = ImWriter \<Longrightarrow>
    intention_step N s (s\<lparr>im_l := 0, im_pc := (im_pc s)(t := ImIdle)\<rparr>)"
| im_unlock_shared: "t < N \<Longrightarrow> im_pc s t = ImReader \<Longrightarrow>
    intention_step N s (s\<lparr>im_l := im_l s - 2, im_pc := (im_pc s)(t := ImIdle)\<rparr>)"

definition im_share :: "'l intention_pc \<Rightarrow> bool" where
  "im_share c \<longleftrightarrow> c = ImReader \<or> c = ImDrop"

definition im_intent :: "'l intention_pc \<Rightarrow> bool" where
  "im_intent c \<longleftrightarrow> c = ImDrop \<or> c = ImWait \<or> c = ImWriter"

abbreviation "im_shares N s \<equiv> threads_in N im_share (im_pc s)"
abbreviation "im_intents N s \<equiv> threads_in N im_intent (im_pc s)"

definition intention_inv :: "nat \<Rightarrow> ('w::len) word intention_state \<Rightarrow> bool" where
  "intention_inv N s \<longleftrightarrow> unat (im_l s) = 2 * im_shares N s + im_intents N s \<and> im_intents N s \<le> 1 \<and>
     ((\<exists>t<N. im_pc s t = ImWriter) \<longrightarrow> im_shares N s = 0)"

lemma intention_move:
  assumes "t < N" "im_pc s t = c"
  shows "threads_in N im_share ((im_pc s)(t := c')) + of_bool (im_share c) = im_shares N s + of_bool (im_share c')"
    "threads_in N im_intent ((im_pc s)(t := c')) + of_bool (im_intent c) = im_intents N s + of_bool (im_intent c')"
  using threads_in_upd [OF assms(1), of im_share "im_pc s" c'] threads_in_upd [OF assms(1), of im_intent "im_pc s" c']
    assms(2)
  by (simp_all only:)

lemma intention_odd: "intention_inv N s \<Longrightarrow> im_l s AND 1 \<noteq> 0 \<longleftrightarrow> im_intents N s = 1"
  by (cases "im_intents N s") (auto simp: and_1_odd intention_inv_def)

lemma intention_high: "intention_inv N s \<Longrightarrow> im_l s AND NOT 1 \<noteq> 0 \<longleftrightarrow> im_shares N s \<noteq> 0"
  unfolding and_not_1_eq_0 intention_inv_def by linarith

lemma intention_writer_upd:
  "(\<exists>u<N. ((im_pc s)(t := c)) u = ImWriter) \<Longrightarrow> c \<noteq> ImWriter \<Longrightarrow> \<exists>u<N. im_pc s u = ImWriter"
  by (auto split: if_splits)

lemma intention_quiet:
  assumes "intention_inv N s" "t < N" "im_pc s t = c" "\<not> im_share c" "\<not> im_intent c" "\<not> im_share c'" "\<not> im_intent c'"
  shows "intention_inv N (s\<lparr>im_pc := (im_pc s)(t := c')\<rparr>)"
  using assms intention_move [OF assms(2,3), of c'] intention_writer_upd [of N s t c']
  by (auto simp: intention_inv_def im_intent_def)

lemma intention_sub: "intention_inv N s \<Longrightarrow> 0 < im_shares N s \<Longrightarrow> unat (im_l s - 2) = unat (im_l s) - 2"
  by (rule unat_sub_2) (simp add: intention_inv_def)

lemma intention_step_inv:
  fixes s :: "('w::len) word intention_state"
  assumes "intention_step N s s'" "2 * N + 1 < 2 ^ LENGTH('w)" "intention_inv N s"
  shows "intention_inv N s'"
  using assms
proof (induction rule: intention_step.induct)
  case (im_load t s)
  then show ?case by (intro intention_quiet) (auto simp: im_share_def im_intent_def)
next
  case (im_reload t s v)
  then show ?case by (intro intention_quiet) (auto simp: im_share_def im_intent_def)
next
  case (im_cas_fail t s v)
  then show ?case by (intro intention_quiet) (auto simp: im_share_def im_intent_def)
next
  case (im_cas t s v)
  note m = intention_move [OF im_cas(1,2), of ImReader]
  have z: "im_intents N s = 0" using intention_odd [OF im_cas(6)] im_cas(3,4,6) by (auto simp: intention_inv_def)
  have "im_shares N s + 1 \<le> N" using m(1) threads_in_le [of N im_share "(im_pc s)(t := ImReader)"]
    by (simp add: im_share_def)
  then have u: "unat (im_l s + 2) = unat (im_l s) + 2"
    using im_cas(5,6) z by (intro unat_add_2) (simp add: intention_inv_def)
  have "\<not> (\<exists>u<N. ((im_pc s)(t := ImReader)) u = ImWriter)"
  proof
    assume "\<exists>u<N. ((im_pc s)(t := ImReader)) u = ImWriter"
    then obtain u where "u < N" "im_pc s u = ImWriter" by (auto split: if_splits)
    then have "0 < im_intents N s" by (intro threads_in_pos) (auto simp: im_intent_def)
    with z show False by simp
  qed
  with m u z im_cas show ?case by (simp add: intention_inv_def im_share_def im_intent_def)
next
  case (im_prompt t s)
  show ?case
  proof (cases "im_l s AND 1 \<noteq> 0")
    case True
    then have "im_l s OR 1 = im_l s" by (simp add: and_1_odd odd_unat_iff or_one_eq)
    moreover have "(im_pc s)(t := ImReader) = im_pc s" using im_prompt(2) by (metis fun_upd_triv)
    ultimately show ?thesis using True im_prompt(4) by simp
  next
    case False
    then have z: "im_intents N s = 0" using intention_odd [OF im_prompt(4)] im_prompt(4) by (auto simp: intention_inv_def)
    have u: "unat (im_l s OR 1) = unat (im_l s) + 1" using False by (intro unat_or_1) (simp add: and_1_odd)
    have "\<not> (\<exists>u<N. ((im_pc s)(t := ImDrop)) u = ImWriter)"
    proof
      assume "\<exists>u<N. ((im_pc s)(t := ImDrop)) u = ImWriter"
      then obtain u where "u < N" "im_pc s u = ImWriter" by (auto split: if_splits)
      then have "0 < im_intents N s" by (intro threads_in_pos) (auto simp: im_intent_def)
      with z show False by simp
    qed
    with False u z im_prompt(4) show ?thesis
      using intention_move [OF im_prompt(1,2), of ImDrop] by (auto simp: intention_inv_def im_share_def im_intent_def)
  qed
next
  case (im_drop t s)
  have "0 < im_shares N s" using threads_in_pos [OF im_drop(1), of im_share "im_pc s"] im_drop(2) by (simp add: im_share_def)
  then have u: "unat (im_l s - 2) = unat (im_l s) - 2" "im_shares N s \<noteq> 0"
    using intention_sub [OF im_drop(4)] by simp_all
  then show ?case
    using intention_move [OF im_drop(1,2), of ImWait] intention_writer_upd [of N s t ImWait] im_drop(4)
    by (auto simp: intention_inv_def im_share_def im_intent_def)
next
  case (im_wait t s)
  then show ?case
    using intention_move [OF im_wait(1,2), of "if im_l s AND NOT 1 \<noteq> 0 then ImWait else ImWriter"]
      intention_writer_upd [of N s t ImWait] intention_high [OF im_wait(4)]
    by (simp add: intention_inv_def im_share_def im_intent_def split: if_splits)
next
  case (im_unlock t s)
  then have "im_shares N s = 0" "\<exists>t<N. im_pc s t = ImWriter" by (auto simp: intention_inv_def)
  moreover have "im_intents N s = 1"
    using threads_in_pos [OF im_unlock(1), of im_intent "im_pc s"] im_unlock(2,4) by (simp add: im_intent_def intention_inv_def)
  ultimately show ?case
    using intention_move [OF im_unlock(1,2), of ImIdle] by (simp add: intention_inv_def im_share_def im_intent_def)
next
  case (im_unlock_shared t s)
  have "0 < im_shares N s"
    using threads_in_pos [OF im_unlock_shared(1), of im_share "im_pc s"] im_unlock_shared(2) by (simp add: im_share_def)
  then have u: "unat (im_l s - 2) = unat (im_l s) - 2" "im_shares N s \<noteq> 0"
    using intention_sub [OF im_unlock_shared(4)] by simp_all
  then show ?case
    using intention_move [OF im_unlock_shared(1,2), of ImIdle] intention_writer_upd [of N s t ImIdle] im_unlock_shared(4)
    by (auto simp: intention_inv_def im_share_def im_intent_def)
qed

interpretation intention: lock_system intention_init
    "\<lambda>s s' :: ('w::len) word intention_state. intention_step N s s' \<and> 2 * N + 1 < 2 ^ LENGTH('w)"
    "intention_inv N" "\<lambda>s t. t < N \<and> im_pc s t = ImWriter" "\<lambda>s t. t < N \<and> im_pc s t = ImReader" for N
proof unfold_locales
  show "intention_inv N s" if "intention_init s" for s :: "'w word intention_state"
  proof -
    have "im_shares N s = 0" "im_intents N s = 0"
      using that threads_in_0 [of N im_share "im_pc s"] threads_in_0 [of N im_intent "im_pc s"]
      by (simp_all add: intention_init_def im_share_def im_intent_def)
    with that show ?thesis by (simp add: intention_init_def intention_inv_def)
  qed
  show "intention_inv N s'" if "intention_inv N s" "intention_step N s s' \<and> 2 * N + 1 < 2 ^ LENGTH('w)"
    for s s' :: "'w word intention_state"
    using that intention_step_inv by blast
  show "t = u" if "intention_inv N s" "t < N \<and> im_pc s t = ImWriter" "u < N \<and> im_pc s u = ImWriter"
    for s :: "'w word intention_state" and t u
    using that threads_in_1 [of N im_intent "im_pc s" t u] by (auto simp: intention_inv_def im_intent_def)
  show "\<not> (u < N \<and> im_pc s u = ImReader)" if "intention_inv N s" "t < N \<and> im_pc s t = ImWriter"
    for s :: "'w word intention_state" and t u
    using that threads_in_pos [of u N im_share "im_pc s"] by (auto simp: intention_inv_def im_share_def)
qed

section \<open>Exclusion\<close>

text \<open>Property C12: with \<open>N\<close> threads, \<open>2 N + 1 < 2 ^ w\<close>, the reader that \<open>try_lock_prompt\<close> promoted is
  alone: no other writer and no reader; from its \<open>fetch_or\<close> on no reader enters, and of several
  readers that ask at most one is promoted.\<close>

theorem intention_mutex_exclusion:
  fixes s0 s :: "('w::len) word intention_state"
  assumes "2 * N + 1 < 2 ^ LENGTH('w)" "intention_init s0" "(intention_step N)\<^sup>*\<^sup>* s0 s" "t < N" "u < N"
  shows "(im_pc s t = ImWriter \<longrightarrow> im_pc s u \<noteq> ImReader) \<and>
    (im_intent (im_pc s t) \<longrightarrow> im_intent (im_pc s u) \<longrightarrow> t = u) \<and>
    (im_intent (im_pc s t) \<longrightarrow> im_l s AND 1 \<noteq> 0)"
proof -
  have r: "(\<lambda>s s'. intention_step N s s' \<and> 2 * N + 1 < 2 ^ LENGTH('w))\<^sup>*\<^sup>* s0 s" using assms(1,3) by simp
  have i: "intention_inv N s" using intention.reach_inv [OF assms(2) r] .
  have "im_pc s t = ImWriter \<longrightarrow> im_pc s u \<noteq> ImReader"
    using intention.exclusion [OF assms(2) r, of t u] assms(4,5) by blast
  moreover have "im_intent (im_pc s t) \<longrightarrow> im_intent (im_pc s u) \<longrightarrow> t = u"
    using i threads_in_1 [of N im_intent "im_pc s" t u] assms(4,5) by (auto simp: intention_inv_def)
  moreover have "im_intents N s = 1" if "im_intent (im_pc s t)"
    using threads_in_pos [OF assms(4), of im_intent "im_pc s"] that i by (auto simp: intention_inv_def)
  ultimately show ?thesis using intention_odd [OF i] by blast
qed

section \<open>Runs\<close>

text \<open>A thread that enters as a reader while nobody intends to write.\<close>

lemma intention_enter:
  assumes "t < N" "im_pc s t = ImIdle" "im_l s AND 1 = 0"
  shows "(intention_step N)\<^sup>*\<^sup>* s (s\<lparr>im_l := im_l s + 2, im_pc := (im_pc s)(t := ImReader)\<rparr>)"
proof -
  let ?s = "s\<lparr>im_pc := (im_pc s)(t := ImTry (im_l s))\<rparr>"
  have "intention_step N s ?s" using assms(1,2) by (rule intention_step.im_load)
  moreover have "intention_step N ?s (s\<lparr>im_l := im_l s + 2, im_pc := (im_pc s)(t := ImReader)\<rparr>)"
    using intention_step.im_cas [of t N ?s "im_l s"] assms(1,3) by simp
  ultimately show ?thesis by (meson converse_rtranclp_into_rtranclp r_into_rtranclp)
qed

text \<open>A promotion that finds no other reader in the word.\<close>

lemma intention_promote:
  assumes "t < N" "im_pc s t = ImReader" "im_l s AND 1 = 0" "((im_l s OR 1) - 2) AND NOT 1 = 0"
  shows "(intention_step N)\<^sup>*\<^sup>* s (s\<lparr>im_l := (im_l s OR 1) - 2, im_pc := (im_pc s)(t := ImWriter)\<rparr>)"
proof -
  let ?s1 = "s\<lparr>im_l := im_l s OR 1, im_pc := (im_pc s)(t := ImDrop)\<rparr>"
  let ?s2 = "s\<lparr>im_l := (im_l s OR 1) - 2, im_pc := (im_pc s)(t := ImWait)\<rparr>"
  have "intention_step N s ?s1" using intention_step.im_prompt [OF assms(1,2)] assms(3) by simp
  moreover have "intention_step N ?s1 ?s2" using intention_step.im_drop [of t N ?s1] assms(1) by simp
  moreover have "intention_step N ?s2 (s\<lparr>im_l := (im_l s OR 1) - 2, im_pc := (im_pc s)(t := ImWriter)\<rparr>)"
    using intention_step.im_wait [of t N ?s2] assms(1,4) by simp
  ultimately show ?thesis by (meson converse_rtranclp_into_rtranclp r_into_rtranclp)
qed

lemma intention_mutex_exclusion_witness:
  "\<exists>s :: 8 word intention_state. im_pc s 1 = ImWriter \<and> im_pc s 0 = ImIdle \<and> im_pc s 2 \<noteq> ImReader \<and> im_l s AND 1 \<noteq> 0"
proof -
  let ?s0 = "\<lparr>im_l = 0, im_pc = \<lambda>_. ImIdle\<rparr> :: 8 word intention_state"
  let ?s1 = "\<lparr>im_l = 2, im_pc = (\<lambda>_. ImIdle)(0 := ImReader)\<rparr> :: 8 word intention_state"
  let ?s2 = "\<lparr>im_l = 4, im_pc = (\<lambda>_. ImIdle)(0 := ImReader, 1 := ImReader)\<rparr> :: 8 word intention_state"
  let ?s3 = "\<lparr>im_l = 2, im_pc = (\<lambda>_. ImIdle)(0 := ImIdle, 1 := ImReader)\<rparr> :: 8 word intention_state"
  let ?s4 = "\<lparr>im_l = 1, im_pc = (\<lambda>_. ImIdle)(0 := ImIdle, 1 := ImWriter)\<rparr> :: 8 word intention_state"
  have i: "intention_init ?s0" by (simp add: intention_init_def)
  have "(intention_step 3)\<^sup>*\<^sup>* ?s0 ?s1" using intention_enter [of 0 3 ?s0] by simp
  moreover have "(intention_step 3)\<^sup>*\<^sup>* ?s1 ?s2" using intention_enter [of 1 3 ?s1] by simp
  moreover have "(intention_step 3)\<^sup>*\<^sup>* ?s2 ?s3"
    using intention_step.im_unlock_shared [of 0 3 ?s2] by (simp add: fun_upd_twist r_into_rtranclp)
  moreover have "(intention_step 3)\<^sup>*\<^sup>* ?s3 ?s4"
    using intention_promote [of 1 3 ?s3] by simp
  ultimately have r: "(intention_step 3)\<^sup>*\<^sup>* ?s0 ?s4" by (meson rtranclp_trans)
  have b: "2 * 3 + 1 < (2 :: nat) ^ LENGTH(8)" "(1 :: nat) < 3" "(2 :: nat) < 3" by simp_all
  from intention_mutex_exclusion [OF b(1) i r b(2,3)]
  show ?thesis by (intro exI [of _ ?s4]) (auto simp: im_intent_def)
qed

text \<open>The bound on the threads is needed: with \<open>2 ^ (w - 1) + 1\<close> readers the count in the word is that of one reader, and
  the thread that asks for the promotion does not wait for the others.\<close>

lemma intention_readers:
  assumes "intention_init s0" "n \<le> N"
  shows "\<exists>s :: ('w::len) word intention_state. (intention_step N)\<^sup>*\<^sup>* s0 s \<and> im_l s = of_nat (2 * n) \<and>
    (\<forall>t<n. im_pc s t = ImReader) \<and> (\<forall>t\<ge>n. im_pc s t = ImIdle)"
  using assms(2)
proof (induction n)
  case 0
  show ?case using assms(1) by (intro exI [of _ s0]) (simp add: intention_init_def)
next
  case (Suc n)
  then obtain s :: "'w word intention_state" where s: "(intention_step N)\<^sup>*\<^sup>* s0 s" "im_l s = of_nat (2 * n)"
    "\<forall>t<n. im_pc s t = ImReader" "\<forall>t\<ge>n. im_pc s t = ImIdle" by auto
  have "im_l s AND 1 = 0" unfolding s(2) and_one_eq by (simp add: even_iff_mod_2_eq_zero [symmetric])
  then have "(intention_step N)\<^sup>*\<^sup>* s (s\<lparr>im_l := im_l s + 2, im_pc := (im_pc s)(n := ImReader)\<rparr>)"
    using s(4) Suc.prems by (intro intention_enter) simp_all
  with s show ?case
    by (intro exI [of _ "s\<lparr>im_l := im_l s + 2, im_pc := (im_pc s)(n := ImReader)\<rparr>"]) (auto simp: less_Suc_eq)
qed

theorem intention_reader_overflow:
  fixes s0 :: "('w::len) word intention_state"
  assumes "intention_init s0" "2 ^ (LENGTH('w) - 1) < N"
  shows "\<exists>s. (intention_step N)\<^sup>*\<^sup>* s0 s \<and> im_pc s 0 = ImWriter \<and> (\<forall>t. 1 \<le> t \<longrightarrow> t \<le> 2 ^ (LENGTH('w) - 1) \<longrightarrow> im_pc s t = ImReader)"
proof -
  let ?n = "2 ^ (LENGTH('w) - 1) :: nat"
  obtain s :: "'w word intention_state" where s: "(intention_step N)\<^sup>*\<^sup>* s0 s" "im_l s = of_nat (2 * Suc ?n)"
      "\<forall>t<Suc ?n. im_pc s t = ImReader"
    using intention_readers [OF assms(1), of "Suc ?n" N] assms(2) by auto
  have "2 * ?n = 2 ^ LENGTH('w)" by (metis len_gt_0 power_eq_if not_less_zero)
  then have z: "of_nat (2 * ?n) = (0 :: 'w word)" by (simp add: word_unat_eq_iff unat_of_nat)
  have "im_l s = of_nat (2 * ?n) + 2" using s(2) by simp
  then have l: "im_l s = 2" unfolding z by simp
  let ?s = "s\<lparr>im_l := (im_l s OR 1) - 2, im_pc := (im_pc s)(0 := ImWriter)\<rparr>"
  have "(intention_step N)\<^sup>*\<^sup>* s ?s" using s(3) l assms(2) by (intro intention_promote) simp_all
  with s show ?thesis by (intro exI [of _ ?s]) (auto intro: rtranclp_trans)
qed

lemma intention_reader_overflow_witness:
  "\<exists>s :: 8 word intention_state. im_pc s 0 = ImWriter \<and> im_pc s 128 = ImReader"
proof -
  have i: "intention_init (\<lparr>im_l = 0, im_pc = \<lambda>_. ImIdle\<rparr> :: 8 word intention_state)" by (simp add: intention_init_def)
  have "(2 :: nat) ^ (LENGTH(8) - 1) < 200" by simp
  from intention_reader_overflow [OF i this] show ?thesis by force
qed

end
