(* ===== verification/Tcq.thy ===== *)
theory Tcq
  imports Spin_Mutex Shared_Mutex
begin

text \<open>
  \<open>TCQueue<Task, Result>\<close> of tcq.h used by \<open>N\<close> threads: \<open>task_enqueue\<close> as a step relation, one access
  to a shared variable per step, sequentially consistent. The thread that gets \<open>en_lck\<close> leads a batch:
  it sets the queue up, waits until it is full or the time is over, closes it and hands the tasks to
  \<open>hook_batch_collection\<close>; the others enter their task as followers while the queue is valid.
  \<open>en_lck\<close> and \<open>wlck\<close> are the locks of \<open>Spin_Mutex\<close> and \<open>Shared_Mutex\<close> at 8 bits: a lock operation
  of a thread is a step of the lock.
\<close>

section \<open>The queues\<close>

text \<open>\<open>uid_queue\<close>, \<open>task_queue\<close> and \<open>pro_queue\<close>. A promise is named by the number of the call of
  \<open>task_enqueue\<close> that made it; None is the promise a fresh vector element holds.\<close>

record 't queues =
  q_uids :: "u64 list"
  q_tasks :: "'t list"
  q_pros :: "nat option list"

definition no_queues :: "'t queues" where
  "no_queues = \<lparr>q_uids = [], q_tasks = [], q_pros = []\<rparr>"

definition fresh_queues :: "'t \<Rightarrow> u32 \<Rightarrow> 't queues" where
  "fresh_queues T0 M = \<lparr>q_uids = replicate (unat M) 0, q_tasks = replicate (unat M) T0, q_pros = replicate (unat M) None\<rparr>"

text \<open>\<open>std::vector::resize\<close>.\<close>

definition resize :: "nat \<Rightarrow> 'b \<Rightarrow> 'b list \<Rightarrow> 'b list" where
  "resize n x xs = take n xs @ replicate (n - length xs) x"

definition resize_queues :: "'t \<Rightarrow> nat \<Rightarrow> 't queues \<Rightarrow> 't queues" where
  "resize_queues T0 n q = \<lparr>q_uids = resize n 0 (q_uids q), q_tasks = resize n T0 (q_tasks q), q_pros = resize n None (q_pros q)\<rparr>"

text \<open>The three assignments \<open>uid_queue[idx] = uid\<close>, \<open>task_queue[idx] = task\<close>, \<open>pro_queue[idx] = pro\<close>.\<close>

datatype queue_part = PUid | PTask | PPro

fun next_part :: "queue_part \<Rightarrow> queue_part option" where
  "next_part PUid = Some PTask"
| "next_part PTask = Some PPro"
| "next_part PPro = None"

fun write_part :: "queue_part \<Rightarrow> nat \<Rightarrow> nat \<Rightarrow> u64 \<times> 't \<Rightarrow> 't queues \<Rightarrow> 't queues" where
  "write_part PUid i k (u, x) q = q\<lparr>q_uids := (q_uids q)[i := u]\<rparr>"
| "write_part PTask i k (u, x) q = q\<lparr>q_tasks := (q_tasks q)[i := x]\<rparr>"
| "write_part PPro i k (u, x) q = q\<lparr>q_pros := (q_pros q)[i := Some k]\<rparr>"

fun part_length :: "queue_part \<Rightarrow> 't queues \<Rightarrow> nat" where
  "part_length PUid q = length (q_uids q)"
| "part_length PTask q = length (q_tasks q)"
| "part_length PPro q = length (q_pros q)"

section \<open>Control points and state\<close>

text \<open>
  The control points of \<open>task_enqueue\<close>; \<open>k\<close> is the call. Both branches fill their slot and
  confirm; the flag of \<open>TqFill\<close> and \<open>TqConf\<close> tells the leader from a follower.
\<close>

datatype tcq_pc =
    TqIdle
  | TqTry nat                \<comment> \<open>retry: en_lck.try_lock()\<close>
  | TqInit nat               \<comment> \<open>leader: queue_cnt.store(0)\<close>
  | TqInit2 nat              \<comment> \<open>queue_try_cnt.store(0)\<close>
  | TqSwap nat               \<comment> \<open>the vectors are swapped in\<close>
  | TqVer nat                \<comment> \<open>++queue_ver\<close>
  | TqLReady nat             \<comment> \<open>enqueue_ready()\<close>
  | TqOpen nat u32           \<comment> \<open>queue_valid = true\<close>
  | TqFill bool queue_part nat u32
  | TqConf bool nat          \<comment> \<open>enqueue_confirm()\<close>
  | TqPoll nat               \<comment> \<open>the polling loop\<close>
  | TqClose nat              \<comment> \<open>queue_valid = false\<close>
  | TqWlock nat              \<comment> \<open>wlck.lock()\<close>
  | TqWunl nat               \<comment> \<open>wlck.unlock()\<close>
  | TqLen nat                \<comment> \<open>len = queue_try_cnt.load()\<close>
  | TqTake nat u32           \<comment> \<open>the vectors are swapped out\<close>
  | TqUnlock nat u32         \<comment> \<open>en_lck.unlock()\<close>
  | TqHook nat u32           \<comment> \<open>resize, hook_batch_collection\<close>
  | TqFol nat                \<comment> \<open>follower: first test of queue_valid\<close>
  | TqWl nat                 \<comment> \<open>wlck.lock_shared()\<close>
  | TqIn nat                 \<comment> \<open>second test of queue_valid\<close>
  | TqRet nat                \<comment> \<open>wlck.unlock_shared(); goto retry\<close>
  | TqReady nat              \<comment> \<open>enqueue_ready()\<close>
  | TqFull nat               \<comment> \<open>_ver = queue_ver\<close>
  | TqUnl nat u8             \<comment> \<open>wlck.unlock_shared()\<close>
  | TqWait nat u8            \<comment> \<open>while (queue_valid ...\<close>
  | TqWaitVer nat u8         \<comment> \<open>... && _ver == queue_ver)\<close>
  | TqLeave                  \<comment> \<open>wlck.unlock_shared(); return fu\<close>

text \<open>
  \<open>tq_loc\<close> are the local vectors of a leader. History: \<open>tq_calls\<close> lists the arguments of all calls,
  \<open>tq_log\<close> the batches given to the hook, \<open>tq_failed\<close> the threads that found the current queue full.
  \<open>tq_ub\<close> records an access outside a vector.
\<close>

record 't tcq_state =
  tq_en :: "u8 spin_state"
  tq_wl :: "u8 shared_state"
  tq_valid :: bool
  tq_ver :: u8
  tq_cnt :: u32
  tq_try_cnt :: u32
  tq_q :: "'t queues"
  tq_loc :: "nat \<Rightarrow> 't queues"
  tq_pc :: "nat \<Rightarrow> tcq_pc"
  tq_calls :: "(u64 \<times> 't) list"
  tq_log :: "'t queues list"
  tq_failed :: "nat set"
  tq_ub :: bool

definition tcq_init :: "'t tcq_state \<Rightarrow> bool" where
  "tcq_init s \<longleftrightarrow> spin_init (tq_en s) \<and> shared_init (tq_wl s) \<and> \<not> tq_valid s \<and> tq_q s = no_queues \<and>
     tq_loc s = (\<lambda>_. no_queues) \<and> tq_pc s = (\<lambda>_. TqIdle) \<and> tq_calls s = [] \<and> tq_log s = [] \<and>
     tq_failed s = {} \<and> \<not> tq_ub s"

abbreviation goto :: "nat \<Rightarrow> tcq_pc \<Rightarrow> 't tcq_state \<Rightarrow> 't tcq_state" where
  "goto t c s \<equiv> s\<lparr>tq_pc := (tq_pc s)(t := c)\<rparr>"

text \<open>\<open>en_move t a b l l'\<close>, \<open>wl_move t a b l l'\<close>: thread \<open>t\<close> makes a step of the lock from \<open>a\<close> to \<open>b\<close>.\<close>

definition en_move :: "nat \<Rightarrow> spin_pc \<Rightarrow> spin_pc \<Rightarrow> u8 spin_state \<Rightarrow> u8 spin_state \<Rightarrow> bool" where
  "en_move t a b l l' \<longleftrightarrow> spin_step l l' \<and> spin_pc l t = a \<and> spin_pc l' = (spin_pc l)(t := b)"

definition wl_move :: "nat \<Rightarrow> nat \<Rightarrow> shared_pc \<Rightarrow> shared_pc \<Rightarrow> u8 shared_state \<Rightarrow> u8 shared_state \<Rightarrow> bool" where
  "wl_move N t a b l l' \<longleftrightarrow> shared_step N l l' \<and> sh_pc l t = a \<and> sh_pc l' = (sh_pc l)(t := b)"

text \<open>\<open>enqueue_ready\<close>: the serial number, or \<open>-1\<close> when the queue is full.\<close>

definition ready_idx :: "u32 \<Rightarrow> u32 \<Rightarrow> u32" where
  "ready_idx M cnt = (if M \<le> cnt then - 1 else cnt)"

definition enqueue_confirm :: "u32 \<Rightarrow> u32" where
  [simp]: "enqueue_confirm c = c + 1"

section \<open>Steps\<close>

text \<open>One step of thread \<open>t\<close>.\<close>

inductive tcq_thread :: "nat \<Rightarrow> u32 \<Rightarrow> 't \<Rightarrow> nat \<Rightarrow> 't tcq_state \<Rightarrow> 't tcq_state \<Rightarrow> bool" for N M T0 t where
  tq_call: "tcq_thread N M T0 t s (goto t (TqTry (length (tq_calls s))) (s\<lparr>tq_calls := tq_calls s @ [(u, x)]\<rparr>))"
    if "tq_pc s t = TqIdle"
| tq_try_load: "tcq_thread N M T0 t s (s\<lparr>tq_en := e\<rparr>)"
    if "tq_pc s t = TqTry k" "en_move t SpinIdle (SpinSeen 0) (tq_en s) e"
| tq_try_busy: "tcq_thread N M T0 t s (goto t (TqFol k) s)"
    if "tq_pc s t = TqTry k" "spin_pc (tq_en s) t = SpinIdle" "check_lock (spin_l (tq_en s)) 0"
| tq_try_win: "tcq_thread N M T0 t s (goto t (TqInit k) (s\<lparr>tq_en := e\<rparr>))"
    if "tq_pc s t = TqTry k" "en_move t (SpinSeen 0) (SpinHold 0) (tq_en s) e"
| tq_try_lose: "tcq_thread N M T0 t s (goto t (TqFol k) (s\<lparr>tq_en := e\<rparr>))"
    if "tq_pc s t = TqTry k" "en_move t (SpinSeen 0) SpinIdle (tq_en s) e"
  \<comment> \<open>the leader\<close>
| tq_init: "tcq_thread N M T0 t s (goto t (TqInit2 k) (s\<lparr>tq_cnt := 0, tq_failed := {}\<rparr>))"
    if "tq_pc s t = TqInit k"
| tq_init2: "tcq_thread N M T0 t s (goto t (TqSwap k) (s\<lparr>tq_try_cnt := 0\<rparr>))"
    if "tq_pc s t = TqInit2 k"
| tq_swap: "tcq_thread N M T0 t s (goto t (TqVer k) (s\<lparr>tq_q := fresh_queues T0 M, tq_loc := (tq_loc s)(t := tq_q s)\<rparr>))"
    if "tq_pc s t = TqSwap k"
| tq_incver: "tcq_thread N M T0 t s (goto t (TqLReady k) (s\<lparr>tq_ver := tq_ver s + 1\<rparr>))"
    if "tq_pc s t = TqVer k"
| tq_lready: "tcq_thread N M T0 t s (goto t (TqOpen k (ready_idx M (tq_cnt s))) (s\<lparr>tq_cnt := tq_cnt s + 1\<rparr>))"
    if "tq_pc s t = TqLReady k"
| tq_open: "tcq_thread N M T0 t s (goto t (TqFill True PUid k i) (s\<lparr>tq_valid := True\<rparr>))"
    if "tq_pc s t = TqOpen k i"
| tq_poll: "tcq_thread N M T0 t s (goto t (TqClose k) s)"
    if "tq_pc s t = TqPoll k" \<comment> \<open>the time may be over at any moment\<close>
| tq_close: "tcq_thread N M T0 t s (goto t (TqWlock k) (s\<lparr>tq_valid := False\<rparr>))"
    if "tq_pc s t = TqClose k"
| tq_wlock: "tcq_thread N M T0 t s (goto t (TqWunl k) (s\<lparr>tq_wl := l\<rparr>))"
    if "tq_pc s t = TqWlock k" "wl_move N t ShIdle ShWriter (tq_wl s) l"
| tq_wunlock: "tcq_thread N M T0 t s (goto t (TqLen k) (s\<lparr>tq_wl := l\<rparr>))"
    if "tq_pc s t = TqWunl k" "wl_move N t ShWriter ShIdle (tq_wl s) l"
| tq_len: "tcq_thread N M T0 t s (goto t (TqTake k (tq_try_cnt s)) s)"
    if "tq_pc s t = TqLen k"
| tq_take: "tcq_thread N M T0 t s (goto t (TqUnlock k n) (s\<lparr>tq_q := tq_loc s t, tq_loc := (tq_loc s)(t := tq_q s)\<rparr>))"
    if "tq_pc s t = TqTake k n"
| tq_unlock: "tcq_thread N M T0 t s (goto t (TqHook k n) (s\<lparr>tq_en := e\<rparr>))"
    if "tq_pc s t = TqUnlock k n" "en_move t (SpinHold 0) SpinIdle (tq_en s) e"
| tq_hook: "tcq_thread N M T0 t s (goto t TqIdle
      (s\<lparr>tq_loc := (tq_loc s)(t := no_queues), tq_log := tq_log s @ [resize_queues T0 (unat n) (tq_loc s t)]\<rparr>))"
    if "tq_pc s t = TqHook k n"
  \<comment> \<open>a follower\<close>
| tq_fol: "tcq_thread N M T0 t s (goto t (if tq_valid s then TqWl k else TqTry k) s)"
    if "tq_pc s t = TqFol k"
| tq_wl_wait: "tcq_thread N M T0 t s (s\<lparr>tq_wl := l\<rparr>)"
    if "tq_pc s t = TqWl k" "wl_move N t ShIdle ShWait (tq_wl s) l \<or> wl_move N t ShWait ShWait (tq_wl s) l"
| tq_wl_in: "tcq_thread N M T0 t s (goto t (TqIn k) (s\<lparr>tq_wl := l\<rparr>))"
    if "tq_pc s t = TqWl k" "wl_move N t ShIdle ShReader (tq_wl s) l \<or> wl_move N t ShWait ShReader (tq_wl s) l"
| tq_in: "tcq_thread N M T0 t s (goto t (if tq_valid s then TqReady k else TqRet k) s)"
    if "tq_pc s t = TqIn k"
| tq_ret: "tcq_thread N M T0 t s (goto t (TqTry k) (s\<lparr>tq_wl := l\<rparr>))"
    if "tq_pc s t = TqRet k" "wl_move N t ShReader ShIdle (tq_wl s) l"
| tq_ready: "tcq_thread N M T0 t s (goto t (TqFill False PUid k (ready_idx M (tq_cnt s))) (s\<lparr>tq_cnt := tq_cnt s + 1\<rparr>))"
    if "tq_pc s t = TqReady k" "ready_idx M (tq_cnt s) \<noteq> - 1"
| tq_ready_full: "tcq_thread N M T0 t s (goto t (TqFull k) (s\<lparr>tq_cnt := tq_cnt s + 1, tq_failed := insert t (tq_failed s)\<rparr>))"
    if "tq_pc s t = TqReady k" "ready_idx M (tq_cnt s) = - 1"
| tq_full: "tcq_thread N M T0 t s (goto t (TqUnl k (tq_ver s)) s)"
    if "tq_pc s t = TqFull k"
| tq_unl: "tcq_thread N M T0 t s (goto t (TqWait k v) (s\<lparr>tq_wl := l\<rparr>))"
    if "tq_pc s t = TqUnl k v" "wl_move N t ShReader ShIdle (tq_wl s) l"
| tq_wait: "tcq_thread N M T0 t s (goto t (if tq_valid s then TqWaitVer k v else TqTry k) s)"
    if "tq_pc s t = TqWait k v"
| tq_wait_ver: "tcq_thread N M T0 t s (goto t (if v = tq_ver s then TqWait k v else TqTry k) s)"
    if "tq_pc s t = TqWaitVer k v"
| tq_leave: "tcq_thread N M T0 t s (goto t TqIdle (s\<lparr>tq_wl := l\<rparr>))"
    if "tq_pc s t = TqLeave" "wl_move N t ShReader ShIdle (tq_wl s) l"
  \<comment> \<open>both\<close>
| tq_fill: "tcq_thread N M T0 t s (goto t (case next_part p of Some p' \<Rightarrow> TqFill lead p' k i | None \<Rightarrow> TqConf lead k)
      (s\<lparr>tq_q := write_part p (unat i) k (tq_calls s ! k) (tq_q s)\<rparr>))"
    if "tq_pc s t = TqFill lead p k i" "unat i < part_length p (tq_q s)"
| tq_fill_out: "tcq_thread N M T0 t s (s\<lparr>tq_ub := True\<rparr>)"
    if "tq_pc s t = TqFill lead p k i" "\<not> unat i < part_length p (tq_q s)"
| tq_confirm: "tcq_thread N M T0 t s (goto t (if lead then TqPoll k else TqLeave) (s\<lparr>tq_try_cnt := enqueue_confirm (tq_try_cnt s)\<rparr>))"
    if "tq_pc s t = TqConf lead k"

definition tcq_step :: "nat \<Rightarrow> u32 \<Rightarrow> 't \<Rightarrow> 't tcq_state \<Rightarrow> 't tcq_state \<Rightarrow> bool" where
  "tcq_step N M T0 s s' \<longleftrightarrow> (\<exists>t<N. tcq_thread N M T0 t s s')"

end
