(* ===== verification/Tcq_Control.thy ===== *)
theory Tcq_Control
  imports Tcq
begin

text \<open>
  Who is where in \<open>task_enqueue\<close>: the two locks hold what the control points say, the queue is valid
  exactly while a leader is between opening and closing it, and a follower that passed the second test of
  \<open>queue_valid\<close> keeps the leader before the end of its \<open>wlck.lock()\<close>.
\<close>

section \<open>Classes of control points\<close>

fun tq_lead :: "tcq_pc \<Rightarrow> bool" where
  "tq_lead (TqInit _) = True" | "tq_lead (TqInit2 _) = True" | "tq_lead (TqSwap _) = True"
| "tq_lead (TqVer _) = True" | "tq_lead (TqLReady _) = True" | "tq_lead (TqOpen _ _) = True"
| "tq_lead (TqFill l _ _ _) = l" | "tq_lead (TqConf l _) = l" | "tq_lead (TqPoll _) = True"
| "tq_lead (TqClose _) = True" | "tq_lead (TqWlock _) = True" | "tq_lead (TqWunl _) = True"
| "tq_lead (TqLen _) = True" | "tq_lead (TqTake _ _) = True" | "tq_lead (TqUnlock _ _) = True"
| "tq_lead _ = False"

fun tq_reader :: "tcq_pc \<Rightarrow> bool" where
  "tq_reader (TqIn _) = True" | "tq_reader (TqRet _) = True" | "tq_reader (TqReady _) = True"
| "tq_reader (TqFull _) = True" | "tq_reader (TqUnl _ _) = True" | "tq_reader (TqFill l _ _ _) = (\<not> l)"
| "tq_reader (TqConf l _) = (\<not> l)" | "tq_reader TqLeave = True" | "tq_reader _ = False"

fun tq_inside :: "tcq_pc \<Rightarrow> bool" where
  "tq_inside (TqReady _) = True" | "tq_inside (TqFull _) = True" | "tq_inside (TqUnl _ _) = True"
| "tq_inside (TqFill l _ _ _) = (\<not> l)" | "tq_inside (TqConf l _) = (\<not> l)" | "tq_inside _ = False"

fun tq_lopen :: "tcq_pc \<Rightarrow> bool" where
  "tq_lopen (TqFill l _ _ _) = l" | "tq_lopen (TqConf l _) = l" | "tq_lopen (TqPoll _) = True"
| "tq_lopen (TqClose _) = True" | "tq_lopen _ = False"

fun tq_closing :: "tcq_pc \<Rightarrow> bool" where
  "tq_closing (TqWlock _) = True" | "tq_closing c = tq_lopen c"

fun en_ok :: "tcq_pc \<Rightarrow> spin_pc \<Rightarrow> bool" where
  "en_ok (TqTry _) e \<longleftrightarrow> e = SpinIdle \<or> e = SpinSeen 0"
| "en_ok c e \<longleftrightarrow> e = (if tq_lead c then SpinHold 0 else SpinIdle)"

fun wl_ok :: "tcq_pc \<Rightarrow> shared_pc \<Rightarrow> bool" where
  "wl_ok (TqWl _) w \<longleftrightarrow> w = ShIdle \<or> w = ShWait"
| "wl_ok (TqWunl _) w \<longleftrightarrow> w = ShWriter"
| "wl_ok c w \<longleftrightarrow> w = (if tq_reader c then ShReader else ShIdle)"

lemma en_ok_lead: "en_ok c e \<Longrightarrow> tq_lead c \<Longrightarrow> e = SpinHold 0"
  by (cases c) auto

lemma wl_ok_reader: "wl_ok c w \<Longrightarrow> tq_reader c \<Longrightarrow> w = ShReader"
  by (cases c) auto

lemma inside_reader: "tq_inside c \<Longrightarrow> tq_reader c"
  by (cases c) auto

lemma closing_lead: "tq_closing c \<Longrightarrow> tq_lead c"
  by (cases c) auto

lemma lopen_closing: "tq_lopen c \<Longrightarrow> tq_closing c"
  by (cases c) auto

lemma lead_not_inside: "tq_lead c \<Longrightarrow> \<not> tq_inside c"
  by (cases c) auto

section \<open>The control invariant\<close>

definition tcq_ctrl :: "nat \<Rightarrow> 't tcq_state \<Rightarrow> bool" where
  "tcq_ctrl N s \<longleftrightarrow> spin_inv (tq_en s) \<and> shared_inv N (tq_wl s) \<and> (\<forall>t. N \<le> t \<longrightarrow> tq_pc s t = TqIdle) \<and>
     (\<forall>t. en_ok (tq_pc s t) (spin_pc (tq_en s) t)) \<and> (\<forall>t. wl_ok (tq_pc s t) (sh_pc (tq_wl s) t)) \<and>
     (\<forall>t. tq_lopen (tq_pc s t) \<longrightarrow> tq_valid s) \<and> (tq_valid s \<longrightarrow> (\<exists>t. tq_lopen (tq_pc s t))) \<and>
     (\<forall>t. tq_inside (tq_pc s t) \<longrightarrow> (\<exists>u. tq_closing (tq_pc s u)))"

lemma tcq_ctrlD:
  assumes "tcq_ctrl N s"
  shows "spin_inv (tq_en s)" "shared_inv N (tq_wl s)" "N \<le> t \<Longrightarrow> tq_pc s t = TqIdle"
    "en_ok (tq_pc s t) (spin_pc (tq_en s) t)" "wl_ok (tq_pc s t) (sh_pc (tq_wl s) t)"
    "tq_lopen (tq_pc s t) \<Longrightarrow> tq_valid s" "tq_valid s \<Longrightarrow> \<exists>t. tq_lopen (tq_pc s t)"
    "tq_inside (tq_pc s t) \<Longrightarrow> \<exists>u. tq_closing (tq_pc s u)"
  using assms by (auto simp: tcq_ctrl_def)

lemma one_leader:
  assumes "tcq_ctrl N s" "tq_lead (tq_pc s t)" "tq_lead (tq_pc s u)"
  shows "t = u"
proof -
  have "spin_pc (tq_en s) t = SpinHold 0" "spin_pc (tq_en s) u = SpinHold 0"
    using assms en_ok_lead tcq_ctrlD(4) [OF assms(1)] by blast+
  then show ?thesis using tcq_ctrlD(1) [OF assms(1)] unfolding spin_inv_def by (metis len_gt_0)
qed

text \<open>A leader past its \<open>wlck.lock()\<close> has no follower inside.\<close>

lemma no_inside:
  assumes "tcq_ctrl N s" "tq_lead (tq_pc s t)" "\<not> tq_closing (tq_pc s t)"
  shows "\<not> tq_inside (tq_pc s u)"
  using tcq_ctrlD(8) [OF assms(1)] one_leader [OF assms(1,2)] closing_lead assms(3) by blast

lemma inside_closing:
  assumes "tcq_ctrl N s" "tq_inside (tq_pc s u)" "tq_lead (tq_pc s t)"
  shows "tq_closing (tq_pc s t)"
  using no_inside assms by blast

lemma ex_upd: "\<exists>u. P (f u) \<Longrightarrow> (P (f t) \<Longrightarrow> P c) \<Longrightarrow> \<exists>u. P ((f(t := c)) u)"
  by (metis fun_upd_apply)


section \<open>Every step keeps it\<close>

lemma step_locks:
  assumes "tcq_thread N M T0 t s s'"
  shows "tq_en s' = tq_en s \<or> spin_step (tq_en s) (tq_en s')"
    and "tq_wl s' = tq_wl s \<or> shared_step N (tq_wl s) (tq_wl s')"
  using assms by (cases; auto simp: en_move_def wl_move_def)+

text \<open>A step leaves the other threads where they are.\<close>

lemma step_others:
  assumes "tcq_thread N M T0 t s s'" "u \<noteq> t"
  shows "tq_pc s' u = tq_pc s u" "spin_pc (tq_en s') u = spin_pc (tq_en s) u"
    "sh_pc (tq_wl s') u = sh_pc (tq_wl s) u" "tq_loc s' u = tq_loc s u"
  using assms by (cases; auto simp: en_move_def wl_move_def)+

lemma step_en_ok:
  assumes "tcq_thread N M T0 t s s'" "en_ok (tq_pc s t) (spin_pc (tq_en s) t)"
  shows "en_ok (tq_pc s' t) (spin_pc (tq_en s') t)"
  using assms by (cases; auto simp: en_move_def split: option.splits)

lemma step_wl_ok:
  assumes "tcq_thread N M T0 t s s'" "wl_ok (tq_pc s t) (sh_pc (tq_wl s) t)"
  shows "wl_ok (tq_pc s' t) (sh_pc (tq_wl s') t)"
  using assms by (cases; auto simp: wl_move_def split: option.splits)

lemma step_lopen:
  assumes "tcq_thread N M T0 t s s'"
  shows "tq_lopen (tq_pc s' t) \<Longrightarrow> (tq_lopen (tq_pc s t) \<Longrightarrow> tq_valid s) \<Longrightarrow> tq_valid s'"
    and "tq_valid s' \<Longrightarrow> tq_lopen (tq_pc s' t) \<or> tq_valid s \<and> \<not> tq_lopen (tq_pc s t)"
    and "tq_valid s' \<noteq> tq_valid s \<Longrightarrow> tq_lead (tq_pc s t)"
  using assms by (cases; auto split: option.splits if_splits)+

lemma step_inside:
  assumes "tcq_thread N M T0 t s s'" "tq_inside (tq_pc s' t)"
  shows "tq_inside (tq_pc s t) \<or> tq_valid s"
  using assms by (cases; auto split: option.splits if_splits)

lemma step_closing:
  assumes "tcq_thread N M T0 t s s'" "tq_closing (tq_pc s t)"
  shows "tq_closing (tq_pc s' t) \<or> sh_pc (tq_wl s') t = ShWriter"
  using assms by (cases; auto simp: wl_move_def split: option.splits if_splits)

lemma tcq_ctrl_locks:
  assumes "tcq_ctrl N s" "t < N" "2 * N + 1 < 256" "tcq_thread N M T0 t s s'"
  shows "spin_inv (tq_en s')" "shared_inv N (tq_wl s')" "\<forall>u. N \<le> u \<longrightarrow> tq_pc s' u = TqIdle"
    "\<forall>u. en_ok (tq_pc s' u) (spin_pc (tq_en s') u)" "\<forall>u. wl_ok (tq_pc s' u) (sh_pc (tq_wl s') u)"
proof -
  show "spin_inv (tq_en s')"
    using step_locks(1) [OF assms(4)] tcq_ctrlD(1) [OF assms(1)] spin_step_inv by metis
  show "shared_inv N (tq_wl s')"
    using step_locks(2) [OF assms(4)] tcq_ctrlD(2) [OF assms(1)] shared_step_inv [of N "tq_wl s" "tq_wl s'"] assms(3) by auto
  show "\<forall>u. N \<le> u \<longrightarrow> tq_pc s' u = TqIdle"
    using step_others(1) [OF assms(4)] tcq_ctrlD(3) [OF assms(1)] assms(2) by (metis not_le)
  show "\<forall>u. en_ok (tq_pc s' u) (spin_pc (tq_en s') u)"
    using step_en_ok [OF assms(4)] step_others [OF assms(4)] tcq_ctrlD(4) [OF assms(1)] by metis
  show "\<forall>u. wl_ok (tq_pc s' u) (sh_pc (tq_wl s') u)"
    using step_wl_ok [OF assms(4)] step_others [OF assms(4)] tcq_ctrlD(5) [OF assms(1)] by metis
qed

lemma tcq_ctrl_valid:
  assumes "tcq_ctrl N s" "t < N" "tcq_thread N M T0 t s s'"
  shows "\<forall>u. tq_lopen (tq_pc s' u) \<longrightarrow> tq_valid s'" "tq_valid s' \<longrightarrow> (\<exists>u. tq_lopen (tq_pc s' u))"
proof -
  have v: "tq_valid s' = tq_valid s" if "\<not> tq_lead (tq_pc s t)" using step_lopen(3) [OF assms(3)] that by blast
  have l: "t = u" if "tq_lead (tq_pc s t)" "tq_lopen (tq_pc s u)" for u
    using one_leader [OF assms(1)] that closing_lead lopen_closing by blast
  show "\<forall>u. tq_lopen (tq_pc s' u) \<longrightarrow> tq_valid s'"
    using step_lopen(1) [OF assms(3)] tcq_ctrlD(6) [OF assms(1)] step_others(1) [OF assms(3)] v l by metis
  show "tq_valid s' \<longrightarrow> (\<exists>u. tq_lopen (tq_pc s' u))"
    using step_lopen(2) [OF assms(3)] tcq_ctrlD(7) [OF assms(1)] step_others(1) [OF assms(3)] by metis
qed

lemma tcq_ctrl_inside:
  assumes "tcq_ctrl N s" "t < N" "2 * N + 1 < 256" "tcq_thread N M T0 t s s'" "tq_inside (tq_pc s' u)"
  shows "\<exists>v. tq_closing (tq_pc s' v)"
proof -
  have "tq_inside (tq_pc s u) \<or> tq_valid s"
    using step_inside [OF assms(4)] step_others(1) [OF assms(4)] assms(5) by metis
  then obtain v where v: "tq_closing (tq_pc s v)"
    using tcq_ctrlD(7,8) [OF assms(1)] lopen_closing by blast
  note new = tcq_ctrl_locks [OF assms(1-4)]
  have "\<not> sh_pc (tq_wl s') t = ShWriter"
  proof
    assume w: "sh_pc (tq_wl s') t = ShWriter"
    have r: "sh_pc (tq_wl s') u = ShReader" using new(5) assms(5) inside_reader wl_ok_reader by blast
    have "u < N" using new(3) assms(5) by (metis not_le tq_inside.simps(6))
    with shared.inv_shrd [OF new(2), of t u] w r assms(2) show False by blast
  qed
  with step_closing [OF assms(4)] step_others(1) [OF assms(4)] v show ?thesis by metis
qed

lemma tcq_ctrl_step:
  assumes "tcq_ctrl N s" "t < N" "2 * N + 1 < 256" "tcq_thread N M T0 t s s'"
  shows "tcq_ctrl N s'"
  unfolding tcq_ctrl_def
  using tcq_ctrl_locks [OF assms] tcq_ctrl_valid [OF assms(1,2,4)] tcq_ctrl_inside [OF assms] by blast

lemma tcq_ctrl_init:
  assumes "tcq_init s"
  shows "tcq_ctrl N s"
proof -
  have "spin_inv (tq_en s)" using assms spin.inv_init unfolding tcq_init_def by blast
  moreover have "shared_inv N (tq_wl s)" using assms shared.inv_init unfolding tcq_init_def by blast
  ultimately show ?thesis using assms by (simp add: tcq_ctrl_def tcq_init_def spin_init_def shared_init_def)
qed

end
