(* ===== verification/Tcq_Data.thy ===== *)
theory Tcq_Data
  imports Tcq_Control
begin

text \<open>
  What the queues of \<open>TCQueue\<close> contain: claimed slots, written slots, confirmations, in terms of the
  control points; the promises are conserved; and each batch holds the arguments of distinct calls.
\<close>

section \<open>What a control point holds\<close>

text \<open>The call whose promise the thread still has, the claimed slot it has not filled, and whether it has
  a claim to confirm.\<close>

fun tq_hold :: "tcq_pc \<Rightarrow> nat option" where
  "tq_hold (TqTry k) = Some k" | "tq_hold (TqInit k) = Some k" | "tq_hold (TqInit2 k) = Some k"
| "tq_hold (TqSwap k) = Some k" | "tq_hold (TqVer k) = Some k" | "tq_hold (TqLReady k) = Some k"
| "tq_hold (TqOpen k i) = Some k" | "tq_hold (TqFill l p k i) = Some k" | "tq_hold (TqFol k) = Some k"
| "tq_hold (TqWl k) = Some k" | "tq_hold (TqIn k) = Some k" | "tq_hold (TqRet k) = Some k"
| "tq_hold (TqReady k) = Some k" | "tq_hold (TqFull k) = Some k" | "tq_hold (TqUnl k v) = Some k"
| "tq_hold (TqWait k v) = Some k" | "tq_hold (TqWaitVer k v) = Some k" | "tq_hold _ = None"

fun tq_slot :: "tcq_pc \<Rightarrow> u32 option" where
  "tq_slot (TqOpen k i) = Some i" | "tq_slot (TqFill l p k i) = Some i" | "tq_slot _ = None"

fun tq_pend :: "tcq_pc \<Rightarrow> bool" where
  "tq_pend (TqOpen k i) = True" | "tq_pend (TqFill l p k i) = True" | "tq_pend (TqConf l k) = True" | "tq_pend _ = False"

text \<open>The phases of a leader: counters set to zero (1, 2), vectors in place (3), first slot claimed (4),
  open or closing (5), vectors taken out (6).\<close>

fun tq_phase :: "tcq_pc \<Rightarrow> nat" where
  "tq_phase (TqInit2 k) = 1" | "tq_phase (TqSwap k) = 2" | "tq_phase (TqVer k) = 3" | "tq_phase (TqLReady k) = 3"
| "tq_phase (TqOpen k i) = 4" | "tq_phase (TqFill l p k i) = (if l then 5 else 0)" | "tq_phase (TqConf l k) = (if l then 5 else 0)"
| "tq_phase (TqPoll k) = 5" | "tq_phase (TqClose k) = 5" | "tq_phase (TqWlock k) = 5" | "tq_phase (TqWunl k) = 5"
| "tq_phase (TqLen k) = 5" | "tq_phase (TqTake k n) = 5" | "tq_phase (TqUnlock k n) = 6" | "tq_phase (TqHook k n) = 6"
| "tq_phase _ = 0"

fun tq_failing :: "u8 \<Rightarrow> tcq_pc \<Rightarrow> bool" where
  "tq_failing v (TqFull k) = True" | "tq_failing v (TqUnl k w) = (w = v)" | "tq_failing v (TqWait k w) = (w = v)"
| "tq_failing v (TqWaitVer k w) = (w = v)" | "tq_failing v _ = False"

fun tq_ready :: "tcq_pc \<Rightarrow> bool" where
  "tq_ready (TqReady k) = True" | "tq_ready _ = False"

lemma phase_le: "tq_phase c \<le> 6"
  by (cases c) auto

lemma phase_lead: "1 \<le> tq_phase c \<Longrightarrow> tq_phase c \<le> 5 \<Longrightarrow> tq_lead c"
  by (cases c) (auto split: if_splits)

lemma closing_phase: "tq_closing c \<Longrightarrow> tq_phase c = 5"
  by (cases c) auto

lemma pend_cases: "tq_pend c \<Longrightarrow> tq_inside c \<or> tq_phase c = 4 \<or> tq_lopen c"
  by (cases c) auto

lemma slot_pend: "tq_slot c = Some i \<Longrightarrow> tq_pend c"
  by (cases c) auto

lemma lopen_phase: "tq_lopen c \<Longrightarrow> tq_phase c = 5"
  by (cases c) auto

section \<open>The data invariant\<close>

definition q_ok :: "(u64 \<times> 't) list \<Rightarrow> 't queues \<Rightarrow> bool" where
  "q_ok cs q \<longleftrightarrow> length (q_uids q) = length (q_pros q) \<and> length (q_tasks q) = length (q_pros q) \<and>
     (\<forall>i<length (q_pros q). \<forall>k. q_pros q ! i = Some k \<longrightarrow>
        k < length cs \<and> q_uids q ! i = fst (cs ! k) \<and> q_tasks q ! i = snd (cs ! k))"

definition ncl :: "u32 \<Rightarrow> 't tcq_state \<Rightarrow> nat" where
  "ncl M s = min (unat (tq_cnt s)) (unat M)"

definition slots_ok :: "u32 \<Rightarrow> 't tcq_state \<Rightarrow> bool" where
  "slots_ok M s \<longleftrightarrow> length (q_pros (tq_q s)) = unat M \<and>
     (\<forall>i<unat M. q_pros (tq_q s) ! i = None \<longleftrightarrow> ncl M s \<le> i \<or> (\<exists>u j. tq_slot (tq_pc s u) = Some j \<and> unat j = i))"

definition taken_ok :: "u32 \<Rightarrow> nat \<Rightarrow> 't queues \<Rightarrow> bool" where
  "taken_ok M n q \<longleftrightarrow> length (q_pros q) = unat M \<and> 1 \<le> n \<and> n \<le> unat M \<and> (\<forall>i<unat M. q_pros q ! i = None \<longleftrightarrow> n \<le> i)"

text \<open>What a filling thread has written so far.\<close>

fun part_ok :: "(u64 \<times> 't) list \<Rightarrow> 't queues \<Rightarrow> tcq_pc \<Rightarrow> bool" where
  "part_ok cs q (TqFill l PTask k i) \<longleftrightarrow> q_uids q ! unat i = fst (cs ! k)"
| "part_ok cs q (TqFill l PPro k i) \<longleftrightarrow> q_uids q ! unat i = fst (cs ! k) \<and> q_tasks q ! unat i = snd (cs ! k)"
| "part_ok cs q _ \<longleftrightarrow> True"

text \<open>What is known of the taken vectors.\<close>

fun loc_ok :: "u32 \<Rightarrow> tcq_pc \<Rightarrow> 't queues \<Rightarrow> bool" where
  "loc_ok M (TqUnlock k n) q \<longleftrightarrow> taken_ok M (unat n) q"
| "loc_ok M (TqHook k n) q \<longleftrightarrow> taken_ok M (unat n) q"
| "loc_ok M _ q \<longleftrightarrow> q = no_queues"

definition batch_ok :: "u32 \<Rightarrow> 't queues \<Rightarrow> bool" where
  "batch_ok M q \<longleftrightarrow> 1 \<le> length (q_pros q) \<and> length (q_pros q) \<le> unat M \<and> None \<notin> set (q_pros q)"

text \<open>Counters, as far as the leader has got.\<close>

definition count_ok :: "nat \<Rightarrow> u32 \<Rightarrow> 't tcq_state \<Rightarrow> nat \<Rightarrow> bool" where
  "count_ok N M s t \<longleftrightarrow> (let p = tq_phase (tq_pc s t) in
     (p \<in> {1, 2, 3} \<longrightarrow> tq_cnt s = 0) \<and> (p \<in> {1, 2, 3, 4} \<longrightarrow> tq_failed s = {}) \<and>
     (p \<in> {4, 5} \<longrightarrow> 1 \<le> unat (tq_cnt s) \<and> unat (tq_cnt s) \<le> unat M + card (tq_failed s)) \<and>
     (p \<in> {2, 3, 4, 5} \<longrightarrow> unat (tq_try_cnt s) + threads_in N tq_pend (tq_pc s) = ncl M s) \<and>
     (p \<in> {3, 4, 5} \<longrightarrow> slots_ok M s) \<and>
     (\<forall>k n. tq_pc s t = TqTake k n \<longrightarrow> unat n = ncl M s))"

definition tcq_data :: "nat \<Rightarrow> u32 \<Rightarrow> 't tcq_state \<Rightarrow> bool" where
  "tcq_data N M s \<longleftrightarrow> q_ok (tq_calls s) (tq_q s) \<and> (\<forall>t. q_ok (tq_calls s) (tq_loc s t)) \<and>
     (\<forall>q\<in>set (tq_log s). q_ok (tq_calls s) q \<and> batch_ok M q) \<and>
     (\<forall>t k. tq_hold (tq_pc s t) = Some k \<longrightarrow> k < length (tq_calls s)) \<and>
     (\<forall>t. part_ok (tq_calls s) (tq_q s) (tq_pc s t)) \<and> (\<forall>t. loc_ok M (tq_pc s t) (tq_loc s t)) \<and>
     (\<forall>t i. tq_slot (tq_pc s t) = Some i \<longrightarrow> unat i < ncl M s) \<and>
     (\<forall>t u i. tq_slot (tq_pc s t) = Some i \<longrightarrow> tq_slot (tq_pc s u) = Some i \<longrightarrow> t = u) \<and>
     (\<forall>t. count_ok N M s t) \<and>
     ((\<forall>t. tq_phase (tq_pc s t) \<notin> {3, 4, 5}) \<longrightarrow> tq_q s = no_queues) \<and>
     tq_failed s \<subseteq> {..<N} \<and>
     (\<forall>t\<in>tq_failed s. \<not> tq_ready (tq_pc s t) \<and> (tq_valid s \<longrightarrow> tq_failing (tq_ver s) (tq_pc s t))) \<and>
     \<not> tq_ub s"


lemma tcq_dataD:
  assumes "tcq_data N M s"
  shows "q_ok (tq_calls s) (tq_q s)" "q_ok (tq_calls s) (tq_loc s t)"
    "q \<in> set (tq_log s) \<Longrightarrow> q_ok (tq_calls s) q" "q \<in> set (tq_log s) \<Longrightarrow> batch_ok M q"
    "tq_hold (tq_pc s t) = Some k \<Longrightarrow> k < length (tq_calls s)"
    "part_ok (tq_calls s) (tq_q s) (tq_pc s t)" "loc_ok M (tq_pc s t) (tq_loc s t)"
    "tq_slot (tq_pc s t) = Some i \<Longrightarrow> unat i < ncl M s"
    "tq_slot (tq_pc s t) = Some i \<Longrightarrow> tq_slot (tq_pc s u) = Some i \<Longrightarrow> t = u"
    "count_ok N M s t" "(\<forall>t. tq_phase (tq_pc s t) \<notin> {3, 4, 5}) \<Longrightarrow> tq_q s = no_queues"
    "tq_failed s \<subseteq> {..<N}" "t \<in> tq_failed s \<Longrightarrow> \<not> tq_ready (tq_pc s t)"
    "t \<in> tq_failed s \<Longrightarrow> tq_valid s \<Longrightarrow> tq_failing (tq_ver s) (tq_pc s t)" "\<not> tq_ub s"
proof -
  note d = assms[unfolded tcq_data_def]
  show "q_ok (tq_calls s) (tq_q s)" "q_ok (tq_calls s) (tq_loc s t)" "part_ok (tq_calls s) (tq_q s) (tq_pc s t)"
    "loc_ok M (tq_pc s t) (tq_loc s t)" "count_ok N M s t" "tq_failed s \<subseteq> {..<N}" "\<not> tq_ub s"
    using d by blast+
  show "q_ok (tq_calls s) q" "batch_ok M q" if "q \<in> set (tq_log s)" using d that by blast+
  show "k < length (tq_calls s)" if "tq_hold (tq_pc s t) = Some k" using d that by blast
  show "unat i < ncl M s" if "tq_slot (tq_pc s t) = Some i" using d that by blast
  show "t = u" if "tq_slot (tq_pc s t) = Some i" "tq_slot (tq_pc s u) = Some i" using d that by blast
  show "tq_q s = no_queues" if "\<forall>t. tq_phase (tq_pc s t) \<notin> {3, 4, 5}" using d that by blast
  show "\<not> tq_ready (tq_pc s t)" if "t \<in> tq_failed s" using d that by blast
  show "tq_failing (tq_ver s) (tq_pc s t)" if "t \<in> tq_failed s" "tq_valid s" using d that by blast
qed

lemma count_okD:
  assumes "count_ok N M s t"
  shows "tq_phase (tq_pc s t) \<in> {1, 2, 3} \<Longrightarrow> tq_cnt s = 0" "tq_phase (tq_pc s t) \<in> {1, 2, 3, 4} \<Longrightarrow> tq_failed s = {}"
    "tq_phase (tq_pc s t) \<in> {4, 5} \<Longrightarrow> 1 \<le> unat (tq_cnt s)"
    "tq_phase (tq_pc s t) \<in> {4, 5} \<Longrightarrow> unat (tq_cnt s) \<le> unat M + card (tq_failed s)"
    "tq_phase (tq_pc s t) \<in> {2, 3, 4, 5} \<Longrightarrow> unat (tq_try_cnt s) + threads_in N tq_pend (tq_pc s) = ncl M s"
    "tq_phase (tq_pc s t) \<in> {3, 4, 5} \<Longrightarrow> slots_ok M s" "tq_pc s t = TqTake k n \<Longrightarrow> unat n = ncl M s"
  using assms unfolding count_ok_def Let_def by blast+

text \<open>A claimed slot belongs to a batch under way, lies in the vectors and has no promise yet.\<close>

lemma pend_leader:
  assumes "tcq_ctrl N s" "tq_pend (tq_pc s t)"
  obtains u where "tq_phase (tq_pc s u) \<in> {4, 5}"
proof -
  consider "tq_inside (tq_pc s t)" | "tq_phase (tq_pc s t) = 4" | "tq_lopen (tq_pc s t)"
    using pend_cases [OF assms(2)] by blast
  then show thesis
  proof cases
    case 1
    then obtain u where "tq_closing (tq_pc s u)" using tcq_ctrlD(8) [OF assms(1)] by blast
    then show thesis using closing_phase that by blast
  next
    case 2
    then show thesis using that by blast
  next
    case 3
    then show thesis using lopen_phase that by blast
  qed
qed

lemma ready_leader:
  assumes "tcq_ctrl N s" "tq_pc s t = TqReady k"
  obtains u where "tq_phase (tq_pc s u) = 5"
proof -
  have "tq_inside (tq_pc s t)" using assms(2) by simp
  then obtain u where "tq_closing (tq_pc s u)" using tcq_ctrlD(8) [OF assms(1)] by blast
  then show thesis using closing_phase that by blast
qed

lemma slot_free:
  assumes "tcq_ctrl N s" "tcq_data N M s" "tq_slot (tq_pc s t) = Some i"
  shows "slots_ok M s" "unat i < unat M" "unat i < length (q_pros (tq_q s))" "q_pros (tq_q s) ! unat i = None"
proof -
  obtain u where "tq_phase (tq_pc s u) \<in> {4, 5}"
    using pend_leader [OF assms(1) slot_pend [OF assms(3)]] by blast
  then show sl: "slots_ok M s" using count_okD(6) [OF tcq_dataD(10) [OF assms(2), of u]] by blast
  show i: "unat i < unat M" using tcq_dataD(8) [OF assms(2,3)] by (simp add: ncl_def)
  with sl show "unat i < length (q_pros (tq_q s))" by (simp add: slots_ok_def)
  show "q_pros (tq_q s) ! unat i = None" using sl i assms(3) unfolding slots_ok_def by blast
qed

text \<open>One leader has the counters.\<close>

lemma phase_unique:
  assumes "tcq_ctrl N s" "tq_phase (tq_pc s t) \<in> {1, 2, 3, 4, 5}" "tq_lead (tq_pc s u)"
  shows "u = t"
proof -
  have "tq_lead (tq_pc s t)" using assms(2) by (intro phase_lead) auto
  with one_leader [OF assms(1,3)] show ?thesis .
qed

lemma no_pend:
  assumes "tcq_ctrl N s" "tq_lead (tq_pc s t)" "\<not> tq_closing (tq_pc s t)" "\<not> tq_pend (tq_pc s t)"
  shows "\<not> tq_pend (tq_pc s u)"
proof
  assume p: "tq_pend (tq_pc s u)"
  then consider "tq_inside (tq_pc s u)" | "tq_phase (tq_pc s u) = 4" | "tq_lopen (tq_pc s u)" using pend_cases by blast
  then show False
  proof cases
    case 1
    then show ?thesis using no_inside [OF assms(1-3)] by blast
  next
    case 2
    then have "t = u" using phase_unique [OF assms(1) _ assms(2), of u] by simp
    with p assms(4) show ?thesis by simp
  next
    case 3
    then have "u = t" using one_leader [OF assms(1) _ assms(2)] closing_lead lopen_closing by blast
    with p assms(4) show ?thesis by simp
  qed
qed

lemma no_slot: "\<not> tq_pend c \<Longrightarrow> tq_slot c = None"
  by (cases c) auto

end
