(* ===== verification/Tcq_Steps.thy ===== *)
theory Tcq_Steps
  imports Tcq_Data
begin

text \<open>Every step of \<open>TCQueue\<close> keeps the data invariant.\<close>

section \<open>The contents of the vectors\<close>

lemma step_calls:
  assumes "tcq_thread N M T0 t s s'"
  shows "\<exists>xs. tq_calls s' = tq_calls s @ xs"
  using assms by cases auto

lemma q_okD:
  "q_ok cs q \<Longrightarrow> i < length (q_pros q) \<Longrightarrow> q_pros q ! i = Some k \<Longrightarrow>
    k < length cs \<and> q_uids q ! i = fst (cs ! k) \<and> q_tasks q ! i = snd (cs ! k)"
  by (simp add: q_ok_def)

lemma q_ok_append: "q_ok cs q \<Longrightarrow> q_ok (cs @ xs) q"
  unfolding q_ok_def by (fastforce simp: nth_append)

lemma q_ok_no_queues [simp]: "q_ok cs no_queues"
  by (simp add: q_ok_def no_queues_def)

lemma q_ok_fresh [simp]: "q_ok cs (fresh_queues T0 M)"
  by (simp add: q_ok_def fresh_queues_def)

lemma q_ok_write:
  assumes "q_ok cs q" "i < length (q_pros q)" "q_pros q ! i = None" "k < length cs"
    and "part_ok cs q (TqFill l p k j)" "unat j = i"
  shows "q_ok cs (write_part p i k (cs ! k) q)"
  using assms by (cases p; cases "cs ! k") (auto simp: q_ok_def nth_list_update)

lemma nth_resize: "i < n \<Longrightarrow> n \<le> length xs \<Longrightarrow> resize n x xs ! i = xs ! i"
  by (simp add: resize_def nth_append)

lemma length_resize [simp]: "length (resize n x xs) = n"
  by (simp add: resize_def)

lemma q_ok_resize:
  assumes "q_ok cs q" "taken_ok M n q"
  shows "q_ok cs (resize_queues T0 n q)" "batch_ok M (resize_queues T0 n q)"
proof -
  have l: "n \<le> length (q_pros q)" "length (q_uids q) = length (q_pros q)" "length (q_tasks q) = length (q_pros q)"
    using assms by (auto simp: q_ok_def taken_ok_def)
  show "q_ok cs (resize_queues T0 n q)"
    unfolding q_ok_def resize_queues_def using q_okD [OF assms(1)] l
    by (simp add: nth_resize) (meson less_le_trans)
  have "\<forall>i<n. resize n None (q_pros q) ! i \<noteq> None"
    using assms(2) l(1) by (auto simp: nth_resize taken_ok_def)
  then show "batch_ok M (resize_queues T0 n q)"
    using assms(2) by (auto simp: batch_ok_def resize_queues_def taken_ok_def in_set_conv_nth)
qed

lemma step_hold:
  assumes "tcq_thread N M T0 t s s'" "tcq_data N M s" "tq_hold (tq_pc s' t) = Some k"
  shows "k < length (tq_calls s')"
  using assms(1,3) tcq_dataD(5) [OF assms(2), of t] by (cases; auto split: if_splits option.splits)

lemma step_q_ok:
  assumes "tcq_thread N M T0 t s s'" "tcq_ctrl N s" "tcq_data N M s"
  shows "q_ok (tq_calls s') (tq_q s')"
  using assms(1)
proof cases
  case (tq_fill lead p k i)
  have sl: "tq_slot (tq_pc s t) = Some i" using tq_fill by simp
  have "q_ok (tq_calls s) (write_part p (unat i) k (tq_calls s ! k) (tq_q s))"
    using tq_fill tcq_dataD(1) [OF assms(3)] tcq_dataD(5,6) [OF assms(3), of t] slot_free [OF assms(2,3) sl]
    by (intro q_ok_write [of _ _ _ _ lead _ i]) auto
  with tq_fill show ?thesis by simp
qed (use tcq_dataD(1,2) [OF assms(3)] in \<open>auto intro: q_ok_append\<close>)

lemma step_loc_q_ok:
  assumes "tcq_thread N M T0 t s s'" "tcq_data N M s"
  shows "q_ok (tq_calls s') (tq_loc s' t)"
  using assms(1) by cases (use tcq_dataD(1,2) [OF assms(2)] in \<open>auto intro: q_ok_append\<close>)

lemma step_log_ok:
  assumes "tcq_thread N M T0 t s s'" "tcq_data N M s" "q \<in> set (tq_log s')"
  shows "q_ok (tq_calls s') q \<and> batch_ok M q"
  using assms(1)
proof cases
  case (tq_hook k n)
  have "taken_ok M (unat n) (tq_loc s t)" using tcq_dataD(7) [OF assms(2), of t] tq_hook by simp
  with tq_hook show ?thesis
    using assms(3) q_ok_resize [OF tcq_dataD(2) [OF assms(2), of t] \<open>taken_ok M (unat n) (tq_loc s t)\<close>, of T0] tcq_dataD(3,4) [OF assms(2), of q] by auto
qed (use tcq_dataD(3,4) [OF assms(2), of q] assms(3) in \<open>auto intro: q_ok_append\<close>)

lemma step_loc_ok:
  assumes "tcq_thread N M T0 t s s'" "tcq_ctrl N s" "tcq_data N M s" "1 \<le> unat M"
  shows "loc_ok M (tq_pc s' t) (tq_loc s' t)"
  using assms(1)
proof cases
  case (tq_swap k)
  have "\<forall>u. tq_phase (tq_pc s u) \<notin> {3, 4, 5}"
  proof
    fix u show "tq_phase (tq_pc s u) \<notin> {3, 4, 5}"
      using phase_unique [OF assms(2), of t u] phase_lead [of "tq_pc s u"] tq_swap by fastforce
  qed
  then have "tq_q s = no_queues" by (rule tcq_dataD(11) [OF assms(3)])
  with tq_swap show ?thesis by simp
next
  case (tq_take k n)
  note c = count_okD [OF tcq_dataD(10) [OF assms(3), of t]]
  have "slots_ok M s" "unat n = ncl M s" "1 \<le> unat (tq_cnt s)" using c(3,6,7) tq_take by auto
  moreover have "\<not> tq_pend (tq_pc s u)" for u using no_pend [OF assms(2), of t u] tq_take by simp
  then have "\<nexists>u j. tq_slot (tq_pc s u) = Some j \<and> unat j = i" for i using no_slot by (metis option.distinct(1))
  ultimately have "taken_ok M (unat n) (tq_q s)"
    using assms(4) by (simp add: taken_ok_def slots_ok_def ncl_def)
  with tq_take show ?thesis by simp
qed (use tcq_dataD(7) [OF assms(3), of t] in \<open>auto split: option.splits\<close>)


section \<open>Half-written slots\<close>

lemma part_ok_no_slot: "tq_slot c = None \<Longrightarrow> part_ok cs q c"
  by (cases c) auto

lemma part_ok_same:
  assumes "part_ok cs q c" "tq_slot c = Some i" "\<forall>k. tq_hold c = Some k \<longrightarrow> cs' ! k = cs ! k"
    and "q_uids q' ! unat i = q_uids q ! unat i" "q_tasks q' ! unat i = q_tasks q ! unat i"
  shows "part_ok cs' q' c"
  using assms by (cases "(cs', q', c)" rule: part_ok.cases) auto

lemma step_queue:
  assumes "tcq_thread N M T0 t s s'"
  obtains "tq_q s' = tq_q s"
  | "tq_lead (tq_pc s t)" "\<not> tq_closing (tq_pc s t)" "\<not> tq_pend (tq_pc s t)"
  | l p k i where "tq_pc s t = TqFill l p k i" "tq_q s' = write_part p (unat i) k (tq_calls s ! k) (tq_q s)"
  using assms by cases auto

lemma write_other:
  assumes "j \<noteq> i"
  shows "q_uids (write_part p i k ux q) ! j = q_uids q ! j" "q_tasks (write_part p i k ux q) ! j = q_tasks q ! j"
  using assms by (cases p; cases ux; simp)+

lemma step_part_other:
  assumes "tcq_thread N M T0 t s s'" "tcq_ctrl N s" "tcq_data N M s" "u \<noteq> t"
  shows "part_ok (tq_calls s') (tq_q s') (tq_pc s' u)"
proof (cases "tq_slot (tq_pc s u)")
  case None
  then show ?thesis using step_others(1) [OF assms(1,4)] by (simp add: part_ok_no_slot)
next
  case (Some i)
  obtain xs where xs: "tq_calls s' = tq_calls s @ xs" using step_calls [OF assms(1)] by blast
  then have cs: "\<forall>k. tq_hold (tq_pc s u) = Some k \<longrightarrow> tq_calls s' ! k = tq_calls s ! k"
    using tcq_dataD(5) [OF assms(3), of u] by (auto simp: nth_append)
  have "q_uids (tq_q s') ! unat i = q_uids (tq_q s) ! unat i \<and> q_tasks (tq_q s') ! unat i = q_tasks (tq_q s) ! unat i"
    using assms(1)
  proof (cases rule: step_queue)
    case 2
    then show ?thesis using no_pend [OF assms(2) 2] slot_pend [OF Some] by blast
  next
    case (3 l p k j)
    have "i \<noteq> j" using tcq_dataD(9) [OF assms(3) Some, of t] 3(1) assms(4) by auto
    then have "unat i \<noteq> unat j" by (simp add: word_unat_eq_iff)
    with 3(2) show ?thesis by (simp add: write_other)
  qed simp
  then show ?thesis
    using part_ok_same [OF tcq_dataD(6) [OF assms(3), of u] Some cs] step_others(1) [OF assms(1,4)] by simp
qed

lemma step_part_self:
  assumes "tcq_thread N M T0 t s s'" "tcq_ctrl N s" "tcq_data N M s"
  shows "part_ok (tq_calls s') (tq_q s') (tq_pc s' t)"
  using assms(1)
proof cases
  case (tq_fill lead p k i)
  have sl: "tq_slot (tq_pc s t) = Some i" using tq_fill by simp
  have "unat i < length (q_uids (tq_q s))" "unat i < length (q_tasks (tq_q s))"
    using slot_free(3) [OF assms(2,3) sl] tcq_dataD(1) [OF assms(3)] by (simp_all add: q_ok_def)
  with tq_fill show ?thesis
    using tcq_dataD(6) [OF assms(3), of t] by (cases p; cases "tq_calls s ! k") simp_all
qed (use tcq_dataD(6) [OF assms(3), of t] in \<open>auto simp: nth_append\<close>)

section \<open>Claimed slots\<close>

lemma ready_idx_ok: "ready_idx M c \<noteq> - 1 \<Longrightarrow> ready_idx M c = c \<and> unat c < unat M"
  by (auto simp: ready_idx_def word_less_nat_alt not_le split: if_splits)

lemma ready_idx_full: "ready_idx M c = - 1 \<longleftrightarrow> M \<le> c"
proof -
  have "M \<le> - 1" by (rule word_n1_ge)
  then show ?thesis by (auto simp: ready_idx_def)
qed

lemma unat_inc: "unat (c :: u32) + 1 < 4294967296 \<Longrightarrow> unat (c + 1) = unat c + 1"
  by (simp add: unat_add_u32)

lemma step_ncl:
  assumes "tcq_thread N M T0 t s s'" "tcq_ctrl N s" "tcq_data N M s" "unat M + N < 4294967296" "t < N"
  shows "tq_lead (tq_pc s t) \<and> \<not> tq_closing (tq_pc s t) \<and> \<not> tq_pend (tq_pc s t) \<or> ncl M s \<le> ncl M s'"
  using assms(1)
proof cases
  case (tq_ready k)
  have "unat (tq_cnt s) < unat M" using tq_ready ready_idx_ok by blast
  then have "unat (tq_cnt s + 1) = unat (tq_cnt s) + 1" using unat_u32_less [of M] by (intro unat_inc) linarith
  with tq_ready show ?thesis by (simp add: ncl_def)
next
  case (tq_ready_full k)
  obtain u where u: "tq_phase (tq_pc s u) = 5" using ready_leader [OF assms(2)] tq_ready_full by blast
  have "t \<notin> tq_failed s" using tcq_dataD(13) [OF assms(3), of t] tq_ready_full by auto
  with tcq_dataD(12) [OF assms(3)] assms(5) have "card (tq_failed s) < N"
    using psubset_card_mono [of "{..<N}" "tq_failed s"] by auto
  moreover have "unat (tq_cnt s) \<le> unat M + card (tq_failed s)"
    using count_okD(4) [OF tcq_dataD(10) [OF assms(3), of u]] u by simp
  ultimately have "unat (tq_cnt s + 1) = unat (tq_cnt s) + 1" using assms(4) by (intro unat_inc) linarith
  with tq_ready_full show ?thesis by (simp add: ncl_def)
qed (auto simp: ncl_def)

lemma step_slot:
  assumes "tcq_thread N M T0 t s s'" "tcq_ctrl N s" "tcq_data N M s" "unat M + N < 4294967296" "1 \<le> unat M" "t < N"
    and "tq_slot (tq_pc s' u) = Some i"
  shows "unat i < ncl M s'"
proof (cases "u = t \<and> tq_slot (tq_pc s t) \<noteq> Some i")
  case True
  from assms(1) show ?thesis
  proof cases
    case (tq_lready k)
    have "tq_cnt s = 0" using count_okD(1) [OF tcq_dataD(10) [OF assms(3), of t]] tq_lready by simp
    moreover have "M \<noteq> 0" using assms(5) by auto
    ultimately show ?thesis using tq_lready True assms(5,7) by (simp add: ncl_def ready_idx_def)
  next
    case (tq_ready k)
    have c: "ready_idx M (tq_cnt s) = tq_cnt s" "unat (tq_cnt s) < unat M" using tq_ready ready_idx_ok by blast+
    then have "unat (tq_cnt s + 1) = unat (tq_cnt s) + 1" using unat_u32_less [of M] by (intro unat_inc) linarith
    with c tq_ready show ?thesis using True assms(7) by (simp add: ncl_def)
  qed (use True assms(7) in \<open>auto split: if_splits option.splits\<close>)
next
  case False
  then have sl: "tq_slot (tq_pc s u) = Some i" using step_others(1) [OF assms(1), of u] assms(7) by (cases "u = t") auto
  have "\<not> (tq_lead (tq_pc s t) \<and> \<not> tq_closing (tq_pc s t) \<and> \<not> tq_pend (tq_pc s t))"
    using no_pend [OF assms(2)] slot_pend [OF sl] by blast
  with step_ncl [OF assms(1-4,6)] tcq_dataD(8) [OF assms(3) sl] show ?thesis by linarith
qed

lemma step_slot_inj:
  assumes "tcq_thread N M T0 t s s'" "tcq_ctrl N s" "tcq_data N M s" "1 \<le> unat M"
    and "tq_slot (tq_pc s' t) = Some i" "tq_slot (tq_pc s' u) = Some i"
  shows "u = t"
proof (rule ccontr)
  assume ne: "u \<noteq> t"
  then have sl: "tq_slot (tq_pc s u) = Some i" using step_others(1) [OF assms(1), of u] assms(6) by auto
  then have n: "unat i < ncl M s" by (rule tcq_dataD(8) [OF assms(3)])
  have "tq_slot (tq_pc s t) \<noteq> Some i" using tcq_dataD(9) [OF assms(3) sl] ne by blast
  with assms(1) show False
  proof cases
    case (tq_lready k)
    have "tq_cnt s = 0" using count_okD(1) [OF tcq_dataD(10) [OF assms(3), of t]] tq_lready by simp
    with n show ?thesis by (simp add: ncl_def)
  next
    case (tq_ready k)
    have c: "ready_idx M (tq_cnt s) = tq_cnt s" using tq_ready ready_idx_ok by blast
    then have "i = tq_cnt s" using tq_ready assms(5) by simp
    with n show ?thesis by (simp add: ncl_def)
  qed (use assms(5) in \<open>auto split: if_splits option.splits\<close>)
qed


section \<open>Counters\<close>

lemma count_ok_trivial: "tq_phase (tq_pc s u) \<in> {0, 6} \<Longrightarrow> count_ok N M s u"
  by (cases "tq_pc s u") (auto simp: count_ok_def)

lemma count_okI:
  assumes "tq_phase (tq_pc s t) \<in> {1, 2, 3} \<Longrightarrow> tq_cnt s = 0" "tq_phase (tq_pc s t) \<in> {1, 2, 3, 4} \<Longrightarrow> tq_failed s = {}"
    and "tq_phase (tq_pc s t) \<in> {4, 5} \<Longrightarrow> 1 \<le> unat (tq_cnt s) \<and> unat (tq_cnt s) \<le> unat M + card (tq_failed s)"
    and "tq_phase (tq_pc s t) \<in> {2, 3, 4, 5} \<Longrightarrow> unat (tq_try_cnt s) + threads_in N tq_pend (tq_pc s) = ncl M s"
    and "tq_phase (tq_pc s t) \<in> {3, 4, 5} \<Longrightarrow> slots_ok M s" "\<And>k n. tq_pc s t = TqTake k n \<Longrightarrow> unat n = ncl M s"
  shows "count_ok N M s t"
  unfolding count_ok_def Let_def using assms by blast

lemma step_pcs:
  assumes "tcq_thread N M T0 t s s'"
  shows "tq_pc s' = (tq_pc s)(t := tq_pc s' t)"
  using step_others(1) [OF assms] by (auto simp: fun_eq_iff)

lemma slots_ok_same:
  assumes "slots_ok M s" "q_pros (tq_q s') = q_pros (tq_q s)" "ncl M s' = ncl M s"
    and "tq_pc s' = (tq_pc s)(t := c)" "tq_slot c = tq_slot (tq_pc s t)"
  shows "slots_ok M s'"
proof -
  have "tq_slot (tq_pc s' u) = tq_slot (tq_pc s u)" for u using assms(4,5) by simp
  with assms(1-3) show ?thesis by (simp add: slots_ok_def)
qed

lemma pends_upd:
  assumes "tq_pc s' = (tq_pc s)(t := c)" "t < N"
  shows "threads_in N tq_pend (tq_pc s') + of_bool (tq_pend (tq_pc s t)) =
    threads_in N tq_pend (tq_pc s) + of_bool (tq_pend c)"
  using threads_in_upd [OF assms(2), of tq_pend "tq_pc s" c] assms(1) by simp

text \<open>Steps that leave counters, promises and claims alone.\<close>

lemma count_quiet:
  assumes "count_ok N M s u" "t < N" "tq_pc s' = (tq_pc s)(t := c)"
    and "tq_cnt s' = tq_cnt s" "tq_try_cnt s' = tq_try_cnt s" "tq_failed s' = tq_failed s" "q_pros (tq_q s') = q_pros (tq_q s)"
    and "tq_slot c = tq_slot (tq_pc s t)" "tq_pend c = tq_pend (tq_pc s t)" "\<forall>k n. c \<noteq> TqTake k n"
    and "tq_phase c = tq_phase (tq_pc s t) \<or> tq_phase c \<in> {0, 6} \<or> tq_phase c = 5 \<and> tq_phase (tq_pc s t) = 4"
  shows "count_ok N M s' u"
proof -
  have n: "ncl M s' = ncl M s" using assms(4) by (simp add: ncl_def)
  have th: "threads_in N tq_pend (tq_pc s') = threads_in N tq_pend (tq_pc s)"
    using pends_upd [OF assms(3,2)] assms(9) by simp
  have sl: "slots_ok M s \<Longrightarrow> slots_ok M s'" using slots_ok_same assms(3,7,8) n by blast
  have tk: "tq_pc s' u = TqTake k m \<Longrightarrow> tq_pc s u = TqTake k m" for k m
    using assms(3,10) by (cases "u = t") auto
  have ph: "tq_phase (tq_pc s' u) = tq_phase (tq_pc s u) \<or> tq_phase (tq_pc s' u) \<in> {0, 6} \<or>
      tq_phase (tq_pc s' u) = 5 \<and> tq_phase (tq_pc s u) = 4"
    using assms(3,11) by (cases "u = t") auto
  show ?thesis
  proof (cases "tq_phase (tq_pc s' u) \<in> {0, 6}")
    case False
    with ph have ph: "tq_phase (tq_pc s' u) = tq_phase (tq_pc s u) \<or> tq_phase (tq_pc s' u) = 5 \<and> tq_phase (tq_pc s u) = 4" by blast
    note d = count_okD [OF assms(1)]
    show ?thesis
    proof (rule count_okI)
      show "tq_cnt s' = 0" if "tq_phase (tq_pc s' u) \<in> {1, 2, 3}" using that ph d(1) assms(4) by auto
      show "tq_failed s' = {}" if "tq_phase (tq_pc s' u) \<in> {1, 2, 3, 4}" using that ph d(2) assms(6) by auto
      show "1 \<le> unat (tq_cnt s') \<and> unat (tq_cnt s') \<le> unat M + card (tq_failed s')" if "tq_phase (tq_pc s' u) \<in> {4, 5}"
        using that ph d(3,4) assms(4,6) by auto
      show "unat (tq_try_cnt s') + threads_in N tq_pend (tq_pc s') = ncl M s'" if "tq_phase (tq_pc s' u) \<in> {2, 3, 4, 5}"
        using that ph d(5) assms(5) n th by auto
      show "slots_ok M s'" if "tq_phase (tq_pc s' u) \<in> {3, 4, 5}" using that ph d(6) sl by auto
      show "unat m = ncl M s'" if "tq_pc s' u = TqTake k m" for k m using d(7) tk [OF that] n by simp
    qed
  qed (rule count_ok_trivial)
qed

text \<open>Steps of a leader outside its open part: only its own clause is at stake.\<close>

lemma count_leader:
  assumes "tcq_thread N M T0 t s s'" "tcq_ctrl N s" "tq_lead (tq_pc s t)" "count_ok N M s' t"
  shows "count_ok N M s' u"
proof (cases "u = t \<or> tq_phase (tq_pc s u) \<in> {0, 6}")
  case True
  then show ?thesis using assms(4) step_others(1) [OF assms(1), of u] count_ok_trivial [of s' u]
    by (cases "u = t") auto
next
  case False
  then have "tq_phase (tq_pc s u) \<in> {1, 2, 3, 4, 5}" using phase_le [of "tq_pc s u"] by auto
  then have "t = u" by (rule phase_unique [OF assms(2) _ assms(3)])
  with False show ?thesis by simp
qed

lemma pends_0: "\<forall>u. \<not> tq_pend (tq_pc s u) \<Longrightarrow> threads_in N tq_pend (tq_pc s) = 0"
  using threads_in_0 [of N tq_pend "tq_pc s"] by simp


lemma claims_new:
  assumes "tq_slot (f t) = None"
  shows "(\<exists>v j. tq_slot ((f(t := c)) v) = Some j \<and> unat j = i) \<longleftrightarrow>
    (\<exists>v j. tq_slot (f v) = Some j \<and> unat j = i) \<or> (\<exists>j. tq_slot c = Some j \<and> unat j = i)"
proof
  assume "\<exists>v j. tq_slot ((f(t := c)) v) = Some j \<and> unat j = i"
  then obtain v j where "tq_slot ((f(t := c)) v) = Some j" "unat j = i" by blast
  then show "(\<exists>v j. tq_slot (f v) = Some j \<and> unat j = i) \<or> (\<exists>j. tq_slot c = Some j \<and> unat j = i)"
    by (cases "v = t") auto
next
  assume "(\<exists>v j. tq_slot (f v) = Some j \<and> unat j = i) \<or> (\<exists>j. tq_slot c = Some j \<and> unat j = i)"
  then show "\<exists>v j. tq_slot ((f(t := c)) v) = Some j \<and> unat j = i"
  proof
    assume "\<exists>v j. tq_slot (f v) = Some j \<and> unat j = i"
    then obtain v j where "tq_slot (f v) = Some j" "unat j = i" by blast
    then show ?thesis using assms by (intro exI [of _ v] exI [of _ j]) auto
  next
    assume "\<exists>j. tq_slot c = Some j \<and> unat j = i"
    then show ?thesis by (metis fun_upd_same)
  qed
qed

lemma claims_gone:
  assumes "tq_slot (f t) = Some k" "tq_slot c = None" "\<forall>v. tq_slot (f v) = Some k \<longrightarrow> v = t"
  shows "(\<exists>v j. tq_slot ((f(t := c)) v) = Some j \<and> unat j = i) \<longleftrightarrow>
    (\<exists>v j. tq_slot (f v) = Some j \<and> unat j = i) \<and> i \<noteq> unat k"
proof
  assume "\<exists>v j. tq_slot ((f(t := c)) v) = Some j \<and> unat j = i"
  then obtain v j where v: "tq_slot ((f(t := c)) v) = Some j" "unat j = i" by blast
  with assms(2) have "v \<noteq> t" by auto
  with v assms(3) show "(\<exists>v j. tq_slot (f v) = Some j \<and> unat j = i) \<and> i \<noteq> unat k"
    by (auto simp flip: word_unat_eq_iff)
next
  assume "(\<exists>v j. tq_slot (f v) = Some j \<and> unat j = i) \<and> i \<noteq> unat k"
  then obtain v j where v: "tq_slot (f v) = Some j" "unat j = i" "i \<noteq> unat k" by blast
  then have "v \<noteq> t" using assms(1) by auto
  with v show "\<exists>v j. tq_slot ((f(t := c)) v) = Some j \<and> unat j = i" by (intro exI [of _ v] exI [of _ j]) simp
qed

text \<open>Setting the queue up.\<close>

lemma count_setup:
  assumes "tcq_thread N M T0 t s s'" "tcq_ctrl N s" "tcq_data N M s" "1 \<le> unat M" "t < N"
    and "tq_phase (tq_pc s' t) \<in> {1, 2, 3, 4}" "tq_lead (tq_pc s t)"
  shows "count_ok N M s' u"
proof (rule count_leader [OF assms(1,2,7)])
  note d = count_okD [OF tcq_dataD(10) [OF assms(3), of t]]
  have th: "threads_in N tq_pend (tq_pc s) = 0" if "\<not> tq_closing (tq_pc s t)" "\<not> tq_pend (tq_pc s t)"
    using no_pend [OF assms(2,7)] that by (intro pends_0) blast
  note up = pends_upd [OF step_pcs [OF assms(1)] assms(5)]
  from assms(1) show "count_ok N M s' t"
  proof cases
    case (tq_init2 k)
    then show ?thesis using d(1,2) th up by (intro count_okI) (auto simp: ncl_def)
  next
    case (tq_swap k)
    then have "slots_ok M s'" using d(1) by (simp add: slots_ok_def fresh_queues_def ncl_def)
    then show ?thesis using tq_swap d(1,2,5) th up by (intro count_okI) (auto simp: ncl_def)
  next
    case (tq_lready k)
    have c: "tq_cnt s = 0" "tq_failed s = {}" "slots_ok M s" using d(1,2,6) tq_lready by auto
    have M: "M \<noteq> 0" using assms(4) by auto
    have ns: "\<not> tq_pend (tq_pc s u)" for u using no_pend [OF assms(2,7), of u] tq_lready by simp
    then have "tq_slot (tq_pc s u) = None" for u using no_slot by blast
    then have "(\<exists>u j. tq_slot (tq_pc s' u) = Some j \<and> unat j = i) \<longleftrightarrow> i = 0" for i
      using tq_lready c(1) M by (auto simp: ready_idx_def)
    then have "slots_ok M s'" using c assms(4) tq_lready by (auto simp: slots_ok_def ncl_def)
    then show ?thesis using tq_lready d(5) c th up assms(4) by (intro count_okI) (auto simp: ncl_def)
  next
    case (tq_incver k)
    then have "slots_ok M s'" using slots_ok_same [OF d(6), of s'] by (simp add: ncl_def)
    then show ?thesis using tq_incver d(1,2,5) th up by (intro count_okI) (auto simp: ncl_def)
  qed (use assms(6,7) in \<open>auto intro!: count_okI split: if_splits option.splits\<close>)
qed

text \<open>A follower takes a serial number.\<close>

lemma count_ready:
  assumes "tcq_thread N M T0 t s s'" "tcq_ctrl N s" "tcq_data N M s" "unat M + N < 4294967296" "t < N" "tq_pc s t = TqReady k"
  shows "count_ok N M s' u"
proof (cases "tq_phase (tq_pc s u) = 5 \<and> u \<noteq> t")
  case False
  show ?thesis
  proof (cases "u = t")
    case True
    from assms(1,6) have "tq_phase (tq_pc s' t) = 0" by cases auto
    with True show ?thesis by (intro count_ok_trivial) simp
  next
    case F: False
    obtain v where v: "tq_phase (tq_pc s v) = 5" using ready_leader [OF assms(2,6)] by blast
    have "tq_phase (tq_pc s u) \<in> {0, 6}"
    proof (rule ccontr)
      assume n: "tq_phase (tq_pc s u) \<notin> {0, 6}"
      then have "tq_lead (tq_pc s u)" using phase_le [of "tq_pc s u"] by (intro phase_lead) auto
      then have "u = v" using phase_unique [OF assms(2), of v u] v by simp
      with v F False show False by simp
    qed
    with F show ?thesis using step_others(1) [OF assms(1) F] by (intro count_ok_trivial) simp
  qed
next
  case True
  then have u5: "tq_phase (tq_pc s u) = 5" and ut: "u \<noteq> t" and pu: "tq_pc s' u = tq_pc s u"
    using step_others(1) [OF assms(1)] by auto
  note d = count_okD [OF tcq_dataD(10) [OF assms(3), of u]]
  have fin: "finite (tq_failed s)" "t \<notin> tq_failed s" "card (tq_failed s) < N"
  proof -
    show "finite (tq_failed s)" using tcq_dataD(12) [OF assms(3)] finite_subset by blast
    show nt: "t \<notin> tq_failed s" using tcq_dataD(13) [OF assms(3), of t] assms(6) by auto
    show "card (tq_failed s) < N"
      using psubset_card_mono [of "{..<N}" "tq_failed s"] tcq_dataD(12) [OF assms(3)] nt assms(5) by auto
  qed
  have c: "1 \<le> unat (tq_cnt s)" "unat (tq_cnt s) \<le> unat M + card (tq_failed s)"
    "unat (tq_try_cnt s) + threads_in N tq_pend (tq_pc s) = ncl M s" "slots_ok M s"
    using d(3-6) u5 by auto
  have inc: "unat (tq_cnt s + 1) = unat (tq_cnt s) + 1" using c(2) fin(3) assms(4) by (intro unat_inc) linarith
  note up = pends_upd [OF step_pcs [OF assms(1)] assms(5)]
  have "\<And>m n. tq_pc s u \<noteq> TqTake m n"
  proof
    fix m n assume "tq_pc s u = TqTake m n"
    then show False using inside_closing [OF assms(2), of t u] assms(6) by simp
  qed
  then have tk: "tq_pc s' u \<noteq> TqTake m n" for m n using pu by simp
  from assms(1,6) show ?thesis
  proof cases
    case (tq_ready k')
    have r: "ready_idx M (tq_cnt s) = tq_cnt s" "unat (tq_cnt s) < unat M" using tq_ready ready_idx_ok by blast+
    have n: "ncl M s = unat (tq_cnt s)" "ncl M s' = unat (tq_cnt s) + 1" using r inc tq_ready by (auto simp: ncl_def)
    have e: "tq_pc s' = (tq_pc s)(t := TqFill False PUid k' (tq_cnt s))" using tq_ready r(1) by simp
    have ns: "tq_slot (tq_pc s t) = None" using assms(6) by simp
    have "(\<exists>v j. tq_slot (tq_pc s' v) = Some j \<and> unat j = i) \<longleftrightarrow>
        (\<exists>v j. tq_slot (tq_pc s v) = Some j \<and> unat j = i) \<or> i = unat (tq_cnt s)" for i
      unfolding e claims_new [of "tq_pc s", OF ns] by auto
    then have "slots_ok M s'" using c(4) n tq_ready unfolding slots_ok_def by auto
    then show ?thesis using pu u5 c inc up n tk tq_ready r(2) by (intro count_okI) (auto simp: r(1))
  next
    case (tq_ready_full k')
    have f: "unat M \<le> unat (tq_cnt s)" using tq_ready_full ready_idx_full word_le_nat_alt by blast
    have n: "ncl M s' = ncl M s" using f inc tq_ready_full by (simp add: ncl_def)
    have "slots_ok M s'" using slots_ok_same [OF c(4) _ n] tq_ready_full by simp
    then show ?thesis using pu u5 c inc up n tk tq_ready_full fin by (intro count_okI) (auto simp: card_insert_if)
  qed auto
qed


text \<open>A promise is written; a claim is confirmed; the leader reads the count.\<close>

lemma count_fill:
  assumes "tcq_thread N M T0 t s s'" "tcq_ctrl N s" "tcq_data N M s" "t < N" "tq_pc s t = TqFill l p k i"
  shows "count_ok N M s' u"
proof -
  have sl: "tq_slot (tq_pc s t) = Some i" using assms(5) by simp
  note c = tcq_dataD(10) [OF assms(3), of u]
  note f = slot_free [OF assms(2,3) sl]
  from assms(1,5) show ?thesis
  proof cases
    case (tq_fill lead p' k' i')
    show ?thesis
    proof (cases "next_part p")
      case (Some p'')
      then have "q_pros (tq_q s') = q_pros (tq_q s)" using tq_fill assms(5) by (cases p; cases "tq_calls s ! k") auto
      then show ?thesis using tq_fill assms(4,5) Some by (intro count_quiet [OF c assms(4)]) auto
    next
      case None
      have e: "tq_pc s' = (tq_pc s)(t := TqConf l k)" "tq_cnt s' = tq_cnt s" "tq_try_cnt s' = tq_try_cnt s"
        "tq_failed s' = tq_failed s" using tq_fill assms(5) None by auto
      have q: "q_pros (tq_q s') = (q_pros (tq_q s))[unat i := Some k]"
        using tq_fill assms(5) None by (cases p; cases "tq_calls s ! k") auto
      have inj: "\<forall>v. tq_slot (tq_pc s v) = Some i \<longrightarrow> v = t" using tcq_dataD(9) [OF assms(3) _ sl] by blast
      have n: "ncl M s' = ncl M s" using e by (simp add: ncl_def)
      have g: "(\<exists>v j. tq_slot (tq_pc s' v) = Some j \<and> unat j = m) \<longleftrightarrow>
          (\<exists>v j. tq_slot (tq_pc s v) = Some j \<and> unat j = m) \<and> m \<noteq> unat i" for m
        unfolding e(1) by (rule claims_gone [OF sl _ inj]) simp
      have "unat i < ncl M s" by (rule tcq_dataD(8) [OF assms(3) sl])
      then have so: "slots_ok M s'"
        using f(1,3) unfolding slots_ok_def q n g by (auto simp: nth_list_update)
      have th: "threads_in N tq_pend (tq_pc s') = threads_in N tq_pend (tq_pc s)"
        using pends_upd [OF e(1) assms(4)] assms(5) by simp
      have ph: "tq_phase (tq_pc s' u) = tq_phase (tq_pc s u)" "\<And>m x. tq_pc s' u = TqTake m x \<Longrightarrow> tq_pc s u = TqTake m x"
        using e(1) assms(5) by (cases "u = t"; simp)+
      note d = count_okD [OF c]
      show ?thesis unfolding count_ok_def Let_def ph(1) e(2-4) n th using d so ph(2) by blast
    qed
  next
    case (tq_fill_out lead p' k' i')
    then show ?thesis using c by (simp add: count_ok_def ncl_def slots_ok_def)
  qed auto
qed

lemma count_confirm:
  assumes "tcq_thread N M T0 t s s'" "tcq_ctrl N s" "tcq_data N M s" "t < N" "tq_pc s t = TqConf l k"
  shows "count_ok N M s' u"
proof -
  note c = tcq_dataD(10) [OF assms(3), of u]
  obtain v where v: "tq_phase (tq_pc s v) \<in> {4, 5}" using pend_leader [OF assms(2), of t] assms(5) by auto
  have e: "tq_pc s' = (tq_pc s)(t := if l then TqPoll k else TqLeave)" "tq_cnt s' = tq_cnt s"
    "tq_try_cnt s' = tq_try_cnt s + 1" "tq_failed s' = tq_failed s" "tq_q s' = tq_q s"
    using assms(1,5) by (cases; auto)+
  have n: "ncl M s' = ncl M s" using e by (simp add: ncl_def)
  have th: "threads_in N tq_pend (tq_pc s') + 1 = threads_in N tq_pend (tq_pc s)"
    using pends_upd [OF e(1) assms(4)] assms(5) by (cases l) simp_all
  have "unat (tq_try_cnt s) + threads_in N tq_pend (tq_pc s) = ncl M s"
    using count_okD(5) [OF tcq_dataD(10) [OF assms(3), of v]] v by auto
  moreover have "ncl M s < 4294967296" using unat_u32_less [of M] by (simp add: ncl_def min.strict_coboundedI2)
  ultimately have "unat (tq_try_cnt s + 1) = unat (tq_try_cnt s) + 1" using th by (intro unat_inc) linarith
  then have sum: "unat (tq_try_cnt s') + threads_in N tq_pend (tq_pc s') = unat (tq_try_cnt s) + threads_in N tq_pend (tq_pc s)"
    using th e(3) by simp
  have "slots_ok M s'" if "slots_ok M s" by (rule slots_ok_same [OF that _ n e(1)]) (use e(5) assms(5) in auto)
  moreover have ph: "tq_phase (tq_pc s' u) = tq_phase (tq_pc s u)" "\<And>m x. tq_pc s' u = TqTake m x \<Longrightarrow> tq_pc s u = TqTake m x"
    using e(1) assms(5) by (cases "u = t"; cases l; simp)+
  ultimately show ?thesis
    unfolding count_ok_def Let_def ph(1) e(2,4) n sum using count_okD [OF c] ph(2) by blast
qed

lemma count_len:
  assumes "tcq_thread N M T0 t s s'" "tcq_ctrl N s" "tcq_data N M s" "tq_pc s t = TqLen k"
  shows "count_ok N M s' u"
proof -
  note c = tcq_dataD(10) [OF assms(3), of u]
  have e: "s' = goto t (TqTake k (tq_try_cnt s)) s" using assms(1,4) by cases auto
  have "\<not> tq_pend (tq_pc s v)" for v using no_pend [OF assms(2), of t v] assms(4) by simp
  then have "threads_in N tq_pend (tq_pc s) = 0" by (intro pends_0) blast
  moreover have "unat (tq_try_cnt s) + threads_in N tq_pend (tq_pc s) = ncl M s"
    using count_okD(5) [OF tcq_dataD(10) [OF assms(3), of t]] assms(4) by simp
  ultimately have k: "unat (tq_try_cnt s) = ncl M s" by simp
  have n: "ncl M s' = ncl M s" using e by (simp add: ncl_def)
  have "\<not> tq_pend (tq_pc s' v)" for v using \<open>\<And>v. \<not> tq_pend (tq_pc s v)\<close> e by simp
  then have th: "threads_in N tq_pend (tq_pc s') = threads_in N tq_pend (tq_pc s)"
    using \<open>threads_in N tq_pend (tq_pc s) = 0\<close> by (subst pends_0) auto
  have "slots_ok M s'" if "slots_ok M s" by (rule slots_ok_same [where t = t, OF that _ n]) (use e assms(4) in auto)
  moreover have "tq_phase (tq_pc s' u) = tq_phase (tq_pc s u)" using e assms(4) by simp
  moreover have "unat x = ncl M s" if "tq_pc s' u = TqTake m x" for m x
    using that k count_okD(7) [OF c] e by (cases "u = t") auto
  ultimately show ?thesis using count_okD [OF c] e k n th by (intro count_okI) auto
qed


lemma step_count:
  assumes "tcq_thread N M T0 t s s'" "tcq_ctrl N s" "tcq_data N M s" "unat M + N < 4294967296" "1 \<le> unat M" "t < N"
  shows "count_ok N M s' u"
proof -
  note qt = count_quiet [OF tcq_dataD(10) [OF assms(3), of u] assms(6) step_pcs [OF assms(1)]]
  note su = count_setup [OF assms(1-3,5,6)]
  show ?thesis
    using assms(1)
  proof cases
    case (tq_fill lead p k i)
    show ?thesis by (rule count_fill [OF assms(1-3,6) tq_fill(2)])
  next
    case (tq_fill_out lead p k i)
    show ?thesis by (rule count_fill [OF assms(1-3,6) tq_fill_out(2)])
  next
    case (tq_confirm lead k)
    show ?thesis by (rule count_confirm [OF assms(1-3,6) tq_confirm(2)])
  next
    case (tq_len k)
    show ?thesis by (rule count_len [OF assms(1-3) tq_len(2)])
  next
    case (tq_ready k)
    show ?thesis by (rule count_ready [OF assms(1-4,6) tq_ready(2)])
  next
    case (tq_ready_full k)
    show ?thesis by (rule count_ready [OF assms(1-4,6) tq_ready_full(2)])
  next
    case (tq_take k n)
    then have "count_ok N M s' t" by (intro count_ok_trivial) simp
    with tq_take show ?thesis using count_leader [OF assms(1,2)] by simp
  next
    case (tq_init k)
    then show ?thesis by (intro su) simp_all
  next
    case (tq_init2 k)
    then show ?thesis by (intro su) simp_all
  next
    case (tq_swap k)
    then show ?thesis by (intro su) simp_all
  next
    case (tq_incver k)
    then show ?thesis by (intro su) simp_all
  next
    case (tq_lready k)
    then show ?thesis by (intro su) simp_all
  next
    case (tq_try_load k e)
    then show ?thesis using tcq_dataD(10) [OF assms(3), of u] by (simp add: count_ok_def ncl_def slots_ok_def)
  next
    case (tq_wl_wait k l)
    then show ?thesis using tcq_dataD(10) [OF assms(3), of u] by (simp add: count_ok_def ncl_def slots_ok_def)
  next
    case (tq_open k i)
    then show ?thesis by (intro qt) simp_all
  qed (intro qt; simp)+
qed

section \<open>Empty vectors between batches, full queues\<close>

lemma step_phase:
  assumes "tcq_thread N M T0 t s s'" "tq_phase (tq_pc s t) \<in> {3, 4, 5}" "tq_phase (tq_pc s' t) \<notin> {3, 4, 5}"
  shows "tq_q s' = tq_loc s t \<and> (\<exists>k n. tq_pc s t = TqTake k n)"
  using assms by cases (auto split: if_splits option.splits)

lemma step_no_queues:
  assumes "tcq_thread N M T0 t s s'" "tcq_ctrl N s" "tcq_data N M s" "\<forall>u. tq_phase (tq_pc s' u) \<notin> {3, 4, 5}"
  shows "tq_q s' = no_queues"
proof (cases "tq_phase (tq_pc s t) \<in> {3, 4, 5}")
  case True
  then have "tq_q s' = tq_loc s t \<and> (\<exists>k n. tq_pc s t = TqTake k n)"
    using step_phase [OF assms(1)] assms(4) by blast
  then show ?thesis using tcq_dataD(7) [OF assms(3), of t] by auto
next
  case False
  then have no: "\<forall>u. tq_phase (tq_pc s u) \<notin> {3, 4, 5}" using step_others(1) [OF assms(1)] assms(4) by metis
  then have q: "tq_q s = no_queues" by (rule tcq_dataD(11) [OF assms(3)])
  from assms(1) show ?thesis
  proof cases
    case (tq_fill lead p k i)
    then have "tq_pend (tq_pc s t)" by simp
    then show ?thesis using pend_leader [OF assms(2), of t] no by (metis insert_iff)
  next
    case (tq_swap k)
    then show ?thesis using assms(4) by (auto dest: spec [of _ t])
  next
    case (tq_take k n)
    then show ?thesis using False by simp
  qed (use q in auto)
qed

lemma step_failed:
  assumes "tcq_thread N M T0 t s s'" "tcq_data N M s" "u \<in> tq_failed s'"
  shows "\<not> tq_ready (tq_pc s' u) \<and> (tq_valid s' \<longrightarrow> tq_failing (tq_ver s') (tq_pc s' u))"
proof -
  note d = count_okD(2) [OF tcq_dataD(10) [OF assms(2), of t]]
  note f = tcq_dataD(13,14) [OF assms(2), of u] and ft = tcq_dataD(13,14) [OF assms(2), of t]
  have "u = t \<Longrightarrow> \<not> tq_ready (tq_pc s' t) \<and> (tq_valid s' \<longrightarrow> tq_failing (tq_ver s') (tq_pc s' t))"
    using assms(1,3) d ft by cases (auto split: if_splits option.splits)
  moreover have "u \<noteq> t \<Longrightarrow> u \<in> tq_failed s \<and> (tq_valid s' \<longrightarrow> tq_valid s) \<and> tq_ver s' = tq_ver s"
    using assms(1,3) d by cases auto
  ultimately show ?thesis using f step_others(1) [OF assms(1), of u] by (cases "u = t") auto
qed

lemma step_failed_threads:
  assumes "tcq_thread N M T0 t s s'" "tcq_data N M s" "t < N"
  shows "tq_failed s' \<subseteq> {..<N}"
  using assms(1,3) tcq_dataD(12) [OF assms(2)] by cases auto

lemma step_no_ub:
  assumes "tcq_thread N M T0 t s s'" "tcq_ctrl N s" "tcq_data N M s"
  shows "\<not> tq_ub s'"
  using assms(1)
proof cases
  case (tq_fill_out lead p k i)
  then have "tq_slot (tq_pc s t) = Some i" by simp
  then have "unat i < part_length p (tq_q s)"
    using slot_free(3) [OF assms(2,3)] tcq_dataD(1) [OF assms(3)] by (cases p) (auto simp: q_ok_def)
  with tq_fill_out show ?thesis by simp
qed (use tcq_dataD(15) [OF assms(3)] in auto)

section \<open>The invariant\<close>

lemma tcq_data_step:
  assumes "tcq_thread N M T0 t s s'" "tcq_ctrl N s" "tcq_data N M s" "unat M + N < 4294967296" "1 \<le> unat M" "t < N"
  shows "tcq_data N M s'"
proof -
  note st = assms(1) and cd = assms(1-3)
  obtain xs where xs: "tq_calls s' = tq_calls s @ xs" using step_calls [OF st] by blast
  have others: "tq_pc s' u = tq_pc s u" "tq_loc s' u = tq_loc s u" if "u \<noteq> t" for u
    using step_others [OF st that] by auto
  have loc: "q_ok (tq_calls s') (tq_loc s' u)" for u
    using step_loc_q_ok [OF st assms(3)] others(2) [of u] tcq_dataD(2) [OF assms(3), of u] q_ok_append xs
    by (cases "u = t") auto
  have hold: "k < length (tq_calls s')" if "tq_hold (tq_pc s' u) = Some k" for u k
    using step_hold [OF st assms(3)] others(1) [of u] tcq_dataD(5) [OF assms(3), of u] that xs
    by (cases "u = t") (auto simp: trans_less_add1)
  have part: "part_ok (tq_calls s') (tq_q s') (tq_pc s' u)" for u
    using step_part_self [OF cd] step_part_other [OF cd] by (cases "u = t") auto
  have lok: "loc_ok M (tq_pc s' u) (tq_loc s' u)" for u
    using step_loc_ok [OF cd assms(5)] others [of u] tcq_dataD(7) [OF assms(3), of u] by (cases "u = t") auto
  have inj: "v = u" if "tq_slot (tq_pc s' v) = Some i" "tq_slot (tq_pc s' u) = Some i" for v u i
  proof (cases "v = t \<or> u = t")
    case True
    then show ?thesis using step_slot_inj [OF cd assms(5)] that by metis
  next
    case False
    then show ?thesis using others(1) tcq_dataD(9) [OF assms(3)] that by metis
  qed
  show ?thesis
    unfolding tcq_data_def
  proof (intro conjI allI ballI impI)
    show "q_ok (tq_calls s') (tq_q s')" by (rule step_q_ok [OF cd])
    show "q_ok (tq_calls s') (tq_loc s' u)" for u by (rule loc)
    show "q_ok (tq_calls s') q" "batch_ok M q" if "q \<in> set (tq_log s')" for q
      using step_log_ok [OF st assms(3) that] by auto
    show "k < length (tq_calls s')" if "tq_hold (tq_pc s' u) = Some k" for u k by (rule hold [OF that])
    show "part_ok (tq_calls s') (tq_q s') (tq_pc s' u)" for u by (rule part)
    show "loc_ok M (tq_pc s' u) (tq_loc s' u)" for u by (rule lok)
    show "unat i < ncl M s'" if "tq_slot (tq_pc s' u) = Some i" for u i
      by (rule step_slot [OF cd assms(4,5,6) that])
    show "v = u" if "tq_slot (tq_pc s' v) = Some i" "tq_slot (tq_pc s' u) = Some i" for v u i by (rule inj [OF that])
    show "count_ok N M s' u" for u by (rule step_count [OF cd assms(4-6)])
    show "tq_q s' = no_queues" if "\<forall>u. tq_phase (tq_pc s' u) \<notin> {3, 4, 5}" by (rule step_no_queues [OF cd that])
    show "tq_failed s' \<subseteq> {..<N}" by (rule step_failed_threads [OF st assms(3,6)])
    show "\<not> tq_ready (tq_pc s' u)" if "u \<in> tq_failed s'" for u using step_failed [OF st assms(3) that] by simp
    show "tq_failing (tq_ver s') (tq_pc s' u)" if "u \<in> tq_failed s'" "tq_valid s'" for u
      using step_failed [OF st assms(3) that(1)] that(2) by simp
    show "\<not> tq_ub s'" by (rule step_no_ub [OF cd])
  qed
qed

end
