(* ===== verification/Tcq_Solo.thy ===== *)
theory Tcq_Solo
  imports Tcq
begin

text \<open>A thread that calls \<open>task_enqueue\<close> alone: the steps of the leader, one after the other.\<close>


lemma steps_trans: "tcq_thread N M T0 t s s' \<Longrightarrow> t < N \<Longrightarrow> (tcq_step N M T0)\<^sup>*\<^sup>* s' s'' \<Longrightarrow> (tcq_step N M T0)\<^sup>*\<^sup>* s s''"
  by (rule converse_rtranclp_into_rtranclp) (auto simp: tcq_step_def)

definition solo_en :: "nat \<Rightarrow> spin_pc \<Rightarrow> u8 \<Rightarrow> u8 spin_state" where
  "solo_en t c l = \<lparr>spin_l = l, spin_pc = (\<lambda>_. SpinIdle)(t := c)\<rparr>"

definition solo_wl :: "nat \<Rightarrow> shared_pc \<Rightarrow> u8 \<Rightarrow> u8 shared_state" where
  "solo_wl t c l = \<lparr>sh_l = l, sh_pc = (\<lambda>_. ShIdle)(t := c)\<rparr>"

lemma solo_en_moves:
  "en_move t SpinIdle (SpinSeen 0) (solo_en t SpinIdle 0) (solo_en t (SpinSeen 0) 0)"
  "en_move t (SpinSeen 0) (SpinHold 0) (solo_en t (SpinSeen 0) 0) (solo_en t (SpinHold 0) 1)"
  "en_move t (SpinHold 0) SpinIdle (solo_en t (SpinHold 0) 1) (solo_en t SpinIdle 0)"
proof -
  have c: "\<not> check_lock (0 :: u8) 0" "lock_bit 0 = (1 :: u8)" by (simp_all add: check_lock_def lock_bit_def)
  show "en_move t SpinIdle (SpinSeen 0) (solo_en t SpinIdle 0) (solo_en t (SpinSeen 0) 0)"
    using spin_step.spin_load [of "solo_en t SpinIdle 0" t 0] c by (simp add: en_move_def solo_en_def)
  show "en_move t (SpinSeen 0) (SpinHold 0) (solo_en t (SpinSeen 0) 0) (solo_en t (SpinHold 0) 1)"
    using spin_step.spin_or [of "solo_en t (SpinSeen 0) 0" t 0] c by (simp add: en_move_def solo_en_def)
  show "en_move t (SpinHold 0) SpinIdle (solo_en t (SpinHold 0) 1) (solo_en t SpinIdle 0)"
    using spin_step.spin_unlock [of "solo_en t (SpinHold 0) 1" t 0] c by (simp add: en_move_def solo_en_def)
qed

lemma solo_wl_moves:
  assumes "t < N"
  shows "wl_move N t ShIdle ShWriter (solo_wl t ShIdle 0) (solo_wl t ShWriter 1)"
    "wl_move N t ShWriter ShIdle (solo_wl t ShWriter 1) (solo_wl t ShIdle 0)"
proof -
  show "wl_move N t ShIdle ShWriter (solo_wl t ShIdle 0) (solo_wl t ShWriter 1)"
    using shared_step.sh_try_lock [of t N "solo_wl t ShIdle 0"] assms by (simp add: wl_move_def solo_wl_def)
  show "wl_move N t ShWriter ShIdle (solo_wl t ShWriter 1) (solo_wl t ShIdle 0)"
    using shared_step.sh_unlock [of t N "solo_wl t ShWriter 1"] assms by (simp add: wl_move_def solo_wl_def)
qed

text \<open>All states of the run are instances of one term.\<close>

definition solo :: "nat \<Rightarrow> u64 \<times> 't \<Rightarrow> tcq_pc \<Rightarrow> u8 spin_state \<Rightarrow> u8 shared_state \<Rightarrow> bool \<Rightarrow> u8 \<Rightarrow> u32 \<Rightarrow> u32 \<Rightarrow>
    't queues \<Rightarrow> 't queues \<Rightarrow> 't queues list \<Rightarrow> 't tcq_state" where
  "solo t ux c e w v ver cnt try q loc lg = \<lparr>tq_en = e, tq_wl = w, tq_valid = v, tq_ver = ver, tq_cnt = cnt, tq_try_cnt = try,
     tq_q = q, tq_loc = (\<lambda>_. no_queues)(t := loc), tq_pc = (\<lambda>_. TqIdle)(t := c), tq_calls = [ux], tq_log = lg,
     tq_failed = {}, tq_ub = False\<rparr>"

lemma thread_to: "tcq_thread N M T0 t s s' \<Longrightarrow> s' = s'' \<Longrightarrow> tcq_thread N M T0 t s s''"
  by simp

lemma solo_steps:
  "en_move t SpinIdle (SpinSeen 0) e e' \<Longrightarrow> 
    tcq_thread N M T0 t (solo t ux (TqTry k) e w v ver cnt tr q loc lg)
      (solo t ux (TqTry k) e' w v ver cnt tr q loc lg)"
  "en_move t (SpinSeen 0) (SpinHold 0) e e' \<Longrightarrow> 
    tcq_thread N M T0 t (solo t ux (TqTry k) e w v ver cnt tr q loc lg)
      (solo t ux (TqInit k) e' w v ver cnt tr q loc lg)"
  "tcq_thread N M T0 t (solo t ux (TqInit k) e w v ver cnt tr q loc lg)
      (solo t ux (TqInit2 k) e w v ver 0 tr q loc lg)"
  "tcq_thread N M T0 t (solo t ux (TqInit2 k) e w v ver cnt tr q loc lg)
      (solo t ux (TqSwap k) e w v ver cnt 0 q loc lg)"
  "tcq_thread N M T0 t (solo t ux (TqSwap k) e w v ver cnt tr q loc lg)
      (solo t ux (TqVer k) e w v ver cnt tr (fresh_queues T0 M) q lg)"
  "tcq_thread N M T0 t (solo t ux (TqVer k) e w v ver cnt tr q loc lg)
      (solo t ux (TqLReady k) e w v (ver + 1) cnt tr q loc lg)"
  "tcq_thread N M T0 t (solo t ux (TqLReady k) e w v ver cnt tr q loc lg)
      (solo t ux (TqOpen k (ready_idx M cnt)) e w v ver (cnt + 1) tr q loc lg)"
  "tcq_thread N M T0 t (solo t ux (TqOpen k i) e w v ver cnt tr q loc lg)
      (solo t ux (TqFill True PUid k i) e w True ver cnt tr q loc lg)"
  "tcq_thread N M T0 t (solo t ux (TqConf True k) e w v ver cnt tr q loc lg)
      (solo t ux (TqPoll k) e w v ver cnt (tr + 1) q loc lg)"
  "tcq_thread N M T0 t (solo t ux (TqPoll k) e w v ver cnt tr q loc lg)
      (solo t ux (TqClose k) e w v ver cnt tr q loc lg)"
  "tcq_thread N M T0 t (solo t ux (TqClose k) e w v ver cnt tr q loc lg)
      (solo t ux (TqWlock k) e w False ver cnt tr q loc lg)"
  "wl_move N t ShIdle ShWriter w w' \<Longrightarrow> 
    tcq_thread N M T0 t (solo t ux (TqWlock k) e w v ver cnt tr q loc lg)
      (solo t ux (TqWunl k) e w' v ver cnt tr q loc lg)"
  "wl_move N t ShWriter ShIdle w w' \<Longrightarrow> 
    tcq_thread N M T0 t (solo t ux (TqWunl k) e w v ver cnt tr q loc lg)
      (solo t ux (TqLen k) e w' v ver cnt tr q loc lg)"
  "tcq_thread N M T0 t (solo t ux (TqLen k) e w v ver cnt tr q loc lg)
      (solo t ux (TqTake k tr) e w v ver cnt tr q loc lg)"
  "tcq_thread N M T0 t (solo t ux (TqTake k n) e w v ver cnt tr q loc lg)
      (solo t ux (TqUnlock k n) e w v ver cnt tr loc q lg)"
  "en_move t (SpinHold 0) SpinIdle e e' \<Longrightarrow> 
    tcq_thread N M T0 t (solo t ux (TqUnlock k n) e w v ver cnt tr q loc lg)
      (solo t ux (TqHook k n) e' w v ver cnt tr q loc lg)"
  "tcq_thread N M T0 t (solo t ux (TqHook k n) e w v ver cnt tr q loc lg)
      (solo t ux TqIdle e w v ver cnt tr q no_queues (lg @ [resize_queues T0 (unat n) loc]))"
proof -
  show "tcq_thread N M T0 t (solo t ux (TqTry k) e w v ver cnt tr q loc lg) (solo t ux (TqTry k) e' w v ver cnt tr q loc lg)" if "en_move t SpinIdle (SpinSeen 0) e e'"
    by (rule thread_to, rule tcq_thread.tq_try_load) (use that in \<open>simp_all add: solo_def\<close>)
  show "tcq_thread N M T0 t (solo t ux (TqTry k) e w v ver cnt tr q loc lg) (solo t ux (TqInit k) e' w v ver cnt tr q loc lg)" if "en_move t (SpinSeen 0) (SpinHold 0) e e'"
    by (rule thread_to, rule tcq_thread.tq_try_win) (use that in \<open>simp_all add: solo_def\<close>)
  show "tcq_thread N M T0 t (solo t ux (TqInit k) e w v ver cnt tr q loc lg) (solo t ux (TqInit2 k) e w v ver 0 tr q loc lg)"
    by (rule thread_to, rule tcq_thread.tq_init) (simp_all add: solo_def)
  show "tcq_thread N M T0 t (solo t ux (TqInit2 k) e w v ver cnt tr q loc lg) (solo t ux (TqSwap k) e w v ver cnt 0 q loc lg)"
    by (rule thread_to, rule tcq_thread.tq_init2) (simp_all add: solo_def)
  show "tcq_thread N M T0 t (solo t ux (TqSwap k) e w v ver cnt tr q loc lg) (solo t ux (TqVer k) e w v ver cnt tr (fresh_queues T0 M) q lg)"
    by (rule thread_to, rule tcq_thread.tq_swap) (simp_all add: solo_def)
  show "tcq_thread N M T0 t (solo t ux (TqVer k) e w v ver cnt tr q loc lg) (solo t ux (TqLReady k) e w v (ver + 1) cnt tr q loc lg)"
    by (rule thread_to, rule tcq_thread.tq_incver) (simp_all add: solo_def)
  show "tcq_thread N M T0 t (solo t ux (TqLReady k) e w v ver cnt tr q loc lg) (solo t ux (TqOpen k (ready_idx M cnt)) e w v ver (cnt + 1) tr q loc lg)"
    by (rule thread_to, rule tcq_thread.tq_lready) (simp_all add: solo_def)
  show "tcq_thread N M T0 t (solo t ux (TqOpen k i) e w v ver cnt tr q loc lg) (solo t ux (TqFill True PUid k i) e w True ver cnt tr q loc lg)"
    by (rule thread_to, rule tcq_thread.tq_open) (simp_all add: solo_def)
  show "tcq_thread N M T0 t (solo t ux (TqConf True k) e w v ver cnt tr q loc lg) (solo t ux (TqPoll k) e w v ver cnt (tr + 1) q loc lg)"
    by (rule thread_to, rule tcq_thread.tq_confirm [where lead = True]) (simp_all add: solo_def)
  show "tcq_thread N M T0 t (solo t ux (TqPoll k) e w v ver cnt tr q loc lg) (solo t ux (TqClose k) e w v ver cnt tr q loc lg)"
    by (rule thread_to, rule tcq_thread.tq_poll) (simp_all add: solo_def)
  show "tcq_thread N M T0 t (solo t ux (TqClose k) e w v ver cnt tr q loc lg) (solo t ux (TqWlock k) e w False ver cnt tr q loc lg)"
    by (rule thread_to, rule tcq_thread.tq_close) (simp_all add: solo_def)
  show "tcq_thread N M T0 t (solo t ux (TqWlock k) e w v ver cnt tr q loc lg) (solo t ux (TqWunl k) e w' v ver cnt tr q loc lg)" if "wl_move N t ShIdle ShWriter w w'"
    by (rule thread_to, rule tcq_thread.tq_wlock) (use that in \<open>simp_all add: solo_def\<close>)
  show "tcq_thread N M T0 t (solo t ux (TqWunl k) e w v ver cnt tr q loc lg) (solo t ux (TqLen k) e w' v ver cnt tr q loc lg)" if "wl_move N t ShWriter ShIdle w w'"
    by (rule thread_to, rule tcq_thread.tq_wunlock) (use that in \<open>simp_all add: solo_def\<close>)
  show "tcq_thread N M T0 t (solo t ux (TqLen k) e w v ver cnt tr q loc lg) (solo t ux (TqTake k tr) e w v ver cnt tr q loc lg)"
    by (rule thread_to, rule tcq_thread.tq_len) (simp_all add: solo_def)
  show "tcq_thread N M T0 t (solo t ux (TqTake k n) e w v ver cnt tr q loc lg) (solo t ux (TqUnlock k n) e w v ver cnt tr loc q lg)"
    by (rule thread_to, rule tcq_thread.tq_take) (simp_all add: solo_def)
  show "tcq_thread N M T0 t (solo t ux (TqUnlock k n) e w v ver cnt tr q loc lg) (solo t ux (TqHook k n) e' w v ver cnt tr q loc lg)" if "en_move t (SpinHold 0) SpinIdle e e'"
    by (rule thread_to, rule tcq_thread.tq_unlock) (use that in \<open>simp_all add: solo_def\<close>)
  show "tcq_thread N M T0 t (solo t ux (TqHook k n) e w v ver cnt tr q loc lg) (solo t ux TqIdle e w v ver cnt tr q no_queues (lg @ [resize_queues T0 (unat n) loc]))"
    by (rule thread_to, rule tcq_thread.tq_hook) (simp_all add: solo_def)
qed

lemma solo_fill:
  assumes "unat i < part_length p q"
  shows "tcq_thread N M T0 t (solo t ux (TqFill True p 0 i) e w v ver cnt tr q loc lg)
    (solo t ux (case next_part p of Some p' \<Rightarrow> TqFill True p' 0 i | None \<Rightarrow> TqConf True 0) e w v ver cnt tr
      (write_part p (unat i) 0 ux q) loc lg)"
  by (rule thread_to, rule tcq_thread.tq_fill [where lead = True and p = p and k = 0 and i = i])
    (use assms in \<open>simp_all add: solo_def\<close>)

definition solo_batch :: "'t \<Rightarrow> u32 \<Rightarrow> u64 \<times> 't \<Rightarrow> 't queues" where
  "solo_batch T0 M ux = write_part PPro 0 0 ux (write_part PTask 0 0 ux (write_part PUid 0 0 ux (fresh_queues T0 M)))"

lemma solo_filled:
  assumes "1 \<le> unat M" "t < N"
  shows "(tcq_step N M T0)\<^sup>*\<^sup>* (solo t ux (TqFill True PUid 0 0) e w v ver cnt tr (fresh_queues T0 M) loc lg)
    (solo t ux (TqConf True 0) e w v ver cnt tr (solo_batch T0 M ux) loc lg)"
proof -
  obtain u x where ux: "ux = (u, x)" by (cases ux)
  have M: "0 < unat M" using assms(1) by simp
  let ?q1 = "fresh_queues T0 M" let ?q2 = "write_part PUid 0 0 ux ?q1" let ?q3 = "write_part PTask 0 0 ux ?q2"
  note f = solo_fill [where i = 0 and N = N and M = M and ?T0.0 = T0 and t = t and ux = ux]
  have l: "0 < part_length PUid ?q1" "0 < part_length PTask ?q2" "0 < part_length PPro ?q3"
    using M ux by (simp_all add: fresh_queues_def)
  have f1: "tcq_thread N M T0 t (solo t ux (TqFill True PUid 0 0) e w v ver cnt tr ?q1 loc lg)
      (solo t ux (TqFill True PTask 0 0) e w v ver cnt tr ?q2 loc lg)"
    using f [of PUid ?q1] l(1) by simp
  have f2: "tcq_thread N M T0 t (solo t ux (TqFill True PTask 0 0) e w v ver cnt tr ?q2 loc lg)
      (solo t ux (TqFill True PPro 0 0) e w v ver cnt tr ?q3 loc lg)"
    using f [of PTask ?q2] l(2) by simp
  have f3: "tcq_thread N M T0 t (solo t ux (TqFill True PPro 0 0) e w v ver cnt tr ?q3 loc lg)
      (solo t ux (TqConf True 0) e w v ver cnt tr (solo_batch T0 M ux) loc lg)"
    using f [of PPro ?q3] l(3) by (simp add: solo_batch_def)
  show ?thesis
    by (rule steps_trans [OF f1 assms(2) steps_trans [OF f2 assms(2) steps_trans [OF f3 assms(2) rtranclp.rtrancl_refl]]])
qed

text \<open>The whole call: the task is the only one of its batch.\<close>

lemma solo_run:
  assumes "1 \<le> unat M" "t < N"
  shows "(tcq_step N M T0)\<^sup>*\<^sup>*
    (solo t ux (TqTry 0) (solo_en t SpinIdle 0) (solo_wl t ShIdle 0) False ver cnt tr no_queues no_queues [])
    (solo t ux TqIdle (solo_en t SpinIdle 0) (solo_wl t ShIdle 0) False (ver + 1) 1 1 no_queues no_queues
      [resize_queues T0 1 (solo_batch T0 M ux)])"
proof -
  have "M \<noteq> 0" using assms(1) by auto
  then have i: "ready_idx M 0 = 0" by (simp add: ready_idx_def)
  note st = steps_trans [OF _ assms(2)] and s = solo_steps [where t = t and ux = ux and N = N and M = M and ?T0.0 = T0]
  note wl = solo_wl_moves [OF assms(2)]
  have a: "(tcq_step N M T0)\<^sup>*\<^sup>*
      (solo t ux (TqTry 0) (solo_en t SpinIdle 0) (solo_wl t ShIdle 0) False ver cnt tr no_queues no_queues [])
      (solo t ux (TqFill True PUid 0 0) (solo_en t (SpinHold 0) 1) (solo_wl t ShIdle 0) True (ver + 1) 1 0 (fresh_queues T0 M) no_queues [])"
    by (rule st, rule s(1), rule solo_en_moves(1), rule st, rule s(2), rule solo_en_moves(2), rule st, rule s(3), rule st, rule s(4),
      rule st, rule s(5), rule st, rule s(6), rule st, rule s(7), unfold i, rule st, rule s(8)) simp
  have c: "(tcq_step N M T0)\<^sup>*\<^sup>*
      (solo t ux (TqConf True 0) (solo_en t (SpinHold 0) 1) (solo_wl t ShIdle 0) True (ver + 1) 1 0 q no_queues [])
      (solo t ux TqIdle (solo_en t SpinIdle 0) (solo_wl t ShIdle 0) False (ver + 1) 1 1 no_queues no_queues [resize_queues T0 1 q])" for q
    by (rule st, rule s(9), rule st, rule s(10), rule st, rule s(11), rule st, rule s(12), rule wl(1), rule st, rule s(13), rule wl(2),
      rule st, rule s(14), rule st, rule s(15), rule st, rule s(16), rule solo_en_moves(3), rule st, rule s(17)) simp
  show ?thesis using a solo_filled [OF assms] c by (meson rtranclp_trans)
qed

text \<open>With \<open>max_count = 0\<close> the leader gets the serial number \<open>-1\<close> and writes outside the empty vectors.\<close>

lemma solo_max_count_zero:
  assumes "t < N"
  shows "\<exists>s. (tcq_step N 0 T0)\<^sup>*\<^sup>*
    (solo t ux (TqTry 0) (solo_en t SpinIdle 0) (solo_wl t ShIdle 0) False ver cnt tr no_queues no_queues []) s \<and> tq_ub s"
proof -
  have i: "ready_idx 0 0 = - 1" by (simp add: ready_idx_def)
  note st = steps_trans [OF _ assms] and s = solo_steps [where t = t and ux = ux and N = N and M = 0 and ?T0.0 = T0]
  let ?s = "solo t ux (TqFill True PUid 0 (- 1)) (solo_en t (SpinHold 0) 1) (solo_wl t ShIdle 0) True (ver + 1) 1 0
    (fresh_queues T0 0) no_queues []"
  have a: "(tcq_step N 0 T0)\<^sup>*\<^sup>*
      (solo t ux (TqTry 0) (solo_en t SpinIdle 0) (solo_wl t ShIdle 0) False ver cnt tr no_queues no_queues []) ?s"
    by (rule st, rule s(1), rule solo_en_moves(1), rule st, rule s(2), rule solo_en_moves(2), rule st, rule s(3), rule st, rule s(4),
      rule st, rule s(5), rule st, rule s(6), rule st, rule s(7), unfold i, rule st, rule s(8)) simp
  have "tcq_thread N 0 T0 t ?s (?s\<lparr>tq_ub := True\<rparr>)"
    by (rule tcq_thread.tq_fill_out [where lead = True and p = PUid and k = 0 and i = "- 1"])
      (simp_all add: solo_def fresh_queues_def)
  then have "tcq_step N 0 T0 ?s (?s\<lparr>tq_ub := True\<rparr>)" using assms by (auto simp: tcq_step_def)
  with a show ?thesis by (intro exI [of _ "?s\<lparr>tq_ub := True\<rparr>"]) simp
qed

end
