(* ===== verification/Tcq_Properties.thy ===== *)
theory Tcq_Properties
  imports Tcq_Steps Tcq_Solo "HOL-Library.Multiset"
begin

text \<open>The promises of \<open>TCQueue\<close> are conserved, and what the batches contain.\<close>

section \<open>Where the promises are\<close>

fun pro_ms :: "nat option \<Rightarrow> nat multiset" where
  "pro_ms (Some k) = {#k#}"
| "pro_ms None = {#}"

definition proms :: "'t queues \<Rightarrow> nat multiset" where
  "proms q = sum_list (map pro_ms (q_pros q))"

definition tcq_promises :: "nat \<Rightarrow> 't tcq_state \<Rightarrow> nat multiset" where
  "tcq_promises N s = (\<Sum>u<N. pro_ms (tq_hold (tq_pc s u))) + proms (tq_q s) + (\<Sum>u<N. proms (tq_loc s u)) +
     sum_list (map proms (tq_log s))"

lemma proms_no_queues [simp]: "proms no_queues = {#}"
  by (simp add: proms_def no_queues_def)

lemma sum_list_pros_none: "\<forall>x\<in>set xs. x = None \<Longrightarrow> sum_list (map pro_ms xs) = {#}"
  by (induction xs) auto

lemma proms_fresh [simp]: "proms (fresh_queues T0 M) = {#}"
  using sum_list_pros_none [of "replicate (unat M) None"] by (simp add: proms_def fresh_queues_def)

lemma sum_list_pros_upd:
  "i < length xs \<Longrightarrow> xs ! i = None \<Longrightarrow> sum_list (map pro_ms (xs[i := Some k])) = add_mset k (sum_list (map pro_ms xs))"
  by (induction xs arbitrary: i) (auto split: nat.splits)

lemma proms_write:
  assumes "p = PPro \<Longrightarrow> i < length (q_pros q) \<and> q_pros q ! i = None"
  shows "proms (write_part p i k ux q) = proms q + (if p = PPro then {#k#} else {#})"
  using assms by (cases p; cases ux) (simp_all add: proms_def sum_list_pros_upd)

lemma proms_resize:
  assumes "taken_ok M n q"
  shows "proms (resize_queues T0 n q) = proms q"
proof -
  have l: "n \<le> length (q_pros q)" "\<forall>x\<in>set (drop n (q_pros q)). x = None"
    using assms by (auto simp: taken_ok_def in_set_conv_nth)
  have "sum_list (map pro_ms (take n (q_pros q) @ drop n (q_pros q))) = sum_list (map pro_ms (take n (q_pros q)))"
    unfolding map_append sum_list_append using sum_list_pros_none [OF l(2)] by simp
  then show ?thesis using l(1) by (simp add: proms_def resize_queues_def resize_def)
qed

lemma holds_upd:
  "t < (N :: nat) \<Longrightarrow> (\<Sum>u<N. pro_ms (tq_hold ((f(t := c)) u))) + pro_ms (tq_hold (f t)) = (\<Sum>u<N. pro_ms (tq_hold (f u))) + pro_ms (tq_hold c)"
  by (rule sum_fun_upd) simp_all

lemma locs_upd:
  "t < (N :: nat) \<Longrightarrow> (\<Sum>u<N. proms ((f(t := q)) u)) + proms (f t) = (\<Sum>u<N. proms (f u)) + proms q"
  by (rule sum_fun_upd) simp_all

text \<open>A step that keeps the promise of its thread and moves nothing keeps them all.\<close>

lemma promises_quiet:
  assumes "t < N" "tq_pc s' = (tq_pc s)(t := c)" "tq_hold c = tq_hold (tq_pc s t)"
    and "tq_q s' = tq_q s" "tq_loc s' = tq_loc s" "tq_log s' = tq_log s"
  shows "tcq_promises N s' = tcq_promises N s"
  using holds_upd [OF assms(1), of "tq_pc s" c] assms(2-6) by (simp add: tcq_promises_def)

lemma tcq_promises_step:
  assumes "tcq_thread N M T0 t s s'" "tcq_ctrl N s" "tcq_data N M s" "t < N"
    and "tcq_promises N s = mset [0..<length (tq_calls s)]"
  shows "tcq_promises N s' = mset [0..<length (tq_calls s')]"
proof -
  note loc = tcq_dataD(7) [OF assms(3), of t]
  note pcs = step_pcs [OF assms(1)]
  from assms(1) show ?thesis
  proof cases
    case (tq_call u x)
    then show ?thesis
      using holds_upd [OF assms(4), of "tq_pc s" "TqTry (length (tq_calls s))"] assms(5) by (simp add: tcq_promises_def)
  next
    case (tq_swap k)
    then show ?thesis
      using holds_upd [OF assms(4), of "tq_pc s" "TqVer k"] locs_upd [OF assms(4), of "tq_loc s" "tq_q s"] loc assms(5)
      by (simp add: tcq_promises_def ac_simps)
  next
    case (tq_take k n)
    then show ?thesis
      using holds_upd [OF assms(4), of "tq_pc s" "TqUnlock k n"] locs_upd [OF assms(4), of "tq_loc s" "tq_q s"] loc assms(5)
      by (simp add: tcq_promises_def ac_simps)
  next
    case (tq_hook k n)
    then have "proms (resize_queues T0 (unat n) (tq_loc s t)) = proms (tq_loc s t)" using loc by (simp add: proms_resize)
    moreover have "(\<Sum>u<N. proms (tq_loc s u)) = proms (tq_loc s t) + (\<Sum>u<N. proms (((tq_loc s)(t := no_queues)) u))"
      using locs_upd [OF assms(4), of "tq_loc s" no_queues] by (simp add: ac_simps)
    ultimately show ?thesis
      using tq_hook holds_upd [OF assms(4), of "tq_pc s" TqIdle] assms(5) by (simp add: tcq_promises_def ac_simps)
  next
    case (tq_fill lead p k i)
    then have sl: "tq_slot (tq_pc s t) = Some i" by simp
    let ?c = "case next_part p of None \<Rightarrow> TqConf lead k | Some p' \<Rightarrow> TqFill lead p' k i"
    have "proms (tq_q s') = proms (tq_q s) + (if p = PPro then {#k#} else {#})"
      using tq_fill slot_free(3,4) [OF assms(2,3) sl] by (simp add: proms_write)
    moreover have "(\<Sum>u<N. pro_ms (tq_hold (tq_pc s u))) =
        (\<Sum>u<N. pro_ms (tq_hold (((tq_pc s)(t := ?c)) u))) + (if p = PPro then {#k#} else {#})"
      using holds_upd [OF assms(4), of "tq_pc s" ?c] tq_fill by (cases p) (simp_all add: ac_simps)
    ultimately show ?thesis
      using tq_fill assms(5) by (simp add: tcq_promises_def ac_simps)
  qed (use assms(5) in \<open>subst promises_quiet [OF assms(4) pcs]; simp\<close>)+
qed

section \<open>The invariant of the whole\<close>

definition tcq_inv :: "nat \<Rightarrow> u32 \<Rightarrow> 't tcq_state \<Rightarrow> bool" where
  "tcq_inv N M s \<longleftrightarrow> tcq_ctrl N s \<and> tcq_data N M s \<and> tcq_promises N s = mset [0..<length (tq_calls s)]"

lemma tcq_inv_init:
  assumes "tcq_init s"
  shows "tcq_inv N M s"
proof -
  have "tcq_data N M s" using assms by (auto simp: tcq_data_def tcq_init_def count_ok_def batch_ok_def)
  moreover have "tcq_promises N s = {#}" using assms by (simp add: tcq_promises_def tcq_init_def)
  moreover have "tq_calls s = []" using assms by (simp add: tcq_init_def)
  ultimately show ?thesis using tcq_ctrl_init [OF assms] by (simp add: tcq_inv_def)
qed

interpretation tcq: transition_system tcq_init
    "\<lambda>s s'. tcq_step N M T0 s s' \<and> 2 * N + 1 < 256 \<and> unat M + N < 4294967296 \<and> 1 \<le> unat M" "tcq_inv N M" for N M T0
proof unfold_locales
  show "tcq_inv N M s" if "tcq_init s" for s :: "'a tcq_state" by (rule tcq_inv_init [OF that])
  show "tcq_inv N M s'"
    if i: "tcq_inv N M s" and st: "tcq_step N M T0 s s' \<and> 2 * N + 1 < 256 \<and> unat M + N < 4294967296 \<and> 1 \<le> unat M"
    for s s' :: "'a tcq_state"
  proof -
    obtain t where t: "t < N" "tcq_thread N M T0 t s s'" using st unfolding tcq_step_def by blast
    from i have inv: "tcq_ctrl N s" "tcq_data N M s" "tcq_promises N s = mset [0..<length (tq_calls s)]"
      by (auto simp: tcq_inv_def)
    show ?thesis
      unfolding tcq_inv_def
      using tcq_ctrl_step [OF inv(1) t(1) _ t(2)] tcq_data_step [OF t(2) inv(1,2) _ _ t(1)]
        tcq_promises_step [OF t(2) inv(1,2) t(1) inv(3)] st by blast
  qed
qed

section \<open>The batches\<close>

text \<open>The queues that hold the calls \<open>ks\<close>.\<close>

definition batch_of :: "(u64 \<times> 't) list \<Rightarrow> nat list \<Rightarrow> 't queues" where
  "batch_of cs ks = \<lparr>q_uids = map (\<lambda>k. fst (cs ! k)) ks, q_tasks = map (\<lambda>k. snd (cs ! k)) ks, q_pros = map Some ks\<rparr>"

lemma batch_ok_of:
  assumes "q_ok cs q" "batch_ok M q"
  shows "q = batch_of cs (map the (q_pros q))"
proof -
  have s: "\<exists>k. q_pros q ! i = Some k" if "i < length (q_pros q)" for i
    using assms(2) that by (metis batch_ok_def nth_mem option.exhaust)
  have "q_pros q = map Some (map the (q_pros q))"
    using s by (intro nth_equalityI) (auto simp: option.expand)
  moreover have "q_uids q = map (\<lambda>k. fst (cs ! k)) (map the (q_pros q))"
    "q_tasks q = map (\<lambda>k. snd (cs ! k)) (map the (q_pros q))"
    using s q_okD [OF assms(1)] assms(1) by (intro nth_equalityI; force simp: q_ok_def)+
  ultimately show ?thesis by (simp add: batch_of_def)
qed

lemma proms_batch: "proms (batch_of cs ks) = mset ks"
  by (induction ks) (simp_all add: proms_def batch_of_def)

lemma proms_batches: "sum_list (map proms (map (batch_of cs) kss)) = mset (concat kss)"
  by (induction kss) (simp_all add: proms_batch)


lemma distinct_sub_mset:
  assumes "mset xs \<subseteq># mset ys" "distinct ys"
  shows "distinct xs"
  unfolding distinct_count_atmost_1
proof
  fix a
  have "count (mset xs) a \<le> count (mset ys) a" using assms(1) by (rule mset_subset_eq_count)
  also have "\<dots> \<le> 1" using assms(2) by (auto simp: distinct_count_atmost_1)
  finally have "count (mset xs) a \<le> 1" .
  moreover have "0 < count (mset xs) a \<longleftrightarrow> a \<in> set xs" by simp
  ultimately show "count (mset xs) a = (if a \<in> set xs then 1 else 0)" by (cases "count (mset xs) a") auto
qed

lemma tcq_log_batches:
  assumes "tcq_inv N M s"
  obtains kss where "tq_log s = map (batch_of (tq_calls s)) kss" "\<forall>ks\<in>set kss. 1 \<le> length ks \<and> length ks \<le> unat M"
proof
  let ?kss = "map (\<lambda>q. map the (q_pros q)) (tq_log s)"
  have d: "tcq_data N M s" using assms by (simp add: tcq_inv_def)
  have "q = batch_of (tq_calls s) (map the (q_pros q))" if "q \<in> set (tq_log s)" for q
    using batch_ok_of tcq_dataD(3,4) [OF d that] by blast
  then show "tq_log s = map (batch_of (tq_calls s)) ?kss" by (simp add: map_idI)
  show "\<forall>ks\<in>set ?kss. 1 \<le> length ks \<and> length ks \<le> unat M" using tcq_dataD(4) [OF d] by (auto simp: batch_ok_def)
qed

lemma tcq_idle_promises:
  assumes "tcq_inv N M s" "\<forall>t. tq_pc s t = TqIdle"
  shows "tcq_promises N s = sum_list (map proms (tq_log s))"
proof -
  have d: "tcq_data N M s" using assms(1) by (simp add: tcq_inv_def)
  have "tq_q s = no_queues" using assms(2) by (intro tcq_dataD(11) [OF d]) simp
  moreover have "tq_loc s t = no_queues" for t using tcq_dataD(7) [OF d, of t] assms(2) by simp
  ultimately show ?thesis using assms(2) by (simp add: tcq_promises_def)
qed

text \<open>Property C7: with at most 127 threads and at least one slot (\<open>max_count\<close> and the threads together below \<open>2^32\<close>), in every interleaving of calls of
  \<open>task_enqueue\<close> no vector is accessed out of bounds, and every batch given to \<open>hook_batch_collection\<close> holds,
  index by index, uid, task and promise of between one and \<open>max_count\<close> calls; no call is in two places, and once
  all threads have returned every call is in a batch.\<close>

theorem tcq_batches:
  assumes "tcq_init s0" "(tcq_step N M T0)\<^sup>*\<^sup>* s0 s" "2 * N + 1 < 256" "1 \<le> unat M" "unat M + N < 2 ^ 32"
  shows "\<not> tq_ub s \<and> (\<exists>kss. tq_log s = map (batch_of (tq_calls s)) kss \<and> distinct (concat kss) \<and>
    (\<forall>ks\<in>set kss. 1 \<le> length ks \<and> length ks \<le> unat M) \<and> set (concat kss) \<subseteq> {..<length (tq_calls s)} \<and>
    ((\<forall>t. tq_pc s t = TqIdle) \<longrightarrow> set (concat kss) = {..<length (tq_calls s)}))"
proof -
  have "(\<lambda>s s'. tcq_step N M T0 s s' \<and> 2 * N + 1 < 256 \<and> unat M + N < 4294967296 \<and> 1 \<le> unat M)\<^sup>*\<^sup>* s0 s"
    using assms(2-5) by simp
  then have inv: "tcq_inv N M s" by (rule tcq.reach_inv [OF assms(1)])
  then have ub: "\<not> tq_ub s" using tcq_dataD(15) by (auto simp: tcq_inv_def)
  from inv obtain kss where kss: "tq_log s = map (batch_of (tq_calls s)) kss"
    "\<forall>ks\<in>set kss. 1 \<le> length ks \<and> length ks \<le> unat M" by (rule tcq_log_batches)
  have pr: "tcq_promises N s = mset [0..<length (tq_calls s)]" using inv by (simp add: tcq_inv_def)
  have sub: "mset (concat kss) \<subseteq># mset [0..<length (tq_calls s)]"
    using pr kss(1) by (simp only: tcq_promises_def proms_batches mset_subset_eq_add_right flip: pr)
  have "distinct (concat kss)" by (rule distinct_sub_mset [OF sub]) simp
  moreover have "set (concat kss) \<subseteq> {..<length (tq_calls s)}"
    using set_mset_mono [OF sub] by (auto simp: atLeast0LessThan)
  moreover have "set (concat kss) = {..<length (tq_calls s)}" if "\<forall>t. tq_pc s t = TqIdle"
  proof -
    have "mset (concat kss) = mset [0..<length (tq_calls s)]"
      using tcq_idle_promises [OF inv that] pr kss(1) by (simp only: proms_batches)
    then have "set (concat kss) = set [0..<length (tq_calls s)]" by (rule mset_eq_setD)
    then show ?thesis by (simp add: atLeast0LessThan)
  qed
  ultimately show ?thesis using ub kss by blast
qed


definition solo_start :: "nat tcq_state" where
  "solo_start = \<lparr>tq_en = solo_en 1 SpinIdle 0, tq_wl = solo_wl 1 ShIdle 0, tq_valid = False, tq_ver = 6, tq_cnt = 9, tq_try_cnt = 9,
     tq_q = no_queues, tq_loc = (\<lambda>_. no_queues), tq_pc = (\<lambda>_. TqIdle), tq_calls = [], tq_log = [], tq_failed = {}, tq_ub = False\<rparr>"

lemma solo_started:
  "tcq_init solo_start"
  "(tcq_step 3 4 0)\<^sup>*\<^sup>* solo_start
    (solo 1 (7, 42) TqIdle (solo_en 1 SpinIdle 0) (solo_wl 1 ShIdle 0) False 7 1 1 no_queues no_queues [resize_queues 0 1 (solo_batch 0 4 (7, 42))])"
proof -
  show "tcq_init solo_start"
    by (simp add: tcq_init_def solo_start_def spin_init_def shared_init_def solo_en_def solo_wl_def)
  have c: "tcq_thread 3 4 0 1 solo_start
      (solo 1 (7, 42) (TqTry 0) (solo_en 1 SpinIdle 0) (solo_wl 1 ShIdle 0) False 6 9 9 no_queues no_queues [])"
    by (rule thread_to, rule tcq_thread.tq_call [where u = 7 and x = 42]) (simp_all add: solo_start_def solo_def fun_eq_iff)
  show "(tcq_step 3 4 0)\<^sup>*\<^sup>* solo_start
    (solo 1 (7, 42) TqIdle (solo_en 1 SpinIdle 0) (solo_wl 1 ShIdle 0) False 7 1 1 no_queues no_queues [resize_queues 0 1 (solo_batch 0 4 (7, 42))])"
    using steps_trans [OF c _ solo_run [where ?T0.0 = 0]] by simp
qed

lemma tcq_batches_witness:
  "\<exists>s. (tcq_step 3 4 0)\<^sup>*\<^sup>* solo_start s \<and> \<not> tq_ub s \<and> tq_log s = [\<lparr>q_uids = [7], q_tasks = [42], q_pros = [Some 0]\<rparr>] \<and>
    (\<exists>kss. tq_log s = map (batch_of (tq_calls s)) kss \<and> set (concat kss) = {..<1})"
proof -
  let ?s = "solo 1 (7, 42) TqIdle (solo_en 1 SpinIdle 0) (solo_wl 1 ShIdle 0) False 7 1 1 no_queues no_queues
    [resize_queues (0 :: nat) 1 (solo_batch 0 4 (7, 42))]"
  have r: "replicate 4 y = [y, y, y, y]" for y :: 'b by (simp add: numeral_eq_Suc)
  have "tq_log ?s = [\<lparr>q_uids = [7], q_tasks = [42], q_pros = [Some 0]\<rparr>]"
    by (simp add: solo_def solo_batch_def resize_queues_def resize_def fresh_queues_def r)
  moreover have "\<forall>t. tq_pc ?s t = TqIdle" "length (tq_calls ?s) = 1" by (simp_all add: solo_def)
  moreover have "\<not> tq_ub ?s \<and> (\<exists>kss. tq_log ?s = map (batch_of (tq_calls ?s)) kss \<and> distinct (concat kss) \<and>
    (\<forall>ks\<in>set kss. 1 \<le> length ks \<and> length ks \<le> unat (4 :: u32)) \<and> set (concat kss) \<subseteq> {..<length (tq_calls ?s)} \<and>
    ((\<forall>t. tq_pc ?s t = TqIdle) \<longrightarrow> set (concat kss) = {..<length (tq_calls ?s)}))"
    by (rule tcq_batches [OF solo_started]) simp_all
  ultimately show ?thesis using solo_started(2) by (intro exI [of _ ?s]) metis
qed

end
