(* ===== verification/Tcq_Result.thy ===== *)
theory Tcq_Result
  imports Tcq_Properties
begin

text \<open>
  The way back in \<open>TCQueue\<close>: the leader's future maps the uids of its batch to indices, and \<open>get()\<close> of
  the leader fetches the results once and gives every promise of the batch its value. The hook is the
  user's code, hence a parameter; the promises are a map from calls to values.
\<close>

section \<open>The leader's future\<close>

record leader_state =
  ls_uid_map :: "(u64 \<times> nat) list"
  ls_pros :: "nat option list"
  ls_processed :: bool

text \<open>\<open>unordered_map::insert\<close> keeps the entry that is there.\<close>

definition insert_uid :: "u64 \<Rightarrow> nat \<Rightarrow> (u64 \<times> nat) list \<Rightarrow> (u64 \<times> nat) list" where
  "insert_uid u i m = (if map_of m u = None then m @ [(u, i)] else m)"

fun map_uids :: "nat \<Rightarrow> u64 list \<Rightarrow> (u64 \<times> nat) list \<Rightarrow> (u64 \<times> nat) list" where
  "map_uids i [] m = m"
| "map_uids i (u # us) m = map_uids (Suc i) us (insert_uid u i m)"

definition leader_of :: "'t queues \<Rightarrow> leader_state" where
  "leader_of q = \<lparr>ls_uid_map = map_uids 0 (q_uids q) [], ls_pros = q_pros q, ls_processed = False\<rparr>"

section \<open>Results\<close>

text \<open>\<open>set_value\<close> on a promise that has a value throws. What was set before a throw stays set.\<close>

fun set_results :: "leader_state \<Rightarrow> (u64 \<times> 'r) list \<Rightarrow> (nat \<Rightarrow> 'r option) \<Rightarrow> unit run \<times> (nat \<Rightarrow> 'r option)" where
  "set_results ls [] ps = (Ret (), ps)"
| "set_results ls ((u, r) # b) ps =
    (case map_of (ls_uid_map ls) u of
       None \<Rightarrow> (Throw ''uid error'', ps)
     | Some i \<Rightarrow>
         (case ls_pros ls ! i of
            None \<Rightarrow> set_results ls b ps
          | Some k \<Rightarrow> if ps k \<noteq> None then (Throw ''promise_already_satisfied'', ps)
                      else set_results ls b (ps(k := Some r))))"

definition process_batch :: "(nat \<Rightarrow> (u64 \<times> 'r) list) \<Rightarrow> leader_state \<Rightarrow> (nat \<Rightarrow> 'r option) \<Rightarrow>
    unit run \<times> leader_state \<times> (nat \<Rightarrow> 'r option)" where
  "process_batch hook ls ps =
    (if ls_processed ls then (Ret (), ls, ps)
     else let b = hook (length (ls_uid_map ls)) in
       if length b \<noteq> length (ls_uid_map ls) then (Throw ''size error'', ls, ps)
       else case set_results ls b ps of
         (Ret _, ps') \<Rightarrow> (Ret (), ls\<lparr>ls_processed := True\<rparr>, ps')
       | (e, ps') \<Rightarrow> (e, ls, ps'))"

text \<open>\<open>std::future::get\<close> waits for the value.\<close>

definition future_get :: "nat \<Rightarrow> (nat \<Rightarrow> 'r option) \<Rightarrow> 'r run" where
  "future_get k ps = (case ps k of None \<Rightarrow> Spin | Some r \<Rightarrow> Ret r)"

definition leader_get :: "(nat \<Rightarrow> (u64 \<times> 'r) list) \<Rightarrow> nat \<Rightarrow> leader_state \<Rightarrow> (nat \<Rightarrow> 'r option) \<Rightarrow>
    'r run \<times> leader_state \<times> (nat \<Rightarrow> 'r option)" where
  "leader_get hook k ls ps =
    (case process_batch hook ls ps of (o1, ls', ps') \<Rightarrow> (run_bind o1 (\<lambda>_. future_get k ps'), ls', ps'))"

text \<open>The handle \<open>future\<close> owns a state or none. Its move assignment swaps and then reaches the end of a
  function that should return a value.\<close>

definition fut_swap :: "'f option \<Rightarrow> 'f option \<Rightarrow> 'f option \<times> 'f option" where
  "fut_swap a b = (b, a)"

definition fut_move_ctor :: "'f option \<Rightarrow> 'f option \<times> 'f option" where
  "fut_move_ctor other = fut_swap None other"

definition fut_move_assign :: "'f option \<Rightarrow> 'f option \<Rightarrow> ('f option \<times> 'f option) run" where
  "fut_move_assign a other = run_bind (Ret (fut_swap a other)) (\<lambda>_. UB)"

section \<open>The index of the uids\<close>

lemma map_of_insert_uid: "map_of (insert_uid u i m) = (if map_of m u = None then (map_of m)(u \<mapsto> i) else map_of m)"
  by (auto simp: insert_uid_def fun_eq_iff map_add_def split: option.splits)

lemma map_uids_first:
  "map_of (map_uids i us m) u = (case map_of m u of Some j \<Rightarrow> Some j | None \<Rightarrow>
     if u \<in> set us then Some (i + length (takeWhile (\<lambda>v. v \<noteq> u) us)) else None)"
proof (induction i us m rule: map_uids.induct)
  case (2 i v us m)
  then show ?case by (auto simp: map_of_insert_uid split: option.splits)
qed (simp split: option.split)

lemma length_map_uids:
  "distinct us \<Longrightarrow> \<forall>u\<in>set us. map_of m u = None \<Longrightarrow> length (map_uids i us m) = length m + length us"
proof (induction i us m rule: map_uids.induct)
  case (2 i u us m)
  have "\<forall>v\<in>set us. map_of (insert_uid u i m) v = None" using 2(2,3) by (auto simp: map_of_insert_uid)
  with 2 show ?case by (simp add: insert_uid_def)
qed simp

lemma length_takeWhile_nth: "distinct us \<Longrightarrow> j < length us \<Longrightarrow> length (takeWhile (\<lambda>v. v \<noteq> us ! j) us) = j"
  by (induction us arbitrary: j) (auto simp: nth_Cons split: nat.splits)

lemma takeWhile_end:
  assumes "u \<in> set us"
  shows "length (takeWhile (\<lambda>v. v \<noteq> u) us) < length us" "us ! length (takeWhile (\<lambda>v. v \<noteq> u) us) = u"
  using assms by (induction us) auto

lemma leader_of_distinct:
  assumes "distinct (q_uids q)"
  shows "length (ls_uid_map (leader_of q)) = length (q_uids q)"
    "j < length (q_uids q) \<Longrightarrow> map_of (ls_uid_map (leader_of q)) (q_uids q ! j) = Some j"
    "u \<notin> set (q_uids q) \<Longrightarrow> map_of (ls_uid_map (leader_of q)) u = None"
  using assms by (simp_all add: leader_of_def length_map_uids map_uids_first length_takeWhile_nth)


section \<open>Every promise of the batch gets its value\<close>

abbreviation "uid_of cs k \<equiv> fst ((cs :: (u64 \<times> 't) list) ! k)"

lemma set_results_ok:
  fixes cs :: "(u64 \<times> 't) list"
  assumes "inj_on (uid_of cs) (set ks)" "distinct ks" "distinct (map fst b)" "set (map fst b) \<subseteq> uid_of cs ` set ks"
    and "\<forall>k\<in>set ks. uid_of cs k \<in> set (map fst b) \<longrightarrow> ps k = None"
  shows "set_results (leader_of (batch_of cs ks)) b ps =
    (Ret (), \<lambda>k. if k \<in> set ks \<and> uid_of cs k \<in> set (map fst b) then map_of b (uid_of cs k) else ps k)"
  using assms(3-5)
proof (induction b arbitrary: ps)
  case (Cons p b)
  obtain u r where p: "p = (u, r)" by (cases p)
  from Cons.prems(2) p obtain k where k: "k \<in> set ks" "u = uid_of cs k" by auto
  then obtain j where j: "j < length ks" "ks ! j = k" by (auto simp: in_set_conv_nth)
  let ?q = "batch_of cs ks"
  have "distinct (q_uids ?q)" using assms(1,2) by (simp add: batch_of_def distinct_map)
  then have "map_of (ls_uid_map (leader_of ?q)) u = Some j"
    using leader_of_distinct(2) [of ?q j] j k by (simp add: batch_of_def)
  moreover have "ls_pros (leader_of ?q) ! j = Some k" using j by (simp add: leader_of_def batch_of_def)
  moreover have "ps k = None" using Cons.prems(3) k p by simp
  ultimately have "set_results (leader_of ?q) (p # b) ps = set_results (leader_of ?q) b (ps(k := Some r))"
    using p by simp
  also have "\<dots> = (Ret (), \<lambda>l. if l \<in> set ks \<and> uid_of cs l \<in> set (map fst b) then map_of b (uid_of cs l)
      else (ps(k := Some r)) l)"
  proof (rule Cons.IH)
    show "distinct (map fst b)" "set (map fst b) \<subseteq> uid_of cs ` set ks" using Cons.prems(1,2) by auto
    show "\<forall>l\<in>set ks. uid_of cs l \<in> set (map fst b) \<longrightarrow> (ps(k := Some r)) l = None"
      using Cons.prems(1,3) p k by auto
  qed
  also have "\<dots> = (Ret (), \<lambda>l. if l \<in> set ks \<and> uid_of cs l \<in> set (map fst (p # b)) then map_of (p # b) (uid_of cs l) else ps l)"
    using inj_onD [OF assms(1)] k p Cons.prems(1) by (auto simp: fun_eq_iff)
  finally show ?case .
qed simp

lemma distinct_uids: "inj_on (uid_of cs) (set ks) \<Longrightarrow> distinct ks \<Longrightarrow> distinct (q_uids (batch_of cs ks))"
  by (simp add: batch_of_def distinct_map)

lemma ready_map_size:
  assumes "inj_on (uid_of cs) (set ks)" "distinct ks"
  shows "length (ls_uid_map (leader_of (batch_of cs ks))) = length ks"
  using leader_of_distinct(1) [OF distinct_uids [OF assms]] by (simp add: batch_of_def)

text \<open>Property C21: with distinct uids in a batch and a hook that answers each of them exactly once, in any order,
  \<open>get()\<close> of the leader and then of every follower returns the result of its own uid; asking again changes
  nothing. A hook that returns another number of results throws \<open>"size error"\<close> and leaves all promises alone.\<close>

theorem tcq_results:
  assumes "inj_on (uid_of cs) (set ks)" "distinct ks" "\<forall>k\<in>set ks. ps k = None" "k0 \<in> set ks"
    and "b = hook (length ks)"
  shows "if length b \<noteq> length ks then leader_get hook k0 (leader_of (batch_of cs ks)) ps = (Throw ''size error'', leader_of (batch_of cs ks), ps)
    else set (map fst b) = uid_of cs ` set ks \<longrightarrow>
      (\<exists>ls ps' r. leader_get hook k0 (leader_of (batch_of cs ks)) ps = (Ret r, ls, ps') \<and> map_of b (uid_of cs k0) = Some r \<and>
        (\<forall>k\<in>set ks. \<exists>r. future_get k ps' = Ret r \<and> map_of b (uid_of cs k) = Some r) \<and> (\<forall>k. k \<notin> set ks \<longrightarrow> ps' k = ps k) \<and>
        process_batch hook ls ps' = (Ret (), ls, ps'))"
proof (cases "length b = length ks")
  case False
  then show ?thesis
    using assms(5) ready_map_size [OF assms(1,2)] by (simp add: leader_get_def process_batch_def leader_of_def Let_def)
next
  case True
  let ?ls = "leader_of (batch_of cs ks)"
  let ?ps = "\<lambda>k. if k \<in> set ks \<and> uid_of cs k \<in> set (map fst b) then map_of b (uid_of cs k) else ps k"
  have "\<exists>ls ps' r. leader_get hook k0 ?ls ps = (Ret r, ls, ps') \<and> map_of b (uid_of cs k0) = Some r \<and>
      (\<forall>k\<in>set ks. \<exists>r. future_get k ps' = Ret r \<and> map_of b (uid_of cs k) = Some r) \<and> (\<forall>k. k \<notin> set ks \<longrightarrow> ps' k = ps k) \<and>
      process_batch hook ls ps' = (Ret (), ls, ps')" if keys: "set (map fst b) = uid_of cs ` set ks"
  proof -
    have "card (set (map fst b)) = length (map fst b)"
      unfolding keys using True assms(1,2) by (simp add: card_image distinct_card)
    then have "distinct (map fst b)" by (rule card_distinct)
    then have "set_results ?ls b ps = (Ret (), ?ps)"
      by (rule set_results_ok [OF assms(1,2)]) (use keys assms(3) in auto)
    then have pb: "process_batch hook ?ls ps = (Ret (), ?ls\<lparr>ls_processed := True\<rparr>, ?ps)"
      using True assms(5) ready_map_size [OF assms(1,2)] by (simp add: process_batch_def leader_of_def Let_def)
    have val: "\<exists>r. map_of b (uid_of cs k) = Some r \<and> future_get k ?ps = Ret r" if "k \<in> set ks" for k
    proof -
      have k: "uid_of cs k \<in> set (map fst b)" using that keys by blast
      then obtain r where "map_of b (uid_of cs k) = Some r" by (metis map_of_eq_None_iff list.set_map option.exhaust)
      with k that show ?thesis by (simp add: future_get_def)
    qed
    obtain r where r: "map_of b (uid_of cs k0) = Some r" "future_get k0 ?ps = Ret r" using val [OF assms(4)] by blast
    have "leader_get hook k0 ?ls ps = (Ret r, ?ls\<lparr>ls_processed := True\<rparr>, ?ps)"
      using pb r(2) by (simp add: leader_get_def)
    moreover have "process_batch hook (?ls\<lparr>ls_processed := True\<rparr>) ?ps = (Ret (), ?ls\<lparr>ls_processed := True\<rparr>, ?ps)"
      by (simp add: process_batch_def)
    ultimately show ?thesis using r(1) val by (intro exI [of _ "?ls\<lparr>ls_processed := True\<rparr>"] exI [of _ ?ps] exI [of _ r]) auto
  qed
  with True show ?thesis by simp
qed


lemma tcq_results_witness:
  "\<exists>ls ps'. leader_get (\<lambda>n. [(9, ''nine''), (5, ''five'')]) 0 (leader_of (batch_of [(5, True), (9, False)] [0, 1])) (\<lambda>_. None) =
      (Ret ''five'', ls, ps') \<and> future_get 1 ps' = Ret ''nine''"
proof -
  let ?cs = "[(5, True), (9, False)] :: (u64 \<times> bool) list" and ?b = "[(9, ''nine''), (5, ''five'')] :: (u64 \<times> string) list"
  have "inj_on (uid_of ?cs) (set [0, 1])" "set (map fst ?b) = uid_of ?cs ` set [0, 1]" by auto
  then show ?thesis
    using tcq_results [of ?cs "[0, 1]" "\<lambda>_. None" 0 ?b "\<lambda>_. ?b"] by auto
qed

section \<open>Two calls with one uid\<close>

lemma set_results_other:
  assumes "\<forall>u i. map_of (ls_uid_map ls) u = Some i \<longrightarrow> ls_pros ls ! i \<noteq> Some k"
  shows "snd (set_results ls b ps) k = ps k"
proof (induction b arbitrary: ps)
  case (Cons p b)
  then show ?case using assms by (cases p) (auto split: option.splits)
qed simp

lemma process_batch_other:
  assumes "\<forall>u i. map_of (ls_uid_map ls) u = Some i \<longrightarrow> ls_pros ls ! i \<noteq> Some k"
  shows "snd (snd (process_batch hook ls ps)) k = ps k"
  using set_results_other [OF assms, of "hook (length (ls_uid_map ls))" ps]
  by (auto simp: process_batch_def Let_def split: run.splits prod.splits)

text \<open>Property C35: when two calls of one batch have the same uid, only the first is in \<open>uid_map\<close>: whatever the
  hook returns, the promise of the second gets no value, and its \<open>get()\<close> waits as long as the leader's future exists.\<close>

theorem tcq_duplicate_uid_starves:
  assumes "i < j" "j < length ks" "distinct ks" "uid_of cs (ks ! i) = uid_of cs (ks ! j)" "ps (ks ! j) = None"
  shows "future_get (ks ! j) (snd (snd (process_batch hook (leader_of (batch_of cs ks)) ps))) = Spin"
proof -
  let ?q = "batch_of cs ks"
  have "\<forall>u m. map_of (ls_uid_map (leader_of ?q)) u = Some m \<longrightarrow> ls_pros (leader_of ?q) ! m \<noteq> Some (ks ! j)"
  proof (intro allI impI)
    fix u m assume "map_of (ls_uid_map (leader_of ?q)) u = Some m"
    then have m: "u \<in> set (q_uids ?q)" "m = length (takeWhile (\<lambda>v. v \<noteq> u) (q_uids ?q))"
      by (auto simp: leader_of_def map_uids_first split: if_splits)
    have len: "m < length (q_uids ?q)" "q_uids ?q ! m = u"
      using m takeWhile_end [OF m(1)] by auto
    have "m \<noteq> j"
    proof
      assume "m = j"
      then have "u = uid_of cs (ks ! i)" using len assms(2,4) by (simp add: batch_of_def)
      moreover have "q_uids ?q ! i \<noteq> u"
        using nth_mem [of i "takeWhile (\<lambda>v. v \<noteq> u) (q_uids ?q)"] assms(1) m(2) \<open>m = j\<close> set_takeWhileD [of _ "\<lambda>v. v \<noteq> u" "q_uids ?q"]
        by (metis takeWhile_nth)
      ultimately show False using assms(1,2) by (simp add: batch_of_def)
    qed
    then show "ls_pros (leader_of ?q) ! m \<noteq> Some (ks ! j)"
      using len(1) assms(2,3) by (simp add: leader_of_def batch_of_def nth_eq_iff_index_eq)
  qed
  then have "snd (snd (process_batch hook (leader_of ?q) ps)) (ks ! j) = None"
    using process_batch_other assms(5) by metis
  then show ?thesis by (simp add: future_get_def)
qed

lemma tcq_duplicate_uid_starves_witness:
  "future_get 1 (snd (snd (process_batch (\<lambda>n. [(5, ''five'')]) (leader_of (batch_of [(5, True), (5, False)] [0, 1])) (\<lambda>_. None)))) = Spin"
  using tcq_duplicate_uid_starves [of 0 1 "[0, 1]" "[(5, True), (5, False)]" "\<lambda>_. None" "\<lambda>n. [(5, ''five'')]"] by simp

end
