(* ===== verification/Ordered_Map.thy ===== *)
theory Ordered_Map
  imports Prelude
begin

text \<open>
  \<open>std::set\<close> and \<open>std::map\<close> as strictly sorted lists, with the operations the allocator uses:
  \<open>insert\<close> (no effect on a present key), \<open>erase\<close>, assignment through an iterator, \<open>lower_bound\<close>,
  and the element before a key.
\<close>

primrec os_insert :: "'a::linorder \<Rightarrow> 'a list \<Rightarrow> 'a list" where
  "os_insert x [] = [x]"
| "os_insert x (y # ys) = (if x < y then x # y # ys else if x = y then y # ys else y # os_insert x ys)"

definition os_erase :: "'a \<Rightarrow> 'a list \<Rightarrow> 'a list" where
  "os_erase x xs = filter (\<lambda>y. y \<noteq> x) xs"

definition os_lower :: "'a::linorder \<Rightarrow> 'a list \<Rightarrow> 'a option" where
  "os_lower x xs = List.find (\<lambda>y. x \<le> y) xs"

primrec om_insert :: "'k::linorder \<Rightarrow> 'v \<Rightarrow> ('k \<times> 'v) list \<Rightarrow> ('k \<times> 'v) list" where
  "om_insert k v [] = [(k, v)]"
| "om_insert k v (p # ps) =
    (if k < fst p then (k, v) # p # ps else if k = fst p then p # ps else p # om_insert k v ps)"

definition om_erase :: "'k \<Rightarrow> ('k \<times> 'v) list \<Rightarrow> ('k \<times> 'v) list" where
  "om_erase k m = filter (\<lambda>p. fst p \<noteq> k) m"

definition om_assign :: "'k \<Rightarrow> 'v \<Rightarrow> ('k \<times> 'v) list \<Rightarrow> ('k \<times> 'v) list" where
  "om_assign k v m = map (\<lambda>p. if fst p = k then (k, v) else p) m"

definition om_lower :: "'k::linorder \<Rightarrow> ('k \<times> 'v) list \<Rightarrow> ('k \<times> 'v) option" where
  "om_lower k m = List.find (\<lambda>p. k \<le> fst p) m"

definition om_before :: "'k::linorder \<Rightarrow> ('k \<times> 'v) list \<Rightarrow> ('k \<times> 'v) option" where
  "om_before k m = List.find (\<lambda>p. fst p < k) (rev m)"

definition os_ok :: "'a::linorder list \<Rightarrow> bool" where
  "os_ok xs \<longleftrightarrow> sorted_wrt (<) xs"

definition om_ok :: "('k::linorder \<times> 'v) list \<Rightarrow> bool" where
  "om_ok m \<longleftrightarrow> sorted_wrt (\<lambda>p q. fst p < fst q) m"

lemma set_os_insert [simp]: "set (os_insert x xs) = insert x (set xs)"
  by (induction xs) auto

lemma set_os_erase [simp]: "set (os_erase x xs) = set xs - {x}"
  by (auto simp: os_erase_def)

lemma os_ok_insert: "os_ok xs \<Longrightarrow> os_ok (os_insert x xs)"
  unfolding os_ok_def by (induction xs) auto

lemma os_ok_erase: "os_ok xs \<Longrightarrow> os_ok (os_erase x xs)"
  by (simp add: os_ok_def os_erase_def sorted_wrt_filter)

lemma om_ok_keys: "om_ok m \<Longrightarrow> (k, v) \<in> set m \<Longrightarrow> (k, w) \<in> set m \<Longrightarrow> v = w"
  unfolding om_ok_def by (induction m) fastforce+

lemma set_om_insert: "k \<notin> fst ` set m \<Longrightarrow> set (om_insert k v m) = insert (k, v) (set m)"
  by (induction m) auto

lemma om_insert_keys: "fst ` set (om_insert k v m) = insert k (fst ` set m)"
  by (induction m) auto

lemma om_ok_insert: "om_ok m \<Longrightarrow> om_ok (om_insert k v m)"
proof (induction m)
  case (Cons p m)
  have "\<forall>q\<in>set (om_insert k v m). fst q \<in> insert k (fst ` set m)"
    using om_insert_keys [of k v m] by blast
  with Cons show ?case by (fastforce simp: om_ok_def)
qed (simp add: om_ok_def)

lemma set_om_erase: "set (om_erase k m) = {p \<in> set m. fst p \<noteq> k}"
  by (auto simp: om_erase_def)

lemma set_om_erase_pair: "om_ok m \<Longrightarrow> (k, v) \<in> set m \<Longrightarrow> set (om_erase k m) = set m - {(k, v)}"
  by (auto simp: set_om_erase dest: om_ok_keys)

lemma om_ok_erase: "om_ok m \<Longrightarrow> om_ok (om_erase k m)"
  by (simp add: om_ok_def om_erase_def sorted_wrt_filter)

lemma set_om_assign: "om_ok m \<Longrightarrow> (k, v) \<in> set m \<Longrightarrow> set (om_assign k w m) = insert (k, w) (set m - {(k, v)})"
  by (auto simp: om_assign_def image_iff dest: om_ok_keys)

lemma om_ok_assign: "om_ok m \<Longrightarrow> om_ok (om_assign k w m)"
proof -
  have "fst (if fst p = k then (k, w) else p) = fst p" for p :: "'a \<times> 'b" by simp
  then show "om_ok m \<Longrightarrow> om_ok (om_assign k w m)"
    by (simp only: om_ok_def om_assign_def sorted_wrt_map)
qed

lemma find_SomeD: "List.find P xs = Some x \<Longrightarrow> x \<in> set xs \<and> P x"
  by (induction xs) (auto split: if_splits)

lemma find_sorted_least:
  assumes "sorted_wrt R xs" "List.find P xs = Some x" "y \<in> set xs" "P y" "transp R"
  shows "y = x \<or> R x y"
  using assms by (induction xs) (auto split: if_splits)

lemma os_lower_Some:
  assumes "os_ok xs" "os_lower x xs = Some y"
  shows "y \<in> set xs \<and> x \<le> y \<and> (\<forall>z\<in>set xs. x \<le> z \<longrightarrow> y \<le> z)"
  using assms find_sorted_least [of "(<)" xs "\<lambda>z. x \<le> z" y]
  by (auto simp: os_ok_def os_lower_def find_Some_iff dest: less_imp_le)

lemma os_lower_None: "os_lower x xs = None \<longleftrightarrow> (\<forall>z\<in>set xs. \<not> x \<le> z)"
  by (auto simp: os_lower_def find_None_iff)

lemma om_lower_Some:
  assumes "om_ok m" "om_lower k m = Some (a, v)"
  shows "(a, v) \<in> set m \<and> k \<le> a \<and> (\<forall>(b, w)\<in>set m. k \<le> b \<longrightarrow> a \<le> b)"
proof -
  have "transp (\<lambda>p q :: 'a \<times> 'b. fst p < fst q)" by (auto intro: transpI)
  then have "y = (a, v) \<or> a < fst y" if "y \<in> set m" "k \<le> fst y" for y
    using find_sorted_least [OF assms(1) [unfolded om_ok_def] assms(2) [unfolded om_lower_def]] that by fastforce
  then have "\<forall>(b, w)\<in>set m. k \<le> b \<longrightarrow> a \<le> b" by fastforce
  moreover have "(a, v) \<in> set m \<and> k \<le> a"
    using find_SomeD [OF assms(2) [unfolded om_lower_def]] by simp
  ultimately show ?thesis by blast
qed

lemma om_lower_None: "om_lower k m = None \<longleftrightarrow> (\<forall>(b, w)\<in>set m. b < k)"
  by (auto simp: om_lower_def find_None_iff)

lemma om_before_Some:
  assumes "om_ok m" "om_before k m = Some (a, v)"
  shows "(a, v) \<in> set m \<and> a < k \<and> (\<forall>(b, w)\<in>set m. b < k \<longrightarrow> b \<le> a)"
proof -
  have "transp (\<lambda>p q :: 'a \<times> 'b. fst q < fst p)" by (auto intro: transpI)
  moreover have "sorted_wrt (\<lambda>p q. fst q < fst p) (rev m)" using assms(1) by (simp add: om_ok_def sorted_wrt_rev)
  ultimately have "y = (a, v) \<or> fst y < a" if "y \<in> set m" "fst y < k" for y
    using find_sorted_least [of "\<lambda>p q. fst q < fst p" "rev m" "\<lambda>p. fst p < k" "(a, v)"] assms(2) that
    by (simp add: om_before_def)
  then have "\<forall>(b, w)\<in>set m. b < k \<longrightarrow> b \<le> a" by fastforce
  moreover have "(a, v) \<in> set m \<and> a < k"
    using find_SomeD [OF assms(2) [unfolded om_before_def]] by simp
  ultimately show ?thesis by simp
qed

lemma om_before_None: "om_before k m = None \<longleftrightarrow> (\<forall>(b, w)\<in>set m. k \<le> b)"
  by (auto simp: om_before_def find_None_iff)

end
