(* ===== verification/Segments.thy ===== *)
theory Segments
  imports Prelude
begin

text \<open>
  Sets of address ranges \<open>(o, z)\<close>, \<open>z > 0\<close>, no two of which touch: the abstract view of a free
  list. Such a set is determined by the set of addresses it covers.
\<close>

definition apart :: "(nat \<times> nat) set \<Rightarrow> bool" where
  "apart T \<longleftrightarrow> (\<forall>(o1, z1)\<in>T. 0 < z1 \<and> (\<forall>(o2, z2)\<in>T. (o1 < o2 \<longrightarrow> o1 + z1 < o2) \<and> (o1 = o2 \<longrightarrow> z1 = z2)))"

definition covered :: "(nat \<times> nat) set \<Rightarrow> nat set" where
  "covered T = (\<Union>(b, z)\<in>T. {b..<b + z})"

lemma covered_iff: "x \<in> covered T \<longleftrightarrow> (\<exists>b z. (b, z) \<in> T \<and> b \<le> x \<and> x < b + z)"
  by (force simp: covered_def)

lemma covered_I: "(b, z) \<in> T \<Longrightarrow> b \<le> x \<Longrightarrow> x < b + z \<Longrightarrow> x \<in> covered T"
  by (force simp: covered_def)

lemma covered_I': "(b, z) \<in> T \<Longrightarrow> {b..<b + z} \<subseteq> covered T"
  by (auto intro: covered_I)

lemma apartD:
  assumes "apart T" "(o1, z1) \<in> T"
  shows "0 < z1" "(o2, z2) \<in> T \<Longrightarrow> o1 < o2 \<Longrightarrow> o1 + z1 < o2" "(o1, z2) \<in> T \<Longrightarrow> z2 = z1"
proof -
  show "0 < z1" using assms unfolding apart_def by blast
  show "(o2, z2) \<in> T \<Longrightarrow> o1 < o2 \<Longrightarrow> o1 + z1 < o2" using assms unfolding apart_def by blast
  show "(o1, z2) \<in> T \<Longrightarrow> z2 = z1" using assms unfolding apart_def by blast
qed

lemma apart_owner:
  assumes "apart T" "(o1, z1) \<in> T" "(o2, z2) \<in> T" "o1 \<le> x" "x \<le> o1 + z1" "o2 \<le> x" "x \<le> o2 + z2"
  shows "(o1, z1) = (o2, z2)"
  using apartD [OF assms(1,2)] apartD [OF assms(1,3)] assms(2-7) by (metis le_trans not_le nat_neq_iff)

text \<open>The segments are the maximal runs of covered addresses.\<close>

lemma apart_maximal:
  assumes "apart T"
  shows "(b, z) \<in> T \<longleftrightarrow> 0 < z \<and> {b..<b + z} \<subseteq> covered T \<and> b + z \<notin> covered T \<and> (b = 0 \<or> b - 1 \<notin> covered T)"
    (is "_ \<longleftrightarrow> ?R")
proof
  assume m: "(b, z) \<in> T"
  have "b + z \<notin> covered T"
  proof
    assume "b + z \<in> covered T"
    then obtain o2 z2 where "(o2, z2) \<in> T" "o2 \<le> b + z" "b + z < o2 + z2" by (auto simp: covered_iff)
    with apart_owner [OF assms m this(1), of "b + z"] show False by simp
  qed
  moreover have "b - 1 \<notin> covered T" if "b \<noteq> 0"
  proof
    assume "b - 1 \<in> covered T"
    then obtain o2 z2 where "(o2, z2) \<in> T" "o2 \<le> b - 1" "b - 1 < o2 + z2" by (auto simp: covered_iff)
    with apartD(2) [OF assms this(1) m] that show False by linarith
  qed
  ultimately show ?R using apartD(1) [OF assms m] covered_I' [OF m] by blast
next
  assume r: ?R
  then have "b \<in> covered T" by auto
  then obtain o2 z2 where s: "(o2, z2) \<in> T" "o2 \<le> b" "b < o2 + z2" by (auto simp: covered_iff)
  have "o2 = b"
  proof (rule ccontr)
    assume "o2 \<noteq> b"
    then have "b - 1 \<in> covered T" using s by (intro covered_I [of o2 z2]) auto
    with r \<open>o2 \<noteq> b\<close> s show False by auto
  qed
  moreover have "z2 = z"
  proof (rule ccontr)
    assume "z2 \<noteq> z"
    then consider "z < z2" | "z2 < z" by linarith
    then show False
    proof cases
      case 1
      then have "b + z \<in> covered T" using s \<open>o2 = b\<close> by (intro covered_I [of o2 z2]) auto
      with r show False by blast
    next
      case 2
      then have "b + z2 \<in> covered T" using r by auto
      then obtain o3 z3 where t: "(o3, z3) \<in> T" "o3 \<le> b + z2" "b + z2 < o3 + z3" by (auto simp: covered_iff)
      with apart_owner [OF assms s(1) t(1), of "b + z2"] \<open>o2 = b\<close> show False by simp
    qed
  qed
  ultimately show "(b, z) \<in> T" using s by simp
qed

lemma apart_unique: "apart T \<Longrightarrow> apart T' \<Longrightarrow> covered T = covered T' \<Longrightarrow> T = T'"
  using apart_maximal [of T] apart_maximal [of T'] by (auto simp: set_eq_iff)

lemma covered_Un: "covered (S \<union> T) = covered S \<union> covered T"
  by (auto simp: covered_def)

lemma covered_insert: "covered (insert (b, z) T) = {b..<b + z} \<union> covered T"
  by (auto simp: covered_def)

lemma apart_subset: "apart T \<Longrightarrow> S \<subseteq> T \<Longrightarrow> apart S"
  unfolding apart_def by blast

lemma apart_insert:
  assumes "apart T" "0 < z" "\<And>b' z'. (b', z') \<in> T \<Longrightarrow> b' + z' < b \<or> b + z < b'"
  shows "apart (insert (b, z) T)"
  using assms unfolding apart_def by (auto; fastforce)

lemma covered_remove:
  assumes "apart T" "(b, z) \<in> T"
  shows "covered (T - {(b, z)}) = covered T - {b..<b + z}"
proof -
  have "(b', z') = (b, z)" if "(b', z') \<in> T" "b' \<le> x" "x < b' + z'" "b \<le> x" "x < b + z" for b' z' x
    using apart_owner [OF assms(1) that(1) assms(2), of x] that by simp
  then show ?thesis by (auto simp: covered_iff) blast+
qed

section \<open>Cutting a piece off the front, and giving a piece back\<close>

lemma cut_front:
  assumes "apart T" "(b, z) \<in> T" "0 < n" "n \<le> z"
    and "T' = (T - {(b, z)}) \<union> (if n < z then {(b + n, z - n)} else {})"
  shows "apart T' \<and> covered T' = covered T - {b..<b + n}"
proof (cases "n < z")
  case True
  have "b' + z' < b + n \<or> b + n + (z - n) < b'" if "(b', z') \<in> T - {(b, z)}" for b' z'
  proof -
    have "b' + z' < b \<or> b + z < b'"
      using that apartD [OF assms(1,2)] apartD [OF assms(1), of b' z'] assms(2)
      by (metis Diff_iff insertCI linorder_neqE_nat)
    then show ?thesis using True by linarith
  qed
  then have "apart (insert (b + n, z - n) (T - {(b, z)}))"
    using True apart_subset [OF assms(1)] by (intro apart_insert) auto
  moreover have "covered (insert (b + n, z - n) (T - {(b, z)})) = covered T - {b..<b + n}"
    using assms(3,4) covered_I' [OF assms(2)] by (simp add: covered_insert covered_remove [OF assms(1,2)]) auto
  ultimately show ?thesis using True assms(5) by simp
next
  case False
  then have "n = z" using assms(4) by simp
  then show ?thesis using assms(5) covered_remove [OF assms(1,2)] apart_subset [OF assms(1)] by auto
qed

text \<open>\<open>A\<close> are the segments that end at \<open>p\<close>, \<open>B\<close> those that begin at \<open>p + n\<close>.\<close>

lemma give_back:
  assumes "apart T" "0 < n" "{p..<p + n} \<inter> covered T = {}"
    and "A \<subseteq> T" "B \<subseteq> T" "\<And>b z. (b, z) \<in> T \<Longrightarrow> b + z = p \<longleftrightarrow> (b, z) \<in> A" "\<And>b z. (b, z) \<in> T \<Longrightarrow> b = p + n \<longleftrightarrow> (b, z) \<in> B"
    and "b \<le> p" "p + n \<le> e" "{b..<e} = covered A \<union> {p..<p + n} \<union> covered B"
  shows "apart (insert (b, e - b) (T - A - B)) \<and>
    covered (insert (b, e - b) (T - A - B)) = covered T \<union> {p..<p + n}"
proof -
  have out: "b' + z' < p \<or> p + n < b'" if "(b', z') \<in> T - A - B" for b' z'
  proof (rule ccontr)
    assume n: "\<not> (b' + z' < p \<or> p + n < b')"
    have "b' + z' \<noteq> p" "b' \<noteq> p + n" "(b', z') \<in> T" using that assms(6,7) by blast+
    with n have "b' < p + n" "p < b' + z'" by linarith+
    moreover have "0 < z'" using apartD(1) [OF assms(1) \<open>(b', z') \<in> T\<close>] .
    ultimately have "max b' p \<in> {p..<p + n}" "max b' p \<in> covered T"
      using assms(2) covered_I [OF \<open>(b', z') \<in> T\<close>, of "max b' p"] by simp_all
    with assms(3) show False by blast
  qed
  have sep: "b' + z' < b \<or> e < b'" if "(b', z') \<in> T - A - B" for b' z'
  proof (rule ccontr)
    assume n: "\<not> (b' + z' < b \<or> e < b')"
    have m: "(b', z') \<in> T" "0 < z'" using that apartD(1) [OF assms(1)] by blast+
    from out [OF that] show False
    proof
      assume l: "b' + z' < p"
      with n have "b' + z' \<in> {b..<e}" using assms(2,9) by auto
      with l have "b' + z' \<in> covered A \<union> covered B" unfolding assms(10) by auto
      then have "b' + z' \<in> covered T" using assms(4,5) by (auto simp: covered_iff)
      with m apart_maximal [OF assms(1), of b' z'] show False by blast
    next
      assume g: "p + n < b'"
      with n have "b' - 1 \<in> {b..<e}" using assms(2,8) by auto
      with g have "b' - 1 \<in> covered A \<union> covered B" unfolding assms(10) by auto
      then have "b' - 1 \<in> covered T" using assms(4,5) by (auto simp: covered_iff)
      with m g apart_maximal [OF assms(1), of b' z'] show False by simp
    qed
  qed
  then have "apart (insert (b, e - b) (T - A - B))"
    using assms(2,8,9) apart_subset [OF assms(1), of "T - A - B"] by (intro apart_insert) auto
  moreover have "b + (e - b) = e" using assms(8,9) by simp
  moreover have "covered T = covered (T - A - B) \<union> covered A \<union> covered B"
    using assms(4,5) by (auto simp: covered_def)
  ultimately show ?thesis using assms(10) by (auto simp: covered_insert)
qed

end
