(* ===== verification/Allocator_Interface.thy ===== *)
theory Allocator_Interface
  imports Prelude
begin

text \<open>
  What a client may expect of an allocator of address ranges: blocks come out of the free space,
  go back into it, and nothing else changes. A client that allocates and frees in any order
  then owns disjoint blocks that, with the free space, make up the region.
\<close>

definition blk :: "u64 \<times> u64 \<Rightarrow> nat set" where
  "blk b = {unat (fst b)..<unat (fst b) + unat (snd b)}"

text \<open>The client: \<open>AllocOp n\<close> asks for \<open>n\<close> bytes, \<open>FreeOp i\<close> gives back the \<open>i\<close>-th live block.\<close>

datatype alloc_op = AllocOp u64 | FreeOp nat

primrec client_step ::
  "(u64 \<Rightarrow> 's \<Rightarrow> u64 \<times> 's) \<Rightarrow> (u64 \<Rightarrow> u64 \<Rightarrow> 's \<Rightarrow> 's) \<Rightarrow> alloc_op \<Rightarrow> 's \<times> (u64 \<times> u64) list \<Rightarrow> 's \<times> (u64 \<times> u64) list"
where
  "client_step al de (AllocOp n) c =
    (let (p, s) = al n (fst c) in (s, if p = 0 then snd c else snd c @ [(p, n)]))"
| "client_step al de (FreeOp i) c =
    (de (fst (snd c ! i)) (snd (snd c ! i)) (fst c), take i (snd c) @ drop (Suc i) (snd c))"

fun client_ok :: "alloc_op \<Rightarrow> 's \<times> (u64 \<times> u64) list \<Rightarrow> bool" where
  "client_ok (AllocOp n) c \<longleftrightarrow> n \<noteq> 0"
| "client_ok (FreeOp i) c \<longleftrightarrow> i < length (snd c)"

text \<open>\<open>client_run ops c\<close>: the end of the run, None if an operation was not allowed.\<close>

fun client_run ::
  "(u64 \<Rightarrow> 's \<Rightarrow> u64 \<times> 's) \<Rightarrow> (u64 \<Rightarrow> u64 \<Rightarrow> 's \<Rightarrow> 's) \<Rightarrow> alloc_op list \<Rightarrow>
    's \<times> (u64 \<times> u64) list \<Rightarrow> ('s \<times> (u64 \<times> u64) list) option"
where
  "client_run al de [] c = Some c"
| "client_run al de (x # xs) c = (if client_ok x c then client_run al de xs (client_step al de x c) else None)"

definition live_space :: "(u64 \<times> u64) list \<Rightarrow> nat set" where
  "live_space ls = (\<Union>b\<in>set ls. blk b)"

locale region_allocator =
  fixes wf :: "'s \<Rightarrow> bool" and region :: "'s \<Rightarrow> nat set" and free :: "'s \<Rightarrow> nat set"
    and alloc :: "u64 \<Rightarrow> 's \<Rightarrow> u64 \<times> 's" and dealloc :: "u64 \<Rightarrow> u64 \<Rightarrow> 's \<Rightarrow> 's"
  assumes alloc_law: "wf s \<Longrightarrow> n \<noteq> 0 \<Longrightarrow> alloc n s = (p, s') \<Longrightarrow>
      wf s' \<and> region s' = region s \<and>
      (if p = 0 then free s' = free s else blk (p, n) \<subseteq> free s \<and> free s' = free s - blk (p, n))"
    and dealloc_law: "wf s \<Longrightarrow> n \<noteq> 0 \<Longrightarrow> blk (p, n) \<subseteq> region s \<Longrightarrow> blk (p, n) \<inter> free s = {} \<Longrightarrow>
      wf (dealloc p n s) \<and> region (dealloc p n s) = region s \<and> free (dealloc p n s) = free s \<union> blk (p, n)"
    and free_region: "wf s \<Longrightarrow> free s \<subseteq> region s"
begin

definition client_inv :: "'s \<times> (u64 \<times> u64) list \<Rightarrow> bool" where
  "client_inv c \<longleftrightarrow> wf (fst c) \<and> (\<forall>b\<in>set (snd c). snd b \<noteq> 0) \<and>
     sorted_wrt (\<lambda>a b. blk a \<inter> blk b = {}) (snd c) \<and>
     live_space (snd c) \<inter> free (fst c) = {} \<and> live_space (snd c) \<union> free (fst c) = region (fst c)"

lemma client_step_inv:
  assumes "client_inv c" "client_ok x c"
  shows "client_inv (client_step alloc dealloc x c) \<and> region (fst (client_step alloc dealloc x c)) = region (fst c)"
proof (cases x)
  case (AllocOp n)
  obtain p s where a: "alloc n (fst c) = (p, s)" by fastforce
  have l: "wf s \<and> region s = region (fst c) \<and>
      (if p = 0 then free s = free (fst c) else blk (p, n) \<subseteq> free (fst c) \<and> free s = free (fst c) - blk (p, n))"
    using alloc_law [OF _ _ a] assms AllocOp by (simp add: client_inv_def)
  show ?thesis
  proof (cases "p = 0")
    case True
    with l assms AllocOp a show ?thesis by (simp add: client_inv_def)
  next
    case False
    with l have f: "blk (p, n) \<subseteq> free (fst c)" "free s = free (fst c) - blk (p, n)" by simp_all
    have sp: "live_space (snd c @ [(p, n)]) = live_space (snd c) \<union> blk (p, n)" by (simp add: live_space_def Un_commute)
    have i: "live_space (snd c) \<inter> free (fst c) = {}" "live_space (snd c) \<union> free (fst c) = region (fst c)"
      using assms(1) by (simp_all add: client_inv_def)
    then have "blk b \<inter> blk (p, n) = {}" if "b \<in> set (snd c)" for b
      using that f(1) by (auto simp: live_space_def)
    moreover have "live_space (snd c @ [(p, n)]) \<inter> free s = {}" "live_space (snd c @ [(p, n)]) \<union> free s = region s"
      unfolding sp using i f l by auto
    ultimately show ?thesis
      using False l assms AllocOp a by (simp add: client_inv_def sorted_wrt_append)
  qed
next
  case (FreeOp i)
  let ?b = "snd c ! i"
  let ?r = "take i (snd c) @ drop (Suc i) (snd c)"
  have i: "i < length (snd c)" using assms(2) FreeOp by simp
  then have sp: "snd c = take i (snd c) @ ?b # drop (Suc i) (snd c)" by (rule id_take_nth_drop)
  have "sorted_wrt (\<lambda>a b. blk a \<inter> blk b = {}) (take i (snd c) @ ?b # drop (Suc i) (snd c))"
    using assms(1) sp by (simp add: client_inv_def)
  then have d: "sorted_wrt (\<lambda>a b. blk a \<inter> blk b = {}) ?r" "live_space ?r \<inter> blk ?b = {}"
    by (fastforce simp: sorted_wrt_append live_space_def)+
  have u: "live_space (snd c) = live_space ?r \<union> blk ?b"
    by (subst sp) (auto simp: live_space_def)
  have b: "?b \<in> set (snd c)" using i by simp
  have "wf (dealloc (fst ?b) (snd ?b) (fst c)) \<and> region (dealloc (fst ?b) (snd ?b) (fst c)) = region (fst c) \<and>
      free (dealloc (fst ?b) (snd ?b) (fst c)) = free (fst c) \<union> blk ?b"
    using dealloc_law [of "fst c" "snd ?b" "fst ?b"] assms(1) b u by (auto simp: client_inv_def)
  moreover have "set ?r \<subseteq> set (snd c)" by (auto dest: in_set_takeD in_set_dropD)
  ultimately show ?thesis
    using assms(1) d u FreeOp by (auto simp: client_inv_def)
qed

lemma client_run_inv:
  "client_run alloc dealloc xs c = Some c' \<Longrightarrow> client_inv c \<Longrightarrow> client_inv c' \<and> region (fst c') = region (fst c)"
  by (induction xs arbitrary: c) (auto simp: client_step_inv split: if_splits)

lemma client_run_spec:
  assumes "wf s" "free s = region s" "client_run alloc dealloc xs (s, []) = Some (s', live)"
  shows "wf s' \<and> region s' = region s \<and> sorted_wrt (\<lambda>a b. blk a \<inter> blk b = {}) live \<and>
    live_space live \<subseteq> region s \<and> free s' = region s - live_space live"
proof -
  have "client_inv (s, [])" using assms(1,2) by (simp add: client_inv_def live_space_def)
  from client_run_inv [OF assms(3) this] show ?thesis by (auto simp: client_inv_def)
qed

end

end
