(* ===== verification/Seg_Allocator.thy ===== *)
theory Seg_Allocator
  imports Ordered_Map Segments Allocator_Interface "HOL-Library.Product_Lexorder"
begin

text \<open>
  seg_allocator.h: \<open>SegAllocator\<close>, which keeps its free segments in a map from address to size and
  in a set ordered by size, and \<open>SegAllocatorReverse\<close>, which mirrors the addresses. \<open>size_t\<close> and
  \<open>uintptr_t\<close> are 64-bit words; the null pointer is 0.
\<close>

record seg_alloc =
  seg_siz :: "(u64 \<times> u64) list"
  seg_off :: "(u64 \<times> u64) list"
  seg_base :: u64
  seg_size :: u64

definition seg_ctor :: "u64 \<Rightarrow> u64 \<Rightarrow> seg_alloc" where
  "seg_ctor base sz = \<lparr>seg_siz = os_insert (sz, base) [], seg_off = om_insert base sz [],
     seg_base = base, seg_size = sz\<rparr>"

definition seg_allocate :: "u64 \<Rightarrow> seg_alloc \<Rightarrow> u64 \<times> seg_alloc" where
  "seg_allocate sz s =
    (case os_lower (sz, 0) (seg_siz s) of
       None \<Rightarrow> (0, s)
     | Some (z, off) \<Rightarrow>
        (let less = z - sz;
             s1 = (if less > 0
                   then s\<lparr>seg_off := om_insert (off + sz) less (seg_off s),
                          seg_siz := os_insert (less, off + sz) (seg_siz s)\<rparr>
                   else s)
         in (off, s1\<lparr>seg_off := om_erase off (seg_off s1), seg_siz := os_erase (z, off) (seg_siz s1)\<rparr>)))"

text \<open>
  \<open>placement_allocate\<close> holds a \<open>reverse_iterator\<close>. Such an iterator stores the position after the
  element it stands for (here: the key there, None for \<open>end()\<close>), and each dereference goes one
  step back from it in the map as it is then. Before the first element that is undefined.
\<close>

definition rev_upper :: "u64 \<Rightarrow> (u64 \<times> u64) list \<Rightarrow> u64 option" where
  "rev_upper off m = map_option fst (List.find (\<lambda>p. off < fst p) m)"

definition rev_deref :: "u64 option \<Rightarrow> (u64 \<times> u64) list \<Rightarrow> (u64 \<times> u64) option" where
  "rev_deref b m = (case b of None \<Rightarrow> if m = [] then None else Some (last m) | Some k \<Rightarrow> om_before k m)"

definition seg_placement_allocate :: "u64 \<Rightarrow> u64 \<Rightarrow> seg_alloc \<Rightarrow> (u64 \<times> seg_alloc) run" where
  "seg_placement_allocate off sz s =
    (let iter = rev_upper off (seg_off s)
     in case rev_deref iter (seg_off s) of
          None \<Rightarrow> Ret (0, s)
        | Some (a, z) \<Rightarrow>
           if a + z < off + sz then Ret (0, s)
           else let less = z - sz in
             if less = 0 then
               (let m = om_erase a (seg_off s)
                in case rev_deref iter m of
                     None \<Rightarrow> UB
                   | Some (a', z') \<Rightarrow> Ret (off, s\<lparr>seg_off := m, seg_siz := os_erase (z', a') (seg_siz s)\<rparr>))
             else if a = off then
               Ret (off, s\<lparr>seg_off := om_insert off less (om_erase a (seg_off s)),
                           seg_siz := os_insert (less, off) (os_erase (z, a) (seg_siz s))\<rparr>)
             else if a + z = off + sz then
               Ret (off, s\<lparr>seg_off := om_assign a less (seg_off s),
                           seg_siz := os_insert (less, a) (os_erase (z, a) (seg_siz s))\<rparr>)
             else
               (let f = off - a;
                    m = om_insert (off + sz) (less - f) (om_assign a f (seg_off s))
                in case rev_deref iter m of
                     None \<Rightarrow> UB
                   | Some (a', z') \<Rightarrow>
                      Ret (off, s\<lparr>seg_off := m,
                                  seg_siz := os_insert (less - z', off + sz)
                                               (os_insert (f, a) (os_erase (z, a) (seg_siz s)))\<rparr>)))"

text \<open>The four cases of \<open>deallocate\<close>: \<open>nxt\<close> is the segment after the block, \<open>prv\<close> the one before.\<close>

definition seg_deallocate :: "u64 \<Rightarrow> u64 \<Rightarrow> seg_alloc \<Rightarrow> seg_alloc" where
  "seg_deallocate off sz s =
    (let nxt = (case om_lower off (seg_off s) of None \<Rightarrow> None
                | Some (a, z) \<Rightarrow> if off + sz = a then Some (a, z) else None);
         prv = (case om_before off (seg_off s) of None \<Rightarrow> None
                | Some (a, z) \<Rightarrow> if a + z = off then Some (a, z) else None)
     in case (prv, nxt) of
          (None, None) \<Rightarrow>
            s\<lparr>seg_siz := os_insert (sz, off) (seg_siz s), seg_off := om_insert off sz (seg_off s)\<rparr>
        | (None, Some (a, z)) \<Rightarrow>
            s\<lparr>seg_siz := os_insert (z + sz, a - sz) (os_erase (z, a) (seg_siz s)),
              seg_off := om_erase a (om_insert (a - sz) (z + sz) (seg_off s))\<rparr>
        | (Some (a, z), None) \<Rightarrow>
            s\<lparr>seg_siz := os_insert (z + sz, a) (os_erase (z, a) (seg_siz s)),
              seg_off := om_assign a (z + sz) (seg_off s)\<rparr>
        | (Some (a, z), Some (a', z')) \<Rightarrow>
            s\<lparr>seg_siz := os_insert (z + (sz + z'), a) (os_erase (z', a') (os_erase (z, a) (seg_siz s))),
              seg_off := om_erase a' (om_assign a (z + (sz + z')) (seg_off s))\<rparr>)"

section \<open>\<open>SegAllocatorReverse\<close>\<close>

definition reverse_ptr :: "seg_alloc \<Rightarrow> u64 \<Rightarrow> u64 \<Rightarrow> u64" where
  "reverse_ptr s p sz = seg_base s + seg_size s - 1 - p + seg_base s - sz"

definition seg_rev_allocate :: "u64 \<Rightarrow> seg_alloc \<Rightarrow> u64 \<times> seg_alloc" where
  "seg_rev_allocate sz s = (let (p, s') = seg_allocate sz s in if p = 0 then (0, s') else (reverse_ptr s' p sz, s'))"

definition seg_rev_placement_allocate :: "u64 \<Rightarrow> u64 \<Rightarrow> seg_alloc \<Rightarrow> (u64 \<times> seg_alloc) run" where
  "seg_rev_placement_allocate p sz s =
    run_bind (seg_placement_allocate (reverse_ptr s p sz) sz s) (\<lambda>(rp, s'). Ret (if rp = 0 then 0 else p, s'))"

definition seg_rev_deallocate :: "u64 \<Rightarrow> u64 \<Rightarrow> seg_alloc \<Rightarrow> seg_alloc" where
  "seg_rev_deallocate p sz s = seg_deallocate (reverse_ptr s p sz) sz s"

end
