(* ===== verification/Seg_Contract.thy ===== *)
theory Seg_Contract
  imports Seg_Allocator
begin

text \<open>
  What \<open>SegAllocator\<close> promises: the well-formedness of its two indexes, best fit, and the contract
  of an allocator of ranges; and where \<open>placement_allocate\<close> and the mirrored allocator break it.
\<close>

section \<open>Well-formedness\<close>

definition seg_nat :: "u64 \<times> u64 \<Rightarrow> nat \<times> nat" where
  "seg_nat p = (unat (fst p), unat (snd p))"

definition segs :: "seg_alloc \<Rightarrow> (nat \<times> nat) set" where
  "segs s = seg_nat ` set (seg_off s)"

definition seg_free :: "seg_alloc \<Rightarrow> nat set" where
  "seg_free s = covered (segs s)"

definition seg_region :: "seg_alloc \<Rightarrow> nat set" where
  "seg_region s = {unat (seg_base s)..<unat (seg_base s) + unat (seg_size s)}"

definition seg_wf :: "seg_alloc \<Rightarrow> bool" where
  "seg_wf s \<longleftrightarrow> os_ok (seg_siz s) \<and> om_ok (seg_off s) \<and> set (seg_siz s) = prod.swap ` set (seg_off s) \<and>
     apart (segs s) \<and> seg_free s \<subseteq> seg_region s \<and>
     seg_base s \<noteq> 0 \<and> unat (seg_base s) + unat (seg_size s) < 2 ^ 64"

lemma inj_seg_nat: "inj seg_nat"
  by (auto simp: inj_def seg_nat_def word_unat_eq_iff)

lemma swap_remove: "prod.swap ` (S - {(a, z)}) = prod.swap ` S - {(z, a)}"
  by (simp add: image_set_diff)

lemma swap_mem: "(z, a) \<in> prod.swap ` S \<longleftrightarrow> (a, z) \<in> S"
  by force

lemma seg_nat_remove: "seg_nat ` (S - {(a, z)}) = seg_nat ` S - {(unat a, unat z)}"
  using image_set_diff [OF inj_seg_nat, of S "{(a, z)}"] by (simp add: seg_nat_def)

lemma unat_less_u64: "unat (x :: u64) < 2 ^ 64"
  using unsigned_less [of x, where ?'a = nat] by simp

lemma unat_add_u64: "unat x + unat y < 2 ^ 64 \<Longrightarrow> unat (x + y :: u64) = unat x + unat y"
  by (simp add: unat_word_ariths)

lemma unat_sub_u64: "unat y \<le> unat x \<Longrightarrow> unat (x - y :: u64) = unat x - unat y"
  by (simp add: unat_sub word_le_nat_alt)

lemma seg_mem:
  assumes "seg_wf s" "(a, z) \<in> set (seg_off s)"
  shows "(unat a, unat z) \<in> segs s" "0 < unat z" "unat (seg_base s) \<le> unat a"
    "unat a + unat z \<le> unat (seg_base s) + unat (seg_size s)" "unat a + unat z < 2 ^ 64" "a \<noteq> 0"
    "{unat a..<unat a + unat z} \<subseteq> seg_free s"
proof -
  show m: "(unat a, unat z) \<in> segs s" using assms(2) by (force simp: segs_def seg_nat_def)
  have p: "apart (segs s)" using assms(1) by (simp add: seg_wf_def)
  show z: "0 < unat z" using apartD(1) [OF p m] .
  show c: "{unat a..<unat a + unat z} \<subseteq> seg_free s" unfolding seg_free_def by (rule covered_I' [OF m])
  with assms(1) have "{unat a..<unat a + unat z} \<subseteq> seg_region s" by (auto simp: seg_wf_def)
  with z have "unat a \<in> seg_region s" "unat a + unat z - 1 \<in> seg_region s" by auto
  with z show "unat (seg_base s) \<le> unat a" "unat a + unat z \<le> unat (seg_base s) + unat (seg_size s)"
    by (auto simp: seg_region_def)
  with assms(1) show "unat a + unat z < 2 ^ 64" "a \<noteq> 0"
    by (auto simp: seg_wf_def word_le_nat_alt simp flip: unat_eq_0)
qed

lemma seg_siz_mem: "seg_wf s \<Longrightarrow> (z, a) \<in> set (seg_siz s) \<longleftrightarrow> (a, z) \<in> set (seg_off s)"
  by (simp add: seg_wf_def swap_mem)

lemma seg_key_eq: "seg_wf s \<Longrightarrow> (a, z) \<in> set (seg_off s) \<Longrightarrow> (a, z') \<in> set (seg_off s) \<Longrightarrow> z' = z"
  using om_ok_keys [of "seg_off s" a z' z] by (simp add: seg_wf_def)

text \<open>A key inside a free range, after its start, is not in the map.\<close>

lemma seg_key_inside:
  assumes "seg_wf s" "(a, z) \<in> set (seg_off s)" "unat a < unat k" "unat k \<le> unat a + unat z"
  shows "k \<notin> fst ` set (seg_off s)"
proof
  assume "k \<in> fst ` set (seg_off s)"
  then obtain w where m: "(k, w) \<in> set (seg_off s)" by auto
  have "apart (segs s)" using assms(1) by (simp add: seg_wf_def)
  from apartD(2) [OF this seg_mem(1) [OF assms(1,2)] seg_mem(1) [OF assms(1) m] assms(3)] assms(4)
  show False by simp
qed

text \<open>The parts of \<open>seg_wf\<close> that are not about ranges follow from the two sets.\<close>

lemma seg_wf_upd:
  assumes "seg_wf s" "os_ok zs" "om_ok m" "set zs = prod.swap ` set m"
    and "apart (seg_nat ` set m)" "covered (seg_nat ` set m) \<subseteq> seg_region s"
  shows "seg_wf (s\<lparr>seg_siz := zs, seg_off := m\<rparr>)"
  using assms by (simp add: seg_wf_def segs_def seg_free_def seg_region_def)

section \<open>\<open>allocate\<close>\<close>

lemma seg_allocate_None:
  assumes "os_lower (sz, 0) (seg_siz s) = None" "seg_wf s"
  shows "\<forall>(a, z)\<in>set (seg_off s). unat z < unat sz"
proof -
  have "\<not> (sz, 0) \<le> (z, a)" if "(a, z) \<in> set (seg_off s)" for a z
    using assms that seg_siz_mem [OF assms(2), of z a] by (auto simp: os_lower_None)
  then show ?thesis by (auto simp: less_eq_prod_def word_less_nat_alt word_le_nat_alt not_le not_less)
qed

lemma seg_allocate_best:
  assumes "os_lower (sz, 0) (seg_siz s) = Some (z, a)" "seg_wf s"
  shows "(a, z) \<in> set (seg_off s) \<and> unat sz \<le> unat z \<and>
    (\<forall>(b, y)\<in>set (seg_off s). unat sz \<le> unat y \<longrightarrow> unat z < unat y \<or> (z = y \<and> unat a \<le> unat b))"
proof -
  have "os_ok (seg_siz s)" using assms(2) by (simp add: seg_wf_def)
  from os_lower_Some [OF this assms(1)]
  have l: "(z, a) \<in> set (seg_siz s)" "(sz, 0) \<le> (z, a)" "\<forall>x\<in>set (seg_siz s). (sz, 0) \<le> x \<longrightarrow> (z, a) \<le> x"
    by blast+
  have "unat z < unat y \<or> (z = y \<and> unat a \<le> unat b)" if "(b, y) \<in> set (seg_off s)" "unat sz \<le> unat y" for b y
  proof -
    have "(sz, 0) \<le> (y, b)" using that(2) by (auto simp: less_eq_prod_def word_le_nat_alt)
    with l(3) that(1) seg_siz_mem [OF assms(2), of y b] have "(z, a) \<le> (y, b)" by blast
    then show ?thesis by (auto simp: less_eq_prod_def word_less_nat_alt word_le_nat_alt word_unat_eq_iff)
  qed
  moreover have "unat sz \<le> unat z" using l(2) by (auto simp: less_eq_prod_def word_less_nat_alt word_le_nat_alt)
  ultimately show ?thesis using l(1) seg_siz_mem [OF assms(2), of z a] by blast
qed

lemma seg_allocate_spec:
  assumes "seg_wf s" "sz \<noteq> 0" "seg_allocate sz s = (p, s')"
  shows "seg_wf s' \<and> seg_region s' = seg_region s \<and>
    (if p = 0 then s' = s \<and> (\<forall>(a, z)\<in>set (seg_off s). unat z < unat sz)
     else (\<exists>z. (p, z) \<in> set (seg_off s) \<and> unat sz \<le> unat z \<and>
             (\<forall>(b, y)\<in>set (seg_off s). unat sz \<le> unat y \<longrightarrow> unat z < unat y \<or> (z = y \<and> unat p \<le> unat b))) \<and>
          seg_free s' = seg_free s - blk (p, sz))"
proof (cases "os_lower (sz, 0) (seg_siz s)")
  case None
  with assms seg_allocate_None [OF None assms(1)] show ?thesis by (simp add: seg_allocate_def)
next
  case (Some r)
  obtain z a where r: "r = (z, a)" by fastforce
  have b: "(a, z) \<in> set (seg_off s)" "unat sz \<le> unat z"
    "\<forall>(b, y)\<in>set (seg_off s). unat sz \<le> unat y \<longrightarrow> unat z < unat y \<or> (z = y \<and> unat a \<le> unat b)"
    using seg_allocate_best [OF Some [unfolded r] assms(1)] by auto
  note m = seg_mem [OF assms(1) b(1)]
  have ok: "os_ok (seg_siz s)" "om_ok (seg_off s)" "set (seg_siz s) = prod.swap ` set (seg_off s)" "apart (segs s)"
    using assms(1) by (simp_all add: seg_wf_def)
  have sz: "0 < unat sz" using assms(2) by (simp add: word_neq_0_conv [symmetric] unat_gt_0)
  let ?m = "om_erase a (if z - sz > 0 then om_insert (a + sz) (z - sz) (seg_off s) else seg_off s)"
  let ?z = "os_erase (z, a) (if z - sz > 0 then os_insert (z - sz, a + sz) (seg_siz s) else seg_siz s)"
  have s': "p = a" "s' = s\<lparr>seg_siz := ?z, seg_off := ?m\<rparr>"
    using assms(3) Some r by (auto simp: seg_allocate_def Let_def)
  have n: "unat (a + sz) = unat a + unat sz" using m(5) b(2) by (intro unat_add_u64) linarith
  have l: "unat (z - sz) = unat z - unat sz" using b(2) by (rule unat_sub_u64)
  have less: "z - sz > 0 \<longleftrightarrow> unat sz < unat z" using l b(2) by (simp add: word_less_nat_alt)
  have k: "a + sz \<notin> fst ` set (seg_off s)" using seg_key_inside [OF assms(1) b(1), of "a + sz"] n sz b(2) by simp
  have ne: "a + sz \<noteq> a" using n sz by (metis add_cancel_right_right less_irrefl)
  have sm: "set ?m = (set (seg_off s) - {(a, z)}) \<union> (if z - sz > 0 then {(a + sz, z - sz)} else {})"
    using set_om_erase_pair [OF ok(2) b(1)] k ne set_om_insert [OF k, of "z - sz"]
    by (auto simp: set_om_erase dest: seg_key_eq [OF assms(1) b(1)])
  have ss: "set ?z = prod.swap ` set ?m" unfolding sm using ok(3) ne by (auto simp: swap_remove image_Un)
  have "seg_nat ` set ?m = (segs s - {(unat a, unat z)}) \<union>
      (if unat sz < unat z then {(unat a + unat sz, unat z - unat sz)} else {})"
    by (subst sm) (simp add: less image_Un seg_nat_remove segs_def, simp add: seg_nat_def n l)
  from cut_front [OF ok(4) m(1) sz b(2) this]
  have c: "apart (seg_nat ` set ?m)" "covered (seg_nat ` set ?m) = seg_free s - blk (a, sz)"
    by (simp_all add: seg_free_def blk_def)
  have "seg_wf s'" unfolding s'(2)
    using ok(1,2) ss c assms(1)
    by (intro seg_wf_upd) (auto intro: os_ok_erase os_ok_insert om_ok_erase om_ok_insert simp: seg_wf_def)
  moreover have "seg_free s' = seg_free s - blk (p, sz)" using c(2) by (simp add: s' seg_free_def segs_def)
  ultimately show ?thesis using s' b m(6) by (auto simp: seg_region_def)
qed

section \<open>\<open>deallocate\<close>\<close>

definition seg_nxt :: "u64 \<Rightarrow> u64 \<Rightarrow> seg_alloc \<Rightarrow> (u64 \<times> u64) option" where
  "seg_nxt off sz s = (case om_lower off (seg_off s) of None \<Rightarrow> None
     | Some (a, z) \<Rightarrow> if off + sz = a then Some (a, z) else None)"

definition seg_prv :: "u64 \<Rightarrow> seg_alloc \<Rightarrow> (u64 \<times> u64) option" where
  "seg_prv off s = (case om_before off (seg_off s) of None \<Rightarrow> None
     | Some (a, z) \<Rightarrow> if a + z = off then Some (a, z) else None)"

definition the_set :: "'a option \<Rightarrow> 'a set" where
  "the_set x = (case x of None \<Rightarrow> {} | Some y \<Rightarrow> {y})"

lemma blk_room:
  assumes "seg_wf s" "sz \<noteq> 0" "blk (p, sz) \<subseteq> seg_region s" "blk (p, sz) \<inter> seg_free s = {}"
  shows "0 < unat sz" "unat (seg_base s) \<le> unat p" "unat p + unat sz \<le> unat (seg_base s) + unat (seg_size s)"
    "unat (p + sz) = unat p + unat sz" "p \<notin> fst ` set (seg_off s)"
proof -
  show sz: "0 < unat sz" using assms(2) by (simp add: unat_gt_0)
  then have "unat p \<in> blk (p, sz)" "unat p + unat sz - 1 \<in> blk (p, sz)" by (auto simp: blk_def)
  with assms(3) have "unat p \<in> seg_region s" "unat p + unat sz - 1 \<in> seg_region s" by blast+
  with sz show "unat (seg_base s) \<le> unat p" and e: "unat p + unat sz \<le> unat (seg_base s) + unat (seg_size s)"
    by (auto simp: seg_region_def)
  then show "unat (p + sz) = unat p + unat sz" using assms(1) by (intro unat_add_u64) (simp add: seg_wf_def)
  show "p \<notin> fst ` set (seg_off s)"
  proof
    assume "p \<in> fst ` set (seg_off s)"
    then obtain z where "(p, z) \<in> set (seg_off s)" by auto
    from seg_mem [OF assms(1) this] have "unat p \<in> seg_free s" by auto
    with assms(4) \<open>unat p \<in> blk (p, sz)\<close> show False by blast
  qed
qed

lemma the_unique:
  assumes "x \<in> S" "\<And>y. y \<in> S \<Longrightarrow> P y \<Longrightarrow> y = x"
  shows "the_set (if P x then Some x else None) = {y \<in> S. P y}"
proof (cases "P x")
  case True
  with assms have "{y \<in> S. P y} = {x}" by blast
  with True show ?thesis by (simp add: the_set_def)
next
  case False
  with assms have "{y \<in> S. P y} = {}" by blast
  with False show ?thesis by (simp add: the_set_def)
qed

lemma seg_nxt_spec:
  assumes "seg_wf s" "sz \<noteq> 0" "blk (p, sz) \<subseteq> seg_region s" "blk (p, sz) \<inter> seg_free s = {}"
  shows "the_set (seg_nxt p sz s) = {x \<in> set (seg_off s). unat (fst x) = unat p + unat sz}"
proof -
  note r = blk_room [OF assms]
  have ok: "om_ok (seg_off s)" using assms(1) by (simp add: seg_wf_def)
  have e: "unat a = unat p + unat sz \<longleftrightarrow> p + sz = a" for a by (auto simp: word_unat_eq_iff r(4))
  show ?thesis
  proof (cases "om_lower p (seg_off s)")
    case None
    then have "\<forall>(b, w)\<in>set (seg_off s). unat b < unat p" by (simp add: om_lower_None word_less_nat_alt)
    with None show ?thesis by (fastforce simp: seg_nxt_def the_set_def)
  next
    case (Some q)
    obtain a z where q: "q = (a, z)" by fastforce
    from om_lower_Some [OF ok Some [unfolded q]]
    have m: "(a, z) \<in> set (seg_off s)" "p \<le> a" "\<forall>(b, w)\<in>set (seg_off s). p \<le> b \<longrightarrow> a \<le> b" by auto
    have "(b, w) = (a, z)" if "(b, w) \<in> set (seg_off s)" "p + sz = b" for b w
    proof -
      have "p \<le> b" using that(2) r(4) by (auto simp: word_le_nat_alt)
      with m(3) that(1) have "a \<le> b" by blast
      have "a = b"
      proof (rule ccontr)
        assume "a \<noteq> b"
        with \<open>a \<le> b\<close> m(2) have "unat p \<le> unat a" "unat a < unat p + unat sz"
          using r(4) that(2) by (auto simp: word_le_nat_alt word_unat_eq_iff)
        moreover from this(1) have "unat a \<in> seg_free s" using seg_mem [OF assms(1) m(1)] by auto
        ultimately show False using assms(4) by (auto simp: blk_def)
      qed
      with seg_key_eq [OF assms(1) m(1)] that show ?thesis by auto
    qed
    then have "the_set (if p + sz = fst (a, z) then Some (a, z) else None) = {x \<in> set (seg_off s). p + sz = fst x}"
      using m(1) by (intro the_unique [where P = "\<lambda>x. p + sz = fst x"]) auto
    with Some q show ?thesis by (simp only: seg_nxt_def e option.case prod.case fst_conv)
  qed
qed

lemma seg_prv_spec:
  assumes "seg_wf s" "sz \<noteq> 0" "blk (p, sz) \<subseteq> seg_region s" "blk (p, sz) \<inter> seg_free s = {}"
  shows "the_set (seg_prv p s) = {x \<in> set (seg_off s). unat (fst x) + unat (snd x) = unat p}"
proof -
  note r = blk_room [OF assms]
  have ok: "om_ok (seg_off s)" "apart (segs s)" using assms(1) by (simp_all add: seg_wf_def)
  have e: "unat a + unat z = unat p \<longleftrightarrow> a + z = p" if "(a, z) \<in> set (seg_off s)" for a z
    using unat_add_u64 [OF seg_mem(5) [OF assms(1) that]] by (auto simp: word_unat_eq_iff)
  have l: "a < p" if "(a, z) \<in> set (seg_off s)" "a + z = p" for a z
    using seg_mem(2) [OF assms(1) that(1)] e [OF that(1)] that(2) by (auto simp: word_less_nat_alt)
  show ?thesis
  proof (cases "om_before p (seg_off s)")
    case None
    then have "\<forall>(b, w)\<in>set (seg_off s). \<not> b < p" by (auto simp: om_before_None)
    with None l e show ?thesis by (fastforce simp: seg_prv_def the_set_def)
  next
    case (Some q)
    obtain a z where q: "q = (a, z)" by fastforce
    from om_before_Some [OF ok(1) Some [unfolded q]]
    have m: "(a, z) \<in> set (seg_off s)" "a < p" "\<forall>(b, w)\<in>set (seg_off s). b < p \<longrightarrow> b \<le> a" by auto
    have u: "(b, w) = (a, z)" if "(b, w) \<in> set (seg_off s)" "b + w = p" for b w
    proof -
      have "b \<le> a" using m(3) that(1) l [OF that] by blast
      have "a = b"
      proof (rule ccontr)
        assume "a \<noteq> b"
        with \<open>b \<le> a\<close> have "unat b < unat a" by (auto simp: word_le_nat_alt word_unat_eq_iff)
        from apartD(2) [OF ok(2) seg_mem(1) [OF assms(1) that(1)] seg_mem(1) [OF assms(1) m(1)] this]
        show False using e [OF that(1)] that(2) m(2) by (simp add: word_less_nat_alt)
      qed
      with seg_key_eq [OF assms(1) m(1)] that show ?thesis by auto
    qed
    have "the_set (if fst (a, z) + snd (a, z) = p then Some (a, z) else None) =
        {x \<in> set (seg_off s). fst x + snd x = p}"
    proof (rule the_unique [where P = "\<lambda>x. fst x + snd x = p"])
      show "y = (a, z)" if "y \<in> set (seg_off s)" "fst y + snd y = p" for y
        using u [of "fst y" "snd y"] that by (simp only: prod.collapse)
    qed (fact m(1))
    also have "\<dots> = {x \<in> set (seg_off s). unat (fst x) + unat (snd x) = unat p}"
      by (rule Collect_cong) (use e in fastforce)
    finally show ?thesis using Some q by (simp only: seg_prv_def option.case prod.case fst_conv snd_conv)
  qed
qed

text \<open>The segment that \<open>deallocate\<close> puts into both indexes in place of the neighbours it merges.\<close>

definition seg_merged :: "u64 \<Rightarrow> u64 \<Rightarrow> seg_alloc \<Rightarrow> u64 \<times> u64" where
  "seg_merged p sz s =
    (let b = (case seg_prv p s of None \<Rightarrow> p | Some (a, z) \<Rightarrow> a);
         e = (case seg_nxt p sz s of None \<Rightarrow> p + sz | Some (a, z) \<Rightarrow> a + z)
     in (b, e - b))"

lemma seg_deallocate_cases:
  "seg_deallocate p sz s =
    (case (seg_prv p s, seg_nxt p sz s) of
       (None, None) \<Rightarrow> s\<lparr>seg_siz := os_insert (sz, p) (seg_siz s), seg_off := om_insert p sz (seg_off s)\<rparr>
     | (None, Some (a, z)) \<Rightarrow>
         s\<lparr>seg_siz := os_insert (z + sz, a - sz) (os_erase (z, a) (seg_siz s)),
           seg_off := om_erase a (om_insert (a - sz) (z + sz) (seg_off s))\<rparr>
     | (Some (a, z), None) \<Rightarrow>
         s\<lparr>seg_siz := os_insert (z + sz, a) (os_erase (z, a) (seg_siz s)), seg_off := om_assign a (z + sz) (seg_off s)\<rparr>
     | (Some (a, z), Some (a', z')) \<Rightarrow>
         s\<lparr>seg_siz := os_insert (z + (sz + z'), a) (os_erase (z', a') (os_erase (z, a) (seg_siz s))),
           seg_off := om_erase a' (om_assign a (z + (sz + z')) (seg_off s))\<rparr>)"
  unfolding seg_deallocate_def seg_prv_def seg_nxt_def Let_def by (rule refl)

lemma seg_prv_mem:
  assumes "seg_wf s" "sz \<noteq> 0" "blk (p, sz) \<subseteq> seg_region s" "blk (p, sz) \<inter> seg_free s = {}"
    and "seg_prv p s = Some (a, z)"
  shows "(a, z) \<in> set (seg_off s) \<and> unat a + unat z = unat p"
proof -
  have "(a, z) \<in> the_set (seg_prv p s)" using assms(5) by (simp add: the_set_def)
  then show ?thesis unfolding seg_prv_spec [OF assms(1-4)] by simp
qed

lemma seg_nxt_mem:
  assumes "seg_wf s" "sz \<noteq> 0" "blk (p, sz) \<subseteq> seg_region s" "blk (p, sz) \<inter> seg_free s = {}"
    and "seg_nxt p sz s = Some (a, z)"
  shows "(a, z) \<in> set (seg_off s) \<and> unat a = unat p + unat sz"
proof -
  have "(a, z) \<in> the_set (seg_nxt p sz s)" using assms(5) by (simp add: the_set_def)
  then show ?thesis unfolding seg_nxt_spec [OF assms(1-4)] by simp
qed

lemma seg_deallocate_sets:
  assumes "seg_wf s" "sz \<noteq> 0" "blk (p, sz) \<subseteq> seg_region s" "blk (p, sz) \<inter> seg_free s = {}"
  shows "set (seg_off (seg_deallocate p sz s)) =
      insert (seg_merged p sz s) (set (seg_off s) - the_set (seg_prv p s) - the_set (seg_nxt p sz s)) \<and>
    set (seg_siz (seg_deallocate p sz s)) = prod.swap ` set (seg_off (seg_deallocate p sz s))"
proof -
  note r = blk_room [OF assms]
  have ok: "om_ok (seg_off s)" "set (seg_siz s) = prod.swap ` set (seg_off s)" using assms(1) by (simp_all add: seg_wf_def)
  note pv = seg_prv_mem [OF assms] and nx = seg_nxt_mem [OF assms]
  have pw: "a + z = p" if "seg_prv p s = Some (a, z)" for a z
    using pv [OF that] r(4) unat_add_u64 [of a z] unat_less_u64 [of p] by (simp add: word_unat_eq_iff)
  have nw: "a = p + sz" if "seg_nxt p sz s = Some (a, z)" for a z
    using nx [OF that] r(4) by (simp add: word_unat_eq_iff)
  show ?thesis
  proof (cases "seg_prv p s"; cases "seg_nxt p sz s")
    assume n: "seg_prv p s = None" "seg_nxt p sz s = None"
    then show ?thesis using r(5) ok by (simp add: seg_deallocate_cases seg_merged_def the_set_def set_om_insert)
  next
    fix y assume n: "seg_prv p s = None" "seg_nxt p sz s = Some y"
    obtain a z where y: "y = (a, z)" by fastforce
    note m = nx [OF n(2) [unfolded y]] nw [OF n(2) [unfolded y]]
    have ne: "a \<noteq> p" using m r(1) by auto
    have "set (om_erase a (om_insert p (z + sz) (seg_off s))) = insert (p, z + sz) (set (seg_off s) - {(a, z)})"
      using ne r(5) set_om_erase_pair [OF ok(1)] m(1) by (auto simp: set_om_erase set_om_insert)
    then show ?thesis using n y m(2) ok(2)
      by (simp add: seg_deallocate_cases seg_merged_def the_set_def swap_remove algebra_simps)
  next
    fix x assume n: "seg_prv p s = Some x" "seg_nxt p sz s = None"
    obtain a z where x: "x = (a, z)" by fastforce
    note m = pv [OF n(1) [unfolded x]] pw [OF n(1) [unfolded x]]
    have e: "p + sz - a = z + sz" using m(2) by (simp flip: m(2))
    have "set (om_assign a (z + sz) (seg_off s)) = insert (a, z + sz) (set (seg_off s) - {(a, z)})"
      using set_om_assign [OF ok(1)] m(1) by blast
    then show ?thesis using n x ok(2)
      by (simp add: seg_deallocate_cases seg_merged_def the_set_def swap_remove e)
  next
    fix x y assume n: "seg_prv p s = Some x" "seg_nxt p sz s = Some y"
    obtain a z where x: "x = (a, z)" by fastforce
    obtain a' z' where y: "y = (a', z')" by fastforce
    note m = pv [OF n(1) [unfolded x]] pw [OF n(1) [unfolded x]]
    note m' = nx [OF n(2) [unfolded y]] nw [OF n(2) [unfolded y]]
    have ne: "a' \<noteq> a" using m(1) m'(1) r(1) by auto
    have e: "a' + z' - a = z + (sz + z')" unfolding m'(2) by (simp flip: m(2))
    have k: "(a', z') \<in> set (om_assign a (z + (sz + z')) (seg_off s))"
      using set_om_assign [OF ok(1)] m(1) m'(1) ne by blast
    have "set (om_erase a' (om_assign a (z + (sz + z')) (seg_off s))) =
        insert (a, z + (sz + z')) (set (seg_off s) - {(a, z)} - {(a', z')})"
      using set_om_erase_pair [OF om_ok_assign [OF ok(1)] k] set_om_assign [OF ok(1)] m(1) ne by auto
    then show ?thesis using n x y ok(2)
      by (simp add: seg_deallocate_cases seg_merged_def the_set_def swap_remove e)
  qed
qed

lemma seg_merged_nat:
  assumes "seg_wf s" "sz \<noteq> 0" "blk (p, sz) \<subseteq> seg_region s" "blk (p, sz) \<inter> seg_free s = {}"
  shows "\<exists>b e. seg_nat (seg_merged p sz s) = (b, e - b) \<and> b \<le> unat p \<and> unat p + unat sz \<le> e \<and>
    {b..<e} = covered (seg_nat ` the_set (seg_prv p s)) \<union> {unat p..<unat p + unat sz} \<union>
              covered (seg_nat ` the_set (seg_nxt p sz s))"
proof -
  note r = blk_room [OF assms]
  note pv = seg_prv_mem [OF assms] and nx = seg_nxt_mem [OF assms]
  let ?b = "case seg_prv p s of None \<Rightarrow> p | Some (a, z) \<Rightarrow> a"
  let ?e = "case seg_nxt p sz s of None \<Rightarrow> p + sz | Some (a, z) \<Rightarrow> a + z"
  have c0: "covered (seg_nat ` the_set None) = {}" by (simp add: the_set_def covered_def)
  have c1: "covered (seg_nat ` the_set (Some (a, z))) = {unat a..<unat a + unat z}" for a z
    by (simp add: the_set_def covered_def seg_nat_def)
  have b: "unat ?b \<le> unat p \<and> {unat ?b..<unat p} = covered (seg_nat ` the_set (seg_prv p s))"
  proof (cases "seg_prv p s")
    case (Some x)
    obtain a z where x: "x = (a, z)" by fastforce
    have m: "unat a + unat z = unat p" using pv [OF Some [unfolded x]] by blast
    show ?thesis unfolding Some x c1 by (simp flip: m)
  qed (simp add: c0)
  have e: "unat p + unat sz \<le> unat ?e \<and>
      {unat p + unat sz..<unat ?e} = covered (seg_nat ` the_set (seg_nxt p sz s))"
  proof (cases "seg_nxt p sz s")
    case (Some x)
    obtain a z where x: "x = (a, z)" by fastforce
    have m: "(a, z) \<in> set (seg_off s)" "unat a = unat p + unat sz" using nx [OF Some [unfolded x]] by blast+
    have "unat (a + z) = unat a + unat z" using seg_mem(5) [OF assms(1) m(1)] by (rule unat_add_u64)
    with m(2) show ?thesis unfolding Some x c1 by simp
  qed (simp add: c0 r(4))
  have "{unat ?b..<unat ?e} = {unat ?b..<unat p} \<union> {unat p..<unat p + unat sz} \<union> {unat p + unat sz..<unat ?e}"
    using conjunct1 [OF b] conjunct1 [OF e] by auto
  moreover have "seg_nat (seg_merged p sz s) = (unat ?b, unat ?e - unat ?b)"
    using b e unat_sub_u64 [of ?b ?e] by (simp add: seg_merged_def seg_nat_def Let_def)
  ultimately show ?thesis using b e by metis
qed

lemma seg_deallocate_spec:
  assumes "seg_wf s" "sz \<noteq> 0" "blk (p, sz) \<subseteq> seg_region s" "blk (p, sz) \<inter> seg_free s = {}"
  shows "seg_wf (seg_deallocate p sz s) \<and> seg_region (seg_deallocate p sz s) = seg_region s \<and>
    seg_free (seg_deallocate p sz s) = seg_free s \<union> blk (p, sz)"
proof -
  let ?d = "seg_deallocate p sz s"
  let ?A = "the_set (seg_prv p s)" and ?B = "the_set (seg_nxt p sz s)"
  note r = blk_room [OF assms] and S = seg_deallocate_sets [OF assms]
  have ok: "apart (segs s)" "os_ok (seg_siz s)" "om_ok (seg_off s)" using assms(1) by (simp_all add: seg_wf_def)
  obtain b e where m: "seg_nat (seg_merged p sz s) = (b, e - b)" "b \<le> unat p" "unat p + unat sz \<le> e"
      "{b..<e} = covered (seg_nat ` ?A) \<union> {unat p..<unat p + unat sz} \<union> covered (seg_nat ` ?B)"
    using seg_merged_nat [OF assms] by blast
  have sub: "?A \<subseteq> set (seg_off s)" "?B \<subseteq> set (seg_off s)"
    unfolding seg_prv_spec [OF assms] seg_nxt_spec [OF assms] by blast+
  have A: "b + z = unat p \<longleftrightarrow> (b, z) \<in> seg_nat ` ?A" if "(b, z) \<in> segs s" for b z
    unfolding seg_prv_spec [OF assms] using that by (force simp: segs_def seg_nat_def)
  have B: "b = unat p + unat sz \<longleftrightarrow> (b, z) \<in> seg_nat ` ?B" if "(b, z) \<in> segs s" for b z
    unfolding seg_nxt_spec [OF assms] using that by (force simp: segs_def seg_nat_def)
  have dj: "{unat p..<unat p + unat sz} \<inter> covered (segs s) = {}" using assms(4) by (simp add: seg_free_def blk_def)
  have "segs ?d = insert (b, e - b) (segs s - seg_nat ` ?A - seg_nat ` ?B)"
    using S m(1) by (simp add: segs_def image_set_diff [OF inj_seg_nat])
  with give_back [OF ok(1) r(1) dj _ _ A B m(2,3,4)] sub
  have g: "apart (segs ?d)" "covered (segs ?d) = covered (segs s) \<union> {unat p..<unat p + unat sz}"
    by (auto simp: segs_def)
  have l: "os_ok (seg_siz ?d)" "om_ok (seg_off ?d)"
    using ok(2,3) by (auto simp: seg_deallocate_cases os_ok_insert os_ok_erase om_ok_insert om_ok_erase om_ok_assign
      split: option.splits)
  have reg: "seg_base ?d = seg_base s" "seg_size ?d = seg_size s"
    by (auto simp: seg_deallocate_cases split: option.splits)
  then have "seg_region ?d = seg_region s" by (simp add: seg_region_def)
  with g l reg S assms(1,3) show ?thesis by (auto simp: seg_wf_def seg_free_def blk_def)
qed

end
