(* ===== verification/Seg_Properties.thy ===== *)
theory Seg_Properties
  imports Seg_Contract
begin

text \<open>
  The properties of \<open>SegAllocator\<close> and \<open>SegAllocatorReverse\<close>, on top of the lemmas of
  Seg_Contract and the allocator interface.
\<close>

interpretation seg: region_allocator seg_wf seg_region seg_free seg_allocate seg_deallocate
proof unfold_locales
  fix s s' :: seg_alloc and n p
  show "seg_wf s \<Longrightarrow> seg_free s \<subseteq> seg_region s" by (simp add: seg_wf_def)
  show "seg_wf s \<Longrightarrow> n \<noteq> 0 \<Longrightarrow> blk (p, n) \<subseteq> seg_region s \<Longrightarrow> blk (p, n) \<inter> seg_free s = {} \<Longrightarrow>
      seg_wf (seg_deallocate p n s) \<and> seg_region (seg_deallocate p n s) = seg_region s \<and>
      seg_free (seg_deallocate p n s) = seg_free s \<union> blk (p, n)"
    by (rule seg_deallocate_spec)
  assume a: "seg_wf s" "n \<noteq> 0" "seg_allocate n s = (p, s')"
  have "blk (p, n) \<subseteq> seg_free s" if "(p, z) \<in> set (seg_off s)" "unat n \<le> unat z" for z
    using seg_mem(7) [OF a(1) that(1)] that(2) by (auto simp: blk_def)
  with seg_allocate_spec [OF a]
  show "seg_wf s' \<and> seg_region s' = seg_region s \<and>
      (if p = 0 then seg_free s' = seg_free s else blk (p, n) \<subseteq> seg_free s \<and> seg_free s' = seg_free s - blk (p, n))"
    by (auto split: if_splits)
qed

lemma seg_ctor_wf:
  assumes "base \<noteq> 0" "sz \<noteq> 0" "unat base + unat sz < 2 ^ 64"
  shows "seg_wf (seg_ctor base sz) \<and> seg_free (seg_ctor base sz) = seg_region (seg_ctor base sz)"
  using assms
  by (auto simp: seg_wf_def seg_ctor_def os_ok_def om_ok_def segs_def seg_nat_def seg_free_def covered_def
      seg_region_def apart_def unat_gt_0)

lemma om_ok_equal:
  assumes "om_ok m" "om_ok m'" "set m = set (m' :: (u64 \<times> u64) list)"
  shows "m = m'"
proof -
  have "sorted_wrt (<) m" "sorted_wrt (<) m'"
    using assms(1,2) unfolding om_ok_def by (auto elim!: sorted_wrt_mono_rel [rotated] simp: less_prod_def)
  with assms(3) show ?thesis by (metis strict_sorted_equal)
qed

lemma seg_fields:
  "seg_base (snd (seg_allocate n s)) = seg_base s \<and> seg_size (snd (seg_allocate n s)) = seg_size s \<and>
    seg_base (seg_deallocate p n s) = seg_base s \<and> seg_size (seg_deallocate p n s) = seg_size s"
  by (auto simp: seg_allocate_def seg_deallocate_cases Let_def split: option.split)

lemma client_run_base:
  "client_run seg_allocate seg_deallocate ops c = Some c' \<Longrightarrow>
    seg_base (fst c') = seg_base (fst c) \<and> seg_size (fst c') = seg_size (fst c)"
proof (induction ops arbitrary: c)
  case (Cons x xs)
  have "seg_base (fst (client_step seg_allocate seg_deallocate x c)) = seg_base (fst c) \<and>
      seg_size (fst (client_step seg_allocate seg_deallocate x c)) = seg_size (fst c)"
    by (cases x) (simp_all add: case_prod_beta Let_def seg_fields)
  with Cons show ?case by (auto split: if_splits)
qed simp

text \<open>The two indexes are determined by the free addresses.\<close>

lemma seg_canonical:
  assumes "seg_wf s" "seg_wf t" "seg_free s = seg_free t" "seg_base s = seg_base t" "seg_size s = seg_size t"
  shows "s = t"
proof -
  have "segs s = segs t" using assms(1-3) by (intro apart_unique) (simp_all add: seg_wf_def seg_free_def)
  then have "set (seg_off s) = set (seg_off t)" by (simp add: segs_def inj_image_eq_iff [OF inj_seg_nat])
  then have "seg_off s = seg_off t" "set (seg_siz s) = set (seg_siz t)"
    using assms(1,2) om_ok_equal by (auto simp: seg_wf_def)
  moreover from this(2) have "seg_siz s = seg_siz t"
    using assms(1,2) unfolding seg_wf_def os_ok_def by (metis strict_sorted_equal)
  ultimately show ?thesis using assms(4,5) by (cases s, cases t) simp
qed

text \<open>\<open>allocate\<close> is best fit: it returns the start of the smallest free segment that is
  large enough, of several the one with the lowest address, removes exactly the \<open>n\<close> bytes from
  the free space and keeps both indexes consistent; it returns null, and changes nothing, only when
  no segment is large enough.\<close>

theorem seg_allocate_best_fit:
  assumes "seg_wf s" "n \<noteq> 0" "seg_allocate n s = (p, s')"
  shows "seg_wf s' \<and>
    (if p = 0 then s' = s \<and> (\<forall>(a, z)\<in>set (seg_off s). unat z < unat n)
     else (\<exists>z. (p, z) \<in> set (seg_off s) \<and> unat n \<le> unat z \<and>
             (\<forall>(b, y)\<in>set (seg_off s). unat n \<le> unat y \<longrightarrow> unat z < unat y \<or> (z = y \<and> unat p \<le> unat b))) \<and>
          seg_free s' = seg_free s - blk (p, n))"
  using seg_allocate_spec [OF assms] by simp

lemma seg_allocate_best_fit_witness:
  "fst (seg_allocate 5 (seg_ctor 4096 64)) = 4096 \<and> seg_wf (snd (seg_allocate 5 (seg_ctor 4096 64)))"
proof -
  have w: "seg_wf (seg_ctor 4096 64)" using seg_ctor_wf [of 4096 64] by simp
  have a: "seg_allocate 5 (seg_ctor 4096 64) = (4096, snd (seg_allocate 5 (seg_ctor 4096 64)))"
    by (simp add: seg_allocate_def seg_ctor_def os_lower_def)
  have "(5 :: u64) \<noteq> 0" by simp
  from seg_allocate_best_fit [OF w this a, THEN conjunct1] arg_cong [OF a, of fst] show ?thesis by simp
qed

text \<open>Property C15: \<open>deallocate\<close> of a block that lies in the region and is not free adds exactly its
  bytes to the free space and merges with both neighbours: afterwards no two free segments
  touch, and the indexes agree.\<close>

theorem seg_deallocate_merges:
  assumes "seg_wf s" "n \<noteq> 0" "blk (p, n) \<subseteq> seg_region s" "blk (p, n) \<inter> seg_free s = {}"
  shows "seg_wf (seg_deallocate p n s) \<and> seg_free (seg_deallocate p n s) = seg_free s \<union> blk (p, n) \<and>
    apart (segs (seg_deallocate p n s))"
proof -
  note d = seg_deallocate_spec [OF assms]
  then have "apart (segs (seg_deallocate p n s))" unfolding seg_wf_def by blast
  with d show ?thesis by blast
qed

lemma seg_deallocate_merges_witness:
  "seg_wf (seg_deallocate 4096 5 (snd (seg_allocate 5 (seg_ctor 4096 64))))"
proof -
  let ?s = "seg_ctor 4096 64" and ?t = "snd (seg_allocate 5 (seg_ctor 4096 64))"
  have w: "seg_wf ?s" "seg_free ?s = seg_region ?s" using seg_ctor_wf [of 4096 64] by simp_all
  have a: "seg_allocate 5 ?s = (4096, ?t)" by (simp add: seg_allocate_def seg_ctor_def os_lower_def)
  have n: "(5 :: u64) \<noteq> 0" by simp
  from seg_allocate_spec [OF w(1) n a] seg.alloc_law [OF w(1) n a]
  have t: "seg_wf ?t" "seg_region ?t = seg_region ?s" "seg_free ?t = seg_free ?s - blk (4096, 5)" "blk (4096, 5) \<subseteq> seg_free ?s"
    by simp_all
  then have "blk (4096, 5) \<subseteq> seg_region ?t" "blk (4096, 5) \<inter> seg_free ?t = {}" using w(2) by auto
  from seg_deallocate_merges [OF t(1) n this] show ?thesis by simp
qed

text \<open>\<open>allocate(0)\<close> is outside the contract of the following property, and has to be: the remainder of the segment has the key of the
  segment itself, so that it is not inserted, and the segment is erased. A fresh allocator loses the whole region,
  and no later allocation succeeds.\<close>

lemma seg_allocate_zero_loses:
  assumes "sz \<noteq> 0"
  shows "fst (seg_allocate 0 (seg_ctor base sz)) = base \<and> seg_free (snd (seg_allocate 0 (seg_ctor base sz))) = {} \<and>
    fst (seg_allocate n (snd (seg_allocate 0 (seg_ctor base sz)))) = 0"
proof -
  have z: "(0, 0) \<le> (sz, base)" by (simp add: less_eq_prod_def)
  have "seg_allocate 0 (seg_ctor base sz) = (base, (seg_ctor base sz)\<lparr>seg_siz := [], seg_off := []\<rparr>)"
    using assms z by (simp add: seg_allocate_def seg_ctor_def os_lower_def om_erase_def os_erase_def word_gt_0 Let_def)
  then show ?thesis by (simp add: seg_free_def segs_def covered_def seg_allocate_def os_lower_def)
qed

text \<open>Property C13: a client that allocates blocks of at least one byte and frees what it owns, in any order, owns pairwise
  disjoint blocks inside the region (not at address 0, of at least one byte, below \<open>2^64\<close>), and every other byte of the
  region is free. When it has given everything back, the allocator is in its initial state again: one free segment.\<close>

theorem seg_trace_conserves:
  assumes "base \<noteq> 0" "sz \<noteq> 0" "unat base + unat sz < 2 ^ 64"
    and "client_run seg_allocate seg_deallocate ops (seg_ctor base sz, []) = Some (s, live)"
  shows "sorted_wrt (\<lambda>a b. blk a \<inter> blk b = {}) live \<and> live_space live \<subseteq> blk (base, sz) \<and>
    seg_free s = blk (base, sz) - live_space live \<and> (live = [] \<longrightarrow> s = seg_ctor base sz)"
proof -
  note c = seg_ctor_wf [OF assms(1-3)]
  have reg: "seg_region (seg_ctor base sz) = blk (base, sz)" by (simp add: seg_region_def seg_ctor_def blk_def)
  from seg.client_run_spec [OF conjunct1 [OF c] conjunct2 [OF c] assms(4)]
  have r: "seg_wf s" "seg_region s = blk (base, sz)" "sorted_wrt (\<lambda>a b. blk a \<inter> blk b = {}) live"
    "live_space live \<subseteq> blk (base, sz)" "seg_free s = blk (base, sz) - live_space live"
    by (simp_all add: reg)
  have "seg_base s = base \<and> seg_size s = sz"
    using client_run_base [OF assms(4)] by (simp add: seg_ctor_def)
  then have "s = seg_ctor base sz" if "live = []"
    using that r c reg by (intro seg_canonical) (simp_all add: live_space_def seg_ctor_def)
  with r show ?thesis by blast
qed

lemma seg_trace_conserves_witness:
  "\<exists>s. client_run seg_allocate seg_deallocate [AllocOp 5, AllocOp 7, FreeOp 0, FreeOp 0] (seg_ctor 4096 64, []) = Some (s, []) \<and>
    s = seg_ctor 4096 64"
proof -
  have run: "client_run seg_allocate seg_deallocate [AllocOp 5, AllocOp 7, FreeOp 0, FreeOp 0] (seg_ctor 4096 64, []) =
      Some (fst (the (client_run seg_allocate seg_deallocate [AllocOp 5, AllocOp 7, FreeOp 0, FreeOp 0] (seg_ctor 4096 64, []))), [])"
    by (simp add: seg_allocate_def seg_ctor_def os_lower_def os_erase_def om_erase_def Let_def)
  have "(4096 :: u64) \<noteq> 0" "(64 :: u64) \<noteq> 0" "unat (4096 :: u64) + unat (64 :: u64) < 2 ^ 64" by simp_all
  from seg_trace_conserves [OF this run] run show ?thesis by blast
qed

section \<open>\<open>placement_allocate\<close>\<close>

text \<open>On a fresh allocator, \<open>placement_allocate\<close> of a proper prefix of the region leaves
  the first byte of the block in the free map, so that the next \<open>allocate\<close> hands out the same
  address again; asked for the whole region it uses the iterator of an erased element with nothing
  before it, which is undefined; and a block in the middle of the region is filed with a
  size that is not its own: two later allocations of that size get, second, a block that reaches
  beyond the region.\<close>

theorem seg_placement_unsafe:
  assumes "base \<noteq> 0" "unat base + unat sz < 2 ^ 64" "n \<noteq> 0" "unat n < unat sz"
  shows "(\<exists>s. seg_placement_allocate base n (seg_ctor base sz) = Ret (base, s) \<and> fst (seg_allocate 1 s) = base) \<and>
    seg_placement_allocate base sz (seg_ctor base sz) = UB \<and>
    (\<forall>f. f \<noteq> 0 \<and> unat f + unat n < unat sz \<and> unat sz < unat f + unat n + unat f \<longrightarrow>
      (\<exists>s s'. seg_placement_allocate (base + f) n (seg_ctor base sz) = Ret (base + f, s) \<and>
        seg_allocate f s = (base, s') \<and> fst (seg_allocate f s') = base + f + n \<and>
        \<not> blk (base + f + n, f) \<subseteq> seg_region (seg_ctor base sz)))"
proof (intro conjI allI impI)
  have n: "0 < unat n" using assms(3) by (simp add: unat_gt_0)
  have bs: "unat (base + sz) = unat base + unat sz" and bn: "unat (base + n) = unat base + unat n"
    using assms(2,4) by (auto intro!: unat_add_u64)
  have l: "unat (sz - n) = unat sz - unat n" using assms(4) by (intro unat_sub_u64) simp
  have i: "rev_upper base [(base, sz)] = None" by (simp add: rev_upper_def)
  have z: "sz - n \<noteq> 0" using assms(4) by auto
  show "\<exists>s. seg_placement_allocate base n (seg_ctor base sz) = Ret (base, s) \<and> fst (seg_allocate 1 s) = base"
  proof (intro exI conjI)
    show "seg_placement_allocate base n (seg_ctor base sz) =
        Ret (base, \<lparr>seg_siz = [(sz - n, base)], seg_off = [(base, sz - n)], seg_base = base, seg_size = sz\<rparr>)"
      using assms(4) z by (simp add: seg_placement_allocate_def seg_ctor_def i rev_deref_def Let_def os_erase_def
          om_erase_def word_less_nat_alt bs bn)
    have "(1, 0) \<le> (sz - n, base)" using l assms(1,4)
      by (auto simp: less_eq_prod_def word_less_nat_alt word_le_nat_alt)
    then show "fst (seg_allocate 1 \<lparr>seg_siz = [(sz - n, base)], seg_off = [(base, sz - n)], seg_base = base, seg_size = sz\<rparr>) = base"
      by (simp add: seg_allocate_def os_lower_def Let_def)
  qed
  show "seg_placement_allocate base sz (seg_ctor base sz) = UB"
    by (simp add: seg_placement_allocate_def seg_ctor_def i rev_deref_def Let_def om_erase_def)
  fix f :: u64
  assume f: "f \<noteq> 0 \<and> unat f + unat n < unat sz \<and> unat sz < unat f + unat n + unat f"
  then have f0: "0 < unat f" by (simp add: unat_gt_0)
  have bf: "unat (base + f) = unat base + unat f" using f assms(2) by (intro unat_add_u64) simp
  then have bfn: "unat (base + f + n) = unat base + unat f + unat n"
    using f assms(2) by (subst unat_add_u64) simp_all
  let ?m = "[(base, f), (base + f + n, sz - n - f)]"
  let ?s = "\<lparr>seg_siz = [(f, base), (f, base + f + n)], seg_off = ?m, seg_base = base, seg_size = sz\<rparr>"
  let ?s' = "\<lparr>seg_siz = [(f, base + f + n)], seg_off = [(base + f + n, sz - n - f)], seg_base = base, seg_size = sz\<rparr>"
  have j: "rev_upper (base + f) [(base, sz)] = None"
    using bf f0 by (simp add: rev_upper_def word_less_nat_alt)
  have ne: "base \<noteq> base + f" "base + sz \<noteq> base + f + n" "base < base + f + n" "\<not> base + sz < base + f + n"
    "base + f + n \<noteq> base"
    using f bf bfn bs f0 by (auto simp: word_less_nat_alt word_unat_eq_iff)
  have lf: "sz - n - (sz - n - f) = f" by simp
  show "\<exists>s s'. seg_placement_allocate (base + f) n (seg_ctor base sz) = Ret (base + f, s) \<and>
      seg_allocate f s = (base, s') \<and> fst (seg_allocate f s') = base + f + n \<and>
      \<not> blk (base + f + n, f) \<subseteq> seg_region (seg_ctor base sz)"
  proof (intro exI conjI)
    show "seg_placement_allocate (base + f) n (seg_ctor base sz) = Ret (base + f, ?s)"
      using z ne f by (simp add: seg_placement_allocate_def seg_ctor_def j rev_deref_def Let_def os_erase_def om_assign_def)
    show "seg_allocate f ?s = (base, ?s')"
      using ne by (simp add: seg_allocate_def os_lower_def Let_def less_eq_prod_def os_erase_def om_erase_def)
    show "fst (seg_allocate f ?s') = base + f + n"
      by (simp add: seg_allocate_def os_lower_def Let_def less_eq_prod_def)
    have "unat base + unat f + unat n + unat f - 1 \<in> blk (base + f + n, f)" using bfn f0 by (simp add: blk_def)
    moreover have "unat base + unat f + unat n + unat f - 1 \<notin> seg_region (seg_ctor base sz)"
      using f by (auto simp: seg_region_def seg_ctor_def)
    ultimately show "\<not> blk (base + f + n, f) \<subseteq> seg_region (seg_ctor base sz)" by blast
  qed
qed

lemma seg_placement_unsafe_witness:
  "seg_placement_allocate 4096 64 (seg_ctor 4096 64) = UB"
proof -
  have "(4096 :: u64) \<noteq> 0" "unat (4096 :: u64) + unat (64 :: u64) < 2 ^ 64" "(16 :: u64) \<noteq> 0" "unat (16 :: u64) < unat (64 :: u64)"
    by simp_all
  from seg_placement_unsafe [OF this] show ?thesis by blast
qed

section \<open>\<open>SegAllocatorReverse\<close>\<close>

text \<open>\<open>reverse_ptr\<close> is its own inverse, so that \<open>deallocate\<close> gives back the bytes
  \<open>allocate\<close> took, but it is off by one: the first block of a fresh allocator ends one byte before
  the end of the region, and a block of the full size begins one byte before the region.\<close>

theorem seg_reverse_off_by_one:
  assumes "base \<noteq> 0" "n \<noteq> 0" "unat n \<le> unat sz"
  shows "reverse_ptr s (reverse_ptr s p n) n = p \<and>
    fst (seg_rev_allocate n (seg_ctor base sz)) = base + sz - n - 1 \<and>
    fst (seg_rev_allocate sz (seg_ctor base sz)) = base - 1"
proof -
  have "fst (seg_rev_allocate m (seg_ctor base sz)) = base + sz - m - 1" if "unat m \<le> unat sz" for m
  proof -
    have "(m, 0) \<le> (sz, base)" using that by (auto simp: less_eq_prod_def word_le_nat_alt)
    then have "seg_allocate m (seg_ctor base sz) = (base, snd (seg_allocate m (seg_ctor base sz)))"
      "seg_base (snd (seg_allocate m (seg_ctor base sz))) = base" "seg_size (snd (seg_allocate m (seg_ctor base sz))) = sz"
      by (simp_all add: seg_allocate_def seg_ctor_def os_lower_def Let_def)
    moreover from this(1) have "fst (seg_allocate m (seg_ctor base sz)) = base" by (metis fst_conv)
    ultimately show ?thesis using assms(1) by (simp add: seg_rev_allocate_def reverse_ptr_def case_prod_beta)
  qed
  from this [OF assms(3)] this [of sz] show ?thesis by (simp add: reverse_ptr_def)
qed

lemma seg_reverse_off_by_one_witness: "fst (seg_rev_allocate 64 (seg_ctor 4096 64)) = 4095"
proof -
  have "(4096 :: u64) \<noteq> 0" "(64 :: u64) \<noteq> 0" "unat (64 :: u64) \<le> unat (64 :: u64)" by simp_all
  from seg_reverse_off_by_one [OF this] show ?thesis by simp
qed

end
