(* ===== verification/Lru_Cache.thy ===== *)
theory Lru_Cache
  imports Prelude "HOL-Library.AList"
begin

text \<open>
  cache.h: \<open>LRUCache\<close>, the hash of tuples and \<open>cached_bind\<close>. The list \<open>lru_list\<close> is a list of nodes
  (address, key), because the hash table stores iterators, that is node addresses, into it; the
  hash table is an association list. The hash function decides only the bucket and does not occur.
\<close>

record ('k, 'v) lru =
  lru_capacity :: nat
  lru_cache :: "('k \<times> nat \<times> 'v) list"
  lru_list :: "(nat \<times> 'k) list"
  lru_fresh :: nat

definition lru_ctor :: "nat \<Rightarrow> ('k, 'v) lru" where
  "lru_ctor cap = \<lparr>lru_capacity = cap, lru_cache = [], lru_list = [], lru_fresh = 0\<rparr>"

text \<open>\<open>lru_list.splice(lru_list.begin(), lru_list, it)\<close>: the node moves to the front, its address stays.\<close>

definition splice_front :: "nat \<Rightarrow> (nat \<times> 'k) list \<Rightarrow> (nat \<times> 'k) list" where
  "splice_front n xs = filter (\<lambda>p. fst p = n) xs @ filter (\<lambda>p. fst p \<noteq> n) xs"

text \<open>With capacity 0 the first \<open>put\<close> calls \<open>back()\<close> on the empty list, which is undefined.\<close>

definition lru_put :: "'k \<Rightarrow> 'v \<Rightarrow> ('k, 'v) lru \<Rightarrow> ('k, 'v) lru run" where
  "lru_put key value s =
    (case map_of (lru_cache s) key of
       Some (it, _) \<Rightarrow>
         Ret (s\<lparr>lru_cache := AList.update key (it, value) (lru_cache s), lru_list := splice_front it (lru_list s)\<rparr>)
     | None \<Rightarrow>
         if length (lru_cache s) = lru_capacity s then
           if lru_list s = [] then UB
           else let cache1 = AList.delete (snd (last (lru_list s))) (lru_cache s);
                    list1 = splice_front (fst (last (lru_list s))) (lru_list s);
                    list2 = (fst (hd list1), key) # tl list1
                in Ret (s\<lparr>lru_cache := AList.update key (fst (hd list2), value) cache1, lru_list := list2\<rparr>)
         else let list1 = (lru_fresh s, key) # lru_list s
              in Ret (s\<lparr>lru_cache := AList.update key (fst (hd list1), value) (lru_cache s), lru_list := list1,
                        lru_fresh := Suc (lru_fresh s)\<rparr>))"

definition lru_get :: "'k \<Rightarrow> ('k, 'v) lru \<Rightarrow> 'v option \<times> ('k, 'v) lru" where
  "lru_get key s =
    (case map_of (lru_cache s) key of
       None \<Rightarrow> (None, s)
     | Some (it, v) \<Rightarrow> (Some v, s\<lparr>lru_list := splice_front it (lru_list s)\<rparr>))"

section \<open>The specification: a list of entries, most recently used first\<close>

definition lru_touch :: "'k \<Rightarrow> 'v \<Rightarrow> ('k \<times> 'v) list \<Rightarrow> ('k \<times> 'v) list" where
  "lru_touch k v ls = (k, v) # AList.delete k ls"

definition lru_spec_put :: "nat \<Rightarrow> 'k \<Rightarrow> 'v \<Rightarrow> ('k \<times> 'v) list \<Rightarrow> ('k \<times> 'v) list" where
  "lru_spec_put cap k v ls =
    lru_touch k v (if map_of ls k = None \<and> length ls = cap then butlast ls else ls)"

definition lru_spec_get :: "'k \<Rightarrow> ('k \<times> 'v) list \<Rightarrow> 'v option \<times> ('k \<times> 'v) list" where
  "lru_spec_get k ls = (case map_of ls k of None \<Rightarrow> (None, ls) | Some v \<Rightarrow> (Some v, lru_touch k v ls))"

section \<open>The abstraction\<close>

definition lru_abs :: "('k, 'v) lru \<Rightarrow> ('k \<times> 'v) list" where
  "lru_abs s = map (\<lambda>(n, k). (k, snd (the (map_of (lru_cache s) k)))) (lru_list s)"

definition lru_ok :: "('k, 'v) lru \<Rightarrow> bool" where
  "lru_ok s \<longleftrightarrow> distinct (map fst (lru_list s)) \<and> distinct (map snd (lru_list s)) \<and> distinct (map fst (lru_cache s)) \<and>
     (\<forall>k n. (n, k) \<in> set (lru_list s) \<longleftrightarrow> (\<exists>v. map_of (lru_cache s) k = Some (n, v))) \<and>
     (\<forall>n k. (n, k) \<in> set (lru_list s) \<longrightarrow> n < lru_fresh s) \<and>
     length (lru_cache s) \<le> lru_capacity s"

lemma splice_front_mem: "set (splice_front n xs) = set xs"
  by (auto simp: splice_front_def)

lemma splice_front_at:
  assumes "distinct (map fst xs)" "(n, k) \<in> set xs"
  shows "splice_front n xs = (n, k) # filter (\<lambda>p. fst p \<noteq> n) xs"
proof -
  have "filter (\<lambda>p. fst p = n) xs = [(n, k)]"
    using assms
  proof (induction xs)
    case (Cons p xs)
    show ?case
    proof (cases "p = (n, k)")
      case True
      with Cons.prems have "\<forall>q\<in>set xs. fst q \<noteq> n" by force
      with True show ?thesis by (simp add: filter_empty_conv)
    next
      case False
      with Cons.prems(2) have "(n, k) \<in> set xs" by auto
      moreover from this have "n \<in> set (map fst xs)" by force
      ultimately have "(n, k) \<in> set xs" "fst p \<noteq> n" using Cons.prems(1) by auto
      with Cons show ?thesis by simp
    qed
  qed simp
  then show ?thesis by (simp add: splice_front_def)
qed

lemma lru_ok_node: "lru_ok s \<Longrightarrow> (n, k) \<in> set (lru_list s) \<longleftrightarrow> (\<exists>v. map_of (lru_cache s) k = Some (n, v))"
  unfolding lru_ok_def by blast

lemma lru_node_key:
  assumes "lru_ok s" "(n, k) \<in> set (lru_list s)" "p \<in> set (lru_list s)"
  shows "fst p = n \<longleftrightarrow> snd p = k"
proof -
  have "inj_on fst (set (lru_list s))" "inj_on snd (set (lru_list s))"
    using assms(1) by (simp_all add: lru_ok_def distinct_map)
  then show ?thesis using assms(2,3) by (metis fst_conv snd_conv inj_onD)
qed

lemma lru_length: "lru_ok s \<Longrightarrow> length (lru_list s) = length (lru_cache s)"
proof -
  assume ok: "lru_ok s"
  have "snd ` set (lru_list s) = fst ` set (lru_cache s)"
  proof -
    have "k \<in> snd ` set (lru_list s) \<longleftrightarrow> map_of (lru_cache s) k \<noteq> None" for k
      using ok by (force simp: lru_ok_def)
    then show ?thesis by (auto simp: map_of_eq_None_iff)
  qed
  then have "card (set (map snd (lru_list s))) = card (set (map fst (lru_cache s)))" by simp
  moreover have "distinct (map snd (lru_list s))" "distinct (map fst (lru_cache s))" using ok by (simp_all add: lru_ok_def)
  ultimately have "length (map snd (lru_list s)) = length (map fst (lru_cache s))" by (metis distinct_card)
  then show ?thesis by simp
qed

lemma lru_abs_keys: "map fst (lru_abs s) = map snd (lru_list s)"
  by (simp add: lru_abs_def case_prod_beta)

lemma lru_abs_map_of:
  assumes "lru_ok s"
  shows "map_of (lru_abs s) k = map_option snd (map_of (lru_cache s) k)"
proof (cases "map_of (lru_cache s) k")
  case None
  then have "k \<notin> snd ` set (lru_list s)" using assms by (force simp: lru_ok_def)
  then have "k \<notin> set (map fst (lru_abs s))" by (simp add: lru_abs_keys)
  then have "map_of (lru_abs s) k = None" by (simp add: map_of_eq_None_iff)
  with None show ?thesis by simp
next
  case (Some p)
  then have "(fst p, k) \<in> set (lru_list s)" using assms by (cases p) (auto simp: lru_ok_def)
  then have "(k, snd p) \<in> set (lru_abs s)" using Some by (force simp: lru_abs_def)
  moreover have "distinct (map fst (lru_abs s))" using assms by (simp add: lru_abs_keys lru_ok_def)
  ultimately show ?thesis using Some by (simp add: map_of_eq_Some_iff)
qed

text \<open>Moving a node to the front touches its entry.\<close>

lemma lru_touch_abs:
  assumes "lru_ok s" "(n, k) \<in> set (lru_list s)"
  shows "map (\<lambda>(m, j). (j, f j)) (splice_front n (lru_list s)) =
    lru_touch k (f k) (map (\<lambda>(m, j). (j, f j)) (lru_list s))"
proof -
  have "distinct (map fst (lru_list s))" using assms(1) by (simp add: lru_ok_def)
  then have s: "splice_front n (lru_list s) = (n, k) # filter (\<lambda>p. fst p \<noteq> n) (lru_list s)"
    using assms(2) by (rule splice_front_at)
  have "filter (\<lambda>p. fst p \<noteq> n) (lru_list s) = filter (\<lambda>p. k \<noteq> snd p) (lru_list s)"
    using lru_node_key [OF assms] by (intro filter_cong) auto
  with s show ?thesis
    by (simp add: lru_touch_def AList.delete_eq filter_map comp_def case_prod_beta)
qed

lemma length_update_in: "map_of al k \<noteq> None \<Longrightarrow> length (AList.update k v al) = length al"
  by (induction al) (auto split: if_splits)

lemma length_update_notin: "map_of al k = None \<Longrightarrow> length (AList.update k v al) = Suc (length al)"
  by (induction al) (auto split: if_splits)

lemma length_delete_in: "distinct (map fst al) \<Longrightarrow> map_of al k \<noteq> None \<Longrightarrow> Suc (length (AList.delete k al)) = length al"
proof (induction al)
  case (Cons p al)
  show ?case
  proof (cases "fst p = k")
    case True
    then have "k \<notin> fst ` set al" using Cons.prems(1) by simp
    then have "AList.delete k al = al" by (rule delete_id)
    with True show ?thesis by (cases p) simp
  next
    case False
    with Cons show ?thesis by (cases p) (auto simp: AList.delete_eq)
  qed
qed simp

lemma delete_fresh: "k \<notin> fst ` set al \<Longrightarrow> AList.delete k al = al"
  by (rule delete_id)

lemma lru_put_hit:
  assumes "lru_ok s" "map_of (lru_cache s) k = Some (it, v0)"
  shows "\<exists>s'. lru_put k v s = Ret s' \<and> lru_ok s' \<and> lru_capacity s' = lru_capacity s \<and>
    lru_abs s' = lru_touch k v (lru_abs s)"
proof -
  let ?c = "AList.update k (it, v) (lru_cache s)"
  let ?s = "s\<lparr>lru_cache := ?c, lru_list := splice_front it (lru_list s)\<rparr>"
  have m: "(it, k) \<in> set (lru_list s)" using assms by (auto simp: lru_ok_def)
  have d: "distinct (map fst (lru_list s))" "distinct (map snd (lru_list s))" using assms(1) by (simp_all add: lru_ok_def)
  have e: "splice_front it (lru_list s) = (it, k) # filter (\<lambda>p. fst p \<noteq> it) (lru_list s)"
    using d(1) m by (rule splice_front_at)
  have ds: "distinct (map fst (splice_front it (lru_list s)))" "distinct (map snd (splice_front it (lru_list s)))"
    unfolding e using d lru_node_key [OF assms(1) m] by (auto simp: distinct_map_filter)
  have mc: "map_of ?c j = (if j = k then Some (it, v) else map_of (lru_cache s) j)" for j
    by (simp add: update_conv)
  have it: "(n, j) \<in> set (splice_front it (lru_list s)) \<longleftrightarrow> (\<exists>w. map_of ?c j = Some (n, w))" for n j
    unfolding splice_front_mem mc lru_ok_node [OF assms(1)] using assms(2) by simp
  have l: "length ?c = length (lru_cache s)" using assms(2) by (intro length_update_in) simp
  have "lru_ok ?s"
    using assms(1) ds it l by (simp add: lru_ok_def splice_front_mem distinct_update)
  moreover have "lru_abs ?s = lru_touch k v (lru_abs s)"
  proof -
    let ?f = "\<lambda>j. snd (the (map_of ?c j))"
    have "lru_abs ?s = map (\<lambda>(m, j). (j, ?f j)) (splice_front it (lru_list s))" by (simp add: lru_abs_def)
    also have "\<dots> = lru_touch k (?f k) (map (\<lambda>(m, j). (j, ?f j)) (lru_list s))" by (rule lru_touch_abs [OF assms(1) m])
    also have "\<dots> = lru_touch k v (lru_abs s)"
      by (auto simp: lru_touch_def lru_abs_def mc AList.delete_eq filter_map comp_def case_prod_beta intro: map_cong)
    finally show ?thesis .
  qed
  ultimately show ?thesis using assms(2) by (auto simp: lru_put_def)
qed

lemma lru_put_grow:
  assumes "lru_ok s" "map_of (lru_cache s) k = None" "length (lru_cache s) \<noteq> lru_capacity s"
  shows "\<exists>s'. lru_put k v s = Ret s' \<and> lru_ok s' \<and> lru_capacity s' = lru_capacity s \<and>
    lru_abs s' = lru_touch k v (lru_abs s)"
proof -
  let ?n = "lru_fresh s"
  let ?c = "AList.update k (?n, v) (lru_cache s)"
  let ?s = "s\<lparr>lru_cache := ?c, lru_list := (?n, k) # lru_list s, lru_fresh := Suc ?n\<rparr>"
  have fr: "?n \<notin> fst ` set (lru_list s)" using assms(1) by (force simp: lru_ok_def)
  have nk: "k \<notin> snd ` set (lru_list s)" using assms(1,2) by (force simp: lru_ok_def)
  have mc: "map_of ?c j = (if j = k then Some (?n, v) else map_of (lru_cache s) j)" for j
    by (simp add: update_conv)
  have "(n, j) \<in> set ((?n, k) # lru_list s) \<longleftrightarrow> (\<exists>w. map_of ?c j = Some (n, w))" for n j
  proof -
    have "(n, k) \<notin> set (lru_list s)" using nk by force
    then show ?thesis unfolding mc using lru_ok_node [OF assms(1), of n j] by auto
  qed
  moreover have "length ?c \<le> lru_capacity s"
    using assms length_update_notin [OF assms(2), of "(?n, v)"] by (simp add: lru_ok_def)
  moreover have "n < Suc ?n" if "(n, j) \<in> set ((?n, k) # lru_list s)" for n j
  proof (cases "(n, j) \<in> set (lru_list s)")
    case True
    then have "n < ?n" using assms(1) unfolding lru_ok_def by blast
    then show ?thesis by simp
  qed (use that in auto)
  moreover have "distinct (map fst ((?n, k) # lru_list s))" "distinct (map snd ((?n, k) # lru_list s))" "distinct (map fst ?c)"
    using assms(1) fr nk by (simp_all add: lru_ok_def distinct_update)
  ultimately have "lru_ok ?s" unfolding lru_ok_def by simp
  moreover have "lru_abs ?s = lru_touch k v (lru_abs s)"
  proof -
    have "k \<notin> set (map fst (lru_abs s))" unfolding lru_abs_keys using nk by simp
    then have "AList.delete k (lru_abs s) = lru_abs s" by (intro delete_fresh) simp
    moreover have "lru_abs ?s = (k, v) # lru_abs s"
      using nk by (auto simp: lru_abs_def mc case_prod_beta intro!: map_cong)
    ultimately show ?thesis by (simp add: lru_touch_def)
  qed
  ultimately show ?thesis using assms(2,3) by (auto simp: lru_put_def Let_def)
qed

lemma lru_put_evict:
  assumes "lru_ok s" "map_of (lru_cache s) k = None" "length (lru_cache s) = lru_capacity s" "lru_capacity s \<noteq> 0"
  shows "\<exists>s'. lru_put k v s = Ret s' \<and> lru_ok s' \<and> lru_capacity s' = lru_capacity s \<and>
    lru_abs s' = lru_touch k v (butlast (lru_abs s))"
proof -
  obtain xs n0 k0 where l: "lru_list s = xs @ [(n0, k0)]"
    using lru_length [OF assms(1)] assms(3,4) by (metis length_0_conv rev_exhaust surj_pair)
  let ?c1 = "AList.delete k0 (lru_cache s)"
  let ?c = "AList.update k (n0, v) ?c1"
  let ?s = "s\<lparr>lru_cache := ?c, lru_list := (n0, k) # xs\<rparr>"
  have d: "distinct (map fst (lru_list s))" "distinct (map snd (lru_list s))" "distinct (map fst (lru_cache s))"
    using assms(1) by (simp_all add: lru_ok_def)
  have nk: "k \<notin> snd ` set (lru_list s)" using assms(1,2) by (force simp: lru_ok_def)
  have n0: "n0 \<notin> fst ` set xs" "k0 \<notin> snd ` set xs" using d l by auto
  have "filter (\<lambda>p. fst p \<noteq> n0) (lru_list s) = xs" using n0(1) l by (auto simp: filter_id_conv)
  then have sp: "splice_front n0 (lru_list s) = (n0, k0) # xs" using splice_front_at [OF d(1), of n0 k0] l by simp
  have put: "lru_put k v s = Ret ?s" using assms(2,3) l sp by (simp add: lru_put_def Let_def)
  have mc: "map_of ?c j = (if j = k then Some (n0, v) else if j = k0 then None else map_of (lru_cache s) j)" for j
    by (simp add: update_conv delete_conv')
  have it: "(n, j) \<in> set ((n0, k) # xs) \<longleftrightarrow> (\<exists>w. map_of ?c j = Some (n, w))" for n j
  proof -
    have "(n, j) \<in> set (lru_list s) \<longleftrightarrow> (\<exists>w. map_of (lru_cache s) j = Some (n, w))" using assms(1) by (simp add: lru_ok_def)
    moreover have "(n, k) \<notin> set (lru_list s)" "(n, k0) \<notin> set xs" using nk n0(2) by force+
    ultimately show ?thesis unfolding mc l by auto
  qed
  have k0: "map_of (lru_cache s) k0 \<noteq> None" using lru_ok_node [OF assms(1), of n0 k0] l by auto
  have "map_of ?c1 k = None" using assms(2) by (simp add: delete_conv')
  then have "length ?c = lru_capacity s"
    using length_update_notin [of ?c1 k] length_delete_in [OF d(3) k0] assms(3) by simp
  moreover have "distinct (map fst ((n0, k) # xs))" "distinct (map snd ((n0, k) # xs))" using d l nk by auto
  moreover have "distinct (map fst ?c)" using d(3) by (intro distinct_update distinct_delete)
  moreover have "n < lru_fresh s" if "(n, j) \<in> set ((n0, k) # xs)" for n j
  proof -
    have "n \<in> fst ` set (lru_list s)" using that l by force
    then show ?thesis using assms(1) by (force simp: lru_ok_def)
  qed
  ultimately have ok: "lru_ok ?s" using it unfolding lru_ok_def by simp
  have "butlast (lru_abs s) = map (\<lambda>(n, j). (j, snd (the (map_of (lru_cache s) j)))) xs"
    using l by (simp add: lru_abs_def)
  moreover have "map (\<lambda>(n, j). (j, snd (the (map_of ?c j)))) xs = map (\<lambda>(n, j). (j, snd (the (map_of (lru_cache s) j)))) xs"
    using nk n0(2) l unfolding mc by (intro map_cong) force+
  ultimately have ab: "lru_abs ?s = (k, v) # butlast (lru_abs s)" by (simp add: lru_abs_def mc)
  have "set (map fst (butlast (lru_abs s))) \<subseteq> set (map snd (lru_list s))"
    using lru_abs_keys [of s] by (metis in_set_butlastD map_butlast subsetI)
  then have "k \<notin> fst ` set (butlast (lru_abs s))" using nk by auto
  then have "AList.delete k (butlast (lru_abs s)) = butlast (lru_abs s)" by (rule delete_fresh)
  with ab put ok show ?thesis by (simp add: lru_touch_def)
qed

section \<open>The code refines the specification\<close>

lemma lru_abs_length: "lru_ok s \<Longrightarrow> length (lru_abs s) = length (lru_cache s)"
  using lru_length [of s] by (simp add: lru_abs_def)

lemma lru_put_refines:
  assumes "lru_ok s" "lru_capacity s \<noteq> 0"
  shows "\<exists>s'. lru_put k v s = Ret s' \<and> lru_ok s' \<and> lru_capacity s' = lru_capacity s \<and>
    lru_abs s' = lru_spec_put (lru_capacity s) k v (lru_abs s)"
proof (cases "map_of (lru_cache s) k")
  case None
  then show ?thesis
    using lru_put_evict [OF assms(1) None _ assms(2)] lru_put_grow [OF assms(1) None]
      lru_abs_length [OF assms(1)] lru_abs_map_of [OF assms(1), of k]
    by (cases "length (lru_cache s) = lru_capacity s") (simp_all add: lru_spec_put_def)
next
  case (Some p)
  obtain it v0 where p: "p = (it, v0)" by fastforce
  show ?thesis
    using lru_put_hit [OF assms(1) Some [unfolded p]] lru_abs_map_of [OF assms(1), of k] Some
    by (simp add: lru_spec_put_def)
qed

lemma lru_get_refines:
  assumes "lru_ok s"
  shows "fst (lru_get k s) = fst (lru_spec_get k (lru_abs s)) \<and> lru_ok (snd (lru_get k s)) \<and>
    lru_capacity (snd (lru_get k s)) = lru_capacity s \<and> lru_abs (snd (lru_get k s)) = snd (lru_spec_get k (lru_abs s))"
proof (cases "map_of (lru_cache s) k")
  case None
  then show ?thesis using assms lru_abs_map_of [OF assms, of k] by (simp add: lru_get_def lru_spec_get_def)
next
  case (Some p)
  obtain it v where p: "p = (it, v)" by fastforce
  let ?s = "s\<lparr>lru_list := splice_front it (lru_list s)\<rparr>"
  have m: "(it, k) \<in> set (lru_list s)" using lru_ok_node [OF assms] Some p by blast
  have d: "distinct (map fst (lru_list s))" "distinct (map snd (lru_list s))" using assms by (simp_all add: lru_ok_def)
  have e: "splice_front it (lru_list s) = (it, k) # filter (\<lambda>p. fst p \<noteq> it) (lru_list s)"
    using d(1) m by (rule splice_front_at)
  have "distinct (map fst (splice_front it (lru_list s)))" "distinct (map snd (splice_front it (lru_list s)))"
    unfolding e using d lru_node_key [OF assms m] by (auto simp: distinct_map_filter)
  then have "lru_ok ?s" using assms unfolding lru_ok_def by (simp add: splice_front_mem)
  moreover have "lru_abs ?s = lru_touch k v (lru_abs s)"
    using lru_touch_abs [OF assms m, of "\<lambda>j. snd (the (map_of (lru_cache s) j))"] Some p by (simp add: lru_abs_def)
  ultimately show ?thesis
    using Some p lru_abs_map_of [OF assms, of k] by (simp add: lru_get_def lru_spec_get_def)
qed

section \<open>What the specification promises\<close>

datatype ('k, 'v) lru_op = LruPut 'k 'v | LruGet 'k

primrec lru_op_key :: "('k, 'v) lru_op \<Rightarrow> 'k" where
  "lru_op_key (LruPut k v) = k"
| "lru_op_key (LruGet k) = k"

primrec lru_step :: "('k, 'v) lru_op \<Rightarrow> ('k, 'v) lru \<Rightarrow> ('v option \<times> ('k, 'v) lru) run" where
  "lru_step (LruPut k v) s = run_bind (lru_put k v s) (\<lambda>s'. Ret (None, s'))"
| "lru_step (LruGet k) s = Ret (lru_get k s)"

primrec lru_run :: "('k, 'v) lru_op list \<Rightarrow> ('k, 'v) lru \<Rightarrow> ('v option list \<times> ('k, 'v) lru) run" where
  "lru_run [] s = Ret ([], s)"
| "lru_run (x # xs) s =
    run_bind (lru_step x s) (\<lambda>(r, s1). run_bind (lru_run xs s1) (\<lambda>(rs, s2). Ret (r # rs, s2)))"

primrec lru_spec_step :: "nat \<Rightarrow> ('k, 'v) lru_op \<Rightarrow> ('k \<times> 'v) list \<Rightarrow> 'v option \<times> ('k \<times> 'v) list" where
  "lru_spec_step cap (LruPut k v) ls = (None, lru_spec_put cap k v ls)"
| "lru_spec_step cap (LruGet k) ls = lru_spec_get k ls"

primrec lru_spec_run :: "nat \<Rightarrow> ('k, 'v) lru_op list \<Rightarrow> ('k \<times> 'v) list \<Rightarrow> 'v option list \<times> ('k \<times> 'v) list" where
  "lru_spec_run cap [] ls = ([], ls)"
| "lru_spec_run cap (x # xs) ls =
    (let (r, l1) = lru_spec_step cap x ls; (rs, l2) = lru_spec_run cap xs l1 in (r # rs, l2))"

lemma lru_step_refines:
  assumes "lru_ok s" "lru_capacity s \<noteq> 0"
  shows "\<exists>s'. lru_step x s = Ret (fst (lru_spec_step (lru_capacity s) x (lru_abs s)), s') \<and> lru_ok s' \<and>
    lru_capacity s' = lru_capacity s \<and> lru_abs s' = snd (lru_spec_step (lru_capacity s) x (lru_abs s))"
proof (cases x)
  case (LruPut k v)
  then show ?thesis using lru_put_refines [OF assms, of k v] by auto
next
  case (LruGet k)
  then show ?thesis using lru_get_refines [OF assms(1), of k]
    by (intro exI [of _ "snd (lru_get k s)"]) (simp add: prod_eq_iff)
qed

lemma lru_run_refines:
  assumes "lru_ok s" "lru_capacity s \<noteq> 0"
  shows "\<exists>s'. lru_run xs s = Ret (fst (lru_spec_run (lru_capacity s) xs (lru_abs s)), s') \<and> lru_ok s' \<and>
    lru_capacity s' = lru_capacity s \<and> lru_abs s' = snd (lru_spec_run (lru_capacity s) xs (lru_abs s))"
  using assms
proof (induction xs arbitrary: s)
  case (Cons x xs)
  from lru_step_refines [OF Cons.prems, of x] obtain s1 where s1:
    "lru_step x s = Ret (fst (lru_spec_step (lru_capacity s) x (lru_abs s)), s1)" "lru_ok s1"
    "lru_capacity s1 = lru_capacity s" "lru_abs s1 = snd (lru_spec_step (lru_capacity s) x (lru_abs s))"
    by blast
  from Cons.IH [OF s1(2)] Cons.prems(2) s1(3) obtain s2 where s2:
    "lru_run xs s1 = Ret (fst (lru_spec_run (lru_capacity s) xs (lru_abs s1)), s2)" "lru_ok s2"
    "lru_capacity s2 = lru_capacity s" "lru_abs s2 = snd (lru_spec_run (lru_capacity s) xs (lru_abs s1))"
    by auto
  then show ?case using s1 by (simp add: case_prod_beta Let_def)
qed simp

end
