(* ===== verification/Lru_Properties.thy ===== *)
theory Lru_Properties
  imports Lru_Cache
begin

text \<open>
  What a client of \<open>LRUCache\<close> may rely on: the refinement of the recency list, and how long an
  entry stays.
\<close>

definition lru_good :: "nat \<Rightarrow> ('k \<times> 'v) list \<Rightarrow> bool" where
  "lru_good cap ls \<longleftrightarrow> distinct (map fst ls) \<and> length ls \<le> cap"

lemma delete_keys: "set (map fst (AList.delete k ls)) = set (map fst ls) - {k}"
  by (induction ls) auto

lemma lru_touch_good: "lru_good cap ls \<Longrightarrow> map_of ls k \<noteq> None \<or> length ls < cap \<Longrightarrow> lru_good cap (lru_touch k v ls)"
proof -
  assume a: "lru_good cap ls" "map_of ls k \<noteq> None \<or> length ls < cap"
  have "distinct (map fst (AList.delete k ls))" using a(1) by (simp add: lru_good_def distinct_delete)
  moreover have "length (AList.delete k ls) < cap"
  proof (cases "map_of ls k")
    case None
    with a length_delete_le [of k ls] show ?thesis by simp
  next
    case (Some v)
    with a(1) length_delete_in [of ls k] show ?thesis by (simp add: lru_good_def)
  qed
  ultimately show ?thesis
    unfolding lru_good_def lru_touch_def using delete_keys [of k ls] by auto
qed

lemma lru_good_butlast: "lru_good cap ls \<Longrightarrow> lru_good cap (butlast ls)"
  by (auto simp: lru_good_def map_butlast distinct_butlast)

lemma lru_spec_put_good:
  assumes "lru_good cap ls" "0 < cap"
  shows "lru_good cap (lru_spec_put cap k v ls)"
proof (cases "map_of ls k = None \<and> length ls = cap")
  case True
  then have "length (butlast ls) < cap" using assms(2) by simp
  with lru_touch_good [OF lru_good_butlast [OF assms(1)], of k v] True show ?thesis
    by (simp add: lru_spec_put_def)
next
  case False
  then have "map_of ls k \<noteq> None \<or> length ls < cap" using assms(1) by (auto simp: lru_good_def)
  from lru_touch_good [OF assms(1) this, of v] show ?thesis using False unfolding lru_spec_put_def by (simp only: if_False)
qed

lemma lru_spec_step_good:
  "lru_good cap ls \<Longrightarrow> 0 < cap \<Longrightarrow> lru_good cap (snd (lru_spec_step cap x ls))"
  by (cases x) (auto simp: lru_spec_put_good lru_spec_get_def lru_touch_good split: option.split)

lemma lru_spec_run_good: "lru_good cap ls \<Longrightarrow> 0 < cap \<Longrightarrow> lru_good cap (snd (lru_spec_run cap xs ls))"
  by (induction xs arbitrary: ls) (simp_all add: lru_spec_step_good case_prod_beta Let_def)

lemma lru_spec_run_append:
  "snd (lru_spec_run cap (xs @ ys) ls) = snd (lru_spec_run cap ys (snd (lru_spec_run cap xs ls)))"
  by (induction xs arbitrary: ls) (simp_all add: case_prod_beta Let_def)

text \<open>Nothing but a \<open>put\<close> of \<open>k\<close> changes the value of \<open>k\<close>.\<close>

lemma map_of_butlast: "distinct (map fst ls) \<Longrightarrow> map_of (butlast ls) k = Some w \<Longrightarrow> map_of ls k = Some w"
  by (metis append_butlast_last_id butlast.simps(1) map_add_Some_iff map_of_append map_add_find_right
      map_of_eq_Some_iff in_set_butlastD map_of_SomeD)

lemma lru_touch_map_of: "map_of (lru_touch k v ls) j = (if j = k then Some v else map_of ls j)"
  by (simp add: lru_touch_def delete_conv')

lemma lru_step_value:
  assumes "lru_good cap ls" "\<forall>w. x \<noteq> LruPut k w" "map_of ls k = None \<or> map_of ls k = Some v"
  shows "map_of (snd (lru_spec_step cap x ls)) k = None \<or> map_of (snd (lru_spec_step cap x ls)) k = Some v"
proof (cases x)
  case (LruPut j w)
  then have "j \<noteq> k" using assms(2) by auto
  with LruPut assms(1,3) map_of_butlast [of ls k] show ?thesis
    by (cases "map_of (butlast ls) k") (auto simp: lru_spec_put_def lru_touch_map_of lru_good_def)
next
  case (LruGet j)
  with assms(3) show ?thesis by (auto simp: lru_spec_get_def lru_touch_map_of split: option.split)
qed

text \<open>\<open>near k K ls\<close>: only keys of \<open>K\<close> are in front of \<open>k\<close>.\<close>

definition near :: "'k \<Rightarrow> 'k set \<Rightarrow> ('k \<times> 'v) list \<Rightarrow> bool" where
  "near k K ls \<longleftrightarrow> (\<exists>xs v ys. ls = xs @ (k, v) # ys \<and> fst ` set xs \<subseteq> K)"

lemma near_touch:
  assumes "near k K ls" "j \<in> insert k K"
  shows "near k K (lru_touch j w ls)"
proof (cases "j = k")
  case True
  have "lru_touch k w ls = [] @ (k, w) # AList.delete k ls \<and> fst ` set ([] :: ('a \<times> 'b) list) \<subseteq> K"
    by (simp add: lru_touch_def)
  with True show ?thesis unfolding near_def by blast
next
  case False
  obtain xs v ys where l: "ls = xs @ (k, v) # ys" "fst ` set xs \<subseteq> K" using assms(1) by (auto simp: near_def)
  have "lru_touch j w ls = ((j, w) # AList.delete j xs) @ (k, v) # AList.delete j ys"
    using False l(1) by (simp add: lru_touch_def AList.delete_eq)
  moreover have "fst ` set ((j, w) # AList.delete j xs) \<subseteq> K"
    using False assms(2) l(2) delete_keys [of j xs] by auto
  ultimately show ?thesis unfolding near_def by blast
qed

lemma near_butlast:
  assumes "near k K ls" "lru_good cap ls" "length ls = cap" "finite K" "card K < cap" "j \<in> K" "map_of ls j = None"
  shows "near k K (butlast ls)"
proof -
  obtain xs v ys where l: "ls = xs @ (k, v) # ys" "fst ` set xs \<subseteq> K" using assms(1) by (auto simp: near_def)
  have "ys \<noteq> []"
  proof
    assume y: "ys = []"
    have "j \<notin> fst ` set xs" using assms(7) l(1) by (auto simp: map_of_eq_None_iff)
    with l(2) have "fst ` set xs \<subseteq> K - {j}" by blast
    then have "card (fst ` set xs) \<le> card (K - {j})" using assms(4) by (intro card_mono) auto
    moreover have "card (fst ` set xs) = length xs"
      using assms(2) l(1) distinct_card [of "map fst xs"] by (simp add: lru_good_def)
    moreover have "0 < card K" using assms(4,6) by (auto simp: card_gt_0_iff)
    ultimately show False using assms(3-6) l(1) y by simp
  qed
  then have "butlast ls = xs @ (k, v) # butlast ys" using l(1) by (simp add: butlast_append)
  with l(2) show ?thesis unfolding near_def by blast
qed

lemma near_step:
  assumes "near k K ls" "lru_good cap ls" "finite K" "card K < cap" "lru_op_key x \<in> insert k K"
  shows "near k K (snd (lru_spec_step cap x ls))"
proof (cases x)
  case (LruPut j w)
  have "map_of ls k \<noteq> None" using assms(1) by (auto simp: near_def map_of_eq_None_iff)
  then have "near k K (if map_of ls j = None \<and> length ls = cap then butlast ls else ls)"
    using near_butlast [OF assms(1,2) _ assms(3,4), of j] assms(1,5) LruPut by auto
  from near_touch [OF this, of j w] show ?thesis using LruPut assms(5) by (simp add: lru_spec_put_def)
next
  case (LruGet j)
  then show ?thesis using near_touch [OF assms(1)] assms(1,5) by (auto simp: lru_spec_get_def split: option.split)
qed

lemma near_run:
  assumes "near k K ls" "lru_good cap ls" "0 < cap" "finite K" "card K < cap" "lru_op_key ` set xs \<subseteq> insert k K"
  shows "near k K (snd (lru_spec_run cap xs ls))"
  using assms
proof (induction xs arbitrary: ls)
  case (Cons x xs)
  then show ?case using near_step [of k K ls cap x] lru_spec_step_good [of cap ls x]
    by (simp add: case_prod_beta Let_def)
qed simp

lemma value_run:
  assumes "lru_good cap ls" "0 < cap" "\<forall>w. LruPut k w \<notin> set xs" "map_of ls k = None \<or> map_of ls k = Some v"
  shows "map_of (snd (lru_spec_run cap xs ls)) k = None \<or> map_of (snd (lru_spec_run cap xs ls)) k = Some v"
  using assms
proof (induction xs arbitrary: ls)
  case (Cons x xs)
  have "\<forall>w. x \<noteq> LruPut k w" "\<forall>w. LruPut k w \<notin> set xs" using Cons.prems(3) by auto
  with Cons.IH [OF lru_spec_step_good [OF Cons.prems(1,2)] Cons.prems(2) _ lru_step_value [OF Cons.prems(1) _ Cons.prems(4)]]
  show ?case by (simp add: case_prod_beta Let_def)
qed simp

lemma near_map_of: "near k K ls \<Longrightarrow> map_of ls k \<noteq> None"
  by (auto simp: near_def map_of_eq_None_iff)

section \<open>The properties\<close>

text \<open>Property C16: with a positive capacity every sequence of \<open>put\<close> and \<open>get\<close> calls returns, and gives
  the answers of a list of at most \<open>capacity\<close> entries ordered by recency, which a \<open>put\<close> into a
  full cache shortens by its least recently used entry.\<close>

theorem lru_refines_recency_list:
  assumes "0 < cap"
  shows "\<exists>s. lru_run xs (lru_ctor cap) = Ret (fst (lru_spec_run cap xs []), s) \<and>
    lru_abs s = snd (lru_spec_run cap xs []) \<and> length (lru_cache s) \<le> cap"
proof -
  have "lru_ok (lru_ctor cap :: ('a, 'b) lru)" "lru_abs (lru_ctor cap :: ('a, 'b) lru) = []"
    by (simp_all add: lru_ok_def lru_ctor_def lru_abs_def)
  with lru_run_refines [of "lru_ctor cap :: ('a, 'b) lru" xs] assms show ?thesis
    by (auto simp: lru_ctor_def lru_ok_def)
qed

lemma lru_refines_recency_list_witness:
  "\<exists>s. lru_run [LruPut 1 10, LruPut 2 20, LruGet 1, LruPut 3 30, LruGet 2, LruGet (1 :: nat)] (lru_ctor 2) =
    Ret ([None, None, Some 10, None, None, Some (10 :: nat)], s)"
  using lru_refines_recency_list [of 2 "[LruPut 1 10, LruPut 2 20, LruGet 1, LruPut 3 30, LruGet 2, LruGet (1 :: nat)]"]
  by (auto simp: lru_spec_put_def lru_spec_get_def lru_touch_def Let_def)

text \<open>An entry stays until \<open>capacity\<close> other keys were used after it: after \<open>put(k, v)\<close> and any
  calls that do not put \<open>k\<close> again, \<open>get(k)\<close> gives \<open>v\<close>, or, only if those calls used at least
  \<open>capacity\<close> keys other than \<open>k\<close>, reports a miss. A stale value is never returned.\<close>

theorem lru_keeps_recent:
  fixes k :: 'k and v :: 'v
  assumes "0 < cap" "lru_run (pre @ LruPut k v # post) (lru_ctor cap) = Ret (rs, s)" "\<forall>w. LruPut k w \<notin> set post"
  shows "fst (lru_get k s) = Some v \<or>
    (fst (lru_get k s) = None \<and> cap \<le> card (lru_op_key ` set post - {k}))"
proof -
  let ?xs = "pre @ LruPut k v # post"
  have "lru_ok (lru_ctor cap :: ('k, 'v) lru)" "lru_abs (lru_ctor cap :: ('k, 'v) lru) = []"
    by (simp_all add: lru_ok_def lru_ctor_def lru_abs_def)
  with lru_run_refines [of "lru_ctor cap :: ('k, 'v) lru" ?xs] assms(1,2)
  have s: "lru_ok s" "lru_abs s = snd (lru_spec_run cap ?xs [])" by (auto simp: lru_ctor_def)
  define l0 where "l0 = snd (lru_spec_run cap pre [] :: 'v option list \<times> ('k \<times> 'v) list)"
  define l1 where "l1 = lru_spec_put cap k v l0"
  have g: "lru_good cap l0" "lru_good cap l1"
    using lru_spec_run_good [of cap "[]" pre] lru_spec_put_good [of cap l0 k v] assms(1)
    by (auto simp: l0_def l1_def lru_good_def)
  have e: "lru_abs s = snd (lru_spec_run cap post l1)"
    unfolding s(2) lru_spec_run_append by (simp add: l0_def l1_def case_prod_beta Let_def)
  have m1: "map_of l1 k = Some v" "near k K l1" for K
  proof -
    show "map_of l1 k = Some v" by (simp add: l1_def lru_spec_put_def lru_touch_map_of)
    have "\<exists>ls. l1 = [] @ (k, v) # ls" by (simp add: l1_def lru_spec_put_def lru_touch_def)
    then show "near k K l1" unfolding near_def by force
  qed
  have "map_of (lru_abs s) k = None \<or> map_of (lru_abs s) k = Some v"
    unfolding e using value_run [OF g(2) assms(1,3)] m1(1) by blast
  moreover have "map_of (lru_abs s) k \<noteq> None" if "card (lru_op_key ` set post - {k}) < cap"
    unfolding e by (rule near_map_of [OF near_run [OF m1(2) g(2) assms(1) _ that]]) auto
  moreover have "fst (lru_get k s) = map_of (lru_abs s) k"
    using lru_get_refines [OF s(1), of k] by (simp add: lru_spec_get_def split: option.splits)
  ultimately show ?thesis by (metis not_le)
qed

lemma lru_keeps_recent_witness:
  "\<exists>s. lru_run ([] @ LruPut (1 :: nat) (10 :: nat) # [LruPut 2 20, LruGet 2]) (lru_ctor 2) = Ret ([None, None, Some 20], s) \<and>
    fst (lru_get 1 s) = Some 10"
proof -
  have "\<exists>s. lru_run ([] @ LruPut (1 :: nat) (10 :: nat) # [LruPut 2 20, LruGet 2]) (lru_ctor 2) = Ret ([None, None, Some 20], s)"
    by (simp add: lru_put_def lru_get_def lru_ctor_def splice_front_def Let_def)
  then obtain s where s: "lru_run ([] @ LruPut (1 :: nat) (10 :: nat) # [LruPut 2 20, LruGet 2]) (lru_ctor 2) = Ret ([None, None, Some 20], s)"
    by blast
  have "0 < (2 :: nat)" "\<forall>w. LruPut (1 :: nat) (w :: nat) \<notin> set [LruPut 2 20, LruGet 2]" by simp_all
  from lru_keeps_recent [OF this(1) s this(2)] s show ?thesis by (intro exI [of _ s]) simp
qed

end
