(* ===== verification/Memo.thy ===== *)
theory Memo
  imports Prelude "HOL-Library.AList"
begin

text \<open>
  cache.h: the hash of a tuple (\<open>tuple_hash_helper\<close>) and the memoising functor of \<open>cached_bind\<close> with the
  \<open>std::bind\<close> object around it. The element hashes (\<open>std::hash\<close>) come as a list of words, the bound function as a HOL function of
  the values of its parameters (which it takes by value); the calls that reach it are recorded.
\<close>

section \<open>The hash of a tuple\<close>

primrec tuple_hash_helper :: "nat \<Rightarrow> u64 list \<Rightarrow> u64" where
  "tuple_hash_helper 0 tu = tu ! 0"
| "tuple_hash_helper (Suc n) tu =
    (let r = tuple_hash_helper n tu
     in r XOR (tu ! Suc n + push_bit 6 r + drop_bit 2 r + 0x9e3779b97f4a7c15))"

section \<open>Calls\<close>

text \<open>
  Arguments are objects. \<open>moved v\<close> is what stays behind in an object with value \<open>v\<close> after a parameter has been
  constructed from it by a move: \<open>v\<close> for a number, an empty string for a \<open>std::string\<close>. \<open>move_args is objs\<close>
  constructs the parameters of the function from the objects with the numbers \<open>is\<close>, from left to right.
\<close>

primrec move_args :: "('v \<Rightarrow> 'v) \<Rightarrow> nat list \<Rightarrow> 'v list \<Rightarrow> 'v list \<times> 'v list" where
  "move_args moved [] objs = ([], objs)"
| "move_args moved (i # is) objs = (let (xs, objs') = move_args moved is (objs[i := moved (objs ! i)]) in (objs ! i # xs, objs'))"

record ('v, 'r) cached_bind_helper =
  cb_map :: "('v list \<times> 'r) list"
  cb_calls :: "'v list list"

text \<open>\<open>operator()\<close>: the key is copied from the arguments; on a miss the function gets the arguments themselves, moved, and
  its result is stored under the key. The objects are returned as the call leaves them.\<close>

definition cached_call ::
  "('v list \<Rightarrow> 'r) \<Rightarrow> ('v \<Rightarrow> 'v) \<Rightarrow> nat list \<Rightarrow> 'v list \<Rightarrow> ('v, 'r) cached_bind_helper \<Rightarrow> 'r \<times> 'v list \<times> ('v, 'r) cached_bind_helper"
where
  "cached_call fn moved args objs s =
    (let tu = map ((!) objs) args in
     case map_of (cb_map s) tu of
       Some r \<Rightarrow> (r, objs, s)
     | None \<Rightarrow> let (xs, objs') = move_args moved args objs; r = fn xs
               in (r, objs', s\<lparr>cb_map := AList.update tu r (cb_map s), cb_calls := cb_calls s @ [xs]\<rparr>))"

text \<open>The \<open>std::bind\<close> object: the helper and the stored arguments. \<open>bo_args\<close> are the arguments of the function: stored
  argument \<open>i\<close> has the number \<open>i\<close>, placeholder \<open>_k\<close> the number of stored arguments plus \<open>k - 1\<close>.\<close>

record ('v, 'r) bind_object =
  bo_helper :: "('v, 'r) cached_bind_helper"
  bo_stored :: "'v list"
  bo_args :: "nat list"

definition cached_bind :: "'v list \<Rightarrow> nat list \<Rightarrow> ('v, 'r) bind_object" where
  "cached_bind stored args = \<lparr>bo_helper = \<lparr>cb_map = [], cb_calls = []\<rparr>, bo_stored = stored, bo_args = args\<rparr>"

text \<open>A call of the \<open>std::bind\<close> object with the caller's objects \<open>xs\<close>: the stored arguments are passed as lvalues, so that a
  call can change them; the result, and what it leaves in the caller's objects.\<close>

definition bind_call :: "('v list \<Rightarrow> 'r) \<Rightarrow> ('v \<Rightarrow> 'v) \<Rightarrow> 'v list \<Rightarrow> ('v, 'r) bind_object \<Rightarrow> 'r \<times> 'v list \<times> ('v, 'r) bind_object" where
  "bind_call fn moved xs b =
    (let n = length (bo_stored b); (r, objs, h) = cached_call fn moved (bo_args b) (bo_stored b @ xs) (bo_helper b)
     in (r, drop n objs, b\<lparr>bo_helper := h, bo_stored := take n objs\<rparr>))"

text \<open>Calls in a row, each with objects of its own.\<close>

primrec bind_run :: "('v list \<Rightarrow> 'r) \<Rightarrow> ('v \<Rightarrow> 'v) \<Rightarrow> 'v list list \<Rightarrow> ('v, 'r) bind_object \<Rightarrow> 'r list \<times> ('v, 'r) bind_object" where
  "bind_run fn moved [] b = ([], b)"
| "bind_run fn moved (xs # xss) b =
    (let (r, _, b1) = bind_call fn moved xs b; (rs, b2) = bind_run fn moved xss b1 in (r # rs, b2))"

section \<open>What a call does\<close>

lemma move_args_distinct:
  "distinct args \<Longrightarrow> \<forall>i\<in>set args. i < length objs \<Longrightarrow> fst (move_args moved args objs) = map ((!) objs) args \<and>
    length (snd (move_args moved args objs)) = length objs \<and>
    (\<forall>j<length objs. snd (move_args moved args objs) ! j = (if j \<in> set args then moved (objs ! j) else objs ! j))"
proof (induction args arbitrary: objs)
  case (Cons i args)
  have "map ((!) (objs[i := moved (objs ! i)])) args = map ((!) objs) args"
    using Cons.prems by (intro map_cong) (auto simp: nth_list_update)
  with Cons.IH [of "objs[i := moved (objs ! i)]"] Cons.prems show ?case
    by (auto simp: case_prod_beta Let_def nth_list_update)
qed simp

definition memo_inv :: "('v list \<Rightarrow> 'r) \<Rightarrow> ('v, 'r) cached_bind_helper \<Rightarrow> bool" where
  "memo_inv fn s \<longleftrightarrow> (\<forall>x. map_of (cb_map s) x = (if x \<in> set (cb_calls s) then Some (fn x) else None)) \<and> distinct (cb_calls s)"

lemma cached_call_spec:
  assumes "memo_inv fn s" "distinct args" "\<forall>i\<in>set args. i < length objs" "cached_call fn moved args objs s = (r, objs', s')"
  shows "r = fn (map ((!) objs) args) \<and> memo_inv fn s' \<and> set (cb_calls s') = insert (map ((!) objs) args) (set (cb_calls s)) \<and>
    length objs' = length objs \<and>
    (\<forall>j<length objs. objs' ! j = (if j \<in> set args \<and> map ((!) objs) args \<notin> set (cb_calls s) then moved (objs ! j) else objs ! j))"
proof (cases "map ((!) objs) args \<in> set (cb_calls s)")
  case True
  then show ?thesis using assms(1,4) by (auto simp: cached_call_def memo_inv_def)
next
  case False
  then show ?thesis using assms(1,4) move_args_distinct [OF assms(2,3), of moved]
    by (auto simp: cached_call_def memo_inv_def update_conv case_prod_beta Let_def)
qed

text \<open>Stored arguments that a move leaves alone.\<close>

definition stored_fixed :: "('v \<Rightarrow> 'v) \<Rightarrow> nat list \<Rightarrow> 'v list \<Rightarrow> bool" where
  "stored_fixed moved args stored \<longleftrightarrow> (\<forall>i\<in>set args. i < length stored \<longrightarrow> moved (stored ! i) = stored ! i)"

definition bind_key :: "'v list \<Rightarrow> nat list \<Rightarrow> 'v list \<Rightarrow> 'v list" where
  "bind_key stored args xs = map ((!) (stored @ xs)) args"

lemma bind_call_spec:
  assumes "memo_inv fn (bo_helper b)" "distinct (bo_args b)" "\<forall>i\<in>set (bo_args b). i < length (bo_stored b) + length xs"
    and "stored_fixed moved (bo_args b) (bo_stored b)" "bind_call fn moved xs b = (r, left, b')"
  shows "r = fn (bind_key (bo_stored b) (bo_args b) xs) \<and> memo_inv fn (bo_helper b') \<and> bo_args b' = bo_args b \<and> bo_stored b' = bo_stored b \<and>
    set (cb_calls (bo_helper b')) = insert (bind_key (bo_stored b) (bo_args b) xs) (set (cb_calls (bo_helper b)))"
proof -
  obtain objs h where c: "cached_call fn moved (bo_args b) (bo_stored b @ xs) (bo_helper b) = (r, objs, h)"
    and b': "b' = b\<lparr>bo_helper := h, bo_stored := take (length (bo_stored b)) objs\<rparr>"
    using assms(5) by (auto simp: bind_call_def Let_def split: prod.splits)
  have "\<forall>i\<in>set (bo_args b). i < length (bo_stored b @ xs)" using assms(3) by simp
  note S = cached_call_spec [OF assms(1,2) this c]
  have "take (length (bo_stored b)) objs = bo_stored b"
    using S assms(4) by (intro nth_equalityI) (auto simp: nth_append stored_fixed_def)
  then show ?thesis using S b' by (simp add: bind_key_def)
qed

lemma bind_run_spec:
  assumes "memo_inv fn (bo_helper b)" "distinct (bo_args b)" "\<forall>xs\<in>set xss. \<forall>i\<in>set (bo_args b). i < length (bo_stored b) + length xs"
    and "stored_fixed moved (bo_args b) (bo_stored b)"
  shows "fst (bind_run fn moved xss b) = map (\<lambda>xs. fn (bind_key (bo_stored b) (bo_args b) xs)) xss \<and>
    memo_inv fn (bo_helper (snd (bind_run fn moved xss b))) \<and>
    set (cb_calls (bo_helper (snd (bind_run fn moved xss b)))) = set (cb_calls (bo_helper b)) \<union> bind_key (bo_stored b) (bo_args b) ` set xss"
  using assms
proof (induction xss arbitrary: b)
  case (Cons xs xss)
  obtain r left b1 where b1: "bind_call fn moved xs b = (r, left, b1)" by (cases "bind_call fn moved xs b")
  have "\<forall>i\<in>set (bo_args b). i < length (bo_stored b) + length xs" using Cons.prems(3) by simp
  note C = bind_call_spec [OF Cons.prems(1,2) this Cons.prems(4) b1]
  then show ?case using Cons.IH [of b1] Cons.prems b1 by (simp add: case_prod_beta Let_def)
qed simp

section \<open>Transparent or not\<close>

text \<open>Property C36: when is \<open>cached_bind\<close> of a pure function invisible? If no argument is used twice and every stored argument has
  a value that a move leaves alone (a number; no condition on the arguments of the calls, when each call has
  objects of its own), then for every sequence of calls each call returns what the function returns, and the function
  is called exactly once for each tuple of arguments that occurs. But if a stored argument does change when it is moved from,
  the second call of \<open>cached_bind(f, x)\<close> already returns \<open>f\<close> of the value left behind.\<close>

theorem cached_bind_transparent:
  fixes fn :: "'v list \<Rightarrow> 'r"
  shows "(\<forall>stored args xss. distinct args \<and> (\<forall>xs\<in>set xss. \<forall>i\<in>set args. i < length stored + length xs) \<and> stored_fixed moved args stored \<longrightarrow>
      fst (bind_run fn moved xss (cached_bind stored args)) = map (\<lambda>xs. fn (bind_key stored args xs)) xss \<and>
      distinct (cb_calls (bo_helper (snd (bind_run fn moved xss (cached_bind stored args))))) \<and>
      set (cb_calls (bo_helper (snd (bind_run fn moved xss (cached_bind stored args))))) = bind_key stored args ` set xss) \<and>
    (\<forall>v. moved v \<noteq> v \<longrightarrow> fst (bind_run fn moved [[], []] (cached_bind [v] [0])) = [fn [v], fn [moved v]])"
proof (intro conjI allI impI)
  fix stored args and xss :: "'v list list"
  assume a: "distinct args \<and> (\<forall>xs\<in>set xss. \<forall>i\<in>set args. i < length stored + length xs) \<and> stored_fixed moved args stored"
  have i: "memo_inv fn (bo_helper (cached_bind stored args))" by (simp add: memo_inv_def cached_bind_def)
  show "fst (bind_run fn moved xss (cached_bind stored args)) = map (\<lambda>xs. fn (bind_key stored args xs)) xss"
    "distinct (cb_calls (bo_helper (snd (bind_run fn moved xss (cached_bind stored args)))))"
    "set (cb_calls (bo_helper (snd (bind_run fn moved xss (cached_bind stored args))))) = bind_key stored args ` set xss"
    using bind_run_spec [OF i, of xss moved] a by (simp_all add: memo_inv_def cached_bind_def)
qed (simp add: cached_bind_def bind_call_def cached_call_def Let_def)

text \<open>\<open>cached_bind(length_of, std::string("abc"))\<close>, called twice, and \<open>cached_bind(length_of, _1)\<close>.\<close>

lemma cached_bind_transparent_witness:
  "fst (bind_run (\<lambda>xs. length (hd xs)) (\<lambda>_. '''') [[], []] (cached_bind [''abc''] [0])) = [3, 0] \<and>
   fst (bind_run (\<lambda>xs. length (hd xs)) (\<lambda>_. '''') [[''abc''], [''abc''], [''x'']] (cached_bind [] [0])) = [3, 3, 1]"
proof -
  note T = cached_bind_transparent [where fn = "\<lambda>xs :: string list. length (hd xs)" and moved = "\<lambda>_. ''''"]
  have "fst (bind_run (\<lambda>xs. length (hd xs)) (\<lambda>_. '''') [[], []] (cached_bind [''abc''] [0])) = [3, 0]"
    using conjunct2 [OF T, rule_format, of "''abc''"] by simp
  moreover have "fst (bind_run (\<lambda>xs. length (hd xs)) (\<lambda>_. '''') [[''abc''], [''abc''], [''x'']] (cached_bind [] [0])) = [3, 3, 1]"
    using conjunct1 [OF T, rule_format, of "[0]" "[[''abc''], [''abc''], [''x'']]" "[]"] by (simp add: stored_fixed_def bind_key_def)
  ultimately show ?thesis ..
qed

text \<open>The caller's objects: a call that misses moves from them, so that an lvalue of the caller is left with \<open>moved v\<close> although the
  function takes its parameter by value; a call that hits leaves them alone.\<close>

lemma bind_call_moves_caller:
  "fst (snd (bind_call fn moved [v] (cached_bind [] [0]))) = [moved v]"
  "fst (snd (bind_call fn moved [v] (snd (snd (bind_call fn moved [v] (cached_bind [] [0])))))) = [v]"
  by (simp_all add: cached_bind_def bind_call_def cached_call_def Let_def)

section \<open>Collisions\<close>

text \<open>The tuple hash does not lose the last element: two tuples that agree in the hashes of all
  elements but the last collide only if the last element hashes collide.\<close>

theorem tuple_hash_last:
  assumes "length xs = Suc n" "tuple_hash_helper (Suc n) (xs @ [a]) = tuple_hash_helper (Suc n) (xs @ [b])"
  shows "a = b"
proof -
  have "tuple_hash_helper k (xs @ ys) = tuple_hash_helper k xs" if "k \<le> n" for k ys
    using that assms(1) by (induction k) (simp_all add: nth_append Let_def)
  from this [of n "[a]"] this [of n "[b]"] have "tuple_hash_helper n (xs @ [a]) = tuple_hash_helper n (xs @ [b])" by simp
  moreover define r where "r = tuple_hash_helper n (xs @ [b])"
  ultimately have "r XOR (a + push_bit 6 r + drop_bit 2 r + 0x9e3779b97f4a7c15) =
      r XOR (b + push_bit 6 r + drop_bit 2 r + 0x9e3779b97f4a7c15)"
    using assms by (simp add: nth_append Let_def)
  then have "r XOR (r XOR (a + push_bit 6 r + drop_bit 2 r + 0x9e3779b97f4a7c15)) =
      r XOR (r XOR (b + push_bit 6 r + drop_bit 2 r + 0x9e3779b97f4a7c15))"
    by (rule arg_cong)
  then have "a + push_bit 6 r + drop_bit 2 r + 0x9e3779b97f4a7c15 = b + push_bit 6 r + drop_bit 2 r + 0x9e3779b97f4a7c15"
    by (simp only: bit.xor_left_self)
  then show ?thesis by simp
qed

lemma tuple_hash_last_witness: "tuple_hash_helper 1 [7, 1] \<noteq> tuple_hash_helper 1 [7, 2]"
proof
  have "length [7 :: u64] = Suc 0" by simp
  moreover assume "tuple_hash_helper 1 [7, 1] = tuple_hash_helper 1 [7, 2]"
  then have "tuple_hash_helper (Suc 0) ([7] @ [1]) = tuple_hash_helper (Suc 0) ([7] @ [2])" by simp
  ultimately have "(1 :: u64) = 2" by (rule tuple_hash_last)
  then show False by simp
qed

end
