(* ===== verification/Pl_Allocator.thy ===== *)
theory Pl_Allocator
  imports Prelude
begin

text \<open>
  pl_allocator.h: an allocator that keeps freed single objects in a pool of the freeing thread.
  The allocator below it is a parameter: \<open>balloc\<close> and \<open>bdealloc\<close> act on a state of its own, and
  \<open>blive\<close> is the set of (address, count) pairs it has handed out and not got back.
\<close>

record 'b pl_state =
  pl_base :: 'b
  pl_pool :: "nat \<Rightarrow> nat list"

definition pl_allocate :: "(nat \<Rightarrow> 'b \<Rightarrow> nat \<times> 'b) \<Rightarrow> nat \<Rightarrow> nat \<Rightarrow> 'b pl_state \<Rightarrow> nat \<times> 'b pl_state" where
  "pl_allocate balloc t n s =
    (if n > 1 \<or> pl_pool s t = []
     then let (p, b) = balloc n (pl_base s) in (p, s\<lparr>pl_base := b\<rparr>)
     else (last (pl_pool s t), s\<lparr>pl_pool := (pl_pool s)(t := butlast (pl_pool s t))\<rparr>))"

definition pl_deallocate :: "(nat \<Rightarrow> nat \<Rightarrow> 'b \<Rightarrow> 'b) \<Rightarrow> nat \<Rightarrow> nat \<Rightarrow> nat \<Rightarrow> 'b pl_state \<Rightarrow> 'b pl_state" where
  "pl_deallocate bdealloc t p n s =
    (if n > 1 then s\<lparr>pl_base := bdealloc p n (pl_base s)\<rparr>
     else s\<lparr>pl_pool := (pl_pool s)(t := pl_pool s t @ [p])\<rparr>)"

text \<open>\<open>~pl_thread_data\<close>, when the thread ends.\<close>

definition pl_thread_exit :: "(nat \<Rightarrow> nat \<Rightarrow> 'b \<Rightarrow> 'b) \<Rightarrow> nat \<Rightarrow> 'b pl_state \<Rightarrow> 'b pl_state" where
  "pl_thread_exit bdealloc t s =
    s\<lparr>pl_base := fold (\<lambda>p b. bdealloc p 1 b) (pl_pool s t) (pl_base s), pl_pool := (pl_pool s)(t := [])\<rparr>"

text \<open>What is relied on of the base allocator: a new address is not live, and no other block is touched.\<close>

definition base_law :: "(nat \<Rightarrow> 'b \<Rightarrow> nat \<times> 'b) \<Rightarrow> (nat \<Rightarrow> nat \<Rightarrow> 'b \<Rightarrow> 'b) \<Rightarrow> ('b \<Rightarrow> (nat \<times> nat) set) \<Rightarrow> bool" where
  "base_law balloc bdealloc blive \<longleftrightarrow>
    (\<forall>n b. fst (balloc n b) \<notin> fst ` blive b \<and> blive (snd (balloc n b)) = insert (fst (balloc n b), n) (blive b)) \<and>
    (\<forall>p n b. (p, n) \<in> blive b \<longrightarrow> blive (bdealloc p n b) = blive b - {(p, n)})"

section \<open>Clients\<close>

text \<open>\<open>held\<close>: the blocks (address, count) the clients own. They free what they own, with its count,
  from any thread.\<close>

datatype pl_op = PlAlloc nat nat | PlFree nat "nat \<times> nat" | PlExit nat

fun pl_step ::
  "(nat \<Rightarrow> 'b \<Rightarrow> nat \<times> 'b) \<Rightarrow> (nat \<Rightarrow> nat \<Rightarrow> 'b \<Rightarrow> 'b) \<Rightarrow> pl_op \<Rightarrow> 'b pl_state \<times> (nat \<times> nat) list \<Rightarrow>
    ('b pl_state \<times> (nat \<times> nat) list) option"
where
  "pl_step al de (PlAlloc t n) (s, held) =
    (if n = 0 then None else let (p, s') = pl_allocate al t n s in Some (s', (p, n) # held))"
| "pl_step al de (PlFree t b) (s, held) =
    (if b \<in> set held then Some (pl_deallocate de t (fst b) (snd b) s, remove1 b held) else None)"
| "pl_step al de (PlExit t) (s, held) = Some (pl_thread_exit de t s, held)"

fun pl_run ::
  "(nat \<Rightarrow> 'b \<Rightarrow> nat \<times> 'b) \<Rightarrow> (nat \<Rightarrow> nat \<Rightarrow> 'b \<Rightarrow> 'b) \<Rightarrow> pl_op list \<Rightarrow> 'b pl_state \<times> (nat \<times> nat) list \<Rightarrow>
    ('b pl_state \<times> (nat \<times> nat) list) option"
where
  "pl_run al de [] c = Some c"
| "pl_run al de (x # xs) c = (case pl_step al de x c of None \<Rightarrow> None | Some c' \<Rightarrow> pl_run al de xs c')"

definition pooled :: "(nat \<Rightarrow> nat list) \<Rightarrow> nat set" where
  "pooled pl = (\<Union>t. set (pl t))"

definition pools_ok :: "(nat \<Rightarrow> nat list) \<Rightarrow> bool" where
  "pools_ok pl \<longleftrightarrow> (\<forall>t. distinct (pl t)) \<and> (\<forall>t u. t \<noteq> u \<longrightarrow> set (pl t) \<inter> set (pl u) = {})"

definition pl_inv :: "('b \<Rightarrow> (nat \<times> nat) set) \<Rightarrow> 'b pl_state \<times> (nat \<times> nat) list \<Rightarrow> bool" where
  "pl_inv blive c \<longleftrightarrow>
    blive (pl_base (fst c)) = set (snd c) \<union> (\<lambda>p. (p, 1)) ` pooled (pl_pool (fst c)) \<and>
    distinct (map fst (snd c)) \<and> pools_ok (pl_pool (fst c)) \<and>
    pooled (pl_pool (fst c)) \<inter> fst ` set (snd c) = {} \<and> (\<forall>b\<in>set (snd c). snd b \<noteq> 0)"

lemma pooled_upd:
  assumes "pools_ok pl"
  shows "pooled (pl(t := ps)) = set ps \<union> (pooled pl - set (pl t))"
  using assms unfolding pooled_def pools_ok_def by (auto split: if_splits) blast+

lemma pools_ok_upd:
  assumes "pools_ok pl" "distinct ps" "set ps \<inter> (pooled pl - set (pl t)) = {}"
  shows "pools_ok (pl(t := ps))"
proof -
  have "set ps \<inter> set (pl u) = {}" if "u \<noteq> t" for u
    using assms(1,3) that unfolding pooled_def pools_ok_def by blast
  then show ?thesis using assms(1,2) unfolding pools_ok_def by (auto split: if_splits)
qed

lemma base_law_alloc:
  "base_law al de blive \<Longrightarrow> al n b = (p, b') \<Longrightarrow> p \<notin> fst ` blive b \<and> blive b' = insert (p, n) (blive b)"
  unfolding base_law_def by (metis fst_conv snd_conv)

lemma base_law_free: "base_law al de blive \<Longrightarrow> (p, n) \<in> blive b \<Longrightarrow> blive (de p n b) = blive b - {(p, n)}"
  unfolding base_law_def by blast

lemma base_law_free_all:
  assumes "base_law al de blive" "distinct ps" "\<forall>p\<in>set ps. (p, 1) \<in> blive b"
  shows "blive (fold (\<lambda>p b. de p 1 b) ps b) = blive b - (\<lambda>p. (p, 1)) ` set ps"
  using assms(2,3)
proof (induction ps arbitrary: b)
  case (Cons p ps)
  then have "blive (de p 1 b) = blive b - {(p, 1)}" using base_law_free [OF assms(1)] by simp
  moreover from this Cons.prems have "\<forall>q\<in>set ps. (q, 1) \<in> blive (de p 1 b)" by auto
  ultimately show ?case using Cons by auto
qed simp

lemma pl_inv_alloc:
  assumes "base_law al de blive" "pl_inv blive (s, held)" "n \<noteq> 0"
  shows "pl_inv blive (snd (pl_allocate al t n s), (fst (pl_allocate al t n s), n) # held)"
proof (cases "n > 1 \<or> pl_pool s t = []")
  case True
  obtain p b where a: "al n (pl_base s) = (p, b)" by fastforce
  note l = base_law_alloc [OF assms(1) a]
  have "fst ` blive (pl_base s) = fst ` set held \<union> pooled (pl_pool s)"
    using assms(2) by (simp add: pl_inv_def image_Un image_image)
  then have "p \<notin> fst ` set held" "p \<notin> pooled (pl_pool s)" using l by auto
  with l True a assms(2,3) show ?thesis by (simp add: pl_inv_def pl_allocate_def)
next
  case False
  let ?ps = "pl_pool s t" and ?p = "last (pl_pool s t)"
  have ps: "?ps = butlast ?ps @ [?p]" and n: "n = 1" using False assms(3) by auto
  have ok: "pools_ok (pl_pool s)" using assms(2) by (simp add: pl_inv_def)
  then have "distinct (butlast ?ps @ [?p])" using ps by (simp add: pools_ok_def)
  then have d: "distinct (butlast ?ps)" "?p \<notin> set (butlast ?ps)" by simp_all
  have sp: "set ?ps = insert ?p (set (butlast ?ps))" by (subst ps) simp
  have pin: "?p \<in> pooled (pl_pool s)" "set ?ps \<subseteq> pooled (pl_pool s)" using sp by (auto simp: pooled_def)
  have ok': "pools_ok ((pl_pool s)(t := butlast ?ps))" using ok d(1) sp by (intro pools_ok_upd) auto
  have pd: "pooled ((pl_pool s)(t := butlast ?ps)) = pooled (pl_pool s) - {?p}"
    unfolding pooled_upd [OF ok] using sp d(2) pin(2) by auto
  have "?p \<notin> fst ` set held" using assms(2) pin(1) by (auto simp: pl_inv_def)
  moreover have "set held \<union> (\<lambda>p. (p, 1 :: nat)) ` pooled (pl_pool s) =
      insert (?p, 1) (set held) \<union> (\<lambda>p. (p, 1)) ` (pooled (pl_pool s) - {?p})"
    using pin(1) by auto
  ultimately show ?thesis
    using False assms(2) n ok' by (simp add: pl_inv_def pl_allocate_def pd) blast
qed

lemma pl_inv_free:
  assumes "base_law al de blive" "pl_inv blive (s, held)" "(p, n) \<in> set held"
  shows "pl_inv blive (pl_deallocate de t p n s, remove1 (p, n) held)"
proof -
  have dh: "distinct (map fst held)" "distinct held" using assms(2) by (auto simp: pl_inv_def distinct_map)
  have sr: "set (remove1 (p, n) held) = set held - {(p, n)}" using dh(2) by simp
  have pn: "p \<notin> fst ` set (remove1 (p, n) held)"
  proof
    assume "p \<in> fst ` set (remove1 (p, n) held)"
    then obtain m where "(p, m) \<in> set held" "m \<noteq> n" unfolding sr by force
    with dh(1) assms(3) show False by (metis distinct_map fst_conv inj_onD snd_conv)
  qed
  have dr: "distinct (map fst (remove1 (p, n) held))" using dh by (auto simp: distinct_map sr inj_on_def)
  have lv: "(p, n) \<in> blive (pl_base s)" and pp: "p \<notin> pooled (pl_pool s)"
  proof -
    have i: "blive (pl_base s) = set held \<union> (\<lambda>p. (p, 1)) ` pooled (pl_pool s)" "pooled (pl_pool s) \<inter> fst ` set held = {}"
      using assms(2) by (simp_all add: pl_inv_def)
    then show "(p, n) \<in> blive (pl_base s)" using assms(3) by blast
    have "p \<in> fst ` set held" using assms(3) by force
    with i(2) show "p \<notin> pooled (pl_pool s)" by blast
  qed
  show ?thesis
  proof (cases "n > 1")
    case True
    with lv base_law_free [OF assms(1) lv] assms(2) sr pn dr show ?thesis
      by (auto simp: pl_inv_def pl_deallocate_def)
  next
    case False
    then have n: "n = 1" using assms(2,3) by (auto simp: pl_inv_def)
    have ok: "pools_ok (pl_pool s)" using assms(2) by (simp add: pl_inv_def)
    have st: "set (pl_pool s t) \<subseteq> pooled (pl_pool s)" by (auto simp: pooled_def)
    have "pools_ok ((pl_pool s)(t := pl_pool s t @ [p]))"
      using ok pp st by (intro pools_ok_upd) (auto simp: pools_ok_def)
    moreover have pd: "pooled ((pl_pool s)(t := pl_pool s t @ [p])) = insert p (pooled (pl_pool s))"
      unfolding pooled_upd [OF ok] using st by auto
    moreover have "set held \<union> (\<lambda>p. (p, 1 :: nat)) ` pooled (pl_pool s) =
        (set held - {(p, 1)}) \<union> (\<lambda>p. (p, 1)) ` insert p (pooled (pl_pool s))"
      using assms(3) n by auto
    ultimately show ?thesis
      using n assms(2) sr pn dr by (auto simp: pl_inv_def pl_deallocate_def)
  qed
qed

lemma pl_inv_exit:
  assumes "base_law al de blive" "pl_inv blive (s, held)"
  shows "pl_inv blive (pl_thread_exit de t s, held)"
proof -
  let ?ps = "pl_pool s t"
  have ok: "pools_ok (pl_pool s)" using assms(2) by (simp add: pl_inv_def)
  have st: "set ?ps \<subseteq> pooled (pl_pool s)" by (auto simp: pooled_def)
  have "\<forall>p\<in>set ?ps. (p, 1) \<in> blive (pl_base s)" using assms(2) st by (auto simp: pl_inv_def)
  moreover have "distinct ?ps" using ok by (simp add: pools_ok_def)
  ultimately have b: "blive (fold (\<lambda>p b. de p 1 b) ?ps (pl_base s)) = blive (pl_base s) - (\<lambda>p. (p, 1)) ` set ?ps"
    by (intro base_law_free_all [OF assms(1)])
  have "pools_ok ((pl_pool s)(t := []))" using ok by (intro pools_ok_upd) auto
  moreover have "pooled ((pl_pool s)(t := [])) = pooled (pl_pool s) - set ?ps" using pooled_upd [OF ok, of t "[]"] by simp
  moreover have "(p, 1) \<notin> set held" if "p \<in> set ?ps" for p
    using assms(2) st that by (auto simp: pl_inv_def) (metis disjoint_iff fst_conv image_eqI subsetD)
  then have "(set held \<union> (\<lambda>p. (p, 1 :: nat)) ` pooled (pl_pool s)) - (\<lambda>p. (p, 1)) ` set ?ps =
      set held \<union> (\<lambda>p. (p, 1)) ` (pooled (pl_pool s) - set ?ps)"
    by auto
  ultimately show ?thesis using assms(2) b by (auto simp: pl_inv_def pl_thread_exit_def)
qed

lemma pl_step_inv:
  assumes "base_law al de blive" "pl_inv blive c" "pl_step al de x c = Some c'"
  shows "pl_inv blive c'"
proof (cases x)
  case (PlAlloc t n)
  then show ?thesis using pl_inv_alloc [OF assms(1), of "fst c" "snd c" n t] assms(2,3)
    by (cases c) (auto simp: case_prod_beta Let_def split: if_splits)
next
  case (PlFree t b)
  then show ?thesis using pl_inv_free [OF assms(1), of "fst c" "snd c" "fst b" "snd b" t] assms(2,3)
    by (cases c) (auto split: if_splits)
next
  case (PlExit t)
  then show ?thesis using pl_inv_exit [OF assms(1), of "fst c" "snd c" t] assms(2,3) by (cases c) auto
qed

lemma pl_run_inv:
  "base_law al de blive \<Longrightarrow> pl_inv blive c \<Longrightarrow> pl_run al de xs c = Some c' \<Longrightarrow> pl_inv blive c'"
  by (induction xs arbitrary: c) (auto dest: pl_step_inv split: option.splits)

text \<open>Property C37: over any base allocator that hands out only addresses that are not live, and for any
  sequence of allocations of at least one element, deallocations (from any thread) and thread
  ends, no two owned blocks share an address, no pooled object is owned, and the live blocks of the
  base allocator are exactly the owned blocks and the pooled single objects: nothing is freed
  twice, and what a thread pools is given back when it ends.\<close>

theorem pl_allocator_conserves:
  assumes "base_law al de blive" "blive b0 = {}"
    and "pl_run al de xs (\<lparr>pl_base = b0, pl_pool = \<lambda>_. []\<rparr>, []) = Some (s, held)"
  shows "distinct (map fst held) \<and> pooled (pl_pool s) \<inter> fst ` set held = {} \<and>
    blive (pl_base s) = set held \<union> (\<lambda>p. (p, 1)) ` pooled (pl_pool s)"
proof -
  have "pl_inv blive (\<lparr>pl_base = b0, pl_pool = \<lambda>_. []\<rparr>, [])"
    using assms(2) by (simp add: pl_inv_def pooled_def pools_ok_def)
  from pl_run_inv [OF assms(1) this assms(3)] show ?thesis by (simp add: pl_inv_def)
qed

lemma pl_allocator_conserves_witness:
  "\<exists>s. pl_run (\<lambda>n l. (Suc (sum_list (map fst l)), (Suc (sum_list (map fst l)), n) # l))
      (\<lambda>p n. filter (\<lambda>x. x \<noteq> (p, n))) [PlAlloc 0 1, PlAlloc 0 2, PlFree 1 (1, 1), PlAlloc 1 1, PlExit 1]
      (\<lparr>pl_base = [], pl_pool = \<lambda>_. []\<rparr>, []) = Some (s, [(1, 1), (2, 2)]) \<and>
    set (pl_base s) = {(1, 1), (2, 2)} \<union> (\<lambda>p. (p, 1)) ` pooled (pl_pool s)"
proof -
  let ?al = "\<lambda>n l. (Suc (sum_list (map fst l)), (Suc (sum_list (map fst l)), n) # l) :: nat \<times> (nat \<times> nat) list"
  let ?de = "\<lambda>p n. filter (\<lambda>x. x \<noteq> (p, n)) :: (nat \<times> nat) list \<Rightarrow> (nat \<times> nat) list"
  have le: "x \<le> sum_list (map fst l)" if "(x, n) \<in> set l" for x n and l :: "(nat \<times> nat) list"
    using that by (intro member_le_sum_list) force+
  have "(Suc (sum_list (map fst l)), n) \<notin> set l" for n and l :: "(nat \<times> nat) list"
    using le [of "Suc (sum_list (map fst l))" n l] by auto
  then have law: "base_law ?al ?de set" unfolding base_law_def by auto
  have run: "pl_run ?al ?de [PlAlloc 0 1, PlAlloc 0 2, PlFree 1 (1, 1), PlAlloc 1 1, PlExit 1]
      (\<lparr>pl_base = [], pl_pool = \<lambda>_. []\<rparr>, []) =
      Some (\<lparr>pl_base = [(2, 2), (1, 1)], pl_pool = (\<lambda>_. [])(1 := [])\<rparr>, [(1, 1), (2, 2)])"
    by (simp add: pl_allocate_def pl_deallocate_def pl_thread_exit_def)
  have "set ([] :: (nat \<times> nat) list) = {}" by simp
  from pl_allocator_conserves [OF law this run] run show ?thesis by auto
qed

text \<open>\<open>allocate(0)\<close> and \<open>deallocate(p, 0)\<close> break this: the empty block goes into the pool as if
  it held one object, and the next \<open>allocate(1)\<close> of the thread returns it.\<close>

theorem pl_zero_size_pooled:
  assumes "pl_pool s t = []" "al 0 (pl_base s) = (p, b)"
  shows "fst (pl_allocate al t 1 (pl_deallocate de t p 0 (snd (pl_allocate al t 0 s)))) = p"
  using assms by (simp add: pl_allocate_def pl_deallocate_def)

lemma pl_zero_size_pooled_witness:
  "fst (pl_allocate (\<lambda>n b. (b, b + n)) 0 1 (pl_deallocate (\<lambda>p n b. b) 0 64 0
     (snd (pl_allocate (\<lambda>n b. (b, b + n)) 0 0 \<lparr>pl_base = 64, pl_pool = \<lambda>_. []\<rparr>)))) = 64"
  by (rule pl_zero_size_pooled [of "\<lparr>pl_base = 64, pl_pool = \<lambda>_. []\<rparr>" 0 "\<lambda>n b. (b, b + n)" 64 64]) simp_all

end
