(* ===== verification/Thread_Pool.thy ===== *)
theory Thread_Pool
  imports Transition
begin

text \<open>
  thread_pool.h: the workers with their task queues, \<open>add_threads\<close>, the choice of a worker in
  \<open>execute\<close>, and the worker loop as a step relation, with the condition variable: a waiting worker goes on only
  when it is notified, or wakes up spuriously. A task is a value; running it is one step.
  \<open>wk_submitted\<close> and \<open>wk_executed\<close> record what was queued to a worker and what it ran.
\<close>

text \<open>\<open>WkLock\<close>: before the lock at the top of the loop; \<open>WkWait\<close>: blocked in \<open>cv.wait\<close>; \<open>WkWoken\<close>: in \<open>cv.wait\<close>, no longer
  blocked, before the lock is taken and the predicate tested; \<open>WkDone\<close>: returned.\<close>

datatype 'a worker_pc = WkLock | WkWait | WkWoken | WkRun 'a | WkDone

text \<open>\<open>wk_notify\<close>: the callers (of \<open>execute_forward\<close> and of the destructor) that have left the critical section and not yet called
  \<open>notify_one\<close>.\<close>

record 'a worker =
  wk_stop :: bool
  wk_tasks :: "'a list"
  wk_pc :: "'a worker_pc"
  wk_notify :: nat
  wk_submitted :: "'a list"
  wk_executed :: "'a list"

record 'a thread_pool =
  tp_workers :: "'a worker list"
  tp_busy :: u64

definition max_thread_count :: nat where
  "max_thread_count = 64"

definition new_worker :: "'a worker" where
  "new_worker = \<lparr>wk_stop = False, wk_tasks = [], wk_pc = WkLock, wk_notify = 0, wk_submitted = [], wk_executed = []\<rparr>"

text \<open>The argument is a \<open>uint8_t\<close>.\<close>

definition add_threads :: "nat \<Rightarrow> 'a thread_pool \<Rightarrow> 'a thread_pool" where
  "add_threads threads s =
    s\<lparr>tp_workers := tp_workers s @ replicate (min (threads mod 256) (max_thread_count - length (tp_workers s))) new_worker\<rparr>"

definition pool_ctor :: "nat \<Rightarrow> 'a thread_pool" where
  "pool_ctor threads = add_threads threads \<lparr>tp_workers = [], tp_busy = 0\<rparr>"

text \<open>\<open>execute_forward\<close> up to the end of its critical section, with its \<open>tid %= count()\<close>, undefined in an empty pool, and
  its exception; \<open>notify_one\<close> is a step of its own.\<close>

definition execute_forward :: "nat \<Rightarrow> 'a \<Rightarrow> 'a thread_pool \<Rightarrow> 'a thread_pool run" where
  "execute_forward tid task s =
    (if tp_workers s = [] then UB
     else let i = tid mod length (tp_workers s); w = tp_workers s ! i
          in if wk_stop w then Throw ''enqueue on stopped ThreadPool''
             else Ret (s\<lparr>tp_workers := (tp_workers s)[i := w\<lparr>wk_tasks := wk_tasks w @ [task], wk_notify := Suc (wk_notify w),
                                                          wk_submitted := wk_submitted w @ [task]\<rparr>]\<rparr>))"

text \<open>\<open>ffsll\<close>: the number, from 1, of the lowest set bit, 0 if there is none.\<close>

definition ffsll :: "u64 \<Rightarrow> nat" where
  "ffsll x = (case List.find (bit x) [0..<64] of None \<Rightarrow> 0 | Some i \<Rightarrow> Suc i)"

definition execute_pick :: "u64 \<Rightarrow> nat \<Rightarrow> nat \<Rightarrow> nat" where
  "execute_pick busy rng n =
    (let tid = ffsll (NOT busy) in if tid = 0 \<or> tid > n then rng mod n else tid - 1)"

definition execute :: "nat \<Rightarrow> 'a \<Rightarrow> 'a thread_pool \<Rightarrow> 'a thread_pool run" where
  "execute rng task s =
    (if tp_workers s = [] then UB else execute_forward (execute_pick (tp_busy s) rng (length (tp_workers s))) task s)"

section \<open>Steps\<close>

text \<open>A step of the thread of one worker, for its part of the state and the busy bits. A critical section is one step: it
  ends where the lock is given up, in \<open>cv.wait\<close> or at the end of the block.\<close>

inductive worker_step :: "nat \<Rightarrow> 'a worker \<times> u64 \<Rightarrow> 'a worker \<times> u64 \<Rightarrow> bool" for i where
  wk_idle: "wk_pc w = WkLock \<Longrightarrow> wk_tasks w = [] \<Longrightarrow>
    worker_step i (w, b) (w\<lparr>wk_pc := if wk_stop w then WkDone else WkWait\<rparr>, b AND NOT (push_bit i 1))"
| wk_again: "wk_pc w = WkWoken \<Longrightarrow> wk_tasks w = [] \<Longrightarrow>
    worker_step i (w, b) (w\<lparr>wk_pc := if wk_stop w then WkDone else WkWait\<rparr>, b)"
| wk_wake: "wk_pc w = WkWoken \<Longrightarrow> wk_tasks w = x # xs \<Longrightarrow>
    worker_step i (w, b) (w\<lparr>wk_pc := WkRun x, wk_tasks := xs\<rparr>, b OR push_bit i 1)"
| wk_take: "wk_pc w = WkLock \<Longrightarrow> wk_tasks w = x # xs \<Longrightarrow>
    worker_step i (w, b) (w\<lparr>wk_pc := WkRun x, wk_tasks := xs\<rparr>, b)"
| wk_run: "wk_pc w = WkRun x \<Longrightarrow>
    worker_step i (w, b) (w\<lparr>wk_pc := WkLock, wk_executed := wk_executed w @ [x]\<rparr>, b)"

text \<open>\<open>notify_one\<close> on a condition variable with one possible waiter: it has no effect when the worker is not blocked.\<close>

definition notify_one :: "'a worker \<Rightarrow> 'a worker" where
  "notify_one w = w\<lparr>wk_notify := wk_notify w - 1, wk_pc := if wk_pc w = WkWait then WkWoken else wk_pc w\<rparr>"

text \<open>What goes on without new calls: the worker threads, and the notifications that callers still owe.\<close>

inductive pool_work :: "nat \<Rightarrow> 'a thread_pool \<Rightarrow> 'a thread_pool \<Rightarrow> bool" for i where
  tp_worker: "i < length (tp_workers s) \<Longrightarrow> worker_step i (tp_workers s ! i, tp_busy s) (w, b) \<Longrightarrow>
    pool_work i s (s\<lparr>tp_workers := (tp_workers s)[i := w], tp_busy := b\<rparr>)"
| tp_notify: "i < length (tp_workers s) \<Longrightarrow> 0 < wk_notify (tp_workers s ! i) \<Longrightarrow>
    pool_work i s (s\<lparr>tp_workers := (tp_workers s)[i := notify_one (tp_workers s ! i)]\<rparr>)"

text \<open>All steps: those, calls of \<open>execute_forward\<close> and \<open>add_threads\<close>, the destructor of a worker up to its \<open>notify_one\<close>, and
  spurious wake-ups.\<close>

inductive pool_step :: "'a thread_pool \<Rightarrow> 'a thread_pool \<Rightarrow> bool" where
  tp_work: "pool_work i s s' \<Longrightarrow> pool_step s s'"
| tp_submit: "execute_forward tid task s = Ret s' \<Longrightarrow> pool_step s s'"
| tp_add: "pool_step s (add_threads threads s)"
| tp_stop: "i < length (tp_workers s) \<Longrightarrow> w = tp_workers s ! i \<Longrightarrow>
    pool_step s (s\<lparr>tp_workers := (tp_workers s)[i := w\<lparr>wk_stop := True, wk_notify := Suc (wk_notify w)\<rparr>]\<rparr>)"
| tp_spurious: "i < length (tp_workers s) \<Longrightarrow> w = tp_workers s ! i \<Longrightarrow> wk_pc w = WkWait \<Longrightarrow>
    pool_step s (s\<lparr>tp_workers := (tp_workers s)[i := w\<lparr>wk_pc := WkWoken\<rparr>]\<rparr>)"

section \<open>The invariant\<close>

definition worker_ok :: "'a worker \<Rightarrow> bool" where
  "worker_ok w \<longleftrightarrow>
    wk_submitted w = wk_executed w @ (case wk_pc w of WkRun x \<Rightarrow> [x] | _ \<Rightarrow> []) @ wk_tasks w \<and>
    (wk_pc w = WkDone \<longrightarrow> wk_stop w \<and> wk_tasks w = []) \<and>
    (wk_pc w = WkWait \<longrightarrow> wk_stop w \<or> wk_tasks w \<noteq> [] \<longrightarrow> 0 < wk_notify w)"

definition waiting :: "'a worker_pc \<Rightarrow> bool" where
  "waiting p \<longleftrightarrow> p = WkWait \<or> p = WkWoken"

definition pool_inv :: "'a thread_pool \<Rightarrow> bool" where
  "pool_inv s \<longleftrightarrow> length (tp_workers s) \<le> 64 \<and> (\<forall>w\<in>set (tp_workers s). worker_ok w) \<and>
    (\<forall>i<length (tp_workers s). waiting (wk_pc (tp_workers s ! i)) \<longrightarrow> \<not> bit (tp_busy s) i)"

lemma worker_ok_new: "worker_ok new_worker"
  by (simp add: worker_ok_def new_worker_def)

lemma pool_inv_worker: "pool_inv s \<Longrightarrow> i < length (tp_workers s) \<Longrightarrow> worker_ok (tp_workers s ! i)"
  by (simp add: pool_inv_def)

lemma pool_inv_upd:
  assumes "pool_inv s" "i < length (tp_workers s)" "worker_ok w" "waiting (wk_pc w) \<longrightarrow> \<not> bit b i"
    and "\<And>j. j < 64 \<Longrightarrow> j \<noteq> i \<Longrightarrow> bit b j \<longleftrightarrow> bit (tp_busy s) j"
  shows "pool_inv (s\<lparr>tp_workers := (tp_workers s)[i := w], tp_busy := b\<rparr>)"
proof -
  have "\<forall>v\<in>set ((tp_workers s)[i := w]). worker_ok v"
    using assms(1,3) by (auto simp: pool_inv_def dest: set_update_subset_insert [THEN subsetD])
  moreover have "\<not> bit b j" if "j < length (tp_workers s)" "waiting (wk_pc ((tp_workers s)[i := w] ! j))" for j
    using assms that by (cases "j = i") (auto simp: pool_inv_def)
  ultimately show ?thesis using assms(1) by (simp add: pool_inv_def)
qed

lemma pool_inv_upd_same:
  assumes "pool_inv s" "i < length (tp_workers s)" "worker_ok w" "waiting (wk_pc w) \<longrightarrow> waiting (wk_pc (tp_workers s ! i))"
  shows "pool_inv (s\<lparr>tp_workers := (tp_workers s)[i := w]\<rparr>)"
proof -
  have "waiting (wk_pc w) \<longrightarrow> \<not> bit (tp_busy s) i" using assms by (auto simp: pool_inv_def)
  from pool_inv_upd [OF assms(1-3) this] show ?thesis by simp
qed

lemma pool_inv_add: "pool_inv s \<Longrightarrow> pool_inv (add_threads n s)"
proof -
  assume a: "pool_inv s"
  have "\<not> waiting (wk_pc ((tp_workers s @ replicate k new_worker) ! i))"
    if "\<not> i < length (tp_workers s)" "i < length (tp_workers s) + k" for i k
  proof -
    have "i - length (tp_workers s) < k" using that by linarith
    then show ?thesis using that by (simp add: nth_append new_worker_def waiting_def)
  qed
  moreover have "(tp_workers s @ zs) ! i = tp_workers s ! i" if "i < length (tp_workers s)" for i zs
    using that by (simp add: nth_append)
  ultimately show ?thesis using a
    by (auto simp: pool_inv_def add_threads_def max_thread_count_def worker_ok_new) (metis)
qed

lemma pool_inv_submit:
  assumes "execute_forward tid task s = Ret s'" "pool_inv s"
  shows "pool_inv s'"
proof -
  define i where "i = tid mod length (tp_workers s)"
  let ?w = "tp_workers s ! i"
  have e: "tp_workers s \<noteq> []" "\<not> wk_stop ?w"
    "s' = s\<lparr>tp_workers := (tp_workers s)[i := ?w\<lparr>wk_tasks := wk_tasks ?w @ [task], wk_notify := Suc (wk_notify ?w),
      wk_submitted := wk_submitted ?w @ [task]\<rparr>]\<rparr>"
    using assms(1) by (auto simp: execute_forward_def i_def Let_def split: if_splits)
  have i: "i < length (tp_workers s)" using e(1) by (simp add: i_def)
  then have "worker_ok ?w" using assms(2) by (simp add: pool_inv_def)
  then show ?thesis unfolding e(3)
    using assms(2) i e(2) by (intro pool_inv_upd_same) (auto simp: worker_ok_def)
qed

inductive_cases worker_stepE: "worker_step i (w, b) (w', b')"

text \<open>One step of a worker thread keeps its part of the invariant and touches only its own busy bit.\<close>

lemma worker_step_ok: "worker_step i (w, b) (w', b') \<Longrightarrow> worker_ok w \<Longrightarrow> worker_ok w'"
  by (erule worker_stepE) (auto simp: worker_ok_def)

lemma worker_step_own: "worker_step i (w, b) (w', b') \<Longrightarrow> j \<noteq> i \<Longrightarrow> bit b' j = bit b j"
  by (erule worker_stepE) (auto simp: bit_and_iff bit_or_iff bit_not_iff bit_exp_iff dest: bit_imp_possible_bit)

lemma worker_step_busy:
  "worker_step i (w, b) (w', b') \<Longrightarrow> waiting (wk_pc w) \<longrightarrow> \<not> bit b i \<Longrightarrow> waiting (wk_pc w') \<longrightarrow> \<not> bit b' i"
  by (erule worker_stepE) (auto simp: waiting_def bit_and_iff bit_not_iff bit_exp_iff dest: bit_imp_possible_bit)

lemma notify_one_ok:
  assumes "worker_ok w" "0 < wk_notify w"
  shows "worker_ok (notify_one w)" "waiting (wk_pc (notify_one w)) = waiting (wk_pc w)"
  using assms by (auto simp: notify_one_def worker_ok_def waiting_def split: worker_pc.splits)

lemma pool_work_inv: "pool_work i s s' \<Longrightarrow> pool_inv s \<Longrightarrow> pool_inv s'"
proof (induction rule: pool_work.induct)
  case (tp_worker s w b)
  then have "waiting (wk_pc (tp_workers s ! i)) \<longrightarrow> \<not> bit (tp_busy s) i" by (auto simp: pool_inv_def)
  from worker_step_busy [OF tp_worker(2) this] worker_step_ok [OF tp_worker(2) pool_inv_worker [OF tp_worker(3,1)]]
    worker_step_own [OF tp_worker(2)] tp_worker(1,3) show ?case
    by (intro pool_inv_upd) auto
next
  case (tp_notify s)
  with notify_one_ok [OF pool_inv_worker [OF tp_notify(3,1)] tp_notify(2)] show ?case by (intro pool_inv_upd_same) auto
qed

lemma pool_step_inv: "pool_step s s' \<Longrightarrow> pool_inv s \<Longrightarrow> pool_inv s'"
proof (induction rule: pool_step.induct)
  case (tp_stop i s w)
  with pool_inv_worker [OF tp_stop(3,1)] show ?case
    by (intro pool_inv_upd_same) (auto simp: worker_ok_def split: worker_pc.split)
next
  case (tp_spurious i s w)
  with pool_inv_worker [OF tp_spurious(4,1)] show ?case
    by (intro pool_inv_upd_same) (auto simp: worker_ok_def waiting_def)
qed (auto intro: pool_work_inv pool_inv_submit pool_inv_add)

interpretation pool: transition_system "\<lambda>s. \<exists>n. s = pool_ctor n" pool_step pool_inv
proof unfold_locales
  show "pool_inv s" if "\<exists>n. s = pool_ctor n" for s :: "'a thread_pool"
    using that pool_inv_add [of "\<lparr>tp_workers = [], tp_busy = 0\<rparr>"] by (auto simp: pool_ctor_def pool_inv_def)
qed (rule pool_step_inv)

section \<open>Order, draining and placement\<close>

text \<open>Property C19: each worker runs the tasks given to it in the order of submission, each exactly once:
  what was submitted is what it ran, then the task it runs now, then its queue. A worker that
  has returned ran everything that was submitted to it.\<close>

theorem thread_pool_fifo:
  assumes "pool_step\<^sup>*\<^sup>* (pool_ctor n) s" "w \<in> set (tp_workers s)"
  shows "wk_submitted w = wk_executed w @ (case wk_pc w of WkRun x \<Rightarrow> [x] | _ \<Rightarrow> []) @ wk_tasks w \<and>
    (wk_pc w = WkDone \<longrightarrow> wk_executed w = wk_submitted w)"
proof -
  have "pool_inv s" using pool.reach_inv [OF _ assms(1)] by blast
  then have "worker_ok w" using assms(2) by (simp add: pool_inv_def)
  then show ?thesis by (auto simp: worker_ok_def)
qed

section \<open>Every task is run\<close>

text \<open>A number that every step of \<open>pool_work\<close> makes smaller.\<close>

definition worker_left :: "'a worker \<Rightarrow> nat" where
  "worker_left w = 3 * length (wk_tasks w) + 2 * wk_notify w +
    (case wk_pc w of WkDone \<Rightarrow> 0 | WkWait \<Rightarrow> 1 | WkWoken \<Rightarrow> 2 | WkLock \<Rightarrow> 3 | WkRun x \<Rightarrow> 4)"

lemma worker_step_left: "worker_step i (w, b) (w', b') \<Longrightarrow> worker_left w' < worker_left w"
  by (erule worker_stepE) (auto simp: worker_left_def)

lemma notify_one_left: "0 < wk_notify w \<Longrightarrow> worker_left (notify_one w) < worker_left w"
  by (auto simp: worker_left_def notify_one_def split: worker_pc.split)

lemma pool_work_others: "pool_work i s s' \<Longrightarrow> length (tp_workers s') = length (tp_workers s) \<and>
    wk_submitted (tp_workers s' ! i) = wk_submitted (tp_workers s ! i) \<and> wk_stop (tp_workers s' ! i) = wk_stop (tp_workers s ! i) \<and>
    worker_left (tp_workers s' ! i) < worker_left (tp_workers s ! i)"
proof (induction rule: pool_work.induct)
  case (tp_worker s w b)
  from tp_worker(2) have "wk_submitted w = wk_submitted (tp_workers s ! i) \<and> wk_stop w = wk_stop (tp_workers s ! i)"
    by (rule worker_stepE) simp_all
  with tp_worker worker_step_left [OF tp_worker(2)] show ?case by simp
next
  case (tp_notify s)
  with notify_one_left [OF tp_notify(2)] show ?case by (simp add: notify_one_def)
qed

lemma pool_work_run: "(pool_work i ^^ n) s s' \<Longrightarrow> length (tp_workers s') = length (tp_workers s) \<and>
    wk_submitted (tp_workers s' ! i) = wk_submitted (tp_workers s ! i) \<and> wk_stop (tp_workers s' ! i) = wk_stop (tp_workers s ! i) \<and>
    n + worker_left (tp_workers s' ! i) \<le> worker_left (tp_workers s ! i)"
proof (induction n arbitrary: s')
  case (Suc n)
  then obtain s1 where s1: "(pool_work i ^^ n) s s1" "pool_work i s1 s'" by auto
  from Suc.IH [OF s1(1)] pool_work_others [OF s1(2)] show ?case by simp
qed simp

text \<open>A worker that can go on no further has nothing left to do: no notification is lost.\<close>

lemma pool_work_stuck:
  assumes "pool_inv s" "i < length (tp_workers s)" "\<nexists>s'. pool_work i s s'"
  shows "wk_executed (tp_workers s ! i) = wk_submitted (tp_workers s ! i)"
    "wk_pc (tp_workers s ! i) = (if wk_stop (tp_workers s ! i) then WkDone else WkWait)"
proof -
  let ?w = "tp_workers s ! i"
  have ok: "worker_ok ?w" using pool_inv_worker [OF assms(1,2)] .
  have no: "\<not> worker_step i (?w, tp_busy s) (w, b)" for w b using assms(2,3) pool_work.tp_worker by blast
  have zero: "wk_notify ?w = 0" using assms(2,3) pool_work.tp_notify by blast
  have "wk_pc ?w \<noteq> WkRun x" for x using worker_step.wk_run [of ?w x i "tp_busy s"] no by blast
  moreover have "wk_pc ?w \<noteq> WkLock"
    using worker_step.wk_idle [of ?w i "tp_busy s"] worker_step.wk_take [of ?w _ _ i "tp_busy s"] no by (cases "wk_tasks ?w") blast+
  moreover have "wk_pc ?w \<noteq> WkWoken"
    using worker_step.wk_again [of ?w i "tp_busy s"] worker_step.wk_wake [of ?w _ _ i "tp_busy s"] no by (cases "wk_tasks ?w") blast+
  ultimately have "wk_pc ?w = WkWait \<or> wk_pc ?w = WkDone" by (cases "wk_pc ?w") auto
  then show "wk_executed ?w = wk_submitted ?w" "wk_pc ?w = (if wk_stop ?w then WkDone else WkWait)"
    using ok zero by (auto simp: worker_ok_def)
qed

text \<open>Property C33: no task is forgotten and no wake-up lost. From every reachable state, also before \<open>stop\<close> is set, if no more calls
  come in, the thread of a worker and the callers that still have to call \<open>notify_one\<close> make a bounded number of
  steps, in whatever order and without any spurious wake-up; when none of them can go on, the worker has executed
  everything that was submitted to it, and it has returned if \<open>stop\<close> is set (so \<open>join\<close> returns) and waits for
  work otherwise. Once the flag is set no task is accepted.\<close>

theorem thread_pool_drains:
  assumes "pool_step\<^sup>*\<^sup>* (pool_ctor n) s" "i < length (tp_workers s)"
  shows "(\<exists>k. \<forall>m s'. (pool_work i ^^ m) s s' \<longrightarrow> m \<le> k) \<and>
    (\<forall>s'. (pool_work i)\<^sup>*\<^sup>* s s' \<longrightarrow> (\<nexists>s''. pool_work i s' s'') \<longrightarrow>
      wk_executed (tp_workers s' ! i) = wk_submitted (tp_workers s ! i) \<and>
      wk_pc (tp_workers s' ! i) = (if wk_stop (tp_workers s ! i) then WkDone else WkWait)) \<and>
    (wk_stop (tp_workers s ! i) \<longrightarrow> execute_forward i task s = Throw ''enqueue on stopped ThreadPool'')"
proof (intro conjI allI impI)
  have inv: "pool_inv s" using pool.reach_inv [OF _ assms(1)] by blast
  show "\<exists>k. \<forall>m s'. (pool_work i ^^ m) s s' \<longrightarrow> m \<le> k"
    using pool_work_run by (intro exI [of _ "worker_left (tp_workers s ! i)"]) fastforce
  fix s' assume run: "(pool_work i)\<^sup>*\<^sup>* s s'" and stuck: "\<nexists>s''. pool_work i s' s''"
  have "pool_inv s'" using run inv by (induction rule: rtranclp_induct) (auto intro: pool_work_inv)
  moreover obtain m where "(pool_work i ^^ m) s s'" using run rtranclp_imp_relpowp by metis
  note m = pool_work_run [OF this]
  ultimately show "wk_executed (tp_workers s' ! i) = wk_submitted (tp_workers s ! i)"
    "wk_pc (tp_workers s' ! i) = (if wk_stop (tp_workers s ! i) then WkDone else WkWait)"
    using pool_work_stuck [of s' i] stuck assms(2) m by simp_all
qed (use assms(2) in \<open>auto simp: execute_forward_def\<close>)

section \<open>The choice of a worker\<close>

lemma ffsll_Suc: "ffsll x = Suc i \<Longrightarrow> i < 64 \<and> bit x i \<and> (\<forall>j<i. \<not> bit x j)"
  by (auto simp: ffsll_def find_Some_iff split: option.splits)

lemma ffsll_0: "ffsll x = 0 \<longleftrightarrow> (\<forall>i<64. \<not> bit x i)"
  by (auto simp: ffsll_def find_None_iff split: option.split) (auto simp: find_Some_iff)

text \<open>\<open>execute\<close> picks an existing worker, and the first one whose busy bit is clear whenever
  there is one among the workers; otherwise the choice is the random number modulo the count.\<close>

theorem execute_pick_first_idle:
  assumes "0 < n" "n \<le> 64"
  shows "execute_pick busy rng n < n \<and>
    (if \<exists>i<n. \<not> bit busy i
     then \<not> bit busy (execute_pick busy rng n) \<and> (\<forall>j<execute_pick busy rng n. bit busy j)
     else execute_pick busy rng n = rng mod n)"
proof (cases "ffsll (NOT busy)")
  case 0
  then have "\<forall>i<64. bit busy i" by (simp add: ffsll_0 bit_not_iff)
  with 0 assms show ?thesis by (simp add: execute_pick_def) (meson less_le_trans)
next
  case (Suc i)
  then have i: "i < 64" "\<not> bit busy i" "\<forall>j<i. bit busy j" using ffsll_Suc [OF Suc] by (auto simp: bit_not_iff)
  show ?thesis
  proof (cases "i < n")
    case True
    with Suc i show ?thesis by (auto simp: execute_pick_def)
  next
    case False
    with Suc i assms show ?thesis by (auto simp: execute_pick_def)
  qed
qed

lemma execute_pick_first_idle_witness: "execute_pick (NOT 0) 77 4 = 1"
proof -
  have "\<not> (\<exists>i<4. \<not> bit (NOT 0 :: u64) i)" by (simp add: bit_simps del: bit.compl_zero)
  with execute_pick_first_idle [of 4 "NOT 0" 77] show ?thesis by (simp del: bit.compl_zero)
qed

section \<open>A run\<close>

text \<open>A worker that waits, gets a task, is notified, runs the task and waits again.\<close>

definition waiting_pool :: "nat thread_pool" where
  "waiting_pool = \<lparr>tp_workers = [new_worker\<lparr>wk_pc := WkWait, wk_tasks := [3], wk_notify := 1, wk_submitted := [3]\<rparr>], tp_busy = 0\<rparr>"

lemma pool_example: "pool_step\<^sup>*\<^sup>* (pool_ctor 1) waiting_pool"
proof -
  let ?s0 = "\<lparr>tp_workers = [new_worker], tp_busy = 0\<rparr> :: nat thread_pool"
  let ?s1 = "\<lparr>tp_workers = [new_worker\<lparr>wk_pc := WkWait\<rparr>], tp_busy = 0\<rparr> :: nat thread_pool"
  have c: "pool_ctor 1 = ?s0" by (simp add: pool_ctor_def add_threads_def max_thread_count_def)
  have "worker_step 0 (new_worker, 0) (new_worker\<lparr>wk_pc := WkWait\<rparr>, 0)"
    using worker_step.wk_idle [of new_worker 0 0] by (simp add: new_worker_def)
  then have "pool_work 0 ?s0 ?s1" using pool_work.tp_worker [of 0 ?s0 "new_worker\<lparr>wk_pc := WkWait\<rparr>" 0] by simp
  then have "pool_step ?s0 ?s1" by (rule pool_step.tp_work)
  moreover have "execute_forward 0 3 ?s1 = Ret waiting_pool"
    by (simp add: execute_forward_def waiting_pool_def new_worker_def)
  then have "pool_step ?s1 waiting_pool" by (rule pool_step.tp_submit)
  ultimately show ?thesis unfolding c by (meson converse_rtranclp_into_rtranclp r_into_rtranclp)
qed

lemma thread_pool_fifo_witness:
  "\<exists>w :: nat worker. wk_submitted w = [3] \<and> wk_submitted w = wk_executed w @ wk_tasks w"
  using thread_pool_fifo [OF pool_example, of "hd (tp_workers waiting_pool)"]
  by (intro exI [of _ "hd (tp_workers waiting_pool)"]) (simp add: waiting_pool_def new_worker_def)

lemma thread_pool_drains_witness:
  "\<exists>s'. (pool_work 0)\<^sup>*\<^sup>* waiting_pool s' \<and> (\<nexists>s''. pool_work 0 s' s'') \<and> wk_executed (tp_workers s' ! 0) = [3] \<and>
     wk_pc (tp_workers s' ! 0) = WkWait"
proof -
  let ?R = "pool_work 0 :: nat thread_pool \<Rightarrow> _"
  have l: "0 < length (tp_workers waiting_pool)" by (simp add: waiting_pool_def)
  note D = thread_pool_drains [OF pool_example l]
  obtain k where k: "\<forall>m s'. (?R ^^ m) waiting_pool s' \<longrightarrow> m \<le> k" using D by blast
  define m where "m = Greatest (\<lambda>m. \<exists>s'. (?R ^^ m) waiting_pool s')"
  have "\<exists>s'. (?R ^^ 0) waiting_pool s'" by simp
  then have "\<exists>s'. (?R ^^ m) waiting_pool s'"
    unfolding m_def using k by (intro GreatestI_nat [where P = "\<lambda>m. \<exists>s'. (?R ^^ m) waiting_pool s'" and k = 0 and b = k]) auto
  then obtain s' where s': "(?R ^^ m) waiting_pool s'" by blast
  have "\<nexists>s''. ?R s' s''"
  proof
    assume "\<exists>s''. ?R s' s''"
    then have "\<exists>s'. (?R ^^ Suc m) waiting_pool s'" using s' by auto
    then have "Suc m \<le> m"
      unfolding m_def using k by (intro Greatest_le_nat [where P = "\<lambda>m. \<exists>s'. (?R ^^ m) waiting_pool s'" and b = k]) auto
    then show False by simp
  qed
  moreover have "?R\<^sup>*\<^sup>* waiting_pool s'" using s' by (rule relpowp_imp_rtranclp)
  ultimately show ?thesis using D by (intro exI [of _ s']) (simp add: waiting_pool_def new_worker_def)
qed

end
