(* ===== verification/Csv.thy ===== *)
theory Csv
  imports Prelude
begin

text \<open>
  csv.h: \<open>CSVFileStream\<close>. The file system is a map from paths to contents. The header line is parsed
  by the index loop of the constructor; entries are given as the strings that \<open>operator<<\<close> writes.
\<close>

type_synonym files = "string \<Rightarrow> string option"

record csv =
  csv_path :: string
  csv_fields :: "string list"
  csv_is_open :: bool

definition find_first_not_of :: "char \<Rightarrow> string \<Rightarrow> nat \<Rightarrow> nat option" where
  "find_first_not_of c s i = List.find (\<lambda>j. s ! j \<noteq> c) [i..<length s]"

definition find_first_of :: "char \<Rightarrow> string \<Rightarrow> nat \<Rightarrow> nat option" where
  "find_first_of c s i = List.find (\<lambda>j. s ! j = c) [i..<length s]"

text \<open>\<open>s.erase(s.find_last_not_of(' ') + 1)\<close>\<close>

definition trim_end :: "string \<Rightarrow> string" where
  "trim_end s = rev (dropWhile (\<lambda>c. c = CHR '' '') (rev s))"

lemma find_upt: "List.find P [i..<n] = Some j \<Longrightarrow> i \<le> j \<and> j < n \<and> P j \<and> (\<forall>k. i \<le> k \<longrightarrow> k < j \<longrightarrow> \<not> P k)"
proof (induction "n - i" arbitrary: i)
  case (Suc d)
  then have u: "[i..<n] = i # [Suc i..<n]" by (simp add: upt_rec)
  show ?case
  proof (cases "P i")
    case True
    with Suc.prems u Suc.hyps(2) show ?thesis by auto
  next
    case False
    with Suc.prems u have "List.find P [Suc i..<n] = Some j" by simp
    moreover have "d = n - Suc i" using Suc.hyps(2) by simp
    ultimately have r: "Suc i \<le> j \<and> j < n \<and> P j \<and> (\<forall>k. Suc i \<le> k \<longrightarrow> k < j \<longrightarrow> \<not> P k)"
      by (intro Suc.hyps(1)) simp_all
    then have "\<not> P k" if "i \<le> k" "k < j" for k using that False by (cases "k = i") auto
    with r show ?thesis by auto
  qed
qed simp

lemma trim_end_length: "length (trim_end s) \<le> length s"
  by (simp add: trim_end_def) (metis length_dropWhile_le length_rev)

text \<open>One turn of the loop; the variable \<open>e + 1\<close> of the code is \<open>i\<close>.\<close>

function csv_header_loop :: "string \<Rightarrow> nat \<Rightarrow> string list" where
  "csv_header_loop s i =
    (case find_first_not_of CHR '' '' s i of
       None \<Rightarrow> []
     | Some b \<Rightarrow>
        (case find_first_of CHR '','' s i of
           None \<Rightarrow> [drop b s]
         | Some e \<Rightarrow> take (e - b) (drop b s) # csv_header_loop (trim_end s) (Suc e)))"
  by pat_completeness auto
termination
proof (relation "measure (\<lambda>(s, i). length s - i)")
  fix s i b e
  assume "find_first_of CHR '','' s i = Some e"
  then have "List.find (\<lambda>j. s ! j = CHR '','') [i..<length s] = Some e" by (simp only: find_first_of_def)
  from find_upt [OF this] have "i \<le> e" "e < length s" by blast+
  with trim_end_length [of s] show "((trim_end s, Suc e), (s, i)) \<in> measure (\<lambda>(s, i). length s - i)" by simp
qed (rule wf_measure)

declare csv_header_loop.simps [simp del]

definition getline :: "string \<Rightarrow> string" where
  "getline s = takeWhile (\<lambda>c. c \<noteq> CHR 0x0A) s"

primrec csv_line :: "string list \<Rightarrow> string" where
  "csv_line [] = []"
| "csv_line (t # rest) = t @ (if rest = [] then [CHR 0x0A] else CHR '','' # csv_line rest)"

definition csv_open :: "string \<Rightarrow> files \<Rightarrow> csv run" where
  "csv_open path fs =
    (case fs path of
       None \<Rightarrow> Throw ''CSV file not found!''
     | Some content \<Rightarrow> Ret \<lparr>csv_path = path, csv_fields = csv_header_loop (getline content) 0, csv_is_open = True\<rparr>)"

definition csv_create :: "string \<Rightarrow> string list \<Rightarrow> files \<Rightarrow> csv \<times> files" where
  "csv_create path flds fs =
    (if flds = [] then (\<lparr>csv_path = path, csv_fields = [], csv_is_open = False\<rparr>, fs)
     else (\<lparr>csv_path = path, csv_fields = flds, csv_is_open = True\<rparr>, fs(path \<mapsto> csv_line flds)))"

text \<open>\<open>appendEntry\<close> with at least one argument; on a stream that was never opened it writes nothing.\<close>

definition csv_append :: "string list \<Rightarrow> csv \<Rightarrow> files \<Rightarrow> files" where
  "csv_append args c fs =
    (if csv_is_open c then fs(csv_path c \<mapsto> (case fs (csv_path c) of None \<Rightarrow> [] | Some t \<Rightarrow> t) @ csv_line args) else fs)"

section \<open>Parsing a written header\<close>

definition field_ok :: "string \<Rightarrow> bool" where
  "field_ok f \<longleftrightarrow> CHR '','' \<notin> set f \<and> CHR 0x0A \<notin> set f \<and> (f = [] \<or> hd f \<noteq> CHR '' '')"

primrec csv_join :: "string list \<Rightarrow> string" where
  "csv_join [] = []"
| "csv_join (t # rest) = t @ (if rest = [] then [] else CHR '','' # csv_join rest)"

lemma csv_line_join: "fs \<noteq> [] \<Longrightarrow> csv_line fs = csv_join fs @ [CHR 0x0A]"
  by (induction fs) auto

lemma find_upt_first:
  assumes "i \<le> j" "j < n" "P j" "\<And>k. i \<le> k \<Longrightarrow> k < j \<Longrightarrow> \<not> P k"
  shows "List.find P [i..<n] = Some j"
proof (cases "List.find P [i..<n]")
  case None
  with assms(1-3) show ?thesis by (auto simp: find_None_iff)
next
  case (Some j')
  from find_upt [OF this] assms have "j' = j" by (meson linorder_neqE_nat)
  with Some show ?thesis by simp
qed

lemma find_comma:
  assumes "CHR '','' \<notin> set f"
  shows "find_first_of CHR '','' (pre @ f @ CHR '','' # rest) (length pre) = Some (length pre + length f)"
  unfolding find_first_of_def
proof (rule find_upt_first)
  fix k
  assume "length pre \<le> k" "k < length pre + length f"
  then have "(pre @ f @ CHR '','' # rest) ! k = f ! (k - length pre)" "k - length pre < length f"
    by (auto simp: nth_append)
  then show "\<not> (pre @ f @ CHR '','' # rest) ! k = CHR '',''" using assms by (metis nth_mem)
qed (auto simp: nth_append)

lemma find_no_comma: "CHR '','' \<notin> set f \<Longrightarrow> find_first_of CHR '','' (pre @ f) (length pre) = None"
  by (auto simp: find_first_of_def find_None_iff nth_append) (metis add_diff_inverse_nat nat_add_left_cancel_less not_le nth_mem)

lemma find_start:
  assumes "f = [] \<or> hd f \<noteq> CHR '' ''" "f @ rest \<noteq> []" "f = [] \<longrightarrow> hd rest \<noteq> CHR '' ''"
  shows "find_first_not_of CHR '' '' (pre @ f @ rest) (length pre) = Some (length pre)"
proof -
  have "(pre @ f @ rest) ! length pre = hd (f @ rest)" using assms(2) by (simp add: nth_append hd_conv_nth)
  moreover have "hd (f @ rest) \<noteq> CHR '' ''" using assms by (cases f) auto
  ultimately show ?thesis unfolding find_first_not_of_def using assms(2) by (intro find_upt_first) auto
qed

lemma trim_end_id: "s \<noteq> [] \<Longrightarrow> last s \<noteq> CHR '' '' \<Longrightarrow> trim_end s = s"
  by (cases s rule: rev_cases) (simp_all add: trim_end_def)

lemma csv_parse_join:
  assumes "fs \<noteq> []" "\<forall>f\<in>set fs. field_ok f" "last fs \<noteq> []" "last (last fs) \<noteq> CHR '' ''"
  shows "csv_header_loop (pre @ csv_join fs) (length pre) = fs"
  using assms
proof (induction fs arbitrary: pre)
  case (Cons f fs)
  have f: "CHR '','' \<notin> set f" "f = [] \<or> hd f \<noteq> CHR '' ''" using Cons.prems(2) by (simp_all add: field_ok_def)
  show ?case
  proof (cases "fs = []")
    case True
    with Cons.prems(3) f find_start [of f "[]" pre] find_no_comma [of f pre] show ?thesis
      by (subst csv_header_loop.simps) simp
  next
    case False
    let ?s = "pre @ f @ CHR '','' # csv_join fs"
    have j: "csv_join fs \<noteq> [] \<and> last (csv_join fs) = last (last fs)" if "fs \<noteq> []" "last fs \<noteq> []" for fs
      using that by (induction fs) (auto split: if_splits)
    have "last ?s = last (last fs)" using j [of fs] False Cons.prems(3) by simp
    then have t: "trim_end ?s = ?s" using Cons.prems(4) False by (intro trim_end_id) simp_all
    have n: "find_first_not_of CHR '' '' ?s (length pre) = Some (length pre)"
      using f(2) by (intro find_start) auto
    have IH: "csv_header_loop ((pre @ f @ [CHR '','']) @ csv_join fs) (length (pre @ f @ [CHR '',''])) = fs"
      using Cons.prems False by (intro Cons.IH) auto
    have "csv_header_loop ?s (length pre) = f # csv_header_loop (trim_end ?s) (Suc (length pre + length f))"
      by (subst csv_header_loop.simps) (simp add: n find_comma [OF f(1)])
    also have "csv_header_loop (trim_end ?s) (Suc (length pre + length f)) = fs"
      unfolding t using IH by simp
    finally show ?thesis using False by simp
  qed
qed simp

lemma getline_line:
  assumes "fs \<noteq> []" "\<forall>f\<in>set fs. field_ok f"
  shows "getline (csv_line fs @ rest) = csv_join fs"
proof -
  have "\<forall>c\<in>set (csv_join fs). c \<noteq> CHR 0x0A"
    using assms(2) by (induction fs) (auto simp: field_ok_def)
  then show ?thesis using assms(1) by (simp add: getline_def csv_line_join takeWhile_append2)
qed

lemma csv_append_all:
  "csv_is_open c \<Longrightarrow> fs (csv_path c) = Some t \<Longrightarrow>
    fold (\<lambda>r. csv_append r c) rows fs (csv_path c) = Some (t @ concat (map csv_line rows))"
  by (induction rows arbitrary: fs t) (simp_all add: csv_append_def)

text \<open>Property C38: a file that was created with a list of fields and extended by any number of entries is
  opened again with exactly these fields, and its contents are the header line followed by the
  entries in order, provided that no field contains a comma or a line break or begins with a
  blank and the last one is not empty and does not end in a blank.\<close>

theorem csv_round_trip:
  assumes "flds \<noteq> []" "\<forall>f\<in>set flds. field_ok f" "last flds \<noteq> []" "last (last flds) \<noteq> CHR '' ''"
    and "csv_create path flds fs = (c, fs1)" "fs2 = fold (\<lambda>r. csv_append r c) rows fs1"
  shows "csv_open path fs2 = Ret c \<and> fs2 path = Some (csv_line flds @ concat (map csv_line rows))"
proof -
  have c: "c = \<lparr>csv_path = path, csv_fields = flds, csv_is_open = True\<rparr>" "fs1 path = Some (csv_line flds)"
    using assms(1,5) by (auto simp: csv_create_def)
  then have f: "fs2 path = Some (csv_line flds @ concat (map csv_line rows))"
    using csv_append_all [of c fs1 "csv_line flds" rows] assms(6) by simp
  have "csv_header_loop (csv_join flds) 0 = flds" using csv_parse_join [OF assms(1-4), of "[]"] by simp
  with f c getline_line [OF assms(1,2)] show ?thesis by (simp add: csv_open_def)
qed

lemma csv_round_trip_witness:
  "csv_open ''f'' (fold (\<lambda>r. csv_append r (fst (csv_create ''f'' [''x'', ''y''] Map.empty))) [[''1'', ''2'']]
     (snd (csv_create ''f'' [''x'', ''y''] Map.empty))) = Ret (fst (csv_create ''f'' [''x'', ''y''] Map.empty))"
proof -
  have "[''x'', ''y''] \<noteq> []" "\<forall>f\<in>set [''x'', ''y'']. field_ok f" "last [''x'', ''y''] \<noteq> []"
    "last (last [''x'', ''y'']) \<noteq> CHR '' ''" by (simp_all add: field_ok_def)
  from csv_round_trip [OF this prod.collapse [symmetric] refl] show ?thesis by blast
qed

text \<open>Where the header reader does not give back what was written: an empty last field is lost,
  and blanks at the end of a field are kept, because the loop trims the line \<open>s\<close> and not the field
  \<open>_s\<close>.\<close>

theorem csv_header_quirks:
  assumes "field_ok f" "f \<noteq> []" "field_ok g" "g \<noteq> []" "last g \<noteq> CHR '' ''"
  shows "csv_header_loop (csv_join [f, []]) 0 = [f] \<and>
    csv_header_loop (csv_join [f @ '' '', g]) 0 = [f @ '' '', g]"
proof
  have t: "trim_end (f @ '','') = f @ '',''" by (rule trim_end_id) simp_all
  have f: "CHR '','' \<notin> set f" "f = [] \<or> hd f \<noteq> CHR '' ''" using assms(1) by (simp_all add: field_ok_def)
  have "find_first_not_of CHR '' '' (f @ '','') 0 = Some 0" using find_start [OF f(2), of "'',''" "[]"] by simp
  moreover have "find_first_of CHR '','' (f @ '','') 0 = Some (length f)"
    using find_comma [OF f(1), of "[]" "[]"] by simp
  moreover have "csv_header_loop (f @ '','') (Suc (length f)) = []"
    by (subst csv_header_loop.simps) (simp add: find_first_not_of_def)
  ultimately have "csv_header_loop (f @ '','') 0 = [f]" by (subst csv_header_loop.simps) (simp add: t)
  then show "csv_header_loop (csv_join [f, []]) 0 = [f]" by simp
  have "field_ok (f @ '' '')" using assms(1,2) by (auto simp: field_ok_def)
  then show "csv_header_loop (csv_join [f @ '' '', g]) 0 = [f @ '' '', g]"
    using csv_parse_join [of "[f @ '' '', g]" "[]"] assms(3-5) by simp
qed

lemma csv_header_quirks_witness: "csv_header_loop ''a,'' 0 = [''a''] \<and> csv_header_loop ''a ,b'' 0 = [''a '', ''b'']"
proof -
  have "field_ok ''a''" "''a'' \<noteq> []" "field_ok ''b''" "''b'' \<noteq> []" "last ''b'' \<noteq> CHR '' ''" by (simp_all add: field_ok_def)
  from csv_header_quirks [OF this] show ?thesis by simp
qed

end
