(* ===== verification/Statistic.thy ===== *)
theory Statistic
  imports Complex_Main Prelude
begin

text \<open>
  statistic.h: sums, averages and variances over a range, and \<open>Histogram\<close>. \<open>double\<close> is modelled by
  the rational numbers, that is without rounding; \<open>int\<close> counters are unbounded.
\<close>

definition summation :: "rat list \<Rightarrow> rat" where
  "summation xs = foldl (\<lambda>s x. s + x) 0 xs"

definition summation_op :: "(rat \<Rightarrow> rat \<Rightarrow> rat) \<Rightarrow> rat list \<Rightarrow> rat" where
  "summation_op f xs = foldl (\<lambda>s x. f x s) 0 xs"

definition average :: "rat list \<Rightarrow> rat" where
  "average xs = summation xs / of_nat (length xs)"

definition average_op :: "(rat \<Rightarrow> rat \<Rightarrow> rat) \<Rightarrow> rat list \<Rightarrow> rat" where
  "average_op f xs = summation_op f xs / of_nat (length xs)"

definition variance :: "rat list \<Rightarrow> rat" where
  "variance xs = (let avg = average xs in average_op (\<lambda>x p. let tmp = x - avg in p + tmp * tmp) xs)"

definition variance_op :: "(rat \<Rightarrow> rat \<Rightarrow> rat) \<Rightarrow> rat list \<Rightarrow> rat" where
  "variance_op f xs =
    (let avg = average_op f xs in average_op (\<lambda>x p. let tmp = f x (- avg) in p + tmp * tmp) xs)"

section \<open>\<open>Histogram\<close>\<close>

record histogram =
  nr_buckets :: nat
  min_value :: rat
  max_value :: rat
  bucket_width :: rat
  buckets :: "int list"

definition histogram_ctor :: "nat \<Rightarrow> rat \<Rightarrow> rat \<Rightarrow> histogram" where
  "histogram_ctor n lo hi = \<lparr>nr_buckets = n, min_value = lo, max_value = hi,
     bucket_width = (hi - lo) / of_nat n, buckets = replicate n 0\<rparr>"

text \<open>The conversion from \<open>double\<close> to \<open>int\<close> truncates towards zero.\<close>

definition truncate :: "rat \<Rightarrow> int" where
  "truncate q = (if q \<ge> 0 then \<lfloor>q\<rfloor> else \<lceil>q\<rceil>)"

definition get_bucket :: "histogram \<Rightarrow> rat \<Rightarrow> int" where
  "get_bucket h v = truncate ((v - min_value h) / bucket_width h)"

definition get_value :: "histogram \<Rightarrow> int \<Rightarrow> rat" where
  "get_value h b = (if b < 0 \<or> b \<ge> int (nr_buckets h) then -1 else min_value h + bucket_width h * of_int b)"

definition get_count :: "histogram \<Rightarrow> int \<Rightarrow> int" where
  "get_count h b = (if b < 0 \<or> b \<ge> int (nr_buckets h) then -1 else buckets h ! nat b)"

text \<open>\<open>buckets[b] += c\<close>: undefined outside the vector.\<close>

definition bump :: "int \<Rightarrow> int \<Rightarrow> histogram \<Rightarrow> histogram run" where
  "bump b c h =
    (if 0 \<le> b \<and> b < int (length (buckets h))
     then Ret (h\<lparr>buckets := (buckets h)[nat b := buckets h ! nat b + c]\<rparr>) else UB)"

definition hist_add :: "rat \<Rightarrow> histogram \<Rightarrow> histogram run" where
  "hist_add v h = (if v < min_value h \<or> v > max_value h then Ret h else bump (get_bucket h v) 1 h)"

definition hist_clear :: "histogram \<Rightarrow> histogram" where
  "hist_clear h = h\<lparr>buckets := replicate (length (buckets h)) 0\<rparr>"

definition hist_size :: "histogram \<Rightarrow> int" where
  "hist_size h = foldl (+) 0 (buckets h)"

text \<open>The loop of \<open>percentile\<close>; with an empty histogram the quotient is not a number and no test succeeds.\<close>

primrec percentile_loop :: "rat \<Rightarrow> int \<Rightarrow> int list \<Rightarrow> int \<Rightarrow> int \<Rightarrow> int" where
  "percentile_loop p tot [] i so_far = -1"
| "percentile_loop p tot (c # cs) i so_far =
    (if tot \<noteq> 0 \<and> of_int (so_far + c) / of_int tot * 100 \<ge> p then i
     else percentile_loop p tot cs (i + 1) (so_far + c))"

definition percentile :: "rat \<Rightarrow> histogram \<Rightarrow> int" where
  "percentile p h =
    (if p < 0 \<or> p > 100 then -1 else percentile_loop p (hist_size h) (take (nr_buckets h) (buckets h)) 0 0)"

text \<open>None: the division 0 / 0.\<close>

definition hist_average :: "histogram \<Rightarrow> rat option" where
  "hist_average h =
    (if hist_size h = 0 then None
     else Some (foldl (\<lambda>s i. s + get_value h (int i) * of_int (get_count h (int i))) 0 [0..<nr_buckets h] / of_int (hist_size h)))"

primrec merge_into :: "histogram \<Rightarrow> nat list \<Rightarrow> histogram \<Rightarrow> histogram run" where
  "merge_into a [] h = Ret h"
| "merge_into a (i # is) h =
    run_bind (bump (get_bucket h (get_value a (int i))) (get_count a (int i)) h) (merge_into a is)"

definition merge :: "histogram \<Rightarrow> histogram \<Rightarrow> histogram run" where
  "merge a b =
    run_bind (merge_into a [0..<nr_buckets a]
        (histogram_ctor (max (nr_buckets a) (nr_buckets b)) (min (min_value a) (max_value b))
          (max (max_value a) (max_value b))))
      (merge_into b [0..<nr_buckets b])"

section \<open>Sums\<close>

lemma foldl_sum: "foldl (\<lambda>s x. s + f x) z xs = z + sum_list (map f xs)" for z :: "'a::comm_monoid_add"
  by (induction xs arbitrary: z) (simp_all add: add.assoc)

lemma foldl_plus: "foldl (+) z xs = z + sum_list xs" for z :: int
  using foldl_sum [of "\<lambda>x. x" z xs] by simp

lemma summation_sum: "summation xs = sum_list xs"
  using foldl_sum [of "\<lambda>x. x" 0 xs] by (simp add: summation_def)

lemma sum_list_centred: "sum_list (map (\<lambda>x. x - m) xs) = sum_list xs - of_nat (length xs) * (m :: rat)"
  by (induction xs) (simp_all add: algebra_simps)

lemma sum_squares_centred:
  "sum_list (map (\<lambda>x. (x - m) * (x - m)) xs) =
    sum_list (map (\<lambda>x. x * x) xs) - 2 * m * sum_list xs + of_nat (length xs) * m * (m :: rat)"
  by (induction xs) (simp_all add: algebra_simps)

text \<open>\<open>variance\<close> is the mean of the squares minus the square of the mean, and never
  negative.\<close>

theorem variance_moments:
  assumes "xs \<noteq> []"
  shows "variance xs = average (map (\<lambda>x. x * x) xs) - average xs * average xs \<and> 0 \<le> variance xs"
proof -
  let ?n = "of_nat (length xs) :: rat" and ?m = "average xs"
  have n: "?n \<noteq> 0" using assms by simp
  have v: "variance xs = sum_list (map (\<lambda>x. (x - ?m) * (x - ?m)) xs) / ?n"
    using foldl_sum [of "\<lambda>x. (x - ?m) * (x - ?m)" 0 xs]
    by (simp add: variance_def average_op_def summation_op_def Let_def)
  have s: "sum_list xs = ?n * ?m" using n by (simp add: average_def summation_sum)
  have "variance xs = (sum_list (map (\<lambda>x. x * x) xs) - ?n * (?m * ?m)) / ?n"
    unfolding v sum_squares_centred s by (simp add: algebra_simps)
  also have "\<dots> = average (map (\<lambda>x. x * x) xs) - ?m * ?m"
    using n by (simp add: average_def summation_sum diff_divide_distrib)
  finally have "variance xs = average (map (\<lambda>x. x * x) xs) - ?m * ?m" .
  moreover have "0 \<le> variance xs"
    unfolding v by (intro divide_nonneg_nonneg sum_list_nonneg) auto
  ultimately show ?thesis by blast
qed

lemma variance_moments_witness: "variance [1, 3] = average [1, 9] - average [1, 3] * average [1, 3]"
  using variance_moments [of "[1, 3]"] by simp

section \<open>Adding values\<close>

definition hist_wf :: "histogram \<Rightarrow> bool" where
  "hist_wf h \<longleftrightarrow> 0 < nr_buckets h \<and> min_value h < max_value h \<and> length (buckets h) = nr_buckets h \<and>
     bucket_width h = (max_value h - min_value h) / of_nat (nr_buckets h) \<and> (\<forall>c\<in>set (buckets h). 0 \<le> c)"

lemma hist_width: "hist_wf h \<Longrightarrow> 0 < bucket_width h \<and> bucket_width h * of_nat (nr_buckets h) = max_value h - min_value h"
  by (simp add: hist_wf_def)

lemma get_bucket_range:
  assumes "hist_wf h" "min_value h \<le> v" "v < max_value h"
  shows "0 \<le> get_bucket h v \<and> get_bucket h v < int (nr_buckets h) \<and>
    min_value h + bucket_width h * of_int (get_bucket h v) \<le> v \<and>
    v < min_value h + bucket_width h * (of_int (get_bucket h v) + 1)"
proof -
  let ?q = "(v - min_value h) / bucket_width h"
  note w = hist_width [OF assms(1)]
  have q: "0 \<le> ?q" "?q < of_nat (nr_buckets h)" "bucket_width h * ?q = v - min_value h"
    using w assms by (simp_all add: divide_less_eq mult.commute)
  then have g: "get_bucket h v = \<lfloor>?q\<rfloor>" by (simp add: get_bucket_def truncate_def)
  have f: "of_int \<lfloor>?q\<rfloor> \<le> ?q" "?q < of_int \<lfloor>?q\<rfloor> + 1" by linarith+
  have "\<lfloor>?q\<rfloor> < int (nr_buckets h)" using q(2) by (simp add: floor_less_iff)
  moreover have "bucket_width h * of_int \<lfloor>?q\<rfloor> \<le> bucket_width h * ?q" "bucket_width h * ?q < bucket_width h * (of_int \<lfloor>?q\<rfloor> + 1)"
    using f w by (intro mult_left_mono mult_strict_left_mono; simp)+
  ultimately show ?thesis unfolding g using q by (simp add: q(3))
qed

lemma get_bucket_max: "hist_wf h \<Longrightarrow> get_bucket h (max_value h) = int (nr_buckets h)"
proof -
  assume a: "hist_wf h"
  have "(max_value h - min_value h) / bucket_width h = of_nat (nr_buckets h)"
    using hist_width [OF a] by (metis less_irrefl nonzero_mult_div_cancel_left)
  then show ?thesis by (simp add: get_bucket_def truncate_def)
qed

text \<open>\<open>add\<close> counts a value of \<open>[min_value, max_value)\<close> in the bucket whose interval contains
  it, ignores a value outside, but accepts \<open>max_value\<close> itself and then writes one element past the
  end of the vector.\<close>

theorem hist_add_spec:
  assumes "hist_wf h"
  shows "hist_add v h =
    (if v < min_value h \<or> max_value h < v then Ret h
     else if v = max_value h then UB
     else Ret (h\<lparr>buckets := (buckets h)[nat (get_bucket h v) := buckets h ! nat (get_bucket h v) + 1]\<rparr>)) \<and>
    (min_value h \<le> v \<and> v < max_value h \<longrightarrow>
      0 \<le> get_bucket h v \<and> get_bucket h v < int (nr_buckets h) \<and>
      min_value h + bucket_width h * of_int (get_bucket h v) \<le> v \<and>
      v < min_value h + bucket_width h * (of_int (get_bucket h v) + 1))"
proof -
  have l: "length (buckets h) = nr_buckets h" using assms by (simp add: hist_wf_def)
  consider "v < min_value h \<or> max_value h < v" | "v = max_value h" | "min_value h \<le> v" "v < max_value h" by linarith
  then show ?thesis
  proof cases
    case 2
    then show ?thesis using get_bucket_max [OF assms] l assms by (simp add: hist_add_def bump_def hist_wf_def)
  next
    case 3
    then show ?thesis using get_bucket_range [OF assms 3] l by (simp add: hist_add_def bump_def)
  qed (auto simp: hist_add_def)
qed

lemma hist_add_spec_witness: "hist_add 10 (histogram_ctor 5 0 10) = UB"
proof -
  have "hist_wf (histogram_ctor 5 0 10)" by (simp add: hist_wf_def histogram_ctor_def)
  from hist_add_spec [OF this, of 10] show ?thesis by (simp add: histogram_ctor_def)
qed

section \<open>Percentiles\<close>

lemma percentile_loop_spec:
  assumes "0 < tot"
  shows "(\<exists>k<length cs. percentile_loop p tot cs i s = i + int k \<and>
      p * of_int tot \<le> of_int (s + sum_list (take (Suc k) cs)) * 100 \<and>
      (\<forall>j<k. of_int (s + sum_list (take (Suc j) cs)) * 100 < p * of_int tot)) \<or>
    (\<forall>j<length cs. of_int (s + sum_list (take (Suc j) cs)) * 100 < p * of_int tot)"
proof (induction cs arbitrary: i s)
  case (Cons c cs)
  have t: "p \<le> of_int (s + c) / of_int tot * 100 \<longleftrightarrow> p * of_int tot \<le> of_int (s + c) * 100"
    using assms by (simp add: field_simps)
  show ?case
  proof (cases "p \<le> of_int (s + c) / of_int tot * 100")
    case True
    with t assms show ?thesis by (intro disjI1 exI [of _ 0]) simp
  next
    case False
    then have n: "of_int (s + c) * 100 < p * of_int tot" using t by linarith
    have l: "percentile_loop p tot (c # cs) i s = percentile_loop p tot cs (i + 1) (s + c)" using False by simp
    from Cons.IH [of "i + 1" "s + c"] show ?thesis
    proof
      assume "\<exists>k<length cs. percentile_loop p tot cs (i + 1) (s + c) = i + 1 + int k \<and>
        p * of_int tot \<le> of_int (s + c + sum_list (take (Suc k) cs)) * 100 \<and>
        (\<forall>j<k. of_int (s + c + sum_list (take (Suc j) cs)) * 100 < p * of_int tot)"
      then obtain k where k: "k < length cs" "percentile_loop p tot cs (i + 1) (s + c) = i + 1 + int k"
        "p * of_int tot \<le> of_int (s + c + sum_list (take (Suc k) cs)) * 100"
        "\<forall>j<k. of_int (s + c + sum_list (take (Suc j) cs)) * 100 < p * of_int tot" by blast
      have "of_int (s + sum_list (take (Suc j) (c # cs))) * 100 < p * of_int tot" if "j < Suc k" for j
        using that n k(4) by (cases j) (simp_all add: add.assoc)
      then show ?thesis using k(1-3) unfolding l by (intro disjI1 exI [of _ "Suc k"]) (simp add: add.assoc)
    next
      assume a: "\<forall>j<length cs. of_int (s + c + sum_list (take (Suc j) cs)) * 100 < p * of_int tot"
      have "of_int (s + sum_list (take (Suc j) (c # cs))) * 100 < p * of_int tot" if "j < Suc (length cs)" for j
        using that n a by (cases j) (simp_all add: add.assoc)
      then show ?thesis by simp
    qed
  qed
qed simp

text \<open>\<open>percentile(p)\<close> of a non-empty histogram, \<open>0 \<le> p \<le> 100\<close>, is the first bucket up to which
  at least \<open>p\<close> percent of the values were counted; the "should not reach here" is never reached.\<close>

theorem percentile_spec:
  assumes "hist_wf h" "0 < hist_size h" "0 \<le> p" "p \<le> 100"
  shows "\<exists>i<nr_buckets h. percentile p h = int i \<and>
    p * of_int (hist_size h) \<le> of_int (sum_list (take (Suc i) (buckets h))) * 100 \<and>
    (\<forall>j<i. of_int (sum_list (take (Suc j) (buckets h))) * 100 < p * of_int (hist_size h))"
proof -
  have l: "length (buckets h) = nr_buckets h" "0 < nr_buckets h" using assms(1) by (simp_all add: hist_wf_def)
  have s: "hist_size h = sum_list (buckets h)" by (simp add: hist_size_def foldl_plus)
  have "\<not> (\<forall>j<length (buckets h). of_int (sum_list (take (Suc j) (buckets h))) * 100 < p * of_int (hist_size h))"
  proof
    assume a: "\<forall>j<length (buckets h). of_int (sum_list (take (Suc j) (buckets h))) * 100 < p * of_int (hist_size h)"
    then have "of_int (hist_size h) * 100 < p * of_int (hist_size h)"
      using l s a [rule_format, of "length (buckets h) - 1"] by simp
    then show False using assms(2,4) by (simp add: mult.commute)
  qed
  with percentile_loop_spec [OF assms(2), of "buckets h" p 0 0]
  have "\<exists>k<length (buckets h). percentile_loop p (hist_size h) (buckets h) 0 0 = 0 + int k \<and>
      p * of_int (hist_size h) \<le> of_int (0 + sum_list (take (Suc k) (buckets h))) * 100 \<and>
      (\<forall>j<k. of_int (0 + sum_list (take (Suc j) (buckets h))) * 100 < p * of_int (hist_size h))"
    by (simp only: add_0) blast
  with assms(3,4) l show ?thesis by (simp add: percentile_def)
qed

lemma percentile_spec_witness: "\<exists>i<3. percentile 50 \<lparr>nr_buckets = 3, min_value = 0, max_value = 3, bucket_width = 1, buckets = [1, 2, 1]\<rparr> = int i"
proof -
  let ?h = "\<lparr>nr_buckets = 3, min_value = 0, max_value = 3, bucket_width = 1, buckets = [1, 2, 1]\<rparr>"
  have "hist_wf ?h" "0 < hist_size ?h" "0 \<le> (50 :: rat)" "(50 :: rat) \<le> 100" by (simp_all add: hist_wf_def hist_size_def)
  from percentile_spec [OF this] show ?thesis by auto
qed

section \<open>Merging\<close>

definition same_shape :: "histogram \<Rightarrow> histogram \<Rightarrow> bool" where
  "same_shape h g \<longleftrightarrow> nr_buckets h = nr_buckets g \<and> min_value h = min_value g \<and> max_value h = max_value g \<and>
     bucket_width h = bucket_width g \<and> length (buckets h) = length (buckets g)"

lemma sum_list_bump: "i < length xs \<Longrightarrow> sum_list (xs[i := xs ! i + c]) = sum_list xs + (c :: int)"
  by (induction xs arbitrary: i) (auto split: nat.split)

lemma merge_into_ok:
  assumes "\<forall>i\<in>set is. min_value h \<le> get_value a (int i) \<and> get_value a (int i) < max_value h"
    and "0 < nr_buckets h" "min_value h < max_value h" "length (buckets h) = nr_buckets h"
    and "bucket_width h = (max_value h - min_value h) / of_nat (nr_buckets h)"
  shows "\<exists>h'. merge_into a is h = Ret h' \<and> same_shape h' h \<and>
    sum_list (buckets h') = sum_list (buckets h) + sum_list (map (\<lambda>i. get_count a (int i)) is)"
  using assms
proof (induction "is" arbitrary: h)
  case (Cons i js)
  let ?b = "get_bucket h (get_value a (int i))"
  let ?g = "h\<lparr>buckets := replicate (nr_buckets h) 0\<rparr>"
  have "hist_wf ?g" using Cons.prems by (simp add: hist_wf_def)
  from get_bucket_range [OF this, of "get_value a (int i)"] Cons.prems(1)
  have b: "0 \<le> ?b" "?b < int (nr_buckets h)" by (simp_all add: get_bucket_def)
  let ?h = "h\<lparr>buckets := (buckets h)[nat ?b := buckets h ! nat ?b + get_count a (int i)]\<rparr>"
  have "bump ?b (get_count a (int i)) h = Ret ?h" using b Cons.prems(4) by (simp add: bump_def)
  moreover from Cons.IH [of ?h] Cons.prems obtain h' where "merge_into a js ?h = Ret h'" "same_shape h' ?h"
    "sum_list (buckets h') = sum_list (buckets ?h) + sum_list (map (\<lambda>i. get_count a (int i)) js)" by auto
  ultimately show ?case
    using b Cons.prems(4) by (auto simp: same_shape_def sum_list_bump)
qed (simp add: same_shape_def)

lemma get_value_range: "hist_wf a \<Longrightarrow> i < nr_buckets a \<Longrightarrow> min_value a \<le> get_value a (int i) \<and> get_value a (int i) < max_value a"
proof -
  assume a: "hist_wf a" "i < nr_buckets a"
  note w = hist_width [OF a(1)]
  have "bucket_width a * of_nat i < bucket_width a * of_nat (nr_buckets a)"
    using w a(2) by (intro mult_strict_left_mono) simp_all
  then have "bucket_width a * of_nat i < max_value a - min_value a" using w by simp
  moreover have "0 \<le> bucket_width a * of_nat i" using w by simp
  ultimately show ?thesis using w a(2) by (simp add: get_value_def)
qed

lemma counts_sum: "hist_wf a \<Longrightarrow> sum_list (map (\<lambda>i. get_count a (int i)) [0..<nr_buckets a]) = hist_size a"
proof -
  assume a: "hist_wf a"
  have "map (\<lambda>i. get_count a (int i)) [0..<nr_buckets a] = map ((!) (buckets a)) [0..<nr_buckets a]"
    by (simp add: get_count_def)
  also have "\<dots> = buckets a" using a by (metis hist_wf_def map_nth)
  finally show ?thesis by (simp add: hist_size_def foldl_plus)
qed

text \<open>\<open>merge(a, b)\<close> keeps every count when the range of \<open>a\<close> begins first. It takes the minimum
  of \<open>a.min_value\<close> and \<open>b.max_value\<close> for the new lower end, so when \<open>b\<close> begins more than a new
  bucket below \<open>a\<close> the first bucket of \<open>b\<close> is written in front of the vector.\<close>

theorem merge_spec:
  assumes "hist_wf a" "hist_wf b" "min_value a \<le> max_value b"
  shows "(min_value a \<le> min_value b \<longrightarrow> (\<exists>h. merge a b = Ret h \<and> hist_size h = hist_size a + hist_size b)) \<and>
    (min_value b + (max (max_value a) (max_value b) - min_value a) / of_nat (max (nr_buckets a) (nr_buckets b)) \<le> min_value a
      \<longrightarrow> merge a b = UB)"
proof -
  let ?n = "max (nr_buckets a) (nr_buckets b)" and ?hi = "max (max_value a) (max_value b)"
  let ?h0 = "histogram_ctor ?n (min_value a) ?hi"
  have m: "min (min_value a) (max_value b) = min_value a" using assms(3) by simp
  have ab: "0 < nr_buckets a" "min_value a < max_value a" using assms(1) by (simp_all add: hist_wf_def)
  have h0: "0 < nr_buckets ?h0" "min_value ?h0 < max_value ?h0" "length (buckets ?h0) = nr_buckets ?h0"
    "bucket_width ?h0 = (max_value ?h0 - min_value ?h0) / of_nat (nr_buckets ?h0)"
    using ab by (auto simp: histogram_ctor_def)
  have ia: "\<forall>i\<in>set [0..<nr_buckets a]. min_value ?h0 \<le> get_value a (int i) \<and> get_value a (int i) < max_value ?h0"
    using get_value_range [OF assms(1)] by (force simp: histogram_ctor_def)
  have z: "sum_list (buckets ?h0) = 0" by (simp add: histogram_ctor_def sum_list_replicate)
  from merge_into_ok [OF ia h0] counts_sum [OF assms(1)] obtain h1 where h1: "merge_into a [0..<nr_buckets a] ?h0 = Ret h1"
    "same_shape h1 ?h0" "sum_list (buckets h1) = hist_size a" using z by auto
  have sh: "nr_buckets h1 = ?n" "min_value h1 = min_value a" "max_value h1 = ?hi" "length (buckets h1) = ?n"
    "bucket_width h1 = (?hi - min_value a) / of_nat ?n"
    using h1(2) by (simp_all add: same_shape_def histogram_ctor_def)
  have mg: "merge a b = merge_into b [0..<nr_buckets b] h1" unfolding merge_def m using h1(1) by simp
  show ?thesis
  proof (intro conjI impI)
    assume "min_value a \<le> min_value b"
    then have "\<forall>i\<in>set [0..<nr_buckets b]. min_value h1 \<le> get_value b (int i) \<and> get_value b (int i) < max_value h1"
      using get_value_range [OF assms(2)] sh by force
    from merge_into_ok [OF this] sh ab counts_sum [OF assms(2)] h1(3) show "\<exists>h. merge a b = Ret h \<and> hist_size h = hist_size a + hist_size b"
      unfolding mg by (auto simp: hist_size_def foldl_plus less_max_iff_disj)
  next
    assume u: "min_value b + (?hi - min_value a) / of_nat ?n \<le> min_value a"
    have w: "0 < bucket_width h1" using sh(5) ab by (auto simp: less_max_iff_disj)
    have nb: "0 < nr_buckets b" using assms(2) by (simp add: hist_wf_def)
    have "min_value b + bucket_width h1 \<le> min_value a" using u by (simp only: sh(5))
    then have "(min_value b - min_value a) / bucket_width h1 \<le> -1"
      using w by (simp add: pos_divide_le_eq)
    then have "get_bucket h1 (get_value b 0) < 0"
      using nb by (auto simp: get_bucket_def truncate_def get_value_def sh(2) ceiling_le_iff less_le_trans)
    then have "bump (get_bucket h1 (get_value b 0)) (get_count b 0) h1 = UB" by (simp add: bump_def)
    moreover have "[0..<nr_buckets b] = 0 # [1..<nr_buckets b]" using nb by (simp add: upt_rec)
    ultimately show "merge a b = UB" unfolding mg by simp
  qed
qed

lemma merge_spec_witness: "merge (histogram_ctor 10 10 20) (histogram_ctor 10 0 20) = UB"
proof -
  have "hist_wf (histogram_ctor 10 10 20)" "hist_wf (histogram_ctor 10 0 20)"
    "min_value (histogram_ctor 10 10 20) \<le> max_value (histogram_ctor 10 0 20)"
    by (simp_all add: hist_wf_def histogram_ctor_def)
  from merge_spec [OF this] show ?thesis by (simp add: histogram_ctor_def)
qed

end
