(* ===== verification/Zipf.thy ===== *)
theory Zipf
  imports Statistic
begin

text \<open>
  statistic.h: \<open>stddeviation\<close> and \<open>zipf_distribution\<close>, over the real numbers (without rounding). The generator and
  \<open>std::uniform_real_distribution\<close> are the list of the numbers in \<open>[0, 1)\<close> that are drawn; the loop of
  \<open>operator()\<close> ends without a result (\<open>None\<close>) when the list does.
\<close>

section \<open>Standard deviation\<close>

definition stddeviation :: "rat list \<Rightarrow> real" where
  "stddeviation xs = sqrt (of_rat (variance xs))"

definition stddeviation_op :: "(rat \<Rightarrow> rat \<Rightarrow> rat) \<Rightarrow> rat list \<Rightarrow> real" where
  "stddeviation_op f xs = sqrt (of_rat (variance_op f xs))"

section \<open>The distribution\<close>

record zipf =
  m_max :: int
  m_theta :: real
  m_c :: real
  m_q :: real
  m_h :: real
  m_v :: real

definition zeta :: "real \<Rightarrow> int \<Rightarrow> real" where
  "zeta theta n = foldl (\<lambda>sum i. sum + real_of_int i powr (- theta)) 0 [1..n]"

definition harmonic :: "zipf \<Rightarrow> int \<Rightarrow> real" where
  "harmonic z n = m_c z * zeta (m_theta z) n"

text \<open>\<open>v\<close> is the number drawn from the object's own generator. \<open>std::pow\<close> of a positive base is \<open>powr\<close>: the
  model is for \<open>max \<ge> 1\<close>.\<close>

definition zipf_ctor :: "int \<Rightarrow> real \<Rightarrow> real \<Rightarrow> zipf" where
  "zipf_ctor mx theta v =
     (let z = \<lparr>m_max = mx, m_theta = theta, m_c = real_of_int mx powr (- theta) / zeta theta mx, m_q = 2 powr (- theta), m_h = 0, m_v = v\<rparr>
      in z\<lparr>m_h := harmonic z mx\<rparr>)"

text \<open>The bound below which the second number accepts \<open>k\<close>.\<close>

definition zipf_bound :: "zipf \<Rightarrow> int \<Rightarrow> real" where
  "zipf_bound z k = m_q z * (real_of_int k + 1) powr m_theta z / (m_h z + real_of_int k)"

fun zipf_next :: "zipf \<Rightarrow> real list \<Rightarrow> (int \<times> zipf \<times> real list) option" where
  "zipf_next z [] = None"
| "zipf_next z (d # ds) =
     (let u = d - 1 / 2; y = \<lfloor>(real_of_int (m_max z) + 1 / 2) powr (m_v z - u) - 1 / 2\<rfloor>
      in if y < 1 \<or> y > m_max z then zipf_next z ds
         else case ds of
             [] \<Rightarrow> None
           | e # ds' \<Rightarrow> let k = y; z' = z\<lparr>m_v := e\<rparr> in
               if e \<ge> zipf_bound z' k then zipf_next z' ds' else Some (k - 1, z', ds'))"

section \<open>Properties\<close>

lemma stddeviation_square:
  assumes "xs \<noteq> []"
  shows "0 \<le> stddeviation xs \<and> stddeviation xs ^ 2 = of_rat (average (map (\<lambda>x. x * x) xs) - average xs * average xs)"
proof -
  have "variance xs = average (map (\<lambda>x. x * x) xs) - average xs * average xs" "0 \<le> variance xs"
    using variance_moments [OF assms] by simp_all
  then show ?thesis by (simp add: stddeviation_def flip: of_rat_mult)
qed

text \<open>The numbers \<open>m_c\<close> and \<open>zeta\<close> cancel: \<open>m_h\<close> is a power of \<open>max\<close>, not a harmonic number.\<close>

lemma zeta_pos: "1 \<le> n \<Longrightarrow> 0 < zeta theta n"
proof -
  assume n: "1 \<le> n"
  have "zeta theta n = (\<Sum>i\<leftarrow>[1..n]. real_of_int i powr (- theta))" by (simp add: zeta_def foldl_sum)
  also have "[1..n] = 1 # [2..n]" using n by (subst upto_rec1) simp_all
  finally have "zeta theta n = 1 + (\<Sum>i\<leftarrow>[2..n]. real_of_int i powr (- theta))" by simp
  moreover have "0 \<le> (\<Sum>i\<leftarrow>[2..n]. real_of_int i powr (- theta))" by (rule sum_list_nonneg) auto
  ultimately show ?thesis by linarith
qed

lemma zipf_ctor_h: "1 \<le> mx \<Longrightarrow> m_h (zipf_ctor mx theta v) = real_of_int mx powr (- theta)"
  using zeta_pos [of mx theta] by (simp add: zipf_ctor_def harmonic_def Let_def)

text \<open>Whatever is drawn, a result is a number in \<open>[0, max)\<close>, and at least two draws are used up.\<close>

theorem zipf_range:
  assumes "zipf_next z ds = Some (r, z', rest)"
  shows "0 \<le> r \<and> r < m_max z \<and> (\<exists>v. z' = z\<lparr>m_v := v\<rparr> \<and> v \<in> set ds \<and> v < zipf_bound z' (r + 1)) \<and> (\<exists>k\<ge>2. rest = drop k ds)"
  using assms
proof (induction z ds rule: zipf_next.induct)
  case (2 z d ds)
  let ?y = "\<lfloor>(real_of_int (m_max z) + 1 / 2) powr (m_v z - (d - 1 / 2)) - 1 / 2\<rfloor>"
  have lift: "\<exists>k\<ge>2. rest = drop k (a # xs)" if "\<exists>k\<ge>2. rest = drop k xs" for xs :: "real list" and a
    using that by (metis Suc_le_mono drop_Suc_Cons le_SucI)
  show ?case
  proof (cases "?y < 1 \<or> ?y > m_max z")
    case True
    then have "zipf_next z ds = Some (r, z', rest)" using 2(3) by (simp add: Let_def)
    then show ?thesis using 2(1) [OF refl refl] True lift by auto
  next
    case in_range: False
    then obtain e ds' where ds: "ds = e # ds'" using 2(3) by (cases ds) (simp_all add: Let_def)
    show ?thesis
    proof (cases "e \<ge> zipf_bound (z\<lparr>m_v := e\<rparr>) ?y")
      case True
      then have "zipf_next (z\<lparr>m_v := e\<rparr>) ds' = Some (r, z', rest)" using 2(3) in_range ds by (simp add: Let_def)
      then show ?thesis using 2(2) [OF refl refl in_range ds refl refl] True lift [OF lift] unfolding ds by auto
    next
      case False
      then have e: "r = ?y - 1" "z' = z\<lparr>m_v := e\<rparr>" "rest = ds'" using 2(3) in_range ds by (simp_all add: Let_def)
      have "rest = drop 2 (d # ds)" using e(3) ds by simp
      then show ?thesis using e(1,2) False in_range ds by (auto intro: exI [of _ 2])
    qed
  qed
qed simp

lemma zipf_range_witness: "\<exists>z' rest. zipf_next (zipf_ctor 1 1 (1 / 2)) [0, 1 / 4, 3 / 4] = Some (0, z', rest) \<and> 0 \<le> (0 :: int)"
proof -
  have c: "zipf_ctor 1 1 (1 / 2) = \<lparr>m_max = 1, m_theta = 1, m_c = 1, m_q = 1 / 2, m_h = 1, m_v = 1 / 2\<rparr>"
    by (simp add: zipf_ctor_def harmonic_def zeta_def Let_def powr_minus)
  have "zipf_next (zipf_ctor 1 1 (1 / 2)) [0, 1 / 4, 3 / 4] = Some (0, (zipf_ctor 1 1 (1 / 2))\<lparr>m_v := 1 / 4\<rparr>, [3 / 4])"
    unfolding c by (simp add: zipf_bound_def Let_def)
  then show ?thesis using zipf_range [of "zipf_ctor 1 1 (1 / 2)"] by blast
qed

text \<open>The comment promises \<open>P(X = k) = C / k ^ theta\<close>, where a larger \<open>theta\<close> makes large numbers rarer. In the code a larger
  \<open>theta\<close> only raises the bounds of acceptance, and from \<open>theta = 2\<close> on all \<open>k \<ge> 3\<close> are always accepted while 1 is not.\<close>

lemma zipf_bound_ctor:
  assumes "1 \<le> mx" "1 \<le> k"
  shows "zipf_bound (zipf_ctor mx theta v) k = ((real_of_int k + 1) / 2) powr theta / (real_of_int mx powr (- theta) + real_of_int k)"
proof -
  have "m_q (zipf_ctor mx theta v) = 2 powr (- theta)" "m_theta (zipf_ctor mx theta v) = theta"
    by (simp_all add: zipf_ctor_def Let_def)
  moreover have "2 powr (- theta) * (real_of_int k + 1) powr theta = ((real_of_int k + 1) / 2) powr theta"
    using assms(2) by (simp add: powr_divide powr_minus_divide)
  ultimately show ?thesis by (simp add: zipf_bound_def zipf_ctor_h [OF assms(1)])
qed

theorem zipf_skew_reversed:
  assumes "1 \<le> mx" "1 \<le> k" "theta \<le> theta'"
  shows "zipf_bound (zipf_ctor mx theta v) k \<le> zipf_bound (zipf_ctor mx theta' v') k"
    "2 \<le> theta \<Longrightarrow> 3 \<le> k \<Longrightarrow> 1 \<le> zipf_bound (zipf_ctor mx theta v) k" "zipf_bound (zipf_ctor mx theta v) 1 < 1"
proof -
  have mx: "1 \<le> real_of_int mx" and k: "1 \<le> (real_of_int k + 1) / 2" using assms(1,2) by simp_all
  have d: "0 < real_of_int mx powr (- t) + real_of_int k" for t using mx assms(2) by (simp add: add_pos_pos)
  have "((real_of_int k + 1) / 2) powr theta \<le> ((real_of_int k + 1) / 2) powr theta'" using k assms(3) by (rule powr_mono [rotated])
  moreover have "real_of_int mx powr (- theta') \<le> real_of_int mx powr (- theta)" using mx assms(3) by (intro powr_mono) simp_all
  ultimately show "zipf_bound (zipf_ctor mx theta v) k \<le> zipf_bound (zipf_ctor mx theta' v') k"
    unfolding zipf_bound_ctor [OF assms(1,2)] using d k by (intro frac_le) simp_all
  show "1 \<le> zipf_bound (zipf_ctor mx theta v) k" if "2 \<le> theta" "3 \<le> k"
  proof -
    have h: "real_of_int mx powr (- theta) \<le> 1" using mx that(1) powr_mono [of "- theta" 0 "real_of_int mx"] by simp
    have "((real_of_int k + 1) / 2) powr 2 \<le> ((real_of_int k + 1) / 2) powr theta" using k that(1) by (intro powr_mono)
    moreover have "real_of_int k + 1 \<le> ((real_of_int k + 1) / 2) powr 2"
    proof -
      have "4 * (real_of_int k + 1) \<le> (real_of_int k + 1) * (real_of_int k + 1)" using that(2) by (intro mult_right_mono) simp_all
      then show ?thesis using k by (simp add: power2_eq_square powr_numeral)
    qed
    ultimately have "real_of_int mx powr (- theta) + real_of_int k \<le> ((real_of_int k + 1) / 2) powr theta" using h by linarith
    then show ?thesis unfolding zipf_bound_ctor [OF assms(1,2)] using d by (simp add: le_divide_eq)
  qed
  define p where "p = real_of_int mx powr (- theta)"
  have "0 < p" using mx by (simp add: p_def)
  moreover have "zipf_bound (zipf_ctor mx theta v) 1 = 1 / (p + 1)" using zipf_bound_ctor [OF assms(1), of 1] by (simp add: p_def)
  ultimately show "zipf_bound (zipf_ctor mx theta v) 1 < 1" by (simp add: divide_less_eq)
qed

text \<open>The loop need not end: numbers of at least \<open>m_v + 1 / 2\<close> are passed over.\<close>

lemma zipf_next_endless:
  assumes "1 \<le> m_max z" "\<forall>d\<in>set ds. m_v z + 1 / 2 \<le> d"
  shows "zipf_next z ds = None"
  using assms(2)
proof (induction ds)
  case (Cons d ds)
  have "(real_of_int (m_max z) + 1 / 2) powr (m_v z - (d - 1 / 2)) \<le> (real_of_int (m_max z) + 1 / 2) powr 0"
    using Cons.prems assms(1) by (intro powr_mono) simp_all
  then have "\<lfloor>(real_of_int (m_max z) + 1 / 2) powr (m_v z - (d - 1 / 2)) - 1 / 2\<rfloor> < 1" using assms(1) by (simp add: floor_less_iff)
  then show ?case using Cons by (simp add: Let_def)
qed simp

end
