(* ===== verification/Function_Traits.thy ===== *)
theory Function_Traits
  imports Prelude
begin

text \<open>
  function_traits.h: what the templates compute from a C++ type. A type that no partial specialisation matches is
  taken for a class with a call operator; \<open>call_op\<close> gives the type of \<open>&T::operator()\<close>, and None when \<open>T\<close> is no class or has
  no call operator or several. A result of None means that the program does not compile.
\<close>

section \<open>Types\<close>

text \<open>The qualifiers of a function type: none, \<open>const\<close>, or others (\<open>volatile\<close>, \<open>&\<close>, \<open>noexcept\<close>, ...).\<close>

datatype fun_qual = Plain | Const | Other

datatype cpp_type =
    TName string
  | TFun cpp_type "cpp_type list" fun_qual
  | TPtr cpp_type
  | TRef cpp_type
  | TMember cpp_type cpp_type

section \<open>The traits\<close>

record traits =
  result_type :: cpp_type
  args_tuple_type :: "cpp_type list"
  class_type :: "cpp_type option"

definition function_traits_helper :: "cpp_type \<Rightarrow> cpp_type list \<Rightarrow> traits" where
  "function_traits_helper r args = \<lparr>result_type = r, args_tuple_type = args, class_type = None\<rparr>"

definition traits_count :: "traits \<Rightarrow> nat" where
  "traits_count f = length (args_tuple_type f)"

definition args_type :: "nat \<Rightarrow> traits \<Rightarrow> cpp_type option" where
  "args_type n f = (if n < length (args_tuple_type f) then Some (args_tuple_type f ! n) else None)"

text \<open>The partial specialisations.\<close>

fun traits_special :: "cpp_type \<Rightarrow> traits option" where
  "traits_special (TFun r args Plain) = Some (function_traits_helper r args)"
| "traits_special (TFun r args Const) = Some (function_traits_helper r args)"
| "traits_special (TPtr (TFun r args Plain)) = Some (function_traits_helper r args)"
| "traits_special (TRef (TFun r args Plain)) = Some (function_traits_helper r args)"
| "traits_special (TMember c (TFun r args Plain)) = Some ((function_traits_helper r args)\<lparr>class_type := Some c\<rparr>)"
| "traits_special (TMember c (TFun r args Const)) = Some ((function_traits_helper r args)\<lparr>class_type := Some c\<rparr>)"
| "traits_special t = None"

text \<open>The primary template. \<open>&T::operator()\<close> is a pointer and no class, so one unfolding is enough.\<close>

definition function_traits :: "(cpp_type \<Rightarrow> cpp_type option) \<Rightarrow> cpp_type \<Rightarrow> traits option" where
  "function_traits call_op t =
    (case traits_special t of
       Some f \<Rightarrow> Some f
     | None \<Rightarrow> (case call_op t of None \<Rightarrow> None | Some u \<Rightarrow> traits_special u))"

section \<open>What users of the traits rely on\<close>

text \<open>A lambda and a pointer to a function with the same signature have the same result and arguments, as
  \<open>cached_bind\<close> needs; the class is that of the lambda.\<close>

lemma traits_of_functor:
  assumes "call_op (TName f) = Some (TMember (TName f) (TFun r args q))" "q \<noteq> Other"
  shows "\<exists>a b. function_traits call_op (TName f) = Some a \<and> function_traits call_op (TPtr (TFun r args Plain)) = Some b \<and>
    result_type a = r \<and> args_tuple_type a = args \<and> class_type a = Some (TName f) \<and>
    result_type b = r \<and> args_tuple_type b = args \<and> class_type b = None"
  using assms by (cases q) (simp_all add: function_traits_def function_traits_helper_def)

lemma args_type_count: "args_type n f \<noteq> None \<longleftrightarrow> n < traits_count f"
  by (simp add: args_type_def traits_count_def)

text \<open>A call operator that is \<open>noexcept\<close> has no traits (since C++17 that is part of the type), nor has a reference to a functor.\<close>

lemma traits_noexcept:
  assumes "call_op (TName f) = Some (TMember (TName f) (TFun r args Other))" "call_op (TRef (TName f)) = None"
  shows "function_traits call_op (TName f) = None" "function_traits call_op (TRef (TName f)) = None"
  using assms by (simp_all add: function_traits_def)

end
