(* ===== verification/Pthread_Wrappers.thy ===== *)
theory Pthread_Wrappers
  imports Prelude
begin

text \<open>
  extend_mutex.h: \<open>shared_mutex\<close>, \<open>spin_mutex\<close> and \<open>barrier_t\<close>, whose methods are calls of pthread functions. Those are
  parameters: from the state of the object they give its new state and their return code; a call that blocks is \<open>Spin\<close>.
\<close>

record 'l pthread_rwlock =
  pt_rwlock_init :: "'l \<Rightarrow> 'l \<times> int"
  pt_rwlock_destroy :: "'l \<Rightarrow> 'l \<times> int"
  pt_rwlock_rdlock :: "'l \<Rightarrow> ('l \<times> int) run"
  pt_rwlock_tryrdlock :: "'l \<Rightarrow> 'l \<times> int"
  pt_rwlock_trywrlock :: "'l \<Rightarrow> 'l \<times> int"
  pt_rwlock_wrlock :: "'l \<Rightarrow> ('l \<times> int) run"
  pt_rwlock_unlock :: "'l \<Rightarrow> 'l \<times> int"

section \<open>\<open>shared_mutex\<close>\<close>

definition pshared_ctor :: "'l pthread_rwlock \<Rightarrow> 'l \<Rightarrow> 'l" where
  "pshared_ctor p l = fst (pt_rwlock_init p l)"

definition pshared_dtor :: "'l pthread_rwlock \<Rightarrow> 'l \<Rightarrow> 'l" where
  "pshared_dtor p l = fst (pt_rwlock_destroy p l)"

definition pshared_lock_shared :: "'l pthread_rwlock \<Rightarrow> 'l \<Rightarrow> 'l run" where
  "pshared_lock_shared p l = run_bind (pt_rwlock_rdlock p l) (\<lambda>(l', r). Ret l')"

definition pshared_try_lock_shared :: "'l pthread_rwlock \<Rightarrow> 'l \<Rightarrow> bool \<times> 'l" where
  "pshared_try_lock_shared p l = (let (l', r) = pt_rwlock_tryrdlock p l in (r = 0, l'))"

definition pshared_try_lock :: "'l pthread_rwlock \<Rightarrow> 'l \<Rightarrow> bool \<times> 'l" where
  "pshared_try_lock p l = (let (l', r) = pt_rwlock_trywrlock p l in (r = 0, l'))"

definition pshared_lock :: "'l pthread_rwlock \<Rightarrow> 'l \<Rightarrow> 'l run" where
  "pshared_lock p l = run_bind (pt_rwlock_wrlock p l) (\<lambda>(l', r). Ret l')"

definition pshared_unlock :: "'l pthread_rwlock \<Rightarrow> 'l \<Rightarrow> 'l" where
  "pshared_unlock p l = fst (pt_rwlock_unlock p l)"

text \<open>\<open>lock_shared\<close> and \<open>lock\<close> return normally also when pthread reports an error (too many readers, a deadlock) and
  the lock was not taken.\<close>

lemma pshared_error_ignored:
  "pt_rwlock_rdlock p l = Ret (l, e) \<Longrightarrow> pshared_lock_shared p l = Ret l"
  "pt_rwlock_wrlock p l = Ret (l, e) \<Longrightarrow> pshared_lock p l = Ret l"
  by (simp_all add: pshared_lock_shared_def pshared_lock_def)

text \<open>The \<open>try\<close> methods report what they did, when a failing pthread call leaves the lock alone.\<close>

lemma pshared_try:
  assumes "\<And>l l' r. pt_rwlock_trywrlock p l = (l', r) \<Longrightarrow> r \<noteq> 0 \<Longrightarrow> l' = l" "pshared_try_lock p l = (b, l')"
  shows "if b then pt_rwlock_trywrlock p l = (l', 0) else l' = l"
  using assms(1) [of l] assms(2) by (auto simp: pshared_try_lock_def split: prod.splits)

section \<open>\<open>spin_mutex\<close>\<close>

record 'l pthread_spin =
  pt_spin_init :: "int \<Rightarrow> 'l \<Rightarrow> 'l \<times> int"
  pt_spin_destroy :: "'l \<Rightarrow> 'l \<times> int"
  pt_spin_lock :: "'l \<Rightarrow> ('l \<times> int) run"
  pt_spin_trylock :: "'l \<Rightarrow> 'l \<times> int"
  pt_spin_unlock :: "'l \<Rightarrow> 'l \<times> int"

definition pspin_ctor :: "'l pthread_spin \<Rightarrow> int \<Rightarrow> 'l \<Rightarrow> 'l" where
  "pspin_ctor p pshared l = fst (pt_spin_init p pshared l)"

definition pspin_dtor :: "'l pthread_spin \<Rightarrow> 'l \<Rightarrow> 'l" where
  "pspin_dtor p l = fst (pt_spin_destroy p l)"

definition pspin_lock :: "'l pthread_spin \<Rightarrow> 'l \<Rightarrow> 'l run" where
  "pspin_lock p l = run_bind (pt_spin_lock p l) (\<lambda>(l', r). Ret l')"

definition pspin_try_lock :: "'l pthread_spin \<Rightarrow> 'l \<Rightarrow> bool \<times> 'l" where
  "pspin_try_lock p l = (let (l', r) = pt_spin_trylock p l in (r = 0, l'))"

definition pspin_unlock :: "'l pthread_spin \<Rightarrow> 'l \<Rightarrow> 'l" where
  "pspin_unlock p l = fst (pt_spin_unlock p l)"

section \<open>\<open>barrier_t\<close>\<close>

record 'l pthread_barrier =
  pt_barrier_init :: "u32 \<Rightarrow> 'l \<Rightarrow> 'l \<times> int"
  pt_barrier_destroy :: "'l \<Rightarrow> 'l \<times> int"
  pt_barrier_wait :: "'l \<Rightarrow> ('l \<times> int) run"

definition barrier_ctor_default :: "'l pthread_barrier \<Rightarrow> 'l \<Rightarrow> 'l" where
  "barrier_ctor_default p b = fst (pt_barrier_init p 0 b)"

definition barrier_ctor :: "'l pthread_barrier \<Rightarrow> u32 \<Rightarrow> 'l \<Rightarrow> 'l" where
  "barrier_ctor p count b = fst (pt_barrier_init p count b)"

definition barrier_dtor :: "'l pthread_barrier \<Rightarrow> 'l \<Rightarrow> 'l" where
  "barrier_dtor p b = fst (pt_barrier_destroy p b)"

definition barrier_wait :: "'l pthread_barrier \<Rightarrow> 'l \<Rightarrow> 'l run" where
  "barrier_wait p b = run_bind (pt_barrier_wait p b) (\<lambda>(b', r). Ret b')"

text \<open>\<open>pthread_barrier_init\<close> fails with \<open>EINVAL\<close> for the count 0 and leaves the object as it is: a barrier built by the
  default constructor is not initialised.\<close>

lemma barrier_default_uninitialised:
  assumes "\<And>b. pt_barrier_init p 0 b = (b, 22)"
  shows "barrier_ctor_default p b = b"
  using assms by (simp add: barrier_ctor_default_def)

end
