(* ===== verification/Spec2Isabelle.thy ===== *)
theory Spec2Isabelle
  imports ConQueue_Contract ConQueue_Conc_Properties CLQueue_Conc_Properties Atomic_Queue_Conc2 Bench_Conc Bench_ConQ Spin_Mutex Ticket_Mutex Shared_Mutex
    Dlog_Properties Extend_New_Properties
    Intention_Mutex Tcq_Result Seg_Properties Lru_Properties Memo Pl_Allocator Thread_Pool Csv Zipf Function_Traits Pthread_Wrappers
begin

text \<open>
  Verification of usable_lib, a library of C++ headers (and a queue benchmark) for concurrent data
  structures, locks, allocators, caches and statistics. Every class is a component of its own; the
  benchmark composes the queues, TCQueue uses two of the locks, and the allocators share one contract.

  \<^bold>\<open>Conventions.\<close> A class is a record with the members as fields, and a method a function on it. A run that
  can go wrong has a result \<open>'a run\<close> (Prelude): \<open>Ret\<close>, \<open>Throw\<close> (a C++ exception), \<open>UB\<close> (undefined
  behaviour: an access outside an array, to a dead object, to a null pointer) or \<open>Spin\<close> (a busy wait
  that only another thread can end). 8-, 16-, 32- and 64-bit integers are words and wrap. Concurrent
  code is a step relation: one access to a shared variable by one thread is one step, any thread may
  take the next one, memory is sequentially consistent (the memory orders of the sources are not
  modelled). Fields that record what was called or returned (history) are never read by a step. A \<open>double\<close> is
  an exact rational or real number. Code of the user (tasks, hooks, bound functions, constructors, hash functions), \<open>malloc\<close>
  and the file system are arguments or explicit states.

  \<^bold>\<open>Shared theories.\<close> Prelude (types, results, lemma collections); Ring_Window (positions that wrap, the
  cells of a ring, rounding up to a power of two); Queue_Interface (locales: the contract of a bounded
  first-in first-out queue, and its runs); Transition (locales: step relations with an invariant,
  forward simulation, locks); Allocator_Interface and Segments (the contract of an allocator of address ranges); Ordered_Map
  (\<open>std::map\<close> and \<open>std::set\<close>). Every locale is interpreted on the model of the code that provides it.

  \<^bold>\<open>conqueue.h, ConQueue.\<close> ConQueue has the constructor, observers, \<open>clear\<close>, the destructor and
  \<open>emplace\<close>, \<open>push_bulk\<close>, \<open>pop\<close>, \<open>pop_bulk\<close> with their three modes per end as one thread runs them;
  ConQueue_Seq and ConQueue_Contract prove the bounded-queue contract for all modes and layouts, what
  the bulk operations do, and the cases outside it (the single-consumer \<open>pop_bulk\<close>, exact sizes when
  positions wrap, oversize, alignment). ConQueue_Conc is the same code with any number of threads,
  one step per access to a position or an element; ConQueue_Conc_Inv, _Claim, _Work and _Steps prove its
  invariant, ConQueue_Conc_Spec maps it to an atomic queue (linearizability of the single and default
  modes), ConQueue_Conc_Runs has conservation in every mode, quiescence, an executable scheduler and
  the relaxed-mode run that no atomic queue has. Bounds: fewer than \<open>2 ^ 32\<close> elements pushed in all
  for conservation (plus the capacity for linearizability), since claims compare 32-bit positions.

  \<^bold>\<open>conqueue.h, CLQueue.\<close> CLQueue (one caller at a time): lines with 16-bit counters and inline slots;
  CLQueue_Lines, CLQueue_Contract and CLQueue_Properties prove the contract for a life of at most 65534
  pushes per line and \<open>2 ^ 32\<close> positions, show how the full test fails after a wrap, that \<open>clear\<close> can lose an element, and
  that the shift loop of the constructor (\<open>clq_grow\<close>) ends: 33 rounds of fuel are enough, because a
  32-bit number is 0 after 32 shifts. CLQueue_Conc has \<open>emplace_impl\<close> and \<open>pop\<close> as steps of any number of
  threads; CLQueue_Conc_Spsc and _Linear prove that one producer and one consumer at the same time see an
  atomic queue (same specification as for ConQueue), CLQueue_Conc_Races builds runs of complete and of interrupted calls, and
  CLQueue_Conc_Properties shows that two producers can overwrite an element and two consumers can read
  an empty slot, whatever the size.

  \<^bold>\<open>queue-bench/atomic_queue.h.\<close> Atomic_Queue: namespace \<open>details\<close>, \<open>AtomicQueueCommon\<close>, the four queues
  and \<open>RetryDecorator\<close> for one caller; Atomic_Queue_Contract and Atomic_Queue_Properties: the shuffled index is a
  permutation, the NIL protocol and the state-byte protocol are one-element buffers, the queues are
  bounded queues, and a fixed size that does not divide \<open>2 ^ 32\<close> lets a single caller get stuck at the wrap-around. Atomic_Queue_Conc and
  Atomic_Queue_Conc2: both protocols with any number of threads (conservation, no two threads on one
  element).

  \<^bold>\<open>queue-bench/rte_ring.h.\<close> Rte_Ring: all eight enqueue and dequeue variants for one caller; the ring is
  first-in first-out for its first \<open>size - 1\<close> elements, then dequeue reads slot \<open>i % mask\<close> where enqueue
  wrote \<open>i & mask\<close>: a run from the constructor gets an old element again, and the laps in which the two agree are characterised. Rte_Ring_Conc has the same operations as steps of any number of threads;
  Rte_Ring_Conc_Sim is a forward simulation by a \<open>ConQueue\<close> of capacity \<open>mask\<close> during the first lap (fewer than \<open>size\<close>
  elements claimed), so that Rte_Ring_Conc_Properties has the same linearizability result; it also shows how one
  bulk enqueue of nothing blocks the ring for ever.

  \<^bold>\<open>queue-bench/benchmark.cc, mbench.h.\<close> Benchmark and Bench_Sum: the adaptors, flags and sizes, the
  benchmark's threads as a schedule of calls that do not overlap, and the check of \<open>test_over\<close> (sums of produced and
  consumed numbers) over every queue that meets the contract, instantiated with the models of the
  queues; Bench_Conc and Bench_ConQ: the same check with the calls of \<open>RteRing\<close> and of \<open>ConQueue\<close> interleaved access by access, from
  the conservation of elements, in the modes the program chooses for the numbers of threads; Mbench: how \<open>mbench_base\<close> splits the operations among threads.

  \<^bold>\<open>extend_mutex.h.\<close> Spin_Mutex (\<open>spin_mutex_b*\<close>), Ticket_Mutex, Shared_Mutex (\<open>shared_mutex_b*\<close>),
  Intention_Mutex (\<open>intention_mutex_b*\<close>): step relations over the lock word for any number of threads
  within the width (at most \<open>2 ^ 16\<close> threads for tickets, fewer than \<open>2 ^ (w - 1)\<close> readers), mutual exclusion, order of the tickets, and
  the reader overflow of both. Pthread_Wrappers: \<open>shared_mutex\<close>, \<open>spin_mutex\<close> and \<open>barrier_t\<close> over pthread functions
  that are parameters.

  \<^bold>\<open>tcq.h.\<close> Tcq: \<open>TCQueue::task_enqueue\<close> with \<open>en_lck\<close> and \<open>wlck\<close> as locks of extend_mutex.h;
  Tcq_Control, Tcq_Data, Tcq_Steps: invariants of control and data for up to 127 threads (the readers
  of an 8-bit lock); Tcq_Properties and Tcq_Solo: batches, conservation of promises; Tcq_Result: the futures and
  the results of a batch.

  \<^bold>\<open>Allocators.\<close> Seg_Allocator, Seg_Contract, Seg_Properties (seg_allocator.h: best fit, merging,
  traces of allocations of at least one byte that conserve the region; \<open>allocate(0)\<close>, which loses a segment, and the cases where \<open>placement_allocate\<close> is wrong); Pl_Allocator
  (pl_allocator.h: the per-thread pools); Extend_New, Extend_New_Properties (extend_new.h: arrays built
  from one argument, flexible arrays, \<open>thread_local_specific\<close> as a map from threads to values).

  \<^bold>\<open>The rest.\<close> Lru_Cache, Lru_Properties and Memo (cache.h: the cache refines a recency list;
  \<open>cached_bind\<close>, with the \<open>std::bind\<close> object and the moves out of its arguments, is transparent when these leave the stored arguments
  alone, and wrong otherwise); Function_Traits (function_traits.h: result and arguments of a callable type); Thread_Pool (thread_pool.h, with its condition variables: every worker runs its tasks in order,
  and all of them before the destructor returns; no wake-up is lost); Csv (csv.h: round trip of a file); Statistic and Zipf
  (statistic.h: sums, variance, \<open>Histogram\<close>, \<open>stddeviation\<close>, \<open>zipf_distribution\<close>); Dlog, Dlog_Properties (dlog.h: \<open>printf\<close> conversions with their
  length modifiers and promotions, buffers of \<open>DLOG_EXPR\<close>).

  \<^bold>\<open>Not modelled.\<close> queue-bench/moodycamel.h is a vendored third-party queue (used for comparison), and with it the adaptor
  \<open>ModcQ\<close>; perf-flame holds shell scripts. Weak memory and rounding are abstracted from everywhere; printing and clocks are left out.
  The single-consumer \<open>pop_bulk\<close> of \<open>ConQueue\<close> and the SPSC paths of the atomic queues are modelled for one caller only; a line of \<open>CLQueue\<close> is tested
  in one step (its two 16-bit counters); a promise of \<open>tcq.h\<close> that is destroyed without a value (\<open>broken_promise\<close>) is left
  out. The concurrent benchmark is composed with the single steps of \<open>RteQ\<close> and \<open>ConQ\<close>; for \<open>CLQ\<close>, which is wrong with several threads at one
  end, and \<open>AtQ\<close> it is not.
\<close>

end
